(* ===== verification/Blm_Prelude.thy ===== *)
theory Blm_Prelude
  imports Main "HOL-Library.Word" "HOL-Library.Multiset"
begin

unbundle bit_operations_syntax

text \<open>
  Prelude of the BLMLink SDK development: the machine types of the C and C++ sources, the
  byte-order macros every cipher and digest shares, the C library's integer division, and the
  generic lemmas on lists, words and folds that the component theories use.
\<close>

section \<open>Types\<close>

text \<open>An \<open>unsigned char\<close>, a \<open>uint32_t\<close> and a buffer of bytes.\<close>

type_synonym byte = "8 word"
type_synonym u32 = "32 word"
type_synonym bytes = "byte list"

section \<open>Fact collections\<close>

named_theorems length_simps \<open>lengths of the results of the modelled operations\<close>
named_theorems inv_intros \<open>operations preserve the invariants of their component\<close>

section \<open>Integers of C\<close>

text \<open>C's \<open>/\<close> and \<open>%\<close> on signed integers truncate towards zero.\<close>

definition cdiv :: "int \<Rightarrow> int \<Rightarrow> int" where
  "cdiv a b = sgn a * sgn b * (\<bar>a\<bar> div \<bar>b\<bar>)"

definition cmod :: "int \<Rightarrow> int \<Rightarrow> int" where
  "cmod a b = a - cdiv a b * b"

lemma cdiv_nonneg [simp]: "0 \<le> a \<Longrightarrow> 0 < b \<Longrightarrow> cdiv a b = a div b"
  by (cases "a = 0") (simp_all add: cdiv_def)

lemma cmod_nonneg [simp]: "0 \<le> a \<Longrightarrow> 0 < b \<Longrightarrow> cmod a b = a mod b"
  by (simp add: cmod_def minus_div_mult_eq_mod)

lemma cdiv_cmod: "cdiv a b * b + cmod a b = a"
  by (simp add: cmod_def)

text \<open>Reading a 32-bit pattern as a C \<open>int\<close>, and the pattern an \<open>int\<close> is stored as.\<close>

abbreviation int_of_u32 :: "u32 \<Rightarrow> int" where
  "int_of_u32 w \<equiv> sint w"

abbreviation u32_of_int :: "int \<Rightarrow> u32" where
  "u32_of_int i \<equiv> word_of_int i"

lemma int_u32_roundtrip:
  "- (2 ^ 31) \<le> i \<Longrightarrow> i < 2 ^ 31 \<Longrightarrow> int_of_u32 (u32_of_int i) = i"
  by (simp add: sint_word_ariths signed_take_bit_int_eq_self sint_sbintrunc')

section \<open>Bits and bytes\<close>

lemma and_255_nat: "(n::nat) AND 255 = n mod 256"
  using take_bit_eq_mask [of 8 n] by (simp add: mask_eq_exp_minus_1 take_bit_eq_mod)

lemma and_mask_nat:
  "(n::nat) AND 3 = n mod 4" "(n::nat) AND 15 = n mod 16" "(n::nat) AND 63 = n mod 64"
  using take_bit_eq_mask [of 2 n] take_bit_eq_mask [of 4 n] take_bit_eq_mask [of 6 n]
  by (simp_all add: mask_eq_exp_minus_1 take_bit_eq_mod)

lemma unat_byte_lt: "unat (b :: byte) < 256"
  using unsigned_less [of b, where 'a = nat] by simp

lemma of_nat_unat_byte: "(of_nat (unat (b :: byte)) :: byte) = b"
  by simp

lemma unat_of_nat_byte: "n < 256 \<Longrightarrow> unat (of_nat n :: byte) = n"
  by (simp add: unat_of_nat take_bit_eq_mod)

text \<open>A property of all bytes is a property of the 256 values.\<close>

lemma byte_all_eval:
  assumes "list_all (\<lambda>n. P (of_nat n)) [0..<256]"
  shows "P (b :: byte)"
proof -
  have "P (of_nat (unat b))"
    using assms unat_byte_lt [of b] by (auto simp only: list_all_iff set_upt atLeastLessThan_iff)
  then show ?thesis by simp
qed

lemma xor_cancel_right [simp]: "((a :: 'a::len word) XOR b) XOR b = a"
  by (simp add: xor.assoc)

lemma xor_cancel_left [simp]: "(b :: 'a::len word) XOR (b XOR a) = a"
  by (simp flip: xor.assoc)

text \<open>The byte-order macros: \<open>GET_UINT32_LE\<close> and \<open>PUT_UINT32_LE\<close> read and write four bytes,
  least significant first; \<open>GET_UINT32_BE\<close> and \<open>PUT_UINT32_BE\<close> most significant first.\<close>

definition GET_UINT32_LE :: "bytes \<Rightarrow> nat \<Rightarrow> u32" where
  "GET_UINT32_LE b i =
     (ucast (b ! i) :: u32)
     OR push_bit 8 (ucast (b ! (i + 1)))
     OR push_bit 16 (ucast (b ! (i + 2)))
     OR push_bit 24 (ucast (b ! (i + 3)))"

definition PUT_UINT32_LE :: "u32 \<Rightarrow> bytes" where
  "PUT_UINT32_LE n =
     [ucast n, ucast (drop_bit 8 n), ucast (drop_bit 16 n), ucast (drop_bit 24 n)]"

definition GET_UINT32_BE :: "bytes \<Rightarrow> nat \<Rightarrow> u32" where
  "GET_UINT32_BE b i =
     push_bit 24 (ucast (b ! i) :: u32)
     OR push_bit 16 (ucast (b ! (i + 1)))
     OR push_bit 8 (ucast (b ! (i + 2)))
     OR ucast (b ! (i + 3))"

definition PUT_UINT32_BE :: "u32 \<Rightarrow> bytes" where
  "PUT_UINT32_BE n =
     [ucast (drop_bit 24 n), ucast (drop_bit 16 n), ucast (drop_bit 8 n), ucast n]"

lemma length_PUT_UINT32 [simp, length_simps]:
  "length (PUT_UINT32_LE n) = 4" "length (PUT_UINT32_BE n) = 4"
  by (simp_all add: PUT_UINT32_LE_def PUT_UINT32_BE_def)

lemma bit_ucast_byte: "bit (ucast (b :: byte) :: u32) k \<longleftrightarrow> k < 8 \<and> bit b k"
  by (auto simp: bit_simps dest: bit_imp_le_length)

lemma bit_byte_ge: "8 \<le> k \<Longrightarrow> \<not> bit (b :: byte) k"
  using bit_imp_le_length [of b k] by auto

text \<open>The byte of a word at a shift of 0, 8, 16 or 24 bits.\<close>

definition byte_at :: "nat \<Rightarrow> u32 \<Rightarrow> byte" where
  "byte_at s w = ucast (drop_bit s w)"

text \<open>A word from its four bytes, least significant first, as the sources combine them.\<close>

definition word4 :: "byte \<Rightarrow> byte \<Rightarrow> byte \<Rightarrow> byte \<Rightarrow> u32" where
  "word4 a b c d =
     ucast a XOR push_bit 8 (ucast b) XOR push_bit 16 (ucast c) XOR push_bit 24 (ucast d)"

lemma bit_u32_ge: "32 \<le> k \<Longrightarrow> \<not> bit (b :: u32) k"
  using bit_imp_le_length [of b k] by auto

lemma octet_cases:
  assumes "k < (32::nat)"
  obtains j where "j < 8" "k = j" | j where "j < 8" "k = j + 8"
    | j where "j < 8" "k = j + 16" | j where "j < 8" "k = j + 24"
proof -
  consider "k < 8" | "8 \<le> k \<and> k < 16" | "16 \<le> k \<and> k < 24" | "24 \<le> k \<and> k < 32"
    using assms by linarith
  then show thesis
  proof cases
    case 1 then show thesis using that(1) by blast
  next
    case 2 then show thesis using that(2) [of "k - 8"] by simp
  next
    case 3 then show thesis using that(3) [of "k - 16"] by simp
  next
    case 4 then show thesis using that(4) [of "k - 24"] by simp
  qed
qed

lemma bit_word4:
  assumes "j < 8"
  shows "bit (word4 a b c d) j = bit a j"
    and "bit (word4 a b c d) (j + 8) = bit b j"
    and "bit (word4 a b c d) (j + 16) = bit c j"
    and "bit (word4 a b c d) (j + 24) = bit d j"
  using assms by (simp_all add: word4_def bit_simps bit_byte_ge)

lemma bit_byte_at: "j < 8 \<Longrightarrow> bit (byte_at s w) j = bit w (j + s)"
  by (simp add: byte_at_def bit_simps add.commute)

lemma mask_FF: "(0xFF :: u32) = mask 8"
  by (simp add: mask_eq_exp_minus_1)

lemma unat_byte_at: "unat (drop_bit s w AND 0xFF) = unat (byte_at s w)"
proof -
  have "drop_bit s w AND 0xFF = ucast (byte_at s w)"
    unfolding mask_FF by (rule bit_word_eqI) (auto simp: byte_at_def bit_simps)
  then show ?thesis by simp (simp add: unsigned_ucast_eq take_bit_nat_eq_self_iff less_trans [OF unat_byte_lt])
qed

lemma byte_eqI: "(\<And>j. j < 8 \<Longrightarrow> bit (a :: byte) j = bit b j) \<Longrightarrow> a = b"
  by (rule bit_word_eqI) simp

lemma byte_at_word4 [simp]:
  "byte_at 0 (word4 a b c d) = a" "byte_at 8 (word4 a b c d) = b"
  "byte_at 16 (word4 a b c d) = c" "byte_at 24 (word4 a b c d) = d"
  by (rule byte_eqI; simp only: bit_byte_at bit_word4 add_0_right)+

lemma u32_eqI:
  assumes "byte_at 0 v = byte_at 0 w" "byte_at 8 v = byte_at 8 w"
    and "byte_at 16 v = byte_at 16 w" "byte_at 24 v = byte_at 24 w"
  shows "v = (w :: u32)"
proof (rule bit_word_eqI)
  fix k assume "k < LENGTH(32)"
  then have "k < 32" by simp
  then show "bit v k = bit w k"
    by (cases rule: octet_cases)
       (metis assms bit_byte_at add_0_right)+
qed

lemma word4_byte_at [simp]: "word4 (byte_at 0 w) (byte_at 8 w) (byte_at 16 w) (byte_at 24 w) = w"
  by (rule u32_eqI) simp_all

lemma byte_at_xor: "byte_at s (v XOR w) = byte_at s v XOR byte_at s w"
  by (rule byte_eqI) (simp add: byte_at_def bit_simps)

lemma word4_xor: "word4 a b c d XOR word4 a' b' c' d' =
    word4 (a XOR a') (b XOR b') (c XOR c') (d XOR d')"
  by (rule u32_eqI) (simp_all only: byte_at_xor byte_at_word4)

lemma word4_zero [simp]: "word4 0 0 0 0 = 0"
  by (simp add: word4_def)

lemma bit_rotl_octet:
  assumes "k < 32" "n < 32"
  shows "bit (word_rotl n (w :: u32)) k = bit w ((k + 32 - n) mod 32)"
  using assms by (simp add: bit_word_rotl_iff)

lemma octet_mod:
  assumes "j < (8::nat)"
  shows "(j + 32) mod 32 = j" "(j + 40) mod 32 = j + 8" "(j + 48) mod 32 = j + 16"
    "(j + 24) mod 32 = j + 24" "(j + 16) mod 32 = j + 16" "(j + 8) mod 32 = j + 8"
  using assms by (simp_all add: mod_if)

lemma byte_at_rotl:
  "byte_at 0 (word_rotl 8 w) = byte_at 24 w" "byte_at 8 (word_rotl 8 w) = byte_at 0 w"
  "byte_at 16 (word_rotl 8 w) = byte_at 8 w" "byte_at 24 (word_rotl 8 w) = byte_at 16 w"
  by (rule byte_eqI, simp add: bit_byte_at bit_rotl_octet octet_mod add.commute)+

lemma word_rotl_word4:
  "word_rotl 8 (word4 a b c d) = word4 d a b c"
  "word_rotl 16 (word4 a b c d) = word4 c d a b"
  "word_rotl 24 (word4 a b c d) = word4 b c d a"
proof -
  show r8: "word_rotl 8 (word4 a b c d) = word4 d a b c" for a b c d
    by (rule u32_eqI) (simp_all only: byte_at_rotl byte_at_word4)
  have m: "(48 + n) mod 32 = (n + 16) mod (32::nat)" "(40 + n) mod 32 = (n + 8) mod (32::nat)" for n
    using mod_add_cong [of 48 32 16 n n] mod_add_cong [of 40 32 8 n n]
    by (simp_all add: add.commute)
  have "word_rotl 16 w = word_rotl 8 (word_rotl 8 (w :: u32))"
    "word_rotl 24 w = word_rotl 8 (word_rotl 8 (word_rotl 8 (w :: u32)))" for w
    by (rule bit_word_eqI, simp add: bit_word_rotl_iff mod_add_left_eq m)+
  then show "word_rotl 16 (word4 a b c d) = word4 c d a b"
    "word_rotl 24 (word4 a b c d) = word4 b c d a"
    by (simp_all only: r8)
qed

lemma bytes_word4_or:
  "ucast a OR push_bit 8 (ucast b) OR push_bit 16 (ucast c) OR push_bit 24 (ucast d) = word4 a b c d"
  (is "?w = _")
proof (rule u32_eqI)
  show "byte_at 0 ?w = byte_at 0 (word4 a b c d)"
    by (rule byte_eqI) (simp add: bit_byte_at bit_word4 bit_simps)
  show "byte_at 8 ?w = byte_at 8 (word4 a b c d)"
    by (rule byte_eqI) (simp add: bit_byte_at bit_word4 bit_simps bit_byte_ge)
  show "byte_at 16 ?w = byte_at 16 (word4 a b c d)"
    by (rule byte_eqI) (simp add: bit_byte_at bit_word4 bit_simps bit_byte_ge)
  show "byte_at 24 ?w = byte_at 24 (word4 a b c d)"
    by (rule byte_eqI) (simp add: bit_byte_at bit_word4 bit_simps bit_byte_ge)
qed

lemma GET_UINT32_LE_word4: "GET_UINT32_LE b i = word4 (b ! i) (b ! (i+1)) (b ! (i+2)) (b ! (i+3))"
  unfolding GET_UINT32_LE_def bytes_word4_or ..

lemma PUT_UINT32_LE_byte_at:
  "PUT_UINT32_LE n = [byte_at 0 n, byte_at 8 n, byte_at 16 n, byte_at 24 n]"
  by (simp add: PUT_UINT32_LE_def byte_at_def)

lemma GET_PUT_LE [simp]: "GET_UINT32_LE (PUT_UINT32_LE n @ r) 0 = n"
  by (simp add: GET_UINT32_LE_word4 PUT_UINT32_LE_byte_at)

text \<open>A rotation written as two shifts.\<close>

lemma rotl_shifts:
  assumes "0 < n" "n < 32"
  shows "push_bit n (x :: u32) OR drop_bit (32 - n) x = word_rotl n x"
proof (rule bit_word_eqI)
  fix k assume "k < LENGTH(32)"
  then have k: "k < 32" by simp
  show "bit (push_bit n x OR drop_bit (32 - n) x) k = bit (word_rotl n x) k"
  proof (cases "n \<le> k")
    case True
    then have "(k + 32 - n) mod 32 = k - n" using k assms by (simp add: mod_if)
    moreover have "\<not> bit x (32 - n + k)" using True assms by (intro bit_u32_ge) simp
    ultimately show ?thesis using True k assms by (simp add: bit_simps bit_rotl_octet)
  next
    case False
    then have "(k + 32 - n) mod 32 = 32 - n + k" using k assms by simp
    then show ?thesis using False k assms by (simp add: bit_simps bit_rotl_octet)
  qed
qed

lemma and_all_ones: "x AND (0xFFFFFFFF :: u32) = x"
proof -
  have e: "(0xFFFFFFFF :: u32) = - 1" by simp
  show ?thesis unfolding e by (rule and.right_neutral)
qed

section \<open>Lists\<close>

text \<open>Evaluating an index range that starts at 0.\<close>

lemma upt_eval:
  "[0..<numeral n] = 0 # [1..<numeral n]"
  "[Suc 0..<numeral n] = (if (1::nat) < numeral n then 1 # [2..<numeral n] else [])"
  by (simp_all add: upt_rec [of 0] upt_rec [of "Suc 0"] numeral_2_eq_2)

lemma map2_xor_cancel [simp]:
  "length (xs :: 'a::len word list) = length ys \<Longrightarrow>
   map2 (XOR) (map2 (XOR) xs ys) ys = xs"
  by (induction xs ys rule: list_induct2) simp_all

lemma fold_invariant:
  assumes "P s" and "\<And>x s. x \<in> set xs \<Longrightarrow> P s \<Longrightarrow> P (f x s)"
  shows "P (fold f xs s)"
  using assms by (induction xs arbitrary: s) auto

lemma list_swap_mset:
  assumes "i < length xs" "j < length xs"
  shows "mset (xs[i := xs ! j, j := xs ! i]) = mset xs"
  using assms by (metis list_update_swap list_update_id list_update_overwrite mset_swap)

end
