(* ===== verification/C_Strings.thy ===== *)
theory C_Strings
  imports Blm_Prelude
begin

text \<open>
  What the sources use of the C library on characters and strings: the classification of
  characters in the C locale, and the decimal and hexadecimal conversions of \<open>sprintf\<close>. A C
  string is the list of its characters before the terminating zero.
\<close>

section \<open>Characters\<close>

text \<open>The character at a pointer.\<close>

definition cur :: "string \<Rightarrow> char" where
  "cur s = (case s of [] \<Rightarrow> CHR 0x00 | c # _ \<Rightarrow> c)"

definition code :: "char \<Rightarrow> nat" where
  "code c = of_char c"

definition isalpha :: "char \<Rightarrow> bool" where
  "isalpha c \<longleftrightarrow> 65 \<le> code c \<and> code c \<le> 90 \<or> 97 \<le> code c \<and> code c \<le> 122"

definition isdigit :: "char \<Rightarrow> bool" where
  "isdigit c \<longleftrightarrow> 48 \<le> code c \<and> code c \<le> 57"

definition digit_value :: "char \<Rightarrow> int" where
  "digit_value c = int (code c) - 48"

definition isspace :: "char \<Rightarrow> bool" where
  "isspace c \<longleftrightarrow> code c = 32 \<or> 9 \<le> code c \<and> code c \<le> 13"

definition hex_value :: "char \<Rightarrow> nat option" where
  "hex_value c =
     (if 48 \<le> code c \<and> code c \<le> 57 then Some (code c - 48)
      else if 65 \<le> code c \<and> code c \<le> 70 then Some (code c - 55)
      else if 97 \<le> code c \<and> code c \<le> 102 then Some (code c - 87)
      else None)"

section \<open>Conversions\<close>

text \<open>\<open>sprintf\<close> with \<open>%d\<close>.\<close>

fun dec_nat :: "nat \<Rightarrow> string" where
  "dec_nat n = (if n < 10 then [char_of (48 + n)] else dec_nat (n div 10) @ [char_of (48 + n mod 10)])"

declare dec_nat.simps [simp del]

definition dec_int :: "int \<Rightarrow> string" where
  "dec_int i = (if i < 0 then CHR ''-'' # dec_nat (nat (- i)) else dec_nat (nat i))"

text \<open>A digit of \<open>%x\<close>.\<close>

definition hex_char :: "nat \<Rightarrow> char" where
  "hex_char n = char_of (if n < 10 then 48 + n else 87 + n)"

section \<open>Lemmas\<close>

lemma dec_nat_length: "n < 10 ^ Suc k \<Longrightarrow> length (dec_nat n) \<le> Suc k"
proof (induction k arbitrary: n)
  case (Suc k)
  show ?case
  proof (cases "n < 10")
    case False
    then have "n div 10 < 10 ^ Suc k" using Suc.prems by (simp add: less_mult_imp_div_less)
    then show ?thesis using Suc.IH [of "n div 10"] by (subst dec_nat.simps) simp
  qed (simp add: dec_nat.simps)
qed (simp add: dec_nat.simps)

lemma code_char_of: "n < 256 \<Longrightarrow> code (char_of n) = n"
  by (simp add: code_def)

lemma isdigit_char_of: "d < 10 \<Longrightarrow> isdigit (char_of (48 + d :: nat))"
  by (simp add: isdigit_def code_char_of)

lemma char_of_0: "char_of (48 :: nat) = CHR ''0''"
  using char_of_char [of "CHR ''0''"] by simp

lemma char_of_digit: "d < 10 \<Longrightarrow> char_of (48 + d :: nat) = CHR ''0'' \<longleftrightarrow> d = 0"
proof -
  assume d: "d < 10"
  have "code (CHR ''0'') = 48" by (simp add: code_def)
  then show "char_of (48 + d :: nat) = CHR ''0'' \<longleftrightarrow> d = 0"
    using code_char_of [of "48 + d"] d by (auto simp: char_of_0)
qed

lemma dec_nat_digits: "list_all isdigit (dec_nat n)"
proof (induction n rule: dec_nat.induct)
  case (1 n)
  then show ?case by (cases "n < 10") (simp_all add: dec_nat.simps [of n] isdigit_char_of)
qed

lemma dec_nat_Cons: "\<exists>c t. dec_nat n = c # t \<and> isdigit c"
proof -
  have "dec_nat n \<noteq> []" by (simp add: dec_nat.simps [of n])
  then show ?thesis using dec_nat_digits [of n] by (cases "dec_nat n") simp_all
qed

lemma dec_nat_head:
  "0 < n \<Longrightarrow> \<exists>c s. dec_nat n = c # s \<and> isdigit c \<and> c \<noteq> CHR ''0''"
proof (induction n rule: dec_nat.induct)
  case (1 n)
  show ?case
  proof (cases "n < 10")
    case True
    then show ?thesis using 1(2) by (simp add: dec_nat.simps isdigit_char_of char_of_digit)
  next
    case False
    then obtain c s where "dec_nat (n div 10) = c # s \<and> isdigit c \<and> c \<noteq> CHR ''0''" using 1(1) by (metis div_greater_zero_iff not_less zero_less_numeral)
    then show ?thesis using False by (subst dec_nat.simps) simp
  qed
qed

lemma hex_value_hex_char: "n < 16 \<Longrightarrow> hex_value (hex_char n) = Some n"
  by (auto simp: hex_value_def hex_char_def code_char_of)

end
