(* ===== verification/CJson.thy ===== *)
theory CJson
  imports C_Strings
begin

unbundle bit_operations_syntax

text \<open>
  The JSON parser and printer of \<open>src/imp/cJSON.c\<close>, on trees of items. A C string is the list of
  its characters before the terminating zero, a pointer into it is the suffix from there on, and the
  empty list is the position of the terminating zero. Reading or moving beyond it, writing beyond an
  allocated buffer and overflow of a signed integer are the outcome \<open>Fault\<close>; a call of
  \<open>cJSON_malloc\<close> that returns null is a branch of its own; a failed parse carries the value left in
  the global \<open>ep\<close>. Arithmetic on \<open>double\<close> and its conversion to text are operations of the
  environment, so that nothing is assumed of rounding.
\<close>

section \<open>Items, environment, outcomes\<close>

text \<open>The fields of \<open>struct cJSON\<close>; the chain that \<open>child\<close>, \<open>next\<close> and \<open>prev\<close> make is the list of
  the children.\<close>

datatype 'd cJSON = cJSON (ctype: nat) (valuestring: "string option") (valueint: int) (valuedouble: 'd)
  (cstring: "string option") (children: "'d cJSON list")

abbreviation cJSON_False :: nat where "cJSON_False \<equiv> 0"
abbreviation cJSON_True :: nat where "cJSON_True \<equiv> 1"
abbreviation cJSON_NULL :: nat where "cJSON_NULL \<equiv> 2"
abbreviation cJSON_Number :: nat where "cJSON_Number \<equiv> 3"
abbreviation cJSON_String :: nat where "cJSON_String \<equiv> 4"
abbreviation cJSON_Array :: nat where "cJSON_Array \<equiv> 5"
abbreviation cJSON_Object :: nat where "cJSON_Object \<equiv> 6"

text \<open>What the code takes from its environment: whether the \<open>n\<close>-th call of \<open>cJSON_malloc\<close> succeeds,
  what the variables \<open>uc\<close> and \<open>uc2\<close> of \<open>parse_string\<close> hold before they are written, and the
  operations on \<open>double\<close>.\<close>

record 'd cenv =
  env_malloc :: "nat \<Rightarrow> bool"
  env_uc :: u32
  env_uc2 :: u32
  fp_of_int :: "int \<Rightarrow> 'd"
  fp_add :: "'d \<Rightarrow> 'd \<Rightarrow> 'd"
  fp_sub :: "'d \<Rightarrow> 'd \<Rightarrow> 'd"
  fp_mul :: "'d \<Rightarrow> 'd \<Rightarrow> 'd"
  fp_pow10 :: "'d \<Rightarrow> 'd"
  fp_to_int :: "'d \<Rightarrow> int"
  fp_abs :: "'d \<Rightarrow> 'd"
  fp_floor :: "'d \<Rightarrow> 'd"
  fp_le :: "'d \<Rightarrow> 'd \<Rightarrow> bool"
  fp_lt :: "'d \<Rightarrow> 'd \<Rightarrow> bool"
  fp_epsilon :: 'd
  fp_1e60 :: 'd
  fp_1em6 :: 'd
  fp_1e9 :: 'd
  fp_fmt_0f :: "'d \<Rightarrow> string"
  fp_fmt_e :: "'d \<Rightarrow> string"
  fp_fmt_f :: "'d \<Rightarrow> string"

datatype 'a outcome = Ok 'a | Fail "string option" | Fault | NoFuel

text \<open>Going on after a step that succeeded, with the counter of allocations; any other outcome is
  passed to the caller, as the code's \<open>if (!value) return 0\<close> does.\<close>

definition obind :: "'a outcome \<times> nat \<Rightarrow> ('a \<Rightarrow> nat \<Rightarrow> 'b outcome \<times> nat) \<Rightarrow> 'b outcome \<times> nat" where
  "obind r f = (case r of (Ok a, k) \<Rightarrow> f a k | (Fail e, k) \<Rightarrow> (Fail e, k)
     | (Fault, k) \<Rightarrow> (Fault, k) | (NoFuel, k) \<Rightarrow> (NoFuel, k))"

lemma obind_simps [simp]:
  "obind (Ok a, k) f = f a k" "obind (Fail e, k) f = (Fail e, k)"
  "obind (Fault, k) f = (Fault, k)" "obind (NoFuel, k) f = (NoFuel, k)"
  by (simp_all add: obind_def)

lemma obind_cong [fundef_cong]:
  "x = y \<Longrightarrow> (\<And>a k. y = (Ok a, k) \<Longrightarrow> f a k = g a k) \<Longrightarrow> obind x f = obind y g"
  by (auto simp: obind_def split: outcome.split prod.split)

lemma obind_Ok: "obind r f = (Ok b, k') \<longleftrightarrow> (\<exists>a k. r = (Ok a, k) \<and> f a k = (Ok b, k'))"
  by (auto simp: obind_def split: outcome.splits prod.splits)

lemma obind_cases:
  assumes "obind r f = r'"
  obtains (Ok) a k where "r = (Ok a, k)" "f a k = r'" | (stop) "fst r = Fault \<and> fst r' = Fault \<or> fst r = NoFuel \<and> fst r' = NoFuel \<or> (\<exists>e. fst r = Fail e \<and> fst r' = Fail e)"
  using assms by (cases r; cases "fst r") auto

section \<open>White space\<close>

text \<open>\<open>skip\<close>\<close>

fun skip :: "string \<Rightarrow> string" where
  "skip [] = []"
| "skip (c # s) = (if code c \<le> 32 then skip s else c # s)"

section \<open>Numbers\<close>

fun int_digits :: "'d cenv \<Rightarrow> 'd \<Rightarrow> string \<Rightarrow> 'd \<times> string" where
  "int_digits E n [] = (n, [])"
| "int_digits E n (c # s) =
     (if isdigit c then int_digits E (fp_add E (fp_mul E n (fp_of_int E 10)) (fp_of_int E (digit_value c))) s
      else (n, c # s))"

fun frac_digits :: "'d cenv \<Rightarrow> 'd \<Rightarrow> 'd \<Rightarrow> string \<Rightarrow> 'd \<times> 'd \<times> string" where
  "frac_digits E n scale [] = (n, scale, [])"
| "frac_digits E n scale (c # s) =
     (if isdigit c
      then frac_digits E (fp_add E (fp_mul E n (fp_of_int E 10)) (fp_of_int E (digit_value c)))
             (fp_sub E scale (fp_of_int E 1)) s
      else (n, scale, c # s))"

text \<open>The exponent is a C \<open>int\<close>.\<close>

fun exp_digits :: "int \<Rightarrow> string \<Rightarrow> (int \<times> string) outcome" where
  "exp_digits subscale [] = Ok (subscale, [])"
| "exp_digits subscale (c # s) =
     (if isdigit c then
        (if subscale * 10 + digit_value c > 2 ^ 31 - 1 then Fault
         else exp_digits (subscale * 10 + digit_value c) s)
      else Ok (subscale, c # s))"

definition parse_exponent :: "string \<Rightarrow> (int \<times> int \<times> string) outcome" where
  "parse_exponent num =
     (if cur num = CHR ''e'' \<or> cur num = CHR ''E'' then
        let num = tl num;
            (signsubscale, num) =
              (if cur num = CHR ''+'' then (1, tl num)
               else if cur num = CHR ''-'' then (-1, tl num) else (1, num))
        in (case exp_digits 0 num of
              Ok (subscale, num) \<Rightarrow> Ok (subscale, signsubscale, num)
            | Fail e \<Rightarrow> Fail e | Fault \<Rightarrow> Fault | NoFuel \<Rightarrow> NoFuel)
      else Ok (0, 1, num))"

text \<open>The number up to its exponent: sign, digits, scale.\<close>

definition parse_mantissa :: "'d cenv \<Rightarrow> string \<Rightarrow> 'd \<times> 'd \<times> 'd \<times> string" where
  "parse_mantissa E num =
     (let n = fp_of_int E 0; scale = fp_of_int E 0;
          (sign, num) = (if cur num = CHR ''-'' then (fp_of_int E (-1), tl num) else (fp_of_int E 1, num));
          num = (if cur num = CHR ''0'' then tl num else num);
          (n, num) = (if isdigit (cur num) \<and> cur num \<noteq> CHR ''0'' then int_digits E n num else (n, num));
          (n, scale, num) =
            (if cur num = CHR ''.'' \<and> isdigit (cur (tl num)) then frac_digits E n scale (tl num)
             else (n, scale, num))
      in (sign, n, scale, num))"

definition parse_number :: "'d cenv \<Rightarrow> 'd cJSON \<Rightarrow> string \<Rightarrow> ('d cJSON \<times> string) outcome" where
  "parse_number E item num =
     (let (sign, n, scale, num) = parse_mantissa E num
      in case parse_exponent num of
           Ok (subscale, signsubscale, num) \<Rightarrow>
             (let n = fp_mul E (fp_mul E sign n)
                        (fp_pow10 E (fp_add E scale (fp_of_int E (subscale * signsubscale))))
              in Ok (cJSON cJSON_Number (valuestring item) (fp_to_int E n) n (cstring item) (children item), num))
         | Fail e \<Rightarrow> Fail e | Fault \<Rightarrow> Fault | NoFuel \<Rightarrow> NoFuel)"

datatype print_result = Text string | Null | PFault

text \<open>Writing a string and its terminating zero to a buffer of \<open>cap\<close> bytes.\<close>

definition in_buffer :: "nat \<Rightarrow> string \<Rightarrow> print_result" where
  "in_buffer cap str = (if length str < cap then Text str else PFault)"

definition print_number :: "'d cenv \<Rightarrow> 'd cJSON \<Rightarrow> nat \<Rightarrow> print_result \<times> nat" where
  "print_number E item k =
     (let d = valuedouble item in
      if fp_le E (fp_abs E (fp_sub E (fp_of_int E (valueint item)) d)) (fp_epsilon E)
         \<and> fp_le E d (fp_of_int E (2 ^ 31 - 1)) \<and> fp_le E (fp_of_int E (- (2 ^ 31))) d
      then (if env_malloc E k then in_buffer 21 (dec_int (valueint item)) else Null, k + 1)
      else if env_malloc E k then
        (if fp_le E (fp_abs E (fp_sub E (fp_floor E d) d)) (fp_epsilon E) \<and> fp_lt E (fp_abs E d) (fp_1e60 E)
         then in_buffer 64 (fp_fmt_0f E d)
         else if fp_lt E (fp_abs E d) (fp_1em6 E) \<or> fp_lt E (fp_1e9 E) (fp_abs E d)
         then in_buffer 64 (fp_fmt_e E d)
         else in_buffer 64 (fp_fmt_f E d), k + 1)
      else (Null, k + 1))"

section \<open>Strings\<close>

definition firstByteMark :: "nat list" where
  "firstByteMark = [0x00, 0x00, 0xC0, 0xE0, 0xF0, 0xF8, 0xFC]"

definition isend :: "char \<Rightarrow> bool \<Rightarrow> bool" where
  "isend ch isplain \<longleftrightarrow> ch = CHR 0x22 \<or> isplain \<and> \<not> isalpha ch \<and> ch \<noteq> CHR ''_''"

text \<open>The first pass of \<open>parse_string\<close> counts characters and escapes; a backslash before the
  terminating zero takes the pointer beyond it.\<close>

fun parse_string_len :: "bool \<Rightarrow> string \<Rightarrow> nat \<Rightarrow> nat option" where
  "parse_string_len isplain [] len = Some len"
| "parse_string_len isplain (c # ptr) len =
     (if isend c isplain then Some len
      else if c = CHR 0x5C then
        (case ptr of [] \<Rightarrow> None | _ # ptr \<Rightarrow> parse_string_len isplain ptr (len + 1))
      else parse_string_len isplain ptr (len + 1))"

text \<open>\<open>sscanf\<close> with \<open>%4x\<close>: white space is skipped, then at most four characters are an optional
  sign, an optional \<open>0x\<close> and hexadecimal digits; without a digit nothing is stored.\<close>

fun hex_digits :: "nat \<Rightarrow> string \<Rightarrow> nat list" where
  "hex_digits 0 s = []"
| "hex_digits (Suc w) [] = []"
| "hex_digits (Suc w) (c # s) = (case hex_value c of None \<Rightarrow> [] | Some v \<Rightarrow> v # hex_digits w s)"

definition hex_number :: "nat list \<Rightarrow> u32" where
  "hex_number ds = fold (\<lambda>d n. n * 16 + of_nat d) ds 0"

definition sscanf_4x :: "string \<Rightarrow> u32 option" where
  "sscanf_4x s =
     (let s = dropWhile isspace s;
          neg = (cur s = CHR ''-'');
          (w, s) = (if neg \<or> cur s = CHR ''+'' then (3, tl s) else (4, s));
          (w, s, prefix) = (if w \<ge> 2 \<and> cur s = CHR ''0'' \<and> (cur (tl s) = CHR ''x'' \<or> cur (tl s) = CHR ''X'')
                    then (w - 2, tl (tl s), True) else (w, s, False));
          ds = hex_digits w s
      in if ds = [] then None else Some (if neg then - hex_number ds else hex_number ds))"

text \<open>The bytes of a code point, as the switch on \<open>len\<close> writes them from the last to the first, and
  the value it leaves in \<open>uc\<close>.\<close>

definition utf8_len :: "u32 \<Rightarrow> nat" where
  "utf8_len uc = (if uc < 0x80 then 1 else if uc < 0x800 then 2 else if uc < 0x10000 then 3 else 4)"

fun utf8_tail :: "nat \<Rightarrow> u32 \<Rightarrow> string \<Rightarrow> string \<times> u32" where
  "utf8_tail 0 uc out = (out, uc)"
| "utf8_tail (Suc n) uc out =
     utf8_tail n (drop_bit 6 uc) (char_of (unat ((uc OR 0x80) AND 0xBF)) # out)"

definition utf8_bytes :: "u32 \<Rightarrow> string \<times> u32" where
  "utf8_bytes uc =
     (let len = utf8_len uc; (out, uc) = utf8_tail (len - 1) uc []
      in (char_of (unat (uc OR of_nat (firstByteMark ! len)) mod 256) # out, uc))"

text \<open>The escape \<open>\u\<close>, with \<open>ptr\<close> behind the \<open>u\<close>: the bytes to write, the position behind the
  escape and the values of \<open>uc\<close> and \<open>uc2\<close>.\<close>

definition parse_u :: "u32 \<Rightarrow> u32 \<Rightarrow> string \<Rightarrow> (string \<times> string \<times> u32 \<times> u32) option" where
  "parse_u uc uc2 ptr =
     (let uc = (case sscanf_4x ptr of None \<Rightarrow> uc | Some v \<Rightarrow> v) in
      if length ptr < 4 then None
      else if uc \<ge> 0xDC00 \<and> uc \<le> 0xDFFF \<or> uc = 0 then Some ([], drop 4 ptr, uc, uc2)
      else if uc \<ge> 0xD800 \<and> uc \<le> 0xDBFF then
        let ptr = drop 4 ptr in
        if cur ptr \<noteq> CHR 0x5C \<or> cur (tl ptr) \<noteq> CHR ''u'' then Some ([], ptr, uc, uc2)
        else let uc2 = (case sscanf_4x (drop 2 ptr) of None \<Rightarrow> uc2 | Some v \<Rightarrow> v) in
          if length ptr < 6 then None
          else if uc2 < 0xDC00 \<or> uc2 > 0xDFFF then Some ([], drop 6 ptr, uc, uc2)
          else let uc = 0x10000 + (push_bit 10 (uc AND 0x3FF) OR (uc2 AND 0x3FF));
                   (out, uc) = utf8_bytes uc
               in Some (out, drop 6 ptr, uc, uc2)
      else let (out, uc) = utf8_bytes uc in Some (out, drop 4 ptr, uc, uc2))"

definition unescape :: "char \<Rightarrow> char" where
  "unescape c =
     (if c = CHR ''b'' then CHR 0x08 else if c = CHR ''f'' then CHR 0x0C
      else if c = CHR ''n'' then CHR 0x0A else if c = CHR ''r'' then CHR 0x0D
      else if c = CHR ''t'' then CHR 0x09 else c)"

lemma parse_u_length: "parse_u uc uc2 ptr = Some (o', ptr', x) \<Longrightarrow> length ptr' \<le> length ptr"
  by (auto simp: parse_u_def Let_def split: if_splits prod.splits)

text \<open>The second pass writes to a buffer of \<open>cap\<close> bytes; \<open>out\<close> is what is written so far. The
  result is the string and the position of the character that ended it.\<close>

function parse_string_copy :: "bool \<Rightarrow> nat \<Rightarrow> u32 \<Rightarrow> u32 \<Rightarrow> string \<Rightarrow> string \<Rightarrow> (string \<times> string) option" where
  "parse_string_copy isplain cap uc uc2 out ptr =
     (case ptr of
        [] \<Rightarrow> if length out < cap then Some (out, []) else None
      | c # r \<Rightarrow>
          if isend c isplain then (if length out < cap then Some (out, c # r) else None)
          else if c \<noteq> CHR 0x5C then
            (if length out < cap then parse_string_copy isplain cap uc uc2 (out @ [c]) r else None)
          else (case r of
              [] \<Rightarrow> None
            | e # r \<Rightarrow>
                if e \<noteq> CHR ''u'' then
                  (if length out < cap then parse_string_copy isplain cap uc uc2 (out @ [unescape e]) r else None)
                else (case parse_u uc uc2 r of
                    None \<Rightarrow> None
                  | Some (o', r', uc, uc2) \<Rightarrow>
                      if length out + length o' \<le> cap
                      then parse_string_copy isplain cap uc uc2 (out @ o') r' else None)))"
  by pat_completeness auto
termination
  by (relation "measure (\<lambda>(p, n, uc, uc2, out, ptr). length ptr)") (auto dest: parse_u_length)

declare parse_string_copy.simps [simp del]

definition parse_string :: "'d cenv \<Rightarrow> 'd cJSON \<Rightarrow> string \<Rightarrow> nat \<Rightarrow> ('d cJSON \<times> string) outcome \<times> nat" where
  "parse_string E item str k =
     (let isplain = (cur str \<noteq> CHR 0x22);
          ptr = (if isplain then str else tl str)
      in case parse_string_len isplain ptr 0 of
           None \<Rightarrow> (Fault, k)
         | Some len \<Rightarrow>
             if \<not> env_malloc E k then (Fail None, k + 1)
             else (case parse_string_copy isplain (len + 1) (env_uc E) (env_uc2 E) [] ptr of
                     None \<Rightarrow> (Fault, k + 1)
                   | Some (out, ptr) \<Rightarrow>
                       let ptr = (if cur ptr = CHR 0x22 then tl ptr else ptr)
                       in (Ok (cJSON cJSON_String (Some out) (valueint item) (valuedouble item)
                                (cstring item) (children item), ptr), k + 1)))"

text \<open>\<open>print_string_ptr\<close>: the length computed in the first pass, the characters written in the second.\<close>

definition print_char_len :: "char \<Rightarrow> nat" where
  "print_char_len c =
     (if c \<in> set [CHR 0x22, CHR 0x5C, CHR 0x08, CHR 0x0C, CHR 0x0A, CHR 0x0D, CHR 0x09] then 2
      else if code c < 32 then 6 else 1)"

definition print_char :: "char \<Rightarrow> string" where
  "print_char c =
     (if code c > 31 \<and> c \<noteq> CHR 0x22 \<and> c \<noteq> CHR 0x5C then [c]
      else CHR 0x5C #
        (if c = CHR 0x5C then [CHR 0x5C] else if c = CHR 0x22 then [CHR 0x22]
         else if c = CHR 0x08 then ''b'' else if c = CHR 0x0C then ''f'' else if c = CHR 0x0A then ''n''
         else if c = CHR 0x0D then ''r'' else if c = CHR 0x09 then ''t''
         else ''u00'' @ [hex_char (code c div 16), hex_char (code c mod 16)]))"

definition print_string_ptr :: "'d cenv \<Rightarrow> string option \<Rightarrow> nat \<Rightarrow> print_result \<times> nat" where
  "print_string_ptr E str k =
     (case str of
        None \<Rightarrow> (if env_malloc E k then in_buffer 1 [] else Null, k + 1)
      | Some str \<Rightarrow>
          let len = sum_list (map print_char_len str) in
          (if env_malloc E k
           then in_buffer (len + 3) (CHR 0x22 # concat (map print_char str) @ [CHR 0x22])
           else Null, k + 1))"

definition print_string :: "'d cenv \<Rightarrow> 'd cJSON \<Rightarrow> nat \<Rightarrow> print_result \<times> nat" where
  "print_string E item k = print_string_ptr E (valuestring item) k"

section \<open>Parsing values\<close>

definition cJSON_New_Item :: "'d cenv \<Rightarrow> nat \<Rightarrow> 'd cJSON outcome \<times> nat" where
  "cJSON_New_Item E k =
     (if env_malloc E k then Ok (cJSON 0 None 0 (fp_of_int E 0) None []) else Fail None, k + 1)"

definition set_type :: "nat \<Rightarrow> 'd cJSON \<Rightarrow> 'd cJSON" where
  "set_type t item = cJSON t (valuestring item) (valueint item) (valuedouble item) (cstring item) (children item)"

definition set_children :: "'d cJSON list \<Rightarrow> 'd cJSON \<Rightarrow> 'd cJSON" where
  "set_children cs item =
     cJSON (ctype item) (valuestring item) (valueint item) (valuedouble item) (cstring item) cs"

text \<open>\<open>child->string = child->valuestring; child->valuestring = 0\<close>\<close>

definition move_name :: "'d cJSON \<Rightarrow> 'd cJSON" where
  "move_name item =
     cJSON (ctype item) None (valueint item) (valuedouble item) (valuestring item) (children item)"

definition set_true :: "'d cJSON \<Rightarrow> 'd cJSON" where
  "set_true item = cJSON cJSON_True (valuestring item) 1 (valuedouble item) (cstring item) (children item)"

text \<open>A member of an object up to the colon: the name into a new item.\<close>

definition parse_member_name :: "'d cenv \<Rightarrow> string \<Rightarrow> nat \<Rightarrow> ('d cJSON \<times> string) outcome \<times> nat" where
  "parse_member_name E value k =
     obind (cJSON_New_Item E k) (\<lambda>child k.
     obind (parse_string E child (skip value) k) (\<lambda>(child, value) k.
       let value = skip value; child = move_name child in
       if cur value \<noteq> CHR '':'' then (Fail (Some value), k) else (Ok (child, tl value), k)))"

text \<open>\<open>parse_array\<close> and \<open>parse_object\<close> call \<open>parse_value\<close>, which is their argument \<open>pv\<close>. Their
  loops are entered behind an element, with the elements so far; they take fuel, and \<open>k\<close> counts the
  calls of \<open>cJSON_malloc\<close>.\<close>

type_synonym 'd parser = "'d cJSON \<Rightarrow> string \<Rightarrow> nat \<Rightarrow> ('d cJSON \<times> string) outcome \<times> nat"

fun parse_elements :: "'d parser \<Rightarrow> 'd cenv \<Rightarrow> nat \<Rightarrow> 'd cJSON list \<Rightarrow> string \<Rightarrow> nat
    \<Rightarrow> ('d cJSON list \<times> string) outcome \<times> nat" where
  "parse_elements pv E 0 cs value k = (NoFuel, k)"
| "parse_elements pv E (Suc fuel) cs value k =
     (if cur value \<noteq> CHR '','' then (Ok (cs, value), k)
      else obind (cJSON_New_Item E k) (\<lambda>child k.
           obind (pv child (skip (tl value)) k) (\<lambda>(child, value) k.
             parse_elements pv E fuel (cs @ [child]) (skip value) k)))"

definition parse_array :: "'d parser \<Rightarrow> 'd cenv \<Rightarrow> nat \<Rightarrow> 'd parser" where
  "parse_array pv E fuel item value k =
     (if cur value \<noteq> CHR ''['' then (Fail (Some value), k)
      else let item = set_type cJSON_Array item; value = skip (tl value) in
        if cur value = CHR '']'' then (Ok (item, tl value), k)
        else obind (cJSON_New_Item E k) (\<lambda>child k.
             obind (pv child (skip value) k) (\<lambda>(child, value) k.
             obind (parse_elements pv E fuel [child] (skip value) k) (\<lambda>(cs, value) k.
               if cur value = CHR '']'' then (Ok (set_children cs item, tl value), k)
               else (Fail (Some value), k)))))"

fun parse_members :: "'d parser \<Rightarrow> 'd cenv \<Rightarrow> nat \<Rightarrow> 'd cJSON list \<Rightarrow> string \<Rightarrow> nat
    \<Rightarrow> ('d cJSON list \<times> string) outcome \<times> nat" where
  "parse_members pv E 0 cs value k = (NoFuel, k)"
| "parse_members pv E (Suc fuel) cs value k =
     (if cur value \<noteq> CHR '','' then (Ok (cs, value), k)
      else obind (parse_member_name E (tl value) k) (\<lambda>(child, value) k.
           obind (pv child (skip value) k) (\<lambda>(child, value) k.
             parse_members pv E fuel (cs @ [child]) (skip value) k)))"

definition parse_object :: "'d parser \<Rightarrow> 'd cenv \<Rightarrow> nat \<Rightarrow> 'd parser" where
  "parse_object pv E fuel item value k =
     (if cur value \<noteq> CHR ''{'' then (Fail (Some value), k)
      else let item = set_type cJSON_Object item; value = skip (tl value) in
        if cur value = CHR ''}'' then (Ok (item, tl value), k)
        else obind (parse_member_name E value k) (\<lambda>(child, value) k.
             obind (pv child (skip value) k) (\<lambda>(child, value) k.
             obind (parse_members pv E fuel [child] (skip value) k) (\<lambda>(cs, value) k.
               if cur value = CHR ''}'' then (Ok (set_children cs item, tl value), k)
               else (Fail (Some value), k)))))"

primrec parse_value :: "'d cenv \<Rightarrow> nat \<Rightarrow> 'd parser" where
  "parse_value E 0 = (\<lambda>item value k. (NoFuel, k))"
| "parse_value E (Suc fuel) = (\<lambda>item value k.
     if take 4 value = ''null'' then (Ok (set_type cJSON_NULL item, drop 4 value), k)
     else if take 5 value = ''false'' then (Ok (set_type cJSON_False item, drop 5 value), k)
     else if take 4 value = ''true'' then (Ok (set_true item, drop 4 value), k)
     else if cur value = CHR ''-'' \<or> isdigit (cur value) then (parse_number E item value, k)
     else if cur value = CHR ''['' then parse_array (parse_value E fuel) E fuel item value k
     else if cur value = CHR ''{'' then parse_object (parse_value E fuel) E fuel item value k
     else if cur value = CHR 0x22 then parse_string E item value k
     else if isalpha (cur value) then parse_string E item value k
     else (Fail (Some value), k))"

declare parse_value.simps(2) [simp del] parse_elements.simps(2) [simp del] parse_members.simps(2) [simp del]

text \<open>\<open>cJSON_ParseWithOpts\<close>: the item and \<open>*return_parse_end\<close>, or the value of \<open>ep\<close>. Every call of
  \<open>parse_value\<close> has a shorter text before it, so the length of the text is enough fuel.\<close>

definition cJSON_ParseWithOpts :: "'d cenv \<Rightarrow> string \<Rightarrow> bool \<Rightarrow> ('d cJSON \<times> string) outcome \<times> nat" where
  "cJSON_ParseWithOpts E value require_null_terminated =
     obind (cJSON_New_Item E 0) (\<lambda>c k.
     obind (parse_value E (length value + 1) c (skip value) k) (\<lambda>(c, end') k.
       if require_null_terminated then
         (let end' = skip end' in
          if end' \<noteq> [] then (Fail (Some end'), k) else (Ok (c, end'), k))
       else (Ok (c, end'), k)))"

definition cJSON_Parse :: "'d cenv \<Rightarrow> string \<Rightarrow> ('d cJSON \<times> string) outcome \<times> nat" where
  "cJSON_Parse E value = cJSON_ParseWithOpts E value False"

text \<open>\<open>ep\<close> is cleared by every parse and set where one fails.\<close>

definition cJSON_GetErrorPtr :: "'a outcome \<Rightarrow> string option" where
  "cJSON_GetErrorPtr parsed = (case parsed of Fail ep \<Rightarrow> ep | _ \<Rightarrow> None)"

section \<open>Printing values\<close>

definition cJSON_strdup :: "'d cenv \<Rightarrow> string \<Rightarrow> nat \<Rightarrow> print_result \<times> nat" where
  "cJSON_strdup E str k = (if env_malloc E k then in_buffer (length str + 1) str else Null, k + 1)"

fun join_entries :: "bool \<Rightarrow> string list \<Rightarrow> string" where
  "join_entries fmt [] = []"
| "join_entries fmt [e] = e"
| "join_entries fmt (e # es) = e @ '','' @ (if fmt then '' '' else []) @ join_entries fmt es"

text \<open>The last part of \<open>print_array\<close>, with the entries printed.\<close>

definition compose_array :: "'d cenv \<Rightarrow> bool \<Rightarrow> string list \<Rightarrow> nat \<Rightarrow> print_result \<times> nat" where
  "compose_array E fmt entries k =
     (let len = 5 + sum_list (map (\<lambda>ret. length ret + 2 + (if fmt then 1 else 0)) entries) in
      (if env_malloc E k then in_buffer len (''['' @ join_entries fmt entries @ '']'') else Null, k + 1))"

fun join_members :: "bool \<Rightarrow> nat \<Rightarrow> (string \<times> string) list \<Rightarrow> string" where
  "join_members fmt depth [] = []"
| "join_members fmt depth ((name, entry) # es) =
     (if fmt then replicate depth (CHR 0x09) else []) @ name @ '':'' @ (if fmt then [CHR 0x09] else []) @
     entry @ (if es \<noteq> [] then '','' else []) @ (if fmt then [CHR 0x0A] else []) @ join_members fmt depth es"

text \<open>The last part of \<open>print_object\<close>; \<open>depth\<close> is already incremented.\<close>

definition compose_object :: "'d cenv \<Rightarrow> bool \<Rightarrow> nat \<Rightarrow> (string \<times> string) list \<Rightarrow> nat \<Rightarrow> print_result \<times> nat" where
  "compose_object E fmt depth entries k =
     (let len = 7 + (if fmt then depth else 0) +
            sum_list (map (\<lambda>(str, ret). length ret + length str + 2 + (if fmt then 2 + depth else 0)) entries) in
      (if env_malloc E k
       then in_buffer len (''{'' @ (if fmt then [CHR 0x0A] else []) @ join_members fmt depth entries @
              (if fmt then replicate (depth - 1) (CHR 0x09) else []) @ ''}'')
       else Null, k + 1))"

text \<open>An empty object is written to a buffer of its own size.\<close>

definition print_empty_object :: "'d cenv \<Rightarrow> nat \<Rightarrow> bool \<Rightarrow> nat \<Rightarrow> print_result \<times> nat" where
  "print_empty_object E depth fmt k =
     (if env_malloc E k
      then in_buffer (if fmt then depth + 3 else 3)
             (''{'' @ (if fmt then CHR 0x0A # replicate (depth - 1) (CHR 0x09) else []) @ ''}'')
      else Null, k + 1)"

text \<open>\<open>print_entries\<close> and \<open>print_members\<close> are the loops over the children: the first stops at the first
  failure, the second goes on. A fault anywhere is a fault of
  the whole.\<close>

datatype 'a printed = Entries 'a | PrintFail | EntryFault

definition add_entry :: "string \<Rightarrow> string list printed \<Rightarrow> string list printed" where
  "add_entry ret r = (case r of Entries es \<Rightarrow> Entries (ret # es) | PrintFail \<Rightarrow> PrintFail | EntryFault \<Rightarrow> EntryFault)"

definition add_member :: "print_result \<Rightarrow> print_result \<Rightarrow> (string \<times> string) list printed
    \<Rightarrow> (string \<times> string) list printed" where
  "add_member str ret r =
     (if str = PFault \<or> ret = PFault \<or> r = EntryFault then EntryFault
      else case (str, ret, r) of (Text s, Text t, Entries es) \<Rightarrow> Entries ((s, t) # es) | _ \<Rightarrow> PrintFail)"

text \<open>\<open>print_array\<close> and \<open>print_object\<close>; the argument \<open>entries\<close> is their loop over the children, from a
  number of allocations on.\<close>

definition print_array :: "'d cenv \<Rightarrow> 'd cJSON list \<Rightarrow> (nat \<Rightarrow> string list printed \<times> nat) \<Rightarrow> bool \<Rightarrow> nat
    \<Rightarrow> print_result \<times> nat" where
  "print_array E cs entries fmt k =
     (if cs = [] then (if env_malloc E k then in_buffer 3 ''[]'' else Null, k + 1)
      else if \<not> env_malloc E k then (Null, k + 1)
      else (case entries (k + 1) of
              (Entries es, k) \<Rightarrow> compose_array E fmt es k
            | (PrintFail, k) \<Rightarrow> (Null, k) | (EntryFault, k) \<Rightarrow> (PFault, k)))"

definition print_object :: "'d cenv \<Rightarrow> 'd cJSON list \<Rightarrow> (nat \<Rightarrow> (string \<times> string) list printed \<times> nat) \<Rightarrow> nat \<Rightarrow> bool
    \<Rightarrow> nat \<Rightarrow> print_result \<times> nat" where
  "print_object E cs entries depth fmt k =
     (if cs = [] then print_empty_object E depth fmt k
      else if \<not> env_malloc E k then (Null, k + 1)
      else if \<not> env_malloc E (k + 1) then (Null, k + 2)
      else (case entries (k + 2) of
              (Entries es, k) \<Rightarrow> compose_object E fmt (depth + 1) es k
            | (PrintFail, k) \<Rightarrow> (Null, k) | (EntryFault, k) \<Rightarrow> (PFault, k)))"

text \<open>The cases of \<open>print_value\<close> without children.\<close>

definition print_scalar :: "'d cenv \<Rightarrow> 'd cJSON \<Rightarrow> nat \<Rightarrow> print_result \<times> nat" where
  "print_scalar E item k =
     (let ty = ctype item mod 256 in
      if ty = cJSON_NULL then cJSON_strdup E ''null'' k
      else if ty = cJSON_False then cJSON_strdup E ''false'' k
      else if ty = cJSON_True then cJSON_strdup E ''true'' k
      else if ty = cJSON_Number then print_number E item k
      else if ty = cJSON_String then print_string E item k
      else (Null, k))"

fun print_value :: "'d cenv \<Rightarrow> 'd cJSON \<Rightarrow> nat \<Rightarrow> bool \<Rightarrow> nat \<Rightarrow> print_result \<times> nat"
  and print_entries :: "'d cenv \<Rightarrow> 'd cJSON list \<Rightarrow> nat \<Rightarrow> bool \<Rightarrow> nat \<Rightarrow> string list printed \<times> nat"
  and print_members :: "'d cenv \<Rightarrow> 'd cJSON list \<Rightarrow> nat \<Rightarrow> bool \<Rightarrow> nat \<Rightarrow> (string \<times> string) list printed \<times> nat"
where
  "print_value E (cJSON t vs vi vd nm cs) depth fmt k =
     (if t mod 256 = cJSON_Array then print_array E cs (print_entries E cs (depth + 1) fmt) fmt k
      else if t mod 256 = cJSON_Object then print_object E cs (print_members E cs (depth + 1) fmt) depth fmt k
      else print_scalar E (cJSON t vs vi vd nm cs) k)"
| "print_entries E [] depth fmt k = (Entries [], k)"
| "print_entries E (c # cs) depth fmt k =
     (case print_value E c depth fmt k of
        (Text ret, k) \<Rightarrow> (let (es, k) = print_entries E cs depth fmt k in (add_entry ret es, k))
      | (Null, k) \<Rightarrow> (PrintFail, k) | (PFault, k) \<Rightarrow> (EntryFault, k))"
| "print_members E [] depth fmt k = (Entries [], k)"
| "print_members E (c # cs) depth fmt k =
     (let (str, k) = print_string_ptr E (cstring c) k;
          (ret, k) = print_value E c depth fmt k;
          (es, k) = print_members E cs depth fmt k
      in (add_member str ret es, k))"

definition cJSON_Print :: "'d cenv \<Rightarrow> 'd cJSON \<Rightarrow> print_result" where
  "cJSON_Print E item = fst (print_value E item 0 True 0)"

definition cJSON_PrintUnformatted :: "'d cenv \<Rightarrow> 'd cJSON \<Rightarrow> print_result" where
  "cJSON_PrintUnformatted E item = fst (print_value E item 0 False 0)"

end
