(* ===== verification/CJson_Parse.thy ===== *)
theory CJson_Parse
  imports CJson "HOL-Library.Sublist"
begin

text \<open>
  The parser of \<open>cJSON.c\<close> on any text: it ends, every position it reports lies in the text, it leaves a
  position behind what it has read, and without escapes and long exponents it stays in its buffers.
\<close>

section \<open>Positions\<close>

lemma suffix_skip: "suffix (skip s) s"
  by (induction s) (auto simp: suffix_Cons)

lemma suffix_tl: "suffix (tl s) s"
  by (cases s) (auto simp: suffix_Cons)

lemma suffix_dropI: "suffix s t \<Longrightarrow> suffix (drop n s) t"
  using suffix_drop suffix_order.trans by blast

lemma suffix_tlI: "suffix s t \<Longrightarrow> suffix (tl s) t"
  using suffix_tl suffix_order.trans by blast

lemma suffix_skipI: "suffix s t \<Longrightarrow> suffix (skip s) t"
  using suffix_skip suffix_order.trans by blast

lemmas position_intros = suffix_tlI suffix_skipI suffix_dropI suffix_order.refl

lemma length_skip: "length (skip s) \<le> length s"
  using suffix_length_le suffix_skip by blast

lemma cur_simps [simp]: "cur [] = CHR 0x00" "cur (c # s) = c"
  by (simp_all add: cur_def)

lemma length_tl_cur: "cur s \<noteq> CHR 0x00 \<Longrightarrow> length (tl s) < length s"
  by (cases s) simp_all

lemma code_NUL [simp]: "code (CHR 0x00) = 0"
  by (simp add: code_def)

lemma not_isdigit_NUL [simp]: "\<not> isdigit (CHR 0x00)" "\<not> isalpha (CHR 0x00)"
  by (simp_all add: isdigit_def isalpha_def)

section \<open>Numbers and strings\<close>

lemma int_digits_suffix: "int_digits E n s = (n', s') \<Longrightarrow> suffix s' s"
  by (induction s arbitrary: n) (auto split: if_splits simp: suffix_Cons)

lemma frac_digits_suffix: "frac_digits E n sc s = (n', sc', s') \<Longrightarrow> suffix s' s"
  by (induction s arbitrary: n sc) (auto split: if_splits simp: suffix_Cons)

lemma exp_digits_suffix: "exp_digits x s = Ok (x', s') \<Longrightarrow> suffix s' s"
  by (induction s arbitrary: x) (auto split: if_splits simp: suffix_Cons)

lemma exp_digits_outcome: "exp_digits x s \<noteq> Fail e" "exp_digits x s \<noteq> NoFuel"
  by (induction s arbitrary: x) auto

lemma parse_exponent_suffix: "parse_exponent s = Ok (x, y, s') \<Longrightarrow> suffix s' s"
  by (auto simp: parse_exponent_def Let_def split: if_splits outcome.splits
      dest!: exp_digits_suffix intro: position_intros suffix_order.trans)

lemma parse_exponent_outcome: "parse_exponent s \<noteq> Fail e" "parse_exponent s \<noteq> NoFuel"
  by (auto simp: parse_exponent_def Let_def exp_digits_outcome split: if_splits outcome.splits)

lemma parse_mantissa_suffix: "parse_mantissa E s = (sign, n, scale, s') \<Longrightarrow> suffix s' s"
proof -
  assume a: "parse_mantissa E s = (sign, n, scale, s')"
  define s1 where "s1 = (if cur s = CHR ''-'' then tl s else s)"
  define s2 where "s2 = (if cur s1 = CHR ''0'' then tl s1 else s1)"
  obtain n3 s3 where n3: "(if isdigit (cur s2) \<and> cur s2 \<noteq> CHR ''0'' then int_digits E (fp_of_int E 0) s2 else (fp_of_int E 0, s2)) = (n3, s3)"
    by (rule prod.exhaust)
  have "(if cur s3 = CHR ''.'' \<and> isdigit (cur (tl s3)) then frac_digits E n3 (fp_of_int E 0) (tl s3)
      else (n3, fp_of_int E 0, s3)) = (n, scale, s')"
    using a n3 unfolding parse_mantissa_def Let_def s1_def s2_def by (auto split: prod.splits if_splits)
  then have "suffix s' s3"
    by (auto split: if_splits dest!: frac_digits_suffix intro: suffix_order.trans [OF _ suffix_tl])
  also have "suffix s3 s2" using n3 int_digits_suffix [of E "fp_of_int E 0" s2] by (auto split: if_splits)
  also have "suffix s2 s" unfolding s2_def s1_def by (auto intro: position_intros)
  finally show "suffix s' s" .
qed

lemma parse_number_suffix: "parse_number E item s = Ok (item', s') \<Longrightarrow> suffix s' s"
  by (auto simp: parse_number_def Let_def split: prod.splits outcome.splits
      dest!: parse_mantissa_suffix parse_exponent_suffix intro: suffix_order.trans)

lemma parse_number_outcome: "parse_number E item s \<noteq> Fail e" "parse_number E item s \<noteq> NoFuel"
  by (auto simp: parse_number_def Let_def parse_exponent_outcome split: prod.splits outcome.splits)

lemma parse_u_suffix:
  assumes "parse_u uc uc2 ptr = Some (o', ptr', x)"
  shows "suffix ptr' ptr"
proof -
  have "ptr' = drop 4 ptr \<or> ptr' = drop 6 (drop 4 ptr)"
    using assms by (auto simp: parse_u_def Let_def split: if_splits prod.splits)
  then show ?thesis by (metis suffix_drop drop_drop)
qed

text \<open>The cases of the second pass.\<close>

lemma copy_simps:
  "parse_string_copy pl cap uc uc2 out [] = (if length out < cap then Some (out, []) else None)"
  "isend c pl \<Longrightarrow> parse_string_copy pl cap uc uc2 out (c # r) = (if length out < cap then Some (out, c # r) else None)"
  "\<not> isend c pl \<Longrightarrow> c \<noteq> CHR 0x5C \<Longrightarrow> parse_string_copy pl cap uc uc2 out (c # r) =
     (if length out < cap then parse_string_copy pl cap uc uc2 (out @ [c]) r else None)"
  "\<not> isend (CHR 0x5C) pl \<Longrightarrow> parse_string_copy pl cap uc uc2 out [CHR 0x5C] = None"
  "\<not> isend (CHR 0x5C) pl \<Longrightarrow> e \<noteq> CHR ''u'' \<Longrightarrow> parse_string_copy pl cap uc uc2 out (CHR 0x5C # e # r) =
     (if length out < cap then parse_string_copy pl cap uc uc2 (out @ [unescape e]) r else None)"
  "\<not> isend (CHR 0x5C) pl \<Longrightarrow> parse_string_copy pl cap uc uc2 out (CHR 0x5C # CHR ''u'' # r) =
     (case parse_u uc uc2 r of None \<Rightarrow> None
      | Some (o', r', uc, uc2) \<Rightarrow>
          if length out + length o' \<le> cap then parse_string_copy pl cap uc uc2 (out @ o') r' else None)"
  by (subst parse_string_copy.simps, simp)+

lemma copy_cases [case_names nil stop plain last esc u]:
  obtains (nil) "ptr = []" | (stop) c r where "ptr = c # r" "isend c pl"
    | (plain) c r where "ptr = c # r" "\<not> isend c pl" "c \<noteq> CHR 0x5C"
    | (last) "ptr = [CHR 0x5C]" "\<not> isend (CHR 0x5C) pl"
    | (esc) e r where "ptr = CHR 0x5C # e # r" "\<not> isend (CHR 0x5C) pl" "e \<noteq> CHR ''u''"
    | (u) r where "ptr = CHR 0x5C # CHR ''u'' # r" "\<not> isend (CHR 0x5C) pl"
  by (cases ptr rule: remdups_adj.cases) metis+

lemma parse_string_copy_suffix:
  "parse_string_copy pl cap uc uc2 out ptr = Some (out', ptr') \<Longrightarrow> suffix ptr' ptr"
proof (induction ptr arbitrary: uc uc2 out rule: length_induct)
  case (1 ptr)
  note IH = "1.IH" [rule_format]
  show ?case
  proof (cases rule: copy_cases [where ptr = ptr and pl = pl])
    case (plain c r)
    then show ?thesis using "1.prems" IH [of r] by (auto simp: copy_simps suffix_ConsI split: if_splits)
  next
    case (esc e r)
    then show ?thesis using "1.prems" IH [of r] by (auto simp: copy_simps suffix_ConsI split: if_splits)
  next
    case (u r)
    then obtain o' r' uc' uc2' where p: "parse_u uc uc2 r = Some (o', r', uc', uc2')"
      and c: "parse_string_copy pl cap uc' uc2' (out @ o') r' = Some (out', ptr')"
      using "1.prems" by (auto simp: copy_simps split: option.splits if_splits)
    have "suffix r' r" using parse_u_suffix [OF p] .
    moreover have "suffix ptr' r'" using IH [OF _ c] suffix_length_le [OF \<open>suffix r' r\<close>] u(1) by simp
    ultimately show ?thesis using u(1) by (auto intro: suffix_ConsI suffix_order.trans)
  qed (use "1.prems" in \<open>auto simp: copy_simps split: if_splits\<close>)
qed

lemma parse_string_suffix:
  assumes "parse_string E item s k = (Ok (item', s'), k')"
  shows "suffix s' s"
proof -
  let ?pl = "cur s \<noteq> CHR 0x22" and ?ptr = "if cur s \<noteq> CHR 0x22 then s else tl s"
  obtain len out p where "parse_string_copy ?pl (len + 1) (env_uc E) (env_uc2 E) [] ?ptr = Some (out, p)"
    and s': "s' = (if cur p = CHR 0x22 then tl p else p)"
    using assms by (auto simp: parse_string_def Let_def split: option.splits if_splits)
  then have "suffix p ?ptr" using parse_string_copy_suffix by blast
  moreover have "suffix ?ptr s" by (auto intro: position_intros)
  ultimately show ?thesis unfolding s' by (auto intro: position_intros suffix_order.trans)
qed

lemma parse_string_outcome:
  "fst (parse_string E item s k) \<noteq> NoFuel" "fst (parse_string E item s k) \<noteq> Fail (Some e)"
  "fst (parse_string E item s k) = Fail None \<Longrightarrow> \<not> env_malloc E k"
  by (auto simp: parse_string_def Let_def split: option.splits)

section \<open>Texts on which the parser stays in its buffers\<close>

text \<open>Every backslash has a character behind it, and four hexadecimal digits behind \<open>\u\<close>; no ten
  digits stand in a row.\<close>

definition escape_ok :: "string \<Rightarrow> bool" where
  "escape_ok r = (case r of [] \<Rightarrow> False
     | e # t \<Rightarrow> e = CHR ''u'' \<longrightarrow> 4 \<le> length t \<and> list_all (\<lambda>c. hex_value c \<noteq> None) (take 4 t))"

fun text_ok :: "string \<Rightarrow> bool" where
  "text_ok [] = True"
| "text_ok (c # s) \<longleftrightarrow> (c = CHR 0x5C \<longrightarrow> escape_ok s) \<and> length (takeWhile isdigit (c # s)) < 10 \<and> text_ok s"

lemma text_ok_suffix: "text_ok t \<Longrightarrow> suffix s t \<Longrightarrow> text_ok s"
  by (induction t) (auto simp: suffix_Cons)

lemma text_ok_run: "text_ok s \<Longrightarrow> length (takeWhile isdigit s) < 10"
  by (cases s) auto

lemma digit_value_bounds: "isdigit c \<Longrightarrow> 0 \<le> digit_value c \<and> digit_value c \<le> 9"
  by (auto simp: isdigit_def digit_value_def)

lemma exp_digits_no_fault:
  assumes "0 \<le> x" "x < 10 ^ n" "n + length (takeWhile isdigit s) < 10"
  shows "exp_digits x s \<noteq> Fault"
  using assms
proof (induction s arbitrary: x n)
  case (Cons c s)
  show ?case
  proof (cases "isdigit c")
    case True
    then have d: "0 \<le> digit_value c" "digit_value c \<le> 9" by (simp_all add: digit_value_bounds)
    let ?x = "x * 10 + digit_value c"
    have "?x < 10 ^ Suc n" using d Cons.prems(2) by simp
    moreover have "(10 :: int) ^ Suc n \<le> 10 ^ 9"
      using Cons.prems(3) True by (intro power_increasing) simp_all
    ultimately have "?x \<le> 2 ^ 31 - 1" by simp
    moreover have "exp_digits ?x s \<noteq> Fault"
      using Cons.IH [of ?x "Suc n"] \<open>?x < 10 ^ Suc n\<close> d Cons.prems True by simp
    ultimately show ?thesis using True by simp
  qed simp
qed simp

lemma parse_exponent_no_fault: "text_ok s \<Longrightarrow> parse_exponent s \<noteq> Fault"
proof -
  assume s: "text_ok s"
  have "exp_digits 0 t \<noteq> Fault" if "suffix t s" for t
    using exp_digits_no_fault [of 0 0 t] text_ok_run [OF text_ok_suffix [OF s that]] by simp
  moreover have "suffix (tl s) s" "suffix (tl (tl s)) s" by (auto intro: position_intros)
  ultimately show ?thesis by (auto simp: parse_exponent_def Let_def split: outcome.splits)
qed

lemma parse_number_no_fault: "text_ok s \<Longrightarrow> parse_number E item s \<noteq> Fault"
  by (auto simp: parse_number_def Let_def split: prod.splits outcome.splits
      dest: parse_mantissa_suffix text_ok_suffix parse_exponent_no_fault)

text \<open>The two passes of \<open>parse_string\<close> agree: what the second writes fits what the first counted.\<close>

lemma len_shift: "parse_string_len pl ptr n = map_option (\<lambda>m. m + n) (parse_string_len pl ptr 0)"
proof (induction ptr arbitrary: n rule: length_induct)
  case (1 ptr)
  have IH: "parse_string_len pl t (Suc m) = map_option (\<lambda>m'. m' + Suc m) (parse_string_len pl t 0)" if "length t < length ptr" for t m
    using "1.IH" that by blast
  show ?case
  proof (cases rule: copy_cases [where ptr = ptr and pl = pl])
    case (plain c r)
    then show ?thesis using IH [of r n] IH [of r 0] by (simp add: option.map_comp comp_def)
  next
    case (esc e r)
    then show ?thesis using IH [of r n] IH [of r 0] by (simp add: option.map_comp comp_def)
  next
    case (u r)
    then show ?thesis using IH [of r n] IH [of r 0] by (simp add: option.map_comp comp_def)
  qed simp_all
qed

lemma hex_char_plain:
  assumes "hex_value c \<noteq> None"
  shows "\<not> isend c False" "c \<noteq> CHR 0x5C" "c \<noteq> CHR 0x22"
  using assms by (auto simp: hex_value_def isend_def code_def split: if_splits)

lemma len_hex:
  "list_all (\<lambda>c. hex_value c \<noteq> None) h \<Longrightarrow> parse_string_len False (h @ r) n = parse_string_len False r (n + length h)"
  by (induction h arbitrary: n) (simp_all add: hex_char_plain)

lemma utf8_tail_length: "utf8_tail n uc out = (out', uc') \<Longrightarrow> length out' = n + length out"
  by (induction n arbitrary: uc out) auto

lemma utf8_bytes_length: "utf8_bytes uc = (out, uc') \<Longrightarrow> length out = utf8_len uc \<and> length out \<le> 4"
  by (auto simp: utf8_bytes_def utf8_len_def Let_def split: prod.splits dest!: utf8_tail_length)

lemma text_ok_u:
  assumes "text_ok (CHR 0x5C # CHR ''u'' # r)"
  obtains h r' where "r = h @ r'" "length h = 4" "list_all (\<lambda>c. hex_value c \<noteq> None) h" "drop 4 r = r'"
  using assms by (intro that [of "take 4 r" "drop 4 r"]) (simp_all add: escape_ok_def)

text \<open>An escape \<open>\u\<close> in such a text is read without a fault, and writes at most what was counted for
  the characters it takes.\<close>

lemma parse_u_ok:
  assumes ok: "text_ok (CHR 0x5C # CHR ''u'' # r)"
    and len: "parse_string_len False (CHR 0x5C # CHR ''u'' # r) 0 = Some m"
  obtains o' r' uc' uc2' m' where "parse_u uc uc2 r = Some (o', r', uc', uc2')" "suffix r' r"
    "parse_string_len False r' 0 = Some m'" "length o' + m' \<le> m"
proof -
  obtain h r1 where r: "r = h @ r1" "length h = 4" "list_all (\<lambda>c. hex_value c \<noteq> None) h" "drop 4 r = r1"
    using text_ok_u [OF ok] .
  have ok1: "text_ok r1" using ok by (rule text_ok_suffix) (simp add: r(1) suffix_ConsI suffix_appendI)
  have "parse_string_len False r1 5 = Some m" using len r by (simp add: isend_def len_hex)
  then obtain m1 where m1: "parse_string_len False r1 0 = Some m1" "m = m1 + 5"
    using len_shift [of False r1 5] by auto
  obtain o' r' uc' uc2' where u: "parse_u uc uc2 r = Some (o', r', uc', uc2')" and o': "length o' \<le> 4"
    and r': "r' = r1 \<or> (\<exists>h2. r1 = CHR 0x5C # CHR ''u'' # h2 @ r' \<and> length h2 = 4 \<and> list_all (\<lambda>c. hex_value c \<noteq> None) h2)"
  proof (cases "cur r1 = CHR 0x5C \<and> cur (tl r1) = CHR ''u''")
    case True
    then obtain r2 where r2: "r1 = CHR 0x5C # CHR ''u'' # r2"
      by (cases r1; cases "tl r1") auto
    obtain h2 r3 where "r2 = h2 @ r3" "length h2 = 4" "list_all (\<lambda>c. hex_value c \<noteq> None) h2"
      using text_ok_u [OF ok1 [unfolded r2]] .
    then show thesis using that r r2
      by (fastforce simp: parse_u_def Let_def split: if_splits prod.splits dest: utf8_bytes_length)
  next
    case False
    then show thesis using that r
      by (fastforce simp: parse_u_def Let_def split: if_splits prod.splits dest: utf8_bytes_length)
  qed
  show thesis
  proof (cases "r' = r1")
    case True
    then show thesis using that [OF u] o' m1 r(1) by (simp add: suffixI)
  next
    case False
    with r' obtain h2 where h2: "r1 = CHR 0x5C # CHR ''u'' # h2 @ r'" "length h2 = 4" "list_all (\<lambda>c. hex_value c \<noteq> None) h2"
      by blast
    then have "parse_string_len False r' 5 = Some m1" using m1(1) by (simp add: isend_def len_hex)
    then obtain m2 where "parse_string_len False r' 0 = Some m2" "m1 = m2 + 5"
      using len_shift [of False r' 5] by auto
    moreover have "suffix r' r" using r(1) h2(1) by (auto simp: suffix_def)
    ultimately show thesis using that [OF u] o' m1(2) by simp
  qed
qed

lemma parse_string_copy_no_fault:
  "text_ok ptr \<Longrightarrow> parse_string_len pl ptr 0 = Some m \<Longrightarrow> length out + m < cap \<Longrightarrow>
   parse_string_copy pl cap uc uc2 out ptr \<noteq> None"
proof (induction ptr arbitrary: uc uc2 out m rule: length_induct)
  case (1 ptr)
  note IH = "1.IH" [rule_format]
  show ?case
  proof (cases rule: copy_cases [where ptr = ptr and pl = pl])
    case (plain c r)
    then obtain m' where "parse_string_len pl r 0 = Some m'" "m = Suc m'"
      using "1.prems"(2) len_shift [of pl r 1] by (cases "parse_string_len pl r 0") auto
    then show ?thesis using plain "1.prems" IH [of r m' "out @ [c]"] by (simp add: copy_simps)
  next
    case (esc e r)
    then obtain m' where "parse_string_len pl r 0 = Some m'" "m = Suc m'"
      using "1.prems"(2) len_shift [of pl r 1] by (cases "parse_string_len pl r 0") auto
    then show ?thesis using esc "1.prems" IH [of r m' "out @ [unescape e]"] by (simp add: copy_simps)
  next
    case (u r)
    then have pl: "\<not> pl" by (auto simp: isend_def isalpha_def code_def)
    then have plF: "pl = False" by simp
    obtain o' r' uc' uc2' m' where p: "parse_u uc uc2 r = Some (o', r', uc', uc2')" "suffix r' r"
      "parse_string_len False r' 0 = Some m'" "length o' + m' \<le> m"
      using parse_u_ok [OF "1.prems"(1) [unfolded u(1)] "1.prems"(2) [unfolded u(1) plF]] .
    have "text_ok r'" using "1.prems"(1) by (rule text_ok_suffix) (use u p(2) in \<open>simp add: suffix_ConsI\<close>)
    then have "parse_string_copy pl cap uc' uc2' (out @ o') r' \<noteq> None"
      using IH [of r' m' "out @ o'"] p pl u(1) suffix_length_le [OF p(2)] "1.prems"(3) by simp
    then show ?thesis using u p(1,4) "1.prems"(3) by (simp add: copy_simps)
  qed (use "1.prems" in \<open>simp_all add: copy_simps escape_ok_def\<close>)
qed

lemma parse_string_len_ok: "text_ok ptr \<Longrightarrow> parse_string_len pl ptr n \<noteq> None"
proof (induction ptr arbitrary: n rule: length_induct)
  case (1 ptr)
  show ?case
  proof (cases rule: copy_cases [where ptr = ptr and pl = pl])
  qed (use 1 in \<open>auto simp: escape_ok_def\<close>)
qed

lemma parse_string_no_fault: "text_ok s \<Longrightarrow> fst (parse_string E item s k) \<noteq> Fault"
proof -
  assume s: "text_ok s"
  let ?pl = "cur s \<noteq> CHR 0x22" and ?ptr = "if cur s \<noteq> CHR 0x22 then s else tl s"
  have ok: "text_ok ?ptr" using s text_ok_suffix [OF s suffix_tl] by simp
  obtain m where m: "parse_string_len ?pl ?ptr 0 = Some m" using parse_string_len_ok [OF ok] by blast
  have "parse_string_copy ?pl (m + 1) (env_uc E) (env_uc2 E) [] ?ptr \<noteq> None"
    by (rule parse_string_copy_no_fault [OF ok m]) simp
  then show ?thesis using m by (auto simp: parse_string_def Let_def split: option.splits)
qed

section \<open>Every outcome lies in the text, and fuel beyond its length is enough\<close>

text \<open>What a parser started at \<open>s\<close> with fuel \<open>f\<close> may return: a position in \<open>s\<close>, an error position
  in \<open>s\<close>, a failed allocation, a fault if the text has a bad escape; it runs out of fuel only if the fuel is at most the length.\<close>

fun good :: "'d cenv \<Rightarrow> nat \<Rightarrow> string \<Rightarrow> ('a \<times> string) outcome \<Rightarrow> bool" where
  "good E f s (Ok (_, s')) = suffix s' s"
| "good E f s (Fail (Some e)) = suffix e s"
| "good E f s (Fail None) = (\<exists>k. \<not> env_malloc E k)"
| "good E f s Fault = (\<not> text_ok s)"
| "good E f s NoFuel = (f \<le> length s)"

lemma good_mono:
  assumes "good E f s r" "suffix s t" "f' + length s \<le> f + length t"
  shows "good E f' t r"
  using assms suffix_length_le [OF assms(2)]
  by (cases "(E, f, s, r)" rule: good.cases) (auto intro: suffix_order.trans dest: text_ok_suffix)

lemma good_obind:
  assumes "good E f s (fst r)" "\<And>a s' k. r = (Ok (a, s'), k) \<Longrightarrow> suffix s' s \<Longrightarrow> good E f s (fst (g (a, s') k))"
  shows "good E f s (fst (obind r g))"
proof (cases r)
  case (Pair x k)
  then show ?thesis using assms by (cases "(E, f, s, x)" rule: good.cases) auto
qed

lemma good_New_Item:
  "(\<And>a k. good E f s (fst (g a k))) \<Longrightarrow> good E f s (fst (obind (cJSON_New_Item E k) g))"
  by (auto simp: cJSON_New_Item_def)

lemma good_parse_string: "good E f s (fst (parse_string E item s k))"
proof (cases "parse_string E item s k")
  case (Pair r k')
  then show ?thesis
    using parse_string_outcome [of E item s k] parse_string_suffix [of E item s k] parse_string_no_fault [of s E item k]
    by (cases "(E, f, s, r)" rule: good.cases) auto
qed

lemma good_parse_number: "good E f s (parse_number E item s)"
  using parse_number_outcome [of E item s] parse_number_suffix [of E item s] parse_number_no_fault [of s E item]
  by (cases "(E, f, s, parse_number E item s)" rule: good.cases) auto

lemma good_parse_member_name: "good E f s (fst (parse_member_name E s k))"
  unfolding parse_member_name_def
proof (rule good_New_Item, rule good_obind)
  fix child k
  have "good E f (skip s) (fst (parse_string E child (skip s) k))" by (rule good_parse_string)
  then show "good E f s (fst (parse_string E child (skip s) k))"
    by (rule good_mono [OF _ suffix_skip]) (simp add: length_skip)
qed (auto simp: Let_def intro: position_intros)

lemma good_after:
  assumes "good E F s' r" "suffix s' s" "cur s \<noteq> CHR 0x00" "s' = skip (tl s) \<or> suffix s' (tl s)" "f \<le> Suc F"
  shows "good E f s r"
proof (rule good_mono [OF assms(1,2)])
  have "suffix s' (tl s)" using assms(4) suffix_skip by auto
  then show "f + length s' \<le> F + length s"
    using suffix_length_le length_tl_cur [OF assms(3)] assms(5) by fastforce
qed

lemma good_parse_elements:
  assumes pv: "\<And>item s k. good E F s (fst (pv item s k))"
  shows "f \<le> F \<Longrightarrow> good E f s (fst (parse_elements pv E f cs s k))"
proof (induction f arbitrary: cs s k)
  case (Suc f)
  show ?case
  proof (cases "cur s = CHR '',''")
    case True
    let ?t = "skip (tl s)"
    have t: "suffix ?t s" by (intro position_intros)
    have "good E (Suc f) s (fst (obind (pv child ?t k) (\<lambda>(child, value) k.
        parse_elements pv E f (cs @ [child]) (skip value) k)))" for child k
    proof (rule good_obind)
      show "good E (Suc f) s (fst (pv child ?t k))"
        using good_after [OF pv t] True Suc.prems by simp
    next
      fix a s' k' assume r: "pv child ?t k = (Ok (a, s'), k')"
      then have "suffix s' ?t" using pv [of ?t child k] by simp
      then have "suffix (skip s') (tl s)" by (meson suffix_skip suffix_order.trans)
      then show "good E (Suc f) s (fst ((\<lambda>(child, value) k. parse_elements pv E f (cs @ [child]) (skip value) k) (a, s') k'))"
        using good_after [OF Suc.IH, of "skip s'" s "Suc f" "cs @ [a]" k'] Suc.prems True
        by (simp add: suffix_order.trans [OF _ suffix_tl])
    qed
    then show ?thesis using True by (simp add: parse_elements.simps(2) good_New_Item)
  qed (simp add: parse_elements.simps(2))
qed simp

lemma good_parse_members:
  assumes pv: "\<And>item s k. good E F s (fst (pv item s k))"
  shows "f \<le> F \<Longrightarrow> good E f s (fst (parse_members pv E f cs s k))"
proof (induction f arbitrary: cs s k)
  case (Suc f)
  show ?case
  proof (cases "cur s = CHR '',''")
    case True
    have "good E (Suc f) s (fst (obind (parse_member_name E (tl s) k) (\<lambda>(child, value) k.
        obind (pv child (skip value) k) (\<lambda>(child, value) k.
        parse_members pv E f (cs @ [child]) (skip value) k))))"
    proof (rule good_obind)
      show "good E (Suc f) s (fst (parse_member_name E (tl s) k))"
        using good_after [OF good_parse_member_name [of E f "tl s"] suffix_tl, where f = "Suc f"] True by simp
    next
      fix a s1 k1 assume "parse_member_name E (tl s) k = (Ok (a, s1), k1)"
      then have s1: "suffix s1 (tl s)" using good_parse_member_name [of E f "tl s" k] by simp
      then have t: "suffix (skip s1) (tl s)" by (meson suffix_skip suffix_order.trans)
      have "good E (Suc f) s (fst (obind (pv a (skip s1) k1) (\<lambda>(child, value) k.
          parse_members pv E f (cs @ [child]) (skip value) k)))"
      proof (rule good_obind)
        show "good E (Suc f) s (fst (pv a (skip s1) k1))"
          using good_after [OF pv, of "skip s1" s "Suc f"] t True Suc.prems
          by (simp add: suffix_order.trans [OF _ suffix_tl])
      next
        fix b s2 k2 assume "pv a (skip s1) k1 = (Ok (b, s2), k2)"
        then have "suffix s2 (skip s1)" using pv [of "skip s1" a k1] by simp
        then have "suffix (skip s2) (tl s)" using t by (meson suffix_skip suffix_order.trans)
        then show "good E (Suc f) s (fst ((\<lambda>(child, value) k. parse_members pv E f (cs @ [child]) (skip value) k) (b, s2) k2))"
          using good_after [OF Suc.IH, of "skip s2" s "Suc f" "cs @ [b]" k2] Suc.prems True
          by (simp add: suffix_order.trans [OF _ suffix_tl])
      qed
      then show "good E (Suc f) s (fst ((\<lambda>(child, value) k. obind (pv child (skip value) k) (\<lambda>(child, value) k.
          parse_members pv E f (cs @ [child]) (skip value) k)) (a, s1) k1))" by simp
    qed
    then show ?thesis using True by (simp add: parse_members.simps(2))
  qed (simp add: parse_members.simps(2))
qed simp

lemma good_parse_array:
  assumes pv: "\<And>item s k. good E F s (fst (pv item s k))"
  shows "good E (Suc F) s (fst (parse_array pv E F item s k))"
proof (cases "cur s = CHR ''[''")
  case True
  let ?t = "skip (tl s)" and ?c = "CHR '']''"
  have t: "suffix ?t s" "suffix (skip ?t) (tl s)" "suffix (skip ?t) s"
    by (auto intro: position_intros)
  have "good E (Suc F) s (fst (obind (pv child (skip ?t) k) (\<lambda>(child, value) k.
      obind (parse_elements pv E F [child] (skip value) k) (\<lambda>(cs, value) k.
        if cur value = ?c then (Ok (set_children cs it, tl value), k) else (Fail (Some value), k)))))" for child k it
  proof (rule good_obind)
    show "good E (Suc F) s (fst (pv child (skip ?t) k))" using good_after [OF pv t(3)] t(2) True by simp
  next
    fix a s1 k1 assume "pv child (skip ?t) k = (Ok (a, s1), k1)"
    then have "suffix s1 (skip ?t)" using pv [of "skip ?t" child k] by simp
    then have s1: "suffix (skip s1) (tl s)" using t(2) by (meson suffix_skip suffix_order.trans)
    have "good E (Suc F) s (fst (obind (parse_elements pv E F [a] (skip s1) k1) (\<lambda>(cs, value) k.
        if cur value = ?c then (Ok (set_children cs it, tl value), k) else (Fail (Some value), k))))"
    proof (rule good_obind)
      show "good E (Suc F) s (fst (parse_elements pv E F [a] (skip s1) k1))"
        using good_after [OF good_parse_elements [OF pv order.refl] suffix_order.trans [OF s1 suffix_tl]] s1 True by simp
    qed (simp add: suffix_tlI)
    then show "good E (Suc F) s (fst ((\<lambda>(child, value) k. obind (parse_elements pv E F [child] (skip value) k) (\<lambda>(cs, value) k.
        if cur value = ?c then (Ok (set_children cs it, tl value), k) else (Fail (Some value), k))) (a, s1) k1))" by simp
  qed
  then show ?thesis
    using True t(1) by (simp add: parse_array_def Let_def good_New_Item suffix_tlI)
qed (simp add: parse_array_def)

lemma good_parse_object:
  assumes pv: "\<And>item s k. good E F s (fst (pv item s k))"
  shows "good E (Suc F) s (fst (parse_object pv E F item s k))"
proof (cases "cur s = CHR ''{''")
  case True
  let ?t = "skip (tl s)" and ?c = "CHR ''}''"
  have t: "suffix ?t s" "suffix ?t (tl s)" by (auto intro: position_intros)
  have "good E (Suc F) s (fst (obind (parse_member_name E ?t k) (\<lambda>(child, value) k.
      obind (pv child (skip value) k) (\<lambda>(child, value) k.
      obind (parse_members pv E F [child] (skip value) k) (\<lambda>(cs, value) k.
        if cur value = ?c then (Ok (set_children cs it, tl value), k) else (Fail (Some value), k))))))" for it
  proof (rule good_obind)
    show "good E (Suc F) s (fst (parse_member_name E ?t k))"
      using good_after [OF good_parse_member_name [of E F ?t] t(1), where f = "Suc F"] True by simp
  next
    fix a s1 k1 assume "parse_member_name E ?t k = (Ok (a, s1), k1)"
    then have "suffix s1 ?t" using good_parse_member_name [of E F ?t k] by simp
    then have s1: "suffix (skip s1) (tl s)" using t(2) by (meson suffix_skip suffix_order.trans)
    have "good E (Suc F) s (fst (obind (pv a (skip s1) k1) (\<lambda>(child, value) k.
        obind (parse_members pv E F [child] (skip value) k) (\<lambda>(cs, value) k.
          if cur value = ?c then (Ok (set_children cs it, tl value), k) else (Fail (Some value), k)))))"
    proof (rule good_obind)
      show "good E (Suc F) s (fst (pv a (skip s1) k1))"
        using good_after [OF pv suffix_order.trans [OF s1 suffix_tl]] s1 True by simp
    next
      fix b s2 k2 assume "pv a (skip s1) k1 = (Ok (b, s2), k2)"
      then have "suffix s2 (skip s1)" using pv [of "skip s1" a k1] by simp
      then have s2: "suffix (skip s2) (tl s)" using s1 by (meson suffix_skip suffix_order.trans)
      have "good E (Suc F) s (fst (obind (parse_members pv E F [b] (skip s2) k2) (\<lambda>(cs, value) k.
          if cur value = ?c then (Ok (set_children cs it, tl value), k) else (Fail (Some value), k))))"
      proof (rule good_obind)
        show "good E (Suc F) s (fst (parse_members pv E F [b] (skip s2) k2))"
          using good_after [OF good_parse_members [OF pv order.refl] suffix_order.trans [OF s2 suffix_tl]] s2 True by simp
      qed (simp add: suffix_tlI)
      then show "good E (Suc F) s (fst ((\<lambda>(child, value) k. obind (parse_members pv E F [child] (skip value) k) (\<lambda>(cs, value) k.
          if cur value = ?c then (Ok (set_children cs it, tl value), k) else (Fail (Some value), k))) (b, s2) k2))" by simp
    qed
    then show "good E (Suc F) s (fst ((\<lambda>(child, value) k. obind (pv child (skip value) k) (\<lambda>(child, value) k.
        obind (parse_members pv E F [child] (skip value) k) (\<lambda>(cs, value) k.
          if cur value = ?c then (Ok (set_children cs it, tl value), k) else (Fail (Some value), k)))) (a, s1) k1))" by simp
  qed
  then show ?thesis
    using True t(1) by (simp add: parse_object_def Let_def suffix_tlI)
qed (simp add: parse_object_def)

lemma good_parse_value: "good E f s (fst (parse_value E f item s k))"
proof (induction f arbitrary: item s k)
  case (Suc f)
  show ?case
    using good_parse_array [OF Suc.IH] good_parse_object [OF Suc.IH]
    by (simp add: parse_value.simps(2) suffix_drop good_parse_number good_parse_string)
qed simp

section \<open>Properties\<close>


end
