(* ===== verification/CJson_Print.thy ===== *)
theory CJson_Print
  imports CJson_Parse
begin

text \<open>
  The printer of \<open>cJSON.c\<close>: the size it computes for each buffer is enough for what it writes (one
  case apart), and the parser reads back what the printer writes.
\<close>

section \<open>Sizes\<close>

text \<open>What is asked of \<open>sprintf\<close> on a \<open>double\<close>: fewer than 64 characters in the ranges in which
  \<open>print_number\<close> uses each format.\<close>

definition fmt_fits :: "'d cenv \<Rightarrow> bool" where
  "fmt_fits E \<longleftrightarrow>
     (\<forall>d. fp_lt E (fp_abs E d) (fp_1e60 E) \<longrightarrow> length (fp_fmt_0f E d) < 64) \<and>
     (\<forall>d. length (fp_fmt_e E d) < 64) \<and>
     (\<forall>d. \<not> fp_lt E (fp_1e9 E) (fp_abs E d) \<longrightarrow> length (fp_fmt_f E d) < 64)"

text \<open>A C \<open>int\<close>.\<close>

definition int_range :: "int \<Rightarrow> bool" where
  "int_range i \<longleftrightarrow> - (2 ^ 31) \<le> i \<and> i < 2 ^ 31"

fun ints_ok :: "'d cJSON \<Rightarrow> bool" where
  "ints_ok (cJSON t vs vi vd nm cs) \<longleftrightarrow> int_range vi \<and> (\<forall>c \<in> set cs. ints_ok c)"

definition is_empty_object :: "'d cJSON \<Rightarrow> bool" where
  "is_empty_object item \<longleftrightarrow> ctype item mod 256 = cJSON_Object \<and> children item = []"

lemma dec_int_length: "int_range i \<Longrightarrow> length (dec_int i) \<le> 11"
  using dec_nat_length [of "nat i" 9] dec_nat_length [of "nat (- i)" 9]
  by (auto simp: dec_int_def int_range_def nat_less_iff)

lemma in_buffer_PFault [simp]: "in_buffer n s = PFault \<longleftrightarrow> n \<le> length s"
  by (auto simp: in_buffer_def)

lemma print_number_fits:
  assumes "fmt_fits E" "int_range (valueint item)"
  shows "fst (print_number E item k) \<noteq> PFault"
  using assms dec_int_length [OF assms(2)]
  by (auto simp: print_number_def Let_def fmt_fits_def not_le)

lemma print_char_length: "length (print_char c) = print_char_len c"
  by (auto simp: print_char_def print_char_len_def code_def)

lemma print_string_fits: "fst (print_string_ptr E str k) \<noteq> PFault"
  by (auto simp: print_string_ptr_def Let_def length_concat comp_def print_char_length split: option.split)

lemma join_entries_length:
  "length (join_entries fmt es) \<le> sum_list (map (\<lambda>e. length e + 2 + (if fmt then 1 else 0)) es)"
  by (induction fmt es rule: join_entries.induct) auto

lemma compose_array_fits [simp]: "fst (compose_array E fmt es k) \<noteq> PFault"
  using join_entries_length [of fmt es] by (auto simp: compose_array_def Let_def not_le)

lemma join_members_length:
  "length (join_members fmt depth es) \<le>
     sum_list (map (\<lambda>(str, ret). length ret + length str + 2 + (if fmt then 2 + depth else 0)) es)"
  by (induction fmt depth es rule: join_members.induct) auto

lemma compose_object_fits [simp]: "fst (compose_object E fmt depth es k) \<noteq> PFault"
  using join_members_length [of fmt depth es] by (auto simp: compose_object_def Let_def not_le)

lemma print_scalar_fits:
  "fmt_fits E \<Longrightarrow> int_range (valueint item) \<Longrightarrow> fst (print_scalar E item k) \<noteq> PFault"
  using print_number_fits [of E item k] print_string_fits [of E "valuestring item" k]
  by (auto simp: print_scalar_def Let_def cJSON_strdup_def print_string_def)

lemma print_entries_fits:
  "(\<And>c k. c \<in> set cs \<Longrightarrow> fst (print_value E c depth fmt k) \<noteq> PFault) \<Longrightarrow>
   fst (print_entries E cs depth fmt k) \<noteq> EntryFault"
proof (induction cs arbitrary: k)
  case (Cons c cs)
  obtain r k' where r: "print_value E c depth fmt k = (r, k')" by fastforce
  have "r \<noteq> PFault" using Cons.prems [of c k] r by simp
  moreover have "fst (print_entries E cs depth fmt k') \<noteq> EntryFault" using Cons by simp
  ultimately show ?case by (cases r) (auto simp: r add_entry_def split: prod.split printed.split)
qed simp

lemma print_members_fits:
  "(\<And>c k. c \<in> set cs \<Longrightarrow> fst (print_value E c depth fmt k) \<noteq> PFault) \<Longrightarrow>
   fst (print_members E cs depth fmt k) \<noteq> EntryFault"
proof (induction cs arbitrary: k)
  case (Cons c cs)
  obtain s k1 where s: "print_string_ptr E (cstring c) k = (s, k1)" by fastforce
  obtain r k2 where r: "print_value E c depth fmt k1 = (r, k2)" by fastforce
  have "s \<noteq> PFault" "r \<noteq> PFault" using Cons.prems [of c k1] r print_string_fits [of E "cstring c" k] s by simp_all
  moreover have "fst (print_members E cs depth fmt k2) \<noteq> EntryFault" using Cons by simp
  ultimately show ?case
    by (auto simp: s r add_member_def split: prod.split print_result.split printed.split)
qed simp

lemma print_value_fits:
  assumes "fmt_fits E"
  shows "ints_ok item \<Longrightarrow> \<not> (fmt \<and> depth = 0 \<and> is_empty_object item) \<Longrightarrow> fst (print_value E item depth fmt k) \<noteq> PFault"
proof (induction item arbitrary: depth k)
  case (cJSON t vs vi vd nm cs)
  have IH: "fst (print_value E c (depth + 1) fmt k) \<noteq> PFault" if "c \<in> set cs" for c k
    using cJSON.IH [of c "depth + 1" k] cJSON.prems(1) that by simp
  have e: "fst (print_array E cs (print_entries E cs (depth + 1) fmt) fmt k) \<noteq> PFault"
    using print_entries_fits [of cs E "depth + 1" fmt "k + 1", OF IH]
    by (auto simp: print_array_def split: printed.split prod.split)
  have o: "fst (print_object E cs (print_members E cs (depth + 1) fmt) depth fmt k) \<noteq> PFault" if "t mod 256 = cJSON_Object"
  proof (cases "cs = []")
    case True
    then show ?thesis using cJSON.prems(2) that
      by (auto simp: print_object_def print_empty_object_def is_empty_object_def)
  next
    case False
    then show ?thesis
      using print_members_fits [of cs E "depth + 1" fmt "k + 2", OF IH]
      by (auto simp: print_object_def split: printed.split prod.split)
  qed
  show ?case
    using e o print_scalar_fits [OF assms, of "cJSON t vs vi vd nm cs" k] cJSON.prems(1) by simp
qed

section \<open>Trees with a text of their own\<close>

text \<open>What is asked of \<open>double\<close>: whole numbers of the size of an \<open>int\<close> are exact.\<close>

definition fp_exact :: "'d cenv \<Rightarrow> bool" where
  "fp_exact E \<longleftrightarrow>
     (\<forall>a d. 0 \<le> a \<and> 0 \<le> d \<and> d \<le> 9 \<and> a * 10 + d \<le> 2 ^ 31 \<longrightarrow>
        fp_add E (fp_mul E (fp_of_int E a) (fp_of_int E 10)) (fp_of_int E d) = fp_of_int E (a * 10 + d)) \<and>
     fp_pow10 E (fp_add E (fp_of_int E 0) (fp_of_int E 0)) = fp_of_int E 1 \<and>
     (\<forall>a. 0 \<le> a \<and> a \<le> 2 ^ 31 \<longrightarrow>
        fp_mul E (fp_mul E (fp_of_int E 1) (fp_of_int E a)) (fp_of_int E 1) = fp_of_int E a \<and>
        fp_mul E (fp_mul E (fp_of_int E (-1)) (fp_of_int E a)) (fp_of_int E 1) = fp_of_int E (- a)) \<and>
     (\<forall>i. int_range i \<longrightarrow> fp_to_int E (fp_of_int E i) = i
        \<and> fp_le E (fp_abs E (fp_sub E (fp_of_int E i) (fp_of_int E i))) (fp_epsilon E)
        \<and> fp_le E (fp_of_int E i) (fp_of_int E (2 ^ 31 - 1)) \<and> fp_le E (fp_of_int E (- (2 ^ 31))) (fp_of_int E i))"

definition cstr :: "string \<Rightarrow> bool" where
  "cstr s \<longleftrightarrow> CHR 0x00 \<notin> set s"

text \<open>The fields of an item of each type as the parser leaves them.\<close>

definition wf_fields :: "'d cenv \<Rightarrow> 'd cJSON \<Rightarrow> bool" where
  "wf_fields E item \<longleftrightarrow>
     (if ctype item = cJSON_Number
      then valuestring item = None \<and> int_range (valueint item) \<and> valuedouble item = fp_of_int E (valueint item)
      else if ctype item = cJSON_String
      then (\<exists>s. valuestring item = Some s \<and> cstr s) \<and> valueint item = 0 \<and> valuedouble item = fp_of_int E 0
      else ctype item \<le> cJSON_Object \<and> valuestring item = None \<and> valuedouble item = fp_of_int E 0
        \<and> valueint item = (if ctype item = cJSON_True then 1 else 0))"

fun wf_tree :: "'d cenv \<Rightarrow> bool \<Rightarrow> 'd cJSON \<Rightarrow> bool" where
  "wf_tree E named (cJSON t vs vi vd nm cs) \<longleftrightarrow>
     wf_fields E (cJSON t vs vi vd nm cs) \<and> (t \<noteq> cJSON_Array \<and> t \<noteq> cJSON_Object \<longrightarrow> cs = [])
     \<and> (if named then (\<exists>s. nm = Some s \<and> cstr s) else nm = None)
     \<and> (\<forall>c \<in> set cs. wf_tree E (t = cJSON_Object) c)"

definition quoted :: "string \<Rightarrow> string" where
  "quoted s = CHR 0x22 # concat (map print_char s) @ [CHR 0x22]"

text \<open>The text of a tree.\<close>

fun tree_text :: "bool \<Rightarrow> nat \<Rightarrow> 'd cJSON \<Rightarrow> string" where
  "tree_text fmt depth (cJSON t vs vi vd nm cs) =
     (if t = cJSON_NULL then ''null'' else if t = cJSON_False then ''false'' else if t = cJSON_True then ''true''
      else if t = cJSON_Number then dec_int vi
      else if t = cJSON_String then quoted (the vs)
      else if t = cJSON_Array then ''['' @ join_entries fmt (map (tree_text fmt (depth + 1)) cs) @ '']''
      else if cs = [] then ''{'' @ (if fmt then CHR 0x0A # replicate (depth - 1) (CHR 0x09) else []) @ ''}''
      else ''{'' @ (if fmt then [CHR 0x0A] else []) @
        join_members fmt (depth + 1) (map (\<lambda>c. (quoted (the (cstring c)), tree_text fmt (depth + 1) c)) cs) @
        (if fmt then replicate depth (CHR 0x09) else []) @ ''}'')"

declare tree_text.simps [simp del]

lemma print_string_quoted:
  "env_malloc E k \<Longrightarrow> print_string_ptr E (Some s) k = (Text (quoted s), k + 1)"
  by (simp add: print_string_ptr_def quoted_def Let_def in_buffer_def length_concat comp_def print_char_length)

lemma compose_array_text:
  "env_malloc E k \<Longrightarrow> compose_array E fmt es k = (Text (''['' @ join_entries fmt es @ '']''), k + 1)"
  using join_entries_length [of fmt es] by (simp add: compose_array_def Let_def in_buffer_def)

lemma compose_object_text:
  "env_malloc E k \<Longrightarrow> compose_object E fmt depth es k =
     (Text (''{'' @ (if fmt then [CHR 0x0A] else []) @ join_members fmt depth es @
        (if fmt then replicate (depth - 1) (CHR 0x09) else []) @ ''}''), k + 1)"
  using join_members_length [of fmt depth es] by (cases fmt) (simp_all add: compose_object_def Let_def in_buffer_def)

lemma wf_tree_name: "wf_tree E True c \<Longrightarrow> \<exists>s. cstring c = Some s \<and> cstr s"
  by (cases c) auto

lemma wf_ints: "wf_tree E named t \<Longrightarrow> ints_ok t"
  by (induction t arbitrary: named) (auto simp: wf_fields_def int_range_def split: if_splits)

lemma print_number_exact:
  assumes "fp_exact E" "env_malloc E k" "int_range (valueint item)" "valuedouble item = fp_of_int E (valueint item)"
  shows "print_number E item k = (Text (dec_int (valueint item)), k + 1)"
  using assms dec_int_length [of "valueint item"]
  by (simp add: print_number_def Let_def fp_exact_def in_buffer_def)

lemma print_scalar_text:
  assumes "fp_exact E" "\<forall>k. env_malloc E k" "wf_fields E (cJSON t vs vi vd nm cs)" "t \<noteq> cJSON_Array" "t \<noteq> cJSON_Object"
  shows "fst (print_scalar E (cJSON t vs vi vd nm cs) k) = Text (tree_text fmt depth (cJSON t vs vi vd nm cs))"
proof -
  have "t = 0 \<or> t = 1 \<or> t = 2 \<or> t = 3 \<or> t = 4" using assms(3-5) by (auto simp: wf_fields_def split: if_splits)
  then show ?thesis
    using assms print_number_exact [of E k "cJSON t vs vi vd nm cs"]
    by (auto simp: print_scalar_def cJSON_strdup_def in_buffer_def wf_fields_def print_string_def print_string_quoted tree_text.simps)
qed

lemma print_entries_text:
  assumes "\<And>c k. c \<in> set cs \<Longrightarrow> fst (print_value E c depth fmt k) = Text (f c)"
  shows "fst (print_entries E cs depth fmt k) = Entries (map f cs)"
  using assms
proof (induction cs arbitrary: k)
  case (Cons c cs)
  obtain k' where "print_value E c depth fmt k = (Text (f c), k')"
    using Cons.prems [of c k] by (metis fst_conv list.set_intros(1) surj_pair)
  moreover have "fst (print_entries E cs depth fmt k') = Entries (map f cs)" using Cons by simp
  ultimately show ?case by (auto simp: add_entry_def split: prod.split)
qed simp

lemma print_members_text:
  assumes "\<And>c k. c \<in> set cs \<Longrightarrow> fst (print_value E c depth fmt k) = Text (f c)"
    and "\<forall>k. env_malloc E k" "\<And>c. c \<in> set cs \<Longrightarrow> \<exists>s. cstring c = Some s"
  shows "fst (print_members E cs depth fmt k) = Entries (map (\<lambda>c. (quoted (the (cstring c)), f c)) cs)"
  using assms
proof (induction cs arbitrary: k)
  case (Cons c cs)
  obtain s where s: "cstring c = Some s" using Cons.prems(3) [of c] by auto
  obtain k' where "print_value E c depth fmt (k + 1) = (Text (f c), k')"
    using Cons.prems(1) [of c "k + 1"] by (metis fst_conv list.set_intros(1) surj_pair)
  moreover have "fst (print_members E cs depth fmt k') = Entries (map (\<lambda>c. (quoted (the (cstring c)), f c)) cs)"
    using Cons by simp
  ultimately show ?case using Cons.prems(2) s by (auto simp: add_member_def print_string_quoted split: prod.split)
qed simp

lemma print_value_text:
  assumes "fp_exact E" "\<forall>k. env_malloc E k"
  shows "wf_tree E named t \<Longrightarrow> \<not> (fmt \<and> depth = 0 \<and> is_empty_object t) \<Longrightarrow>
    fst (print_value E t depth fmt k) = Text (tree_text fmt depth t)"
proof (induction t arbitrary: named depth k)
  case (cJSON t vs vi vd nm cs)
  let ?t = "cJSON t vs vi vd nm cs"
  have IH: "fst (print_value E c (depth + 1) fmt k) = Text (tree_text fmt (depth + 1) c)" if "c \<in> set cs" for c k
    using cJSON.IH [OF that, of "t = cJSON_Object" "depth + 1" k] cJSON.prems(1) that by simp
  have t: "t \<le> 6" and wf: "wf_fields E ?t" using cJSON.prems(1) by (auto simp: wf_fields_def split: if_splits)
  show ?case
  proof (cases "cs = []")
    case True
    then show ?thesis
      using assms(2) t cJSON.prems(2) print_scalar_text [OF assms wf, of k fmt depth]
      by (auto simp: print_array_def print_object_def print_empty_object_def in_buffer_def is_empty_object_def tree_text.simps)
  next
    case False
    consider (arr) "t = cJSON_Array" | (obj) "t = cJSON_Object" using False cJSON.prems(1) by auto
    then show ?thesis
    proof cases
      case arr
      from print_entries_text [of cs, OF IH, where k = "k + 1"]
      obtain k' where e: "print_entries E cs (depth + 1) fmt (k + 1) = (Entries (map (tree_text fmt (depth + 1)) cs), k')"
        by (cases "print_entries E cs (depth + 1) fmt (k + 1)") simp
      show ?thesis
        using assms(2) arr False e by (simp add: print_array_def compose_array_text tree_text.simps)
    next
      case obj
      let ?es = "map (\<lambda>c. (quoted (the (cstring c)), tree_text fmt (depth + 1) c)) cs"
      have "\<exists>s. cstring c = Some s" if "c \<in> set cs" for c
        using cJSON.prems(1) that obj wf_tree_name [of E c] by auto
      from print_members_text [of cs, OF IH assms(2) this, where k = "k + 2"]
      obtain k' where e: "print_members E cs (depth + 1) fmt (k + 2) = (Entries ?es, k')"
        by (cases "print_members E cs (depth + 1) fmt (k + 2)") simp
      show ?thesis
        using assms(2) obj False e by (simp add: print_object_def compose_object_text tree_text.simps)
    qed
  qed
qed

section \<open>Reading numbers back\<close>

definition digit_step :: "'d cenv \<Rightarrow> char \<Rightarrow> 'd \<Rightarrow> 'd" where
  "digit_step E c n = fp_add E (fp_mul E n (fp_of_int E 10)) (fp_of_int E (digit_value c))"

lemma int_digits_append:
  "list_all isdigit s \<Longrightarrow> int_digits E n (s @ t) = int_digits E (fold (digit_step E) s n) t"
  by (induction s arbitrary: n) (simp_all add: digit_step_def)

lemma int_digits_stop: "\<not> isdigit (cur t) \<Longrightarrow> int_digits E n t = (n, t)"
  by (cases t) simp_all

lemma dec_nat_value:
  "fp_exact E \<Longrightarrow> int n \<le> 2 ^ 31 \<Longrightarrow> fold (digit_step E) (dec_nat n) (fp_of_int E 0) = fp_of_int E (int n)"
proof (induction n rule: dec_nat.induct)
  case (1 n)
  have step: "digit_step E (char_of (48 + d)) (fp_of_int E a) = fp_of_int E (a * 10 + int d)"
    if "0 \<le> a" "d < 10" "a * 10 + int d \<le> 2 ^ 31" for a and d :: nat
    using "1.prems"(1) that by (simp add: digit_step_def digit_value_def code_char_of fp_exact_def)
  show ?case
  proof (cases "n < 10")
    case True
    then show ?thesis using step [of 0 n] by (simp add: dec_nat.simps)
  next
    case False
    have "fold (digit_step E) (dec_nat (n div 10)) (fp_of_int E 0) = fp_of_int E (int (n div 10))"
      using "1.IH" False "1.prems" by simp
    moreover have n: "int (n div 10) * 10 + int (n mod 10) = int n"
      using div_mult_mod_eq [of "int n" 10] by (simp only: zdiv_int zmod_int of_nat_numeral)
    moreover have "digit_step E (char_of (48 + n mod 10)) (fp_of_int E (int (n div 10))) = fp_of_int E (int n)"
      using step [of "int (n div 10)" "n mod 10"] "1.prems"(2) unfolding n by simp
    ultimately show ?thesis using False by (subst dec_nat.simps) simp
  qed
qed

text \<open>The character behind a value in a text.\<close>

definition delim :: "string \<Rightarrow> bool" where
  "delim rest \<longleftrightarrow> cur rest \<in> {CHR 0x00, CHR '','', CHR '']'', CHR ''}'', CHR 0x0A}"

lemma delim_not:
  assumes "delim rest"
  shows "\<not> isdigit (cur rest)" "cur rest \<noteq> CHR ''.''" "cur rest \<noteq> CHR ''e''" "cur rest \<noteq> CHR ''E''"
    "cur rest \<noteq> CHR ''0''"
  using assms by (auto simp: delim_def isdigit_def code_def)

lemma parse_exponent_none: "delim rest \<Longrightarrow> parse_exponent rest = Ok (0, 1, rest)"
  by (simp add: parse_exponent_def delim_not)

lemma mantissa_nat:
  assumes "fp_exact E" "int n \<le> 2 ^ 31" "delim rest"
  defines "s \<equiv> dec_nat n @ rest"
  shows "(let s2 = (if cur s = CHR ''0'' then tl s else s)
    in if isdigit (cur s2) \<and> cur s2 \<noteq> CHR ''0'' then int_digits E (fp_of_int E 0) s2 else (fp_of_int E 0, s2))
    = (fp_of_int E (int n), rest)"
proof (cases "n = 0")
  case True
  then show ?thesis using delim_not [OF assms(3)] by (simp add: s_def dec_nat.simps char_of_0)
next
  case False
  then obtain c t where c: "dec_nat n = c # t" "isdigit c" "c \<noteq> CHR ''0''" using dec_nat_head by blast
  have "int_digits E (fp_of_int E 0) s = (fp_of_int E (int n), rest)"
    unfolding s_def int_digits_append [OF dec_nat_digits] dec_nat_value [OF assms(1,2)]
    by (rule int_digits_stop [OF delim_not(1) [OF assms(3)]])
  then show ?thesis using c by (simp add: s_def)
qed

lemma parse_mantissa_int:
  assumes "fp_exact E" "int_range i" "delim rest"
  shows "parse_mantissa E (dec_int i @ rest) =
    (fp_of_int E (if i < 0 then -1 else 1), fp_of_int E \<bar>i\<bar>, fp_of_int E 0, rest)"
proof -
  let ?s = "dec_nat (nat \<bar>i\<bar>) @ rest"
  have "cur ?s \<noteq> CHR ''-''" using dec_nat_Cons [of "nat \<bar>i\<bar>"] by (auto simp: isdigit_def code_def)
  then have sign: "(if cur (dec_int i @ rest) = CHR ''-'' then (fp_of_int E (-1), tl (dec_int i @ rest))
      else (fp_of_int E 1, dec_int i @ rest)) = (fp_of_int E (if i < 0 then -1 else 1), ?s)"
    by (auto simp: dec_int_def)
  have "int (nat \<bar>i\<bar>) \<le> 2 ^ 31" using assms(2) by (auto simp: int_range_def)
  note m = mantissa_nat [OF assms(1) this assms(3), unfolded Let_def]
  show ?thesis
    unfolding parse_mantissa_def Let_def sign prod.case m using delim_not [OF assms(3)] by simp
qed

lemma parse_number_int:
  assumes "fp_exact E" "int_range i" "delim rest"
  shows "parse_number E item (dec_int i @ rest) =
    Ok (cJSON cJSON_Number (valuestring item) i (fp_of_int E i) (cstring item) (children item), rest)"
  using assms parse_exponent_none [OF assms(3)]
  by (auto simp: parse_number_def parse_mantissa_int Let_def fp_exact_def int_range_def)

section \<open>Reading strings back\<close>

text \<open>A character below 32 without a short escape is written as \<open>\u00\<close> and two hexadecimal digits.\<close>

lemma hex_digits_4:
  "hex_value a = Some va \<Longrightarrow> hex_value b = Some vb \<Longrightarrow> hex_value c = Some vc \<Longrightarrow> hex_value d = Some vd \<Longrightarrow>
   hex_digits 4 (a # b # c # d # t) = [va, vb, vc, vd]"
  by (simp add: numeral_eq_Suc)

lemma sscanf_u00:
  assumes "n < 32"
  shows "sscanf_4x (CHR ''0'' # CHR ''0'' # hex_char (n div 16) # hex_char (n mod 16) # t) = Some (of_nat n)"
proof -
  have h: "hex_value (CHR ''0'') = Some 0" by (simp add: hex_value_def code_def)
  have hd: "hex_digits 4 (CHR ''0'' # CHR ''0'' # hex_char (n div 16) # hex_char (n mod 16) # t) = [0, 0, n div 16, n mod 16]"
    using assms by (intro hex_digits_4) (simp_all add: h hex_value_hex_char)
  have "(of_nat (n div 16) * 16 + of_nat (n mod 16) :: u32) = of_nat (n div 16 * 16 + n mod 16)"
    by (simp only: of_nat_add of_nat_mult of_nat_numeral)
  then have "(of_nat (n div 16) * 16 + of_nat (n mod 16) :: u32) = of_nat n" by (simp only: div_mult_mod_eq)
  then have "hex_number [0, 0, n div 16, n mod 16] = of_nat n"
    by (simp add: hex_number_def)
  moreover have "dropWhile isspace (CHR ''0'' # s) = CHR ''0'' # s" for s by (simp add: isspace_def code_def)
  ultimately show ?thesis unfolding sscanf_4x_def by (simp add: Let_def hd)
qed

lemma parse_u00:
  assumes "n < 32" "0 < n"
  shows "\<exists>uc'. parse_u uc uc2 (CHR ''0'' # CHR ''0'' # hex_char (n div 16) # hex_char (n mod 16) # t)
    = Some ([char_of n], t, uc', uc2)"
proof -
  have n: "unat (of_nat n :: u32) = n" using assms(1) by (simp add: unat_of_nat take_bit_eq_mod)
  then have "(of_nat n :: u32) < 0x80" "(of_nat n :: u32) \<noteq> 0" "\<not> (of_nat n :: u32) \<ge> 0xDC00" "\<not> (of_nat n :: u32) \<ge> 0xD800"
    using assms by (auto simp: word_less_nat_alt word_le_nat_alt)
  then show ?thesis
    using sscanf_u00 [OF assms(1), of t] n assms(1)
    by (simp add: parse_u_def utf8_bytes_def utf8_len_def firstByteMark_def Let_def)
qed

lemma print_char_cases:
  assumes "c \<noteq> CHR 0x00"
  obtains (plain) "print_char c = [c]" "c \<noteq> CHR 0x22" "c \<noteq> CHR 0x5C"
    | (short) e where "print_char c = [CHR 0x5C, e]" "e \<noteq> CHR ''u''" "unescape e = c"
    | (hex) "print_char c = CHR 0x5C # CHR ''u'' # CHR ''0'' # CHR ''0'' # hex_char (code c div 16) # [hex_char (code c mod 16)]"
        "0 < code c" "code c < 32"
proof -
  have "code c \<noteq> 0" using assms by (metis code_def char_of_char code_NUL)
  consider "code c > 31 \<and> c \<noteq> CHR 0x22 \<and> c \<noteq> CHR 0x5C" | "c \<in> {CHR 0x5C, CHR 0x22, CHR 0x08, CHR 0x0C, CHR 0x0A, CHR 0x0D, CHR 0x09}"
    | "\<not> (code c > 31 \<and> c \<noteq> CHR 0x22 \<and> c \<noteq> CHR 0x5C)" "c \<notin> {CHR 0x5C, CHR 0x22, CHR 0x08, CHR 0x0C, CHR 0x0A, CHR 0x0D, CHR 0x09}"
    by blast
  then show thesis
  proof cases
    case 1
    then show thesis by (intro plain) (simp_all add: print_char_def)
  next
    case 2
    then show thesis by (auto simp: print_char_def code_def unescape_def intro: short)
  next
    case 3
    then show thesis using \<open>code c \<noteq> 0\<close> by (intro hex) (auto simp: print_char_def)
  qed
qed

lemma isend_quoted: "isend c False \<longleftrightarrow> c = CHR 0x22"
  by (simp add: isend_def)

lemma len_print_char:
  assumes "c \<noteq> CHR 0x00"
  shows "\<exists>m > 0. parse_string_len False (print_char c @ t) n = parse_string_len False t (n + m)"
  using assms
proof (cases rule: print_char_cases)
  case hex
  have "list_all (\<lambda>c. hex_value c \<noteq> None) [CHR ''0'', CHR ''0'', hex_char (code c div 16), hex_char (code c mod 16)]"
    using hex(3) by (simp add: hex_value_hex_char) (simp add: hex_value_def code_def)
  from len_hex [OF this, of t "n + 1"] show ?thesis
    by (intro exI [of _ "Suc (Suc (Suc (Suc (Suc 0))))"]) (simp add: hex(1) isend_quoted)
qed (auto simp: isend_quoted intro: exI [of _ 1])

lemma copy_print_char:
  assumes "c \<noteq> CHR 0x00" "length out < cap"
  shows "\<exists>uc'. parse_string_copy False cap uc uc2 out (print_char c @ t) = parse_string_copy False cap uc' uc2 (out @ [c]) t"
  using assms(1)
proof (cases rule: print_char_cases)
  case hex
  have c: "char_of (code c) = c" by (simp add: code_def)
  obtain uc' where "parse_u uc uc2 (CHR ''0'' # CHR ''0'' # hex_char (code c div 16) # hex_char (code c mod 16) # t) = Some ([c], t, uc', uc2)"
    using parse_u00 [OF hex(3,2), of uc uc2 t] unfolding c by blast
  then show ?thesis using assms(2) by (intro exI [of _ uc']) (simp add: hex(1) copy_simps isend_quoted)
qed (use assms(2) in \<open>auto simp: copy_simps isend_quoted\<close>)

lemma len_quoted:
  "cstr s \<Longrightarrow> \<exists>m \<ge> length s. parse_string_len False (concat (map print_char s) @ CHR 0x22 # t) n = Some (n + m)"
proof (induction s arbitrary: n)
  case (Cons c s)
  then obtain m where m: "m > 0" "parse_string_len False (print_char c @ concat (map print_char s) @ CHR 0x22 # t) n
      = parse_string_len False (concat (map print_char s) @ CHR 0x22 # t) (n + m)"
    using len_print_char [of c "concat (map print_char s) @ CHR 0x22 # t" n] by (auto simp: cstr_def)
  obtain m' where "m' \<ge> length s" "parse_string_len False (concat (map print_char s) @ CHR 0x22 # t) (n + m) = Some (n + m + m')"
    using Cons by (auto simp: cstr_def)
  then show ?case using m by (intro exI [of _ "m + m'"]) simp
qed (simp add: isend_quoted)

lemma copy_quoted:
  "cstr s \<Longrightarrow> length out + length s < cap \<Longrightarrow>
   parse_string_copy False cap uc uc2 out (concat (map print_char s) @ CHR 0x22 # t) = Some (out @ s, CHR 0x22 # t)"
proof (induction s arbitrary: out uc)
  case (Cons c s)
  obtain uc' where "parse_string_copy False cap uc uc2 out (print_char c @ concat (map print_char s) @ CHR 0x22 # t)
      = parse_string_copy False cap uc' uc2 (out @ [c]) (concat (map print_char s) @ CHR 0x22 # t)"
    using copy_print_char [of c out cap uc uc2] Cons.prems by (auto simp: cstr_def)
  then show ?case using Cons.IH [of "out @ [c]" uc'] Cons.prems by (simp add: cstr_def)
qed (simp add: copy_simps isend_quoted)

lemma parse_string_quoted:
  assumes "cstr s" "env_malloc E k"
  shows "parse_string E item (quoted s @ rest) k =
    (Ok (cJSON cJSON_String (Some s) (valueint item) (valuedouble item) (cstring item) (children item), rest), k + 1)"
proof -
  obtain m where m: "m \<ge> length s" "parse_string_len False (concat (map print_char s) @ CHR 0x22 # rest) 0 = Some m"
    using len_quoted [OF assms(1), of rest 0] by auto
  then have "parse_string_copy False (m + 1) (env_uc E) (env_uc2 E) [] (concat (map print_char s) @ CHR 0x22 # rest) = Some (s, CHR 0x22 # rest)"
    using copy_quoted [OF assms(1), of "[]" "m + 1"] by simp
  then show ?thesis using m(2) assms(2) by (simp add: parse_string_def quoted_def Let_def)
qed

section \<open>Reading trees back\<close>

text \<open>The text of a value starts with a character that \<open>skip\<close> does not take.\<close>

lemma skip_stop: "code (cur s) > 32 \<Longrightarrow> skip s = s"
  by (cases s) simp_all

lemma wf_type: "wf_tree E named (cJSON t vs vi vd nm cs) \<Longrightarrow> t \<in> {0, 1, 2, 3, 4, 5, 6}"
  by (auto simp: wf_fields_def split: if_splits)

lemma dec_int_head: "\<exists>c s. dec_int i = c # s \<and> (c = CHR ''-'' \<or> isdigit c)"
  using dec_nat_Cons [of "nat i"] dec_nat_Cons [of "nat (- i)"] by (auto simp: dec_int_def)

lemma tree_text_head:
  assumes "wf_tree E named t"
  shows "\<exists>c s. tree_text fmt depth t = c # s \<and> code c > 32 \<and> c \<noteq> CHR '']''"
proof (cases t)
  case (cJSON t vs vi vd nm cs)
  obtain c s where "dec_int vi = c # s" "c = CHR ''-'' \<or> isdigit c" using dec_int_head by blast
  then show ?thesis
    using cJSON wf_type assms by (auto simp: tree_text.simps quoted_def code_def isdigit_def)
qed

lemma skip_tree_text: "wf_tree E named t \<Longrightarrow> skip (tree_text fmt depth t @ r) = tree_text fmt depth t @ r"
  using tree_text_head [of E named t fmt depth] by (intro skip_stop) auto

lemma skip_ws: "\<forall>c \<in> set ws. code c \<le> 32 \<Longrightarrow> skip (ws @ s) = skip s"
  by (induction ws) simp_all

lemma skip_delim: "cur s \<in> {CHR '','', CHR '']'', CHR ''}'', CHR '':'', CHR 0x22} \<Longrightarrow> skip s = s"
  by (intro skip_stop) (auto simp: code_def)

text \<open>What follows the first entry in the two joined texts.\<close>

lemma join_entries_Cons:
  "join_entries fmt (e # es) = e @ concat (map (\<lambda>x. '','' @ (if fmt then '' '' else []) @ x) es)"
proof (induction es arbitrary: e)
  case (Cons x xs)
  show ?case using Cons [of x] by simp
qed simp

fun members_tail :: "bool \<Rightarrow> nat \<Rightarrow> (string \<times> string) list \<Rightarrow> string" where
  "members_tail fmt depth [] = (if fmt then [CHR 0x0A] else [])"
| "members_tail fmt depth ((n, e) # es) =
     '','' @ (if fmt then CHR 0x0A # replicate depth (CHR 0x09) else []) @ n @ '':'' @
     (if fmt then [CHR 0x09] else []) @ e @ members_tail fmt depth es"

lemma join_members_Cons:
  "join_members fmt depth ((n, e) # es) = (if fmt then replicate depth (CHR 0x09) else []) @ n @ '':'' @
     (if fmt then [CHR 0x09] else []) @ e @ members_tail fmt depth es"
proof (induction es arbitrary: n e)
  case (Cons x es)
  obtain n' e' where x: "x = (n', e')" by fastforce
  show ?case using Cons [of n' e'] by (simp add: x)
qed simp

text \<open>What a parser for values has to do on the texts of some trees, each into an item of its name.\<close>

definition reads :: "'d cenv \<Rightarrow> 'd parser \<Rightarrow> bool \<Rightarrow> nat \<Rightarrow> 'd cJSON \<Rightarrow> bool" where
  "reads E pv fmt depth t \<longleftrightarrow>
     (\<forall>ty rest k. delim rest \<longrightarrow>
        (\<exists>k'. pv (cJSON ty None 0 (fp_of_int E 0) (cstring t) []) (tree_text fmt depth t @ rest) k = (Ok (t, rest), k')))"

lemma readsD:
  "reads E pv fmt depth t \<Longrightarrow> delim rest \<Longrightarrow>
   \<exists>k'. pv (cJSON ty None 0 (fp_of_int E 0) (cstring t) []) (tree_text fmt depth t @ rest) k = (Ok (t, rest), k')"
  by (simp add: reads_def)

lemma parse_elements_reads:
  assumes "\<forall>k. env_malloc E k"
  shows "\<forall>c \<in> set cs. reads E pv fmt depth c \<and> wf_tree E False c \<Longrightarrow> length cs < fuel \<Longrightarrow>
    \<exists>k'. parse_elements pv E fuel acc
      (concat (map (\<lambda>x. '','' @ (if fmt then '' '' else []) @ x) (map (tree_text fmt depth) cs)) @ '']'' @ rest) k
      = (Ok (acc @ cs, '']'' @ rest), k')"
proof (induction cs arbitrary: fuel acc k)
  case Nil
  then show ?case by (cases fuel) (simp_all add: parse_elements.simps)
next
  case (Cons c cs)
  obtain f where f: "fuel = Suc f" using Cons.prems(2) by (cases fuel) auto
  let ?sp = "if fmt then '' '' else []"
  define tail where "tail = concat (map (\<lambda>x. '','' @ ?sp @ x) (map (tree_text fmt depth) cs)) @ '']'' @ rest"
  have eq: "concat (map (\<lambda>x. '','' @ ?sp @ x) (map (tree_text fmt depth) (c # cs))) @ '']'' @ rest
      = CHR '','' # ?sp @ tree_text fmt depth c @ tail" by (simp add: tail_def)
  have d: "cur tail \<in> {CHR '','', CHR '']''}" unfolding tail_def by (cases cs) auto
  have nm: "cstring c = None" using Cons.prems(1) by (cases c) auto
  have "skip (?sp @ tree_text fmt depth c @ tail) = skip (tree_text fmt depth c @ tail)"
    by (rule skip_ws) (simp add: code_def)
  also have "\<dots> = tree_text fmt depth c @ tail" using Cons.prems(1) by (intro skip_tree_text [of E False]) simp
  finally have sk: "skip (?sp @ tree_text fmt depth c @ tail) = tree_text fmt depth c @ tail" .
  obtain k' where pv: "pv (cJSON 0 None 0 (fp_of_int E 0) None []) (tree_text fmt depth c @ tail) (k + 1) = (Ok (c, tail), k')"
    using readsD [of E pv fmt depth c tail 0 "k + 1"] Cons.prems(1) d by (auto simp: delim_def nm)
  have sk': "skip tail = tail" using d by (intro skip_delim) auto
  obtain k'' where el: "parse_elements pv E f (acc @ [c]) tail k' = (Ok ((acc @ [c]) @ cs, '']'' @ rest), k'')"
    using Cons.IH [of f "acc @ [c]" k'] Cons.prems f unfolding tail_def by auto
  show ?case
    unfolding eq f parse_elements.simps(2) using assms sk pv sk' el by (simp add: cJSON_New_Item_def)
qed

lemma parse_member_name_reads:
  assumes "\<forall>k. env_malloc E k" "cstr nm" "\<forall>c \<in> set ws. code c \<le> 32"
  shows "parse_member_name E (ws @ quoted nm @ CHR '':'' # rest) k
    = (Ok (cJSON cJSON_String None 0 (fp_of_int E 0) (Some nm) [], rest), k + 2)"
proof -
  have "skip (ws @ quoted nm @ CHR '':'' # rest) = skip (quoted nm @ CHR '':'' # rest)" using assms(3) by (rule skip_ws)
  also have "\<dots> = quoted nm @ CHR '':'' # rest" by (intro skip_delim) (simp add: quoted_def)
  finally have s: "skip (ws @ quoted nm @ CHR '':'' # rest) = quoted nm @ CHR '':'' # rest" .
  have "skip (CHR '':'' # rest) = CHR '':'' # rest" by (intro skip_delim) simp
  then show ?thesis
    using assms(1,2) by (simp add: parse_member_name_def s cJSON_New_Item_def parse_string_quoted move_name_def)
qed

abbreviation member_text :: "bool \<Rightarrow> nat \<Rightarrow> 'd cJSON \<Rightarrow> string \<times> string" where
  "member_text fmt depth c \<equiv> (quoted (the (cstring c)), tree_text fmt depth c)"

text \<open>A member: its name, the colon and its value, before the text \<open>tail\<close>.\<close>

lemma parse_member_reads:
  assumes "\<forall>k. env_malloc E k" "reads E pv fmt depth c" "wf_tree E True c" "delim tail" "\<forall>c \<in> set ws. code c \<le> 32"
  shows "\<exists>k'. obind (parse_member_name E (ws @ quoted (the (cstring c)) @ CHR '':'' # (if fmt then [CHR 0x09] else []) @
      tree_text fmt depth c @ tail) k) (\<lambda>(child, value) k. obind (pv child (skip value) k) g)
    = g (c, tail) k'"
proof -
  obtain nm where nm: "cstring c = Some nm" "cstr nm" using wf_tree_name [OF assms(3)] by blast
  let ?tb = "if fmt then [CHR 0x09] else []"
  have "skip (?tb @ tree_text fmt depth c @ tail) = skip (tree_text fmt depth c @ tail)"
    by (rule skip_ws) (simp add: code_def)
  also have "\<dots> = tree_text fmt depth c @ tail" by (rule skip_tree_text [OF assms(3)])
  finally have sk: "skip (?tb @ tree_text fmt depth c @ tail) = tree_text fmt depth c @ tail" .
  obtain k' where pv: "pv (cJSON cJSON_String None 0 (fp_of_int E 0) (Some nm) []) (tree_text fmt depth c @ tail) (k + 2) = (Ok (c, tail), k')"
    using readsD [OF assms(2,4)] unfolding nm by blast
  have "the (cstring c) = nm" using nm by simp
  then show ?thesis
    using parse_member_name_reads [OF assms(1) nm(2) assms(5), of "?tb @ tree_text fmt depth c @ tail" k] sk pv by auto
qed

lemma parse_members_reads:
  assumes "\<forall>k. env_malloc E k" and ws: "\<forall>c \<in> set ws. code c \<le> 32" "\<not> fmt \<Longrightarrow> ws = []"
  shows "\<forall>c \<in> set cs. reads E pv fmt depth c \<and> wf_tree E True c \<Longrightarrow> length cs < fuel \<Longrightarrow>
    \<exists>k'. parse_members pv E fuel acc
      (skip (members_tail fmt depth (map (member_text fmt depth) cs) @ ws @ ''}'' @ rest)) k
      = (Ok (acc @ cs, ''}'' @ rest), k')"
proof (induction cs arbitrary: fuel acc k)
  case Nil
  have "skip (members_tail fmt depth (map (member_text fmt depth) []) @ ws @ ''}'' @ rest) = skip (ws @ ''}'' @ rest)"
    unfolding members_tail.simps list.map by (rule skip_ws) (simp add: code_def)
  also have "\<dots> = ''}'' @ rest" using skip_ws [OF ws(1)] skip_delim [of "''}'' @ rest"] by simp
  finally show ?case using Nil(2) by (cases fuel) (simp_all add: parse_members.simps)
next
  case (Cons c cs)
  obtain f where f: "fuel = Suc f" using Cons.prems(2) by (cases fuel) auto
  let ?nl = "if fmt then CHR 0x0A # replicate depth (CHR 0x09) else []"
  define tail where "tail = members_tail fmt depth (map (member_text fmt depth) cs) @ ws @ ''}'' @ rest"
  define s where "s = ?nl @ quoted (the (cstring c)) @ CHR '':'' # (if fmt then [CHR 0x09] else []) @ tree_text fmt depth c @ tail"
  have eq: "members_tail fmt depth (map (member_text fmt depth) (c # cs)) @ ws @ ''}'' @ rest = CHR '','' # s"
    by (simp add: s_def tail_def)
  have sk: "skip (CHR '','' # s) = CHR '','' # s" by (intro skip_delim) simp
  have d: "delim tail" unfolding tail_def using ws(2) by (cases cs; cases fmt) (simp_all add: delim_def)
  have nl: "\<forall>c \<in> set ?nl. code c \<le> 32" by (auto simp: code_def)
  have c: "reads E pv fmt depth c" "wf_tree E True c" using Cons.prems(1) by simp_all
  obtain k' where "obind (parse_member_name E s k) (\<lambda>(child, value) k. obind (pv child (skip value) k)
      (\<lambda>(child, value) k. parse_members pv E f (acc @ [child]) (skip value) k))
    = parse_members pv E f (acc @ [c]) (skip tail) k'"
    using parse_member_reads [OF assms(1) c d nl, of k
        "\<lambda>(child, value) k. parse_members pv E f (acc @ [child]) (skip value) k"]
    unfolding s_def by auto
  moreover obtain k'' where "parse_members pv E f (acc @ [c]) (skip tail) k' = (Ok ((acc @ [c]) @ cs, ''}'' @ rest), k'')"
    using Cons.IH [of f "acc @ [c]" k'] Cons.prems f unfolding tail_def by auto
  ultimately show ?case unfolding eq sk f parse_members.simps(2) by simp
qed

text \<open>The text of a tree is longer than its number of children and the texts of the children.\<close>

lemma length_join_entries:
  "\<forall>e \<in> set es. e \<noteq> [] \<Longrightarrow> length es \<le> length (join_entries fmt es)"
  by (induction fmt es rule: join_entries.induct) (auto simp: Suc_le_eq neq_Nil_conv)

lemma join_entries_mem: "e \<in> set es \<Longrightarrow> length e \<le> length (join_entries fmt es)"
  by (induction fmt es rule: join_entries.induct) auto

lemma length_join_members: "length es \<le> length (join_members fmt depth es)"
  by (induction fmt depth es rule: join_members.induct) auto

lemma join_members_mem: "(n, e) \<in> set es \<Longrightarrow> length e \<le> length (join_members fmt depth es)"
  by (induction fmt depth es rule: join_members.induct) auto

lemma tree_text_children:
  assumes "wf_tree E named (cJSON t vs vi vd nm cs)" "c \<in> set cs"
  shows "length (tree_text fmt (depth + 1) c) + 1 < length (tree_text fmt depth (cJSON t vs vi vd nm cs))"
proof -
  have "t = cJSON_Array \<or> t = cJSON_Object" "cs \<noteq> []" using assms by auto
  then show ?thesis
    using join_entries_mem [of "tree_text fmt (depth + 1) c" "map (tree_text fmt (depth + 1)) cs" fmt]
      join_members_mem [of "quoted (the (cstring c))" "tree_text fmt (depth + 1) c" "map (member_text fmt (depth + 1)) cs" fmt "depth + 1"] assms(2)
    by (auto simp: tree_text.simps)
qed

lemma tree_text_count:
  assumes "wf_tree E named (cJSON t vs vi vd nm cs)"
  shows "length cs + 1 < length (tree_text fmt depth (cJSON t vs vi vd nm cs)) \<or> cs = []"
proof (cases "cs = []")
  case False
  have "\<forall>e \<in> set (map (tree_text fmt (depth + 1)) cs). e \<noteq> []"
    using assms tree_text_head [of E "t = cJSON_Object" _ fmt "depth + 1"] by fastforce
  moreover have "t = cJSON_Array \<or> t = cJSON_Object" using assms False by auto
  ultimately show ?thesis
    using length_join_entries [of "map (tree_text fmt (depth + 1)) cs" fmt]
      length_join_members [of "map (member_text fmt (depth + 1)) cs" fmt "depth + 1"] False
    by (auto simp: tree_text.simps)
qed simp

text \<open>\<open>parse_value\<close> by the first character.\<close>

lemma parse_value_head:
  assumes "c \<noteq> CHR ''n''" "c \<noteq> CHR ''f''" "c \<noteq> CHR ''t''"
  shows "parse_value E (Suc f) item (c # s) k =
    (if c = CHR ''-'' \<or> isdigit c then (parse_number E item (c # s), k)
     else if c = CHR ''['' then parse_array (parse_value E f) E f item (c # s) k
     else if c = CHR ''{'' then parse_object (parse_value E f) E f item (c # s) k
     else if c = CHR 0x22 \<or> isalpha c then parse_string E item (c # s) k
     else (Fail (Some (c # s)), k))"
  using assms by (simp add: parse_value.simps(2))

lemma parse_array_reads:
  assumes m: "\<forall>k. env_malloc E k" and wf: "wf_tree E named (cJSON cJSON_Array vs vi vd nm cs)"
    and cs: "\<forall>c \<in> set cs. reads E (parse_value E f) fmt (depth + 1) c" "length cs < f \<or> cs = []"
  shows "\<exists>k'. parse_array (parse_value E f) E f (cJSON ty None 0 (fp_of_int E 0) nm [])
      (tree_text fmt depth (cJSON cJSON_Array vs vi vd nm cs) @ rest) k = (Ok (cJSON cJSON_Array vs vi vd nm cs, rest), k')"
proof (cases cs)
  case Nil
  then show ?thesis using wf
    by (auto simp: parse_array_def tree_text.simps set_type_def wf_fields_def Let_def code_def)
next
  case (Cons c cs')
  let ?T = "tree_text fmt (depth + 1)" and ?sep = "\<lambda>x. '','' @ (if fmt then '' '' else []) @ x"
  define tail where "tail = concat (map ?sep (map ?T cs')) @ '']'' @ rest"
  have tx: "tree_text fmt depth (cJSON cJSON_Array vs vi vd nm cs) @ rest = CHR ''['' # ?T c @ tail"
    unfolding tree_text.simps Cons list.map join_entries_Cons by (simp add: tail_def)
  have w: "wf_tree E False c" "\<forall>c \<in> set cs'. wf_tree E False c" using wf by (simp_all add: Cons)
  have sk: "skip (?T c @ tail) = ?T c @ tail" by (rule skip_tree_text [OF w(1)])
  obtain ch t where ch: "?T c = ch # t" "ch \<noteq> CHR '']''" using tree_text_head [OF w(1), of fmt "depth + 1"] by blast
  have d: "cur tail \<in> {CHR '','', CHR '']''}" unfolding tail_def by (cases cs') auto
  have nm: "cstring c = None" using w(1) by (cases c) auto
  have rd: "reads E (parse_value E f) fmt (depth + 1) c" using cs(1) Cons by simp
  obtain k1 where pv: "parse_value E f (cJSON 0 None 0 (fp_of_int E 0) None []) (?T c @ tail) (k + 1) = (Ok (c, tail), k1)"
    using readsD [OF rd, of tail 0 "k + 1"] d nm by (auto simp: delim_def)
  have "skip tail = tail" using d by (intro skip_delim) auto
  moreover obtain k2 where "parse_elements (parse_value E f) E f [c] tail k1 = (Ok ([c] @ cs', '']'' @ rest), k2)"
    using parse_elements_reads [OF m, of cs' "parse_value E f" fmt "depth + 1" f "[c]" rest k1] cs w(2) Cons
    unfolding tail_def by auto
  ultimately show ?thesis
    using wf m sk pv ch Cons unfolding tx
    by (auto simp: parse_array_def cJSON_New_Item_def set_type_def set_children_def wf_fields_def Let_def)
qed

lemma parse_object_reads:
  assumes m: "\<forall>k. env_malloc E k" and wf: "wf_tree E named (cJSON cJSON_Object vs vi vd nm cs)"
    and cs: "\<forall>c \<in> set cs. reads E (parse_value E f) fmt (depth + 1) c" "length cs < f \<or> cs = []"
  shows "\<exists>k'. parse_object (parse_value E f) E f (cJSON ty None 0 (fp_of_int E 0) nm [])
      (tree_text fmt depth (cJSON cJSON_Object vs vi vd nm cs) @ rest) k = (Ok (cJSON cJSON_Object vs vi vd nm cs, rest), k')"
proof (cases cs)
  case Nil
  have "skip ((if fmt then CHR 0x0A # replicate (depth - 1) (CHR 0x09) else []) @ ''}'' @ rest) = skip (''}'' @ rest)"
    by (rule skip_ws) (auto simp: code_def)
  then show ?thesis using wf Nil
    by (auto simp: parse_object_def tree_text.simps set_type_def wf_fields_def Let_def code_def)
next
  case (Cons c cs')
  let ?T = "tree_text fmt (depth + 1)" and ?nl = "if fmt then CHR 0x0A # replicate (depth + 1) (CHR 0x09) else []"
  let ?ws = "if fmt then replicate depth (CHR 0x09) else []"
  define tail where "tail = members_tail fmt (depth + 1) (map (member_text fmt (depth + 1)) cs') @ ?ws @ ''}'' @ rest"
  define s where "s = quoted (the (cstring c)) @ CHR '':'' # (if fmt then [CHR 0x09] else []) @ ?T c @ tail"
  have tx: "tree_text fmt depth (cJSON cJSON_Object vs vi vd nm cs) @ rest = CHR ''{'' # ?nl @ s"
    unfolding tree_text.simps Cons list.map join_members_Cons by (auto simp: tail_def s_def)
  have w: "wf_tree E True c" "\<forall>c \<in> set cs'. wf_tree E True c" using wf by (simp_all add: Cons)
  have "skip (?nl @ s) = skip s" by (rule skip_ws) (auto simp: code_def)
  also have "skip s = s" by (intro skip_delim) (simp add: s_def quoted_def)
  finally have sk: "skip (?nl @ s) = s" .
  have c: "cur s = CHR 0x22" by (simp add: s_def quoted_def)
  have d: "delim tail" unfolding tail_def by (cases cs'; cases fmt) (simp_all add: delim_def)
  have rd: "reads E (parse_value E f) fmt (depth + 1) c" using cs(1) Cons by simp
  let ?g = "\<lambda>(child, value) k. obind (parse_members (parse_value E f) E f [child] (skip value) k) (\<lambda>(cs, value) k.
      if cur value = CHR ''}'' then (Ok (set_children cs (cJSON cJSON_Object None 0 (fp_of_int E 0) nm []), tl value), k)
      else (Fail (Some value), k))"
  obtain k1 where k1: "obind (parse_member_name E s k) (\<lambda>(child, value) k. obind (parse_value E f child (skip value) k) ?g) = ?g (c, tail) k1"
    using parse_member_reads [OF m rd w(1) d, of "[]" k ?g] unfolding s_def by auto
  obtain k2 where "parse_members (parse_value E f) E f [c] (skip tail) k1 = (Ok ([c] @ cs', ''}'' @ rest), k2)"
    using parse_members_reads [OF m, of ?ws fmt cs' "parse_value E f" "depth + 1" f "[c]" rest k1] cs w(2) Cons
    unfolding tail_def by (auto simp: code_def)
  then show ?thesis
    using wf sk k1 c Cons unfolding tx
    by (auto simp: parse_object_def set_type_def set_children_def wf_fields_def Let_def)
qed

lemma parse_value_reads:
  assumes "fp_exact E" "\<forall>k. env_malloc E k"
  shows "wf_tree E named t \<Longrightarrow> length (tree_text fmt depth t) < fuel \<Longrightarrow> reads E (parse_value E fuel) fmt depth t"
proof (induction t arbitrary: named depth fuel)
  case (cJSON t vs vi vd nm cs)
  obtain f where f: "fuel = Suc f" using cJSON.prems(2) by (cases fuel) auto
  have IH: "\<forall>c \<in> set cs. reads E (parse_value E f) fmt (depth + 1) c"
    using cJSON.IH [of _ "t = cJSON_Object" "depth + 1" f] cJSON.prems tree_text_children [OF cJSON.prems(1), of _ fmt depth]
    by (fastforce simp: f)
  have cnt: "length cs < f \<or> cs = []" using tree_text_count [OF cJSON.prems(1), of fmt depth] cJSON.prems(2) by (auto simp: f)
  show ?case
    unfolding reads_def
  proof (intro allI impI)
    fix ty rest k assume d: "delim rest"
    let ?item = "cJSON ty None 0 (fp_of_int E 0) nm []"
    have wf: "wf_fields E (cJSON t vs vi vd nm cs)" using cJSON.prems(1) by simp
    obtain n s where n: "dec_int vi = n # s" "n = CHR ''-'' \<or> isdigit n" using dec_int_head by blast
    have n': "n \<noteq> CHR ''n'' \<and> n \<noteq> CHR ''f'' \<and> n \<noteq> CHR ''t''" using n(2) by (auto simp: isdigit_def code_def)
    have q: "quoted x @ r = CHR 0x22 # concat (map print_char x) @ CHR 0x22 # r" for x r by (simp add: quoted_def)
    consider "t \<in> {0, 1, 2}" | "t = 3" | "t = 4" | "t = 5" | "t = 6" using wf_type [OF cJSON.prems(1)] by auto
    then show "\<exists>k'. parse_value E fuel (cJSON ty None 0 (fp_of_int E 0) (cstring (cJSON t vs vi vd nm cs)) [])
        (tree_text fmt depth (cJSON t vs vi vd nm cs) @ rest) k = (Ok (cJSON t vs vi vd nm cs, rest), k')"
    proof cases
      case 1
      have e: "vs = None" "vd = fp_of_int E 0" "cs = []" "vi = (if t = 1 then 1 else 0)"
        using 1 wf cJSON.prems(1) by (auto simp: wf_fields_def)
      from 1 have "t = 0 \<or> t = 1 \<or> t = 2" by simp
      then show ?thesis
        by (elim disjE) (simp_all add: f e parse_value.simps(2) tree_text.simps set_type_def set_true_def)
    next
      case 2
      then show ?thesis
        using n n' wf cJSON.prems(1) parse_number_int [OF assms(1) _ d, of vi ?item]
        by (auto simp: f tree_text.simps parse_value_head wf_fields_def)
    next
      case 3
      then obtain x where x: "vs = Some x" "cstr x" using wf by (auto simp: wf_fields_def)
      show ?thesis
        using 3 x wf cJSON.prems(1) parse_string_quoted [OF x(2), of E k ?item rest] assms(2)
        by (auto simp: f tree_text.simps q parse_value_head wf_fields_def isdigit_def code_def)
    next
      case 4
      obtain s where "tree_text fmt depth (cJSON t vs vi vd nm cs) = CHR ''['' # s" using 4 by (simp add: tree_text.simps)
      then show ?thesis
        using parse_array_reads [OF assms(2) cJSON.prems(1) [unfolded 4] IH cnt, of ty rest k] 4
        by (simp add: f parse_value_head isdigit_def code_def)
    next
      case 5
      obtain s where "tree_text fmt depth (cJSON t vs vi vd nm cs) = CHR ''{'' # s" using 5 by (cases "cs = []") (auto simp: tree_text.simps)
      then show ?thesis
        using parse_object_reads [OF assms(2) cJSON.prems(1) [unfolded 5] IH cnt, of ty rest k] 5
        by (simp add: f parse_value_head isdigit_def code_def)
    qed
  qed
qed

section \<open>Properties\<close>

text \<open>An environment whose \<open>double\<close> are the whole numbers, to which the properties apply.\<close>

definition int_env :: "int cenv" where
  "int_env = \<lparr>env_malloc = (\<lambda>_. True), env_uc = 0, env_uc2 = 0, fp_of_int = id, fp_add = (+), fp_sub = (-),
     fp_mul = (*), fp_pow10 = (\<lambda>x. 10 ^ nat x), fp_to_int = id, fp_abs = abs, fp_floor = id, fp_le = (\<le>), fp_lt = (<),
     fp_epsilon = 0, fp_1e60 = 10 ^ 60, fp_1em6 = 0, fp_1e9 = 10 ^ 9, fp_fmt_0f = dec_int,
     fp_fmt_e = (\<lambda>_. ''0e0''), fp_fmt_f = (\<lambda>_. ''0.0'')\<rparr>"

lemma int_env_exact: "fp_exact int_env"
  by (auto simp: fp_exact_def int_env_def int_range_def)

lemma int_env_fits: "fmt_fits int_env"
proof -
  have "length (dec_int d) < 64" if "\<bar>d\<bar> < 10 ^ 60" for d
  proof -
    have "nat \<bar>d\<bar> < 10 ^ Suc 59" using that by (simp add: nat_less_iff)
    from dec_nat_length [OF this] show ?thesis by (auto simp: dec_int_def)
  qed
  then show ?thesis by (simp add: fmt_fits_def int_env_def)
qed

text \<open>C1: Parsing the printed text of a tree gives the tree back and reads the whole text: numbers in the
  range of \<open>int\<close>, strings of any bytes, nested arrays and objects, formatted or not. It asks of \<open>double\<close>
  that whole numbers are exact, and of the allocator that it succeeds.\<close>

theorem json_roundtrip:
  assumes "fp_exact E" "\<forall>k. env_malloc E k" "wf_tree E False t" "\<not> (fmt \<and> is_empty_object t)"
  shows "\<exists>txt. (if fmt then cJSON_Print E t else cJSON_PrintUnformatted E t) = Text txt
    \<and> fst (cJSON_ParseWithOpts E txt True) = Ok (t, [])"
proof -
  let ?x = "tree_text fmt 0 t"
  have p: "(if fmt then cJSON_Print E t else cJSON_PrintUnformatted E t) = Text ?x"
    using print_value_text [OF assms(1-3), of fmt 0 0] assms(4)
    by (cases fmt) (simp_all add: cJSON_Print_def cJSON_PrintUnformatted_def)
  have nm: "cstring t = None" using assms(3) by (cases t) auto
  have rd: "reads E (parse_value E (length ?x + 1)) fmt 0 t" by (rule parse_value_reads [OF assms(1-3)]) simp
  obtain k' where "parse_value E (length ?x + 1) (cJSON 0 None 0 (fp_of_int E 0) None []) ?x 1 = (Ok (t, []), k')"
    using readsD [OF rd, of "[]" 0 1] nm by (auto simp: delim_def)
  moreover have "skip ?x = ?x" using skip_tree_text [OF assms(3), of fmt 0 "[]"] by simp
  ultimately have "fst (cJSON_ParseWithOpts E ?x True) = Ok (t, [])"
    using assms(2) by (simp add: cJSON_ParseWithOpts_def cJSON_New_Item_def)
  with p show ?thesis by blast
qed

theorem json_roundtrip_witness:
  "\<exists>txt. (if True then cJSON_Print int_env (cJSON 6 None 0 0 None
        [cJSON 5 None 0 0 (Some ''a'') [cJSON 3 None (-7) (-7) None [], cJSON 4 (Some [CHR 0x0A]) 0 0 None []]])
      else cJSON_PrintUnformatted int_env (cJSON 6 None 0 0 None [])) = Text txt
    \<and> fst (cJSON_ParseWithOpts int_env txt True) = Ok (cJSON 6 None 0 0 None
        [cJSON 5 None 0 0 (Some ''a'') [cJSON 3 None (-7) (-7) None [], cJSON 4 (Some [CHR 0x0A]) 0 0 None []]], [])"
  using json_roundtrip [OF int_env_exact, of "cJSON 6 None 0 0 None
        [cJSON 5 None 0 0 (Some ''a'') [cJSON 3 None (-7) (-7) None [], cJSON 4 (Some [CHR 0x0A]) 0 0 None []]]" True]
  by (simp add: int_env_def wf_fields_def cstr_def int_range_def is_empty_object_def)



text \<open>\<open>cJSON_Print\<close> of an empty object writes four bytes to the three it has allocated.\<close>

theorem print_empty_object_overflow:
  assumes "is_empty_object item" "env_malloc E 0"
  shows "cJSON_Print E item = PFault"
  using assms by (cases item) (simp add: is_empty_object_def cJSON_Print_def print_object_def print_empty_object_def in_buffer_def)

theorem print_empty_object_overflow_witness: "cJSON_Print int_env (cJSON 6 None 0 0 None []) = PFault"
  by (rule print_empty_object_overflow) (simp_all add: is_empty_object_def int_env_def)

section \<open>Texts that take the parser out of its buffers\<close>

text \<open>A backslash before the end of the text, and a \<open>\u\<close> whose four digits the closing quote cuts
  short.\<close>

lemma parse_backslash_end:
  "env_malloc E 0 \<Longrightarrow> fst (cJSON_Parse E [CHR 0x22, CHR 0x5C]) = Fault"
  by (simp add: cJSON_Parse_def cJSON_ParseWithOpts_def cJSON_New_Item_def parse_value.simps(2) parse_string_def
      isend_def isdigit_def code_def)

lemma parse_short_u:
  assumes "env_malloc E 0" "env_malloc E 1" "env_uc E = 0"
  shows "fst (cJSON_Parse E [CHR 0x22, CHR 0x5C, CHR ''u'', CHR 0x22, CHR '','', CHR ''x'', CHR ''y'', CHR ''A'', CHR ''B'', CHR ''C'']) = Fault"
proof -
  have "hex_value (CHR 0x22) = None" by (simp add: hex_value_def code_def)
  then have "hex_digits w (CHR 0x22 # s) = []" for w s by (cases w) simp_all
  moreover have "dropWhile isspace (CHR 0x22 # s) = CHR 0x22 # s" for s by (simp add: isspace_def code_def)
  ultimately have "sscanf_4x (CHR 0x22 # s) = None" for s unfolding sscanf_4x_def by (simp add: Let_def)
  then show ?thesis using assms
    by (simp add: cJSON_Parse_def cJSON_ParseWithOpts_def cJSON_New_Item_def parse_value.simps(2) parse_string_def
        isend_def isdigit_def code_def copy_simps parse_u_def)
qed

end
