(* ===== verification/Util_Fun.thy ===== *)
theory Util_Fun
  imports C_Strings "HOL-Library.Sublist"
begin

unbundle bit_operations_syntax

text \<open>
  The string helpers of \<open>src/util_fun.cpp\<close>: splitting, joining, searching and replacing, trimming,
  comparing with and without case, case conversion, the hexadecimal dump and the random buffer. A
  \<open>const char*\<close> is the list of its characters before the terminating zero; a \<open>std::string\<close> is the
  list of all its characters.
\<close>

section \<open>Splitting at a character\<close>

text \<open>The loop of \<open>splitString\<close> over \<open>cont\<close> with its variables \<open>res\<close> and \<open>cur\<close>, and the
  statements behind it.\<close>

fun splitString_loop :: "char \<Rightarrow> string list \<Rightarrow> string \<Rightarrow> string \<Rightarrow> string list" where
  "splitString_loop sep res word [] = (if word \<noteq> [] then res @ [word] else res)"
| "splitString_loop sep res word (c # cont) =
     (if c = sep then
        if word \<noteq> [] then splitString_loop sep (res @ [word]) [] cont
        else splitString_loop sep res word cont
      else splitString_loop sep res (word @ [c]) cont)"

definition splitString :: "string \<Rightarrow> char \<Rightarrow> string list" where
  "splitString cont sep = splitString_loop sep [] [] cont"

text \<open>\<open>c_str()\<close> of a string, as a callee that stops at the first zero sees it.\<close>

definition c_str :: "string \<Rightarrow> string" where
  "c_str str = takeWhile (\<lambda>c. c \<noteq> CHR 0x00) str"

section \<open>Comparing\<close>

text \<open>The value of a \<open>char\<close>, which is signed, and \<open>tolower\<close> in the C locale.\<close>

definition schar :: "char \<Rightarrow> int" where
  "schar c = (if code c < 128 then int (code c) else int (code c) - 256)"

definition tolower :: "int \<Rightarrow> int" where
  "tolower v = (if 65 \<le> v \<and> v \<le> 90 then v + 32 else v)"

fun strcmpNoCase :: "string \<Rightarrow> string \<Rightarrow> int" where
  "strcmpNoCase (c1 # s1) (c2 # s2) =
     (if tolower (schar c1) - tolower (schar c2) = 0 then strcmpNoCase s1 s2
      else tolower (schar c1) - tolower (schar c2))"
| "strcmpNoCase s1 s2 = tolower (schar (cur s1)) - tolower (schar (cur s2))"

fun strcmpCase :: "string \<Rightarrow> string \<Rightarrow> int" where
  "strcmpCase (c1 # s1) (c2 # s2) =
     (if schar c1 - schar c2 = 0 then strcmpCase s1 s2 else schar c1 - schar c2)"
| "strcmpCase s1 s2 = schar (cur s1) - schar (cur s2)"

definition compareNoCase :: "string \<Rightarrow> string \<Rightarrow> bool" where
  "compareNoCase s1 s2 \<longleftrightarrow> strcmpNoCase (c_str s1) (c_str s2) = 0"

definition compareCase :: "string \<Rightarrow> string \<Rightarrow> bool" where
  "compareCase s1 s2 \<longleftrightarrow> strcmpCase (c_str s1) (c_str s2) = 0"

text \<open>\<open>compareNoCase(...) == 0\<close> compares the truth value with zero.\<close>

definition strToBool :: "string \<Rightarrow> bool" where
  "strToBool str = (if (compareNoCase (c_str str) ''true'') = False then True else False)"

section \<open>Case conversion\<close>

definition toLower :: "string \<Rightarrow> string" where
  "toLower str = map (\<lambda>c. if 65 \<le> schar c \<and> schar c \<le> 90 then char_of (code c OR 32) else c) str"

definition toUpper :: "string \<Rightarrow> string" where
  "toUpper str = map (\<lambda>c. if 97 \<le> schar c \<and> schar c \<le> 122 then char_of (code c - 32) else c) str"

section \<open>Searching and replacing\<close>

text \<open>\<open>std::string::find\<close> from a position on; \<open>None\<close> is \<open>npos\<close>.\<close>

fun find_from :: "string \<Rightarrow> string \<Rightarrow> nat \<Rightarrow> nat option" where
  "find_from pat [] n = (if pat = [] then Some n else None)"
| "find_from pat (c # s) n = (if prefix pat (c # s) then Some n else find_from pat s (n + 1))"

definition string_find :: "string \<Rightarrow> string \<Rightarrow> nat \<Rightarrow> nat option" where
  "string_find str pat pos = (if pos \<le> length str then find_from pat (drop pos str) pos else None)"

lemma find_from_ge: "find_from pat s n = Some p \<Longrightarrow> n \<le> p"
  by (induction pat s n rule: find_from.induct) (auto split: if_splits)

text \<open>The loop of \<open>replaceAll\<close> from the position \<open>pos\<close>; it may run forever, which is \<open>None\<close>.\<close>

partial_function (option) replaceAll_loop :: "string \<Rightarrow> string \<Rightarrow> string \<Rightarrow> nat \<Rightarrow> string option" where
  "replaceAll_loop oldVal newVal str pos =
     (if pos < length str then
        (case string_find str oldVal pos of
           None \<Rightarrow> Some str
         | Some p \<Rightarrow> replaceAll_loop oldVal newVal
                      (take p str @ newVal @ drop (p + length oldVal) str) (p + length newVal))
      else Some str)"

definition replaceAll :: "string \<Rightarrow> string \<Rightarrow> string \<Rightarrow> string option" where
  "replaceAll str oldVal newVal = replaceAll_loop oldVal newVal str 0"

text \<open>\<open>strToStrList\<close> with a string to split at: the loop from the position \<open>last_search_position\<close>.\<close>

function strToStrList_loop :: "string \<Rightarrow> string \<Rightarrow> nat \<Rightarrow> string list" where
  "strToStrList_loop src delimit pos =
     (case string_find src delimit pos of
        Some index \<Rightarrow>
          if delimit = [] then []
          else take (index - pos) (drop pos src) # strToStrList_loop src delimit (index + length delimit)
      | None \<Rightarrow> let last_one = drop pos src in if last_one \<noteq> [] then [last_one] else [])"
  by pat_completeness auto
termination
  by (relation "measure (\<lambda>(src, delimit, pos). length src + 1 - pos)")
     (auto simp: string_find_def neq_Nil_conv split: if_splits dest!: find_from_ge)

declare strToStrList_loop.simps [simp del]

text \<open>The caller has excluded the empty separator, on which the loop would stand still.\<close>

definition strToStrList :: "string \<Rightarrow> string \<Rightarrow> string list" where
  "strToStrList src delimit =
     (if src = [] \<or> delimit = [] then [] else strToStrList_loop src delimit 0)"

section \<open>Joining\<close>

text \<open>\<open>substr(0, size() - n)\<close>: the difference wraps around when it is negative, and the whole
  string is taken.\<close>

definition chop :: "string \<Rightarrow> nat \<Rightarrow> string" where
  "chop str n = (if n \<le> length str then take (length str - n) str else str)"

text \<open>\<open>formatString\<close> prints to a zeroed buffer of 20 KiB: \<open>str\<close> is what the format and its arguments
  expand to, and what does not fit is cut off.\<close>

definition formatString :: "string \<Rightarrow> string" where
  "formatString str = c_str (take (20 * 1024 - 1) str)"

definition intToStr :: "int \<Rightarrow> string" where
  "intToStr i = formatString (dec_int i)"

definition longToStr :: "int \<Rightarrow> string" where
  "longToStr l = formatString (dec_int l)"

text \<open>The expansion of \<open>%lf\<close> is a parameter.\<close>

definition doubleToStr :: "('d \<Rightarrow> string) \<Rightarrow> 'd \<Rightarrow> string" where
  "doubleToStr lf d = formatString (lf d)"

definition intListToStr :: "int list \<Rightarrow> char \<Rightarrow> string" where
  "intListToStr l delim = chop (concat (map (\<lambda>i. intToStr i @ [delim]) l)) 1"

definition strListToStr :: "string list \<Rightarrow> char \<Rightarrow> string" where
  "strListToStr l delim = chop (concat (map (\<lambda>s. s @ [delim]) l)) 1"

definition strListToStr_by :: "string list \<Rightarrow> string \<Rightarrow> string" where
  "strListToStr_by l delim = chop (concat (map (\<lambda>s. s @ delim) l)) (length delim)"

section \<open>Trimming and reading numbers\<close>

text \<open>The two loops of \<open>trimSpaces\<close>: \<open>be\<close> moves up to the first character that is no space,
  \<open>ed\<close> down to the last one, but never below zero.\<close>

fun trim_begin :: "string \<Rightarrow> nat" where
  "trim_begin [] = 0"
| "trim_begin (c # s) = (if c \<noteq> CHR 0x00 \<and> isspace c then Suc (trim_begin s) else 0)"

fun trim_end :: "string \<Rightarrow> nat \<Rightarrow> nat" where
  "trim_end value 0 = 0"
| "trim_end value (Suc ed) = (if isspace (value ! Suc ed) then trim_end value ed else Suc ed)"

definition trimSpaces :: "string \<Rightarrow> string" where
  "trimSpaces value =
     (let be = trim_begin value;
          ed = (if value = [] then - 1 else int (trim_end value (length value - 1)))
      in if ed \<ge> int be then take (nat (ed - int be + 1)) (drop be value) else [])"

text \<open>\<open>atoi\<close> and \<open>atol\<close>: white space, a sign, digits; a value that does not fit the type, of \<open>w\<close>
  bits, is not defined by the C library, which is \<open>None\<close>.\<close>

fun atoi_digits :: "int \<Rightarrow> string \<Rightarrow> int" where
  "atoi_digits v [] = v"
| "atoi_digits v (c # s) = (if isdigit c then atoi_digits (v * 10 + digit_value c) s else v)"

definition ato_signed :: "nat \<Rightarrow> string \<Rightarrow> int option" where
  "ato_signed w str =
     (let s = dropWhile isspace str;
          v = (case s of
                 [] \<Rightarrow> 0
               | c # t \<Rightarrow> if c = CHR ''-'' then - atoi_digits 0 t
                          else if c = CHR ''+'' then atoi_digits 0 t else atoi_digits 0 s)
      in if - (2 ^ (w - 1)) \<le> v \<and> v < 2 ^ (w - 1) then Some v else None)"

definition strToInt :: "string \<Rightarrow> int option" where
  "strToInt str = ato_signed 32 (c_str str)"

text \<open>The width of a \<open>long\<close> depends on the platform.\<close>

definition strToLong :: "nat \<Rightarrow> string \<Rightarrow> int option" where
  "strToLong w str = ato_signed w (c_str str)"

definition strToDouble :: "(string \<Rightarrow> 'd) \<Rightarrow> string \<Rightarrow> 'd" where
  "strToDouble atof str = atof (c_str str)"

definition strToIntList :: "string \<Rightarrow> char \<Rightarrow> int option list" where
  "strToIntList str delim =
     (let s = trimSpaces str; vs = splitString (c_str s) delim in map strToInt vs)"

definition strToLongList :: "nat \<Rightarrow> string \<Rightarrow> char \<Rightarrow> int option list" where
  "strToLongList w str delim =
     (let s = trimSpaces str; vs = splitString (c_str s) delim in map (strToLong w) vs)"

definition strToStrList_char :: "string \<Rightarrow> char \<Rightarrow> string list" where
  "strToStrList_char str delim = splitString (c_str str) delim"

section \<open>Hexadecimal dump and random buffer\<close>

fun hex_nat :: "nat \<Rightarrow> string" where
  "hex_nat n = (if n < 16 then [hex_char n] else hex_nat (n div 16) @ [hex_char (n mod 16)])"

declare hex_nat.simps [simp del]

text \<open>\<open>%02x\<close> and \<open>%04x\<close>\<close>

definition hex_pad :: "nat \<Rightarrow> nat \<Rightarrow> string" where
  "hex_pad w n = replicate (w - length (hex_nat n)) (CHR ''0'') @ hex_nat n"

definition isprint :: "byte \<Rightarrow> bool" where
  "isprint b \<longleftrightarrow> 32 \<le> b \<and> b < 127"

definition dump_line :: "bytes \<Rightarrow> nat \<Rightarrow> string" where
  "dump_line data i =
     (let pline = drop (16 * i) data; c = min (length data - 16 * i) 16 in
      hex_pad 4 (16 * i) @ ''    '' @
      concat (map (\<lambda>j. (if j = 8 then '' '' else []) @
                       (if j < c then hex_pad 2 (unat (pline ! j)) @ '' '' else ''   '')) [0..<16]) @
      '' '' @
      concat (map (\<lambda>j. (if j = 8 then '' '' else []) @
                       (if j < c then [if isprint (pline ! j) then char_of (unat (pline ! j)) else CHR ''.'']
                        else '' '')) [0..<16]) @
      [CHR 0x0A])"

definition getHexDump :: "bytes \<Rightarrow> string" where
  "getHexDump data =
     ''dumping bytes '' @ hex_pad 2 (length data) @ [CHR 0x0A] @
     concat (map (dump_line data) [0..<(length data + 15) div 16])"

text \<open>\<open>randomBuf\<close> on a buffer: the loop runs over \<open>sizeof(d)\<close>, the size of a pointer, which is the
  parameter \<open>psz\<close>; \<open>rnd i\<close> is the value the \<open>i\<close>-th call of \<open>rand()\<close> returns after the seeding. A
  buffer shorter than a pointer is written beyond its end, which is \<open>None\<close>.\<close>

definition randomBuf :: "nat \<Rightarrow> (nat \<Rightarrow> nat) \<Rightarrow> bytes \<Rightarrow> bytes option" where
  "randomBuf psz rnd data =
     (if psz \<le> length data
      then Some (map (\<lambda>i. of_nat (rnd i mod 256)) [0..<psz] @ drop psz data) else None)"


section \<open>Splitting and joining\<close>

text \<open>What splitting yields: the non-empty runs between separators, in order.\<close>

function runs :: "char \<Rightarrow> string \<Rightarrow> string list" where
  "runs sep [] = []"
| "runs sep (c # s) =
     (if c = sep then runs sep s
      else (c # takeWhile (\<lambda>d. d \<noteq> sep) s) # runs sep (dropWhile (\<lambda>d. d \<noteq> sep) s))"
  by pat_completeness auto
termination
  by (relation "measure (\<lambda>(sep, s). length s)") (auto simp: le_imp_less_Suc length_dropWhile_le)

lemma splitString_loop_runs:
  "sep \<notin> set word \<Longrightarrow> splitString_loop sep res word cont =
     res @ (if word = [] then runs sep cont
            else (word @ takeWhile (\<lambda>d. d \<noteq> sep) cont) # runs sep (dropWhile (\<lambda>d. d \<noteq> sep) cont))"
  by (induction sep res word cont rule: splitString_loop.induct) auto

lemma splitString_runs: "splitString cont sep = runs sep cont"
  by (simp add: splitString_def splitString_loop_runs)

lemma runs_sound: "w \<in> set (runs sep s) \<Longrightarrow> w \<noteq> [] \<and> sep \<notin> set w"
  by (induction sep s rule: runs.induct) (auto split: if_splits dest: set_takeWhileD)

lemma concat_runs: "concat (runs sep s) = filter (\<lambda>c. c \<noteq> sep) s"
proof (induction sep s rule: runs.induct)
  case (2 sep c s)
  have "filter (\<lambda>d. d \<noteq> sep) s = takeWhile (\<lambda>d. d \<noteq> sep) s @ filter (\<lambda>d. d \<noteq> sep) (dropWhile (\<lambda>d. d \<noteq> sep) s)"
    by (induction s) auto
  with 2 show ?case by simp
qed simp

lemma runs_word: "w \<noteq> [] \<Longrightarrow> sep \<notin> set w \<Longrightarrow> runs sep (w @ sep # s) = w # runs sep s"
  by (cases w) (auto simp: takeWhile_append dropWhile_append)

lemma runs_last: "w \<noteq> [] \<Longrightarrow> sep \<notin> set w \<Longrightarrow> runs sep w = [w]"
proof (cases w)
  case (Cons c s)
  assume "sep \<notin> set w"
  then have "takeWhile (\<lambda>d. d \<noteq> sep) s = s" "dropWhile (\<lambda>d. d \<noteq> sep) s = []" "c \<noteq> sep"
    using Cons by (auto simp: takeWhile_eq_all_conv dropWhile_eq_Nil_conv)
  then show ?thesis using Cons by (simp only: runs.simps if_False)
qed simp

lemma chop_append [simp]: "chop (s @ t) (length t) = s"
  by (simp add: chop_def)

lemma concat_sep_snoc:
  "l \<noteq> [] \<Longrightarrow> concat (map (\<lambda>s. f s @ d) l) = concat (map (\<lambda>s. f s @ d) (butlast l)) @ f (last l) @ d"
  by (induction l) auto

lemma strListToStr_snoc:
  "strListToStr (l @ [w]) delim = concat (map (\<lambda>s. s @ [delim]) l) @ w"
  using chop_append [of "concat (map (\<lambda>s. s @ [delim]) l) @ w" "[delim]"]
  by (simp add: strListToStr_def)

lemma runs_join:
  "\<forall>w \<in> set l. w \<noteq> [] \<and> sep \<notin> set w \<Longrightarrow> runs sep (concat (map (\<lambda>s. s @ [sep]) l) @ t) = l @ runs sep t"
  by (induction l) (auto simp: runs_word)

section \<open>Properties of splitting\<close>

lemma split_join:
  "\<forall>w \<in> set l. w \<noteq> [] \<and> sep \<notin> set w \<Longrightarrow> splitString (strListToStr l sep) sep = l"
  by (cases l rule: rev_cases)
     (auto simp: splitString_runs strListToStr_snoc runs_join runs_last, simp add: strListToStr_def chop_def)

text \<open>Splitting at a character yields exactly the non-empty pieces: no piece is empty or holds
  the separator, together they are the text without its separators, and splitting what
  \<open>strListToStr\<close> joined from such pieces gives the pieces back.\<close>

theorem splitString_correct:
  "(\<forall>w \<in> set (splitString cont sep). w \<noteq> [] \<and> sep \<notin> set w)
   \<and> concat (splitString cont sep) = filter (\<lambda>c. c \<noteq> sep) cont
   \<and> ((\<forall>w \<in> set l. w \<noteq> [] \<and> sep \<notin> set w) \<longrightarrow> splitString (strListToStr l sep) sep = l)"
  using split_join by (auto simp: splitString_runs concat_runs dest: runs_sound)

theorem splitString_correct_witness:
  "concat (splitString ''  blmcomm  main '' CHR '' '') = ''blmcommmain''
   \<and> splitString (strListToStr [''blmcomm'', ''main''] CHR '' '') CHR '' '' = [''blmcomm'', ''main'']"
  using splitString_correct [of "''  blmcomm  main ''" "CHR '' ''" "[''blmcomm'', ''main'']"] by simp

section \<open>Comparison and case\<close>

lemma code_less_256: "code c < 256"
  using range_nat_of_char by (auto simp: code_def)

lemma code_eq_iff: "code c = code d \<longleftrightarrow> c = d"
  by (simp add: code_def)

lemma schar_inj [simp]: "schar c = schar d \<longleftrightarrow> c = d"
  using code_less_256 [of c] code_less_256 [of d] by (auto simp: schar_def code_eq_iff split: if_splits)

lemma schar_zero [simp]: "schar c = 0 \<longleftrightarrow> c = CHR 0x00"
  using schar_inj [of c "CHR 0x00"] by (simp add: schar_def code_def)

lemma schar_cur_Nil [simp]: "schar (cur []) = 0"
  by (simp add: cur_def schar_def code_def)

lemma tolower_zero [simp]: "tolower v = tolower 0 \<longleftrightarrow> v = 0" "tolower 0 = tolower v \<longleftrightarrow> v = 0"
  by (auto simp: tolower_def)


lemma cur_zero: "CHR 0x00 \<notin> set s \<Longrightarrow> cur s = CHR 0x00 \<longleftrightarrow> s = []"
  by (cases s) (auto simp: cur_def)

lemma c_str_nul [simp]: "CHR 0x00 \<notin> set (c_str s)"
  by (auto simp: c_str_def dest: set_takeWhileD)

lemma strcmpCase_zero:
  "CHR 0x00 \<notin> set s1 \<Longrightarrow> CHR 0x00 \<notin> set s2 \<Longrightarrow> strcmpCase s1 s2 = 0 \<longleftrightarrow> s1 = s2"
  by (induction s1 s2 rule: strcmpCase.induct) (auto simp: cur_zero)

lemma toLower_char:
  "schar (if 65 \<le> schar c \<and> schar c \<le> 90 then char_of (code c OR 32) else c) = tolower (schar c)"
proof (cases "65 \<le> schar c \<and> schar c \<le> 90")
  case True
  then have "65 \<le> code c" "code c \<le> 90"
    using code_less_256 [of c] by (auto simp: schar_def split: if_splits)
  then have "code c + 32 < 128" by simp
  moreover have "list_all (\<lambda>n. n OR 32 = n + 32) [65..<91]" by code_simp
  then have "code c OR 32 = code c + 32"
    using \<open>65 \<le> code c\<close> \<open>code c \<le> 90\<close> by (simp only: list_all_iff set_upt) simp
  ultimately have "code c OR 32 = code c + 32" "code c + 32 < 128" by simp_all
  then show ?thesis using True by (simp add: schar_def code_char_of tolower_def)
qed (auto simp: tolower_def)

lemma strcmpNoCase_zero:
  "CHR 0x00 \<notin> set s1 \<Longrightarrow> CHR 0x00 \<notin> set s2 \<Longrightarrow>
   strcmpNoCase s1 s2 = 0 \<longleftrightarrow> map (tolower \<circ> schar) s1 = map (tolower \<circ> schar) s2"
  by (induction s1 s2 rule: strcmpNoCase.induct) (auto simp: cur_zero)

lemma map_schar_eq: "map schar s = map schar t \<longleftrightarrow> s = t"
  by (metis (no_types, lifting) injI inj_map_eq_map schar_inj)

lemma toLower_schar: "map schar (toLower s) = map (tolower \<circ> schar) s"
  by (simp add: toLower_def toLower_char del: if_split)

lemma compareNoCase_toLower: "compareNoCase s1 s2 \<longleftrightarrow> toLower (c_str s1) = toLower (c_str s2)"
  by (simp add: compareNoCase_def strcmpNoCase_zero flip: map_schar_eq toLower_schar)

text \<open>\<open>compareCase\<close> decides equality and \<open>compareNoCase\<close> equality after lowering, of the
  strings up to their first zero.\<close>

theorem compare_correct:
  "(compareCase s1 s2 \<longleftrightarrow> c_str s1 = c_str s2)
   \<and> (compareNoCase s1 s2 \<longleftrightarrow> toLower (c_str s1) = toLower (c_str s2))"
  by (simp add: compareNoCase_toLower compareCase_def strcmpCase_zero)

text \<open>\<open>strToBool\<close> answers the opposite of its name: the result is true exactly for the
  strings that are not \<open>true\<close> in any mix of cases.\<close>

theorem strToBool_inverted: "strToBool str \<longleftrightarrow> toLower (c_str str) \<noteq> ''true''"
proof -
  have "toLower ''true'' = ''true''" "c_str ''true'' = ''true''"
    by (simp_all add: toLower_def c_str_def schar_def code_def)
  moreover have "c_str (c_str str) = c_str str" by (simp add: c_str_def)
  ultimately show ?thesis by (simp add: strToBool_def compareNoCase_toLower)
qed

section \<open>Trimming\<close>

lemma trim_begin_dropWhile: "drop (trim_begin s) s = dropWhile isspace s"
  by (induction s) (auto simp: isspace_def code_def)

lemma trim_begin_le: "trim_begin s \<le> length s"
  by (induction s) auto

lemma trim_begin_take: "trim_begin (take n s) = min n (trim_begin s)"
  by (induction s arbitrary: n) (auto simp: take_Cons' min_def)

lemma trim_begin_takeWhile: "take (trim_begin s) s = takeWhile isspace s"
  by (induction s) (auto simp: isspace_def code_def)

text \<open>\<open>ed\<close> is the index of the last character that is no space, or zero.\<close>

lemma trim_end_spec:
  "trim_end s n \<le> n \<and> (\<forall>k. trim_end s n < k \<and> k \<le> n \<longrightarrow> isspace (s ! k))
   \<and> (trim_end s n = 0 \<or> \<not> isspace (s ! trim_end s n))"
  by (induction s n rule: trim_end.induct) (auto simp: le_Suc_eq)

lemma dropWhile_rev_take:
  assumes "n < length s" "\<not> isspace (s ! n)" "\<forall>k. n < k \<and> k < length s \<longrightarrow> isspace (s ! k)"
  shows "rev (dropWhile isspace (rev s)) = take (Suc n) s"
proof -
  have "s = take (Suc n) s @ drop (Suc n) s" by simp
  moreover have "\<forall>x \<in> set (drop (Suc n) s). isspace x"
    using assms(3) by (auto simp: in_set_conv_nth)
  then have "dropWhile isspace (rev (drop (Suc n) s) @ rev (take (Suc n) s)) = dropWhile isspace (rev (take (Suc n) s))"
    by (simp add: dropWhile_append)
  moreover have "dropWhile isspace (rev (take (Suc n) s)) = rev (take (Suc n) s)"
    using assms(1,2) by (simp add: take_Suc_conv_app_nth)
  ultimately show ?thesis by (metis rev_append rev_rev_ident)
qed

lemma trim_both:
  "trimSpaces s = dropWhile isspace (rev (dropWhile isspace (rev s)))"
proof (cases "\<forall>c \<in> set s. isspace c")
  case True
  then have "trim_begin s = length s"
    using trim_begin_dropWhile [of s] trim_begin_le [of s] by (metis append_Nil2 append_take_drop_id dropWhile_eq_Nil_conv length_take min.absorb2)
  moreover have "dropWhile isspace (rev s) = []" using True by simp
  moreover have "trim_end s (length s - 1) = 0"
    using trim_end_spec [of s "length s - 1"] True
    by (metis One_nat_def Suc_pred le_imp_less_Suc length_greater_0_conv list.size(3) nth_mem trim_end.simps(1) zero_diff)
  ultimately show ?thesis by (cases "s = []") (simp_all add: trimSpaces_def Let_def del: dropWhile_eq_Nil_conv)
next
  case False
  let ?e = "trim_end s (length s - 1)" and ?b = "trim_begin s"
  have ne: "s \<noteq> []" using False by auto
  obtain i where i: "i < length s" "\<not> isspace (s ! i)" using False by (auto simp: in_set_conv_nth)
  note sp = trim_end_spec [of s "length s - 1"]
  have e1: "?e < length s" using conjunct1 [OF sp] ne by (cases s) auto
  have e2: "isspace (s ! k)" if "?e < k" "k < length s" for k
  proof -
    have "k \<le> length s - 1" using that by linarith
    with that sp show ?thesis by blast
  qed
  have ns: "\<not> isspace (s ! ?e)"
  proof
    assume "isspace (s ! ?e)"
    with sp have "?e = 0" by blast
    then have "i = 0 \<or> ?e < i" by auto
    then show False using i e2 [of i] \<open>isspace (s ! ?e)\<close> \<open>?e = 0\<close> by auto
  qed
  have be: "?b \<le> ?e"
  proof (rule ccontr)
    assume "\<not> ?b \<le> ?e"
    then have "s ! ?e \<in> set (takeWhile isspace s)"
      using e1 nth_mem [of ?e "take ?b s"] by (simp add: trim_begin_takeWhile [symmetric])
    then show False using ns by (auto dest: set_takeWhileD)
  qed
  have "trimSpaces s = drop ?b (take (Suc ?e) s)"
    using be ne by (simp add: trimSpaces_def Let_def drop_take nat_add_distrib Suc_diff_le nat_diff_distrib)
  also have "\<dots> = dropWhile isspace (take (Suc ?e) s)"
    using be trim_begin_dropWhile [of "take (Suc ?e) s"] by (simp add: trim_begin_take min_def)
  finally show ?thesis using dropWhile_rev_take [OF e1 ns] e2 by simp
qed

text \<open>\<open>trimSpaces\<close> removes the white space at both ends and nothing else.\<close>

theorem trimSpaces_correct:
  "trimSpaces s = dropWhile isspace (rev (dropWhile isspace (rev s)))"
  by (rule trim_both)

section \<open>Searching and replacing\<close>

text \<open>The first occurrence: nothing before it holds the pattern.\<close>

lemma find_from_Some:
  assumes "find_from pat s n = Some p" "pat \<noteq> []"
  shows "\<exists>u v. s = u @ pat @ v \<and> p = n + length u \<and> \<not> sublist pat (u @ butlast pat)"
  using assms
proof (induction pat s n rule: find_from.induct)
  case (2 pat c s n)
  show ?case
  proof (cases "prefix pat (c # s)")
    case True
    then obtain v where v: "c # s = pat @ v" by (auto simp: prefix_def)
    have "\<not> sublist pat (butlast pat)"
      using sublist_length_le [of pat "butlast pat"] "2.prems"(2) by (auto simp: neq_Nil_conv)
    moreover have "p = n" using True "2.prems"(1) by simp
    ultimately have "c # s = [] @ pat @ v \<and> p = n + length [] \<and> \<not> sublist pat ([] @ butlast pat)"
      using v by simp
    then show ?thesis by blast
  next
    case False
    then obtain u v where uv: "s = u @ pat @ v" "p = n + 1 + length u" "\<not> sublist pat (u @ butlast pat)"
      using "2.IH" "2.prems" by auto
    have "\<not> prefix pat (c # u @ butlast pat)"
    proof
      assume "prefix pat (c # u @ butlast pat)"
      then have "prefix pat (c # u @ butlast pat @ [last pat] @ v)"
        using prefix_prefix [of pat "c # u @ butlast pat" "[last pat] @ v"] by simp
      then show False using False uv(1) "2.prems"(2) by (metis append_assoc append_butlast_last_id append_Cons)
    qed
    then have "\<not> sublist pat ((c # u) @ butlast pat)" using uv(3) by (simp add: sublist_Cons_right)
    then have "c # s = (c # u) @ pat @ v \<and> p = n + length (c # u) \<and> \<not> sublist pat ((c # u) @ butlast pat)"
      using uv by simp
    then show ?thesis by blast
  qed
qed (simp split: if_splits)

lemma find_from_None: "find_from pat s n = None \<Longrightarrow> \<not> sublist pat s"
  by (induction pat s n rule: find_from.induct) (auto simp: sublist_Cons_right split: if_splits)

lemma string_find_append [simp]: "string_find (xs @ ys) pat (length xs) = find_from pat ys (length xs)"
  by (simp add: string_find_def)

text \<open>Replacing from left to right, never inside a replacement.\<close>

function replace_ref :: "string \<Rightarrow> string \<Rightarrow> string \<Rightarrow> string" where
  "replace_ref old new s =
     (if s = [] \<or> old = [] then s
      else if prefix old s then new @ replace_ref old new (drop (length old) s)
      else hd s # replace_ref old new (tl s))"
  by pat_completeness auto
termination by (relation "measure (\<lambda>(old, new, s). length s)") auto

declare replace_ref.simps [simp del]

lemma replace_ref_find:
  assumes "find_from old s n = Some p" "old \<noteq> []"
  shows "\<exists>u v. s = u @ old @ v \<and> p = n + length u \<and> replace_ref old new s = u @ new @ replace_ref old new v"
  using assms
proof (induction old s n rule: find_from.induct)
  case (2 old c s n)
  show ?case
  proof (cases "prefix old (c # s)")
    case True
    then obtain v where v: "c # s = old @ v" by (auto simp: prefix_def)
    moreover have "p = n" using True "2.prems"(1) by simp
    moreover have "replace_ref old new (old @ v) = new @ replace_ref old new v"
      using "2.prems"(2) by (simp add: replace_ref.simps [of old new "old @ v"])
    ultimately have "c # s = [] @ old @ v \<and> p = n + length [] \<and>
        replace_ref old new (c # s) = [] @ new @ replace_ref old new v" by simp
    then show ?thesis by blast
  next
    case False
    then obtain u v where "s = u @ old @ v" "p = n + 1 + length u"
        "replace_ref old new s = u @ new @ replace_ref old new v"
      using "2.IH" "2.prems" by auto
    moreover have "replace_ref old new (c # s) = c # replace_ref old new s"
      using False "2.prems"(2) by (simp add: replace_ref.simps [of old new "c # s"])
    ultimately have "c # s = (c # u) @ old @ v \<and> p = n + length (c # u) \<and>
        replace_ref old new (c # s) = (c # u) @ new @ replace_ref old new v" by simp
    then show ?thesis by blast
  qed
qed (simp split: if_splits)

lemma replace_ref_none: "find_from old s n = None \<Longrightarrow> replace_ref old new s = s"
proof (induction old s n rule: find_from.induct)
  case (2 old c s n)
  then show ?case by (simp add: replace_ref.simps [of old new "c # s"] split: if_splits)
qed (simp add: replace_ref.simps)

lemma replaceAll_loop_ref:
  "oldVal \<noteq> [] \<Longrightarrow> replaceAll_loop oldVal newVal (pre @ rest) (length pre) = Some (pre @ replace_ref oldVal newVal rest)"
proof (induction rest arbitrary: pre rule: length_induct)
  case (1 rest)
  show ?case
  proof (cases "find_from oldVal rest (length pre)")
    case None
    then show ?thesis by (subst replaceAll_loop.simps) (simp add: replace_ref_none)
  next
    case (Some p)
    then obtain u v where uv: "rest = u @ oldVal @ v" "p = length pre + length u"
        "replace_ref oldVal newVal rest = u @ newVal @ replace_ref oldVal newVal v"
      using replace_ref_find "1.prems" by blast
    have "replaceAll_loop oldVal newVal ((pre @ u @ newVal) @ v) (length (pre @ u @ newVal))
        = Some ((pre @ u @ newVal) @ replace_ref oldVal newVal v)"
      using "1.IH" [rule_format, of v "pre @ u @ newVal"] "1.prems" uv(1) by simp
    then show ?thesis
      using Some uv "1.prems" by (subst replaceAll_loop.simps) (simp add: add.assoc)
  qed
qed

lemma replaceAll_loop_empty:
  assumes "replaceAll_loop old newVal str pos = Some r"
  shows "old = [] \<longrightarrow> \<not> pos < length str"
proof (rule replaceAll_loop.raw_induct [OF _ assms, where P = "\<lambda>old newVal str pos r. old = [] \<longrightarrow> \<not> pos < length str"],
    goal_cases)
  case (1 f old newVal str pos r)
  have "string_find str [] pos = Some pos" if "pos < length str"
    using that by (cases "drop pos str") (auto simp: string_find_def)
  then show ?case using 1 by (fastforce split: if_splits)
qed

text \<open>C29: \<open>replaceAll\<close> ends for every non-empty pattern, with every occurrence replaced from left to
  right and replacements never searched again; for an empty pattern and a non-empty string it
  never returns.\<close>

theorem replaceAll_correct:
  "(oldVal \<noteq> [] \<longrightarrow> replaceAll str oldVal newVal = Some (replace_ref oldVal newVal str))
   \<and> (str \<noteq> [] \<longrightarrow> replaceAll str [] newVal = None)"
  using replaceAll_loop_ref [of oldVal newVal "[]" str] replaceAll_loop_empty [of "[]" newVal str 0]
  by (cases "replaceAll_loop [] newVal str 0") (auto simp: replaceAll_def)

theorem replaceAll_correct_witness:
  "replaceAll ''a.b.c'' ''.'' ''..'' = Some ''a..b..c'' \<and> replaceAll ''a'' [] ''b'' = None"
  using replaceAll_correct [of "''.''" "''a.b.c''" "''..''"] replaceAll_correct [of "[]" "''a''" "''b''"]
  by (simp add: replace_ref.simps)

lemma strToStrList_loop_pieces:
  "delimit \<noteq> [] \<Longrightarrow>
     (concat (map (\<lambda>w. w @ delimit) (strToStrList_loop (pre @ rest) delimit (length pre))) = rest
      \<or> concat (map (\<lambda>w. w @ delimit) (strToStrList_loop (pre @ rest) delimit (length pre))) = rest @ delimit)
     \<and> (\<forall>w \<in> set (strToStrList_loop (pre @ rest) delimit (length pre)). \<not> sublist delimit w)"
proof (induction rest arbitrary: pre rule: length_induct)
  case (1 rest)
  show ?case
  proof (cases "find_from delimit rest (length pre)")
    case None
    then show ?thesis by (subst (1 2 3) strToStrList_loop.simps) (auto simp: Let_def find_from_None)
  next
    case (Some p)
    then obtain u v where uv: "rest = u @ delimit @ v" "p = length pre + length u"
        "\<not> sublist delimit (u @ butlast delimit)"
      using find_from_Some "1.prems" by blast
    then have u: "\<not> sublist delimit u" by (auto simp: sublist_append)
    have eq: "strToStrList_loop (pre @ rest) delimit (length pre)
        = u # strToStrList_loop ((pre @ u @ delimit) @ v) delimit (length (pre @ u @ delimit))"
      using Some "1.prems" by (subst strToStrList_loop.simps) (simp add: uv(1,2) add.assoc)
    have "length v < length rest" using uv(1) "1.prems" by simp
    then show ?thesis
      using "1.IH" "1.prems" u unfolding eq
      by (simp only: list.map concat.simps list.set append_assoc uv(1)) (metis append_assoc insertE)
  qed
qed

text \<open>Splitting at a non-empty string and joining the pieces with it restores the string, up to
  one separator at its very end, and no piece holds the separator.\<close>

theorem strToStrList_pieces:
  assumes "src \<noteq> []" "delimit \<noteq> []"
  shows "(strListToStr_by (strToStrList src delimit) delimit = src
          \<or> strListToStr_by (strToStrList src delimit) delimit @ delimit = src)
      \<and> (\<forall>w \<in> set (strToStrList src delimit). \<not> sublist delimit w)"
proof -
  let ?ws = "strToStrList src delimit"
  have ws: "concat (map (\<lambda>w. w @ delimit) ?ws) = src \<or> concat (map (\<lambda>w. w @ delimit) ?ws) = src @ delimit"
      "\<forall>w \<in> set ?ws. \<not> sublist delimit w"
    using strToStrList_loop_pieces [OF assms(2), of "[]" src] assms by (auto simp: strToStrList_def)
  then have ne: "?ws \<noteq> []" using assms by auto
  then have "concat (map (\<lambda>w. w @ delimit) ?ws) = strListToStr_by ?ws delimit @ delimit"
    using chop_append [of "concat (map (\<lambda>s. s @ delimit) (butlast ?ws)) @ last ?ws" delimit]
    by (simp add: strListToStr_by_def concat_sep_snoc [OF ne, of "\<lambda>s. s"])
  then show ?thesis using ws by auto
qed

theorem strToStrList_pieces_witness:
  "strListToStr_by (strToStrList ''a, b, '' '', '') '', '' = ''a, b, ''
          \<or> strListToStr_by (strToStrList ''a, b, '' '', '') '', '' @ '', '' = ''a, b, ''"
  using strToStrList_pieces [of "''a, b, ''" "'', ''"] by blast

section \<open>Lists of numbers\<close>

lemma c_str_id: "CHR 0x00 \<notin> set s \<Longrightarrow> c_str s = s"
  by (simp add: c_str_def takeWhile_eq_all_conv) blast

lemma isdigit_nul: "list_all isdigit s \<Longrightarrow> CHR 0x00 \<notin> set s"
  by (induction s) (auto simp: isdigit_def code_def)

lemma atoi_digits_append:
  "list_all isdigit ds \<Longrightarrow> atoi_digits v (ds @ [c]) =
     (if isdigit c then atoi_digits v ds * 10 + digit_value c else atoi_digits v ds)"
  by (induction ds arbitrary: v) auto

lemma atoi_dec_nat: "atoi_digits 0 (dec_nat n) = int n"
proof (induction n rule: dec_nat.induct)
  case (1 n)
  have d: "digit_value (char_of (48 + d)) = int d" if "d < 10" for d :: nat
    using that by (simp add: digit_value_def code_char_of)
  show ?case
  proof (cases "n < 10")
    case True
    then show ?thesis by (simp add: dec_nat.simps [of n] isdigit_char_of d)
  next
    case False
    have "int (n div 10) * 10 + int (n mod 10) = int n"
      using div_mult_mod_eq [of "int n" 10] by (simp only: zdiv_int zmod_int of_nat_numeral)
    then show ?thesis
      using 1 [OF False] False by (simp add: dec_nat.simps [of n] atoi_digits_append dec_nat_digits isdigit_char_of d)
  qed
qed

text \<open>The characters of a printed number.\<close>

definition numchar :: "char \<Rightarrow> bool" where
  "numchar c \<longleftrightarrow> isdigit c \<or> c = CHR ''-''"

lemma numchar_not: "numchar c \<Longrightarrow> c \<noteq> CHR 0x00 \<and> \<not> isspace c"
  by (auto simp: numchar_def isdigit_def isspace_def code_def)

lemma dec_int_chars: "list_all numchar (dec_int i)"
  using dec_nat_digits by (auto simp: dec_int_def numchar_def list_all_iff)

lemma dec_int_ne: "dec_int i \<noteq> []"
  using dec_nat_Cons [of "nat i"] by (auto simp: dec_int_def)

lemma ato_dec_int:
  assumes "- (2 ^ (w - 1)) \<le> i" "i < 2 ^ (w - 1)"
  shows "ato_signed w (dec_int i) = Some i"
proof -
  obtain c s where cs: "dec_int i = c # s" using dec_int_ne [of i] by (cases "dec_int i") auto
  then have "numchar c" using dec_int_chars [of i] by simp
  then have "dropWhile isspace (dec_int i) = c # s" using cs numchar_not by simp
  moreover have "if i < 0 then c = CHR ''-'' \<and> atoi_digits 0 s = - i
      else c \<noteq> CHR ''-'' \<and> c \<noteq> CHR ''+'' \<and> atoi_digits 0 (c # s) = i"
  proof (cases "i < 0")
    case True
    then show ?thesis using cs atoi_dec_nat [of "nat (- i)"] by (auto simp: dec_int_def)
  next
    case False
    then have "dec_nat (nat i) = c # s" using cs by (simp add: dec_int_def)
    moreover from this have "isdigit c" using dec_nat_digits [of "nat i"] by simp
    then have "c \<noteq> CHR ''-'' \<and> c \<noteq> CHR ''+''" by (auto simp: isdigit_def code_def)
    ultimately show ?thesis using False atoi_dec_nat [of "nat i"] by simp
  qed
  ultimately show ?thesis
    using assms by (auto simp: ato_signed_def Let_def split: if_splits)
qed

lemma dec_int_short: "- (2 ^ 31) \<le> i \<Longrightarrow> i < 2 ^ 31 \<Longrightarrow> length (dec_int i) \<le> 20 * 1024 - 1"
  using dec_nat_length [of "nat i" 9] dec_nat_length [of "nat (- i)" 9]
  by (auto simp: dec_int_def nat_less_iff)

lemma intToStr_eq: "- (2 ^ 31) \<le> i \<Longrightarrow> i < 2 ^ 31 \<Longrightarrow> intToStr i = dec_int i"
  using dec_int_short [of i] dec_int_chars [of i] numchar_not
  by (auto simp: intToStr_def formatString_def list_all_iff intro!: c_str_id)

lemma intListToStr_words:
  "\<forall>i \<in> set l. - (2 ^ 31) \<le> i \<and> i < 2 ^ 31 \<Longrightarrow> intListToStr l delim = strListToStr (map dec_int l) delim"
proof -
  assume "\<forall>i \<in> set l. - (2 ^ 31) \<le> i \<and> i < 2 ^ 31"
  then have "map (\<lambda>i. intToStr i @ [delim]) l = map (\<lambda>i. dec_int i @ [delim]) l"
    by (simp add: intToStr_eq)
  then show ?thesis by (simp only: intListToStr_def strListToStr_def map_map comp_def)
qed

lemma dropWhile_id: "\<not> P (hd s) \<Longrightarrow> dropWhile P s = s"
  by (cases s) auto

text \<open>Reading what \<open>strListToStr\<close> made of printed numbers: nothing is trimmed and no zero is met.\<close>

lemma join_numbers:
  assumes "\<not> numchar delim" "\<not> isspace delim" "delim \<noteq> CHR 0x00"
  shows "c_str (strListToStr (map dec_int l) delim) = strListToStr (map dec_int l) delim"
    and "trimSpaces (strListToStr (map dec_int l) delim) = strListToStr (map dec_int l) delim"
proof -
  let ?s = "strListToStr (map dec_int l) delim"
  have chars: "c \<noteq> CHR 0x00 \<and> \<not> isspace c" if "c \<in> set ?s" for c
  proof -
    have "set ?s \<subseteq> {delim} \<union> (\<Union>i \<in> set l. set (dec_int i))"
      by (auto simp: strListToStr_def chop_def dest!: in_set_takeD)
    then have "c = delim \<or> numchar c"
      using that dec_int_chars by (auto simp: list_all_iff)
    then show ?thesis using assms numchar_not by auto
  qed
  then show "c_str ?s = ?s" by (intro c_str_id) blast
  have "dropWhile isspace t = t" if "set t \<subseteq> set ?s" for t
    using that chars by (cases t) auto
  then show "trimSpaces ?s = ?s" by (simp add: trim_both)
qed

text \<open>Printing a list of \<open>int\<close>s with \<open>intListToStr\<close> and reading it with \<open>strToIntList\<close> gives the
  list back, for every separator that is neither part of a number nor white space.\<close>

theorem int_list_roundtrip:
  assumes "\<forall>i \<in> set l. - (2 ^ 31) \<le> i \<and> i < 2 ^ 31"
    and "\<not> numchar delim" "\<not> isspace delim" "delim \<noteq> CHR 0x00"
  shows "strToIntList (intListToStr l delim) delim = map Some l"
proof -
  have "splitString (strListToStr (map dec_int l) delim) delim = map dec_int l"
  proof (rule split_join)
    show "\<forall>w \<in> set (map dec_int l). w \<noteq> [] \<and> delim \<notin> set w"
      using dec_int_ne dec_int_chars assms(2) by (auto simp: list_all_iff)
  qed
  moreover have "strToInt (dec_int i) = Some i" if "i \<in> set l" for i
  proof -
    have "c_str (dec_int i) = dec_int i"
      using dec_int_chars [of i] numchar_not by (intro c_str_id) (auto simp: list_all_iff)
    then show ?thesis using that assms(1) ato_dec_int [of 32 i] by (simp add: strToInt_def)
  qed
  ultimately show ?thesis
    using join_numbers [OF assms(2-4), of l] assms(1)
    by (simp add: strToIntList_def intListToStr_words Let_def)
qed

theorem int_list_roundtrip_witness:
  "strToIntList (intListToStr [12, -7] CHR '','') CHR '','' = [Some 12, Some (-7)]"
  using int_list_roundtrip [of "[12, -7]" "CHR '',''"]
  by (simp add: numchar_def isdigit_def isspace_def code_def)

section \<open>Singletons\<close>

text \<open>\<open>Singleton::instance\<close>: the static \<open>pins\<close> is initialised by the first call, with its argument; before
  it is \<open>None\<close>. A pointer is \<open>None\<close> when it is null.\<close>

datatype singleton_error = not_created | created_twice

definition Singleton_instance :: "'p option option \<Rightarrow> 'p option \<Rightarrow> 'p option option \<times> (singleton_error + 'p)" where
  "Singleton_instance static ins =
     (let pins = (case static of None \<Rightarrow> ins | Some p \<Rightarrow> p) in
      (Some pins,
       case pins of
         None \<Rightarrow> Inl not_created
       | Some p \<Rightarrow> if ins \<noteq> None \<and> ins \<noteq> pins then Inl created_twice else Inr p))"

text \<open>A sequence of calls with their results.\<close>

fun singleton_run :: "'p option option \<Rightarrow> 'p option list \<Rightarrow> (singleton_error + 'p) list" where
  "singleton_run static [] = []"
| "singleton_run static (i # is) =
     (let (static, r) = Singleton_instance static i in r # singleton_run static is)"

lemma singleton_run_null: "r \<in> set (singleton_run (Some None) is) \<Longrightarrow> r = Inl not_created"
  by (induction "is") (auto simp: Singleton_instance_def Let_def)

lemma singleton_run_some: "Inr q \<in> set (singleton_run (Some (Some p)) is) \<Longrightarrow> q = p"
  by (induction "is") (auto simp: Singleton_instance_def Let_def split: if_splits)

text \<open>Whatever the calls, all that succeed return the same object, the one whose constructor ran
  first; and when the first call comes before any construction, every later call fails, the
  constructor's included.\<close>

theorem singleton_unique:
  "(Inr p \<in> set (singleton_run None is) \<and> Inr q \<in> set (singleton_run None is) \<longrightarrow> p = q)
   \<and> (r \<in> set (singleton_run None (None # is)) \<longrightarrow> r = Inl not_created)"
proof (cases "is")
  case (Cons i tail)
  then show ?thesis
    by (cases i) (auto simp: Singleton_instance_def Let_def split: if_splits
        dest: singleton_run_null singleton_run_some)
qed (auto simp: Singleton_instance_def Let_def dest: singleton_run_null)

theorem singleton_unique_witness:
  "singleton_run None [Some (1::nat), None, Some 2] = [Inr 1, Inr 1, Inl created_twice]
   \<and> (1::nat) = 1"
  using singleton_unique [of "1::nat" "[Some 1, None, Some 2]" 1 "Inl not_created"]
  by (simp add: Singleton_instance_def Let_def)

end
