(* ===== verification/Arc4.thy ===== *)
theory Arc4
  imports Blm_Prelude
begin

unbundle bit_operations_syntax

text \<open>
  The ARC4 stream cipher of \<open>third-party/polarssl/library/arc4.c\<close>: the key schedule
  \<open>arc4_setup\<close> and the cipher \<open>arc4_crypt\<close>. The SDK masks every message
  header with it. The S-box stays a permutation of the 256 byte values; the cipher is its own
  inverse from the same context and processes a stream in pieces as it does in one go.
\<close>

section \<open>The context and its operations\<close>

record arc4_context =
  arc4_x :: nat
  arc4_y :: nat
  arc4_m :: bytes

text \<open>One iteration of the mixing loop of \<open>arc4_setup\<close>: \<open>i\<close> is the loop index, the state
  holds \<open>m\<close>, \<open>j\<close> and \<open>k\<close> at the loop head.\<close>

definition arc4_setup_step :: "bytes \<Rightarrow> nat \<Rightarrow> bytes \<times> nat \<times> nat \<Rightarrow> bytes \<times> nat \<times> nat" where
  "arc4_setup_step key i = (\<lambda>(m, j, k).
     let k = (if k \<ge> length key then 0 else k);
         a = m ! i;
         j = (j + unat a + unat (key ! k)) AND 0xFF;
         m = m[i := m ! j];
         m = m[j := a]
     in (m, j, k + 1))"

definition arc4_setup :: "bytes \<Rightarrow> arc4_context" where
  "arc4_setup key =
     (let m = map of_nat [0..<256];
          (m, j, k) = fold (arc4_setup_step key) [0..<256] (m, 0, 0)
      in \<lparr>arc4_x = 0, arc4_y = 0, arc4_m = m\<rparr>)"

text \<open>The loop of \<open>arc4_crypt\<close>; the result is the context as written back and the output.\<close>

fun arc4_crypt_loop :: "nat \<Rightarrow> nat \<Rightarrow> bytes \<Rightarrow> bytes \<Rightarrow> (nat \<times> nat \<times> bytes) \<times> bytes" where
  "arc4_crypt_loop x y m [] = ((x, y, m), [])"
| "arc4_crypt_loop x y m (inp # input) =
     (let x = (x + 1) AND 0xFF; a = m ! x;
          y = (y + unat a) AND 0xFF; b = m ! y;
          m = m[x := b];
          m = m[y := a];
          out = inp XOR m ! unat (a + b);
          (s, output) = arc4_crypt_loop x y m input
      in (s, out # output))"

definition arc4_crypt :: "arc4_context \<Rightarrow> bytes \<Rightarrow> arc4_context \<times> bytes" where
  "arc4_crypt ctx input =
     (let ((x', y', m'), output) = arc4_crypt_loop (arc4_x ctx) (arc4_y ctx) (arc4_m ctx) input
      in (ctx\<lparr>arc4_x := x', arc4_y := y', arc4_m := m'\<rparr>, output))"

section \<open>The S-box is a permutation\<close>

definition arc4_perm :: "bytes \<Rightarrow> bool" where
  "arc4_perm m \<longleftrightarrow> length m = 256 \<and> distinct m"

definition arc4_inv :: "arc4_context \<Rightarrow> bool" where
  "arc4_inv ctx \<longleftrightarrow> arc4_x ctx < 256 \<and> arc4_y ctx < 256 \<and> arc4_perm (arc4_m ctx)"

lemma arc4_perm_identity [inv_intros]: "arc4_perm (map of_nat [0..<256])"
  by (auto simp: arc4_perm_def distinct_map inj_on_def unat_of_nat_byte
      dest!: arg_cong [where f = unat])

lemma arc4_perm_swap [inv_intros]:
  assumes "arc4_perm m" "i < 256" "j < 256"
  shows "arc4_perm (m[i := m ! j, j := m ! i])"
  using assms by (simp add: arc4_perm_def distinct_swap)

lemma arc4_setup_step_perm [inv_intros]:
  assumes "arc4_perm m" "i < 256"
  shows "arc4_perm (fst (arc4_setup_step key i (m, j, k)))"
  using assms
  by (auto simp: arc4_setup_step_def Let_def and_255_nat intro: arc4_perm_swap)

lemma arc4_setup_fold_perm:
  "arc4_perm (fst (fold (arc4_setup_step key) [0..<256] (map of_nat [0..<256], 0, 0)))"
  by (rule fold_invariant [where P = "\<lambda>s. arc4_perm (fst s)"])
     (auto intro: arc4_perm_identity arc4_setup_step_perm)

lemma arc4_setup_inv: "arc4_inv (arc4_setup key)"
  using arc4_setup_fold_perm [of key]
  by (auto simp: arc4_inv_def arc4_setup_def Let_def split: prod.split)

lemma arc4_crypt_loop_inv:
  assumes "arc4_perm m" "x < 256" "y < 256"
    and "arc4_crypt_loop x y m input = ((x', y', m'), out)"
  shows "arc4_perm m' \<and> x' < 256 \<and> y' < 256 \<and> length out = length input"
  using assms
proof (induction x y m input arbitrary: out rule: arc4_crypt_loop.induct)
  case (1 x y m)
  then show ?case by simp
next
  case (2 x y m inp input)
  let ?x = "(x + 1) AND 0xFF"
  let ?y = "(y + unat (m ! ?x)) AND 0xFF"
  let ?m = "m[?x := m ! ?y, ?y := m ! ?x]"
  have "arc4_perm ?m" "?x < 256" "?y < 256"
    using "2.prems"(1) by (auto simp: and_255_nat intro: arc4_perm_swap)
  moreover obtain out' where "arc4_crypt_loop ?x ?y ?m input = ((x', y', m'), out')"
      "length out = Suc (length out')"
    using "2.prems"(4) by (auto simp: Let_def split: prod.splits)
  ultimately show ?case
    using "2.IH" [OF refl refl refl refl refl refl refl] by simp
qed

section \<open>Keystream\<close>

text \<open>The keystream does not depend on the data: it is what the cipher puts out on zeros.\<close>

definition arc4_keystream :: "nat \<Rightarrow> nat \<Rightarrow> bytes \<Rightarrow> nat \<Rightarrow> (nat \<times> nat \<times> bytes) \<times> bytes" where
  "arc4_keystream x y m n = arc4_crypt_loop x y m (replicate n 0)"

lemma arc4_crypt_loop_keystream:
  "arc4_crypt_loop x y m input =
     (fst (arc4_keystream x y m (length input)),
      map2 (XOR) input (snd (arc4_keystream x y m (length input))))"
  unfolding arc4_keystream_def
  by (induction x y m input rule: arc4_crypt_loop.induct)
     (simp_all add: Let_def case_prod_unfold)

lemma length_arc4_keystream [simp, length_simps]:
  "length (snd (arc4_keystream x y m n)) = n"
  unfolding arc4_keystream_def
proof (induction n arbitrary: x y m)
  case (Suc n)
  then show ?case by (simp add: Let_def case_prod_unfold)
qed simp

lemma arc4_crypt_loop_append:
  "arc4_crypt_loop x y m (as @ bs) =
     (let ((x1, y1, m1), o1) = arc4_crypt_loop x y m as;
          (s, o2) = arc4_crypt_loop x1 y1 m1 bs
      in (s, o1 @ o2))"
  by (induction x y m as rule: arc4_crypt_loop.induct)
     (simp_all add: Let_def case_prod_unfold)

section \<open>Properties\<close>

lemma length_arc4_crypt [simp, length_simps]: "length (snd (arc4_crypt ctx input)) = length input"
  by (simp add: arc4_crypt_def Let_def case_prod_unfold arc4_crypt_loop_keystream)

text \<open>The key schedule leaves the S-box a permutation of the 256 byte values, for every
  key, with both indices at zero and in range.\<close>

theorem arc4_setup_permutation:
  "arc4_inv (arc4_setup key) \<and> set (arc4_m (arc4_setup key)) = UNIV"
proof -
  have inv: "arc4_inv (arc4_setup key)" by (rule arc4_setup_inv)
  then have "card (set (arc4_m (arc4_setup key))) = card (UNIV :: byte set)"
    by (simp add: arc4_inv_def arc4_perm_def distinct_card card_word)
  then have "set (arc4_m (arc4_setup key)) = UNIV"
    by (intro card_subset_eq) auto
  with inv show ?thesis ..
qed

text \<open>Encrypting a buffer and running the cipher again from the same context gives the
  buffer back, for every context, and the length never changes.\<close>

theorem arc4_crypt_involution:
  "snd (arc4_crypt ctx (snd (arc4_crypt ctx input))) = input
   \<and> length (snd (arc4_crypt ctx input)) = length input"
proof -
  let ?ks = "snd (arc4_keystream (arc4_x ctx) (arc4_y ctx) (arc4_m ctx) (length input))"
  have "snd (arc4_crypt ctx inp) = map2 (XOR) inp ?ks" if "length inp = length input" for inp
    using that by (simp add: arc4_crypt_def Let_def split_beta arc4_crypt_loop_keystream)
  then show ?thesis by simp
qed

text \<open>A stream may be cut anywhere: encrypting the first part and then the second with the
  context the first call left behind is encrypting the whole.\<close>

theorem arc4_crypt_append:
  "arc4_crypt ctx (as @ bs) =
     (let (ctx1, out1) = arc4_crypt ctx as; (ctx2, out2) = arc4_crypt ctx1 bs
      in (ctx2, out1 @ out2))"
  by (simp add: arc4_crypt_def arc4_crypt_loop_append Let_def case_prod_unfold)

end
