(* ===== verification/Aes.thy ===== *)
theory Aes
  imports Aes_Tables
begin

unbundle bit_operations_syntax

text \<open>
  The AES block cipher of \<open>third-party/polarssl/library/aes.c\<close>: both key schedules, the
  table-driven rounds, single-block encryption and decryption, and the CBC, CFB128 and CTR
  modes. A context holds the number of rounds and the part of its buffer the key schedule has
  written, in order; \<open>*RK++\<close> reads the front of the remaining round keys. The main results are
  that decryption inverts encryption, block by block and in every mode, for all three key sizes.
  VIA PadLock acceleration (32-bit x86 only) is not modelled.
\<close>

section \<open>Contexts and constants\<close>

record aes_context =
  nr :: nat
  rk :: "u32 list"

datatype aes_mode = AES_DECRYPT | AES_ENCRYPT

datatype aes_error = POLARSSL_ERR_AES_INVALID_KEY_LENGTH | POLARSSL_ERR_AES_INVALID_INPUT_LENGTH

text \<open>The table index \<open>(w >> s) & 0xFF\<close>.\<close>

definition aes_idx :: "nat \<Rightarrow> u32 \<Rightarrow> nat" where
  "aes_idx s w = unat (drop_bit s w AND 0xFF)"

lemma aes_idx_byte_at: "aes_idx s w = unat (byte_at s w)"
  by (simp add: aes_idx_def unat_byte_at)

section \<open>Key schedules\<close>

text \<open>The four S-box lookups of the key schedule, on the rotated and on the plain word.\<close>

definition aes_sub_rot :: "u32 \<Rightarrow> u32" where
  "aes_sub_rot w =
     ucast (FSb ! aes_idx 8 w) XOR
     push_bit 8 (ucast (FSb ! aes_idx 16 w)) XOR
     push_bit 16 (ucast (FSb ! aes_idx 24 w)) XOR
     push_bit 24 (ucast (FSb ! aes_idx 0 w))"

definition aes_sub :: "u32 \<Rightarrow> u32" where
  "aes_sub w =
     ucast (FSb ! aes_idx 0 w) XOR
     push_bit 8 (ucast (FSb ! aes_idx 8 w)) XOR
     push_bit 16 (ucast (FSb ! aes_idx 16 w)) XOR
     push_bit 24 (ucast (FSb ! aes_idx 24 w))"

text \<open>One iteration of each expansion loop: \<open>RK\<close> is the window the loop's pointer is at, the
  result is what the iteration writes behind it.\<close>

definition aes_expand_10 :: "u32 list \<Rightarrow> nat \<Rightarrow> u32 list" where
  "aes_expand_10 RK i =
     (let RK4 = RK ! 0 XOR RCON ! i XOR aes_sub_rot (RK ! 3);
          RK5 = RK ! 1 XOR RK4;
          RK6 = RK ! 2 XOR RK5;
          RK7 = RK ! 3 XOR RK6
      in [RK4, RK5, RK6, RK7])"

definition aes_expand_12 :: "u32 list \<Rightarrow> nat \<Rightarrow> u32 list" where
  "aes_expand_12 RK i =
     (let RK6 = RK ! 0 XOR RCON ! i XOR aes_sub_rot (RK ! 5);
          RK7 = RK ! 1 XOR RK6;
          RK8 = RK ! 2 XOR RK7;
          RK9 = RK ! 3 XOR RK8;
          RK10 = RK ! 4 XOR RK9;
          RK11 = RK ! 5 XOR RK10
      in [RK6, RK7, RK8, RK9, RK10, RK11])"

definition aes_expand_14 :: "u32 list \<Rightarrow> nat \<Rightarrow> u32 list" where
  "aes_expand_14 RK i =
     (let RK8 = RK ! 0 XOR RCON ! i XOR aes_sub_rot (RK ! 7);
          RK9 = RK ! 1 XOR RK8;
          RK10 = RK ! 2 XOR RK9;
          RK11 = RK ! 3 XOR RK10;
          RK12 = RK ! 4 XOR aes_sub RK11;
          RK13 = RK ! 5 XOR RK12;
          RK14 = RK ! 6 XOR RK13;
          RK15 = RK ! 7 XOR RK14
      in [RK8, RK9, RK10, RK11, RK12, RK13, RK14, RK15])"

definition aes_setkey_enc :: "bytes \<Rightarrow> nat \<Rightarrow> aes_error + aes_context" where
  "aes_setkey_enc key keysize =
     (let RK = map (\<lambda>i. GET_UINT32_LE key (4 * i)) [0..<keysize div 32] in
      if keysize = 128 then
        Inr \<lparr>nr = 10, rk = fold (\<lambda>i buf. buf @ aes_expand_10 (drop (4 * i) buf) i) [0..<10] RK\<rparr>
      else if keysize = 192 then
        Inr \<lparr>nr = 12, rk = fold (\<lambda>i buf. buf @ aes_expand_12 (drop (6 * i) buf) i) [0..<8] RK\<rparr>
      else if keysize = 256 then
        Inr \<lparr>nr = 14, rk = fold (\<lambda>i buf. buf @ aes_expand_14 (drop (8 * i) buf) i) [0..<7] RK\<rparr>
      else Inl POLARSSL_ERR_AES_INVALID_KEY_LENGTH)"

text \<open>The word the decryption schedule writes for \<open>*SK\<close>.\<close>

definition aes_dec_word :: "u32 \<Rightarrow> u32" where
  "aes_dec_word SK =
     RT0 ! unat (FSb ! aes_idx 0 SK) XOR
     RT1 ! unat (FSb ! aes_idx 8 SK) XOR
     RT2 ! unat (FSb ! aes_idx 16 SK) XOR
     RT3 ! unat (FSb ! aes_idx 24 SK)"

text \<open>The loop that walks the encryption round keys backwards: \<open>SK\<close> stands at word \<open>4 * i\<close>
  when the loop counter is \<open>i\<close>.\<close>

fun aes_dec_keys :: "u32 list \<Rightarrow> nat \<Rightarrow> u32 list" where
  "aes_dec_keys sk 0 = []"
| "aes_dec_keys sk (Suc i) =
     map (\<lambda>j. aes_dec_word (sk ! (4 * Suc i + j))) [0..<4] @ aes_dec_keys sk i"

definition aes_setkey_dec :: "bytes \<Rightarrow> nat \<Rightarrow> aes_error + aes_context" where
  "aes_setkey_dec key keysize =
     (case aes_setkey_enc key keysize of
        Inl ret \<Rightarrow> Inl ret
      | Inr cty \<Rightarrow>
          Inr \<lparr>nr = nr cty,
               rk = map (\<lambda>j. rk cty ! (4 * nr cty + j)) [0..<4]
                    @ aes_dec_keys (rk cty) (nr cty - 1)
                    @ map (\<lambda>j. rk cty ! j) [0..<4]\<rparr>)"

section \<open>Rounds\<close>

type_synonym aes_state = "u32 \<times> u32 \<times> u32 \<times> u32"

definition AES_FROUND :: "u32 list \<Rightarrow> aes_state \<Rightarrow> aes_state" where
  "AES_FROUND RK = (\<lambda>(Y0, Y1, Y2, Y3).
     (RK ! 0 XOR FT0 ! aes_idx 0 Y0 XOR FT1 ! aes_idx 8 Y1 XOR
        FT2 ! aes_idx 16 Y2 XOR FT3 ! aes_idx 24 Y3,
      RK ! 1 XOR FT0 ! aes_idx 0 Y1 XOR FT1 ! aes_idx 8 Y2 XOR
        FT2 ! aes_idx 16 Y3 XOR FT3 ! aes_idx 24 Y0,
      RK ! 2 XOR FT0 ! aes_idx 0 Y2 XOR FT1 ! aes_idx 8 Y3 XOR
        FT2 ! aes_idx 16 Y0 XOR FT3 ! aes_idx 24 Y1,
      RK ! 3 XOR FT0 ! aes_idx 0 Y3 XOR FT1 ! aes_idx 8 Y0 XOR
        FT2 ! aes_idx 16 Y1 XOR FT3 ! aes_idx 24 Y2))"

definition AES_RROUND :: "u32 list \<Rightarrow> aes_state \<Rightarrow> aes_state" where
  "AES_RROUND RK = (\<lambda>(Y0, Y1, Y2, Y3).
     (RK ! 0 XOR RT0 ! aes_idx 0 Y0 XOR RT1 ! aes_idx 8 Y3 XOR
        RT2 ! aes_idx 16 Y2 XOR RT3 ! aes_idx 24 Y1,
      RK ! 1 XOR RT0 ! aes_idx 0 Y1 XOR RT1 ! aes_idx 8 Y0 XOR
        RT2 ! aes_idx 16 Y3 XOR RT3 ! aes_idx 24 Y2,
      RK ! 2 XOR RT0 ! aes_idx 0 Y2 XOR RT1 ! aes_idx 8 Y1 XOR
        RT2 ! aes_idx 16 Y0 XOR RT3 ! aes_idx 24 Y3,
      RK ! 3 XOR RT0 ! aes_idx 0 Y3 XOR RT1 ! aes_idx 8 Y2 XOR
        RT2 ! aes_idx 16 Y1 XOR RT3 ! aes_idx 24 Y0))"

text \<open>The last round looks bytes up in an S-box instead of a round table.\<close>

definition aes_last_word :: "byte list \<Rightarrow> u32 \<Rightarrow> u32 \<Rightarrow> u32 \<Rightarrow> u32 \<Rightarrow> u32 \<Rightarrow> u32" where
  "aes_last_word Sb k Y0 Y1 Y2 Y3 =
     k XOR ucast (Sb ! aes_idx 0 Y0) XOR
     push_bit 8 (ucast (Sb ! aes_idx 8 Y1)) XOR
     push_bit 16 (ucast (Sb ! aes_idx 16 Y2)) XOR
     push_bit 24 (ucast (Sb ! aes_idx 24 Y3))"

definition aes_flast :: "u32 list \<Rightarrow> aes_state \<Rightarrow> aes_state" where
  "aes_flast RK = (\<lambda>(Y0, Y1, Y2, Y3).
     (aes_last_word FSb (RK ! 0) Y0 Y1 Y2 Y3,
      aes_last_word FSb (RK ! 1) Y1 Y2 Y3 Y0,
      aes_last_word FSb (RK ! 2) Y2 Y3 Y0 Y1,
      aes_last_word FSb (RK ! 3) Y3 Y0 Y1 Y2))"

definition aes_rlast :: "u32 list \<Rightarrow> aes_state \<Rightarrow> aes_state" where
  "aes_rlast RK = (\<lambda>(Y0, Y1, Y2, Y3).
     (aes_last_word RSb (RK ! 0) Y0 Y3 Y2 Y1,
      aes_last_word RSb (RK ! 1) Y1 Y0 Y3 Y2,
      aes_last_word RSb (RK ! 2) Y2 Y1 Y0 Y3,
      aes_last_word RSb (RK ! 3) Y3 Y2 Y1 Y0))"

text \<open>The main loop runs two rounds per iteration and leaves \<open>RK\<close> behind the keys it used.\<close>

fun aes_loop :: "(u32 list \<Rightarrow> aes_state \<Rightarrow> aes_state) \<Rightarrow> nat \<Rightarrow> u32 list \<Rightarrow> aes_state
    \<Rightarrow> u32 list \<times> aes_state" where
  "aes_loop round 0 RK X = (RK, X)"
| "aes_loop round (Suc i) RK X =
     (let Y = round RK X; RK = drop 4 RK;
          X = round RK Y; RK = drop 4 RK
      in aes_loop round i RK X)"

definition aes_crypt_ecb :: "aes_context \<Rightarrow> aes_mode \<Rightarrow> bytes \<Rightarrow> bytes" where
  "aes_crypt_ecb ctx mode input =
     (let RK = rk ctx;
          X = (GET_UINT32_LE input 0 XOR RK ! 0, GET_UINT32_LE input 4 XOR RK ! 1,
               GET_UINT32_LE input 8 XOR RK ! 2, GET_UINT32_LE input 12 XOR RK ! 3);
          RK = drop 4 RK;
          (X0, X1, X2, X3) =
            (case mode of
               AES_DECRYPT \<Rightarrow>
                 (let (RK, X) = aes_loop AES_RROUND (nr ctx div 2 - 1) RK X;
                      Y = AES_RROUND RK X; RK = drop 4 RK
                  in aes_rlast RK Y)
             | AES_ENCRYPT \<Rightarrow>
                 (let (RK, X) = aes_loop AES_FROUND (nr ctx div 2 - 1) RK X;
                      Y = AES_FROUND RK X; RK = drop 4 RK
                  in aes_flast RK Y))
      in PUT_UINT32_LE X0 @ PUT_UINT32_LE X1 @ PUT_UINT32_LE X2 @ PUT_UINT32_LE X3)"

section \<open>Modes of operation\<close>

text \<open>The two loops of \<open>aes_crypt_cbc\<close>, which take a block per iteration; the results are the
  final \<open>iv\<close> and the output.\<close>

function aes_cbc_dec_loop :: "aes_context \<Rightarrow> bytes \<Rightarrow> bytes \<Rightarrow> bytes \<times> bytes" where
  "aes_cbc_dec_loop ctx iv input =
     (if input = [] then (iv, [])
      else let temp = take 16 input;
               out = map2 (XOR) (aes_crypt_ecb ctx AES_DECRYPT temp) iv;
               (iv', outs) = aes_cbc_dec_loop ctx temp (drop 16 input)
           in (iv', out @ outs))"
  by pat_completeness auto
termination by (relation "measure (\<lambda>(ctx, iv, input). length input)") auto

function aes_cbc_enc_loop :: "aes_context \<Rightarrow> bytes \<Rightarrow> bytes \<Rightarrow> bytes \<times> bytes" where
  "aes_cbc_enc_loop ctx iv input =
     (if input = [] then (iv, [])
      else let out = aes_crypt_ecb ctx AES_ENCRYPT (map2 (XOR) (take 16 input) iv);
               (iv', outs) = aes_cbc_enc_loop ctx out (drop 16 input)
           in (iv', out @ outs))"
  by pat_completeness auto
termination by (relation "measure (\<lambda>(ctx, iv, input). length input)") auto

declare aes_cbc_dec_loop.simps [simp del] aes_cbc_enc_loop.simps [simp del]

definition aes_crypt_cbc :: "aes_context \<Rightarrow> aes_mode \<Rightarrow> bytes \<Rightarrow> bytes \<Rightarrow> aes_error + bytes \<times> bytes" where
  "aes_crypt_cbc ctx mode iv input =
     (if length input mod 16 \<noteq> 0 then Inl POLARSSL_ERR_AES_INVALID_INPUT_LENGTH
      else Inr (case mode of
                  AES_DECRYPT \<Rightarrow> aes_cbc_dec_loop ctx iv input
                | AES_ENCRYPT \<Rightarrow> aes_cbc_enc_loop ctx iv input))"

text \<open>\<open>aes_crypt_cfb128\<close>: the state is the offset \<open>n\<close> into the \<open>iv\<close> and the \<open>iv\<close> itself.\<close>

fun aes_crypt_cfb128 :: "aes_context \<Rightarrow> aes_mode \<Rightarrow> nat \<Rightarrow> bytes \<Rightarrow> bytes \<Rightarrow> (nat \<times> bytes) \<times> bytes" where
  "aes_crypt_cfb128 ctx mode n iv [] = ((n, iv), [])"
| "aes_crypt_cfb128 ctx mode n iv (c # input) =
     (let iv = (if n = 0 then aes_crypt_ecb ctx AES_ENCRYPT iv else iv);
          out = c XOR iv ! n;
          iv = iv[n := (case mode of AES_DECRYPT \<Rightarrow> c | AES_ENCRYPT \<Rightarrow> out)];
          n = (n + 1) AND 0x0F;
          (s, outs) = aes_crypt_cfb128 ctx mode n iv input
      in (s, out # outs))"

text \<open>The counter of CTR mode: \<open>++nonce_counter[i - 1]\<close> from the last byte on, stopping at the
  first that does not wrap to 0.\<close>

fun aes_ctr_inc :: "nat \<Rightarrow> bytes \<Rightarrow> bytes" where
  "aes_ctr_inc 0 nonce_counter = nonce_counter"
| "aes_ctr_inc (Suc i) nonce_counter =
     (let nonce_counter = nonce_counter[i := nonce_counter ! i + 1]
      in if nonce_counter ! i \<noteq> 0 then nonce_counter else aes_ctr_inc i nonce_counter)"

fun aes_crypt_ctr :: "aes_context \<Rightarrow> nat \<Rightarrow> bytes \<Rightarrow> bytes \<Rightarrow> bytes \<Rightarrow> (nat \<times> bytes \<times> bytes) \<times> bytes" where
  "aes_crypt_ctr ctx n nonce_counter stream_block [] = ((n, nonce_counter, stream_block), [])"
| "aes_crypt_ctr ctx n nonce_counter stream_block (c # input) =
     (let (stream_block, nonce_counter) =
            (if n = 0 then (aes_crypt_ecb ctx AES_ENCRYPT nonce_counter, aes_ctr_inc 16 nonce_counter)
             else (stream_block, nonce_counter));
          out = c XOR stream_block ! n;
          (s, outs) = aes_crypt_ctr ctx ((n + 1) AND 0x0F) nonce_counter stream_block input
      in (s, out # outs))"

section \<open>One round undone\<close>

abbreviation sub_at :: "nat \<Rightarrow> u32 \<Rightarrow> byte" where
  "sub_at s w \<equiv> FSb ! unat (byte_at s w)"

text \<open>Byte substitution and row shift, the part of a round before the column transform.\<close>

definition sub_shift :: "aes_state \<Rightarrow> aes_state" where
  "sub_shift = (\<lambda>(Y0, Y1, Y2, Y3).
     (word4 (sub_at 0 Y0) (sub_at 8 Y1) (sub_at 16 Y2) (sub_at 24 Y3),
      word4 (sub_at 0 Y1) (sub_at 8 Y2) (sub_at 16 Y3) (sub_at 24 Y0),
      word4 (sub_at 0 Y2) (sub_at 8 Y3) (sub_at 16 Y0) (sub_at 24 Y1),
      word4 (sub_at 0 Y3) (sub_at 8 Y0) (sub_at 16 Y1) (sub_at 24 Y2)))"

definition add_key :: "u32 list \<Rightarrow> aes_state \<Rightarrow> aes_state" where
  "add_key RK = (\<lambda>(X0, X1, X2, X3). (RK ! 0 XOR X0, RK ! 1 XOR X1, RK ! 2 XOR X2, RK ! 3 XOR X3))"

definition inv_mix4 :: "aes_state \<Rightarrow> aes_state" where
  "inv_mix4 = (\<lambda>(X0, X1, X2, X3). (inv_mix X0, inv_mix X1, inv_mix X2, inv_mix X3))"

lemma aes_last_word_word4:
  "aes_last_word Sb k Y0 Y1 Y2 Y3 =
     k XOR word4 (Sb ! unat (byte_at 0 Y0)) (Sb ! unat (byte_at 8 Y1))
       (Sb ! unat (byte_at 16 Y2)) (Sb ! unat (byte_at 24 Y3))"
  by (simp add: aes_last_word_def aes_idx_byte_at word4_def)

lemma aes_flast_eq: "aes_flast RK Y = add_key RK (sub_shift Y)"
  by (simp add: aes_flast_def add_key_def sub_shift_def aes_last_word_word4 split: prod.splits)

lemma aes_rlast_sub_shift: "aes_rlast RK (sub_shift X) = add_key RK X"
  by (simp add: aes_rlast_def add_key_def sub_shift_def aes_last_word_word4 split: prod.splits)

lemma aes_dec_word_inv_mix: "aes_dec_word w = inv_mix w"
  by (simp add: aes_dec_word_def inv_mix_def aes_idx_byte_at)

lemma AES_RROUND_sub_shift: "AES_RROUND SK (sub_shift X) = add_key SK (inv_mix4 X)"
  by (simp add: AES_RROUND_def add_key_def sub_shift_def inv_mix4_def inv_mix_def
      aes_idx_byte_at xor.assoc split: prod.splits)

lemma inv_mix4_AES_FROUND:
  "inv_mix4 (AES_FROUND RK Y) = add_key (map inv_mix (take 4 RK)) (sub_shift Y)"
  if "4 \<le> length RK"
  using that
  by (simp add: AES_FROUND_def add_key_def sub_shift_def inv_mix4_def inv_mix_xor FT_nth
      inv_mix_ft_col word4_xor aes_idx_byte_at split: prod.splits)

lemma add_key_cancel: "(\<And>j. j < 4 \<Longrightarrow> SK ! j = RK ! j) \<Longrightarrow> add_key SK (add_key RK X) = X"
  by (simp add: add_key_def split: prod.splits)

text \<open>A decryption round with the transformed key undoes an encryption round.\<close>

lemma AES_RROUND_FROUND:
  assumes "4 \<le> length RK" "\<And>j. j < 4 \<Longrightarrow> SK ! j = inv_mix (RK ! j)"
  shows "AES_RROUND SK (sub_shift (AES_FROUND RK Y)) = sub_shift Y"
  using assms
  by (simp add: AES_RROUND_sub_shift inv_mix4_AES_FROUND add_key_cancel)

section \<open>All rounds undone\<close>

primrec aes_rounds :: "(u32 list \<Rightarrow> aes_state \<Rightarrow> aes_state) \<Rightarrow> nat \<Rightarrow> u32 list \<Rightarrow> aes_state \<Rightarrow> aes_state"
  where
  "aes_rounds round 0 RK X = X"
| "aes_rounds round (Suc n) RK X = aes_rounds round n (drop 4 RK) (round RK X)"

lemma aes_loop_rounds: "aes_loop round i RK X = (drop (8 * i) RK, aes_rounds round (2 * i) RK X)"
  by (induction i arbitrary: RK X) (simp_all add: Let_def add.commute)

lemma aes_rounds_Suc_last:
  "aes_rounds round (Suc n) RK X = round (drop (4 * n) RK) (aes_rounds round n RK X)"
proof (induction n arbitrary: RK X)
  case (Suc n)
  have "aes_rounds round (Suc (Suc n)) RK X = aes_rounds round (Suc n) (drop 4 RK) (round RK X)"
    by (simp only: aes_rounds.simps)
  also have "\<dots> = round (drop (4 * n) (drop 4 RK)) (aes_rounds round n (drop 4 RK) (round RK X))"
    by (rule Suc.IH)
  finally show ?case by (simp add: add.commute)
qed simp

text \<open>\<open>SK\<close> holds the transformed keys of \<open>n\<close> rounds of \<open>RK\<close>, last round first.\<close>

definition inverse_keys :: "nat \<Rightarrow> u32 list \<Rightarrow> u32 list \<Rightarrow> bool" where
  "inverse_keys n RK SK \<longleftrightarrow> 4 * n \<le> length RK \<and> 4 * n \<le> length SK \<and>
     (\<forall>i<n. \<forall>j<4. SK ! (4 * i + j) = inv_mix (RK ! (4 * (n - 1 - i) + j)))"

lemma inverse_keys_SucD:
  assumes "inverse_keys (Suc n) RK SK"
  shows "inverse_keys n RK (drop 4 SK)" "j < 4 \<Longrightarrow> SK ! j = inv_mix (RK ! (4 * n + j))"
proof -
  have "drop 4 SK ! (4 * i + j) = inv_mix (RK ! (4 * (n - 1 - i) + j))" if "i < n" "j < 4" for i j
  proof -
    have "drop 4 SK ! (4 * i + j) = SK ! (4 * Suc i + j)"
      using assms that by (simp add: inverse_keys_def add.assoc [symmetric])
    also have "\<dots> = inv_mix (RK ! (4 * (n - Suc i) + j))"
      using assms that unfolding inverse_keys_def by (metis Suc_less_eq diff_Suc_1)
    finally show ?thesis using that by simp
  qed
  then show "inverse_keys n RK (drop 4 SK)"
    using assms by (auto simp: inverse_keys_def)
  show "j < 4 \<Longrightarrow> SK ! j = inv_mix (RK ! (4 * n + j))"
    using assms unfolding inverse_keys_def by (metis add_0 diff_Suc_1 diff_zero mult_0_right zero_less_Suc)
qed

lemma aes_rounds_inverse:
  assumes "inverse_keys n RK SK"
  shows "aes_rounds AES_RROUND n SK (sub_shift (aes_rounds AES_FROUND n RK X)) = sub_shift X"
  using assms
proof (induction n arbitrary: SK)
  case 0
  then show ?case by simp
next
  case (Suc n)
  have "AES_RROUND SK (sub_shift (aes_rounds AES_FROUND (Suc n) RK X))
      = sub_shift (aes_rounds AES_FROUND n RK X)"
    unfolding aes_rounds_Suc_last
    using Suc.prems inverse_keys_SucD(2) [OF Suc.prems]
    by (intro AES_RROUND_FROUND) (auto simp: inverse_keys_def)
  then show ?case
    using Suc.IH [OF inverse_keys_SucD(1) [OF Suc.prems]] by (simp del: aes_rounds.simps add: aes_rounds.simps(2) [of AES_RROUND])
qed

section \<open>Blocks\<close>

definition block_words :: "bytes \<Rightarrow> aes_state" where
  "block_words b = (GET_UINT32_LE b 0, GET_UINT32_LE b 4, GET_UINT32_LE b 8, GET_UINT32_LE b 12)"

definition block_bytes :: "aes_state \<Rightarrow> bytes" where
  "block_bytes = (\<lambda>(X0, X1, X2, X3).
     PUT_UINT32_LE X0 @ PUT_UINT32_LE X1 @ PUT_UINT32_LE X2 @ PUT_UINT32_LE X3)"

lemma block_words_bytes [simp]: "block_words (block_bytes X) = X"
  by (simp add: block_words_def block_bytes_def GET_UINT32_LE_word4 PUT_UINT32_LE_byte_at
      split: prod.splits)

lemma block_bytes_words:
  assumes "length b = 16"
  shows "block_bytes (block_words b) = b"
proof -
  have "b = map ((!) b) [0..<16]"
    using assms by (metis map_nth)
  also have "\<dots> = block_bytes (block_words b)"
    by (simp add: block_words_def block_bytes_def GET_UINT32_LE_word4 PUT_UINT32_LE_byte_at upt_eval)
       (simp add: numeral_2_eq_2)
  finally show ?thesis by simp
qed

lemma length_block_bytes [simp, length_simps]: "length (block_bytes X) = 16"
  by (simp add: block_bytes_def split: prod.splits)

text \<open>Single-block encryption and decryption with the loop structure folded away.\<close>

lemma aes_crypt_ecb_eq:
  assumes "even (nr ctx)" "2 \<le> nr ctx"
  shows "aes_crypt_ecb ctx AES_ENCRYPT b =
     block_bytes (aes_flast (drop (4 * nr ctx) (rk ctx))
       (aes_rounds AES_FROUND (nr ctx - 1) (drop 4 (rk ctx)) (add_key (rk ctx) (block_words b))))"
   and "aes_crypt_ecb ctx AES_DECRYPT b =
     block_bytes (aes_rlast (drop (4 * nr ctx) (rk ctx))
       (aes_rounds AES_RROUND (nr ctx - 1) (drop 4 (rk ctx)) (add_key (rk ctx) (block_words b))))"
proof -
  obtain k where k: "nr ctx = Suc (Suc (2 * k))"
  proof -
    obtain m where m: "nr ctx = 2 * m" using assms(1) by (rule evenE)
    with assms(2) have "nr ctx = Suc (Suc (2 * (m - 1)))" by simp
    then show thesis by (rule that)
  qed
  have "2 * (nr ctx div 2 - 1) = nr ctx - 2" "nr ctx div 2 - 1 = k" "nr ctx - 1 = Suc (2 * k)"
    using k by simp_all
  note n = this
  show "aes_crypt_ecb ctx AES_ENCRYPT b =
     block_bytes (aes_flast (drop (4 * nr ctx) (rk ctx))
       (aes_rounds AES_FROUND (nr ctx - 1) (drop 4 (rk ctx)) (add_key (rk ctx) (block_words b))))"
    unfolding aes_crypt_ecb_def n(2,3) aes_rounds_Suc_last
    using k by (simp add: aes_loop_rounds block_bytes_def block_words_def add_key_def Let_def xor.commute
        split_beta)
  show "aes_crypt_ecb ctx AES_DECRYPT b =
     block_bytes (aes_rlast (drop (4 * nr ctx) (rk ctx))
       (aes_rounds AES_RROUND (nr ctx - 1) (drop 4 (rk ctx)) (add_key (rk ctx) (block_words b))))"
    unfolding aes_crypt_ecb_def n(2,3) aes_rounds_Suc_last
    using k by (simp add: aes_loop_rounds block_bytes_def block_words_def add_key_def Let_def xor.commute
        split_beta)
qed

lemma length_aes_crypt_ecb [simp, length_simps]: "length (aes_crypt_ecb ctx mode b) = 16"
  by (simp add: aes_crypt_ecb_def Let_def split: prod.splits)

lemma aes_crypt_ecb_not_Nil [simp]: "aes_crypt_ecb ctx mode b \<noteq> []"
  by (metis length_aes_crypt_ecb list.size(3) zero_neq_numeral)

section \<open>The decryption schedule inverts the encryption schedule\<close>

lemma length_aes_dec_keys [simp, length_simps]: "length (aes_dec_keys sk n) = 4 * n"
  by (induction n) simp_all

lemma aes_dec_keys_nth:
  "i < n \<Longrightarrow> j < 4 \<Longrightarrow> aes_dec_keys sk n ! (4 * i + j) = inv_mix (sk ! (4 * (n - i) + j))"
proof (induction n arbitrary: i)
  case (Suc n)
  show ?case
  proof (cases i)
    case 0
    with Suc.prems show ?thesis by (simp add: nth_append aes_dec_word_inv_mix)
  next
    case (Suc i')
    then have "aes_dec_keys sk (Suc n) ! (4 * i + j) = aes_dec_keys sk n ! (4 * i' + j)"
      by (simp add: nth_append)
    with Suc.IH [of i'] Suc.prems Suc show ?thesis by simp
  qed
qed simp

lemma aes_expand_fold_length:
  assumes "\<And>RK i. length (f RK i) = c"
  shows "length (fold (\<lambda>i buf. buf @ f (drop (d * i) buf) i) is RK) = length RK + c * length is"
  using assms by (induction "is" arbitrary: RK) simp_all

lemma length_aes_expand [simp, length_simps]:
  "length (aes_expand_10 RK i) = 4" "length (aes_expand_12 RK i) = 6" "length (aes_expand_14 RK i) = 8"
  by (simp_all add: aes_expand_10_def aes_expand_12_def aes_expand_14_def Let_def)

lemma aes_setkey_enc_ok:
  assumes "aes_setkey_enc key keysize = Inr ctx"
  shows "even (nr ctx)" "2 \<le> nr ctx" "4 * nr ctx + 4 \<le> length (rk ctx)"
  using assms
  by (auto simp: aes_setkey_enc_def Let_def aes_expand_fold_length split: if_splits)

lemma aes_setkey_dec_keys:
  assumes enc: "aes_setkey_enc key keysize = Inr ctx"
    and dec: "aes_setkey_dec key keysize = Inr dtx"
  shows "nr dtx = nr ctx" "j < 4 \<Longrightarrow> rk dtx ! j = rk ctx ! (4 * nr ctx + j)"
    "j < 4 \<Longrightarrow> rk dtx ! (4 * nr ctx + j) = rk ctx ! j"
    "inverse_keys (nr ctx - 1) (drop 4 (rk ctx)) (drop 4 (rk dtx))"
    "4 * nr ctx + 4 = length (rk dtx)"
proof -
  let ?n = "nr ctx - 1"
  have n: "4 * nr ctx = 4 + 4 * ?n" using aes_setkey_enc_ok(2) [OF enc] by simp
  have rk: "rk dtx = map (\<lambda>j. rk ctx ! (4 * nr ctx + j)) [0..<4] @ aes_dec_keys (rk ctx) ?n
      @ map (\<lambda>j. rk ctx ! j) [0..<4]" and "nr dtx = nr ctx"
    using assms by (auto simp: aes_setkey_dec_def)
  then show "nr dtx = nr ctx" by simp
  show "j < 4 \<Longrightarrow> rk dtx ! j = rk ctx ! (4 * nr ctx + j)"
    by (simp add: rk nth_append del: upt_rec_numeral)
  show "j < 4 \<Longrightarrow> rk dtx ! (4 * nr ctx + j) = rk ctx ! j"
    unfolding n by (simp add: rk nth_append del: upt_rec_numeral)
  show "4 * nr ctx + 4 = length (rk dtx)" using n by (simp add: rk)
  have "drop 4 (rk dtx) ! (4 * i + j) = inv_mix (drop 4 (rk ctx) ! (4 * (?n - 1 - i) + j))"
    if "i < ?n" "j < 4" for i j
  proof -
    have "drop 4 (rk dtx) ! (4 * i + j) = aes_dec_keys (rk ctx) ?n ! (4 * i + j)"
      using that by (simp add: rk nth_append)
    also have "\<dots> = inv_mix (rk ctx ! (4 * (?n - i) + j))"
      using that by (simp add: aes_dec_keys_nth)
    also have "4 * (?n - i) + j = 4 + (4 * (?n - 1 - i) + j)" using that by simp
    finally show ?thesis using aes_setkey_enc_ok(3) [OF enc] by simp
  qed
  then show "inverse_keys ?n (drop 4 (rk ctx)) (drop 4 (rk dtx))"
    using aes_setkey_enc_ok(3) [OF enc] n by (simp add: inverse_keys_def rk)
qed

lemma aes_block_inverse:
  assumes enc: "aes_setkey_enc key keysize = Inr ctx"
    and dec: "aes_setkey_dec key keysize = Inr dtx" and b: "length b = 16"
  shows "aes_crypt_ecb dtx AES_DECRYPT (aes_crypt_ecb ctx AES_ENCRYPT b) = b"
proof -
  note ok = aes_setkey_enc_ok [OF enc] and ks = aes_setkey_dec_keys [OF enc dec]
  let ?X = "add_key (rk ctx) (block_words b)"
  let ?Y = "aes_rounds AES_FROUND (nr ctx - 1) (drop 4 (rk ctx)) ?X"
  have "add_key (rk dtx) (add_key (drop (4 * nr ctx) (rk ctx)) (sub_shift ?Y)) = sub_shift ?Y"
    using ok ks(2) by (intro add_key_cancel) simp
  then have "aes_crypt_ecb dtx AES_DECRYPT (aes_crypt_ecb ctx AES_ENCRYPT b)
      = block_bytes (aes_rlast (drop (4 * nr ctx) (rk dtx)) (sub_shift ?X))"
    using ok ks(1) aes_rounds_inverse [OF ks(4), of ?X] by (simp add: aes_crypt_ecb_eq aes_flast_eq)
  also have "\<dots> = block_bytes (add_key (drop (4 * nr ctx) (rk dtx)) (add_key (rk ctx) (block_words b)))"
    by (simp add: aes_rlast_sub_shift)
  also have "\<dots> = b"
    using ks(3,5) b by (subst add_key_cancel) (simp_all add: block_bytes_words)
  finally show ?thesis .
qed

section \<open>The modes\<close>

text \<open>A context pair that decrypts what it encrypts, block by block.\<close>

definition aes_inverse_ctx :: "aes_context \<Rightarrow> aes_context \<Rightarrow> bool" where
  "aes_inverse_ctx ctx dtx \<longleftrightarrow>
     (\<forall>b. length b = 16 \<longrightarrow> aes_crypt_ecb dtx AES_DECRYPT (aes_crypt_ecb ctx AES_ENCRYPT b) = b)"

lemma length_aes_cbc_enc_loop:
  "length iv = 16 \<Longrightarrow> length input mod 16 = 0 \<Longrightarrow>
   length (snd (aes_cbc_enc_loop ctx iv input)) = length input \<and>
   length (fst (aes_cbc_enc_loop ctx iv input)) = 16"
proof (induction ctx iv input rule: aes_cbc_enc_loop.induct)
  case (1 ctx iv input)
  show ?case
  proof (cases "input = []")
    case True
    with "1.prems" show ?thesis by (simp add: aes_cbc_enc_loop.simps [of ctx iv])
  next
    case False
    then have "16 \<le> length input"
      using "1.prems"(2) by (metis length_greater_0_conv linorder_not_le mod_less neq0_conv)
    moreover have "length (drop 16 input) mod 16 = 0"
      using "1.prems"(2) calculation by (simp add: le_mod_geq)
    ultimately show ?thesis
      using "1.IH" [OF False refl] False
      by (auto simp: aes_cbc_enc_loop.simps [of ctx iv] Let_def split: prod.splits)
  qed
qed

lemma aes_cbc_loop_inverse:
  "aes_inverse_ctx ctx dtx \<Longrightarrow> length iv = 16 \<Longrightarrow> length input mod 16 = 0 \<Longrightarrow>
    aes_cbc_dec_loop dtx iv (snd (aes_cbc_enc_loop ctx iv input))
      = (fst (aes_cbc_enc_loop ctx iv input), input)"
proof (induction ctx iv input rule: aes_cbc_enc_loop.induct)
  case (1 ctx iv input)
  show ?case
  proof (cases "input = []")
    case True
    then show ?thesis by (simp add: aes_cbc_enc_loop.simps aes_cbc_dec_loop.simps)
  next
    case False
    then have len: "16 \<le> length input"
      using "1.prems"(3) by (metis length_greater_0_conv linorder_not_le mod_less neq0_conv)
    let ?blk = "map2 (XOR) (take 16 input) iv"
    let ?out = "aes_crypt_ecb ctx AES_ENCRYPT ?blk"
    let ?r = "aes_cbc_enc_loop ctx ?out (drop 16 input)"
    have enc: "aes_cbc_enc_loop ctx iv input = (fst ?r, ?out @ snd ?r)"
      using False by (simp add: aes_cbc_enc_loop.simps [of ctx iv] Let_def split: prod.splits)
    have "aes_crypt_ecb dtx AES_DECRYPT ?out = ?blk"
      using "1.prems"(1,2) len by (simp add: aes_inverse_ctx_def)
    moreover have "aes_cbc_dec_loop dtx ?out (snd ?r) = (fst ?r, drop 16 input)"
      using "1.IH" [OF False refl] "1.prems"(1,3) len by (simp add: le_mod_geq)
    ultimately show ?thesis
      using len "1.prems"(2) by (simp add: enc aes_cbc_dec_loop.simps [of dtx iv])
  qed
qed

lemma aes_cfb_inverse:
  "length iv = 16 \<Longrightarrow> n < 16 \<Longrightarrow>
   aes_crypt_cfb128 ctx AES_DECRYPT n iv (snd (aes_crypt_cfb128 ctx AES_ENCRYPT n iv input))
     = (fst (aes_crypt_cfb128 ctx AES_ENCRYPT n iv input), input)"
proof (induction input arbitrary: n iv)
  case (Cons c input)
  have "(n + 1) AND 0x0F < 16"
    using take_bit_nat_less_exp [of 4 "n + 1"] by (simp add: take_bit_eq_mask mask_eq_exp_minus_1)
  with Cons show ?case
    by (simp add: Let_def split_beta)
qed simp

lemma aes_ctr_xor:
  "snd (aes_crypt_ctr ctx n nc sb (snd (aes_crypt_ctr ctx n nc sb input))) = input"
  by (induction input arbitrary: n nc sb) (simp_all add: Let_def split_beta)

text \<open>The big-endian number a counter block holds.\<close>

definition be_value :: "bytes \<Rightarrow> nat" where
  "be_value bs = foldl (\<lambda>v b. v * 256 + unat b) 0 bs"

lemma be_value_snoc: "be_value (bs @ [b]) = be_value bs * 256 + unat b"
  by (simp add: be_value_def)

lemma aes_ctr_inc_append: "i \<le> length nc \<Longrightarrow> aes_ctr_inc i (nc @ r) = aes_ctr_inc i nc @ r"
  by (induction i arbitrary: nc) (simp_all add: Let_def nth_append list_update_append)

lemma be_value_less: "be_value bs < 256 ^ length bs"
proof (induction bs rule: rev_induct)
  case (snoc b bs)
  then have "(be_value bs + 1) * 256 \<le> 256 ^ length bs * 256" by (intro mult_le_mono1) simp
  then show ?case using unat_byte_lt [of b] by (simp add: be_value_snoc)
qed (simp add: be_value_def)

lemma be_value_aes_ctr_inc:
  "be_value (aes_ctr_inc (length nc) nc) = (be_value nc + 1) mod 256 ^ length nc"
proof (induction nc rule: rev_induct)
  case (snoc b nc)
  let ?k = "256 ^ length nc :: nat"
  have b: "unat (b + 1) = (unat b + 1) mod 256" by (simp add: unat_word_ariths)
  show ?case
  proof (cases "b + 1 = 0")
    case True
    then have "unat b = 255" using b unat_byte_lt [of b] by (auto simp: mod_if split: if_splits)
    then have "(be_value (nc @ [b]) + 1) mod (256 ^ length (nc @ [b]))
        = ((be_value nc + 1) * 256) mod (?k * 256)"
      by (simp add: be_value_snoc mult.commute)
    also have "\<dots> = ((be_value nc + 1) mod ?k) * 256" by (rule mod_mult_mult2)
    finally show ?thesis
      using snoc True by (simp add: Let_def list_update_append aes_ctr_inc_append be_value_snoc)
  next
    case False
    then have "unat (b + 1) = unat b + 1" using b unat_byte_lt [of b]
      by (metis Suc_eq_plus1 Suc_lessI mod_less mod_self unat_eq_zero)
    moreover have "be_value (nc @ [b]) + 1 < 256 ^ length (nc @ [b])"
      using be_value_less [of "nc @ [b + 1]"] calculation by (simp add: be_value_snoc)
    ultimately show ?thesis
      using False by (simp add: Let_def list_update_append be_value_snoc)
  qed
qed (simp add: be_value_def)

section \<open>Properties\<close>

lemma aes_inverse_ctx_setkey:
  assumes "aes_setkey_enc key keysize = Inr ctx" "aes_setkey_dec key keysize = Inr dtx"
  shows "aes_inverse_ctx ctx dtx"
  using assms by (simp add: aes_inverse_ctx_def aes_block_inverse)

text \<open>The two schedules succeed for the same key sizes: 128, 192 and 256 bits.\<close>

lemma aes_setkey_sizes:
  "(\<exists>ctx. aes_setkey_enc key keysize = Inr ctx) \<longleftrightarrow> keysize \<in> {128, 192, 256}"
  "(\<exists>dtx. aes_setkey_dec key keysize = Inr dtx) \<longleftrightarrow> keysize \<in> {128, 192, 256}"
  by (auto simp: aes_setkey_dec_def aes_setkey_enc_def Let_def)

text \<open>C20: For every key of every supported size, decrypting a block with the context of
  \<open>aes_setkey_dec\<close> gives back the block that was encrypted with the context of
  \<open>aes_setkey_enc\<close>: the table-driven rounds invert each other.\<close>

theorem aes_ecb_inverse:
  assumes "aes_setkey_enc key keysize = Inr ctx" "aes_setkey_dec key keysize = Inr dtx"
    and "length blk = 16"
  shows "aes_crypt_ecb dtx AES_DECRYPT (aes_crypt_ecb ctx AES_ENCRYPT blk) = blk"
  using assms by (rule aes_block_inverse)

theorem aes_ecb_inverse_witness:
  "\<exists>ctx dtx. aes_setkey_enc (replicate 32 7) 256 = Inr ctx \<and> aes_setkey_dec (replicate 32 7) 256 = Inr dtx
     \<and> aes_crypt_ecb dtx AES_DECRYPT (aes_crypt_ecb ctx AES_ENCRYPT (replicate 16 1)) = replicate 16 1"
proof -
  obtain ctx dtx where "aes_setkey_enc (replicate 32 7) 256 = Inr ctx"
      "aes_setkey_dec (replicate 32 7) 256 = Inr dtx"
    using aes_setkey_sizes [of "replicate 32 7" 256] by auto
  then show ?thesis using aes_ecb_inverse [of "replicate 32 7" 256 ctx dtx "replicate 16 1"] by simp
qed

text \<open>CBC encryption of whole blocks succeeds, keeps the length, and CBC decryption with the
  same initial vector returns the plaintext and leaves the same final vector behind.\<close>

theorem aes_cbc_roundtrip:
  assumes "aes_setkey_enc key keysize = Inr ctx" "aes_setkey_dec key keysize = Inr dtx"
    and "length iv = 16" "length input mod 16 = 0"
  shows "\<exists>iv' out. aes_crypt_cbc ctx AES_ENCRYPT iv input = Inr (iv', out) \<and> length out = length input
     \<and> aes_crypt_cbc dtx AES_DECRYPT iv out = Inr (iv', input)"
proof -
  obtain iv' out where enc: "aes_cbc_enc_loop ctx iv input = (iv', out)" by fastforce
  moreover have "length out = length input"
    using length_aes_cbc_enc_loop [OF assms(3,4), of ctx] enc by simp
  moreover have "aes_cbc_dec_loop dtx iv out = (iv', input)"
    using aes_cbc_loop_inverse [OF aes_inverse_ctx_setkey [OF assms(1,2)] assms(3,4)] enc by simp
  ultimately show ?thesis using assms(4) by (simp add: aes_crypt_cbc_def)
qed

theorem aes_cbc_roundtrip_witness:
  "\<exists>ctx dtx iv' out. aes_setkey_enc (replicate 16 3) 128 = Inr ctx \<and>
     aes_crypt_cbc ctx AES_ENCRYPT (replicate 16 0) (replicate 32 9) = Inr (iv', out) \<and>
     aes_setkey_dec (replicate 16 3) 128 = Inr dtx \<and>
     aes_crypt_cbc dtx AES_DECRYPT (replicate 16 0) out = Inr (iv', replicate 32 9)"
proof -
  obtain ctx dtx where "aes_setkey_enc (replicate 16 3) 128 = Inr ctx"
      "aes_setkey_dec (replicate 16 3) 128 = Inr dtx"
    using aes_setkey_sizes [of "replicate 16 3" 128] by auto
  then show ?thesis
    using aes_cbc_roundtrip [of "replicate 16 3" 128 ctx dtx "replicate 16 0" "replicate 32 9"]
    by fastforce
qed

text \<open>The error branches: a key schedule fails exactly for a key size that is not 128, 192
  or 256, CBC exactly for a length that is not a multiple of the block size, and they report it.\<close>

theorem aes_errors:
  "(aes_setkey_enc key keysize = Inl e \<longleftrightarrow>
      keysize \<notin> {128, 192, 256} \<and> e = POLARSSL_ERR_AES_INVALID_KEY_LENGTH) \<and>
   (aes_setkey_dec key keysize = Inl e \<longleftrightarrow>
      keysize \<notin> {128, 192, 256} \<and> e = POLARSSL_ERR_AES_INVALID_KEY_LENGTH) \<and>
   (aes_crypt_cbc ctx mode iv input = Inl e \<longleftrightarrow>
      length input mod 16 \<noteq> 0 \<and> e = POLARSSL_ERR_AES_INVALID_INPUT_LENGTH)"
  by (auto simp: aes_setkey_dec_def aes_setkey_enc_def aes_crypt_cbc_def Let_def)

text \<open>CFB128 decryption from the offset and vector encryption started from returns the
  plaintext and ends in the same offset and vector; both directions use the encryption context.\<close>

theorem aes_cfb_roundtrip:
  assumes "length iv = 16" "n < 16"
  shows "aes_crypt_cfb128 ctx AES_DECRYPT n iv (snd (aes_crypt_cfb128 ctx AES_ENCRYPT n iv input))
     = (fst (aes_crypt_cfb128 ctx AES_ENCRYPT n iv input), input)"
  using assms by (rule aes_cfb_inverse)

theorem aes_cfb_roundtrip_witness:
  "length (replicate 16 0 :: bytes) = 16 \<and>
   snd (aes_crypt_cfb128 \<lparr>nr = 10, rk = replicate 44 0\<rparr> AES_DECRYPT 5 (replicate 16 0)
     (snd (aes_crypt_cfb128 \<lparr>nr = 10, rk = replicate 44 0\<rparr> AES_ENCRYPT 5 (replicate 16 0) [1, 2, 3])))
     = [1, 2, 3]"
  using aes_cfb_roundtrip [of "replicate 16 0" 5 "\<lparr>nr = 10, rk = replicate 44 0\<rparr>" "[1, 2, 3]"] by simp

text \<open>CTR mode is its own inverse from the same offset, counter and stream block, and its
  counter loop adds one to the counter read as a big-endian number, modulo its width.\<close>

theorem aes_ctr_involution:
  "snd (aes_crypt_ctr ctx n nc sb (snd (aes_crypt_ctr ctx n nc sb input))) = input \<and>
   be_value (aes_ctr_inc (length nc) nc) = (be_value nc + 1) mod 256 ^ length nc"
  by (simp add: aes_ctr_xor be_value_aes_ctr_inc)

end
