(* ===== verification/Base64.thy ===== *)
theory Base64
  imports Blm_Prelude
begin

unbundle bit_operations_syntax

text \<open>
  Base64 as \<open>third-party/polarssl/library/base64.c\<close> implements it. A call gets the capacity
  \<open>*dlen\<close> of the output buffer; its result is an error together with the value left in \<open>*dlen\<close>,
  or the value left in \<open>*dlen\<close> and the bytes written. Decoding inverts encoding for every buffer,
  and the size computed before anything is written is the size written.
\<close>

section \<open>Tables\<close>

definition base64_enc_map :: "byte list" where
  "base64_enc_map = map of_char
    (''ABCDEFGHIJ'' @
     ''KLMNOPQRST'' @
     ''UVWXYZabcd'' @
     ''efghijklmn'' @
     ''opqrstuvwx'' @
     ''yz01234567'' @
     ''89+/'')"

definition base64_dec_map :: "byte list" where
  "base64_dec_map =
    [127, 127, 127, 127, 127, 127, 127, 127, 127, 127,
     127, 127, 127, 127, 127, 127, 127, 127, 127, 127,
     127, 127, 127, 127, 127, 127, 127, 127, 127, 127,
     127, 127, 127, 127, 127, 127, 127, 127, 127, 127,
     127, 127, 127,  62, 127, 127, 127,  63,  52,  53,
      54,  55,  56,  57,  58,  59,  60,  61, 127, 127,
     127,  64, 127, 127, 127,   0,   1,   2,   3,   4,
       5,   6,   7,   8,   9,  10,  11,  12,  13,  14,
      15,  16,  17,  18,  19,  20,  21,  22,  23,  24,
      25, 127, 127, 127, 127, 127, 127,  26,  27,  28,
      29,  30,  31,  32,  33,  34,  35,  36,  37,  38,
      39,  40,  41,  42,  43,  44,  45,  46,  47,  48,
      49,  50,  51, 127, 127, 127, 127, 127]"

datatype base64_error =
  POLARSSL_ERR_BASE64_BUFFER_TOO_SMALL | POLARSSL_ERR_BASE64_INVALID_CHARACTER

section \<open>Encoding\<close>

text \<open>The number of characters of the encoding, without the terminating zero.\<close>

definition base64_enc_size :: "nat \<Rightarrow> nat" where
  "base64_enc_size slen =
     (let n = (slen * 8) div 6;
          r = slen * 8 - n * 6
      in if r = 2 then n + 3 else if r = 4 then n + 2 else n)"

text \<open>The loop over groups of three bytes, then the one or two bytes that are left.\<close>

fun base64_enc_loop :: "bytes \<Rightarrow> bytes" where
  "base64_enc_loop (C1 # C2 # C3 # src) =
     (let C1 = unat C1; C2 = unat C2; C3 = unat C3 in
      [base64_enc_map ! (drop_bit 2 C1 AND 0x3F),
       base64_enc_map ! ((push_bit 4 (C1 AND 3) + drop_bit 4 C2) AND 0x3F),
       base64_enc_map ! ((push_bit 2 (C2 AND 15) + drop_bit 6 C3) AND 0x3F),
       base64_enc_map ! (C3 AND 0x3F)]) @ base64_enc_loop src"
| "base64_enc_loop [C1, C2] =
     (let C1 = unat C1; C2 = unat C2 in
      [base64_enc_map ! (drop_bit 2 C1 AND 0x3F),
       base64_enc_map ! ((push_bit 4 (C1 AND 3) + drop_bit 4 C2) AND 0x3F),
       base64_enc_map ! (push_bit 2 (C2 AND 15) AND 0x3F),
       of_char (CHR ''='')])"
| "base64_enc_loop [C1] =
     (let C1 = unat C1 in
      [base64_enc_map ! (drop_bit 2 C1 AND 0x3F),
       base64_enc_map ! (push_bit 4 (C1 AND 3) AND 0x3F),
       of_char (CHR ''=''), of_char (CHR ''='')])"
| "base64_enc_loop [] = []"

definition base64_encode :: "nat \<Rightarrow> bytes \<Rightarrow> (base64_error \<times> nat) + (nat \<times> bytes)" where
  "base64_encode dlen src =
     (if length src = 0 then Inr (dlen, [])
      else let n = base64_enc_size (length src) in
        if dlen < n + 1 then Inl (POLARSSL_ERR_BASE64_BUFFER_TOO_SMALL, n + 1)
        else let p = base64_enc_loop src in Inr (length p, p))"

section \<open>Decoding\<close>

text \<open>The checking pass: \<open>j\<close> counts the padding characters, \<open>n\<close> the characters that count.\<close>

fun base64_dec_check :: "bytes \<Rightarrow> nat \<Rightarrow> nat \<Rightarrow> base64_error + nat" where
  "base64_dec_check [] j n = Inr n"
| "base64_dec_check (c # src) j n =
     (if src \<noteq> [] \<and> c = 13 \<and> hd src = 10 then base64_dec_check src j n
      else if c = 10 then base64_dec_check src j n
      else let j = (if c = of_char (CHR ''='') then j + 1 else j) in
        if c = of_char (CHR ''='') \<and> j > 2 then Inl POLARSSL_ERR_BASE64_INVALID_CHARACTER
        else if c > 127 \<or> base64_dec_map ! unat c = 127 then Inl POLARSSL_ERR_BASE64_INVALID_CHARACTER
        else if base64_dec_map ! unat c < 64 \<and> j \<noteq> 0 then Inl POLARSSL_ERR_BASE64_INVALID_CHARACTER
        else base64_dec_check src j (n + 1))"

text \<open>The decoding pass: \<open>j\<close> is the number of bytes a group yields, \<open>n\<close> the position in the
  group, \<open>x\<close> the shift register.\<close>

fun base64_dec_loop :: "bytes \<Rightarrow> nat \<Rightarrow> nat \<Rightarrow> u32 \<Rightarrow> bytes" where
  "base64_dec_loop [] j n x = []"
| "base64_dec_loop (c # src) j n x =
     (if c = 13 \<or> c = 10 then base64_dec_loop src j n x
      else let j = (if base64_dec_map ! unat c = 64 then j - 1 else j);
               x = push_bit 6 x OR ucast (base64_dec_map ! unat c AND 0x3F);
               n = n + 1
           in if n = 4 then
                (if j > 0 then [ucast (drop_bit 16 x)] else []) @
                (if j > 1 then [ucast (drop_bit 8 x)] else []) @
                (if j > 2 then [ucast x] else []) @ base64_dec_loop src j 0 x
              else base64_dec_loop src j n x)"

definition base64_decode :: "nat \<Rightarrow> bytes \<Rightarrow> (base64_error \<times> nat) + (nat \<times> bytes)" where
  "base64_decode dlen src =
     (case base64_dec_check src 0 0 of
        Inl e \<Rightarrow> Inl (e, dlen)
      | Inr n \<Rightarrow>
          if n = 0 then Inr (dlen, [])
          else let n = (n * 6 + 7) div 8 in
            if dlen < n then Inl (POLARSSL_ERR_BASE64_BUFFER_TOO_SMALL, n)
            else let p = base64_dec_loop src 3 0 0 in Inr (length p, p))"

section \<open>Lemmas\<close>

lemma length_base64_maps [simp, length_simps]:
  "length base64_enc_map = 64" "length base64_dec_map = 128"
  by (simp_all add: base64_enc_map_def base64_dec_map_def)

text \<open>The tables are inverse: every character of the encoding alphabet decodes to its index,
  and none is a line break, the padding character or outside the ASCII range.\<close>

lemma base64_maps_eval:
  "map (\<lambda>c. base64_dec_map ! unat c) base64_enc_map = map of_nat [0..<64]"
  by (simp add: base64_enc_map_def base64_dec_map_def upt_eval)

lemma base64_alphabet_eval:
  "list_all (\<lambda>c. c \<noteq> 10 \<and> c \<noteq> 13 \<and> c \<noteq> 61 \<and> c \<le> 127) base64_enc_map"
  by (simp add: base64_enc_map_def)

lemma base64_dec_enc [simp]:
  "v < 64 \<Longrightarrow> base64_dec_map ! unat (base64_enc_map ! v) = of_nat v"
  using arg_cong [OF base64_maps_eval, of "\<lambda>xs. xs ! v"] by simp

lemma base64_enc_char [simp]:
  assumes "v < 64"
  shows "base64_enc_map ! v \<noteq> 10" "base64_enc_map ! v \<noteq> 13" "base64_enc_map ! v \<noteq> 61"
    "\<not> base64_enc_map ! v > 127"
proof -
  have "base64_enc_map ! v \<in> set base64_enc_map" using assms by simp
  then show "base64_enc_map ! v \<noteq> 10" "base64_enc_map ! v \<noteq> 13" "base64_enc_map ! v \<noteq> 61"
    "\<not> base64_enc_map ! v > 127"
    using base64_alphabet_eval by (auto simp: list_all_iff not_less)
qed

lemma of_char_eq [simp]: "(of_char (CHR ''='') :: byte) = 61"
  by simp

lemma base64_dec_pad [simp]: "base64_dec_map ! 61 = 64"
  by (simp add: base64_dec_map_def)

text \<open>The shift register: shifting a 6-bit value in, and the low 24 bits of four of them.\<close>

abbreviation shift_in :: "u32 \<Rightarrow> nat \<Rightarrow> u32" where
  "shift_in x v \<equiv> push_bit 6 x OR of_nat v"

lemma unat_shift_in:
  assumes "v < 64"
  shows "unat (shift_in x v) = (unat x * 64 + v) mod 2 ^ 32"
proof -
  have "push_bit 6 x + (of_nat v :: u32) = shift_in x v"
  proof (rule disjunctive_add)
    fix n
    have "\<not> bit (of_nat v :: u32) n" if "6 \<le> n"
    proof -
      have "v < 2 ^ n" using assms that power_increasing [of 6 n "2 :: nat"] by simp
      then show ?thesis unfolding bit_of_nat_iff by (simp add: bit_iff_odd)
    qed
    then show "\<not> bit (push_bit 6 x) n \<or> \<not> bit (of_nat v :: u32) n"
      by (cases "6 \<le> n") (auto simp: bit_simps)
  qed
  then have "unat (shift_in x v) = unat (push_bit 6 x + of_nat v)" by simp
  also have "\<dots> = (unat x * 64 + v) mod 2 ^ 32"
    using assms by (simp add: unat_word_ariths push_bit_eq_mult unat_of_nat take_bit_eq_mod mod_simps)
  finally show ?thesis .
qed

lemma mod_affine: "(a::nat) mod N = b mod N \<Longrightarrow> (a * k + v) mod N = (b * k + v) mod N"
  by (metis mod_add_left_eq mod_mult_left_eq)

lemma shift_in_mod:
  assumes "v < 64" "unat x mod 16777216 = u mod 16777216"
  shows "unat (shift_in x v) mod 16777216 = (u * 64 + v) mod 16777216"
proof -
  have "unat (shift_in x v) mod 16777216 = (unat x * 64 + v) mod 16777216"
    using mod_mod_cancel [of "16777216 :: nat" "2 ^ 32" "unat x * 64 + v"] assms(1)
    by (simp add: unat_shift_in)
  then show ?thesis using mod_affine [OF assms(2)] by simp
qed

lemma shift_in_4:
  assumes "a < 64" "b < 64" "c < 64" "d < 64"
  shows "unat (shift_in (shift_in (shift_in (shift_in x a) b) c) d) mod 16777216
       = a * 262144 + b * 4096 + c * 64 + d"
proof -
  let ?N = "16777216 :: nat"
  have "unat (shift_in (shift_in (shift_in (shift_in x a) b) c) d) mod ?N
      = ((((unat x * 64 + a) * 64 + b) * 64 + c) * 64 + d) mod ?N"
    by (intro shift_in_mod refl assms)
  also have "(((unat x * 64 + a) * 64 + b) * 64 + c) * 64 + d
      = (a * 262144 + b * 4096 + c * 64 + d) + unat x * ?N"
    by (simp add: algebra_simps)
  also have "(a * 262144 + b * 4096 + c * 64 + d + unat x * ?N) mod ?N
      = a * 262144 + b * 4096 + c * 64 + d"
    unfolding mod_mult_self1 using assms by simp
  finally show ?thesis .
qed

text \<open>The three bytes a group yields, from the low 24 bits of the register.\<close>

lemma register_bytes:
  assumes "unat (x :: u32) mod 16777216 = C1 * 65536 + C2 * 256 + C3"
    and "C1 < 256" "C2 < 256" "C3 < 256"
  shows "ucast (drop_bit 16 x) = (of_nat C1 :: byte)" "ucast (drop_bit 8 x) = (of_nat C2 :: byte)"
    "ucast x = (of_nat C3 :: byte)"
proof -
  define q where "q = unat x div 16777216"
  have u: "unat x = q * 16777216 + (C1 * 65536 + C2 * 256 + C3)"
    unfolding q_def assms(1) [symmetric] by simp
  have eq: "ucast y = (of_nat n :: byte)" if "unat (y :: u32) mod 256 = n" for y n
    by (rule word_unat_eq_iff [THEN iffD2]) (simp add: unsigned_ucast_eq unat_of_nat take_bit_eq_mod flip: that)
  have digit: "(a * 256 + d) * k + r = unat x \<Longrightarrow> r < k \<Longrightarrow> d < 256 \<Longrightarrow> unat x div k mod 256 = d" for a d k r
    by (metis div_mult_self3 div_less add_0_right not_less_zero add.commute mod_mult_self3 mod_less)
  show "ucast (drop_bit 16 x) = (of_nat C1 :: byte)"
    using assms(2-4) by (intro eq, unfold unat_drop_bit_eq)
      (simp add: drop_bit_eq_div, rule digit [of q C1 65536 "C2 * 256 + C3"], simp_all add: u algebra_simps)
  show "ucast (drop_bit 8 x) = (of_nat C2 :: byte)"
    using assms(2-4) by (intro eq, unfold unat_drop_bit_eq)
      (simp add: drop_bit_eq_div, rule digit [of "q * 256 + C1" C2 256 C3], simp_all add: u algebra_simps)
  show "ucast x = (of_nat C3 :: byte)"
    using assms(2-4) digit [of "q * 65536 + C1 * 256 + C2" C3 1 0] by (intro eq) (simp add: u)
qed

section \<open>Checking and decoding what was encoded\<close>

lemma of_nat_byte_cmp:
  assumes "v < 64"
  shows "(of_nat v :: byte) \<noteq> 127" "(of_nat v :: byte) \<noteq> 64" "(of_nat v :: byte) < 64"
    "ucast ((of_nat v :: byte) AND 63) = (of_nat v :: u32)"
proof -
  have u: "unat (of_nat v :: byte) = v" using assms by (simp add: unat_of_nat_byte)
  then show "(of_nat v :: byte) \<noteq> 127" "(of_nat v :: byte) \<noteq> 64"
    using assms by (auto dest: arg_cong [where f = unat])
  show "(of_nat v :: byte) < 64" using assms u by (simp add: word_less_nat_alt)
  have "(of_nat v :: byte) AND 63 = of_nat (v AND 63)" by (simp add: of_nat_and_eq)
  also have "\<dots> = of_nat v" using assms by (simp add: and_mask_nat)
  finally show "ucast ((of_nat v :: byte) AND 63) = (of_nat v :: u32)"
    using assms by (simp add: unsigned_of_nat take_bit_nat_eq_self)
qed

declare base64_dec_check.simps(2) [simp del] base64_dec_loop.simps(2) [simp del]
  base64_enc_loop.simps [simp del]

lemma base64_dec_check_char [simp]:
  "v < 64 \<Longrightarrow> base64_dec_check (base64_enc_map ! v # src) 0 n = base64_dec_check src 0 (n + 1)"
  by (simp add: base64_dec_check.simps(2) of_nat_byte_cmp)

lemma base64_dec_check_pad [simp]:
  "j < 2 \<Longrightarrow> base64_dec_check (61 # src) j n = base64_dec_check src (j + 1) (n + 1)"
  by (simp add: base64_dec_check.simps(2))

text \<open>The encoding in arithmetic: a group of three bytes is four 6-bit digits.\<close>

abbreviation enc_char :: "nat \<Rightarrow> byte" where
  "enc_char v \<equiv> base64_enc_map ! v"

lemma base64_enc_loop_groups:
  "base64_enc_loop (C1 # C2 # C3 # src) =
     [enc_char (unat C1 div 4), enc_char (unat C1 mod 4 * 16 + unat C2 div 16),
      enc_char (unat C2 mod 16 * 4 + unat C3 div 64), enc_char (unat C3 mod 64)] @ base64_enc_loop src"
  "base64_enc_loop [C1, C2] =
     [enc_char (unat C1 div 4), enc_char (unat C1 mod 4 * 16 + unat C2 div 16),
      enc_char (unat C2 mod 16 * 4), 61]"
  "base64_enc_loop [C1] = [enc_char (unat C1 div 4), enc_char (unat C1 mod 4 * 16), 61, 61]"
  "base64_enc_loop [] = []"
  using unat_byte_lt [of C1] unat_byte_lt [of C2] unat_byte_lt [of C3]
  by (simp_all only: base64_enc_loop.simps Let_def and_mask_nat drop_bit_eq_div push_bit_eq_mult of_char_eq)
     (simp_all add: less_mult_imp_div_less)

lemma digit_bounds [simp]:
  "unat (C1 :: byte) div 4 < 64" "unat C1 mod 4 * 16 + unat (C2 :: byte) div 16 < 64"
  "unat C1 mod 4 * 16 < 64" "unat C2 mod 16 * 4 < 64"
  "unat C2 mod 16 * 4 + unat (C3 :: byte) div 64 < 64"
proof -
  have c: "unat C1 < 256" "unat C2 < 256" "unat C3 < 256"
    by (rule unat_byte_lt)+
  have m: "unat C1 mod 4 < 4" "unat C2 mod 16 < 16" by simp_all
  show "unat C1 div 4 < 64" using c(1) by linarith
  show "unat C1 mod 4 * 16 + unat C2 div 16 < 64" using c(2) m(1) by linarith
  show "unat C1 mod 4 * 16 < 64" using m(1) by linarith
  show "unat C2 mod 16 * 4 < 64" using m(2) by linarith
  show "unat C2 mod 16 * 4 + unat C3 div 64 < 64" using c(3) m(2) by linarith
qed

lemma base64_check_encoded:
  "base64_dec_check (base64_enc_loop src) 0 n = Inr (n + length (base64_enc_loop src))"
  by (induction src arbitrary: n rule: base64_enc_loop.induct) (simp_all add: base64_enc_loop_groups)

lemma base64_dec_loop_char [simp]:
  "v < 64 \<Longrightarrow> base64_dec_loop (enc_char v # src) j n x =
     (let x = shift_in x v in
      if n = 3 then
        (if j > 0 then [ucast (drop_bit 16 x)] else []) @
        (if j > 1 then [ucast (drop_bit 8 x)] else []) @
        (if j > 2 then [ucast x] else []) @ base64_dec_loop src j 0 x
      else base64_dec_loop src j (n + 1) x)"
  by (simp add: base64_dec_loop.simps(2) of_nat_byte_cmp Let_def)

lemma base64_dec_loop_pad [simp]:
  "base64_dec_loop (61 # src) j n x =
     (let x = shift_in x 0; j = j - 1 in
      if n = 3 then
        (if j > 0 then [ucast (drop_bit 16 x)] else []) @
        (if j > 1 then [ucast (drop_bit 8 x)] else []) @
        (if j > 2 then [ucast x] else []) @ base64_dec_loop src j 0 x
      else base64_dec_loop src j (n + 1) x)"
  by (simp add: base64_dec_loop.simps(2) Let_def)

lemma digits_regroup:
  assumes "(d1 :: nat) * 4 + m1 = c1" "d2 * 16 + m2 = c2" "d3 * 64 + m3 = c3"
  shows "d1 * 262144 + (m1 * 16 + d2) * 4096 + (m2 * 4 + d3) * 64 + m3 = c1 * 65536 + c2 * 256 + c3"
  unfolding assms [symmetric] by simp

lemma base64_group_bytes:
  fixes C1 C2 C3 :: byte
  assumes "x' = shift_in (shift_in (shift_in (shift_in x (unat C1 div 4))
      (unat C1 mod 4 * 16 + unat C2 div 16)) (unat C2 mod 16 * 4 + unat C3 div 64)) (unat C3 mod 64)"
  shows "ucast (drop_bit 16 x') = C1" "ucast (drop_bit 8 x') = C2" "ucast x' = C3"
proof -
  let ?c1 = "unat C1" and ?c2 = "unat C2" and ?c3 = "unat C3"
  have "unat x' mod 16777216 = ?c1 div 4 * 262144 + (?c1 mod 4 * 16 + ?c2 div 16) * 4096
      + (?c2 mod 16 * 4 + ?c3 div 64) * 64 + ?c3 mod 64"
    unfolding assms by (intro shift_in_4) simp_all
  also have "\<dots> = ?c1 * 65536 + ?c2 * 256 + ?c3"
    by (rule digits_regroup) (simp_all only: div_mult_mod_eq)
  finally have x': "unat x' mod 16777216 = ?c1 * 65536 + ?c2 * 256 + ?c3" .
  from register_bytes [OF x' unat_byte_lt unat_byte_lt unat_byte_lt]
  show "ucast (drop_bit 16 x') = C1" "ucast (drop_bit 8 x') = C2" "ucast x' = C3" by simp_all
qed

lemma base64_decode_encoded:
  "base64_dec_loop (base64_enc_loop src) 3 0 x = src"
proof (induction src arbitrary: x rule: base64_enc_loop.induct)
  case (1 C1 C2 C3 src)
  then show ?case
    using base64_group_bytes [OF refl, of x C1 C2 C3]
    by (simp add: base64_enc_loop_groups Let_def)
next
  case (2 C1 C2)
  then show ?case
    using base64_group_bytes [OF refl, of x C1 C2 0]
    by (simp add: base64_enc_loop_groups Let_def)
next
  case (3 C1)
  then show ?case
    using base64_group_bytes [OF refl, of x C1 0 0]
    by (simp add: base64_enc_loop_groups Let_def)
qed (simp add: base64_enc_loop_groups)

lemma length_base64_enc_loop: "length (base64_enc_loop src) = 4 * ((length src + 2) div 3)"
proof (induction src rule: base64_enc_loop.induct)
  case (1 C1 C2 C3 src)
  have "(length (C1 # C2 # C3 # src) + 2) div 3 = (length src + 2) div 3 + 1" by simp
  with 1 show ?case by (simp add: base64_enc_loop_groups)
qed (simp_all add: base64_enc_loop_groups)

lemma base64_enc_size_eq: "base64_enc_size n = 4 * ((n + 2) div 3)"
proof -
  define k where "k = n div 3"
  consider "n = 3 * k" | "n = 3 * k + 1" | "n = 3 * k + 2" unfolding k_def by linarith
  then show ?thesis
  proof cases
    case 1
    have "(3 * k * 8) div 6 = 4 * k" by simp
    moreover have "(3 * k + 2) div 3 = k" by simp
    ultimately show ?thesis by (simp add: base64_enc_size_def Let_def 1)
  next
    case 2
    have "((3 * k + 1) * 8) div 6 = 4 * k + 1" by simp
    moreover have "(3 * k + 1 + 2) div 3 = k + 1" by simp
    ultimately show ?thesis by (simp add: base64_enc_size_def Let_def 2)
  next
    case 3
    have "((3 * k + 2) * 8) div 6 = 4 * k + 2" by simp
    moreover have "(3 * k + 2 + 2) div 3 = k + 1" by simp
    ultimately show ?thesis by (simp add: base64_enc_size_def Let_def 3)
  qed
qed

text \<open>The decoding pass writes at most three bytes per four characters the checking pass counted.\<close>

lemma base64_dec_check_mono: "base64_dec_check src j n = Inr m \<Longrightarrow> n \<le> m"
  by (induction src j n rule: base64_dec_check.induct)
     (auto simp: base64_dec_check.simps(2) Let_def split: if_splits)

lemma base64_dec_check_step:
  assumes "base64_dec_check (c # src) j n = Inr m"
  obtains (brk) "c = 13 \<or> c = 10" "base64_dec_check src j n = Inr m"
    | (chr) j' where "c \<noteq> 13" "c \<noteq> 10" "unat c < length base64_dec_map" "base64_dec_check src j' (n + 1) = Inr m"
proof -
  have dm: "base64_dec_map ! 13 = 127" by (simp add: base64_dec_map_def)
  have le: "\<not> c > 127 \<Longrightarrow> unat c < 128" by (simp add: not_less word_le_nat_alt)
  have "c = 13 \<or> c = 10 \<Longrightarrow> base64_dec_check src j n = Inr m"
    using assms by (auto simp: base64_dec_check.simps(2) Let_def dm split: if_splits)
  moreover have "unat c < length base64_dec_map \<and> (\<exists>j'. base64_dec_check src j' (n + 1) = Inr m)"
    if "c \<noteq> 13" "c \<noteq> 10"
    using assms that by (auto simp: base64_dec_check.simps(2) Let_def le split: if_splits)
  ultimately show thesis using brk chr by blast
qed

lemma base64_group_length:
  assumes "c \<noteq> 13" "c \<noteq> 10"
  shows "\<exists>j' x'. length (base64_dec_loop (c # src) j 3 x) \<le> 3 + length (base64_dec_loop src j' 0 x')"
proof -
  define j' where "j' = (if base64_dec_map ! unat c = 64 then j - 1 else j)"
  define x' where "x' = (push_bit 6 x OR ucast (base64_dec_map ! unat c AND 0x3F) :: u32)"
  have "base64_dec_loop (c # src) j 3 x =
      (if j' > 0 then [ucast (drop_bit 16 x')] else []) @ (if j' > 1 then [ucast (drop_bit 8 x')] else []) @
      (if j' > 2 then [ucast x'] else []) @ base64_dec_loop src j' 0 x'"
    using assms unfolding base64_dec_loop.simps(2) Let_def j'_def x'_def by simp
  then have "length (base64_dec_loop (c # src) j 3 x) \<le> 3 + length (base64_dec_loop src j' 0 x')"
    by simp
  then show ?thesis by blast
qed

lemma length_base64_dec_loop:
  assumes "base64_dec_check src j n = Inr m" "k < 4"
  shows "length (base64_dec_loop src j' k x) \<le> 3 * ((k + (m - n)) div 4)"
  using assms
proof (induction src arbitrary: j n j' k x)
  case (Cons c src)
  from Cons.prems(1) show ?case
  proof (cases rule: base64_dec_check_step)
    case brk
    with Cons.IH [OF brk(2) Cons.prems(2)] show ?thesis by (simp add: base64_dec_loop.simps(2))
  next
    case (chr i)
    have mn: "n + 1 \<le> m" using base64_dec_check_mono [OF chr(4)] .
    show ?thesis
    proof (cases "k = 3")
      case True
      have "k + (m - n) = m - (n + 1) + 4" using True mn by simp
      then have "(k + (m - n)) div 4 = (m - (n + 1)) div 4 + 1" by simp
      moreover obtain j'' x' where "length (base64_dec_loop (c # src) j' 3 x) \<le> 3 + length (base64_dec_loop src j'' 0 x')"
        using base64_group_length [OF chr(1,2), of src j' x] by blast
      moreover have "length (base64_dec_loop src j'' 0 x') \<le> 3 * ((m - (n + 1)) div 4)"
        using Cons.IH [OF chr(4), of 0 j'' x'] by simp
      ultimately show ?thesis unfolding True by (simp only: distrib_left)
    next
      case False
      then have k: "k + 1 < 4" using Cons.prems(2) by simp
      have "k + (m - n) = k + 1 + (m - (n + 1))" using mn by simp
      then show ?thesis
        using chr(1,2) False Cons.IH [OF chr(4) k] by (simp add: base64_dec_loop.simps(2) Let_def)
    qed
  qed
qed simp

section \<open>Properties\<close>

text \<open>C22: For a non-empty buffer, encoding with room for the result and its terminator and decoding
  the characters with room for three bytes per four characters returns exactly the buffer, and
  \<open>*dlen\<close> is its length.\<close>

theorem base64_roundtrip:
  assumes "src \<noteq> []" "4 * ((length src + 2) div 3) < dlen" "3 * ((length src + 2) div 3) \<le> dlen'"
  shows "\<exists>enc. base64_encode dlen src = Inr (4 * ((length src + 2) div 3), enc)
      \<and> base64_decode dlen' enc = Inr (length src, src)"
proof -
  let ?g = "(length src + 2) div 3"
  have g: "?g > 0" using assms(1) by (cases src) simp_all
  have "base64_encode dlen src = Inr (4 * ?g, base64_enc_loop src)"
    using assms(1,2) by (simp add: base64_encode_def base64_enc_size_eq Let_def length_base64_enc_loop)
  moreover have "(4 * ?g * 6 + 7) div 8 = 3 * ?g" by simp
  then have "base64_decode dlen' (base64_enc_loop src) = Inr (length src, src)"
    using g assms(3) by (simp add: base64_decode_def base64_check_encoded length_base64_enc_loop
        Let_def base64_decode_encoded)
  ultimately show ?thesis by blast
qed

theorem base64_roundtrip_witness:
  "\<exists>enc. base64_encode 9 [0x14, 0xfb, 0x9c, 0x03] = Inr (8, enc)
      \<and> base64_decode 6 enc = Inr (length [0x14::byte, 0xfb, 0x9c, 0x03], [0x14, 0xfb, 0x9c, 0x03])"
  using base64_roundtrip [of "[0x14, 0xfb, 0x9c, 0x03]" 9 6] by simp

text \<open>Encoding a non-empty buffer either has room for all characters and the terminating zero,
  writes exactly the number of characters computed in advance and reports it, or writes nothing and
  reports the size needed; a retry with the reported size succeeds.\<close>

theorem base64_encode_exact:
  assumes "src \<noteq> []"
  shows "(\<exists>enc. base64_encode dlen src = Inr (length enc, enc) \<and> length enc = base64_enc_size (length src)
        \<and> length enc < dlen)
    \<or> (\<exists>need. base64_encode dlen src = Inl (POLARSSL_ERR_BASE64_BUFFER_TOO_SMALL, need) \<and> dlen < need
        \<and> (\<exists>enc. base64_encode need src = Inr (length enc, enc) \<and> length enc + 1 = need))"
  using assms
  by (auto simp: base64_encode_def Let_def base64_enc_size_eq length_base64_enc_loop)

theorem base64_encode_exact_witness:
  "(\<exists>enc. base64_encode 4 [1, 2] = Inr (length enc, enc) \<and> length enc = base64_enc_size (length [1::byte, 2])
        \<and> length enc < 4)
    \<or> (\<exists>need. base64_encode 4 [1, 2] = Inl (POLARSSL_ERR_BASE64_BUFFER_TOO_SMALL, need) \<and> 4 < need
        \<and> (\<exists>enc. base64_encode need [1, 2] = Inr (length enc, enc) \<and> length enc + 1 = need))"
  by (rule base64_encode_exact) simp

text \<open>C23: Decoding never writes past the output buffer: whatever the input, a call that succeeds has
  written at most \<open>*dlen\<close> bytes, and reports the number written unless the input holds no character
  that counts.\<close>

theorem base64_decode_bounded:
  assumes "base64_decode dlen src = Inr (n, out)"
  shows "length out \<le> dlen \<and> (n = length out \<or> out = [] \<and> n = dlen)"
proof (cases "base64_dec_check src 0 0")
  case (Inr m)
  have "length (base64_dec_loop src 3 0 0) \<le> 3 * (m div 4)"
    using length_base64_dec_loop [OF Inr, of 0] by simp
  also have "\<dots> \<le> (m * 6 + 7) div 8" by linarith
  finally show ?thesis
    using assms by (auto simp: base64_decode_def Inr Let_def split: if_splits)
qed (use assms in \<open>simp add: base64_decode_def\<close>)

theorem base64_decode_bounded_witness:
  "length [1::byte] \<le> 3 \<and> (1 = length [1::byte] \<or> [1::byte] = [] \<and> 1 = (3::nat))"
proof (rule base64_decode_bounded)
  show "base64_decode 3 [65, 81, 61, 61] = Inr (1, [1])"
    by (simp add: base64_decode_def base64_dec_check.simps base64_dec_loop.simps base64_dec_map_def)
qed

end
