(* ===== verification/Md_Stream.thy ===== *)
theory Md_Stream
  imports Blm_Prelude
begin

unbundle bit_operations_syntax

text \<open>
  What \<open>md5.c\<close> and \<open>sha1.c\<close> of polarssl share: the context both declare with the same fields, the
  buffering of \<open>md5_update\<close> and \<open>sha1_update\<close> (the same text over another block function), and the
  contract between a digest and its clients as a locale. \<open>absorbed\<close> relates a context to the message
  it has read; a digest that keeps it is independent of how a message is cut into calls, and HMAC over
  it is the nested construction of RFC 2104.
\<close>

section \<open>Contexts and buffering\<close>

text \<open>\<open>md5_context\<close> and \<open>sha1_context\<close>: \<open>total[2]\<close>, \<open>state[]\<close>, \<open>buffer[64]\<close>, \<open>ipad[64]\<close>, \<open>opad[64]\<close>.\<close>

record md_context =
  total0 :: u32
  total1 :: u32
  md_state :: "u32 list"
  md_buffer :: bytes
  ipad :: bytes
  opad :: bytes

text \<open>\<open>memcpy\<close> of \<open>src\<close> to the offset \<open>off\<close> of an array.\<close>

definition memcpy_at :: "bytes \<Rightarrow> nat \<Rightarrow> bytes \<Rightarrow> bytes" where
  "memcpy_at buf off src = take off buf @ src @ drop (off + length src) buf"

text \<open>The loop over whole blocks; \<open>process\<close> is the block function on the state words. The result is
  the state and the bytes that are left.\<close>

function md_loop :: "(u32 list \<Rightarrow> bytes \<Rightarrow> u32 list) \<Rightarrow> u32 list \<Rightarrow> bytes \<Rightarrow> u32 list \<times> bytes" where
  "md_loop process st input =
     (if length input \<ge> 64 then md_loop process (process st (take 64 input)) (drop 64 input)
      else (st, input))"
  by pat_completeness auto
termination by (relation "measure (\<lambda>(p, st, input). length input)") auto

declare md_loop.simps [simp del]

definition md_update :: "(u32 list \<Rightarrow> bytes \<Rightarrow> u32 list) \<Rightarrow> md_context \<Rightarrow> bytes \<Rightarrow> md_context" where
  "md_update process ctx input =
     (let ilen = length input in
      if ilen = 0 then ctx
      else
        let left = unat (total0 ctx AND 0x3F);
            fill = 64 - left;
            ctx = ctx\<lparr>total0 := total0 ctx + of_nat ilen\<rparr>;
            ctx = (if total0 ctx < of_nat ilen then ctx\<lparr>total1 := total1 ctx + 1\<rparr> else ctx);
            (ctx, input, left) =
              (if left \<noteq> 0 \<and> ilen \<ge> fill then
                 let ctx = ctx\<lparr>md_buffer := memcpy_at (md_buffer ctx) left (take fill input)\<rparr>;
                     ctx = ctx\<lparr>md_state := process (md_state ctx) (md_buffer ctx)\<rparr>
                 in (ctx, drop fill input, 0)
               else (ctx, input, left));
            (st, input) = md_loop process (md_state ctx) input;
            ctx = ctx\<lparr>md_state := st\<rparr>
        in if input \<noteq> [] then ctx\<lparr>md_buffer := memcpy_at (md_buffer ctx) left input\<rparr> else ctx)"

section \<open>The block loop\<close>

lemma md_loop_short [simp]: "length m < 64 \<Longrightarrow> md_loop f st m = (st, m)"
  by (subst md_loop.simps) simp

lemma md_loop_block: "length b = 64 \<Longrightarrow> md_loop f st (b @ m) = md_loop f (f st b) m"
  by (subst md_loop.simps) simp

lemma length_md_loop: "length (snd (md_loop f st m)) = length m mod 64"
proof (induction f st m rule: md_loop.induct)
  case (1 f st m)
  show ?case
  proof (cases "length m \<ge> 64")
    case True
    then show ?thesis using 1 by (subst md_loop.simps) (simp add: le_mod_geq)
  qed simp
qed

text \<open>Reading a message in two parts: the bytes the first part leaves come before the second.\<close>

lemma md_loop_append:
  "md_loop f st (m @ x) = (case md_loop f st m of (st', r) \<Rightarrow> md_loop f st' (r @ x))"
proof (induction f st m rule: md_loop.induct)
  case (1 f st m)
  show ?case
  proof (cases "length m \<ge> 64")
    case True
    then have "md_loop f st (m @ x) = md_loop f (f st (take 64 m)) (drop 64 m @ x)"
      by (subst md_loop.simps) simp
    also have "\<dots> = (case md_loop f (f st (take 64 m)) (drop 64 m) of (st', r) \<Rightarrow> md_loop f st' (r @ x))"
      using 1 True by simp
    also have "md_loop f (f st (take 64 m)) (drop 64 m) = md_loop f st m"
      using True by (subst (2) md_loop.simps) simp
    finally show ?thesis .
  qed simp
qed

section \<open>The message a context has read\<close>

definition md_absorbed :: "(u32 list \<Rightarrow> bytes \<Rightarrow> u32 list) \<Rightarrow> u32 list \<Rightarrow> md_context \<Rightarrow> bytes \<Rightarrow> bool" where
  "md_absorbed f init c m \<longleftrightarrow>
     length (md_buffer c) = 64 \<and>
     md_loop f init m = (md_state c, take (length m mod 64) (md_buffer c)) \<and>
     (unat (total1 c) * 2 ^ 32 + unat (total0 c)) = length m mod 2 ^ 64"

lemma md_absorbedD:
  assumes "md_absorbed f init c m"
  shows "length (md_buffer c) = 64" "md_loop f init m = (md_state c, take (length m mod 64) (md_buffer c))"
    "unat (total1 c) * 2 ^ 32 + unat (total0 c) = length m mod 2 ^ 64"
proof -
  note a = assms [unfolded md_absorbed_def]
  show "length (md_buffer c) = 64" by (rule a [THEN conjunct1])
  show "md_loop f init m = (md_state c, take (length m mod 64) (md_buffer c))"
    by (rule a [THEN conjunct2, THEN conjunct1])
  show "unat (total1 c) * 2 ^ 32 + unat (total0 c) = length m mod 2 ^ 64"
    by (rule a [THEN conjunct2, THEN conjunct2])
qed

lemma md_absorbedI:
  assumes "length (md_buffer c) = 64" "md_loop f init m = (md_state c, take (length m mod 64) (md_buffer c))"
    "unat (total1 c) * 2 ^ 32 + unat (total0 c) = length m mod 2 ^ 64"
  shows "md_absorbed f init c m"
  unfolding md_absorbed_def by (intro conjI assms)

lemma md_absorbed_total0:
  assumes "md_absorbed f init c m"
  shows "total0 c = of_nat (length m)"
proof -
  have "unat (total0 c) = (unat (total1 c) * 2 ^ 32 + unat (total0 c)) mod 2 ^ 32"
    using unsigned_less [of "total0 c", where 'a = nat] by simp
  also have "\<dots> = length m mod 2 ^ 32"
    using assms mod_mod_cancel [of "2 ^ 32 :: nat" "2 ^ 64" "length m"] by (simp add: md_absorbed_def)
  finally show ?thesis by (simp add: word_unat_eq_iff unat_of_nat take_bit_eq_mod)
qed

lemma mod64_word: "unat ((of_nat n :: u32) AND 0x3F) = n mod 64"
proof -
  have m: "(0x3F :: u32) = mask 6" by (simp add: mask_eq_exp_minus_1)
  have "unat ((of_nat n :: u32) AND 0x3F) = n mod 2 ^ 32 mod 64"
    unfolding m take_bit_eq_mask [symmetric]
    by (simp only: unsigned_take_bit_eq unat_of_nat) (simp add: take_bit_eq_mod)
  then show ?thesis using mod_mod_cancel [of "64 :: nat" "2 ^ 32" n] by simp
qed

text \<open>The two counter words count modulo \<open>2 ^ 64\<close>, for calls of less than \<open>2 ^ 32\<close> bytes.\<close>

definition md_count :: "u32 \<Rightarrow> u32 \<Rightarrow> nat \<Rightarrow> u32 \<times> u32" where
  "md_count t0 t1 n = (let t0' = t0 + of_nat n in (t0', if t0' < of_nat n then t1 + 1 else t1))"

lemma md_count_carry:
  assumes "n < 2 ^ 32"
  shows "(t0 + (of_nat n :: u32) < of_nat n) = (2 ^ 32 \<le> unat t0 + n)"
    and "unat (t0 + of_nat n) = (if 2 ^ 32 \<le> unat t0 + n then unat t0 + n - 2 ^ 32 else unat t0 + n)"
proof -
  have t0: "unat t0 < 2 ^ 32" using unsigned_less [of t0, where 'a = nat] by simp
  have n: "unat (of_nat n :: u32) = n" using assms by (simp add: unat_of_nat take_bit_eq_mod)
  have "unat (t0 + of_nat n) = (unat t0 + n) mod 2 ^ 32" using n by (simp add: unat_word_ariths)
  also have "\<dots> = (if 2 ^ 32 \<le> unat t0 + n then unat t0 + n - 2 ^ 32 else unat t0 + n)"
    using t0 assms by (simp add: le_mod_geq)
  finally show *: "unat (t0 + of_nat n) = \<dots>" .
  show "(t0 + (of_nat n :: u32) < of_nat n) = (2 ^ 32 \<le> unat t0 + n)"
    using t0 assms unfolding word_less_nat_alt * n by (simp, linarith)
qed

lemma unat_Suc_mod: "unat (t + 1 :: u32) * K + r = (unat t + 1) * K + r
    \<or> unat (t + 1 :: u32) * K + r + 2 ^ 32 * K = (unat t + 1) * K + r"
proof -
  have "unat (t + 1) = unat t + 1 \<or> unat (t + 1) + 2 ^ 32 = unat t + 1"
    using unsigned_less [of t, where 'a = nat] by (cases "unat t + 1 = 2 ^ 32") (auto simp: unat_word_ariths)
  then show ?thesis
  proof
    assume "unat (t + 1) + 2 ^ 32 = unat t + 1"
    then have "(unat (t + 1) + 2 ^ 32) * K = (unat t + 1) * K" by (rule arg_cong)
    then show ?thesis unfolding distrib_right by linarith
  qed simp
qed

lemma md_count_total:
  assumes "n < 2 ^ 32" "md_count t0 t1 n = (t0', t1')"
    and "unat t1 * 2 ^ 32 + unat t0 = len mod 2 ^ 64"
  shows "unat t1' * 2 ^ 32 + unat t0' = (len + n) mod 2 ^ 64"
proof -
  have lt: "unat t1' * 2 ^ 32 + unat t0' < 2 ^ 64"
    using unsigned_less [of t1', where 'a = nat] unsigned_less [of t0', where 'a = nat] by simp
  have "unat t1' * 2 ^ 32 + unat t0' = unat t1 * 2 ^ 32 + unat t0 + n
      \<or> unat t1' * 2 ^ 32 + unat t0' + 2 ^ 64 = unat t1 * 2 ^ 32 + unat t0 + n"
    using assms(2) unat_Suc_mod [of t1 "2 ^ 32" "unat t0'"] md_count_carry [OF assms(1), of t0]
    by (auto simp: md_count_def Let_def split: if_splits)
  then have "(unat t1' * 2 ^ 32 + unat t0') mod 2 ^ 64 = (len mod 2 ^ 64 + n) mod 2 ^ 64"
    unfolding assms(3) [symmetric] by (metis mod_add_self2)
  then show ?thesis using lt by (simp add: mod_add_left_eq)
qed

text \<open>\<open>md_update\<close> on a context that has read \<open>m\<close>: the counters, and the block loop on what the
  buffer holds followed by the input.\<close>

lemma memcpy_at_prefix: "off \<le> length buf \<Longrightarrow> take (off + length src) (memcpy_at buf off src) = take off buf @ src"
  by (simp add: memcpy_at_def)

lemma length_memcpy_at: "off + length src \<le> length buf \<Longrightarrow> length (memcpy_at buf off src) = length buf"
  by (simp add: memcpy_at_def)

lemma md_update_pads [simp]:
  "ipad (md_update f c x) = ipad c" "opad (md_update f c x) = opad c"
  by (simp_all add: md_update_def Let_def split: prod.split)

lemma md_update_counts:
  "x \<noteq> [] \<Longrightarrow> (total0 (md_update f c x), total1 (md_update f c x)) = md_count (total0 c) (total1 c) (length x)"
  by (simp add: md_update_def md_count_def Let_def split: prod.split)

lemma md_update_fill:
  assumes "x \<noteq> []" "unat (total0 c AND 0x3F) = left" "left \<noteq> 0" "64 - left \<le> length x"
    and "memcpy_at (md_buffer c) left (take (64 - left) x) = b"
    and "md_loop f (f (md_state c) b) (drop (64 - left) x) = (st, r)"
  shows "md_state (md_update f c x) = st" "md_buffer (md_update f c x) = (if r \<noteq> [] then memcpy_at b 0 r else b)"
  using assms by (cases "total0 c + of_nat (length x) < of_nat (length x)"; simp add: md_update_def Let_def)+

lemma md_update_nofill:
  assumes "x \<noteq> []" "unat (total0 c AND 0x3F) = left" "left = 0 \<or> length x < 64 - left"
    and "md_loop f (md_state c) x = (st, r)"
  shows "md_state (md_update f c x) = st"
    "md_buffer (md_update f c x) = (if r \<noteq> [] then memcpy_at (md_buffer c) left r else md_buffer c)"
  using assms(3) assms(1,2,4)
  by (elim disjE; cases "total0 c + of_nat (length x) < of_nat (length x)"; simp add: md_update_def Let_def)+

lemma md_update_buffer:
  assumes x: "x \<noteq> []" and left: "unat (total0 c AND 0x3F) = left" "left < 64" and len: "length (md_buffer c) = 64"
    and loop: "md_loop f (md_state c) (take left (md_buffer c) @ x) = (st, r)"
  shows "length (md_buffer (md_update f c x)) = 64 \<and> md_state (md_update f c x) = st
    \<and> take (length r) (md_buffer (md_update f c x)) = r"
proof -
  let ?r0 = "take left (md_buffer c)"
  have r: "length r < 64" using length_md_loop [of f "md_state c" "?r0 @ x"] by (simp add: loop)
  consider (fill) "left \<noteq> 0" "64 - left \<le> length x" | (short) "left \<noteq> 0" "length x < 64 - left" | (zero) "left = 0"
    by linarith
  then show ?thesis
  proof cases
    case fill
    let ?b = "?r0 @ take (64 - left) x"
    have b: "memcpy_at (md_buffer c) left (take (64 - left) x) = ?b"
      using fill left len by (simp add: memcpy_at_def)
    have lb: "length ?b = 64" using fill left len by simp
    have "md_loop f (f (md_state c) ?b) (drop (64 - left) x) = (st, r)"
      using loop md_loop_block [OF lb, of f "md_state c" "drop (64 - left) x"] by simp
    note upd = md_update_fill [OF x left(1) fill b this]
    have "length (memcpy_at ?b 0 r) = 64" using r lb by (simp only: length_memcpy_at)
    then show ?thesis unfolding upd using lb by (auto simp: memcpy_at_prefix [of 0, simplified])
  next
    case short
    then have "length (?r0 @ x) < 64" "md_loop f (md_state c) x = (st, x)" "r = ?r0 @ x" using left len loop by auto
    with md_update_nofill [OF x left(1) _ this(2)] show ?thesis
      using short x left len by (simp add: memcpy_at_def)
  next
    case zero
    then have "md_loop f (md_state c) x = (st, r)" using loop by simp
    from md_update_nofill [OF x left(1) _ this] show ?thesis
      using zero r len by (simp add: memcpy_at_def)
  qed
qed

lemma md_absorbed_update:
  assumes abs: "md_absorbed f init c m" and n: "length x < 2 ^ 32"
  shows "md_absorbed f init (md_update f c x) (m @ x)"
proof (cases "x = []")
  case False
  have left: "unat (total0 c AND 0x3F) = length m mod 64"
    unfolding md_absorbed_total0 [OF abs] by (rule mod64_word)
  obtain st r where loop: "md_loop f (md_state c) (take (length m mod 64) (md_buffer c) @ x) = (st, r)"
    by (rule prod.exhaust)
  have len: "length (md_buffer c) = 64"
    and loop0: "md_loop f init m = (md_state c, take (length m mod 64) (md_buffer c))"
    and tot: "unat (total1 c) * 2 ^ 32 + unat (total0 c) = length m mod 2 ^ 64"
    by (rule md_absorbedD [OF abs])+
  have lt: "length m mod 64 < 64" by simp
  note upd = md_update_buffer [OF False left lt len loop]
  have loop': "md_loop f init (m @ x) = (st, r)" 
    by (simp only: md_loop_append [of f init m x] loop0 prod.case loop)
  have "length r = length (m @ x) mod 64"
    using length_md_loop [of f init "m @ x"] unfolding loop' snd_conv .
  then have loop'': "md_loop f init (m @ x)
      = (md_state (md_update f c x), take (length (m @ x) mod 64) (md_buffer (md_update f c x)))"
    using loop' upd by metis
  have tot': "unat (total1 (md_update f c x)) * 2 ^ 32 + unat (total0 (md_update f c x))
      = (length (m @ x)) mod 2 ^ 64"
    unfolding length_append by (rule md_count_total [OF n md_update_counts [OF False, symmetric] tot])
  show ?thesis using upd loop'' tot' by (intro md_absorbedI) blast+
qed (use abs in \<open>simp add: md_update_def\<close>)

section \<open>Padding\<close>

text \<open>The padding of RFC 1321 and FIPS 180: a byte \<open>0x80\<close>, zeros up to 8 bytes before a block
  boundary, and the length of the message in bits as a 64-bit number in the byte order \<open>enc\<close>.\<close>

definition md_pad :: "(64 word \<Rightarrow> bytes) \<Rightarrow> bytes \<Rightarrow> bytes" where
  "md_pad enc m = m @ 0x80 # replicate ((119 - length m mod 64) mod 64) 0 @ enc (of_nat (8 * length m))"

definition le64 :: "64 word \<Rightarrow> bytes" where
  "le64 w = map (\<lambda>i. ucast (drop_bit (8 * i) w)) [0..<8]"

definition be64 :: "64 word \<Rightarrow> bytes" where
  "be64 w = rev (le64 w)"

text \<open>The digest of a message: the block function over the padded message from the initial state.\<close>

definition md_digest :: "(u32 list \<Rightarrow> bytes \<Rightarrow> u32 list) \<Rightarrow> u32 list \<Rightarrow> (64 word \<Rightarrow> bytes)
    \<Rightarrow> (u32 list \<Rightarrow> bytes) \<Rightarrow> bytes \<Rightarrow> bytes" where
  "md_digest f init enc out m = out (fst (md_loop f init (md_pad enc m)))"

text \<open>The number of padding bytes before the length field, as both \<open>finish\<close> functions compute it.\<close>

definition md_padn :: "nat \<Rightarrow> nat" where
  "md_padn l = (if l < 56 then 56 - l else 120 - l)"

lemma take_padding:
  assumes "l < 64"
  shows "take (md_padn l) (0x80 # replicate 63 0) = 0x80 # replicate ((119 - l) mod 64) (0 :: byte)"
proof -
  have "l < 56 \<Longrightarrow> (119 - l) mod 64 = 55 - l" by (simp add: le_mod_geq)
  then show ?thesis
    using assms by (cases "l < 56") (simp_all add: md_padn_def take_Cons' min_def)
qed

lemma le64_words:
  "le64 (push_bit 32 (ucast h) OR ucast (l :: u32)) = PUT_UINT32_LE l @ PUT_UINT32_LE h"
  by (simp add: le64_def PUT_UINT32_LE_def upt_eval;
      intro conjI byte_eqI; auto simp: bit_simps dest: bit_imp_le_length)

text \<open>The length field: three bits of the low counter word go into the high word of the bit count.\<close>

lemma md_bitcount:
  assumes "unat t1 * 2 ^ 32 + unat t0 = n mod 2 ^ 64"
  shows "(of_nat (8 * n) :: 64 word) =
    push_bit 32 (ucast (drop_bit 29 t0 OR push_bit 3 t1 :: u32)) OR ucast (push_bit 3 t0 :: u32)"
proof -
  have "(of_nat n :: 64 word) = of_nat (n mod 2 ^ 64)"
    by (rule word_unat_eq_iff [THEN iffD2]) (simp add: unat_of_nat take_bit_eq_mod)
  also have "\<dots> = of_nat (unat t1 * 2 ^ 32 + unat t0)" unfolding assms ..
  also have "\<dots> = push_bit 32 (ucast t1) + ucast t0"
    by (simp add: push_bit_eq_mult of_nat_unat)
  also have "\<dots> = push_bit 32 (ucast t1) OR ucast t0"
    by (rule disjunctive_add) (auto simp: bit_simps dest: bit_imp_le_length)
  finally have "(of_nat (8 * n) :: 64 word) = push_bit 3 (push_bit 32 (ucast t1) OR ucast t0)"
    by (simp add: push_bit_eq_mult)
  also have "\<dots> = push_bit 32 (ucast (drop_bit 29 t0 OR push_bit 3 t1)) OR ucast (push_bit 3 t0)"
    by (rule bit_word_eqI) (auto simp: bit_simps)
  finally show ?thesis .
qed

lemma md_finish_state:
  assumes abs: "md_absorbed f init c m" and pad: "padding = 0x80 # replicate 63 0"
    and l: "l = unat (total0 c AND 0x3F)" and enc: "enc (of_nat (8 * length m)) = msglen" "length msglen = 8"
  shows "md_absorbed f init (md_update f (md_update f c (take (md_padn l) padding)) msglen) (md_pad enc m)"
proof -
  have l64: "l = length m mod 64" unfolding l md_absorbed_total0 [OF abs] by (rule mod64_word)
  have "md_absorbed f init (md_update f c (take (md_padn l) padding)) (m @ take (md_padn l) padding)"
    using abs by (rule md_absorbed_update) (simp add: pad)
  then have "md_absorbed f init (md_update f (md_update f c (take (md_padn l) padding)) msglen)
      ((m @ take (md_padn l) padding) @ msglen)"
    by (rule md_absorbed_update) (simp add: enc)
  then show ?thesis unfolding md_pad_def enc by (simp add: pad l64 take_padding del: take_Suc_Cons)
qed

lemma md_absorbed_state: "md_absorbed f init c m \<Longrightarrow> md_state c = fst (md_loop f init m)"
  using md_absorbedD(2) by (metis fst_conv)

section \<open>The contract of a digest\<close>

text \<open>A digest reads a message in calls of less than \<open>2 ^ 32\<close> bytes. \<open>wf\<close> is what holds of any
  context, initialised or not; \<open>absorbed c m\<close> says that \<open>c\<close> has read \<open>m\<close>.\<close>

locale hash_stream =
  fixes starts :: "'c \<Rightarrow> 'c" and update :: "'c \<Rightarrow> bytes \<Rightarrow> 'c" and finish :: "'c \<Rightarrow> 'c \<times> bytes"
    and wf :: "'c \<Rightarrow> bool" and absorbed :: "'c \<Rightarrow> bytes \<Rightarrow> bool" and digest :: "bytes \<Rightarrow> bytes"
  assumes absorbed_starts: "wf c \<Longrightarrow> absorbed (starts c) []"
    and absorbed_update: "absorbed c m \<Longrightarrow> length x < 2 ^ 32 \<Longrightarrow> absorbed (update c x) (m @ x)"
    and finish_digest: "absorbed c m \<Longrightarrow> snd (finish c) = digest m"
    and finish_wf: "absorbed c m \<Longrightarrow> wf (fst (finish c))"
begin

lemma absorbed_chunks:
  "absorbed c m \<Longrightarrow> \<forall>x \<in> set xs. length x < 2 ^ 32 \<Longrightarrow>
   absorbed (fold (\<lambda>x c. update c x) xs c) (m @ concat xs)"
proof (induction xs arbitrary: c m)
  case (Cons x xs)
  then have "absorbed (update c x) (m @ x)" by (intro absorbed_update) simp_all
  from Cons.IH [OF this] Cons.prems(2) show ?case by simp
qed simp

lemma digest_chunks:
  assumes "wf c" "\<forall>x \<in> set xs. length x < 2 ^ 32"
  shows "snd (finish (fold (\<lambda>x c. update c x) xs (starts c))) = digest (concat xs)"
  using finish_digest [OF absorbed_chunks [OF absorbed_starts [OF assms(1)] assms(2)]] by simp

end

text \<open>A digest whose context also carries the two HMAC pads, which nothing but the key setup changes.\<close>

locale hmac_stream = hash_stream starts update finish wf absorbed digest
  for starts :: "'c \<Rightarrow> 'c" and update :: "'c \<Rightarrow> bytes \<Rightarrow> 'c" and finish :: "'c \<Rightarrow> 'c \<times> bytes"
    and wf :: "'c \<Rightarrow> bool" and absorbed :: "'c \<Rightarrow> bytes \<Rightarrow> bool" and digest :: "bytes \<Rightarrow> bytes" +
  fixes pad_i :: "'c \<Rightarrow> bytes" and pad_o :: "'c \<Rightarrow> bytes"
  assumes pads_starts: "pad_i (starts c) = pad_i c" "pad_o (starts c) = pad_o c"
    and pads_update: "pad_i (update c x) = pad_i c" "pad_o (update c x) = pad_o c"
    and pads_finish: "pad_i (fst (finish c)) = pad_i c" "pad_o (fst (finish c)) = pad_o c"
    and digest_short: "length (digest m) < 2 ^ 32"
begin

lemma pads_chunks:
  "pad_i (fold (\<lambda>x c. update c x) xs c) = pad_i c" "pad_o (fold (\<lambda>x c. update c x) xs c) = pad_o c"
  by (induction xs arbitrary: c) (simp_all add: pads_update)

text \<open>The final step of HMAC, on a context that has read the inner pad and the message.\<close>

lemma hmac_finish:
  assumes "absorbed c (pad_i c @ m)" "length (pad_o c) < 2 ^ 32" "finish c = (c', tmpbuf)"
  shows "snd (finish (update (update (starts c') (pad_o (starts c'))) tmpbuf))
    = digest (pad_o c @ digest (pad_i c @ m))"
proof -
  have t: "tmpbuf = digest (pad_i c @ m)" and p: "pad_o (starts c') = pad_o c" and w: "wf c'"
    using finish_digest [OF assms(1)] finish_wf [OF assms(1)] pads_finish(2) [of c] pads_starts(2) [of c']
    by (simp_all add: assms(3))
  have "absorbed (update (update (starts c') (pad_o c)) tmpbuf) (([] @ pad_o c) @ tmpbuf)"
    using absorbed_starts [OF w] assms(2) digest_short by (intro absorbed_update) (simp_all add: t)
  from finish_digest [OF this] show ?thesis by (simp add: p t)
qed

text \<open>The key setup, any number of calls with parts of the message, and the final step.\<close>

lemma hmac_chunks:
  assumes "wf c" "length (pad_i c) < 2 ^ 32" "length (pad_o c) < 2 ^ 32" "\<forall>x \<in> set xs. length x < 2 ^ 32"
    and "finish (fold (\<lambda>x c. update c x) xs (update (starts c) (pad_i (starts c)))) = (c', tmpbuf)"
  shows "snd (finish (update (update (starts c') (pad_o (starts c'))) tmpbuf))
    = digest (pad_o c @ digest (pad_i c @ concat xs))"
proof -
  let ?c = "fold (\<lambda>x c. update c x) xs (update (starts c) (pad_i (starts c)))"
  have p: "pad_i ?c = pad_i c" "pad_o ?c = pad_o c" by (simp_all add: pads_chunks pads_update pads_starts)
  have "absorbed (update (starts c) (pad_i c)) ([] @ pad_i c)"
    by (intro absorbed_update absorbed_starts assms)
  from absorbed_chunks [OF this assms(4)] have "absorbed ?c (pad_i ?c @ concat xs)"
    unfolding p by (simp add: pads_starts)
  from hmac_finish [OF this _ assms(5)] assms(3) show ?thesis by (simp add: p)
qed

end

section \<open>HMAC keys\<close>

text \<open>The loop that mixes a key into a pad of 64 equal bytes, and the block it makes: the key padded
  with zeros, xored byte by byte.\<close>

definition hmac_xor_key :: "bytes \<Rightarrow> bytes \<Rightarrow> bytes" where
  "hmac_xor_key key pad = fold (\<lambda>i pad. pad[i := pad ! i XOR key ! i]) [0..<length key] pad"

definition hmac_block :: "byte \<Rightarrow> bytes \<Rightarrow> bytes" where
  "hmac_block b key = map (\<lambda>k. b XOR k) (key @ replicate (64 - length key) 0)"

lemma hmac_xor_key_prefix:
  "n \<le> length key \<Longrightarrow> n \<le> length pad \<Longrightarrow>
   fold (\<lambda>i pad. pad[i := pad ! i XOR key ! i]) [0..<n] pad
     = map2 (XOR) (take n pad) (take n key) @ drop n pad"
proof (induction n)
  case (Suc n)
  have "(map2 (XOR) (take n pad) (take n key) @ drop n pad)[n := pad ! n XOR key ! n]
      = map2 (XOR) (take (Suc n) pad) (take (Suc n) key) @ drop (Suc n) pad"
    using Suc.prems by (simp add: take_Suc_conv_app_nth list_update_append Cons_nth_drop_Suc [symmetric])
  then show ?case using Suc by (simp add: nth_append)
qed simp

lemma hmac_xor_key_block:
  assumes "length key \<le> 64"
  shows "hmac_xor_key key (replicate 64 b) = hmac_block b key"
proof -
  have "map2 (XOR) (replicate (length key) b) key = map ((XOR) b) key" for key
    by (induction key) simp_all
  then show ?thesis
    unfolding hmac_xor_key_def using assms by (simp add: hmac_xor_key_prefix hmac_block_def min_def)
qed

lemma length_hmac_block [simp]: "length key \<le> 64 \<Longrightarrow> length (hmac_block b key) = 64"
  by (simp add: hmac_block_def)

end
