(* ===== verification/Md5.thy ===== *)
theory Md5
  imports Md_Stream
begin

unbundle bit_operations_syntax

text \<open>
  MD5 and HMAC-MD5 as \<open>third-party/polarssl/library/md5.c\<close> implements them. The unrolled block
  function is the loop of RFC 1321; a context that has read a message in any number of calls finishes
  with the digest of the padded message; HMAC is the nested digest of RFC 2104.
\<close>

section \<open>The block function\<close>

text \<open>The macros \<open>S\<close> and \<open>P\<close>. The registers \<open>A\<close>, \<open>B\<close>, \<open>C\<close>, \<open>D\<close> are the elements 0 to 3 of
  a list, and a use of \<open>P\<close> is the tuple of its arguments.\<close>

definition md5_S :: "u32 \<Rightarrow> nat \<Rightarrow> u32" where
  "md5_S x n = push_bit n x OR drop_bit (32 - n) (x AND 0xFFFFFFFF)"

type_synonym md5_step = "nat \<times> nat \<times> nat \<times> nat \<times> nat \<times> nat \<times> u32"

definition md5_P :: "(u32 \<Rightarrow> u32 \<Rightarrow> u32 \<Rightarrow> u32) \<Rightarrow> u32 list \<Rightarrow> md5_step \<Rightarrow> u32 list \<Rightarrow> u32 list" where
  "md5_P F X = (\<lambda>(a, b, c, d, k, s, t) V.
     (let V = V[a := V ! a + (F (V ! b) (V ! c) (V ! d) + X ! k + t)]
      in V[a := md5_S (V ! a) s + V ! b]))"

text \<open>The four definitions of the macro \<open>F\<close> and the sixteen steps under each.\<close>

definition md5_F1 :: "u32 \<Rightarrow> u32 \<Rightarrow> u32 \<Rightarrow> u32" where
  "md5_F1 x y z = z XOR (x AND (y XOR z))"

definition md5_F2 :: "u32 \<Rightarrow> u32 \<Rightarrow> u32 \<Rightarrow> u32" where
  "md5_F2 x y z = y XOR (z AND (x XOR y))"

definition md5_F3 :: "u32 \<Rightarrow> u32 \<Rightarrow> u32 \<Rightarrow> u32" where
  "md5_F3 x y z = x XOR y XOR z"

definition md5_F4 :: "u32 \<Rightarrow> u32 \<Rightarrow> u32 \<Rightarrow> u32" where
  "md5_F4 x y z = y XOR (x OR NOT z)"

definition md5_steps1 :: "md5_step list" where
  "md5_steps1 = [
     (0, 1, 2, 3, 0, 7, 0xD76AA478), (3, 0, 1, 2, 1, 12, 0xE8C7B756),
     (2, 3, 0, 1, 2, 17, 0x242070DB), (1, 2, 3, 0, 3, 22, 0xC1BDCEEE),
     (0, 1, 2, 3, 4, 7, 0xF57C0FAF), (3, 0, 1, 2, 5, 12, 0x4787C62A),
     (2, 3, 0, 1, 6, 17, 0xA8304613), (1, 2, 3, 0, 7, 22, 0xFD469501),
     (0, 1, 2, 3, 8, 7, 0x698098D8), (3, 0, 1, 2, 9, 12, 0x8B44F7AF),
     (2, 3, 0, 1, 10, 17, 0xFFFF5BB1), (1, 2, 3, 0, 11, 22, 0x895CD7BE),
     (0, 1, 2, 3, 12, 7, 0x6B901122), (3, 0, 1, 2, 13, 12, 0xFD987193),
     (2, 3, 0, 1, 14, 17, 0xA679438E), (1, 2, 3, 0, 15, 22, 0x49B40821)]"

definition md5_steps2 :: "md5_step list" where
  "md5_steps2 = [
     (0, 1, 2, 3, 1, 5, 0xF61E2562), (3, 0, 1, 2, 6, 9, 0xC040B340),
     (2, 3, 0, 1, 11, 14, 0x265E5A51), (1, 2, 3, 0, 0, 20, 0xE9B6C7AA),
     (0, 1, 2, 3, 5, 5, 0xD62F105D), (3, 0, 1, 2, 10, 9, 0x02441453),
     (2, 3, 0, 1, 15, 14, 0xD8A1E681), (1, 2, 3, 0, 4, 20, 0xE7D3FBC8),
     (0, 1, 2, 3, 9, 5, 0x21E1CDE6), (3, 0, 1, 2, 14, 9, 0xC33707D6),
     (2, 3, 0, 1, 3, 14, 0xF4D50D87), (1, 2, 3, 0, 8, 20, 0x455A14ED),
     (0, 1, 2, 3, 13, 5, 0xA9E3E905), (3, 0, 1, 2, 2, 9, 0xFCEFA3F8),
     (2, 3, 0, 1, 7, 14, 0x676F02D9), (1, 2, 3, 0, 12, 20, 0x8D2A4C8A)]"

definition md5_steps3 :: "md5_step list" where
  "md5_steps3 = [
     (0, 1, 2, 3, 5, 4, 0xFFFA3942), (3, 0, 1, 2, 8, 11, 0x8771F681),
     (2, 3, 0, 1, 11, 16, 0x6D9D6122), (1, 2, 3, 0, 14, 23, 0xFDE5380C),
     (0, 1, 2, 3, 1, 4, 0xA4BEEA44), (3, 0, 1, 2, 4, 11, 0x4BDECFA9),
     (2, 3, 0, 1, 7, 16, 0xF6BB4B60), (1, 2, 3, 0, 10, 23, 0xBEBFBC70),
     (0, 1, 2, 3, 13, 4, 0x289B7EC6), (3, 0, 1, 2, 0, 11, 0xEAA127FA),
     (2, 3, 0, 1, 3, 16, 0xD4EF3085), (1, 2, 3, 0, 6, 23, 0x04881D05),
     (0, 1, 2, 3, 9, 4, 0xD9D4D039), (3, 0, 1, 2, 12, 11, 0xE6DB99E5),
     (2, 3, 0, 1, 15, 16, 0x1FA27CF8), (1, 2, 3, 0, 2, 23, 0xC4AC5665)]"

definition md5_steps4 :: "md5_step list" where
  "md5_steps4 = [
     (0, 1, 2, 3, 0, 6, 0xF4292244), (3, 0, 1, 2, 7, 10, 0x432AFF97),
     (2, 3, 0, 1, 14, 15, 0xAB9423A7), (1, 2, 3, 0, 5, 21, 0xFC93A039),
     (0, 1, 2, 3, 12, 6, 0x655B59C3), (3, 0, 1, 2, 3, 10, 0x8F0CCC92),
     (2, 3, 0, 1, 10, 15, 0xFFEFF47D), (1, 2, 3, 0, 1, 21, 0x85845DD1),
     (0, 1, 2, 3, 8, 6, 0x6FA87E4F), (3, 0, 1, 2, 15, 10, 0xFE2CE6E0),
     (2, 3, 0, 1, 6, 15, 0xA3014314), (1, 2, 3, 0, 13, 21, 0x4E0811A1),
     (0, 1, 2, 3, 4, 6, 0xF7537E82), (3, 0, 1, 2, 11, 10, 0xBD3AF235),
     (2, 3, 0, 1, 2, 15, 0x2AD7D2BB), (1, 2, 3, 0, 9, 21, 0xEB86D391)]"

definition md5_process :: "u32 list \<Rightarrow> bytes \<Rightarrow> u32 list" where
  "md5_process st data =
     (let X = map (\<lambda>i. GET_UINT32_LE data (4 * i)) [0..<16];
          V = [st ! 0, st ! 1, st ! 2, st ! 3];
          V = fold (md5_P md5_F1 X) md5_steps1 V;
          V = fold (md5_P md5_F2 X) md5_steps2 V;
          V = fold (md5_P md5_F3 X) md5_steps3 V;
          V = fold (md5_P md5_F4 X) md5_steps4 V
      in [st ! 0 + V ! 0, st ! 1 + V ! 1, st ! 2 + V ! 2, st ! 3 + V ! 3])"

section \<open>Digest and HMAC\<close>

definition md5_init :: "u32 list" where
  "md5_init = [0x67452301, 0xEFCDAB89, 0x98BADCFE, 0x10325476]"

definition md5_starts :: "md_context \<Rightarrow> md_context" where
  "md5_starts ctx = ctx\<lparr>total0 := 0, total1 := 0, md_state := md5_init\<rparr>"

definition md5_update :: "md_context \<Rightarrow> bytes \<Rightarrow> md_context" where
  "md5_update = md_update md5_process"

definition md5_padding :: bytes where
  "md5_padding =
    [0x80, 0, 0, 0, 0, 0, 0, 0, 0, 0, 0, 0, 0, 0, 0, 0,
     0, 0, 0, 0, 0, 0, 0, 0, 0, 0, 0, 0, 0, 0, 0, 0,
     0, 0, 0, 0, 0, 0, 0, 0, 0, 0, 0, 0, 0, 0, 0, 0,
     0, 0, 0, 0, 0, 0, 0, 0, 0, 0, 0, 0, 0, 0, 0, 0]"

definition md5_output :: "u32 list \<Rightarrow> bytes" where
  "md5_output st = PUT_UINT32_LE (st ! 0) @ PUT_UINT32_LE (st ! 1) @ PUT_UINT32_LE (st ! 2)
     @ PUT_UINT32_LE (st ! 3)"

text \<open>The result is the context left and the 16 bytes of output.\<close>

definition md5_finish :: "md_context \<Rightarrow> md_context \<times> bytes" where
  "md5_finish ctx =
     (let high = drop_bit 29 (total0 ctx) OR push_bit 3 (total1 ctx);
          low = push_bit 3 (total0 ctx);
          msglen = PUT_UINT32_LE low @ PUT_UINT32_LE high;
          l = unat (total0 ctx AND 0x3F);
          padn = md_padn l;
          ctx = md5_update ctx (take padn md5_padding);
          ctx = md5_update ctx msglen
      in (ctx, md5_output (md_state ctx)))"

text \<open>\<open>ctx0\<close> is what the local variable \<open>ctx\<close> holds before it is initialised.\<close>

definition md5 :: "md_context \<Rightarrow> bytes \<Rightarrow> bytes" where
  "md5 ctx0 input =
     (let ctx = md5_starts ctx0; ctx = md5_update ctx input in snd (md5_finish ctx))"

text \<open>The digest of a file. \<open>None\<close> is a file that cannot be opened; otherwise the parts that the
  calls of \<open>fread\<close> return and the value of \<open>ferror\<close> after the last. The result is the error, if
  any, and the output, if it was written.\<close>

datatype md5_file_error = POLARSSL_ERR_MD5_FILE_IO_ERROR

definition md5_file :: "md_context \<Rightarrow> (bytes list \<times> bool) option \<Rightarrow> md5_file_error option \<times> bytes option" where
  "md5_file ctx0 f =
     (case f of
        None \<Rightarrow> (Some POLARSSL_ERR_MD5_FILE_IO_ERROR, None)
      | Some (bufs, ferror) \<Rightarrow>
          let ctx = md5_starts ctx0;
              ctx = fold (\<lambda>buf ctx. md5_update ctx buf) bufs ctx;
              out = snd (md5_finish ctx)
          in (if ferror then Some POLARSSL_ERR_MD5_FILE_IO_ERROR else None, Some out))"

definition md5_hmac_starts :: "md_context \<Rightarrow> md_context \<Rightarrow> bytes \<Rightarrow> md_context" where
  "md5_hmac_starts ctx0 ctx key =
     (let key = (if length key > 64 then md5 ctx0 key else key);
          ctx = ctx\<lparr>ipad := replicate 64 0x36, opad := replicate 64 0x5C\<rparr>;
          ctx = ctx\<lparr>ipad := hmac_xor_key key (ipad ctx), opad := hmac_xor_key key (opad ctx)\<rparr>;
          ctx = md5_starts ctx
      in md5_update ctx (ipad ctx))"

definition md5_hmac_update :: "md_context \<Rightarrow> bytes \<Rightarrow> md_context" where
  "md5_hmac_update ctx input = md5_update ctx input"

definition md5_hmac_finish :: "md_context \<Rightarrow> md_context \<times> bytes" where
  "md5_hmac_finish ctx =
     (let (ctx, tmpbuf) = md5_finish ctx;
          ctx = md5_starts ctx;
          ctx = md5_update ctx (opad ctx);
          ctx = md5_update ctx tmpbuf
      in md5_finish ctx)"

definition md5_hmac_reset :: "md_context \<Rightarrow> md_context" where
  "md5_hmac_reset ctx = (let ctx = md5_starts ctx in md5_update ctx (ipad ctx))"

definition md5_hmac :: "md_context \<Rightarrow> md_context \<Rightarrow> bytes \<Rightarrow> bytes \<Rightarrow> bytes" where
  "md5_hmac ctx0 ctx key input =
     (let ctx = md5_hmac_starts ctx0 ctx key;
          ctx = md5_hmac_update ctx input
      in snd (md5_hmac_finish ctx))"

section \<open>The loop of RFC 1321\<close>

text \<open>The step \<open>i\<close> of the standard: its function, its message word, its rotation, then the four
  values move on by one place. \<open>T\<close> is the table of constants.\<close>

definition rfc_f :: "nat \<Rightarrow> u32 \<Rightarrow> u32 \<Rightarrow> u32 \<Rightarrow> u32" where
  "rfc_f i x y z =
     (if i < 16 then (x AND y) OR (NOT x AND z)
      else if i < 32 then (x AND z) OR (y AND NOT z)
      else if i < 48 then x XOR y XOR z
      else y XOR (x OR NOT z))"

definition rfc_k :: "nat \<Rightarrow> nat" where
  "rfc_k i = (if i < 16 then i else if i < 32 then (5 * i + 1) mod 16
     else if i < 48 then (3 * i + 5) mod 16 else (7 * i) mod 16)"

definition rfc_s :: "nat \<Rightarrow> nat" where
  "rfc_s i = [[7, 12, 17, 22], [5, 9, 14, 20], [4, 11, 16, 23], [6, 10, 15, 21]] ! (i div 16) ! (i mod 4)"

definition rfc_T :: "u32 list" where
  "rfc_T = map (\<lambda>(a, b, c, d, k, s, t). t) (md5_steps1 @ md5_steps2 @ md5_steps3 @ md5_steps4)"

definition rfc_step :: "u32 list \<Rightarrow> nat \<Rightarrow> u32 \<times> u32 \<times> u32 \<times> u32 \<Rightarrow> u32 \<times> u32 \<times> u32 \<times> u32" where
  "rfc_step X i = (\<lambda>(a, b, c, d).
     (d, b + word_rotl (rfc_s i) (a + rfc_f i b c d + X ! rfc_k i + rfc_T ! i), b, c))"

definition rfc_block :: "u32 list \<Rightarrow> bytes \<Rightarrow> u32 list" where
  "rfc_block st data =
     (let X = map (\<lambda>i. GET_UINT32_LE data (4 * i)) [0..<16];
          (a, b, c, d) = fold (rfc_step X) [0..<64] (st ! 0, st ! 1, st ! 2, st ! 3)
      in [st ! 0 + a, st ! 1 + b, st ! 2 + c, st ! 3 + d])"

section \<open>The unrolled code is the loop\<close>

lemma md5_S_rotl: "0 < n \<Longrightarrow> n < 32 \<Longrightarrow> md5_S x n = word_rotl n x"
  unfolding md5_S_def and_all_ones by (rule rotl_shifts)

lemma md5_F_rfc:
  "i < 16 \<Longrightarrow> md5_F1 = rfc_f i" "16 \<le> i \<Longrightarrow> i < 32 \<Longrightarrow> md5_F2 = rfc_f i"
  "32 \<le> i \<Longrightarrow> i < 48 \<Longrightarrow> md5_F3 = rfc_f i" "48 \<le> i \<Longrightarrow> md5_F4 = rfc_f i"
  by (intro ext; simp add: md5_F1_def md5_F2_def md5_F3_def md5_F4_def rfc_f_def;
      (rule bit_word_eqI)?; auto simp: bit_simps)+

text \<open>At step \<open>i\<close> the four values stand in the registers rotated by \<open>i\<close> places.\<close>

fun regs :: "nat \<Rightarrow> u32 \<times> u32 \<times> u32 \<times> u32 \<Rightarrow> u32 list" where
  "regs i (a, b, c, d) = rotate i [a, b, c, d]"

definition md5_role :: "nat \<Rightarrow> md5_step \<Rightarrow> bool" where
  "md5_role i = (\<lambda>(a, b, c, d, k, s, t).
     (a, b, c, d) = [(0, 1, 2, 3), (3, 0, 1, 2), (2, 3, 0, 1), (1, 2, 3, 0)] ! (i mod 4)
     \<and> k = rfc_k i \<and> s = rfc_s i \<and> 0 < s \<and> s < 32 \<and> t = rfc_T ! i)"

lemma md5_P_regs:
  assumes "0 < s" "s < 32"
  shows "md5_P F X (0, 1, 2, 3, k, s, t) [a, b, c, d] = [b + word_rotl s (a + F b c d + X ! k + t), b, c, d]"
    "md5_P F X (3, 0, 1, 2, k, s, t) [b, c, d, a] = [b, c, d, b + word_rotl s (a + F b c d + X ! k + t)]"
    "md5_P F X (2, 3, 0, 1, k, s, t) [c, d, a, b] = [c, d, b + word_rotl s (a + F b c d + X ! k + t), b]"
    "md5_P F X (1, 2, 3, 0, k, s, t) [d, a, b, c] = [d, b + word_rotl s (a + F b c d + X ! k + t), b, c]"
  using assms by (simp_all add: md5_P_def md5_S_rotl numeral_2_eq_2 numeral_3_eq_3 ac_simps)

lemma rotate_4:
  "rotate 0 [a, b, c, d] = [a, b, c, d]" "rotate 1 [a, b, c, d] = [b, c, d, a]"
  "rotate 2 [a, b, c, d] = [c, d, a, b]" "rotate 3 [a, b, c, d] = [d, a, b, c]"
  by (simp_all add: numeral_2_eq_2 numeral_3_eq_3)

lemma md5_P_step:
  assumes "md5_role i p" "F = rfc_f i"
  shows "md5_P F X p (regs i q) = regs (Suc i) (rfc_step X i q)"
proof -
  obtain a b c d where q: "q = (a, b, c, d)" by (cases q)
  have i4: "i mod 4 = 0 \<or> i mod 4 = 1 \<or> i mod 4 = 2 \<or> i mod 4 = 3" by linarith
  have rot: "rotate i xs = rotate (i mod 4) xs" "rotate (Suc i) xs = rotate (Suc (i mod 4) mod 4) xs"
    if "length xs = 4" for xs :: "u32 list"
    using rotate_conv_mod [of i xs] rotate_conv_mod [of "Suc i" xs] unfolding that mod_Suc_eq .
  obtain ra rb rc rd k s t where p: "p = (ra, rb, rc, rd, k, s, t)" by (cases p)
  have s: "0 < s" "s < 32" and k: "k = rfc_k i" "s = rfc_s i" "t = rfc_T ! i"
    and role: "(ra, rb, rc, rd) = [(0, 1, 2, 3), (3, 0, 1, 2), (2, 3, 0, 1), (1, 2, 3, 0)] ! (i mod 4)"
    using assms(1) unfolding md5_role_def p by blast+
  have "md5_P (rfc_f i) X p (rotate (i mod 4) [a, b, c, d])
      = rotate (Suc (i mod 4) mod 4) [d, b + word_rotl s (a + rfc_f i b c d + X ! k + t), b, c]"
    using i4
  proof (elim disjE)
    assume i: "i mod 4 = 0"
    show ?thesis using role by (simp add: i p rotate_4 md5_P_regs [OF s] del: One_nat_def)
  next
    assume i: "i mod 4 = 1"
    show ?thesis using role by (simp add: i p rotate_4 md5_P_regs [OF s] del: One_nat_def)
  next
    assume i: "i mod 4 = 2"
    show ?thesis using role by (simp add: i p rotate_4 md5_P_regs [OF s] del: One_nat_def)
  next
    assume i: "i mod 4 = 3"
    show ?thesis using role by (simp add: i p rotate_4 md5_P_regs [OF s] del: One_nat_def)
  qed
  then show ?thesis by (simp add: q rfc_step_def rot assms(2) del: rotate_Suc flip: k)
qed

lemma md5_fold_steps:
  assumes "list_all2 md5_role [i..<i + length ps] ps" "\<And>j. i \<le> j \<Longrightarrow> j < i + length ps \<Longrightarrow> F = rfc_f j"
  shows "fold (md5_P F X) ps (regs i q) = regs (i + length ps) (fold (rfc_step X) [i..<i + length ps] q)"
  using assms
proof (induction ps arbitrary: i q rule: list.induct)
  case (Cons p ps)
  have u: "[i..<i + length (p # ps)] = i # [Suc i..<Suc i + length ps]" by (simp add: upt_conv_Cons del: upt_Suc)
  have "md5_P F X p (regs i q) = regs (Suc i) (rfc_step X i q)"
    using Cons.prems unfolding u by (intro md5_P_step) simp_all
  then show ?case
    using Cons.prems Cons.IH [of "Suc i" "rfc_step X i q"] unfolding u by (simp del: upt_Suc)
qed simp

lemma md5_steps_role:
  "list_all2 md5_role [0..<16] md5_steps1" "list_all2 md5_role [16..<32] md5_steps2"
  "list_all2 md5_role [32..<48] md5_steps3" "list_all2 md5_role [48..<64] md5_steps4"
  by (simp_all add: md5_role_def rfc_k_def rfc_s_def rfc_T_def upt_eval
      md5_steps1_def md5_steps2_def md5_steps3_def md5_steps4_def)

lemma length_md5_steps [simp]:
  "length md5_steps1 = 16" "length md5_steps2 = 16" "length md5_steps3 = 16" "length md5_steps4 = 16"
  by (simp_all add: md5_steps1_def md5_steps2_def md5_steps3_def md5_steps4_def)

lemma md5_process_rfc: "md5_process st data = rfc_block st data"
proof -
  let ?X = "map (\<lambda>i. GET_UINT32_LE data (4 * i)) [0..<16]"
  let ?q = "(st ! 0, st ! 1, st ! 2, st ! 3)"
  have "fold (md5_P md5_F1 ?X) md5_steps1 (regs 0 ?q) = regs 16 (fold (rfc_step ?X) [0..<16] ?q)"
    using md5_fold_steps [of 0 md5_steps1 md5_F1] md5_steps_role(1) md5_F_rfc(1) by (simp del: regs.simps)
  moreover have "fold (md5_P md5_F2 ?X) md5_steps2 (regs 16 q) = regs 32 (fold (rfc_step ?X) [16..<32] q)" for q
    using md5_fold_steps [of 16 md5_steps2 md5_F2] md5_steps_role(2) md5_F_rfc(2) by simp
  moreover have "fold (md5_P md5_F3 ?X) md5_steps3 (regs 32 q) = regs 48 (fold (rfc_step ?X) [32..<48] q)" for q
    using md5_fold_steps [of 32 md5_steps3 md5_F3] md5_steps_role(3) md5_F_rfc(3) by simp
  moreover have "fold (md5_P md5_F4 ?X) md5_steps4 (regs 48 q) = regs 64 (fold (rfc_step ?X) [48..<64] q)" for q
    using md5_fold_steps [of 48 md5_steps4 md5_F4] md5_steps_role(4) md5_F_rfc(4) by simp
  moreover have "[0..<64] = [0..<16] @ [16..<32] @ [32..<48] @ [48..<64::nat]"
    using upt_add_eq_append [of 0 16 16] upt_add_eq_append [of 0 32 16] upt_add_eq_append [of 0 48 16] by simp
  ultimately show ?thesis
    by (simp add: md5_process_def rfc_block_def Let_def rotate_conv_mod [of 64] split: prod.split)
qed


section \<open>The contract\<close>

definition md5_wf :: "md_context \<Rightarrow> bool" where
  "md5_wf c \<longleftrightarrow> length (md_buffer c) = 64"

definition md5_absorbed :: "md_context \<Rightarrow> bytes \<Rightarrow> bool" where
  "md5_absorbed = md_absorbed md5_process md5_init"

text \<open>The digest of RFC 1321.\<close>

definition md5_digest :: "bytes \<Rightarrow> bytes" where
  "md5_digest = md_digest rfc_block md5_init le64 md5_output"

lemma md5_padding_eq: "md5_padding = 0x80 # replicate 63 0"
  by (simp add: md5_padding_def numeral_eq_Suc)

lemma md5_process_fun: "md5_process = rfc_block"
  by (intro ext) (rule md5_process_rfc)

lemma md5_absorbed_starts: "md5_wf c \<Longrightarrow> md5_absorbed (md5_starts c) []"
  by (simp add: md5_wf_def md5_absorbed_def md5_starts_def md_absorbed_def)

lemma md5_finish_absorbed:
  assumes "md5_absorbed c m"
  shows "md5_absorbed (fst (md5_finish c)) (md_pad le64 m)"
proof -
  have "le64 (of_nat (8 * length m)) = PUT_UINT32_LE (push_bit 3 (total0 c))
      @ PUT_UINT32_LE (drop_bit 29 (total0 c) OR push_bit 3 (total1 c))"
    unfolding md_bitcount [OF md_absorbedD(3) [OF assms [unfolded md5_absorbed_def]]] by (rule le64_words)
  from md_finish_state [OF assms [unfolded md5_absorbed_def] md5_padding_eq refl, of le64, OF this] show ?thesis
    by (simp add: md5_finish_def md5_update_def md5_absorbed_def Let_def)
qed

lemma md5_finish_output: "snd (md5_finish c) = md5_output (md_state (fst (md5_finish c)))"
  by (simp add: md5_finish_def Let_def)

lemma length_md5_output [simp]: "length (md5_output st) = 16"
  by (simp add: md5_output_def)

interpretation md5: hmac_stream md5_starts md5_update md5_finish md5_wf md5_absorbed md5_digest ipad opad
proof
  fix c m x
  show "md5_wf c \<Longrightarrow> md5_absorbed (md5_starts c) []" by (rule md5_absorbed_starts)
  show "md5_absorbed c m \<Longrightarrow> length x < 2 ^ 32 \<Longrightarrow> md5_absorbed (md5_update c x) (m @ x)"
    unfolding md5_absorbed_def md5_update_def by (rule md_absorbed_update)
  assume abs: "md5_absorbed c m"
  note fin = md5_finish_absorbed [OF abs, unfolded md5_absorbed_def]
  show "md5_wf (fst (md5_finish c))" unfolding md5_wf_def by (rule md_absorbedD(1) [OF fin])
  show "snd (md5_finish c) = md5_digest m"
    unfolding md5_finish_output md_absorbed_state [OF fin] md5_digest_def md_digest_def md5_process_fun ..
qed (simp_all add: md5_starts_def md5_update_def md5_finish_def Let_def md5_digest_def md_digest_def)

text \<open>The digest of a file read in parts is the digest of its contents.\<close>

lemma md5_file_digest:
  assumes "md5_wf ctx0" "\<forall>buf \<in> set bufs. length buf \<le> 1024"
  shows "md5_file ctx0 (Some (bufs, False)) = (None, Some (md5_digest (concat bufs)))"
proof -
  have "\<forall>buf \<in> set bufs. length buf < 2 ^ 32" using assms(2) by fastforce
  from md5.digest_chunks [OF assms(1) this] show ?thesis by (simp add: md5_file_def)
qed

section \<open>The empty message\<close>

text \<open>The four rounds on the one block of the padded empty message.\<close>

lemma md5_empty_rounds:
  "fold (md5_P md5_F1 [0x80, 0, 0, 0, 0, 0, 0, 0, 0, 0, 0, 0, 0, 0, 0, 0]) md5_steps1 md5_init =
     [0xF56C7CF1, 0xD6819C6A, 0x5AA53F75, 0x374943A7]"
  "fold (md5_P md5_F2 [0x80, 0, 0, 0, 0, 0, 0, 0, 0, 0, 0, 0, 0, 0, 0, 0]) md5_steps2 [0xF56C7CF1, 0xD6819C6A, 0x5AA53F75, 0x374943A7] =
     [0x13707036, 0xA2205F1F, 0x1C31C384, 0xAE7813DB]"
  "fold (md5_P md5_F3 [0x80, 0, 0, 0, 0, 0, 0, 0, 0, 0, 0, 0, 0, 0, 0, 0]) md5_steps3 [0x13707036, 0xA2205F1F, 0x1C31C384, 0xAE7813DB] =
     [0x3F55EDFD, 0xCA7D2DBD, 0x68D84EA2, 0x22A31F54]"
  "fold (md5_P md5_F4 [0x80, 0, 0, 0, 0, 0, 0, 0, 0, 0, 0, 0, 0, 0, 0, 0]) md5_steps4 [0x3F55EDFD, 0xCA7D2DBD, 0x68D84EA2, 0x22A31F54] =
     [0x7246FAD3, 0x14E45506, 0xFF4EA3EB, 0x6E10A476]"
  by (simp add: md5_P_def md5_steps1_def md5_F1_def md5_init_def md5_S_def,
      simp add: md5_P_def md5_steps2_def md5_F2_def md5_S_def,
      simp add: md5_P_def md5_steps3_def md5_F3_def md5_S_def,
      simp add: md5_P_def md5_steps4_def md5_F4_def md5_S_def)

lemma md5_empty_block:
  "md5_process md5_init (0x80 # replicate 63 0) = [0xD98C1DD4, 0x04B2008F, 0x980980E9, 0x7E42F8EC]"
proof -
  have "map (\<lambda>i. GET_UINT32_LE (0x80 # replicate 63 0) (4 * i)) [0..<16] = [0x80, 0, 0, 0, 0, 0, 0, 0, 0, 0, 0, 0, 0, 0, 0, 0]"
    by (simp add: GET_UINT32_LE_def upt_eval)
  moreover have "[md5_init ! 0, md5_init ! 1, md5_init ! 2, md5_init ! 3] = md5_init" by (simp add: md5_init_def)
  ultimately have "md5_process md5_init (0x80 # replicate 63 0)
      = map2 (+) md5_init [0x7246FAD3, 0x14E45506, 0xFF4EA3EB, 0x6E10A476]"
    unfolding md5_process_def by (simp only: Let_def md5_empty_rounds) (simp add: md5_init_def)
  then show ?thesis by (simp add: md5_init_def)
qed

lemma md5_digest_empty:
  "md5_digest [] = [0xD4, 0x1D, 0x8C, 0xD9, 0x8F, 0x00, 0xB2, 0x04, 0xE9, 0x80, 0x09, 0x98, 0xEC, 0xF8, 0x42, 0x7E]"
proof -
  have "[0, 0, 0, 0, 0, 0, 0, 0] = replicate 8 (0 :: byte)" by (simp add: numeral_eq_Suc)
  then have "md_pad le64 [] = 0x80 # replicate 63 0"
    using replicate_add [of 55 8 "0 :: byte"] by (simp add: md_pad_def le64_def upt_eval)
  then have "md_loop rfc_block md5_init (md_pad le64 []) = (rfc_block md5_init (0x80 # replicate 63 0), [])"
    using md_loop_block [of "0x80 # replicate 63 0" rfc_block md5_init "[]"] by simp
  then show ?thesis
    by (simp add: md5_digest_def md_digest_def md5_empty_block md5_output_def PUT_UINT32_LE_def flip: md5_process_fun)
qed

text \<open>A single call with \<open>2 ^ 32\<close> bytes is counted as one with none: the call's length is cut to 32
  bits before it is added.\<close>

lemma md5_update_4GiB_uncounted:
  "length x = 2 ^ 32 \<Longrightarrow> total0 (md5_update c x) = total0 c \<and> total1 (md5_update c x) = total1 c"
proof -
  assume l: "length x = 2 ^ 32"
  then have "x \<noteq> []" by auto
  moreover have "(of_nat (2 ^ 32) :: u32) = 0" by (simp add: word_of_nat_eq_0_iff)
  then have "md_count t0 t1 (2 ^ 32) = (t0, t1)" for t0 t1
    unfolding md_count_def by (simp only: Let_def add_0_right word_not_simps if_False)
  ultimately show "total0 (md5_update c x) = total0 c \<and> total1 (md5_update c x) = total1 c"
    using md_update_counts [of x md5_process c] unfolding md5_update_def l by simp
qed

section \<open>Properties\<close>

text \<open>The unrolled block function of the code computes the sixty-four step loop of RFC 1321: every
  use of the step macro has the registers, the message word and the rotation of the standard's step, and
  the shortened boolean functions agree with the standard's.\<close>

theorem md5_process_correct: "md5_process st data = rfc_block st data"
  by (rule md5_process_rfc)

text \<open>C25: However a message is cut into calls of less than 2^32 bytes, and whatever the context held
  before \<open>md5_starts\<close>, the digest is the one of RFC 1321 of the whole message: padding, the 64-bit
  length and the buffering between calls included.\<close>

theorem md5_chunks_correct:
  assumes "md5_wf ctx" "\<forall>x \<in> set xs. length x < 2 ^ 32"
  shows "snd (md5_finish (fold (\<lambda>x ctx. md5_update ctx x) xs (md5_starts ctx))) = md5_digest (concat xs)"
  using assms by (rule md5.digest_chunks)

theorem md5_chunks_correct_witness:
  "snd (md5_finish (fold (\<lambda>x ctx. md5_update ctx x) [[0x61], [0x62, 0x63]]
      (md5_starts \<lparr>total0 = 5, total1 = 6, md_state = [], md_buffer = replicate 64 7, ipad = [], opad = []\<rparr>)))
    = md5_digest (concat [[0x61], [0x62, 0x63]])"
  by (rule md5_chunks_correct) (simp_all add: md5_wf_def)

text \<open>HMAC-MD5 is the nested digest of RFC 2104, with a key of more than 64 bytes replaced by its
  digest.\<close>

theorem md5_hmac_correct:
  assumes "md5_wf ctx0" "md5_wf ctx" "length key < 2 ^ 32" "length input < 2 ^ 32"
  shows "md5_hmac ctx0 ctx key input =
    (let K = (if length key > 64 then md5_digest key else key)
     in md5_digest (hmac_block 0x5C K @ md5_digest (hmac_block 0x36 K @ input)))"
proof -
  let ?K = "if length key > 64 then md5_digest key else key"
  have "md5 ctx0 key = md5_digest key"
    using md5.digest_chunks [of ctx0 "[key]"] assms by (simp add: md5_def)
  then have K: "(if length key > 64 then md5 ctx0 key else key) = ?K" by simp
  have lK: "length ?K \<le> 64" by (simp add: md5_digest_def md_digest_def)
  let ?c = "ctx\<lparr>ipad := hmac_block 0x36 ?K, opad := hmac_block 0x5C ?K\<rparr>"
  have w: "md5_wf ?c" using assms(2) by (simp add: md5_wf_def)
  obtain c' t where fin: "md5_finish (md5_update (md5_update (md5_starts ?c) (ipad (md5_starts ?c))) input) = (c', t)"
    by fastforce
  have "md5_hmac ctx0 ctx key input = snd (md5_finish (md5_update (md5_update (md5_starts c') (opad (md5_starts c'))) t))"
    using fin lK unfolding md5_hmac_def md5_hmac_starts_def K
    by (simp add: Let_def md5_hmac_update_def md5_hmac_finish_def hmac_xor_key_block)
  also have "\<dots> = md5_digest (hmac_block 0x5C ?K @ md5_digest (hmac_block 0x36 ?K @ input))"
    using md5.hmac_chunks [OF w, of "[input]" c' t] fin lK assms(4) by simp
  finally show ?thesis by (simp add: Let_def)
qed

theorem md5_hmac_correct_witness:
  "md5_hmac \<lparr>total0 = 5, total1 = 6, md_state = [], md_buffer = replicate 64 7, ipad = [], opad = []\<rparr>
      \<lparr>total0 = 9, total1 = 1, md_state = [], md_buffer = replicate 64 8, ipad = [], opad = []\<rparr> (replicate 80 0xaa) [0x54] =
    (let K = (if length (replicate 80 (0xaa :: byte)) > 64 then md5_digest (replicate 80 0xaa) else replicate 80 0xaa)
     in md5_digest (hmac_block 0x5C K @ md5_digest (hmac_block 0x36 K @ [0x54])))"
  by (rule md5_hmac_correct) (simp_all add: md5_wf_def)

text \<open>The first test vector of RFC 1321: the digest of the empty message, whatever the local context
  held before.\<close>

theorem md5_empty_message:
  assumes "md5_wf ctx0"
  shows "md5 ctx0 [] = [0xD4, 0x1D, 0x8C, 0xD9, 0x8F, 0x00, 0xB2, 0x04, 0xE9, 0x80, 0x09, 0x98, 0xEC, 0xF8, 0x42, 0x7E]"
  using md5.digest_chunks [OF assms, of "[]"] by (simp add: md5_def md5_update_def md_update_def md5_digest_empty)

theorem md5_empty_message_witness:
  "md5 \<lparr>total0 = 5, total1 = 6, md_state = [], md_buffer = replicate 64 7, ipad = [], opad = []\<rparr> []
    = [0xD4, 0x1D, 0x8C, 0xD9, 0x8F, 0x00, 0xB2, 0x04, 0xE9, 0x80, 0x09, 0x98, 0xEC, 0xF8, 0x42, 0x7E]"
  by (rule md5_empty_message) (simp add: md5_wf_def)

end
