(* ===== verification/Sha1.thy ===== *)
theory Sha1
  imports Md_Stream
begin

unbundle bit_operations_syntax

text \<open>
  SHA-1 and HMAC-SHA-1 as \<open>third-party/polarssl/library/sha1.c\<close> implements them. The unrolled block
  function with its circular schedule of sixteen words is the eighty-step loop of FIPS 180-1; digest
  and HMAC meet the contract of \<open>hmac_stream\<close>.
\<close>

section \<open>The block function\<close>

text \<open>The macros \<open>S\<close>, \<open>R\<close> and \<open>P\<close>. The registers \<open>A\<close> to \<open>E\<close> are the elements 0 to 4 of a list;
  the last argument of \<open>P\<close> is a schedule word \<open>W[i]\<close> or the macro \<open>R(t)\<close>, which also writes the
  schedule.\<close>

definition sha1_S :: "u32 \<Rightarrow> nat \<Rightarrow> u32" where
  "sha1_S x n = push_bit n x OR drop_bit (32 - n) (x AND 0xFFFFFFFF)"

definition sha1_R :: "nat \<Rightarrow> u32 list \<Rightarrow> u32 list \<times> u32" where
  "sha1_R t Wd =
     (let temp = Wd ! ((t - 3) AND 0x0F) XOR Wd ! ((t - 8) AND 0x0F) XOR
                 Wd ! ((t - 14) AND 0x0F) XOR Wd ! (t AND 0x0F);
          v = sha1_S temp 1
      in (Wd[t AND 0x0F := v], v))"

datatype sha1_arg = W nat | R nat

fun sha1_arg_value :: "sha1_arg \<Rightarrow> u32 list \<Rightarrow> u32 list \<times> u32" where
  "sha1_arg_value (W i) Wd = (Wd, Wd ! i)"
| "sha1_arg_value (R t) Wd = sha1_R t Wd"

type_synonym sha1_step = "nat \<times> nat \<times> nat \<times> nat \<times> nat \<times> sha1_arg"

definition sha1_P :: "(u32 \<Rightarrow> u32 \<Rightarrow> u32 \<Rightarrow> u32) \<Rightarrow> u32 \<Rightarrow> sha1_step \<Rightarrow> u32 list \<times> u32 list
    \<Rightarrow> u32 list \<times> u32 list" where
  "sha1_P F K = (\<lambda>(a, b, c, d, e, x) (Wd, V).
     (let (Wd, v) = sha1_arg_value x Wd;
          V = V[e := V ! e + (sha1_S (V ! a) 5 + F (V ! b) (V ! c) (V ! d) + K + v)];
          V = V[b := sha1_S (V ! b) 30]
      in (Wd, V)))"

text \<open>The definitions of the macro \<open>F\<close> (the second and the fourth are the same) and the twenty steps
  under each.\<close>

definition sha1_F1 :: "u32 \<Rightarrow> u32 \<Rightarrow> u32 \<Rightarrow> u32" where
  "sha1_F1 x y z = z XOR (x AND (y XOR z))"

definition sha1_F2 :: "u32 \<Rightarrow> u32 \<Rightarrow> u32 \<Rightarrow> u32" where
  "sha1_F2 x y z = x XOR y XOR z"

definition sha1_F3 :: "u32 \<Rightarrow> u32 \<Rightarrow> u32 \<Rightarrow> u32" where
  "sha1_F3 x y z = (x AND y) OR (z AND (x OR y))"

definition sha1_steps1 :: "sha1_step list" where
  "sha1_steps1 = [
     (0, 1, 2, 3, 4, W 0), (4, 0, 1, 2, 3, W 1), (3, 4, 0, 1, 2, W 2), (2, 3, 4, 0, 1, W 3),
     (1, 2, 3, 4, 0, W 4), (0, 1, 2, 3, 4, W 5), (4, 0, 1, 2, 3, W 6), (3, 4, 0, 1, 2, W 7),
     (2, 3, 4, 0, 1, W 8), (1, 2, 3, 4, 0, W 9), (0, 1, 2, 3, 4, W 10), (4, 0, 1, 2, 3, W 11),
     (3, 4, 0, 1, 2, W 12), (2, 3, 4, 0, 1, W 13), (1, 2, 3, 4, 0, W 14), (0, 1, 2, 3, 4, W 15),
     (4, 0, 1, 2, 3, R 16), (3, 4, 0, 1, 2, R 17), (2, 3, 4, 0, 1, R 18), (1, 2, 3, 4, 0, R 19)]"

definition sha1_steps2 :: "sha1_step list" where
  "sha1_steps2 = [
     (0, 1, 2, 3, 4, R 20), (4, 0, 1, 2, 3, R 21), (3, 4, 0, 1, 2, R 22), (2, 3, 4, 0, 1, R 23),
     (1, 2, 3, 4, 0, R 24), (0, 1, 2, 3, 4, R 25), (4, 0, 1, 2, 3, R 26), (3, 4, 0, 1, 2, R 27),
     (2, 3, 4, 0, 1, R 28), (1, 2, 3, 4, 0, R 29), (0, 1, 2, 3, 4, R 30), (4, 0, 1, 2, 3, R 31),
     (3, 4, 0, 1, 2, R 32), (2, 3, 4, 0, 1, R 33), (1, 2, 3, 4, 0, R 34), (0, 1, 2, 3, 4, R 35),
     (4, 0, 1, 2, 3, R 36), (3, 4, 0, 1, 2, R 37), (2, 3, 4, 0, 1, R 38), (1, 2, 3, 4, 0, R 39)]"

definition sha1_steps3 :: "sha1_step list" where
  "sha1_steps3 = [
     (0, 1, 2, 3, 4, R 40), (4, 0, 1, 2, 3, R 41), (3, 4, 0, 1, 2, R 42), (2, 3, 4, 0, 1, R 43),
     (1, 2, 3, 4, 0, R 44), (0, 1, 2, 3, 4, R 45), (4, 0, 1, 2, 3, R 46), (3, 4, 0, 1, 2, R 47),
     (2, 3, 4, 0, 1, R 48), (1, 2, 3, 4, 0, R 49), (0, 1, 2, 3, 4, R 50), (4, 0, 1, 2, 3, R 51),
     (3, 4, 0, 1, 2, R 52), (2, 3, 4, 0, 1, R 53), (1, 2, 3, 4, 0, R 54), (0, 1, 2, 3, 4, R 55),
     (4, 0, 1, 2, 3, R 56), (3, 4, 0, 1, 2, R 57), (2, 3, 4, 0, 1, R 58), (1, 2, 3, 4, 0, R 59)]"

definition sha1_steps4 :: "sha1_step list" where
  "sha1_steps4 = [
     (0, 1, 2, 3, 4, R 60), (4, 0, 1, 2, 3, R 61), (3, 4, 0, 1, 2, R 62), (2, 3, 4, 0, 1, R 63),
     (1, 2, 3, 4, 0, R 64), (0, 1, 2, 3, 4, R 65), (4, 0, 1, 2, 3, R 66), (3, 4, 0, 1, 2, R 67),
     (2, 3, 4, 0, 1, R 68), (1, 2, 3, 4, 0, R 69), (0, 1, 2, 3, 4, R 70), (4, 0, 1, 2, 3, R 71),
     (3, 4, 0, 1, 2, R 72), (2, 3, 4, 0, 1, R 73), (1, 2, 3, 4, 0, R 74), (0, 1, 2, 3, 4, R 75),
     (4, 0, 1, 2, 3, R 76), (3, 4, 0, 1, 2, R 77), (2, 3, 4, 0, 1, R 78), (1, 2, 3, 4, 0, R 79)]"

definition sha1_process :: "u32 list \<Rightarrow> bytes \<Rightarrow> u32 list" where
  "sha1_process st data =
     (let Wd = map (\<lambda>i. GET_UINT32_BE data (4 * i)) [0..<16];
          V = [st ! 0, st ! 1, st ! 2, st ! 3, st ! 4];
          (Wd, V) = fold (sha1_P sha1_F1 0x5A827999) sha1_steps1 (Wd, V);
          (Wd, V) = fold (sha1_P sha1_F2 0x6ED9EBA1) sha1_steps2 (Wd, V);
          (Wd, V) = fold (sha1_P sha1_F3 0x8F1BBCDC) sha1_steps3 (Wd, V);
          (Wd, V) = fold (sha1_P sha1_F2 0xCA62C1D6) sha1_steps4 (Wd, V)
      in [st ! 0 + V ! 0, st ! 1 + V ! 1, st ! 2 + V ! 2, st ! 3 + V ! 3, st ! 4 + V ! 4])"

section \<open>Digest and HMAC\<close>

definition sha1_init :: "u32 list" where
  "sha1_init = [0x67452301, 0xEFCDAB89, 0x98BADCFE, 0x10325476, 0xC3D2E1F0]"

definition sha1_starts :: "md_context \<Rightarrow> md_context" where
  "sha1_starts ctx = ctx\<lparr>total0 := 0, total1 := 0, md_state := sha1_init\<rparr>"

definition sha1_update :: "md_context \<Rightarrow> bytes \<Rightarrow> md_context" where
  "sha1_update = md_update sha1_process"

definition sha1_padding :: bytes where
  "sha1_padding =
    [0x80, 0, 0, 0, 0, 0, 0, 0, 0, 0, 0, 0, 0, 0, 0, 0,
     0, 0, 0, 0, 0, 0, 0, 0, 0, 0, 0, 0, 0, 0, 0, 0,
     0, 0, 0, 0, 0, 0, 0, 0, 0, 0, 0, 0, 0, 0, 0, 0,
     0, 0, 0, 0, 0, 0, 0, 0, 0, 0, 0, 0, 0, 0, 0, 0]"

definition sha1_output :: "u32 list \<Rightarrow> bytes" where
  "sha1_output st = PUT_UINT32_BE (st ! 0) @ PUT_UINT32_BE (st ! 1) @ PUT_UINT32_BE (st ! 2)
     @ PUT_UINT32_BE (st ! 3) @ PUT_UINT32_BE (st ! 4)"

text \<open>The result is the context left and the 20 bytes of output.\<close>

definition sha1_finish :: "md_context \<Rightarrow> md_context \<times> bytes" where
  "sha1_finish ctx =
     (let high = drop_bit 29 (total0 ctx) OR push_bit 3 (total1 ctx);
          low = push_bit 3 (total0 ctx);
          msglen = PUT_UINT32_BE high @ PUT_UINT32_BE low;
          l = unat (total0 ctx AND 0x3F);
          padn = md_padn l;
          ctx = sha1_update ctx (take padn sha1_padding);
          ctx = sha1_update ctx msglen
      in (ctx, sha1_output (md_state ctx)))"

text \<open>\<open>ctx0\<close> is what the local variable \<open>ctx\<close> holds before it is initialised.\<close>

definition sha1 :: "md_context \<Rightarrow> bytes \<Rightarrow> bytes" where
  "sha1 ctx0 input =
     (let ctx = sha1_starts ctx0; ctx = sha1_update ctx input in snd (sha1_finish ctx))"

text \<open>The digest of a file. \<open>None\<close> is a file that cannot be opened; otherwise the parts that the
  calls of \<open>fread\<close> return and the value of \<open>ferror\<close> after the last. The result is the error, if
  any, and the output, if it was written.\<close>

datatype sha1_file_error = POLARSSL_ERR_SHA1_FILE_IO_ERROR

definition sha1_file :: "md_context \<Rightarrow> (bytes list \<times> bool) option \<Rightarrow> sha1_file_error option \<times> bytes option" where
  "sha1_file ctx0 f =
     (case f of
        None \<Rightarrow> (Some POLARSSL_ERR_SHA1_FILE_IO_ERROR, None)
      | Some (bufs, ferror) \<Rightarrow>
          let ctx = sha1_starts ctx0;
              ctx = fold (\<lambda>buf ctx. sha1_update ctx buf) bufs ctx;
              out = snd (sha1_finish ctx)
          in (if ferror then Some POLARSSL_ERR_SHA1_FILE_IO_ERROR else None, Some out))"

definition sha1_hmac_starts :: "md_context \<Rightarrow> md_context \<Rightarrow> bytes \<Rightarrow> md_context" where
  "sha1_hmac_starts ctx0 ctx key =
     (let key = (if length key > 64 then sha1 ctx0 key else key);
          ctx = ctx\<lparr>ipad := replicate 64 0x36, opad := replicate 64 0x5C\<rparr>;
          ctx = ctx\<lparr>ipad := hmac_xor_key key (ipad ctx), opad := hmac_xor_key key (opad ctx)\<rparr>;
          ctx = sha1_starts ctx
      in sha1_update ctx (ipad ctx))"

definition sha1_hmac_update :: "md_context \<Rightarrow> bytes \<Rightarrow> md_context" where
  "sha1_hmac_update ctx input = sha1_update ctx input"

definition sha1_hmac_finish :: "md_context \<Rightarrow> md_context \<times> bytes" where
  "sha1_hmac_finish ctx =
     (let (ctx, tmpbuf) = sha1_finish ctx;
          ctx = sha1_starts ctx;
          ctx = sha1_update ctx (opad ctx);
          ctx = sha1_update ctx tmpbuf
      in sha1_finish ctx)"

definition sha1_hmac_reset :: "md_context \<Rightarrow> md_context" where
  "sha1_hmac_reset ctx = (let ctx = sha1_starts ctx in sha1_update ctx (ipad ctx))"

definition sha1_hmac :: "md_context \<Rightarrow> md_context \<Rightarrow> bytes \<Rightarrow> bytes \<Rightarrow> bytes" where
  "sha1_hmac ctx0 ctx key input =
     (let ctx = sha1_hmac_starts ctx0 ctx key;
          ctx = sha1_hmac_update ctx input
      in snd (sha1_hmac_finish ctx))"

section \<open>The loop of FIPS 180-1\<close>

text \<open>The message schedule of the standard has eighty words.\<close>

function fips_W :: "(nat \<Rightarrow> u32) \<Rightarrow> nat \<Rightarrow> u32" where
  "fips_W M t = (if t < 16 then M t
     else word_rotl 1 (fips_W M (t - 3) XOR fips_W M (t - 8) XOR fips_W M (t - 14) XOR fips_W M (t - 16)))"
  by pat_completeness auto
termination by (relation "measure snd") auto

declare fips_W.simps [simp del]

definition fips_f :: "nat \<Rightarrow> u32 \<Rightarrow> u32 \<Rightarrow> u32 \<Rightarrow> u32" where
  "fips_f t x y z =
     (if t < 20 then (x AND y) OR (NOT x AND z)
      else if t < 40 then x XOR y XOR z
      else if t < 60 then (x AND y) OR (x AND z) OR (y AND z)
      else x XOR y XOR z)"

definition fips_K :: "nat \<Rightarrow> u32" where
  "fips_K t = (if t < 20 then 0x5A827999 else if t < 40 then 0x6ED9EBA1
     else if t < 60 then 0x8F1BBCDC else 0xCA62C1D6)"

type_synonym fips_state = "u32 \<times> u32 \<times> u32 \<times> u32 \<times> u32"

definition fips_step :: "(nat \<Rightarrow> u32) \<Rightarrow> nat \<Rightarrow> fips_state \<Rightarrow> fips_state" where
  "fips_step M t = (\<lambda>(a, b, c, d, e).
     (word_rotl 5 a + fips_f t b c d + e + fips_W M t + fips_K t, a, word_rotl 30 b, c, d))"

definition fips_block :: "u32 list \<Rightarrow> bytes \<Rightarrow> u32 list" where
  "fips_block st data =
     (let M = (\<lambda>t. GET_UINT32_BE data (4 * t));
          (a, b, c, d, e) = fold (fips_step M) [0..<80] (st ! 0, st ! 1, st ! 2, st ! 3, st ! 4)
      in [st ! 0 + a, st ! 1 + b, st ! 2 + c, st ! 3 + d, st ! 4 + e])"

section \<open>The unrolled code is the loop\<close>

lemma sha1_S_rotl: "0 < n \<Longrightarrow> n < 32 \<Longrightarrow> sha1_S x n = word_rotl n x"
  unfolding sha1_S_def and_all_ones by (rule rotl_shifts)

lemma sha1_F_fips:
  "t < 20 \<Longrightarrow> sha1_F1 = fips_f t" "20 \<le> t \<Longrightarrow> t < 40 \<Longrightarrow> sha1_F2 = fips_f t"
  "40 \<le> t \<Longrightarrow> t < 60 \<Longrightarrow> sha1_F3 = fips_f t" "60 \<le> t \<Longrightarrow> sha1_F2 = fips_f t"
  by (intro ext; simp add: sha1_F1_def sha1_F2_def sha1_F3_def fips_f_def;
      (rule bit_word_eqI)?; auto simp: bit_simps)+

text \<open>The circular schedule before step \<open>t\<close>: the last sixteen words computed.\<close>

definition sched :: "(nat \<Rightarrow> u32) \<Rightarrow> nat \<Rightarrow> u32 list \<Rightarrow> bool" where
  "sched M t Wd \<longleftrightarrow> length Wd = 16 \<and>
     (\<forall>u < max 16 t. max 16 t \<le> u + 16 \<longrightarrow> Wd ! (u mod 16) = fips_W M u)"

lemma sched_word: "sched M t Wd \<Longrightarrow> t < 16 \<Longrightarrow> sched M (Suc t) Wd \<and> Wd ! t = fips_W M t"
  by (auto simp: sched_def max_def split: if_splits)

lemma sched_R:
  assumes s: "sched M t Wd" and t: "16 \<le> t" and R: "sha1_R t Wd = (Wd', v)"
  shows "sched M (Suc t) Wd' \<and> v = fips_W M t"
proof -
  have w: "Wd ! (u mod 16) = fips_W M u" if "u < t" "t \<le> u + 16" for u
    using s t that by (simp add: sched_def max_def split: if_splits)
  have l: "length Wd = 16" using s by (simp add: sched_def)
  have "Wd ! (t mod 16) = fips_W M (t - 16)" using w [of "t - 16"] t by (simp add: le_mod_geq)
  then have v: "v = fips_W M t" and Wd': "Wd' = Wd[t mod 16 := v]"
    using R w [of "t - 3"] w [of "t - 8"] w [of "t - 14"] t
    by (auto simp: sha1_R_def Let_def and_mask_nat sha1_S_rotl fips_W.simps [of M t])
  have "Wd' ! (u mod 16) = fips_W M u" if "u < Suc t" "Suc t \<le> u + 16" for u
  proof (cases "u = t")
    case False
    then have "u < t" "t - u < 16" using that by simp_all
    then have "\<not> 16 dvd t - u" by (auto dest: dvd_imp_le)
    then have "u mod 16 \<noteq> t mod 16" using \<open>u < t\<close> mod_eq_dvd_iff_nat [of u t 16] by auto
    then show ?thesis using that False w [of u] by (simp add: Wd')
  qed (simp add: Wd' v l)
  then show ?thesis using v l t by (simp add: sched_def max_def Wd')
qed

fun regs5 :: "nat \<Rightarrow> fips_state \<Rightarrow> u32 list" where
  "regs5 i (a, b, c, d, e) = rotate i [a, b, c, d, e]"

definition sha1_role :: "nat \<Rightarrow> sha1_step \<Rightarrow> bool" where
  "sha1_role i = (\<lambda>(a, b, c, d, e, x).
     (a, b, c, d, e) = [(0, 1, 2, 3, 4), (4, 0, 1, 2, 3), (3, 4, 0, 1, 2), (2, 3, 4, 0, 1), (1, 2, 3, 4, 0)] ! (i mod 5)
     \<and> x = (if i < 16 then W i else R i))"

lemma rotate_5:
  "rotate 0 [a, b, c, d, e] = [a, b, c, d, e]" "rotate 1 [a, b, c, d, e] = [b, c, d, e, a]"
  "rotate 2 [a, b, c, d, e] = [c, d, e, a, b]" "rotate 3 [a, b, c, d, e] = [d, e, a, b, c]"
  "rotate 4 [a, b, c, d, e] = [e, a, b, c, d]"
  by (simp_all add: numeral_2_eq_2 numeral_3_eq_3 numeral_eq_Suc)

lemma sha1_P_regs:
  assumes "sha1_arg_value x Wd = (Wd', v)"
  shows "sha1_P F K (0, 1, 2, 3, 4, x) (Wd, [a, b, c, d, e]) =
      (Wd', [a, word_rotl 30 b, c, d, word_rotl 5 a + F b c d + e + v + K])"
    "sha1_P F K (4, 0, 1, 2, 3, x) (Wd, [b, c, d, e, a]) =
      (Wd', [word_rotl 30 b, c, d, word_rotl 5 a + F b c d + e + v + K, a])"
    "sha1_P F K (3, 4, 0, 1, 2, x) (Wd, [c, d, e, a, b]) =
      (Wd', [c, d, word_rotl 5 a + F b c d + e + v + K, a, word_rotl 30 b])"
    "sha1_P F K (2, 3, 4, 0, 1, x) (Wd, [d, e, a, b, c]) =
      (Wd', [d, word_rotl 5 a + F b c d + e + v + K, a, word_rotl 30 b, c])"
    "sha1_P F K (1, 2, 3, 4, 0, x) (Wd, [e, a, b, c, d]) =
      (Wd', [word_rotl 5 a + F b c d + e + v + K, a, word_rotl 30 b, c, d])"
  using assms by (simp_all add: sha1_P_def sha1_S_rotl numeral_2_eq_2 numeral_3_eq_3 numeral_eq_Suc [of "Num.Bit0 (Num.Bit0 Num.One)"] ac_simps)

lemma sha1_arg_sched:
  assumes "sched M i Wd" "sha1_arg_value (if i < 16 then W i else R i) Wd = (Wd', v)"
  shows "sched M (Suc i) Wd'" "v = fips_W M i"
  using assms sched_word [OF assms(1)] sched_R [OF assms(1)] by (auto split: if_splits)

lemma sha1_P_step:
  assumes "sha1_role i p" "F = fips_f i" "K = fips_K i" "sched M i Wd"
  shows "\<exists>Wd'. sha1_P F K p (Wd, regs5 i q) = (Wd', regs5 (Suc i) (fips_step M i q)) \<and> sched M (Suc i) Wd'"
proof -
  obtain a b c d e where q: "q = (a, b, c, d, e)" by (cases q)
  obtain ra rb rc rd re x where p: "p = (ra, rb, rc, rd, re, x)" by (cases p)
  have x: "x = (if i < 16 then W i else R i)"
    and role: "(ra, rb, rc, rd, re) = [(0, 1, 2, 3, 4), (4, 0, 1, 2, 3), (3, 4, 0, 1, 2), (2, 3, 4, 0, 1), (1, 2, 3, 4, 0)] ! (i mod 5)"
    using assms(1) unfolding sha1_role_def p by blast+
  obtain Wd' v where v: "sha1_arg_value x Wd = (Wd', v)" by fastforce
  note sch = sha1_arg_sched [OF assms(4) v [unfolded x]]
  have rot: "rotate i xs = rotate (i mod 5) xs" "rotate (Suc i) xs = rotate (Suc (i mod 5) mod 5) xs"
    if "length xs = 5" for xs :: "u32 list"
    using rotate_conv_mod [of i xs] rotate_conv_mod [of "Suc i" xs] unfolding that mod_Suc_eq .
  have i5: "i mod 5 = 0 \<or> i mod 5 = 1 \<or> i mod 5 = 2 \<or> i mod 5 = 3 \<or> i mod 5 = 4" by linarith
  have "sha1_P F K p (Wd, rotate (i mod 5) [a, b, c, d, e])
      = (Wd', rotate (Suc (i mod 5) mod 5) [word_rotl 5 a + F b c d + e + v + K, a, word_rotl 30 b, c, d])"
    using i5 role by (elim disjE) (simp_all add: p rotate_5 sha1_P_regs [OF v] del: One_nat_def)
  then show ?thesis using sch by (simp add: q fips_step_def rot assms(2,3) del: rotate_Suc)
qed

lemma sha1_fold_steps:
  assumes "list_all2 sha1_role [i..<i + length ps] ps"
    and "\<And>j. i \<le> j \<Longrightarrow> j < i + length ps \<Longrightarrow> F = fips_f j \<and> K = fips_K j" "sched M i Wd"
  shows "\<exists>Wd'. fold (sha1_P F K) ps (Wd, regs5 i q)
      = (Wd', regs5 (i + length ps) (fold (fips_step M) [i..<i + length ps] q)) \<and> sched M (i + length ps) Wd'"
  using assms
proof (induction ps arbitrary: i q Wd rule: list.induct)
  case (Cons p ps)
  have u: "[i..<i + length (p # ps)] = i # [Suc i..<Suc i + length ps]" by (simp add: upt_conv_Cons del: upt_Suc)
  obtain Wd' where "sha1_P F K p (Wd, regs5 i q) = (Wd', regs5 (Suc i) (fips_step M i q))" "sched M (Suc i) Wd'"
    using sha1_P_step [of i p F K M Wd q] Cons.prems unfolding u by auto
  then show ?case
    using Cons.prems Cons.IH [of "Suc i" Wd' "fips_step M i q"] unfolding u by (simp del: upt_Suc)
qed simp

lemma sha1_steps_role:
  "list_all2 sha1_role [0..<20] sha1_steps1" "list_all2 sha1_role [20..<40] sha1_steps2"
  "list_all2 sha1_role [40..<60] sha1_steps3" "list_all2 sha1_role [60..<80] sha1_steps4"
  by (simp_all add: sha1_role_def upt_eval sha1_steps1_def sha1_steps2_def sha1_steps3_def sha1_steps4_def)

lemma length_sha1_steps [simp]:
  "length sha1_steps1 = 20" "length sha1_steps2 = 20" "length sha1_steps3 = 20" "length sha1_steps4 = 20"
  by (simp_all add: sha1_steps1_def sha1_steps2_def sha1_steps3_def sha1_steps4_def)

lemma sha1_rounds:
  assumes "sched M i Wd"
  shows "i = 0 \<Longrightarrow> \<exists>Wd'. fold (sha1_P sha1_F1 0x5A827999) sha1_steps1 (Wd, regs5 i q)
      = (Wd', regs5 20 (fold (fips_step M) [0..<20] q)) \<and> sched M 20 Wd'"
    "i = 20 \<Longrightarrow> \<exists>Wd'. fold (sha1_P sha1_F2 0x6ED9EBA1) sha1_steps2 (Wd, regs5 i q)
      = (Wd', regs5 40 (fold (fips_step M) [20..<40] q)) \<and> sched M 40 Wd'"
    "i = 40 \<Longrightarrow> \<exists>Wd'. fold (sha1_P sha1_F3 0x8F1BBCDC) sha1_steps3 (Wd, regs5 i q)
      = (Wd', regs5 60 (fold (fips_step M) [40..<60] q)) \<and> sched M 60 Wd'"
    "i = 60 \<Longrightarrow> \<exists>Wd'. fold (sha1_P sha1_F2 0xCA62C1D6) sha1_steps4 (Wd, regs5 i q)
      = (Wd', regs5 80 (fold (fips_step M) [60..<80] q)) \<and> sched M 80 Wd'"
  using assms sha1_steps_role sha1_F_fips
    sha1_fold_steps [of 0 sha1_steps1 sha1_F1 "0x5A827999" M Wd q]
    sha1_fold_steps [of 20 sha1_steps2 sha1_F2 "0x6ED9EBA1" M Wd q]
    sha1_fold_steps [of 40 sha1_steps3 sha1_F3 "0x8F1BBCDC" M Wd q]
    sha1_fold_steps [of 60 sha1_steps4 sha1_F2 "0xCA62C1D6" M Wd q]
  by (simp_all add: fips_K_def del: regs5.simps)

lemma sha1_process_fips: "sha1_process st data = fips_block st data"
proof -
  let ?W = "map (\<lambda>i. GET_UINT32_BE data (4 * i)) [0..<16]" and ?M = "\<lambda>t. GET_UINT32_BE data (4 * t)"
  let ?q = "(st ! 0, st ! 1, st ! 2, st ! 3, st ! 4)"
  have s0: "sched ?M 0 ?W" by (simp add: sched_def fips_W.simps)
  obtain W1 where 1: "fold (sha1_P sha1_F1 0x5A827999) sha1_steps1 (?W, regs5 0 ?q)
      = (W1, regs5 20 (fold (fips_step ?M) [0..<20] ?q))" "sched ?M 20 W1"
    using sha1_rounds(1) [OF s0 refl] by blast
  obtain W2 where 2: "fold (sha1_P sha1_F2 0x6ED9EBA1) sha1_steps2 (W1, regs5 20 (fold (fips_step ?M) [0..<20] ?q))
      = (W2, regs5 40 (fold (fips_step ?M) [0..<40] ?q))" "sched ?M 40 W2"
    using sha1_rounds(2) [OF 1(2) refl, of "fold (fips_step ?M) [0..<20] ?q"]
      upt_add_eq_append [of 0 20 20] by auto
  obtain W3 where 3: "fold (sha1_P sha1_F3 0x8F1BBCDC) sha1_steps3 (W2, regs5 40 (fold (fips_step ?M) [0..<40] ?q))
      = (W3, regs5 60 (fold (fips_step ?M) [0..<60] ?q))" "sched ?M 60 W3"
    using sha1_rounds(3) [OF 2(2) refl, of "fold (fips_step ?M) [0..<40] ?q"]
      upt_add_eq_append [of 0 40 20] by auto
  obtain W4 where 4: "fold (sha1_P sha1_F2 0xCA62C1D6) sha1_steps4 (W3, regs5 60 (fold (fips_step ?M) [0..<60] ?q))
      = (W4, regs5 80 (fold (fips_step ?M) [0..<80] ?q))"
    using sha1_rounds(4) [OF 3(2) refl, of "fold (fips_step ?M) [0..<60] ?q"]
      upt_add_eq_append [of 0 60 20] by auto
  have r0: "[st ! 0, st ! 1, st ! 2, st ! 3, st ! 4] = regs5 0 ?q" by simp
  show ?thesis
    unfolding sha1_process_def fips_block_def Let_def r0 1 2 3 4 prod.case
    by (simp add: rotate_conv_mod [of 80] split: prod.split)
qed

section \<open>The contract\<close>

definition sha1_wf :: "md_context \<Rightarrow> bool" where
  "sha1_wf c \<longleftrightarrow> length (md_buffer c) = 64"

definition sha1_absorbed :: "md_context \<Rightarrow> bytes \<Rightarrow> bool" where
  "sha1_absorbed = md_absorbed sha1_process sha1_init"

text \<open>The digest of FIPS 180-1.\<close>

definition sha1_digest :: "bytes \<Rightarrow> bytes" where
  "sha1_digest = md_digest fips_block sha1_init be64 sha1_output"

lemma sha1_padding_eq: "sha1_padding = 0x80 # replicate 63 0"
  by (simp add: sha1_padding_def numeral_eq_Suc)

lemma sha1_process_fun: "sha1_process = fips_block"
  by (intro ext) (rule sha1_process_fips)

lemma be64_words:
  "be64 (push_bit 32 (ucast h) OR ucast (l :: u32)) = PUT_UINT32_BE h @ PUT_UINT32_BE l"
  by (simp add: be64_def le64_words PUT_UINT32_BE_def PUT_UINT32_LE_def)

lemma sha1_absorbed_starts: "sha1_wf c \<Longrightarrow> sha1_absorbed (sha1_starts c) []"
  by (simp add: sha1_wf_def sha1_absorbed_def sha1_starts_def md_absorbed_def)

lemma sha1_finish_absorbed:
  assumes "sha1_absorbed c m"
  shows "sha1_absorbed (fst (sha1_finish c)) (md_pad be64 m)"
proof -
  have "be64 (of_nat (8 * length m)) = PUT_UINT32_BE (drop_bit 29 (total0 c) OR push_bit 3 (total1 c))
      @ PUT_UINT32_BE (push_bit 3 (total0 c))"
    unfolding md_bitcount [OF md_absorbedD(3) [OF assms [unfolded sha1_absorbed_def]]] by (rule be64_words)
  from md_finish_state [OF assms [unfolded sha1_absorbed_def] sha1_padding_eq refl, of be64, OF this] show ?thesis
    by (simp add: sha1_finish_def sha1_update_def sha1_absorbed_def Let_def)
qed

lemma sha1_finish_output: "snd (sha1_finish c) = sha1_output (md_state (fst (sha1_finish c)))"
  by (simp add: sha1_finish_def Let_def)

lemma length_sha1_output [simp]: "length (sha1_output st) = 20"
  by (simp add: sha1_output_def)

interpretation sha1: hmac_stream sha1_starts sha1_update sha1_finish sha1_wf sha1_absorbed sha1_digest ipad opad
proof
  fix c m x
  show "sha1_wf c \<Longrightarrow> sha1_absorbed (sha1_starts c) []" by (rule sha1_absorbed_starts)
  show "sha1_absorbed c m \<Longrightarrow> length x < 2 ^ 32 \<Longrightarrow> sha1_absorbed (sha1_update c x) (m @ x)"
    unfolding sha1_absorbed_def sha1_update_def by (rule md_absorbed_update)
  assume abs: "sha1_absorbed c m"
  note fin = sha1_finish_absorbed [OF abs, unfolded sha1_absorbed_def]
  show "sha1_wf (fst (sha1_finish c))" unfolding sha1_wf_def by (rule md_absorbedD(1) [OF fin])
  show "snd (sha1_finish c) = sha1_digest m"
    unfolding sha1_finish_output md_absorbed_state [OF fin] sha1_digest_def md_digest_def sha1_process_fun ..
qed (simp_all add: sha1_starts_def sha1_update_def sha1_finish_def Let_def sha1_digest_def md_digest_def)

text \<open>The digest of a file read in parts is the digest of its contents.\<close>

lemma sha1_file_digest:
  assumes "sha1_wf ctx0" "\<forall>buf \<in> set bufs. length buf \<le> 1024"
  shows "sha1_file ctx0 (Some (bufs, False)) = (None, Some (sha1_digest (concat bufs)))"
proof -
  have "\<forall>buf \<in> set bufs. length buf < 2 ^ 32" using assms(2) by fastforce
  from sha1.digest_chunks [OF assms(1) this] show ?thesis by (simp add: sha1_file_def)
qed

section \<open>Properties\<close>

text \<open>The unrolled block function of the code, which keeps only sixteen words of the message
  schedule, computes the eighty-step loop of FIPS 180-1 over the expanded schedule.\<close>

theorem sha1_process_correct: "sha1_process st data = fips_block st data"
  by (rule sha1_process_fips)

text \<open>C26: However a message is cut into calls of less than 2^32 bytes, and whatever the context held
  before \<open>sha1_starts\<close>, the digest is the one of FIPS 180-1 of the whole message: padding, the 64-bit
  length and the buffering between calls included.\<close>

theorem sha1_chunks_correct:
  assumes "sha1_wf ctx" "\<forall>x \<in> set xs. length x < 2 ^ 32"
  shows "snd (sha1_finish (fold (\<lambda>x ctx. sha1_update ctx x) xs (sha1_starts ctx))) = sha1_digest (concat xs)"
  using assms by (rule sha1.digest_chunks)

theorem sha1_chunks_correct_witness:
  "snd (sha1_finish (fold (\<lambda>x ctx. sha1_update ctx x) [[0x61], [0x62, 0x63]]
      (sha1_starts \<lparr>total0 = 5, total1 = 6, md_state = [], md_buffer = replicate 64 7, ipad = [], opad = []\<rparr>)))
    = sha1_digest (concat [[0x61], [0x62, 0x63]])"
  by (rule sha1_chunks_correct) (simp_all add: sha1_wf_def)

text \<open>HMAC-SHA-1 is the nested digest of RFC 2104, with a key of more than 64 bytes replaced by its
  digest.\<close>

theorem sha1_hmac_correct:
  assumes "sha1_wf ctx0" "sha1_wf ctx" "length key < 2 ^ 32" "length input < 2 ^ 32"
  shows "sha1_hmac ctx0 ctx key input =
    (let K = (if length key > 64 then sha1_digest key else key)
     in sha1_digest (hmac_block 0x5C K @ sha1_digest (hmac_block 0x36 K @ input)))"
proof -
  let ?K = "if length key > 64 then sha1_digest key else key"
  have "sha1 ctx0 key = sha1_digest key"
    using sha1.digest_chunks [of ctx0 "[key]"] assms by (simp add: sha1_def)
  then have K: "(if length key > 64 then sha1 ctx0 key else key) = ?K" by simp
  have lK: "length ?K \<le> 64" by (simp add: sha1_digest_def md_digest_def)
  let ?c = "ctx\<lparr>ipad := hmac_block 0x36 ?K, opad := hmac_block 0x5C ?K\<rparr>"
  have w: "sha1_wf ?c" using assms(2) by (simp add: sha1_wf_def)
  obtain c' t where fin: "sha1_finish (sha1_update (sha1_update (sha1_starts ?c) (ipad (sha1_starts ?c))) input) = (c', t)"
    by fastforce
  have "sha1_hmac ctx0 ctx key input = snd (sha1_finish (sha1_update (sha1_update (sha1_starts c') (opad (sha1_starts c'))) t))"
    using fin lK unfolding sha1_hmac_def sha1_hmac_starts_def K
    by (simp add: Let_def sha1_hmac_update_def sha1_hmac_finish_def hmac_xor_key_block)
  also have "\<dots> = sha1_digest (hmac_block 0x5C ?K @ sha1_digest (hmac_block 0x36 ?K @ input))"
    using sha1.hmac_chunks [OF w, of "[input]" c' t] fin lK assms(4) by simp
  finally show ?thesis by (simp add: Let_def)
qed

theorem sha1_hmac_correct_witness:
  "sha1_hmac \<lparr>total0 = 5, total1 = 6, md_state = [], md_buffer = replicate 64 7, ipad = [], opad = []\<rparr>
      \<lparr>total0 = 9, total1 = 1, md_state = [], md_buffer = replicate 64 8, ipad = [], opad = []\<rparr> (replicate 80 0xaa) [0x54] =
    (let K = (if length (replicate 80 (0xaa :: byte)) > 64 then sha1_digest (replicate 80 0xaa) else replicate 80 0xaa)
     in sha1_digest (hmac_block 0x5C K @ sha1_digest (hmac_block 0x36 K @ [0x54])))"
  by (rule sha1_hmac_correct) (simp_all add: sha1_wf_def)

end
