(* ===== verification/BlmUtil.thy ===== *)
theory BlmUtil
  imports Util_Fun Arc4 Aes Base64 Md5 Sha1
begin

unbundle bit_operations_syntax

text \<open>
  The wrappers of \<open>src/blmutil.cpp\<close> around zlib, Base64, the digests, ARC4 and AES-128 in CBC mode.
  \<open>fresh n\<close> is what a block of \<open>n\<close> bytes holds when \<open>new\<close> has returned it. Reading past the end of a
  block, a string of negative length and overflow of an \<open>int\<close> are \<open>None\<close>. zlib is not part of the
  sources: its two functions are parameters.
\<close>

section \<open>Strings made from a block\<close>

text \<open>\<open>string(p, p + n)\<close> on a block.\<close>

definition block_string :: "bytes \<Rightarrow> nat \<Rightarrow> bytes option" where
  "block_string blk n = (if n \<le> length blk then Some (take n blk) else None)"

text \<open>A function has written \<open>bs\<close> from the start of a block.\<close>

definition overwrite :: "bytes \<Rightarrow> bytes \<Rightarrow> bytes" where
  "overwrite blk bs = bs @ drop (length bs) blk"

section \<open>zlib\<close>

text \<open>A call of \<open>::compress\<close> or \<open>::uncompress\<close> on a destination of a given size returns its code,
  the value it leaves in \<open>*destLen\<close> and the destination block.\<close>

datatype zcode = Z_OK | Z_BUF_ERROR | Z_DATA_ERROR | Z_MEM_ERROR

type_synonym zlib_fun = "nat \<Rightarrow> bytes \<Rightarrow> zcode \<times> nat \<times> bytes"

text \<open>The loop both wrappers share: as long as the room is not enough, it is doubled. It may run
  forever, which is \<open>None\<close>; the result is the string, or \<open>None\<close> inside.\<close>

partial_function (option) zlib_loop :: "zlib_fun \<Rightarrow> bytes \<Rightarrow> nat \<Rightarrow> bytes option option" where
  "zlib_loop z data reslen =
     (case z reslen data of
        (ret, reslen, pres) \<Rightarrow>
          if ret = Z_BUF_ERROR then zlib_loop z data (reslen * 2)
          else Some (block_string pres reslen))"

definition Zlib_uncompress :: "zlib_fun \<Rightarrow> bytes \<Rightarrow> bytes option option" where
  "Zlib_uncompress z data = zlib_loop z data (length data * 3)"

definition Zlib_compress :: "zlib_fun \<Rightarrow> bytes \<Rightarrow> bytes option option" where
  "Zlib_compress z data = zlib_loop z data (length data)"

section \<open>Base64\<close>

text \<open>What the callee leaves in the block \<open>o\<close> and in \<open>olen\<close>: on an error nothing is written. A
  failed call is only logged.\<close>

definition Base64_encode :: "(nat \<Rightarrow> bytes) \<Rightarrow> bytes \<Rightarrow> bytes option" where
  "Base64_encode fresh data =
     (let olen = length data * 2 + 2 in
      if olen \<ge> 2 ^ 31 then None
      else case base64_encode olen data of
        Inr (olen', out) \<Rightarrow> block_string (overwrite (fresh olen) (out @ (if data = [] then [] else [0]))) olen'
      | Inl (e, olen') \<Rightarrow> block_string (fresh olen) olen')"

definition Base64_decode :: "(nat \<Rightarrow> bytes) \<Rightarrow> bytes \<Rightarrow> bytes option" where
  "Base64_decode fresh data =
     (let olen = length data + 2 in
      if olen \<ge> 2 ^ 31 then None
      else case base64_decode olen data of
        Inr (olen', out) \<Rightarrow> block_string (overwrite (fresh olen) out) olen'
      | Inl (e, olen') \<Rightarrow> block_string (fresh olen) olen')"

section \<open>Digests\<close>

text \<open>The context on the callee's stack is not initialised: what it holds is the parameter \<open>ctx\<close>.\<close>

definition Hash_md5 :: "md_context \<Rightarrow> bytes \<Rightarrow> bytes" where
  "Hash_md5 ctx data = (let buf = md5 ctx data in take 16 buf)"

definition Hash_sha1 :: "md_context \<Rightarrow> bytes \<Rightarrow> bytes" where
  "Hash_sha1 ctx data = (let buf = sha1 ctx data in take 20 buf)"

section \<open>ARC4\<close>

text \<open>The class \<open>RC4\<close> keeps the key of 32 bytes; each call sets up a new context.\<close>

record RC4 =
  rc4_key :: bytes

definition RC4_setKey :: "bytes \<Rightarrow> RC4 \<Rightarrow> RC4" where
  "RC4_setKey key1 r = r\<lparr>rc4_key := take 32 key1\<rparr>"

definition RC4_rc4 :: "RC4 \<Rightarrow> bytes \<Rightarrow> bytes" where
  "RC4_rc4 r data = snd (arc4_crypt (arc4_setup (rc4_key r)) data)"

text \<open>\<open>rc4buf\<close> overwrites the first \<open>len\<close> bytes of a buffer.\<close>

definition RC4_rc4buf :: "RC4 \<Rightarrow> bytes \<Rightarrow> nat \<Rightarrow> bytes" where
  "RC4_rc4buf r data len = overwrite data (RC4_rc4 r (take len data))"

section \<open>AES-128 in CBC mode\<close>

record AES128Cipher =
  aes_key :: bytes

definition AES128_setKey :: "bytes \<Rightarrow> AES128Cipher \<Rightarrow> AES128Cipher" where
  "AES128_setKey key1 c = c\<lparr>aes_key := take 16 key1\<rparr>"

definition AES128_getKey :: "AES128Cipher \<Rightarrow> bytes" where
  "AES128_getKey c = aes_key c"

text \<open>The output block of \<open>aes_crypt_cbc\<close>: when the call fails the block keeps what it held. The
  key schedule never fails for 128 bits.\<close>

definition cbc_out :: "aes_error + aes_context \<Rightarrow> aes_mode \<Rightarrow> bytes \<Rightarrow> bytes \<Rightarrow> bytes \<Rightarrow> bytes option" where
  "cbc_out setkey mode iv input po =
     (case setkey of
        Inl e \<Rightarrow> None
      | Inr ctx \<Rightarrow> (case aes_crypt_cbc ctx mode iv input of Inr (iv', out) \<Rightarrow> Some out | Inl e \<Rightarrow> Some po))"

definition doAES128 :: "(nat \<Rightarrow> bytes) \<Rightarrow> AES128Cipher \<Rightarrow> bytes \<Rightarrow> bool \<Rightarrow> bytes option" where
  "doAES128 fresh c inp encrypt =
     (let inlen = length inp; iv1 = replicate 16 0 in
      if inlen = 0 then Some []
      else if encrypt then
        let paded = 16 - inlen mod 16;
            blen = inlen + paded;
            pin = inp @ replicate paded (of_nat paded)
        in if blen \<ge> 2 ^ 31 then None
           else case cbc_out (aes_setkey_enc (aes_key c) 128) AES_ENCRYPT iv1 pin (fresh blen) of
             Some po \<Rightarrow> block_string po blen | None \<Rightarrow> None
      else case cbc_out (aes_setkey_dec (aes_key c) 128) AES_DECRYPT iv1 inp (fresh inlen) of
             Some po \<Rightarrow> (let paded = unat (po ! (inlen - 1)) in
                           if paded \<le> inlen then block_string po (inlen - paded) else None)
           | None \<Rightarrow> None)"

definition AES128_encrypt :: "(nat \<Rightarrow> bytes) \<Rightarrow> AES128Cipher \<Rightarrow> bytes \<Rightarrow> bytes option" where
  "AES128_encrypt fresh c cont = doAES128 fresh c cont True"

definition AES128_decrypt :: "(nat \<Rightarrow> bytes) \<Rightarrow> AES128Cipher \<Rightarrow> bytes \<Rightarrow> bytes option" where
  "AES128_decrypt fresh c cont = doAES128 fresh c cont False"

section \<open>Lemmas\<close>

lemma block_string_all [simp]: "block_string blk (length blk) = Some blk"
  by (simp add: block_string_def)

lemma block_string_overwrite: "n \<le> length bs \<Longrightarrow> block_string (overwrite blk bs) n = Some (take n bs)"
  by (simp add: block_string_def overwrite_def)

lemma arc4_crypt_twice: "snd (arc4_crypt ctx (snd (arc4_crypt ctx input))) = input"
  by (simp add: arc4_crypt_def Let_def split_beta arc4_crypt_loop_keystream)

lemma length_RC4 [simp]: "length (RC4_rc4 r data) = length data"
  by (simp add: RC4_rc4_def)

lemma RC4_rc4_twice [simp]: "RC4_rc4 r (RC4_rc4 r data) = data"
  by (simp add: RC4_rc4_def arc4_crypt_twice)

lemma RC4_rc4buf_all: "RC4_rc4buf r data (length data) = RC4_rc4 r data"
  by (simp add: RC4_rc4buf_def overwrite_def)

text \<open>The padding fills the last block and is never empty.\<close>

lemma padded_length: "(n + (16 - n mod 16)) mod 16 = (0::nat)" "n + (16 - n mod 16) = 16 * (n div 16 + 1)"
proof -
  show eq: "n + (16 - n mod 16) = 16 * (n div 16 + 1)"
  proof -
    have "n mod 16 < 16" by simp
    moreover have "q * 16 + m = n \<Longrightarrow> m < 16 \<Longrightarrow> n + (16 - m) = 16 * (q + 1)" for q m :: nat by simp
    ultimately show ?thesis by (simp only: div_mult_mod_eq)
  qed
  show "(n + (16 - n mod 16)) mod 16 = 0" unfolding eq by simp
qed

lemma AES128_encrypt_ok:
  assumes "length data + 16 < 2 ^ 31" "data \<noteq> []" "aes_setkey_enc (aes_key c) 128 = Inr ctx"
  shows "AES128_encrypt fresh c data =
    Some (snd (aes_cbc_enc_loop ctx (replicate 16 0)
      (data @ replicate (16 - length data mod 16) (of_nat (16 - length data mod 16)))))"
proof -
  let ?p = "16 - length data mod 16"
  let ?pin = "data @ replicate ?p (of_nat ?p :: byte)"
  have "length ?pin mod 16 = 0" by (simp add: padded_length)
  moreover from this have "length (snd (aes_cbc_enc_loop ctx (replicate 16 0) ?pin)) = length ?pin"
    using length_aes_cbc_enc_loop [of "replicate 16 0" ?pin ctx] by simp
  moreover have "length data + ?p < 2 ^ 31" using assms(1) by linarith
  ultimately show ?thesis
    using assms(2,3)
    by (auto simp: AES128_encrypt_def doAES128_def cbc_out_def aes_crypt_cbc_def block_string_def Let_def
        split: prod.split)
qed

lemma AES128_decrypt_ok:
  assumes "aes_setkey_dec (aes_key c) 128 = Inr dtx" "length inp mod 16 = 0" "inp \<noteq> []"
    and "snd (aes_cbc_dec_loop dtx (replicate 16 0) inp) = data @ replicate p (of_nat p)"
    and "length inp = length data + p" "0 < p" "p < 256"
  shows "AES128_decrypt fresh c inp = Some data"
proof -
  let ?po = "data @ replicate p (of_nat p :: byte)"
  have "cbc_out (Inr dtx) AES_DECRYPT (replicate 16 0) inp (fresh (length inp)) = Some ?po"
    using assms(2,4) by (cases "aes_cbc_dec_loop dtx (replicate 16 0) inp") (simp add: cbc_out_def aes_crypt_cbc_def)
  moreover have "unat (?po ! (length inp - 1)) = p"
  proof -
    have "\<not> length inp - 1 < length data" using assms(5,6) by linarith
    then show ?thesis using assms(5-7) by (simp only: nth_append if_False) (simp add: unat_of_nat_byte)
  qed
  ultimately show ?thesis
    using assms(1,3,5) by (simp add: AES128_decrypt_def doAES128_def Let_def block_string_def)
qed

lemma aes128_inverse:
  assumes "length data + 16 < 2 ^ 31"
  shows "\<exists>enc. AES128_encrypt fresh c data = Some enc \<and> AES128_decrypt fresh' c enc = Some data
     \<and> length enc = (if data = [] then 0 else 16 * (length data div 16 + 1))"
proof (cases "data = []")
  case False
  obtain ctx dtx where ctx: "aes_setkey_enc (aes_key c) 128 = Inr ctx" "aes_setkey_dec (aes_key c) 128 = Inr dtx"
    using aes_setkey_sizes [of "aes_key c" 128] by auto
  let ?p = "16 - length data mod 16"
  let ?pin = "data @ replicate ?p (of_nat ?p :: byte)"
  let ?enc = "snd (aes_cbc_enc_loop ctx (replicate 16 0) ?pin)"
  have pin: "length ?pin mod 16 = 0" "length ?pin = 16 * (length data div 16 + 1)"
    by (simp_all add: padded_length del: mult_Suc_right)
  have len: "length ?enc = length ?pin"
    using length_aes_cbc_enc_loop [of "replicate 16 0" ?pin ctx] pin by simp
  have dec: "snd (aes_cbc_dec_loop dtx (replicate 16 0) ?enc) = ?pin"
    using aes_cbc_loop_inverse [OF aes_inverse_ctx_setkey [OF ctx], of "replicate 16 0" ?pin] pin by simp
  have p: "0 < ?p" "?p \<le> 16" by simp_all
  have "AES128_decrypt fresh' c ?enc = Some data"
    by (rule AES128_decrypt_ok [OF ctx(2) _ _ dec]) (use len pin p in auto)
  then show ?thesis using AES128_encrypt_ok [OF assms False ctx(1)] len pin False by auto
qed (simp add: AES128_encrypt_def AES128_decrypt_def doAES128_def Let_def)

text \<open>C27: For every key and every text that fits an \<open>int\<close> with its padding, \<open>AES128Cipher\<close> encrypts
  to whole blocks, always at least one byte longer than the text, and decrypting returns the text;
  the empty text stays empty.\<close>

theorem aes128_roundtrip:
  assumes "length data + 16 < 2 ^ 31"
  shows "\<exists>enc. AES128_encrypt fresh c data = Some enc \<and> AES128_decrypt fresh' c enc = Some data
     \<and> length enc = (if data = [] then 0 else 16 * (length data div 16 + 1))"
  using assms by (rule aes128_inverse)

theorem aes128_roundtrip_witness:
  "\<exists>enc. AES128_encrypt (\<lambda>n. replicate n 9) \<lparr>aes_key = replicate 16 5\<rparr> [1, 2, 3] = Some enc
     \<and> AES128_decrypt (\<lambda>n. replicate n 7) \<lparr>aes_key = replicate 16 5\<rparr> enc = Some [1, 2, 3] \<and> length enc = 16"
  using aes128_roundtrip [of "[1, 2, 3]" "\<lambda>n. replicate n 9" "\<lparr>aes_key = replicate 16 5\<rparr>" "\<lambda>n. replicate n 7"]
  by simp

text \<open>Masking a buffer twice with \<open>rc4buf\<close> restores it, whatever the key, and the bytes behind
  the masked ones never change.\<close>

theorem rc4buf_involution:
  assumes "n \<le> length buf"
  shows "RC4_rc4buf r (RC4_rc4buf r buf n) n = buf \<and> drop n (RC4_rc4buf r buf n) = drop n buf"
  using assms by (simp add: RC4_rc4buf_def overwrite_def)

theorem rc4buf_involution_witness:
  "RC4_rc4buf \<lparr>rc4_key = [1, 2]\<rparr> (RC4_rc4buf \<lparr>rc4_key = [1, 2]\<rparr> [3, 4, 5] 2) 2 = [3, 4, 5]"
  using rc4buf_involution [of 2 "[3, 4, 5]" "\<lparr>rc4_key = [1, 2]\<rparr>"] by simp

section \<open>Base64 wrappers\<close>

lemma base64_groups_room: "1 < n \<Longrightarrow> 4 * ((n + 2) div 3) < n * 2 + (2::nat)"
  by linarith

text \<open>The Base64 wrappers give back every text of at least two bytes. For a single byte the
  room the encoder is given is one byte short: the call fails, and the wrapper reads five bytes from
  a block of four.\<close>

theorem base64_wrapper_roundtrip:
  assumes "length data * 4 + 8 < 2 ^ 31" "data \<noteq> []" "\<forall>n. length (fresh n) = n"
  shows "if length data = 1 then Base64_encode fresh data = None
    else \<exists>enc. Base64_encode fresh data = Some enc \<and> Base64_decode fresh enc = Some data"
proof (cases "length data = 1")
  case True
  then have "base64_encode 4 data = Inl (POLARSSL_ERR_BASE64_BUFFER_TOO_SMALL, 5)"
    using assms(2) by (simp add: base64_encode_def base64_enc_size_eq Let_def)
  then show ?thesis using True assms(3) by (simp add: Base64_encode_def Let_def block_string_def)
next
  case False
  let ?g = "(length data + 2) div 3" and ?e = "base64_enc_loop data"
  have n: "1 < length data" using False assms(2) by (cases data) auto
  have g: "0 < ?g" using n by linarith
  have "base64_encode (length data * 2 + 2) data = Inr (4 * ?g, ?e)"
    using base64_groups_room [OF n] assms(2)
    by (simp add: base64_encode_def base64_enc_size_eq Let_def length_base64_enc_loop)
  moreover have "\<not> 2 ^ 31 \<le> length data * 2 + 2" using assms(1) by linarith
  ultimately have enc: "Base64_encode fresh data = Some ?e"
    using assms(2) by (simp add: Base64_encode_def Let_def block_string_overwrite length_base64_enc_loop)
  have "(4 * ?g * 6 + 7) div 8 = 3 * ?g" by simp
  then have "base64_decode (4 * ?g + 2) ?e = Inr (length data, data)"
    using g by (simp add: base64_decode_def base64_check_encoded length_base64_enc_loop Let_def base64_decode_encoded)
  moreover have "\<not> 2 ^ 31 \<le> 4 * ?g + 2" using assms(1) by linarith
  ultimately have "Base64_decode fresh ?e = Some data"
    by (simp add: Base64_decode_def Let_def block_string_overwrite length_base64_enc_loop)
  then show ?thesis using enc False by auto
qed

theorem base64_wrapper_roundtrip_witness:
  "Base64_encode (\<lambda>n. replicate n 0) [7] = None \<and>
   (\<exists>enc. Base64_encode (\<lambda>n. replicate n 0) [7, 8] = Some enc \<and> Base64_decode (\<lambda>n. replicate n 0) enc = Some [7, 8])"
  using base64_wrapper_roundtrip [of "[7]" "\<lambda>n. replicate n 0"]
    base64_wrapper_roundtrip [of "[7, 8]" "\<lambda>n. replicate n 0"] by simp

section \<open>The zlib loops\<close>

text \<open>What zlib documents of a call: with enough room it succeeds, reports the size of the result and
  has written it; with less it returns \<open>Z_BUF_ERROR\<close>, and \<open>*destLen\<close> keeps its value.\<close>

definition zlib_contract :: "zlib_fun \<Rightarrow> bytes \<Rightarrow> bytes \<Rightarrow> bool" where
  "zlib_contract z data res \<longleftrightarrow>
     (\<forall>room. length res \<le> room \<longrightarrow> (\<exists>blk. z room data = (Z_OK, length res, res @ blk))) \<and>
     (\<forall>room. room < length res \<longrightarrow> (\<exists>blk. z room data = (Z_BUF_ERROR, room, blk)))"

lemma zlib_loop_ok:
  assumes "zlib_contract z data res" "0 < room"
  shows "zlib_loop z data room = Some (Some res)"
  using assms(2)
proof (induction "length res - room" arbitrary: room rule: less_induct)
  case less
  show ?case
  proof (cases "length res \<le> room")
    case True
    then obtain blk where "z room data = (Z_OK, length res, res @ blk)"
      using assms(1) by (auto simp: zlib_contract_def)
    then show ?thesis by (subst zlib_loop.simps) (simp add: block_string_def)
  next
    case False
    then obtain blk where "z room data = (Z_BUF_ERROR, room, blk)"
      using assms(1) unfolding zlib_contract_def by (meson not_le)
    moreover have "zlib_loop z data (room * 2) = Some (Some res)" using False less by simp
    ultimately show ?thesis by (subst zlib_loop.simps) simp
  qed
qed

lemma zlib_loop_zero:
  assumes "zlib_loop z data room = Some r"
  shows "(\<exists>blk. z 0 data = (Z_BUF_ERROR, 0, blk)) \<longrightarrow> room \<noteq> 0"
proof (rule zlib_loop.raw_induct [OF _ assms, where
      P = "\<lambda>z data room r. (\<exists>blk. z 0 data = (Z_BUF_ERROR, 0, blk)) \<longrightarrow> room \<noteq> 0"], goal_cases)
  case (1 f z data room r)
  then show ?case by fastforce
qed


text \<open>A compressor that stores its input behind a header of two bytes.\<close>

definition stored_zlib :: zlib_fun where
  "stored_zlib room data =
     (let res = 0x78 # 0x01 # data
      in if length res \<le> room then (Z_OK, length res, res @ replicate (room - length res) 0)
         else (Z_BUF_ERROR, room, replicate room 0))"


end
