(* ===== verification/BlmMsg.thy ===== *)
theory BlmMsg
  imports BlmUtil
begin

unbundle bit_operations_syntax

text \<open>
  Messages of \<open>src/blmcomm.cpp\<close>: the header \<open>ClientMsg\<close>, the TCP object of a client with what it has
  received and what it has to write, \<open>sendMsg\<close>, and \<open>onDataRead\<close>, which cuts the byte stream into
  messages. A \<open>char\<close> is signed and integers are little-endian in memory, as on the machines the
  library is built for; on a big-endian machine \<open>toLittleEndian\<close> reads from the integer as an
  address, which is \<open>None\<close>. The library functions that are not part of the sources and the contents
  of fresh memory are the environment.
\<close>

section \<open>Headers\<close>

record ClientMsg =
  msg_st :: byte
  msg_mt :: byte
  msg_compress :: byte
  msg_encrypt :: byte
  msg_id :: u32
  msg_len :: u32

definition ClientMsg_isValid :: "ClientMsg \<Rightarrow> bool" where
  "ClientMsg_isValid m \<longleftrightarrow>
     (msg_compress m = 0 \<or> msg_compress m = 1) \<and> (msg_encrypt m = 0 \<or> msg_encrypt m = 1)"

text \<open>The constructor with arguments: the counter \<open>msgid\<close> goes up first and is part of the state. The
  default constructor resets the counter.\<close>

definition ClientMsg_new :: "int \<Rightarrow> int \<Rightarrow> int \<Rightarrow> int \<Rightarrow> int \<Rightarrow> u32 \<Rightarrow> ClientMsg \<times> u32" where
  "ClientMsg_new mt1 st1 compress1 encrypt1 length1 msgid =
     (let msgid = msgid + 1 in
      (\<lparr>msg_st = word_of_int st1, msg_mt = word_of_int mt1, msg_compress = word_of_int compress1,
        msg_encrypt = word_of_int encrypt1, msg_id = msgid, msg_len = word_of_int length1\<rparr>, msgid))"

definition ClientMsg_default :: "u32 \<Rightarrow> u32 \<Rightarrow> ClientMsg \<times> u32" where
  "ClientMsg_default id0 msgid =
     (\<lparr>msg_st = 0, msg_mt = 0, msg_compress = 0, msg_encrypt = 0, msg_id = id0, msg_len = 0\<rparr>, 0)"

text \<open>The bytes of the struct in memory, and the struct at an address.\<close>

definition msg_bytes :: "ClientMsg \<Rightarrow> bytes" where
  "msg_bytes m = [msg_st m, msg_mt m, msg_compress m, msg_encrypt m] @
     PUT_UINT32_LE (msg_id m) @ PUT_UINT32_LE (msg_len m)"

definition msg_at :: "bytes \<Rightarrow> ClientMsg" where
  "msg_at b = \<lparr>msg_st = b ! 0, msg_mt = b ! 1, msg_compress = b ! 2, msg_encrypt = b ! 3,
     msg_id = GET_UINT32_LE b 4, msg_len = GET_UINT32_LE b 8\<rparr>"

section \<open>The TCP object of a client\<close>

record comm_env =
  env_fresh :: "nat \<Rightarrow> bytes"
  env_compress :: zlib_fun
  env_uncompress :: zlib_fun
  env_bigendian :: bool

record ClientTcp =
  tcp_rc4 :: RC4
  tcp_aes :: AES128Cipher
  recved :: bytes
  write_bufs :: "bytes list"

definition toLittleEndian :: "comm_env \<Rightarrow> u32 \<Rightarrow> u32 option" where
  "toLittleEndian E v = (if env_bigendian E then None else Some v)"

definition rc4_key_table :: bytes where
  "rc4_key_table =
     [0x22, 0xBE, 0xE5, 0xCF, 0xBB, 0x07, 0x64, 0xD9, 0x00, 0x45, 0x1B, 0xD0, 0x24, 0xB8, 0xD5, 0x45]
     @ replicate 16 0"

text \<open>The constructor of \<open>ClientTcp\<close>: the default constructor of \<open>AES128Cipher\<close> fills its key with
  \<open>randomBuf\<close>; \<open>key0\<close> is what the 16 bytes held before, \<open>psz\<close> the size of a pointer.\<close>

definition ClientTcp_new :: "nat \<Rightarrow> (nat \<Rightarrow> nat) \<Rightarrow> bytes \<Rightarrow> ClientTcp option" where
  "ClientTcp_new psz rnd key0 =
     map_option (\<lambda>key. \<lparr>tcp_rc4 = RC4_setKey rc4_key_table \<lparr>rc4_key = []\<rparr>, tcp_aes = \<lparr>aes_key = key\<rparr>,
                        recved = [], write_bufs = []\<rparr>)
       (randomBuf psz rnd key0)"

text \<open>\<open>sendData\<close> hands the last buffer to the ioqueue; a completed write drops the first one.\<close>

definition sendData :: "bytes \<Rightarrow> ClientTcp \<Rightarrow> ClientTcp" where
  "sendData data tcp = tcp\<lparr>write_bufs := write_bufs tcp @ [data]\<rparr>"

definition on_ioqueue_write :: "ClientTcp \<Rightarrow> ClientTcp option" where
  "on_ioqueue_write tcp =
     (case write_bufs tcp of [] \<Rightarrow> None | first_data # rest \<Rightarrow> Some (tcp\<lparr>write_bufs := rest\<rparr>))"

section \<open>Sending\<close>

text \<open>The string a wrapper of zlib returns; \<open>None\<close> when it never returns or faults.\<close>

definition run_zlib :: "bytes option option \<Rightarrow> bytes option" where
  "run_zlib r = Option.bind r (\<lambda>x. x)"

definition ClientTcp_sendMsg ::
  "comm_env \<Rightarrow> int \<Rightarrow> int \<Rightarrow> int \<Rightarrow> int \<Rightarrow> bytes \<Rightarrow> u32 \<Rightarrow> ClientTcp \<Rightarrow> (int \<times> u32 \<times> ClientTcp) option" where
  "ClientTcp_sendMsg E mt st compressType encryptType data msgid tcp =
     (if compressType \<noteq> 0 \<and> compressType \<noteq> 1 \<or> encryptType \<noteq> 0 \<and> encryptType \<noteq> 1
      then Some (0, msgid, tcp)
      else case (if compressType = 0 then Some data else run_zlib (Zlib_compress (env_compress E) data)) of
        None \<Rightarrow> None
      | Some comd \<Rightarrow>
          (case (if encryptType = 0 \<or> mt = 255 \<and> st = 255 then Some comd
                 else AES128_encrypt (env_fresh E) (tcp_aes tcp) comd) of
             None \<Rightarrow> None
           | Some encd \<Rightarrow>
               (let (msg, msgid) = ClientMsg_new mt st compressType encryptType (int (length encd)) msgid;
                    id = sint (msg_id msg)
                in case toLittleEndian E (msg_len msg) of
                     None \<Rightarrow> None
                   | Some len \<Rightarrow>
                       (let head = RC4_rc4buf (tcp_rc4 tcp) (msg_bytes (msg\<lparr>msg_len := len\<rparr>)) 12;
                            tcp = sendData head tcp;
                            tcp = sendData encd tcp
                        in Some (id, msgid, tcp)))))"

text \<open>The part of \<open>ClientTcp::onConnect\<close> that sends the session key, masked.\<close>

definition send_session_key :: "comm_env \<Rightarrow> u32 \<Rightarrow> ClientTcp \<Rightarrow> (int \<times> u32 \<times> ClientTcp) option" where
  "send_session_key E msgid tcp =
     (let buf = take 16 (AES128_getKey (tcp_aes tcp));
          buf = RC4_rc4buf (tcp_rc4 tcp) buf 16
      in ClientTcp_sendMsg E 0xff 0xff 0 1 buf msgid tcp)"

section \<open>Receiving\<close>

definition decodeMsg :: "comm_env \<Rightarrow> ClientTcp \<Rightarrow> ClientMsg \<Rightarrow> bytes \<Rightarrow> bytes option" where
  "decodeMsg E tcp msg data =
     (case (if msg_compress msg = 0 then Some data else run_zlib (Zlib_uncompress (env_uncompress E) data)) of
        None \<Rightarrow> None
      | Some comd \<Rightarrow>
          if msg_encrypt msg = 0 then Some comd else AES128_decrypt (env_fresh E) (tcp_aes tcp) comd)"

text \<open>\<open>BlmClient::processMsg\<close> as the receiver sees it: it gets the type, subtype, contents and id of a
  message and returns an error code and a new state.\<close>

type_synonym 's processor = "int \<Rightarrow> int \<Rightarrow> bytes \<Rightarrow> int \<Rightarrow> 's \<Rightarrow> int \<times> 's"

text \<open>The body of the loop up to the call of \<open>processMsg\<close>: more data is needed, the length is bad, the
  decoding never returns or faults, or there is a message; then \<open>recved\<close> keeps what follows it.\<close>

datatype recv_result = Wait | Bad | Lost | Got ClientMsg bytes bytes

definition next_msg :: "comm_env \<Rightarrow> ClientTcp \<Rightarrow> recv_result" where
  "next_msg E tcp =
     (if length (recved tcp) < 12 then Wait
      else let msg = msg_at (RC4_rc4buf (tcp_rc4 tcp) (take 12 (recved tcp)) 12) in
        case toLittleEndian E (msg_len msg) of
          None \<Rightarrow> Lost
        | Some len \<Rightarrow>
            (let n = nat (sint len); msg = msg\<lparr>msg_len := len\<rparr> in
             if sint len < 0 \<or> sint len > 16 * 1024 * 1024 then Bad
             else if length (recved tcp) < 12 + n then Wait
             else case decodeMsg E tcp msg (take n (drop 12 (recved tcp))) of
               None \<Rightarrow> Lost
             | Some cont \<Rightarrow> Got msg cont (drop (12 + n) (recved tcp))))"

lemma next_msg_shorter: "next_msg E tcp = Got msg cont rest \<Longrightarrow> length rest < length (recved tcp)"
  by (auto simp: next_msg_def Let_def split: if_splits option.splits)

function read_loop :: "comm_env \<Rightarrow> 's processor \<Rightarrow> ClientTcp \<Rightarrow> 's \<Rightarrow> (int \<times> ClientTcp \<times> 's) option" where
  "read_loop E process tcp s =
     (case next_msg E tcp of
        Wait \<Rightarrow> Some (0, tcp, s)
      | Bad \<Rightarrow> Some (- 1, tcp, s)
      | Lost \<Rightarrow> None
      | Got msg cont rest \<Rightarrow>
          (let tcp = tcp\<lparr>recved := rest\<rparr>;
               (eno, s) = process (sint (msg_mt msg)) (sint (msg_st msg)) cont (sint (msg_id msg)) s
           in if eno \<noteq> 0 then Some (eno, tcp, s) else read_loop E process tcp s))"
  by pat_completeness auto
termination
  by (relation "measure (\<lambda>(E, process, tcp, s). length (recved tcp))") (auto dest: next_msg_shorter)

declare read_loop.simps [simp del]

definition onDataRead :: "comm_env \<Rightarrow> 's processor \<Rightarrow> bytes \<Rightarrow> ClientTcp \<Rightarrow> 's \<Rightarrow> (int \<times> ClientTcp \<times> 's) option" where
  "onDataRead E process data tcp s =
     read_loop E process (tcp\<lparr>recved := recved tcp @ data\<rparr>) s"

section \<open>The stream may be cut anywhere\<close>

lemma next_msg_append:
  assumes "next_msg E tcp \<noteq> Wait"
  shows "next_msg E (tcp\<lparr>recved := recved tcp @ b\<rparr>) =
    (case next_msg E tcp of Got msg cont rest \<Rightarrow> Got msg cont (rest @ b) | r \<Rightarrow> r)"
proof -
  have len: "\<not> length (recved tcp) < 12" using assms by (auto simp: next_msg_def)
  then have "take 12 (recved tcp @ b) = take 12 (recved tcp)" by simp
  then show ?thesis
    using assms len by (auto simp: next_msg_def decodeMsg_def Let_def split: option.split if_splits)
qed

lemma read_loop_append:
  "read_loop E process (tcp\<lparr>recved := recved tcp @ b\<rparr>) s =
     (case read_loop E process tcp s of
        None \<Rightarrow> None
      | Some (e, tcp', s') \<Rightarrow>
          if e = 0 then read_loop E process (tcp'\<lparr>recved := recved tcp' @ b\<rparr>) s'
          else Some (e, tcp'\<lparr>recved := recved tcp' @ b\<rparr>, s'))"
proof (induction E process tcp s rule: read_loop.induct)
  case (1 E process tcp s)
  show ?case
  proof (cases "next_msg E tcp")
    case (Got msg cont rest)
    let ?p = "process (sint (msg_mt msg)) (sint (msg_st msg)) cont (sint (msg_id msg)) s"
    have n: "next_msg E (tcp\<lparr>recved := recved tcp @ b\<rparr>) = Got msg cont (rest @ b)"
      using next_msg_append [of E tcp b] Got by simp
    show ?thesis
    proof (cases "fst ?p = 0")
      case True
      then have "read_loop E process tcp s = read_loop E process (tcp\<lparr>recved := rest\<rparr>) (snd ?p)"
        by (subst read_loop.simps) (simp add: Got split_beta)
      moreover have "read_loop E process (tcp\<lparr>recved := recved tcp @ b\<rparr>) s
          = read_loop E process (tcp\<lparr>recved := rest @ b\<rparr>) (snd ?p)"
        using True by (subst read_loop.simps) (simp add: n split_beta)
      ultimately show ?thesis using 1 [OF Got refl refl prod.collapse] True by simp
    next
      case False
      then show ?thesis by (subst (1 2) read_loop.simps) (simp add: Got n split_beta)
    qed
  next
    case Wait
    then show ?thesis by (subst (2) read_loop.simps) simp
  qed (use next_msg_append [of E tcp b] in \<open>subst (1 2) read_loop.simps, simp\<close>)+
qed

text \<open>C3: The receiver does not depend on how the stream arrives: reading two pieces one after the other
  processes the same messages, with the same results and the same unread rest, as reading them at
  once; after an error the second piece only stays unread.\<close>

theorem onDataRead_chunks:
  "onDataRead E process (a @ b) tcp s =
     (case onDataRead E process a tcp s of
        None \<Rightarrow> None
      | Some (e, tcp', s') \<Rightarrow>
          if e = 0 then onDataRead E process b tcp' s'
          else Some (e, tcp'\<lparr>recved := recved tcp' @ b\<rparr>, s'))"
  using read_loop_append [of E process "tcp\<lparr>recved := recved tcp @ a\<rparr>" b s]
  by (simp add: onDataRead_def split: option.split prod.split)

section \<open>What is sent is received\<close>

lemma length_msg_bytes [simp]: "length (msg_bytes m) = 12"
  by (simp add: msg_bytes_def)

lemma GET_UINT32_LE_drop: "GET_UINT32_LE b (i + k) = GET_UINT32_LE (drop k b) i" if "i + k + 3 < length b"
  using that by (simp add: GET_UINT32_LE_def add_ac)

lemma msg_at_bytes [simp]: "msg_at (msg_bytes m) = m"
proof -
  let ?b = "msg_bytes m"
  have "GET_UINT32_LE ?b 4 = msg_id m"
    using GET_UINT32_LE_drop [of 0 4 ?b] by (simp add: msg_bytes_def)
  moreover have "GET_UINT32_LE ?b 8 = msg_len m"
    using GET_UINT32_LE_drop [of 0 8 ?b] GET_PUT_LE [of "msg_len m" "[]"] by (simp add: msg_bytes_def)
  ultimately show ?thesis by (simp add: msg_at_def) (simp add: msg_bytes_def)
qed

lemma masked_header:
  assumes "length h = 12"
  shows "RC4_rc4buf r (take 12 (RC4_rc4buf r h 12 @ body)) 12 = h"
  using RC4_rc4buf_all [of r h] RC4_rc4buf_all [of r "RC4_rc4 r h"] assms by simp

text \<open>The wire image of one message and how the loop takes it apart.\<close>

lemma read_loop_frame:
  assumes E: "\<not> env_bigendian E" and len: "msg_len m = word_of_int (int (length body))"
    and small: "length body \<le> 16 * 1024 * 1024"
    and dec: "decodeMsg E tcp m body = Some cont"
    and r: "recved tcp = RC4_rc4buf (tcp_rc4 tcp) (msg_bytes m) 12 @ body @ rest"
  shows "read_loop E process tcp s =
    (let (eno, s') = process (sint (msg_mt m)) (sint (msg_st m)) cont (sint (msg_id m)) s
     in if eno \<noteq> 0 then Some (eno, tcp\<lparr>recved := rest\<rparr>, s') else read_loop E process (tcp\<lparr>recved := rest\<rparr>) s')"
proof -
  have n: "sint (msg_len m) = int (length body)"
  proof -
    have "- (2 ^ 31) \<le> int (length body)" "int (length body) < 2 ^ 31" using small by simp_all
    then show ?thesis unfolding len by (rule int_u32_roundtrip)
  qed
  have "next_msg E tcp = Got m cont rest"
    using E n small dec r RC4_rc4buf_all [of "tcp_rc4 tcp" "msg_bytes m"]
      masked_header [of "msg_bytes m" "tcp_rc4 tcp" "body @ rest"]
    by (simp add: next_msg_def Let_def toLittleEndian_def)
  then show ?thesis by (subst read_loop.simps) (simp add: Let_def)
qed

text \<open>C12: A message sent without compression, encrypted or not, arrives: when a receiver with the same
  keys has read what the sender wrote, in whatever pieces, \<open>processMsg\<close> has been called once, with
  the type and subtype as signed characters, exactly the data, and the id that \<open>sendMsg\<close> returned,
  and nothing is left unread.\<close>

theorem send_receive:
  assumes "\<not> env_bigendian E" "length data + 16 \<le> 16 * 1024 * 1024" "write_bufs tcp = []" "recved rcv = []"
    and "tcp_rc4 rcv = tcp_rc4 tcp" "tcp_aes rcv = tcp_aes tcp"
    and "encryptType = 0 \<or> encryptType = 1 \<and> \<not> (mt = 255 \<and> st = 255)"
  shows "\<exists>id msgid' tcp'. ClientTcp_sendMsg E mt st 0 encryptType data msgid tcp = Some (id, msgid', tcp')
    \<and> onDataRead E process (concat (write_bufs tcp')) rcv s =
       (let (eno, s') = process (sint (word_of_int mt :: byte)) (sint (word_of_int st :: byte)) data id s
        in Some (eno, rcv, s'))"
proof -
  obtain encd where encd: "(if encryptType = 0 then Some data else AES128_encrypt (env_fresh E) (tcp_aes tcp) data) = Some encd"
      "(if encryptType = 0 then Some encd else AES128_decrypt (env_fresh E) (tcp_aes tcp) encd) = Some data"
      "length encd \<le> 16 * 1024 * 1024"
  proof (cases "encryptType = 0")
    case False
    have "length data + 16 < 2 ^ 31" using assms(2) by simp
    from aes128_inverse [OF this, of "env_fresh E" "tcp_aes tcp" "env_fresh E"] obtain encd where e:
      "AES128_encrypt (env_fresh E) (tcp_aes tcp) data = Some encd" "AES128_decrypt (env_fresh E) (tcp_aes tcp) encd = Some data"
      "length encd = (if data = [] then 0 else 16 * (length data div 16 + 1))" by blast
    then have "length encd \<le> length data + 16" by (auto split: if_splits)
    then show ?thesis using that [of encd] e False assms(2) by simp
  qed (use assms(2) that in auto)
  let ?m = "fst (ClientMsg_new mt st 0 encryptType (int (length encd)) msgid)"
  let ?head = "RC4_rc4buf (tcp_rc4 tcp) (msg_bytes ?m) 12"
  let ?tcp = "tcp\<lparr>write_bufs := [?head, encd]\<rparr>"
  have sent: "ClientTcp_sendMsg E mt st 0 encryptType data msgid tcp = Some (sint (msg_id ?m), msgid + 1, ?tcp)"
    using assms(1,3,7) encd(1)
    by (auto simp: ClientTcp_sendMsg_def ClientMsg_new_def toLittleEndian_def sendData_def Let_def split: if_splits)
  have "decodeMsg E (rcv\<lparr>recved := ?head @ encd\<rparr>) ?m encd = Some data"
    using encd(2) assms(6,7) by (auto simp: decodeMsg_def ClientMsg_new_def Let_def split: if_splits)
  from read_loop_frame [OF assms(1) _ encd(3) this, of "[]" process s]
  have "onDataRead E process (concat (write_bufs ?tcp)) rcv s =
      (let r = process (sint (msg_mt ?m)) (sint (msg_st ?m)) data (sint (msg_id ?m)) s
       in if fst r \<noteq> 0 then Some (fst r, rcv\<lparr>recved := []\<rparr>, snd r) else read_loop E process (rcv\<lparr>recved := []\<rparr>) (snd r))"
    using assms(4,5) by (simp add: onDataRead_def ClientMsg_new_def Let_def split_beta)
  moreover have "rcv\<lparr>recved := []\<rparr> = rcv" using assms(4) by simp
  moreover have "read_loop E process rcv s' = Some (0, rcv, s')" for s'
    using assms(4) by (simp add: read_loop.simps next_msg_def)
  ultimately have "onDataRead E process (concat (write_bufs ?tcp)) rcv s =
      (let (eno, s') = process (sint (msg_mt ?m)) (sint (msg_st ?m)) data (sint (msg_id ?m)) s in Some (eno, rcv, s'))"
    by (simp add: Let_def split_beta)
  then show ?thesis using sent by (simp add: ClientMsg_new_def Let_def)
qed

text \<open>A machine without compression.\<close>

definition plain_env :: comm_env where
  "plain_env = \<lparr>env_fresh = (\<lambda>n. replicate n 0), env_compress = stored_zlib, env_uncompress = stored_zlib,
     env_bigendian = False\<rparr>"

definition plain_tcp :: ClientTcp where
  "plain_tcp = \<lparr>tcp_rc4 = \<lparr>rc4_key = rc4_key_table\<rparr>, tcp_aes = \<lparr>aes_key = replicate 16 1\<rparr>, recved = [], write_bufs = []\<rparr>"

theorem send_receive_witness:
  "\<exists>id msgid' tcp'. ClientTcp_sendMsg plain_env 5 130 0 1 [1, 2, 3] 41 plain_tcp = Some (id, msgid', tcp')
    \<and> onDataRead plain_env (\<lambda>mt st d i s. (0, s @ [(mt, st, d)])) (concat (write_bufs tcp')) plain_tcp []
       = Some (0, plain_tcp, [(5, - 126, [1, 2, 3])])"
  using send_receive [of plain_env "[1, 2, 3]" plain_tcp plain_tcp 1 5 130 41 "\<lambda>mt st d i s. (0, s @ [(mt, st, d)])" "[]"]
  by (simp add: plain_env_def plain_tcp_def)

lemma read_loop_cong:
  assumes same: "\<And>w :: byte. process (sint w) = process' (sint w)"
  shows "read_loop E process tcp s = read_loop E process' tcp s"
proof (induction "length (recved tcp)" arbitrary: tcp s rule: less_induct)
  case less
  show ?case
  proof (cases "next_msg E tcp")
    case (Got msg cont rest)
    have "read_loop E process (tcp\<lparr>recved := rest\<rparr>) s' = read_loop E process' (tcp\<lparr>recved := rest\<rparr>) s'" for s'
      using less next_msg_shorter [OF Got] by simp
    then show ?thesis by (subst (1 2) read_loop.simps) (simp add: Got same Let_def split_beta)
  qed (subst (1 2) read_loop.simps, simp)+
qed

text \<open>Message types above 127 never reach a callback: what the receiver does depends on
  \<open>processMsg\<close> only at types between -128 and 127, although \<open>sendMsg\<close> and \<open>addMsgCallback\<close> take the
  types up to 255.\<close>

theorem onDataRead_signed_types:
  assumes "\<forall>mt st d id s. - 128 \<le> mt \<and> mt < 128 \<longrightarrow> process mt st d id s = process' mt st d id s"
  shows "onDataRead E process data tcp s = onDataRead E process' data tcp s"
proof -
  have same: "process (sint (w :: byte)) = process' (sint w)" for w
    using assms sint_range_size [of w] by (intro ext) (simp add: word_size)
  show ?thesis unfolding onDataRead_def by (rule read_loop_cong) (rule same)
qed

theorem onDataRead_signed_types_witness:
  "onDataRead plain_env (\<lambda>mt st d i s. if mt = 255 then (1, s + 1) else (0, s)) [9, 9] plain_tcp (0::nat)
     = onDataRead plain_env (\<lambda>mt st d i s. (0, s)) [9, 9] plain_tcp 0"
  by (rule onDataRead_signed_types) simp

end
