(* ===== verification/BlmBase.thy ===== *)
theory BlmBase
  imports Util_Fun
begin

text \<open>
  The base layer of \<open>src/blmbase.cpp\<close> and \<open>include/blm/blmbase.h\<close>: the log filter and the checkers
  that log, tick arithmetic, and the producer-consumer pool \<open>ProConPool\<close>. The pool is modelled with
  the interleavings its code allows: the critical sections that the mutex makes atomic are single
  steps, and a thread that has come through \<open>available.wait()\<close> but does not hold the mutex yet is
  part of the state.
\<close>

section \<open>Logging\<close>

record log_state =
  blmlog_level :: int
  blmlog_modules :: "string list"

definition log_init :: log_state where
  "log_init = \<lparr>blmlog_level = 3, blmlog_modules = []\<rparr>"

text \<open>The guard of \<open>blmlog\<close> and \<open>blmlogDump\<close>: whether a line is passed on to \<open>pj_log\<close>.\<close>

definition log_passes :: "log_state \<Rightarrow> int \<Rightarrow> string \<Rightarrow> bool" where
  "log_passes l detaillevel module \<longleftrightarrow>
     \<not> (detaillevel > blmlog_level l \<or>
        blmlog_modules l \<noteq> [] \<and> module \<notin> set (blmlog_modules l))"

text \<open>The lines handed to \<open>pj_log\<close>, with level and module; the text is what the format expands to.\<close>

type_synonym log_line = "int \<times> string \<times> string"

definition blmlog :: "log_state \<Rightarrow> int \<Rightarrow> string \<Rightarrow> string \<Rightarrow> log_line list" where
  "blmlog l detaillevel module str =
     (if log_passes l detaillevel module then [(detaillevel, module, str)] else [])"

definition blmlogDump :: "log_state \<Rightarrow> int \<Rightarrow> string \<Rightarrow> string \<Rightarrow> bytes \<Rightarrow> log_line list" where
  "blmlogDump l detaillevel module tag data =
     (if \<not> log_passes l detaillevel module then []
      else blmlog l detaillevel module
             (''dumping '' @ tag @ '' '' @ hex_nat (length data) @ '' bytes:'') @
           blmlog l detaillevel module (CHR 0x0A # c_str (getHexDump data)))"

definition blmSetLog :: "int \<Rightarrow> string \<Rightarrow> log_state \<Rightarrow> log_state" where
  "blmSetLog detail_level modules l =
     (let ms = splitString modules CHR '' ''
      in \<lparr>blmlog_level = detail_level, blmlog_modules = fold List.insert ms (blmlog_modules l)\<rparr>)"

text \<open>\<open>checkpj = status\<close> and \<open>checktrue = status\<close>: a failure is logged and nothing else happens.
  \<open>PJ_SUCCESS\<close> is zero; the value of \<open>PJ_EPENDING\<close> is pjlib's.\<close>

definition CheckerPjStatus :: "log_state \<Rightarrow> int \<Rightarrow> int \<Rightarrow> string \<Rightarrow> log_line list" where
  "CheckerPjStatus l PJ_EPENDING status str =
     (if status \<noteq> 0 \<and> status \<noteq> PJ_EPENDING then blmlog l 0 ''checkpj'' str else [])"

definition CheckerTrue :: "log_state \<Rightarrow> bool \<Rightarrow> string \<Rightarrow> log_line list" where
  "CheckerTrue l status str = (if status \<noteq> True then blmlog l 0 ''checktrue'' str else [])"

text \<open>After any sequence of calls of \<open>blmSetLog\<close> a line passes the filter exactly when its level
  is at most the one set last and its module was named in any of the calls, or none was ever
  named: the modules of earlier calls are never forgotten.\<close>

theorem log_filter:
  "log_passes (fold (\<lambda>(lev, ms). blmSetLog lev ms) calls log_init) detaillevel module \<longleftrightarrow>
     detaillevel \<le> (if calls = [] then 3 else fst (last calls)) \<and>
     ((\<forall>c \<in> set calls. splitString (snd c) CHR '' '' = []) \<or>
      (\<exists>c \<in> set calls. module \<in> set (splitString (snd c) CHR '' '')))"
proof -
  have ins: "set (fold List.insert xs ys) = set xs \<union> set ys" for xs ys :: "string list"
    by (induction xs arbitrary: ys) auto
  have "blmlog_level (fold (\<lambda>(lev, ms). blmSetLog lev ms) calls l)
          = (if calls = [] then blmlog_level l else fst (last calls)) \<and>
        set (blmlog_modules (fold (\<lambda>(lev, ms). blmSetLog lev ms) calls l))
          = set (blmlog_modules l) \<union> (\<Union>c \<in> set calls. set (splitString (snd c) CHR '' ''))" for l
    by (induction calls arbitrary: l) (auto simp: blmSetLog_def Let_def ins)
  from this [of log_init] show ?thesis
    by (auto simp: log_passes_def log_init_def simp flip: set_empty)
qed

theorem log_filter_witness:
  "\<not> log_passes (blmSetLog 3 [] (blmSetLog 3 ''main'' log_init)) 0 ''blmcomm''"
  using log_filter [of "[(3, ''main''), (3, [])]" 0 "''blmcomm''"] by (simp add: splitString_def)

section \<open>Time\<close>

record Time =
  time_sec :: int
  time_msec :: int

text \<open>A value of C's \<open>int\<close>; arithmetic that leaves the range is not defined, which is \<open>None\<close>.\<close>

definition in_int :: "int \<Rightarrow> bool" where
  "in_int v \<longleftrightarrow> - (2 ^ 31) \<le> v \<and> v < 2 ^ 31"

definition getTickDiff :: "Time \<Rightarrow> Time \<Rightarrow> int option" where
  "getTickDiff tv1 tv2 =
     (let d = time_sec tv1 - time_sec tv2; m = d * 1000; a = m + time_msec tv1; r = a - time_msec tv2
      in if in_int d \<and> in_int m \<and> in_int a \<and> in_int r then Some r else None)"

definition addTick :: "Time \<Rightarrow> int \<Rightarrow> Time option" where
  "addTick tv millisec =
     (let s = millisec + time_msec tv; sec = time_sec tv + cdiv s 1000
      in if in_int s \<and> in_int sec then Some \<lparr>time_sec = sec, time_msec = cmod s 1000\<rparr> else None)"

text \<open>The instant a time stands for, in milliseconds.\<close>

definition millis :: "Time \<Rightarrow> int" where
  "millis tv = time_sec tv * 1000 + time_msec tv"

definition time_norm :: "Time \<Rightarrow> bool" where
  "time_norm tv \<longleftrightarrow> 0 \<le> time_msec tv \<and> time_msec tv < 1000"

lemma addTick_millis: "addTick tv ms = Some tv' \<Longrightarrow> millis tv' = millis tv + ms"
  using cdiv_cmod [of "ms + time_msec tv" 1000]
  by (auto simp: addTick_def millis_def Let_def algebra_simps split: if_splits)

lemma addTick_norm: "addTick tv ms = Some tv' \<Longrightarrow> time_norm tv \<Longrightarrow> 0 \<le> ms \<Longrightarrow> time_norm tv'"
  by (auto simp: addTick_def time_norm_def Let_def split: if_splits)

lemma getTickDiff_millis: "getTickDiff tv1 tv2 = Some d \<Longrightarrow> d = millis tv1 - millis tv2"
  by (auto simp: getTickDiff_def millis_def Let_def algebra_simps split: if_splits)

text \<open>Where no \<open>int\<close> overflows, \<open>addTick\<close> moves the instant by exactly the given milliseconds,
  forwards or backwards, \<open>getTickDiff\<close> measures what was added, and a normalised time stays
  normalised when time moves forwards.\<close>

theorem tick_arithmetic:
  assumes "addTick tv ms = Some tv'" "getTickDiff tv' tv = Some d"
  shows "millis tv' = millis tv + ms \<and> d = ms \<and> (time_norm tv \<and> 0 \<le> ms \<longrightarrow> time_norm tv')"
  using addTick_millis [OF assms(1)] addTick_norm [OF assms(1)] getTickDiff_millis [OF assms(2)] by simp

theorem tick_arithmetic_witness:
  "addTick \<lparr>time_sec = 5, time_msec = 900\<rparr> 1250 = Some \<lparr>time_sec = 7, time_msec = 150\<rparr>
   \<and> time_norm \<lparr>time_sec = 7, time_msec = 150\<rparr>"
  using tick_arithmetic [of "\<lparr>time_sec = 5, time_msec = 900\<rparr>" 1250 "\<lparr>time_sec = 7, time_msec = 150\<rparr>" 1250]
  by (simp add: addTick_def getTickDiff_def in_int_def Let_def cdiv_def cmod_def time_norm_def)

section \<open>The producer-consumer pool\<close>

text \<open>The fields of \<open>ProConPool\<close>; \<open>pool_avail\<close> is the value of the semaphore \<open>available\<close>, and
  \<open>pool_woken\<close> the number of threads that have returned from \<open>available.wait()\<close> and wait for the
  mutex.\<close>

record 'a ProConPool =
  pool_sz :: int
  pool_data :: "'a list"
  pool_avail :: nat
  pool_woken :: nat

definition ProConPool_new :: "'a ProConPool" where
  "ProConPool_new = \<lparr>pool_sz = 0, pool_data = [], pool_avail = 0, pool_woken = 0\<rparr>"

definition sem_post :: "'a ProConPool \<Rightarrow> 'a ProConPool" where
  "sem_post p = p\<lparr>pool_avail := pool_avail p + 1\<rparr>"

text \<open>\<open>None\<close>: the thread blocks.\<close>

definition sem_wait :: "'a ProConPool \<Rightarrow> 'a ProConPool option" where
  "sem_wait p = (if pool_avail p > 0 then Some (p\<lparr>pool_avail := pool_avail p - 1\<rparr>) else None)"

definition pool_add :: "'a \<Rightarrow> 'a ProConPool \<Rightarrow> 'a ProConPool" where
  "pool_add product p =
     (let p = (if pool_data p = [] then sem_post p else p)
      in p\<lparr>pool_data := pool_data p @ [product], pool_sz := pool_sz p + 1\<rparr>)"

definition pool_addAll :: "'a list \<Rightarrow> 'a ProConPool \<Rightarrow> 'a ProConPool" where
  "pool_addAll initems p =
     (let p = (if pool_data p = [] \<and> initems \<noteq> [] then sem_post p else p)
      in p\<lparr>pool_sz := pool_sz p + int (length initems), pool_data := pool_data p @ initems\<rparr>)"

text \<open>\<open>data.front(); data.pop_front(); sz--; if (!data.empty()) available.post()\<close>; on an empty list
  \<open>front()\<close> is not defined, which is \<open>None\<close>.\<close>

definition pool_pop :: "'a ProConPool \<Rightarrow> ('a \<times> 'a ProConPool) option" where
  "pool_pop p =
     (case pool_data p of
        [] \<Rightarrow> None
      | ret # rest \<Rightarrow>
          (let p = p\<lparr>pool_data := rest, pool_sz := pool_sz p - 1\<rparr>
           in Some (ret, if rest \<noteq> [] then sem_post p else p)))"

text \<open>\<open>remove\<close> and \<open>removeAll\<close> wait outside the mutex: their two parts.\<close>

definition pool_wait :: "'a ProConPool \<Rightarrow> 'a ProConPool option" where
  "pool_wait p = map_option (\<lambda>p. p\<lparr>pool_woken := pool_woken p + 1\<rparr>) (sem_wait p)"

definition pool_remove :: "'a ProConPool \<Rightarrow> ('a \<times> 'a ProConPool) option" where
  "pool_remove p = pool_pop (p\<lparr>pool_woken := pool_woken p - 1\<rparr>)"

definition pool_splice :: "'a ProConPool \<Rightarrow> 'a list \<times> 'a ProConPool" where
  "pool_splice p = (pool_data p, p\<lparr>pool_data := [], pool_sz := 0\<rparr>)"

definition pool_removeAll :: "'a ProConPool \<Rightarrow> 'a list \<times> 'a ProConPool" where
  "pool_removeAll p = pool_splice (p\<lparr>pool_woken := pool_woken p - 1\<rparr>)"

text \<open>\<open>tryRemove\<close> and \<open>tryRemoveAll\<close> do all of it under the mutex; the inner \<open>None\<close> is their answer
  \<open>false\<close>, the outer one an undefined access.\<close>

definition pool_tryRemove :: "'a ProConPool \<Rightarrow> ('a option \<times> 'a ProConPool) option" where
  "pool_tryRemove p =
     (case sem_wait p of
        None \<Rightarrow> Some (None, p)
      | Some p \<Rightarrow> (case pool_pop p of Some (x, p) \<Rightarrow> Some (Some x, p) | None \<Rightarrow> None))"

definition pool_tryRemoveAll :: "'a ProConPool \<Rightarrow> 'a list option \<times> 'a ProConPool" where
  "pool_tryRemoveAll p =
     (case sem_wait p of
        None \<Rightarrow> (None, p)
      | Some p \<Rightarrow> (let (xs, p) = pool_splice p in (Some xs, p)))"

definition pool_size :: "'a ProConPool \<Rightarrow> int" where
  "pool_size p = pool_sz p"

subsection \<open>Interleaved use\<close>

text \<open>What a step of some thread does to the pool: the items it puts in and the items it takes.\<close>

inductive pool_step :: "'a ProConPool \<Rightarrow> 'a list \<Rightarrow> 'a list \<Rightarrow> 'a ProConPool \<Rightarrow> bool" where
  add: "pool_step p [x] [] (pool_add x p)"
| addAll: "pool_step p xs [] (pool_addAll xs p)"
| wait: "pool_wait p = Some p' \<Longrightarrow> pool_step p [] [] p'"
| remove: "0 < pool_woken p \<Longrightarrow> pool_remove p = Some (x, p') \<Longrightarrow> pool_step p [] [x] p'"
| removeAll: "0 < pool_woken p \<Longrightarrow> pool_removeAll p = (xs, p') \<Longrightarrow> pool_step p [] xs p'"
| tryRemove: "pool_tryRemove p = Some (Some x, p') \<Longrightarrow> pool_step p [] [x] p'"
| tryRemoveAll: "pool_tryRemoveAll p = (Some xs, p') \<Longrightarrow> pool_step p [] xs p'"

inductive pool_run :: "'a list \<Rightarrow> 'a list \<Rightarrow> 'a ProConPool \<Rightarrow> bool" where
  start: "pool_run [] [] ProConPool_new"
| step: "pool_run ins outs p \<Longrightarrow> pool_step p i out p' \<Longrightarrow> pool_run (ins @ i) (outs @ out) p'"

inductive_cases pool_stepE: "pool_step p i out p'"

text \<open>The semaphore and the woken threads together count one exactly when there is something to take.\<close>

definition pool_inv :: "'a ProConPool \<Rightarrow> bool" where
  "pool_inv p \<longleftrightarrow> pool_sz p = int (length (pool_data p)) \<and>
     pool_avail p + pool_woken p = (if pool_data p = [] then 0 else 1)"

lemmas pool_defs = pool_add_def pool_addAll_def pool_wait_def pool_remove_def pool_removeAll_def
  pool_tryRemove_def pool_tryRemoveAll_def pool_pop_def pool_splice_def sem_post_def sem_wait_def Let_def

lemma pool_step_inv [inv_intros]:
  "pool_step p i out p' \<Longrightarrow> pool_inv p \<Longrightarrow> pool_inv p' \<and> pool_data p @ i = out @ pool_data p'"
  by (erule pool_stepE)
     (auto simp: pool_defs pool_inv_def split: if_splits list.splits option.splits)

lemma pool_run_inv: "pool_run ins outs p \<Longrightarrow> pool_inv p \<and> ins = outs @ pool_data p"
proof (induction rule: pool_run.induct)
  case (step ins outs p i out p')
  then show ?case using pool_step_inv [OF step.hyps(2)] by auto
qed (simp add: pool_inv_def ProConPool_new_def)

text \<open>C11: Whatever the interleaving of producers and consumers, items leave the pool in the order
  they came in, none lost and none twice; \<open>sz\<close> is the number of items; the semaphore never exceeds
  one; and whenever there are items, some consumer can take them: the semaphore is free or a thread
  has already been woken.\<close>

theorem pool_fifo:
  assumes "pool_run ins outs p"
  shows "ins = outs @ pool_data p \<and> pool_size p = int (length (pool_data p)) \<and> pool_avail p \<le> 1
    \<and> (pool_data p \<noteq> [] \<longleftrightarrow> pool_avail p = 1 \<or> pool_woken p = 1)"
  using pool_run_inv [OF assms] by (auto simp: pool_inv_def pool_size_def split: if_splits)

theorem pool_fifo_witness:
  "[1, 2] = [1] @ pool_data (snd (the (pool_tryRemove (pool_add (2::nat) (pool_add 1 ProConPool_new)))))"
proof -
  let ?p = "pool_add (2::nat) (pool_add 1 ProConPool_new)"
  have "pool_run [] [] (ProConPool_new :: nat ProConPool)" by (rule pool_run.start)
  from pool_run.step [OF this pool_step.add, of 1]
  have "pool_run [1::nat] [] (pool_add 1 ProConPool_new)" by simp
  from pool_run.step [OF this pool_step.add, of 2] have "pool_run [1::nat, 2] [] ?p" by simp
  moreover have "pool_tryRemove ?p = Some (Some 1, snd (the (pool_tryRemove ?p)))"
    by (simp add: pool_defs ProConPool_new_def)
  ultimately have "pool_run [1, 2] [1::nat] (snd (the (pool_tryRemove ?p)))"
    using pool_run.step [OF _ pool_step.tryRemove] by fastforce
  from pool_fifo [OF this] show ?thesis by simp
qed

text \<open>No consumer ever reads the front of an empty list: in every reachable state a woken thread
  finds an item, and \<open>tryRemove\<close> either answers false or finds one.\<close>

theorem pool_never_empty_front:
  assumes "pool_run ins outs p"
  shows "(0 < pool_woken p \<longrightarrow> (\<exists>x p'. pool_remove p = Some (x, p') \<and> hd (pool_data p) = x))
    \<and> pool_tryRemove p \<noteq> None"
proof -
  have "pool_inv p" using pool_run_inv [OF assms] by blast
  then show ?thesis
    by (cases "pool_data p") (auto simp: pool_defs pool_inv_def split: if_splits)
qed

theorem pool_never_empty_front_witness:
  "pool_tryRemove (pool_add (7::nat) ProConPool_new) \<noteq> None"
  using pool_never_empty_front [OF pool_run.step [OF pool_run.start pool_step.add [of _ "7::nat"]]] by blast

end
