(* ===== verification/Stl_Heap.thy ===== *)
theory Stl_Heap
  imports Blm_Prelude
begin

text \<open>
  The heap algorithms of the C++ standard library that the timer queue calls: \<open>push_heap\<close>,
  \<open>pop_heap\<close> and \<open>make_heap\<close> on a vector, with a comparison. The contract that the standard gives
  them is the locale \<open>stl_heap\<close>; the definitions here are one implementation of it.
\<close>

section \<open>The algorithms\<close>

definition swap :: "'a list \<Rightarrow> nat \<Rightarrow> nat \<Rightarrow> 'a list" where
  "swap xs i j = xs[i := xs ! j, j := xs ! i]"

definition parent :: "nat \<Rightarrow> nat" where
  "parent i = (i - 1) div 2"

function sift_up :: "('a \<Rightarrow> 'a \<Rightarrow> bool) \<Rightarrow> 'a list \<Rightarrow> nat \<Rightarrow> 'a list" where
  "sift_up cmp xs i =
     (if i = 0 then xs
      else if cmp (xs ! parent i) (xs ! i) then sift_up cmp (swap xs (parent i) i) (parent i)
      else xs)"
  by pat_completeness auto
termination by (relation "measure (\<lambda>(cmp, xs, i). i)") (auto simp: parent_def)

text \<open>The child that goes up first.\<close>

definition top_child :: "('a \<Rightarrow> 'a \<Rightarrow> bool) \<Rightarrow> 'a list \<Rightarrow> nat \<Rightarrow> nat \<Rightarrow> nat" where
  "top_child cmp xs n i =
     (if 2 * i + 2 < n \<and> cmp (xs ! (2 * i + 1)) (xs ! (2 * i + 2)) then 2 * i + 2 else 2 * i + 1)"

function sift_down :: "('a \<Rightarrow> 'a \<Rightarrow> bool) \<Rightarrow> nat \<Rightarrow> 'a list \<Rightarrow> nat \<Rightarrow> 'a list" where
  "sift_down cmp n xs i =
     (if 2 * i + 1 < n then
        let c = top_child cmp xs n i in
        if cmp (xs ! i) (xs ! c) then sift_down cmp n (swap xs i c) c else xs
      else xs)"
  by pat_completeness auto
termination
  by (relation "measure (\<lambda>(cmp, n, xs, i). n - i)") (auto simp: top_child_def split: if_splits)

declare sift_up.simps [simp del] sift_down.simps [simp del]

definition push_heap :: "('a \<Rightarrow> 'a \<Rightarrow> bool) \<Rightarrow> 'a list \<Rightarrow> 'a list" where
  "push_heap cmp xs = sift_up cmp xs (length xs - 1)"

definition pop_heap :: "('a \<Rightarrow> 'a \<Rightarrow> bool) \<Rightarrow> 'a list \<Rightarrow> 'a list" where
  "pop_heap cmp xs =
     (if length xs \<le> 1 then xs
      else sift_down cmp (length xs - 1) (swap xs 0 (length xs - 1)) 0)"

fun heapify :: "('a \<Rightarrow> 'a \<Rightarrow> bool) \<Rightarrow> 'a list \<Rightarrow> nat \<Rightarrow> 'a list" where
  "heapify cmp xs 0 = xs"
| "heapify cmp xs (Suc i) = heapify cmp (sift_down cmp (length xs) xs i) i"

definition make_heap :: "('a \<Rightarrow> 'a \<Rightarrow> bool) \<Rightarrow> 'a list \<Rightarrow> 'a list" where
  "make_heap cmp xs = heapify cmp xs (length xs div 2)"

definition is_heap :: "('a \<Rightarrow> 'a \<Rightarrow> bool) \<Rightarrow> 'a list \<Rightarrow> bool" where
  "is_heap cmp xs \<longleftrightarrow> (\<forall>i < length xs. 0 < i \<longrightarrow> \<not> cmp (xs ! parent i) (xs ! i))"

section \<open>The contract\<close>

text \<open>On the elements that \<open>ok\<close> holds of, the comparison has to order by a key, the smallest first.\<close>

locale heap_order =
  fixes cmp :: "'a \<Rightarrow> 'a \<Rightarrow> bool" and ok :: "'a \<Rightarrow> bool" and key :: "'a \<Rightarrow> int"
  assumes cmp_key: "ok a \<Longrightarrow> ok b \<Longrightarrow> cmp a b \<longleftrightarrow> key b < key a"

locale stl_heap = heap_order +
  fixes heap :: "'a list \<Rightarrow> bool" and push pop make :: "'a list \<Rightarrow> 'a list"
  assumes push_ok: "list_all ok xs \<Longrightarrow> heap (butlast xs) \<Longrightarrow> heap (push xs) \<and> mset (push xs) = mset xs"
    and pop_ok: "list_all ok xs \<Longrightarrow> heap xs \<Longrightarrow> xs \<noteq> [] \<Longrightarrow>
      heap (butlast (pop xs)) \<and> last (pop xs) = hd xs \<and> mset (pop xs) = mset xs"
    and make_ok: "list_all ok xs \<Longrightarrow> heap (make xs) \<and> mset (make xs) = mset xs"
    and top_least: "list_all ok xs \<Longrightarrow> heap xs \<Longrightarrow> x \<in> set xs \<Longrightarrow> key (hd xs) \<le> key x"

section \<open>The implementation meets the contract\<close>

lemma length_swap [simp]: "length (swap xs i j) = length xs"
  by (simp add: swap_def)

lemma mset_swap: "i < length xs \<Longrightarrow> j < length xs \<Longrightarrow> mset (swap xs i j) = mset xs"
  by (simp add: swap_def list_swap_mset)

lemma nth_swap:
  "i < length xs \<Longrightarrow> j < length xs \<Longrightarrow> k < length xs \<Longrightarrow>
   swap xs i j ! k = (if k = i then xs ! j else if k = j then xs ! i else xs ! k)"
  by (auto simp: swap_def nth_list_update)

lemma parent_less: "0 < i \<Longrightarrow> parent i < i"
  by (auto simp: parent_def)

lemma parent_child: "0 < j \<Longrightarrow> parent j = i \<longleftrightarrow> j = 2 * i + 1 \<or> j = 2 * i + 2"
  by (auto simp: parent_def)

lemma list_all_swap: "i < length xs \<Longrightarrow> j < length xs \<Longrightarrow> list_all P (swap xs i j) = list_all P xs"
  by (metis list_all_iff mset_swap mset_eq_setD)

context heap_order
begin

text \<open>Heap order below \<open>m\<close> in the first \<open>n\<close> places, with the exception of one parent.\<close>

definition ordered :: "nat \<Rightarrow> nat \<Rightarrow> 'a list \<Rightarrow> bool" where
  "ordered m n xs \<longleftrightarrow> (\<forall>j < n. 0 < j \<and> m \<le> parent j \<longrightarrow> key (xs ! parent j) \<le> key (xs ! j))"

lemma is_heap_ordered: "list_all ok xs \<Longrightarrow> is_heap cmp xs \<longleftrightarrow> ordered 0 (length xs) xs"
  using parent_less by (auto simp: is_heap_def ordered_def cmp_key list_all_length not_less)
    (metis cmp_key less_trans linorder_not_less parent_less)+

lemma ordered_root: "ordered 0 n xs \<Longrightarrow> j < n \<Longrightarrow> key (xs ! 0) \<le> key (xs ! j)"
proof (induction j rule: less_induct)
  case (less j)
  show ?case
  proof (cases "j = 0")
    case False
    then have "key (xs ! 0) \<le> key (xs ! parent j)"
      using less parent_less [of j] by simp
    also have "\<dots> \<le> key (xs ! j)" using less.prems False by (auto simp: ordered_def)
    finally show ?thesis .
  qed simp
qed

lemma sift_up_mset: "i < length xs \<Longrightarrow> mset (sift_up cmp xs i) = mset xs"
proof (induction cmp xs i rule: sift_up.induct)
  case (1 cmp xs i)
  then show ?case
    using parent_less [of i] by (subst sift_up.simps) (simp add: mset_swap less_trans [of _ i])
qed

text \<open>Heap order everywhere but between \<open>i\<close> and its parent, which may be exchanged.\<close>

definition up_ok :: "nat \<Rightarrow> 'a list \<Rightarrow> bool" where
  "up_ok i xs \<longleftrightarrow> (\<forall>j < length xs. 0 < j \<and> j \<noteq> i \<longrightarrow> key (xs ! parent j) \<le> key (xs ! j)) \<and>
     (\<forall>j < length xs. 0 < j \<and> parent j = i \<and> 0 < i \<longrightarrow> key (xs ! parent i) \<le> key (xs ! j))"

lemma up_ok_swap:
  assumes up: "up_ok i xs" and i: "0 < i" "i < length xs" and lt: "key (xs ! i) < key (xs ! parent i)"
  shows "up_ok (parent i) (swap xs (parent i) i)"
proof -
  let ?p = "parent i" and ?ys = "swap xs (parent i) i"
  have p: "?p < i" "?p < length xs" using i parent_less [of i] by auto
  have le: "key (xs ! parent j) \<le> key (xs ! j)" if "j < length xs" "0 < j" "j \<noteq> i" for j using up that by (simp add: up_ok_def)
  have below: "key (xs ! ?p) \<le> key (xs ! j)" if "j < length xs" "0 < j" "parent j = i" for j using up that i(1) by (simp add: up_ok_def)
  have nth: "?ys ! k = (if k = ?p then xs ! i else if k = i then xs ! ?p else xs ! k)" if "k < length xs" for k
    using nth_swap [OF p(2) i(2) that] .
  have "key (?ys ! parent j) \<le> key (?ys ! j)" if j: "j < length xs" "0 < j" "j \<noteq> ?p" for j
  proof -
    have pj: "parent j < length xs" "parent j \<noteq> j" using j parent_less [of j] by auto
    consider "j = i" | "j \<noteq> i" "parent j = i" | "j \<noteq> i" "parent j = ?p" | "j \<noteq> i" "parent j \<noteq> i" "parent j \<noteq> ?p" by blast
    then show ?thesis
    proof cases
      case 3
      then show ?thesis using le [OF j(1,2)] nth [of j] nth [of ?p] j p lt by auto
    qed (use nth [of j] nth [of "parent j"] le [OF j(1,2)] below [OF j(1,2)] j pj p lt in auto)
  qed
  moreover have "key (?ys ! parent ?p) \<le> key (?ys ! j)" if j: "j < length xs" "0 < j" "parent j = ?p" "0 < ?p" for j
  proof -
    have pp: "parent ?p < ?p" using j(4) parent_less by blast
    then have "key (xs ! parent ?p) \<le> key (xs ! ?p)" using le [of ?p] p j(4) by simp
    moreover have "?ys ! parent ?p = xs ! parent ?p" using nth [of "parent ?p"] pp p by auto
    moreover have "j \<noteq> ?p" using j parent_less [of j] by auto
    ultimately show ?thesis using nth [of j] le [of j] j by fastforce
  qed
  ultimately show ?thesis by (simp add: up_ok_def)
qed

lemma sift_up_ordered: "list_all ok xs \<Longrightarrow> i < length xs \<Longrightarrow> up_ok i xs \<Longrightarrow> ordered 0 (length xs) (sift_up cmp xs i)"
proof (induction i arbitrary: xs rule: less_induct)
  case (less i)
  let ?p = "parent i"
  have key: "cmp (xs ! ?p) (xs ! i) \<longleftrightarrow> key (xs ! i) < key (xs ! ?p)" if "0 < i"
    using that less.prems(1,2) parent_less [of i] cmp_key by (auto simp: list_all_length)
  show ?case
  proof (cases "0 < i \<and> cmp (xs ! ?p) (xs ! i)")
    case True
    have p: "?p < i" "?p < length xs" using True less.prems(2) parent_less [of i] by auto
    have "up_ok ?p (swap xs ?p i)" by (rule up_ok_swap [OF less.prems(3) _ less.prems(2)]) (use True key in auto)
    then show ?thesis
      using less.IH [OF p(1), of "swap xs ?p i"] less.prems(1,2) p True by (subst sift_up.simps) (simp add: list_all_swap)
  next
    case False
    then have eq: "sift_up cmp xs i = xs" by (subst sift_up.simps) auto
    have "key (xs ! ?p) \<le> key (xs ! i)" if "0 < i" using that False key by auto
    then show ?thesis using less.prems(3) unfolding eq ordered_def up_ok_def by blast
  qed
qed

lemma top_child_bounds: "2 * i + 1 < n \<Longrightarrow> i < top_child cmp xs n i \<and> top_child cmp xs n i < n \<and> parent (top_child cmp xs n i) = i"
  by (auto simp: top_child_def parent_def)

lemma top_child_least:
  assumes "list_all ok xs" "2 * i + 1 < n" "n \<le> length xs" "j < n" "0 < j" "parent j = i"
  shows "key (xs ! top_child cmp xs n i) \<le> key (xs ! j)"
proof -
  have "j = 2 * i + 1 \<or> j = 2 * i + 2" using assms(5,6) by (simp add: parent_child)
  moreover have "cmp (xs ! (2 * i + 1)) (xs ! (2 * i + 2)) \<longleftrightarrow> key (xs ! (2 * i + 2)) < key (xs ! (2 * i + 1))"
    if "2 * i + 2 < n"
    using that assms(1-3) cmp_key [of "xs ! (2 * i + 1)" "xs ! (2 * i + 2)"] by (auto simp: list_all_length)
  ultimately show ?thesis using assms(4) by (auto simp: top_child_def)
qed

lemma sift_down_mset:
  "n \<le> length xs \<Longrightarrow> mset (sift_down cmp n xs i) = mset xs \<and> length (sift_down cmp n xs i) = length xs"
proof (induction cmp n xs i rule: sift_down.induct)
  case (1 cmp n xs i)
  have "top_child cmp xs n i < length xs" "i < length xs" if "2 * i + 1 < n"
    using that 1(2) by (auto simp: top_child_def)
  then show ?case
    using 1 by (subst (1 2) sift_down.simps) (auto simp: Let_def mset_swap)
qed

lemma sift_down_rest: "n \<le> k \<Longrightarrow> k < length xs \<Longrightarrow> sift_down cmp n xs i ! k = xs ! k"
proof (induction cmp n xs i rule: sift_down.induct)
  case (1 cmp n xs i)
  have "top_child cmp xs n i < n" "i < n" if "2 * i + 1 < n"
    using that by (auto simp: top_child_def)
  then show ?case
    using 1 by (subst sift_down.simps) (auto simp: Let_def nth_swap)
qed

text \<open>Heap order below \<open>m\<close> everywhere but between \<open>i\<close> and its children, one of which may be exchanged.\<close>

definition down_ok :: "nat \<Rightarrow> nat \<Rightarrow> nat \<Rightarrow> 'a list \<Rightarrow> bool" where
  "down_ok m n i xs \<longleftrightarrow> m \<le> i \<and> (\<forall>j < n. 0 < j \<and> m \<le> parent j \<and> parent j \<noteq> i \<longrightarrow> key (xs ! parent j) \<le> key (xs ! j)) \<and>
     (\<forall>j < n. 0 < j \<and> parent j = i \<and> 0 < i \<and> m \<le> parent i \<longrightarrow> key (xs ! parent i) \<le> key (xs ! j))"

lemma down_ok_swap:
  assumes down: "down_ok m n i xs" and n: "n \<le> length xs" and c: "i < c" "c < n" "parent c = i" and lt: "key (xs ! c) < key (xs ! i)"
    and least: "\<And>j. j < n \<Longrightarrow> 0 < j \<Longrightarrow> parent j = i \<Longrightarrow> key (xs ! c) \<le> key (xs ! j)"
  shows "down_ok m n c (swap xs i c)"
proof -
  let ?ys = "swap xs i c"
  have il: "i < length xs" and cl: "c < length xs" using c n by auto
  have le: "key (xs ! parent j) \<le> key (xs ! j)" if "j < n" "0 < j" "m \<le> parent j" "parent j \<noteq> i" for j using down that by (simp add: down_ok_def)
  have above: "key (xs ! parent i) \<le> key (xs ! c)" if "0 < i" "m \<le> parent i" using down that c by (simp add: down_ok_def)
  have nth: "?ys ! k = (if k = i then xs ! c else if k = c then xs ! i else xs ! k)" if "k < length xs" for k
    using nth_swap [OF il cl that] .
  have "key (?ys ! parent j) \<le> key (?ys ! j)" if j: "j < n" "0 < j" "m \<le> parent j" "parent j \<noteq> c" for j
  proof -
    have jl: "j < length xs" "parent j < length xs" "parent j < j" using j n parent_less [of j] by auto
    consider "parent j = i" | "parent j \<noteq> i" "j = i" | "parent j \<noteq> i" "j \<noteq> i" by blast
    then show ?thesis
    proof cases
      case 1
      then show ?thesis using least [OF j(1,2) 1] nth [of j] nth [of i] jl lt il by auto
    next
      case 2
      then show ?thesis using above nth [of i] nth [of "parent j"] jl j il by auto
    next
      case 3
      then have "j \<noteq> c" using c by auto
      then show ?thesis using le [OF j(1-3)] 3 nth [of j] nth [of "parent j"] jl j by auto
    qed
  qed
  moreover have "key (?ys ! parent c) \<le> key (?ys ! j)" if j: "j < n" "0 < j" "parent j = c" for j
  proof -
    have "m \<le> i" using down by (simp add: down_ok_def)
    then have "key (xs ! c) \<le> key (xs ! j)" using le [OF j(1,2)] c j(3) by auto
    moreover have "j \<noteq> i" "j \<noteq> c" using j c parent_less [of j] by auto
    ultimately show ?thesis using nth [of j] nth [of i] j c il n by auto
  qed
  ultimately show ?thesis using down c by (simp add: down_ok_def)
qed

lemma sift_down_ordered: "list_all ok xs \<Longrightarrow> n \<le> length xs \<Longrightarrow> down_ok m n i xs \<Longrightarrow> ordered m n (sift_down cmp n xs i)"
proof (induction "n - i" arbitrary: xs i rule: less_induct)
  case less
  let ?c = "top_child cmp xs n i"
  have c: "i < ?c" "?c < n" "parent ?c = i" "cmp (xs ! i) (xs ! ?c) \<longleftrightarrow> key (xs ! ?c) < key (xs ! i)" if "2 * i + 1 < n"
    using that top_child_bounds [of i n xs] less.prems(1,2) cmp_key [of "xs ! i" "xs ! ?c"] by (auto simp: list_all_length)
  have least: "2 * i + 1 < n \<and> key (xs ! ?c) \<le> key (xs ! j)" if "j < n" "0 < j" "parent j = i" for j
    using top_child_least [OF less.prems(1) _ less.prems(2) that] that parent_child [of j i] by auto
  show ?case
  proof (cases "2 * i + 1 < n \<and> cmp (xs ! i) (xs ! ?c)")
    case True
    have "down_ok m n ?c (swap xs i ?c)" by (rule down_ok_swap [OF less.prems(3,2)]) (use c least True in auto)
    then show ?thesis
      using less.hyps [of ?c "swap xs i ?c"] c less.prems(1,2) True by (subst sift_down.simps) (simp add: Let_def list_all_swap)
  next
    case False
    then have eq: "sift_down cmp n xs i = xs" by (subst sift_down.simps) (auto simp: Let_def)
    have "key (xs ! i) \<le> key (xs ! j)" if "j < n" "0 < j" "parent j = i" for j using least [OF that] c(4) False by fastforce
    then show ?thesis using less.prems(3) unfolding eq ordered_def down_ok_def by blast
  qed
qed

lemma list_all_mset: "mset xs = mset ys \<Longrightarrow> list_all P xs = list_all P ys"
  by (metis list_all_iff mset_eq_setD)

lemma heapify_ordered:
  "list_all ok xs \<Longrightarrow> ordered i (length xs) xs \<Longrightarrow>
   ordered 0 (length xs) (heapify cmp xs i) \<and> mset (heapify cmp xs i) = mset xs"
proof (induction i arbitrary: xs)
  case (Suc i)
  let ?ys = "sift_down cmp (length xs) xs i"
  have ys: "mset ?ys = mset xs" "length ?ys = length xs" using sift_down_mset [of "length xs" xs i] by auto
  have "ordered i (length xs) ?ys"
    by (rule sift_down_ordered [OF Suc.prems(1)]) (use Suc.prems(2) parent_less [of i] in \<open>auto simp: ordered_def down_ok_def\<close>)
  then show ?case using Suc.IH [of ?ys] Suc.prems(1) ys list_all_mset [OF ys(1), of ok] by simp
qed simp

lemma ordered_butlast: "ordered 0 (length xs - 1) (butlast xs) \<longleftrightarrow> ordered 0 (length xs - 1) xs"
proof -
  have "butlast xs ! j = xs ! j \<and> butlast xs ! parent j = xs ! parent j" if "j < length xs - 1" "0 < j" for j
    using that less_trans [OF parent_less [OF that(2)] that(1)] by (simp add: nth_butlast)
  then show ?thesis by (auto simp: ordered_def)
qed

lemma push_heap_ok:
  assumes "list_all ok xs" "is_heap cmp (butlast xs)"
  shows "is_heap cmp (push_heap cmp xs) \<and> mset (push_heap cmp xs) = mset xs"
proof (cases "xs = []")
  case False
  let ?i = "length xs - 1"
  have i: "?i < length xs" using False by simp
  have "list_all ok (butlast xs)" using assms(1) by (auto simp: list_all_iff dest: in_set_butlastD)
  then have ord: "ordered 0 ?i xs"
    using assms(2) is_heap_ordered [of "butlast xs"] ordered_butlast [of xs] by simp
  have "ordered 0 (length xs) (sift_up cmp xs ?i)"
  proof (rule sift_up_ordered [OF assms(1) i])
    have "key (xs ! parent j) \<le> key (xs ! j)" if "j < length xs" "0 < j" "j \<noteq> ?i" for j
      using that parent_less [of j] ord by (auto simp: ordered_def)
    then show "up_ok ?i xs" by (auto simp: up_ok_def parent_child)
  qed
  moreover have m: "mset (sift_up cmp xs ?i) = mset xs" by (rule sift_up_mset [OF i])
  ultimately show ?thesis
    using assms(1) is_heap_ordered [of "sift_up cmp xs ?i"] list_all_mset [OF m, of ok] mset_eq_length [OF m]
    by (simp add: push_heap_def)
qed (simp add: push_heap_def is_heap_def sift_up.simps)

lemma pop_heap_ok:
  assumes "list_all ok xs" "is_heap cmp xs" "xs \<noteq> []"
  shows "is_heap cmp (butlast (pop_heap cmp xs)) \<and> last (pop_heap cmp xs) = hd xs
    \<and> mset (pop_heap cmp xs) = mset xs"
proof (cases "length xs \<le> 1")
  case True
  then show ?thesis using assms(3) by (cases xs) (auto simp: pop_heap_def is_heap_def)
next
  case False
  let ?n = "length xs - 1"
  let ?ys = "swap xs 0 ?n"
  let ?zs = "sift_down cmp ?n ?ys 0"
  have n: "0 < length xs" "?n < length xs" "0 < ?n" using False by auto
  have ys: "mset ?ys = mset xs" using n by (simp add: mset_swap)
  have zs: "mset ?zs = mset xs" "length ?zs = length xs" using sift_down_mset [of ?n ?ys 0] ys by auto
  have oys: "list_all ok ?ys" using assms(1) n by (simp add: list_all_swap)
  have ord: "ordered 0 (length xs) xs" using assms(1,2) is_heap_ordered by simp
  have "ordered 0 ?n ?zs"
  proof (rule sift_down_ordered [OF oys])
    have "key (?ys ! parent j) \<le> key (?ys ! j)" if "j < ?n" "0 < j" "parent j \<noteq> 0" for j
      using that parent_less [of j] ord n nth_swap [OF n(1,2), of j] nth_swap [OF n(1,2), of "parent j"] by (auto simp: ordered_def)
    then show "down_ok 0 ?n 0 ?ys" by (auto simp: down_ok_def)
  qed auto
  moreover have ok: "list_all ok (butlast ?zs)"
    using assms(1) list_all_mset [OF zs(1), of ok] by (auto simp: list_all_iff dest: in_set_butlastD)
  ultimately have "is_heap cmp (butlast ?zs)"
    using ordered_butlast [of ?zs] zs(2) is_heap_ordered [OF ok] by simp
  moreover have "last ?zs = xs ! 0"
    using sift_down_rest [of ?n ?n ?ys 0] n zs(2) nth_swap [OF n(1,2), of ?n]
    by (subst last_conv_nth) auto
  ultimately show ?thesis using False zs(1) assms(3) by (simp add: pop_heap_def hd_conv_nth)
qed

lemma make_heap_ok:
  assumes "list_all ok xs"
  shows "is_heap cmp (make_heap cmp xs) \<and> mset (make_heap cmp xs) = mset xs"
proof -
  have "ordered (length xs div 2) (length xs) xs" by (auto simp: ordered_def parent_def)
  from heapify_ordered [OF assms this]
  have o: "ordered 0 (length xs) (make_heap cmp xs)" and m: "mset (make_heap cmp xs) = mset xs"
    by (simp_all add: make_heap_def)
  then show ?thesis
    using is_heap_ordered [of "make_heap cmp xs"] list_all_mset [OF m, of ok] assms mset_eq_length [OF m] by simp
qed

end

sublocale heap_order \<subseteq> std: stl_heap cmp ok key "is_heap cmp" "push_heap cmp" "pop_heap cmp" "make_heap cmp"
proof
  fix xs x
  assume ok: "list_all ok xs"
  show "is_heap cmp (butlast xs) \<Longrightarrow> is_heap cmp (push_heap cmp xs) \<and> mset (push_heap cmp xs) = mset xs"
    using ok by (rule push_heap_ok)
  show "is_heap cmp xs \<Longrightarrow> xs \<noteq> [] \<Longrightarrow>
      is_heap cmp (butlast (pop_heap cmp xs)) \<and> last (pop_heap cmp xs) = hd xs \<and> mset (pop_heap cmp xs) = mset xs"
    using ok by (rule pop_heap_ok)
  show "is_heap cmp (make_heap cmp xs) \<and> mset (make_heap cmp xs) = mset xs"
    using ok by (rule make_heap_ok)
  show "is_heap cmp xs \<Longrightarrow> x \<in> set xs \<Longrightarrow> key (hd xs) \<le> key x"
    using is_heap_ordered [OF ok] ordered_root [of "length xs" xs]
    by (cases "xs = []") (auto simp: hd_conv_nth in_set_conv_nth [of x])
qed

end
