(* ===== verification/BlmTimer.thy ===== *)
theory BlmTimer
  imports BlmBase Stl_Heap
begin

text \<open>
  The timers of \<open>BlmIoqueue\<close> in \<open>src/blmcomm.cpp\<close>: the class \<open>TimerObj\<close>, registration, removal and
  the timer part of \<open>poll\<close>. The vector \<open>timerCallbacks\<close> holds addresses, the objects live in a store;
  an address without an object is a deleted one. The calls of \<open>Time::getTickcount\<close> are numbered, and
  \<open>clock n\<close> is what the \<open>n\<close>-th returns. The calls of callbacks are recorded.
\<close>

section \<open>Timer objects\<close>

record TimerObj =
  milliInter :: int
  timeout :: Time
  timer_owner :: nat

text \<open>\<open>operator <\<close>: the difference is computed in an \<open>int\<close>, with two's complement wrap-around.\<close>

definition time_less :: "Time \<Rightarrow> Time \<Rightarrow> bool" where
  "time_less to tv \<longleftrightarrow>
     sint (word_of_int ((time_sec to - time_sec tv) * 1000 + time_msec to - time_msec tv) :: 32 word) < 0"

type_synonym timer_store = "nat \<Rightarrow> TimerObj option"

definition pointerGreater :: "timer_store \<Rightarrow> nat \<Rightarrow> nat \<Rightarrow> bool" where
  "pointerGreater objs to1 to2 =
     (case (objs to1, objs to2) of
        (Some t1, Some t2) \<Rightarrow> time_less (timeout t2) (timeout t1)
      | _ \<Rightarrow> False)"

section \<open>The queue\<close>

record BlmIoqueue =
  timerCallbacks :: "nat list"
  timerObjs :: timer_store
  ticks :: nat
  called :: "nat list"

definition BlmIoqueue_new :: BlmIoqueue where
  "BlmIoqueue_new = \<lparr>timerCallbacks = [], timerObjs = Map.empty, ticks = 0, called = []\<rparr>"

definition getTickcount :: "(nat \<Rightarrow> Time) \<Rightarrow> BlmIoqueue \<Rightarrow> Time \<times> BlmIoqueue" where
  "getTickcount clock q = (clock (ticks q), q\<lparr>ticks := ticks q + 1\<rparr>)"

text \<open>\<open>resetTimer\<close> of the object at an address; \<open>None\<close> when the object is gone or an \<open>int\<close> overflows.\<close>

definition resetTimer :: "(nat \<Rightarrow> Time) \<Rightarrow> nat \<Rightarrow> BlmIoqueue \<Rightarrow> BlmIoqueue option" where
  "resetTimer clock to q =
     (case timerObjs q to of
        None \<Rightarrow> None
      | Some t \<Rightarrow>
          (let (now, q) = getTickcount clock q in
           case addTick now (milliInter t) of
             None \<Rightarrow> None
           | Some tv \<Rightarrow> Some (q\<lparr>timerObjs := (timerObjs q)(to \<mapsto> t\<lparr>timeout := tv\<rparr>)\<rparr>)))"

text \<open>\<open>addTimerCallback_imp\<close>; \<open>to\<close> is the address that \<open>new\<close> returns.\<close>

definition addTimerCallback :: "(nat \<Rightarrow> Time) \<Rightarrow> nat \<Rightarrow> int \<Rightarrow> nat \<Rightarrow> BlmIoqueue \<Rightarrow> BlmIoqueue option" where
  "addTimerCallback clock to interval owner q =
     (let t = \<lparr>milliInter = interval, timeout = \<lparr>time_sec = 0, time_msec = 0\<rparr>, timer_owner = owner\<rparr> in
      case resetTimer clock to (q\<lparr>timerObjs := (timerObjs q)(to \<mapsto> t)\<rparr>) of
        None \<Rightarrow> None
      | Some q \<Rightarrow>
          Some (q\<lparr>timerCallbacks := push_heap (pointerGreater (timerObjs q)) (timerCallbacks q @ [to])\<rparr>))"

text \<open>\<open>std::find\<close>, as an index.\<close>

fun find_index :: "'a \<Rightarrow> 'a list \<Rightarrow> nat" where
  "find_index x [] = 0"
| "find_index x (y # ys) = (if x = y then 0 else Suc (find_index x ys))"

definition removeTimer :: "nat \<Rightarrow> BlmIoqueue \<Rightarrow> int \<times> BlmIoqueue" where
  "removeTimer timer q =
     (let v = timerCallbacks q; p = find_index timer v in
      if p = length v then (- 1, q)
      else let objs = (timerObjs q)(timer := None);
               v = swap v p (length v - 1);
               v = butlast v
           in (0, q\<lparr>timerObjs := objs, timerCallbacks := make_heap (pointerGreater objs) v\<rparr>))"

text \<open>\<open>removeAllCallbackFromList\<close>: the elements that stay are moved to the front in order, the others
  are deleted; the results are the list, the deleted elements and their number. Without an object
  all are deleted.\<close>

fun removeAllCallbackFromList :: "('c \<Rightarrow> nat) \<Rightarrow> nat option \<Rightarrow> 'c list \<Rightarrow> 'c list \<times> 'c list \<times> int" where
  "removeAllCallbackFromList objof obj [] = ([], [], 0)"
| "removeAllCallbackFromList objof obj (first # cbs) =
     (let (kept, deleted, removed) = removeAllCallbackFromList objof obj cbs in
      if obj \<noteq> None \<and> objof first \<noteq> the obj then (first # kept, deleted, removed)
      else (kept, first # deleted, removed + 1))"

definition owner_of :: "timer_store \<Rightarrow> nat \<Rightarrow> nat" where
  "owner_of objs to = (case objs to of Some t \<Rightarrow> timer_owner t | None \<Rightarrow> 0)"

definition removeObjTimers :: "nat option \<Rightarrow> BlmIoqueue \<Rightarrow> int \<times> BlmIoqueue" where
  "removeObjTimers obj q =
     (let (kept, deleted, removed) =
            removeAllCallbackFromList (owner_of (timerObjs q)) obj (timerCallbacks q)
      in (removed, q\<lparr>timerCallbacks := kept, timerObjs := timerObjs q |` (- set deleted)\<rparr>))"

text \<open>The destructor deletes the timers that are left.\<close>

definition BlmIoqueue_destroy :: "BlmIoqueue \<Rightarrow> BlmIoqueue" where
  "BlmIoqueue_destroy q = (if timerCallbacks q \<noteq> [] then snd (removeObjTimers None q) else q)"

section \<open>Polling\<close>

text \<open>The body of the loop of \<open>poll\<close>. \<open>call\<close> is what the callback of a timer does to the queue. While
  it runs the address of the timer is at the end of the vector; \<open>back()\<close> of an empty vector is not
  defined.\<close>

definition poll_fire :: "(nat \<Rightarrow> Time) \<Rightarrow> (nat \<Rightarrow> BlmIoqueue \<Rightarrow> BlmIoqueue) \<Rightarrow> BlmIoqueue \<Rightarrow> BlmIoqueue option" where
  "poll_fire clock call q =
     (let to = hd (timerCallbacks q);
          q = q\<lparr>timerCallbacks := pop_heap (pointerGreater (timerObjs q)) (timerCallbacks q)\<rparr>;
          q = call to (q\<lparr>called := called q @ [to]\<rparr>)
      in case resetTimer clock to q of
           None \<Rightarrow> None
         | Some q \<Rightarrow>
             if timerCallbacks q = [] then None
             else Some (q\<lparr>timerCallbacks :=
                            push_heap (pointerGreater (timerObjs q)) (butlast (timerCallbacks q) @ [to])\<rparr>))"

definition front_due :: "Time \<Rightarrow> BlmIoqueue \<Rightarrow> bool" where
  "front_due tv q \<longleftrightarrow>
     (case timerCallbacks q of
        [] \<Rightarrow> False
      | to # _ \<Rightarrow> (case timerObjs q to of Some t \<Rightarrow> time_less (timeout t) tv | None \<Rightarrow> False))"

text \<open>The loop may run forever, which is \<open>None\<close>, as is an undefined access.\<close>

partial_function (option) poll_loop ::
  "(nat \<Rightarrow> Time) \<Rightarrow> (nat \<Rightarrow> BlmIoqueue \<Rightarrow> BlmIoqueue) \<Rightarrow> Time \<Rightarrow> BlmIoqueue \<Rightarrow> BlmIoqueue option" where
  "poll_loop clock call tv q =
     (if front_due tv q then Option.bind (poll_fire clock call q) (poll_loop clock call tv) else Some q)"

definition poll_timers ::
  "(nat \<Rightarrow> Time) \<Rightarrow> (nat \<Rightarrow> BlmIoqueue \<Rightarrow> BlmIoqueue) \<Rightarrow> BlmIoqueue \<Rightarrow> BlmIoqueue option" where
  "poll_timers clock call q = (let (tv, q) = getTickcount clock q in poll_loop clock call tv q)"

section \<open>The order of timers\<close>

text \<open>Times that are less than \<open>2\<^sup>3\<^sup>1\<close> milliseconds apart: they lie in a window from \<open>t0\<close> on.\<close>

definition in_window :: "int \<Rightarrow> Time \<Rightarrow> bool" where
  "in_window t0 tv \<longleftrightarrow> t0 \<le> millis tv \<and> millis tv < t0 + 2 ^ 31"

lemma sint_small: "- (2 ^ 31) \<le> d \<Longrightarrow> d < 2 ^ 31 \<Longrightarrow> sint (word_of_int d :: 32 word) = d"
  by (simp add: sint_sbintrunc' signed_take_bit_int_eq_self)

lemma time_less_millis: "in_window t0 a \<Longrightarrow> in_window t0 b \<Longrightarrow> time_less a b \<longleftrightarrow> millis a < millis b"
  using sint_small [of "millis a - millis b"]
  by (auto simp: time_less_def in_window_def millis_def algebra_simps)

definition timer_key :: "timer_store \<Rightarrow> nat \<Rightarrow> int" where
  "timer_key objs to = (case objs to of Some t \<Rightarrow> millis (timeout t) | None \<Rightarrow> 0)"

definition timer_ok :: "int \<Rightarrow> timer_store \<Rightarrow> nat \<Rightarrow> bool" where
  "timer_ok t0 objs to \<longleftrightarrow> (\<exists>t. objs to = Some t \<and> in_window t0 (timeout t))"

interpretation tq: heap_order "pointerGreater objs" "timer_ok t0 objs" "timer_key objs" for objs t0
  by unfold_locales
     (auto simp: pointerGreater_def timer_ok_def timer_key_def time_less_millis)

text \<open>The invariant: every address once, exactly the living objects, in heap order.\<close>

definition queue_ok :: "int \<Rightarrow> BlmIoqueue \<Rightarrow> bool" where
  "queue_ok t0 q \<longleftrightarrow> distinct (timerCallbacks q) \<and> set (timerCallbacks q) = dom (timerObjs q)
     \<and> list_all (timer_ok t0 (timerObjs q)) (timerCallbacks q)
     \<and> is_heap (pointerGreater (timerObjs q)) (timerCallbacks q)"

lemma queue_okI:
  assumes "mset v = mset v'" "distinct v'" "set v' = dom objs" "list_all (timer_ok t0 objs) v'"
    and "is_heap (pointerGreater objs) v" "timerCallbacks q = v" "timerObjs q = objs"
  shows "queue_ok t0 q"
  using assms mset_eq_imp_distinct_iff [OF assms(1)] mset_eq_setD [OF assms(1)]
  by (simp add: queue_ok_def list_all_iff)

lemma is_heap_cong:
  assumes "\<And>x y. x \<in> set xs \<Longrightarrow> y \<in> set xs \<Longrightarrow> c x y = c' x y"
  shows "is_heap c xs = is_heap c' xs"
proof -
  have "xs ! i \<in> set xs \<and> xs ! parent i \<in> set xs" if "i < length xs" "0 < i" for i
    using that parent_less [of i] by (simp add: less_trans [of "parent i" i])
  then show ?thesis using assms by (auto simp: is_heap_def)
qed

lemma pointerGreater_upd:
  "x \<noteq> to \<Longrightarrow> y \<noteq> to \<Longrightarrow> pointerGreater (objs(to := t)) x y = pointerGreater objs x y"
  by (simp add: pointerGreater_def)

lemma timer_ok_upd: "x \<noteq> to \<Longrightarrow> timer_ok t0 (objs(to := t)) x = timer_ok t0 objs x"
  by (simp add: timer_ok_def)

text \<open>Replacing the timer at the end of the vector, or putting one there, and sifting it up.\<close>

lemma queue_ok_push:
  assumes "distinct (v @ [to])" "set v \<union> {to} = insert to (dom objs)"
    and "list_all (timer_ok t0 objs) v" "is_heap (pointerGreater objs) v" "in_window t0 (timeout t)"
    and "timerObjs q = objs(to \<mapsto> t)"
    and "timerCallbacks q = push_heap (pointerGreater (objs(to \<mapsto> t))) (v @ [to])"
  shows "queue_ok t0 q"
proof -
  let ?o = "objs(to \<mapsto> t)"
  have to: "to \<notin> set v" using assms(1) by simp
  have ok: "list_all (timer_ok t0 ?o) (v @ [to])"
    using assms(3,5) to by (auto simp: list_all_iff timer_ok_upd) (auto simp: timer_ok_def)
  have "pointerGreater ?o x y = pointerGreater objs x y" if "x \<in> set v" "y \<in> set v" for x y
    using that to by (intro pointerGreater_upd) auto
  then have "is_heap (pointerGreater ?o) v" using assms(4) is_heap_cong [of v] by blast
  then have "is_heap (pointerGreater ?o) (push_heap (pointerGreater ?o) (v @ [to]))
      \<and> mset (push_heap (pointerGreater ?o) (v @ [to])) = mset (v @ [to])"
    using tq.std.push_ok [OF ok] by simp
  then show ?thesis
    using assms(1,2,6,7) ok by (intro queue_okI [of _ "v @ [to]"]) auto
qed

section \<open>Registration and removal\<close>

lemma resetTimer_Some:
  assumes "timerObjs q to = Some t" "addTick (clock (ticks q)) (milliInter t) = Some tv"
  shows "resetTimer clock to q =
    Some (q\<lparr>ticks := ticks q + 1, timerObjs := (timerObjs q)(to \<mapsto> t\<lparr>timeout := tv\<rparr>)\<rparr>)"
  using assms by (simp add: resetTimer_def getTickcount_def)

lemma addTimerCallback_ok:
  assumes "queue_ok t0 q" "to \<notin> dom (timerObjs q)"
    and "addTick (clock (ticks q)) interval = Some tv" "in_window t0 tv"
  shows "\<exists>q'. addTimerCallback clock to interval owner q = Some q' \<and> queue_ok t0 q'
    \<and> timerObjs q' = (timerObjs q)(to \<mapsto> \<lparr>milliInter = interval, timeout = tv, timer_owner = owner\<rparr>)"
proof -
  let ?t = "\<lparr>milliInter = interval, timeout = tv, timer_owner = owner\<rparr>"
  let ?o = "(timerObjs q)(to \<mapsto> ?t)"
  let ?q = "q\<lparr>ticks := ticks q + 1, timerObjs := ?o,
              timerCallbacks := push_heap (pointerGreater ?o) (timerCallbacks q @ [to])\<rparr>"
  have "addTimerCallback clock to interval owner q = Some ?q"
    using assms(3) by (simp add: addTimerCallback_def Let_def resetTimer_def getTickcount_def)
  moreover have "queue_ok t0 ?q"
    using assms(1,2,4) by (intro queue_ok_push [of "timerCallbacks q" to "timerObjs q" t0 ?t]) (auto simp: queue_ok_def)
  ultimately show ?thesis by auto
qed

lemma find_index_le: "find_index x xs \<le> length xs"
  by (induction xs) auto

lemma find_index_iff: "find_index x xs = length xs \<longleftrightarrow> x \<notin> set xs"
  by (induction xs) auto

lemma find_index_nth: "x \<in> set xs \<Longrightarrow> find_index x xs < length xs \<and> xs ! find_index x xs = x"
  by (induction xs) auto

lemma swap_last_mset:
  assumes "i < length xs"
  shows "mset (butlast (swap xs i (length xs - 1))) = mset xs - {#xs ! i#}"
proof -
  let ?ys = "swap xs i (length xs - 1)"
  have ne: "?ys \<noteq> []" using assms by (auto simp: swap_def)
  have "last ?ys = xs ! i"
    using assms ne by (simp add: last_conv_nth nth_swap)
  then have "mset ?ys = mset (butlast ?ys) + {#xs ! i#}"
    using append_butlast_last_id [OF ne] by (metis mset.simps(1,2) mset_append add_mset_add_single)
  moreover have "mset ?ys = mset xs" using assms by (intro mset_swap) auto
  ultimately show ?thesis by (metis add_diff_cancel_right')
qed

lemma removeTimer_ok:
  assumes "queue_ok t0 q" "timer \<in> dom (timerObjs q)"
  shows "\<exists>q'. removeTimer timer q = (0, q') \<and> queue_ok t0 q' \<and> timerObjs q' = (timerObjs q)(timer := None)"
proof -
  let ?v = "timerCallbacks q" and ?o = "(timerObjs q)(timer := None)"
  let ?p = "find_index timer ?v"
  let ?w = "butlast (swap ?v ?p (length ?v - 1))"
  have mem: "timer \<in> set ?v" using assms by (auto simp: queue_ok_def)
  have p: "?p < length ?v" "?v ! ?p = timer" using find_index_nth [OF mem] by auto
  have w: "mset ?w = mset ?v - {#timer#}" using swap_last_mset [OF p(1)] p(2) by simp
  have d: "distinct ?v" using assms(1) by (simp add: queue_ok_def)
  then have "mset ?w = mset (remove1 timer ?v)" using w by simp
  then have dw: "distinct ?w" "set ?w = set ?v - {timer}"
    using d mset_eq_imp_distinct_iff mset_eq_setD by (metis distinct_remove1, metis set_remove1_eq)
  have ok: "list_all (timer_ok t0 ?o) ?w"
    using assms(1) dw(2) by (auto simp: queue_ok_def list_all_iff timer_ok_upd)
  let ?q = "q\<lparr>timerObjs := ?o, timerCallbacks := make_heap (pointerGreater ?o) ?w\<rparr>"
  have "removeTimer timer q = (0, ?q)"
    using p(1) by (simp add: removeTimer_def Let_def)
  moreover have "queue_ok t0 ?q"
    using tq.std.make_ok [OF ok] dw assms(1) ok
    by (intro queue_okI [of _ ?w]) (auto simp: queue_ok_def)
  ultimately show ?thesis by auto
qed

text \<open>C14: Registering and removing timers keeps the queue in heap order with every address once and no
  object lost or left behind: registering adds exactly the new timer, due one interval from now;
  removing a registered timer deletes exactly it and answers 0; removing any other answers -1 and
  changes nothing.\<close>

theorem timer_registration:
  assumes "queue_ok t0 q"
  shows "(to \<notin> dom (timerObjs q) \<and> addTick (clock (ticks q)) interval = Some tv \<and> in_window t0 tv \<longrightarrow>
       (\<exists>q'. addTimerCallback clock to interval owner q = Some q' \<and> queue_ok t0 q'
          \<and> timerObjs q' = (timerObjs q)(to \<mapsto> \<lparr>milliInter = interval, timeout = tv, timer_owner = owner\<rparr>)))
    \<and> (\<exists>q'. removeTimer timer q = (if timer \<in> dom (timerObjs q) then 0 else - 1, q')
          \<and> queue_ok t0 q' \<and> timerObjs q' = (timerObjs q)(timer := None))"
proof -
  have "removeTimer timer q = (- 1, q) \<and> timerObjs q = (timerObjs q)(timer := None)" if "timer \<notin> dom (timerObjs q)"
    using that assms by (auto simp: removeTimer_def queue_ok_def Let_def find_index_iff fun_upd_idem)
  then show ?thesis using addTimerCallback_ok [OF assms] removeTimer_ok [OF assms] assms by auto
qed

theorem timer_registration_witness:
  "\<exists>q'. addTimerCallback (\<lambda>n. \<lparr>time_sec = 9, time_msec = 0\<rparr>) 4 250 1 BlmIoqueue_new = Some q' \<and> queue_ok 0 q'"
proof -
  have "queue_ok 0 BlmIoqueue_new" by (simp add: queue_ok_def BlmIoqueue_new_def is_heap_def)
  from timer_registration [OF this, of 4 "\<lambda>n. \<lparr>time_sec = 9, time_msec = 0\<rparr>" 250 "\<lparr>time_sec = 9, time_msec = 250\<rparr>" 1]
  show ?thesis
    by (auto simp: BlmIoqueue_new_def addTick_def in_int_def in_window_def millis_def Let_def cdiv_def cmod_def)
qed

section \<open>Polling\<close>

lemma queue_top_least:
  assumes "queue_ok t0 q" "x \<in> dom (timerObjs q)"
  shows "timer_key (timerObjs q) (hd (timerCallbacks q)) \<le> timer_key (timerObjs q) x"
  using assms tq.std.top_least [of t0 "timerObjs q" "timerCallbacks q" x] by (simp add: queue_ok_def)

text \<open>What a poll asks of its surroundings: callbacks leave the queue alone, but may read the clock; the
  clock never goes back; and every timer's next timeout is in the window and not in the past.\<close>

definition quiet :: "(nat \<Rightarrow> BlmIoqueue \<Rightarrow> BlmIoqueue) \<Rightarrow> bool" where
  "quiet call \<longleftrightarrow> (\<forall>to q. timerCallbacks (call to q) = timerCallbacks q \<and> timerObjs (call to q) = timerObjs q
     \<and> ticks q \<le> ticks (call to q) \<and> called (call to q) = called q)"

definition clock_ok :: "(nat \<Rightarrow> Time) \<Rightarrow> int \<Rightarrow> nat \<Rightarrow> TimerObj \<Rightarrow> bool" where
  "clock_ok clock t0 n t \<longleftrightarrow> in_window t0 (clock n) \<and> 0 \<le> milliInter t \<and>
     (\<forall>m \<ge> n. millis (clock n) \<le> millis (clock m) \<and>
       (\<exists>tv. addTick (clock m) (milliInter t) = Some tv \<and> in_window t0 tv))"

lemma poll_fire_ok:
  assumes q: "queue_ok t0 q" "timerCallbacks q \<noteq> []" and call: "quiet call" and n: "n \<le> ticks q"
    and clk: "\<forall>x t. timerObjs q x = Some t \<longrightarrow> clock_ok clock t0 n t"
  defines "to \<equiv> hd (timerCallbacks q)"
  shows "\<exists>q' t tv. poll_fire clock call q = Some q' \<and> queue_ok t0 q' \<and> ticks q \<le> ticks q'
    \<and> timerObjs q to = Some t \<and> timerObjs q' = (timerObjs q)(to \<mapsto> t\<lparr>timeout := tv\<rparr>)
    \<and> millis (clock n) \<le> millis tv \<and> called q' = called q @ [to]"
proof -
  let ?v = "timerCallbacks q" and ?o = "timerObjs q"
  let ?w = "pop_heap (pointerGreater ?o) ?v"
  let ?q1 = "call to (q\<lparr>timerCallbacks := ?w, called := called q @ [to]\<rparr>)"
  have q1: "timerCallbacks ?q1 = ?w" "timerObjs ?q1 = ?o" "called ?q1 = called q @ [to]" "n \<le> ticks ?q1"
      "ticks q \<le> ticks ?q1"
  proof -
    let ?q0 = "q\<lparr>timerCallbacks := ?w, called := called q @ [to]\<rparr>"
    have "timerCallbacks (call to ?q0) = timerCallbacks ?q0 \<and> timerObjs (call to ?q0) = timerObjs ?q0
        \<and> ticks ?q0 \<le> ticks (call to ?q0) \<and> called (call to ?q0) = called ?q0"
      using call unfolding quiet_def by blast
    then show "timerCallbacks ?q1 = ?w" "timerObjs ?q1 = ?o" "called ?q1 = called q @ [to]" "n \<le> ticks ?q1"
        "ticks q \<le> ticks ?q1" using n by simp_all
  qed
  have pop: "is_heap (pointerGreater ?o) (butlast ?w)" "last ?w = to" "mset ?w = mset ?v"
    using tq.std.pop_ok [of t0 ?o ?v] q by (auto simp: queue_ok_def to_def)
  have ne: "?w \<noteq> []" using q(2) pop(3) by auto
  then have w: "mset ?v = mset (butlast ?w @ [to])" using pop(2,3) by (metis append_butlast_last_id)
  have mem: "to \<in> dom ?o" using q by (auto simp: queue_ok_def to_def)
  then obtain t where t: "?o to = Some t" by auto
  obtain tv where tv: "addTick (clock (ticks ?q1)) (milliInter t) = Some tv" "in_window t0 tv"
    using clk [rule_format, OF t] q1(4) unfolding clock_ok_def by blast
  have "millis (clock n) \<le> millis (clock (ticks ?q1))" "0 \<le> milliInter t"
    using clk [rule_format, OF t] q1(4) by (auto simp: clock_ok_def)
  then have later: "millis (clock n) \<le> millis tv" using addTick_millis [OF tv(1)] by simp
  let ?q2 = "?q1\<lparr>ticks := ticks ?q1 + 1, timerObjs := ?o(to \<mapsto> t\<lparr>timeout := tv\<rparr>)\<rparr>"
  let ?q3 = "?q2\<lparr>timerCallbacks := push_heap (pointerGreater (timerObjs ?q2)) (butlast ?w @ [to])\<rparr>"
  have "poll_fire clock call q = Some ?q3"
    using resetTimer_Some [of ?q1 to t clock tv] t tv(1) q1 ne
    by (simp add: poll_fire_def Let_def to_def)
  moreover have "queue_ok t0 ?q3"
  proof (rule queue_ok_push [of "butlast ?w" to ?o t0 "t\<lparr>timeout := tv\<rparr>"])
    show "distinct (butlast ?w @ [to])" using w q(1) mset_eq_imp_distinct_iff by (metis queue_ok_def)
    show "set (butlast ?w) \<union> {to} = insert to (dom ?o)"
      using mset_eq_setD [OF w] q(1) mem by (auto simp: queue_ok_def)
    show "list_all (timer_ok t0 ?o) (butlast ?w)"
      using q(1) mset_eq_setD [OF w] by (auto simp: queue_ok_def list_all_iff)
  qed (use pop(1) tv(2) in auto)
  ultimately show ?thesis using t later q1 by fastforce
qed

text \<open>The timers whose time has come.\<close>

definition due :: "Time \<Rightarrow> timer_store \<Rightarrow> nat set" where
  "due tv objs = {to. \<exists>t. objs to = Some t \<and> millis (timeout t) < millis tv}"

lemma queue_window:
  assumes "queue_ok t0 q" "timerObjs q x = Some t"
  shows "in_window t0 (timeout t)"
proof -
  have "x \<in> set (timerCallbacks q)" using assms by (auto simp: queue_ok_def)
  then have "timer_ok t0 (timerObjs q) x" using assms(1) by (simp add: queue_ok_def list_all_iff)
  then show ?thesis using assms(2) by (simp add: timer_ok_def)
qed

lemma front_due_iff:
  assumes "queue_ok t0 q" "in_window t0 tv"
  shows "front_due tv q \<longleftrightarrow> due tv (timerObjs q) \<noteq> {}"
    and "front_due tv q \<Longrightarrow> timerCallbacks q \<noteq> [] \<and> hd (timerCallbacks q) \<in> due tv (timerObjs q)"
proof -
  have less: "time_less (timeout t) tv \<longleftrightarrow> millis (timeout t) < millis tv" if "timerObjs q x = Some t" for x t
    using queue_window [OF assms(1) that] assms(2) time_less_millis by blast
  have hd: "front_due tv q \<longleftrightarrow> timerCallbacks q \<noteq> [] \<and> hd (timerCallbacks q) \<in> due tv (timerObjs q)"
    using less by (auto simp: front_due_def due_def split: list.split option.split)
  then show "front_due tv q \<Longrightarrow> timerCallbacks q \<noteq> [] \<and> hd (timerCallbacks q) \<in> due tv (timerObjs q)" by simp
  have "front_due tv q" if "x \<in> due tv (timerObjs q)" for x
  proof -
    have x: "x \<in> dom (timerObjs q)" "timer_key (timerObjs q) x < millis tv"
      using that by (auto simp: due_def timer_key_def)
    then have ne: "timerCallbacks q \<noteq> []" using assms(1) by (auto simp: queue_ok_def)
    then have "hd (timerCallbacks q) \<in> dom (timerObjs q)" using assms(1) by (auto simp: queue_ok_def)
    moreover have "timer_key (timerObjs q) (hd (timerCallbacks q)) < millis tv"
      using queue_top_least [OF assms(1) x(1)] x(2) by simp
    ultimately show ?thesis using hd ne by (auto simp: due_def timer_key_def)
  qed
  then show "front_due tv q \<longleftrightarrow> due tv (timerObjs q) \<noteq> {}" using hd by auto
qed

lemma finite_due: "queue_ok t0 q \<Longrightarrow> finite (due tv (timerObjs q))"
proof -
  assume "queue_ok t0 q"
  then have "due tv (timerObjs q) \<subseteq> set (timerCallbacks q)" by (auto simp: queue_ok_def due_def)
  then show ?thesis using finite_subset by blast
qed

lemma poll_fires_front:
  assumes call: "quiet call" and tv: "in_window t0 (clock n)" and q: "queue_ok t0 q" "n \<le> ticks q"
    and clk: "\<forall>x t. timerObjs q x = Some t \<longrightarrow> clock_ok clock t0 n t" and front: "front_due (clock n) q"
  obtains q1 to where "poll_fire clock call q = Some q1" "queue_ok t0 q1" "n \<le> ticks q1" "\<forall>x t. timerObjs q1 x = Some t \<longrightarrow> clock_ok clock t0 n t"
    "called q1 = called q @ [to]" "to \<in> due (clock n) (timerObjs q)" "due (clock n) (timerObjs q1) = due (clock n) (timerObjs q) - {to}"
    "dom (timerObjs q1) = dom (timerObjs q)" "\<And>x. x \<noteq> to \<Longrightarrow> timerObjs q1 x = timerObjs q x"
    "\<And>x. x \<in> dom (timerObjs q) \<Longrightarrow> timer_key (timerObjs q) to \<le> timer_key (timerObjs q) x"
proof -
  let ?to = "hd (timerCallbacks q)" and ?o = "timerObjs q"
  have ne: "timerCallbacks q \<noteq> []" "?to \<in> due (clock n) ?o" using front_due_iff(2) [OF q(1) tv front] by auto
  obtain q1 t v where q1: "poll_fire clock call q = Some q1" "queue_ok t0 q1" "ticks q \<le> ticks q1"
      "?o ?to = Some t" "timerObjs q1 = ?o(?to \<mapsto> t\<lparr>timeout := v\<rparr>)" "millis (clock n) \<le> millis v" "called q1 = called q @ [?to]"
    using poll_fire_ok [OF q(1) ne(1) call q(2) clk] by blast
  show ?thesis
  proof (rule that [OF q1(1,2) _ _ q1(7) ne(2)])
    show "due (clock n) (timerObjs q1) = due (clock n) ?o - {?to}" using q1(5,6) by (auto simp: due_def)
    show "\<forall>x t. timerObjs q1 x = Some t \<longrightarrow> clock_ok clock t0 n t" using q1(4,5) clk by (auto simp: clock_ok_def split: if_splits)
    show "\<And>x. x \<in> dom ?o \<Longrightarrow> timer_key ?o ?to \<le> timer_key ?o x" by (rule queue_top_least [OF q(1)])
  qed (use q(2) q1(3-5) in auto)
qed

lemma poll_loop_ok:
  assumes "quiet call" "in_window t0 (clock n)" "queue_ok t0 q" "n \<le> ticks q"
    and "\<forall>x t. timerObjs q x = Some t \<longrightarrow> clock_ok clock t0 n t"
  shows "\<exists>q' fs. poll_loop clock call (clock n) q = Some q' \<and> queue_ok t0 q'
    \<and> called q' = called q @ fs \<and> distinct fs \<and> set fs = due (clock n) (timerObjs q)
    \<and> sorted (map (timer_key (timerObjs q)) fs) \<and> due (clock n) (timerObjs q') = {}
    \<and> dom (timerObjs q') = dom (timerObjs q)
    \<and> (\<forall>x. x \<notin> due (clock n) (timerObjs q) \<longrightarrow> timerObjs q' x = timerObjs q x)"
  using assms(3-5)
proof (induction "card (due (clock n) (timerObjs q))" arbitrary: q rule: less_induct)
  case less
  let ?tv = "clock n" and ?o = "timerObjs q"
  show ?case
  proof (cases "front_due ?tv q")
    case False
    then have "due ?tv ?o = {}" using front_due_iff(1) [OF less.prems(1) assms(2)] by simp
    then show ?thesis using False less.prems(1) by (subst poll_loop.simps) (auto intro: exI [of _ "[]"])
  next
    case True
    obtain q1 to where q1: "poll_fire clock call q = Some q1" "queue_ok t0 q1" "n \<le> ticks q1" "\<forall>x t. timerObjs q1 x = Some t \<longrightarrow> clock_ok clock t0 n t"
        "called q1 = called q @ [to]" and to: "to \<in> due ?tv ?o" and d1: "due ?tv (timerObjs q1) = due ?tv ?o - {to}"
        and o1: "dom (timerObjs q1) = dom ?o" "\<And>x. x \<noteq> to \<Longrightarrow> timerObjs q1 x = ?o x" and least: "\<And>x. x \<in> dom ?o \<Longrightarrow> timer_key ?o to \<le> timer_key ?o x"
      by (rule poll_fires_front [OF assms(1,2) less.prems True]) (rule that)
    have "card (due ?tv (timerObjs q1)) < card (due ?tv ?o)"
      unfolding d1 using to finite_due [OF less.prems(1)] by (meson card_Diff1_less)
    then obtain q' fs where q': "poll_loop clock call ?tv q1 = Some q'" "queue_ok t0 q'"
        "called q' = called q1 @ fs" "distinct fs" "set fs = due ?tv (timerObjs q1)"
        "sorted (map (timer_key (timerObjs q1)) fs)" "due ?tv (timerObjs q') = {}"
        "dom (timerObjs q') = dom (timerObjs q1)" "\<forall>x. x \<notin> due ?tv (timerObjs q1) \<longrightarrow> timerObjs q' x = timerObjs q1 x"
      using less.hyps [OF _ q1(2-4)] by blast
    have keys: "map (timer_key (timerObjs q1)) fs = map (timer_key ?o) fs" using q'(5) d1 o1(2) by (auto simp: timer_key_def)
    have "x \<in> dom ?o" if "x \<in> set fs" for x using that q'(5) d1 by (auto simp: due_def)
    then have "sorted (map (timer_key ?o) (to # fs))" using q'(6) least unfolding keys by simp
    moreover have "poll_loop clock call ?tv q = Some q'" using True q1(1) q'(1) by (subst poll_loop.simps) simp
    moreover have "called q' = called q @ (to # fs)" using q'(3) q1(5) by simp
    moreover have "distinct (to # fs)" "set (to # fs) = due ?tv ?o" using q'(4,5) d1 to by auto
    moreover have "timerObjs q' x = ?o x" if "x \<notin> due ?tv ?o" for x using that to d1 q'(9) o1(2) by (metis Diff_iff)
    ultimately show ?thesis using q'(2,7,8) o1(1) by metis
  qed
qed

text \<open>C4: A poll whose callbacks do not touch the queue always ends. It has called exactly the timers
  that were due when it started, each once and the earliest first; every one of them is then set to
  a time that is not due, no other timer has changed, and the queue is in order again.\<close>

theorem poll_fires_due:
  assumes "queue_ok t0 q" "quiet call" "in_window t0 (clock (ticks q))"
    and "\<forall>x t. timerObjs q x = Some t \<longrightarrow> clock_ok clock t0 (ticks q) t"
  shows "\<exists>q' fs. poll_timers clock call q = Some q' \<and> queue_ok t0 q' \<and> called q' = called q @ fs
    \<and> distinct fs \<and> set fs = due (clock (ticks q)) (timerObjs q)
    \<and> sorted (map (timer_key (timerObjs q)) fs) \<and> due (clock (ticks q)) (timerObjs q') = {}
    \<and> dom (timerObjs q') = dom (timerObjs q)
    \<and> (\<forall>x. x \<notin> due (clock (ticks q)) (timerObjs q) \<longrightarrow> timerObjs q' x = timerObjs q x)"
  using poll_loop_ok [of call t0 clock "ticks q" "q\<lparr>ticks := ticks q + 1\<rparr>"] assms
  by (auto simp: poll_timers_def getTickcount_def queue_ok_def)

text \<open>A queue with one timer that is due.\<close>

definition one_timer :: BlmIoqueue where
  "one_timer = \<lparr>timerCallbacks = [3],
     timerObjs = [3 \<mapsto> \<lparr>milliInter = 100, timeout = \<lparr>time_sec = 1, time_msec = 0\<rparr>, timer_owner = 8\<rparr>],
     ticks = 0, called = []\<rparr>"

theorem poll_fires_due_witness:
  "\<exists>q' fs. poll_timers (\<lambda>n. \<lparr>time_sec = 2, time_msec = 0\<rparr>) (\<lambda>to q. q) one_timer = Some q'
     \<and> called q' = called one_timer @ fs
     \<and> set fs = due \<lparr>time_sec = 2, time_msec = 0\<rparr> (timerObjs one_timer)"
proof -
  have "addTick \<lparr>time_sec = 2, time_msec = 0\<rparr> 100 = Some \<lparr>time_sec = 2, time_msec = 100\<rparr>"
    by (simp add: addTick_def in_int_def Let_def cdiv_def cmod_def)
  then have "\<forall>x t. timerObjs one_timer x = Some t \<longrightarrow> clock_ok (\<lambda>n. \<lparr>time_sec = 2, time_msec = 0\<rparr>) 0 (ticks one_timer) t"
    by (auto simp: one_timer_def clock_ok_def in_window_def millis_def split: if_splits)
  then show ?thesis
    using poll_fires_due [of 0 one_timer "\<lambda>to q. q" "\<lambda>n. \<lparr>time_sec = 2, time_msec = 0\<rparr>"]
    by (auto simp: one_timer_def queue_ok_def timer_ok_def in_window_def millis_def is_heap_def quiet_def)
qed

lemma poll_idle:
  "\<not> front_due (clock (ticks q)) q \<Longrightarrow> poll_timers clock call q = Some (q\<lparr>ticks := ticks q + 1\<rparr>)"
  by (cases "timerCallbacks q") (simp_all add: poll_timers_def getTickcount_def poll_loop.simps front_due_def)

section \<open>Where the queue gets out of order\<close>

lemma removeAllCallbackFromList_eq:
  "removeAllCallbackFromList objof obj cbs =
     (filter (\<lambda>c. obj \<noteq> None \<and> objof c \<noteq> the obj) cbs,
      filter (\<lambda>c. obj = None \<or> objof c = the obj) cbs,
      int (length (filter (\<lambda>c. obj = None \<or> objof c = the obj) cbs)))"
  by (induction objof obj cbs rule: removeAllCallbackFromList.induct) (auto simp: Let_def)

text \<open>Four timers, of which the one of owner 7 is removed: it is at the front, and the second moves up.\<close>

definition sec_timer :: "int \<Rightarrow> nat \<Rightarrow> TimerObj" where
  "sec_timer s owner = \<lparr>milliInter = 1000, timeout = \<lparr>time_sec = s, time_msec = 0\<rparr>, timer_owner = owner\<rparr>"

definition mixed_queue :: BlmIoqueue where
  "mixed_queue = \<lparr>timerCallbacks = [1, 2, 3, 4],
     timerObjs = [1 \<mapsto> sec_timer 10 7, 2 \<mapsto> sec_timer 50 5, 3 \<mapsto> sec_timer 20 5, 4 \<mapsto> sec_timer 60 5],
     ticks = 0, called = []\<rparr>"

lemma mixed_queue_eval:
  "timerCallbacks (snd (removeObjTimers (Some 7) mixed_queue)) = [2, 3, 4]"
  "timerObjs (snd (removeObjTimers (Some 7) mixed_queue)) 2 = Some (sec_timer 50 5)"
  "timerObjs (snd (removeObjTimers (Some 7) mixed_queue)) 3 = Some (sec_timer 20 5)"
  by (simp_all add: removeObjTimers_def removeAllCallbackFromList_eq mixed_queue_def owner_of_def sec_timer_def Let_def)

text \<open>Removing the timers of an object does not restore the heap order: there is a queue in order
  from which \<open>removeObjTimers\<close> leaves a queue whose front is not its earliest timer, and a poll then
  calls nothing although a timer is due.\<close>

theorem removeObjTimers_misses_due:
  "queue_ok 0 mixed_queue \<and>
   (let q = snd (removeObjTimers (Some 7) mixed_queue); now = \<lparr>time_sec = 30, time_msec = 0\<rparr> in
    due now (timerObjs q) = {3} \<and> (\<exists>q'. poll_timers (\<lambda>n. now) (\<lambda>to q. q) q = Some q' \<and> called q' = []))"
proof -
  let ?q = "snd (removeObjTimers (Some 7) mixed_queue)" and ?now = "\<lparr>time_sec = 30, time_msec = 0\<rparr>"
  have less: "{..<4 :: nat} = {0, 1, 2, 3}" by auto
  have "queue_ok 0 mixed_queue"
  proof (unfold queue_ok_def, intro conjI)
    show "is_heap (pointerGreater (timerObjs mixed_queue)) (timerCallbacks mixed_queue)"
      using less by (auto simp: is_heap_def mixed_queue_def parent_def pointerGreater_def sec_timer_def time_less_def
          numeral_eq_Suc less_Suc_eq)
  qed (auto simp: mixed_queue_def sec_timer_def timer_ok_def in_window_def millis_def)
  moreover have "due ?now (timerObjs ?q) = {3}"
    by (auto simp: removeObjTimers_def removeAllCallbackFromList_eq mixed_queue_def owner_of_def sec_timer_def Let_def
        due_def millis_def restrict_map_def split: if_splits)
  moreover have "\<not> front_due ?now ?q"
    by (simp add: front_due_def mixed_queue_eval sec_timer_def time_less_def)
  then have "poll_timers (\<lambda>n. ?now) (\<lambda>to q. q) ?q = Some (?q\<lparr>ticks := ticks ?q + 1\<rparr>)"
    by (rule poll_idle)
  moreover have "called (?q\<lparr>ticks := ticks ?q + 1\<rparr>) = []"
    by (simp add: removeObjTimers_def mixed_queue_def Let_def split: prod.split)
  ultimately show ?thesis by (simp add: Let_def)
qed

text \<open>A callback that registers a timer corrupts the queue: after the poll the address of the timer
  that was called is in the vector twice and the new timer is not in it, although its object lives.\<close>

theorem poll_reentrant_add_corrupts:
  "let now = \<lparr>time_sec = 2, time_msec = 0\<rparr>;
       call = (\<lambda>to q. the (addTimerCallback (\<lambda>n. now) 5 9000 8 q))
   in \<exists>q'. poll_timers (\<lambda>n. now) call one_timer = Some q' \<and> timerCallbacks q' = [3, 3]
      \<and> timerObjs q' 5 \<noteq> None"
proof -
  let ?now = "\<lparr>time_sec = 2, time_msec = 0\<rparr> :: Time"
  let ?call = "\<lambda>to q. the (addTimerCallback (\<lambda>n. ?now) 5 9000 8 q)"
  have tick: "addTick ?now 9000 = Some \<lparr>time_sec = 11, time_msec = 0\<rparr>" "addTick ?now 100 = Some \<lparr>time_sec = 2, time_msec = 100\<rparr>"
    by (simp_all add: addTick_def in_int_def Let_def cdiv_def cmod_def)
  define q1 where "q1 = one_timer\<lparr>ticks := 1\<rparr>"
  have due1: "front_due ?now q1" by (simp add: q1_def one_timer_def front_due_def time_less_def)
  obtain q2 where q2: "poll_fire (\<lambda>n. ?now) ?call q1 = Some q2" "timerCallbacks q2 = [3, 3]" "timerObjs q2 5 \<noteq> None"
      "timerObjs q2 3 = Some \<lparr>milliInter = 100, timeout = \<lparr>time_sec = 2, time_msec = 100\<rparr>, timer_owner = 8\<rparr>"
    using tick by (simp add: poll_fire_def q1_def one_timer_def pop_heap_def addTimerCallback_def resetTimer_def
        getTickcount_def push_heap_def sift_up.simps parent_def pointerGreater_def time_less_def Let_def swap_def)
  have "\<not> front_due ?now q2" using q2 by (simp add: front_due_def time_less_def)
  then have "poll_loop (\<lambda>n. ?now) ?call ?now q1 = Some q2"
    using due1 q2(1) by (simp add: poll_loop.simps)
  then show ?thesis using q2 by (simp add: poll_timers_def getTickcount_def q1_def one_timer_def)
qed

end
