(* ===== verification/BlmClient.thy ===== *)
theory BlmClient
  imports BlmMsg BlmTimer
begin

text \<open>
  The client of \<open>src/blmcomm.cpp\<close>: connecting to the fastest of several servers, the callbacks of
  the ioqueue on a TCP object, closing, and the registration and dispatch of user callbacks. The TCP
  objects live in a store under their addresses, which are never used twice; deleting an address
  without an object and using an object after it was deleted are \<open>None\<close>. A user callback is any
  function on the state of the client; the calls that were made are recorded. While a list of
  callbacks is being called, the calls go to the callbacks that were registered at the start.
\<close>

section \<open>The state\<close>

record 'cb BlmClient =
  clientTcp :: "nat option"
  tcpCandidates :: "nat list"
  tcps :: "nat \<Rightarrow> ClientTcp option"
  next_tcp :: nat
  msgid :: u32
  connCallbacks :: "'cb list"
  closeCallbacks :: "'cb list"
  msgMap :: "(int \<times> 'cb list) list"
  cb_calls :: "'cb list"

definition BlmClient_new :: "'cb BlmClient" where
  "BlmClient_new = \<lparr>clientTcp = None, tcpCandidates = [], tcps = Map.empty, next_tcp = 0, msgid = 0,
     connCallbacks = [], closeCallbacks = [], msgMap = [], cb_calls = []\<rparr>"

type_synonym 'cb caller = "'cb \<Rightarrow> 'cb BlmClient \<Rightarrow> int \<times> 'cb BlmClient"
type_synonym 'cb msg_caller = "'cb \<Rightarrow> int \<Rightarrow> int \<Rightarrow> bytes \<Rightarrow> int \<Rightarrow> 'cb BlmClient \<Rightarrow> int \<times> 'cb BlmClient"

section \<open>Callbacks\<close>

definition addConnectCallback :: "'cb \<Rightarrow> 'cb BlmClient \<Rightarrow> 'cb BlmClient" where
  "addConnectCallback cb c = c\<lparr>connCallbacks := cb # connCallbacks c\<rparr>"

definition addCloseCallback :: "'cb \<Rightarrow> 'cb BlmClient \<Rightarrow> 'cb BlmClient" where
  "addCloseCallback cb c = c\<lparr>closeCallbacks := cb # closeCallbacks c\<rparr>"

text \<open>\<open>msgMap[mt].push_front(cb)\<close>; the map is kept in the order of its keys.\<close>

fun map_push_front :: "int \<Rightarrow> 'cb \<Rightarrow> (int \<times> 'cb list) list \<Rightarrow> (int \<times> 'cb list) list" where
  "map_push_front mt cb [] = [(mt, [cb])]"
| "map_push_front mt cb ((k, cbs) # m) =
     (if mt < k then (mt, [cb]) # (k, cbs) # m
      else if mt = k then (k, cb # cbs) # m
      else (k, cbs) # map_push_front mt cb m)"

definition addMsgCallback :: "int \<Rightarrow> 'cb \<Rightarrow> 'cb BlmClient \<Rightarrow> 'cb BlmClient" where
  "addMsgCallback mt cb c = c\<lparr>msgMap := map_push_front mt cb (msgMap c)\<rparr>"

fun callList :: "'cb caller \<Rightarrow> 'cb list \<Rightarrow> 'cb BlmClient \<Rightarrow> int \<times> 'cb BlmClient" where
  "callList call [] c = (0, c)"
| "callList call (p # ls) c =
     (let (eno, c) = call p (c\<lparr>cb_calls := cb_calls c @ [p]\<rparr>)
      in if eno \<noteq> 0 then (eno, c) else callList call ls c)"

fun call_msg_list :: "'cb msg_caller \<Rightarrow> int \<Rightarrow> int \<Rightarrow> bytes \<Rightarrow> int \<Rightarrow> 'cb list \<Rightarrow> 'cb BlmClient \<Rightarrow> int \<times> 'cb BlmClient" where
  "call_msg_list mcall mt st data mid [] c = (0, c)"
| "call_msg_list mcall mt st data mid (cb # cbs) c =
     (let (eno, c) = mcall cb mt st data mid (c\<lparr>cb_calls := cb_calls c @ [cb]\<rparr>)
      in if eno \<noteq> 0 then (eno, c) else call_msg_list mcall mt st data mid cbs c)"

definition processMsg :: "'cb msg_caller \<Rightarrow> int \<Rightarrow> int \<Rightarrow> bytes \<Rightarrow> int \<Rightarrow> 'cb BlmClient \<Rightarrow> int \<times> 'cb BlmClient" where
  "processMsg mcall mt st data mid c =
     (case map_of (msgMap c) mt of
        None \<Rightarrow> (0, c)
      | Some cbs \<Rightarrow> call_msg_list mcall mt st data mid cbs c)"

text \<open>\<open>objof\<close> is the virtual function \<open>obj()\<close> of a callback.\<close>

definition removeObjCallbacks :: "('cb \<Rightarrow> nat) \<Rightarrow> nat option \<Rightarrow> 'cb BlmClient \<Rightarrow> int \<times> 'cb BlmClient" where
  "removeObjCallbacks objof obj c =
     (let (conn, _, r1) = removeAllCallbackFromList objof obj (connCallbacks c);
          (clos, _, r2) = removeAllCallbackFromList objof obj (closeCallbacks c);
          m = map (\<lambda>(mt, mcbs). (mt, removeAllCallbackFromList objof obj mcbs)) (msgMap c);
          removedCn = r1 + r2 + sum_list (map (\<lambda>(mt, (kept, _, r)). r) m);
          emptyMsg = map fst (filter (\<lambda>(mt, (kept, _, r)). kept = []) m);
          m = filter (\<lambda>(mt, kept). mt \<notin> set emptyMsg) (map (\<lambda>(mt, (kept, _, r)). (mt, kept)) m)
      in (removedCn, c\<lparr>connCallbacks := conn, closeCallbacks := clos, msgMap := m\<rparr>))"

section \<open>Connections\<close>

definition delete_tcp :: "nat \<Rightarrow> 'cb BlmClient \<Rightarrow> 'cb BlmClient option" where
  "delete_tcp p c = (if tcps c p = None then None else Some (c\<lparr>tcps := (tcps c)(p := None)\<rparr>))"

fun delete_tcps :: "nat list \<Rightarrow> 'cb BlmClient \<Rightarrow> 'cb BlmClient option" where
  "delete_tcps [] c = Some c"
| "delete_tcps (p # ps) c = Option.bind (delete_tcp p c) (delete_tcps ps)"

definition disconnect :: "'cb BlmClient \<Rightarrow> 'cb BlmClient option" where
  "disconnect c =
     (case (case clientTcp c of
              None \<Rightarrow> Some c
            | Some p \<Rightarrow> map_option (\<lambda>c. c\<lparr>clientTcp := None\<rparr>) (delete_tcp p c)) of
        None \<Rightarrow> None
      | Some c \<Rightarrow> map_option (\<lambda>c. c\<lparr>tcpCandidates := []\<rparr>) (delete_tcps (tcpCandidates c) c))"

text \<open>\<open>mk\<close> yields the object that the constructor of \<open>ClientTcp\<close> makes.\<close>

definition new_candidate :: "(nat \<Rightarrow> ClientTcp) \<Rightarrow> string \<Rightarrow> 'cb BlmClient \<Rightarrow> 'cb BlmClient" where
  "new_candidate mk ip c =
     c\<lparr>tcps := (tcps c)(next_tcp c \<mapsto> mk (next_tcp c)), next_tcp := next_tcp c + 1,
       tcpCandidates := tcpCandidates c @ [next_tcp c]\<rparr>"

definition connectFastest :: "(nat \<Rightarrow> ClientTcp) \<Rightarrow> string \<Rightarrow> 'cb BlmClient \<Rightarrow> 'cb BlmClient option" where
  "connectFastest mk ips c =
     map_option (\<lambda>c. fold (new_candidate mk) (splitString ips CHR '' '') c)
       (if clientTcp c \<noteq> None \<or> tcpCandidates c \<noteq> [] then disconnect c else Some c)"

definition onConnect :: "'cb caller \<Rightarrow> nat \<Rightarrow> 'cb BlmClient \<Rightarrow> (int \<times> 'cb BlmClient) option" where
  "onConnect call tcp c =
     map_option (\<lambda>c. callList call (connCallbacks c) (c\<lparr>tcpCandidates := [], clientTcp := Some tcp\<rparr>))
       (delete_tcps (filter (\<lambda>p. p \<noteq> tcp) (tcpCandidates c)) c)"

definition remove_candidate :: "nat \<Rightarrow> 'cb BlmClient \<Rightarrow> 'cb BlmClient option" where
  "remove_candidate tcp c =
     (let v = tcpCandidates c; i = find_index tcp v in
      if i = length v then Some c
      else map_option (\<lambda>c. c\<lparr>tcpCandidates := butlast (swap v i (length v - 1))\<rparr>) (delete_tcp tcp c))"

definition onClose :: "'cb caller \<Rightarrow> nat \<Rightarrow> 'cb BlmClient \<Rightarrow> (int \<times> 'cb BlmClient) option" where
  "onClose call tcp c =
     (case (if length (tcpCandidates c) > 0 then remove_candidate tcp c else Some c) of
        None \<Rightarrow> None
      | Some c \<Rightarrow>
          if tcpCandidates c \<noteq> [] then Some (0, c)
          else map_option (\<lambda>c. callList call (closeCallbacks c) c) (disconnect c))"

text \<open>\<open>ClientTcp::onConnect\<close>: the session key is sent before the client is told.\<close>

definition ClientTcp_onConnect :: "comm_env \<Rightarrow> 'cb caller \<Rightarrow> nat \<Rightarrow> 'cb BlmClient \<Rightarrow> (int \<times> 'cb BlmClient) option" where
  "ClientTcp_onConnect E call p c =
     (case tcps c p of
        None \<Rightarrow> None
      | Some tcp \<Rightarrow>
          (case send_session_key E (msgid c) tcp of
             None \<Rightarrow> None
           | Some (mid, msgid', tcp') \<Rightarrow>
               onConnect call p (c\<lparr>tcps := (tcps c)(p \<mapsto> tcp'), msgid := msgid'\<rparr>)))"

definition BlmClient_sendMsg :: "comm_env \<Rightarrow> int \<Rightarrow> int \<Rightarrow> bytes \<Rightarrow> 'cb BlmClient \<Rightarrow> (int \<times> 'cb BlmClient) option" where
  "BlmClient_sendMsg E mt st data c =
     (case clientTcp c of
        None \<Rightarrow> Some (- 1, c)
      | Some p \<Rightarrow>
          (case tcps c p of
             None \<Rightarrow> None
           | Some tcp \<Rightarrow>
               (case ClientTcp_sendMsg E mt st (if length data > 1024 then 1 else 0) 1 data (msgid c) tcp of
                  None \<Rightarrow> None
                | Some (mid, msgid', tcp') \<Rightarrow>
                    Some (mid, c\<lparr>tcps := (tcps c)(p \<mapsto> tcp'), msgid := msgid'\<rparr>))))"

definition BlmClient_destroy :: "('cb \<Rightarrow> nat) \<Rightarrow> 'cb BlmClient \<Rightarrow> 'cb BlmClient option" where
  "BlmClient_destroy objof c = disconnect (snd (removeObjCallbacks objof None c))"

section \<open>Events of the ioqueue\<close>

text \<open>\<open>startRead\<close> and every call of a member need the object.\<close>

definition alive :: "nat \<Rightarrow> 'cb BlmClient \<Rightarrow> bool" where
  "alive p c \<longleftrightarrow> tcps c p \<noteq> None"

definition on_ioqueue_connect :: "comm_env \<Rightarrow> 'cb caller \<Rightarrow> int \<Rightarrow> nat \<Rightarrow> 'cb BlmClient \<Rightarrow> 'cb BlmClient option" where
  "on_ioqueue_connect E call status p c =
     (if \<not> alive p c then None
      else if status \<noteq> 0 then map_option snd (onClose call p c)
      else case ClientTcp_onConnect E call p c of
        None \<Rightarrow> None
      | Some (eno, c) \<Rightarrow>
          if \<not> alive p c then None
          else if eno \<noteq> 0 then map_option snd (onClose call p c) else Some c)"

text \<open>A completed read; \<open>data\<close> is what \<open>read_buf\<close> holds. A negative count, with which an error is
  reported, writes in front of the buffer. The receiver keeps its unread bytes in the object.\<close>

definition on_ioqueue_read ::
  "comm_env \<Rightarrow> 'cb caller \<Rightarrow> 'cb msg_caller \<Rightarrow> int \<Rightarrow> bytes \<Rightarrow> nat \<Rightarrow> 'cb BlmClient \<Rightarrow> 'cb BlmClient option" where
  "on_ioqueue_read E call mcall bytes_read data p c =
     (case tcps c p of
        None \<Rightarrow> None
      | Some tcp \<Rightarrow>
          if bytes_read < 0 then None
          else if bytes_read = 0 then map_option snd (onClose call p c)
          else case onDataRead E (processMsg mcall) (take (nat bytes_read) data) tcp c of
            None \<Rightarrow> None
          | Some (eno, tcp', c) \<Rightarrow>
              (case tcps c p of
                 None \<Rightarrow> None
               | Some t \<Rightarrow>
                   (let c = c\<lparr>tcps := (tcps c)(p \<mapsto> t\<lparr>recved := recved tcp'\<rparr>)\<rparr>
                    in if eno \<noteq> 0 then map_option snd (onClose call p c) else Some c)))"

text \<open>\<open>SingleComm::removeObj\<close>: the timers and the callbacks of an object.\<close>

definition SingleComm_removeObj :: "('cb \<Rightarrow> nat) \<Rightarrow> nat \<Rightarrow> BlmIoqueue \<Rightarrow> 'cb BlmClient \<Rightarrow> int \<times> BlmIoqueue \<times> 'cb BlmClient" where
  "SingleComm_removeObj objof obj q c =
     (let (r1, q) = removeObjTimers (Some obj) q; (r2, c) = removeObjCallbacks objof (Some obj) c
      in (r1 + r2, q, c))"

section \<open>Runs\<close>

text \<open>What can happen to a client: the user connects, disconnects, sends, registers and removes
  callbacks; the ioqueue reports the end of a connect on a candidate and of a read on the connection.
  It reports only operations that were started, and none on an object that was unregistered.\<close>

inductive client_step :: "comm_env \<Rightarrow> 'cb caller \<Rightarrow> 'cb msg_caller \<Rightarrow> 'cb BlmClient \<Rightarrow> 'cb BlmClient \<Rightarrow> bool"
  for E call mcall where
  connect: "connectFastest mk ips c = Some c' \<Longrightarrow> client_step E call mcall c c'"
| disconnect: "disconnect c = Some c' \<Longrightarrow> client_step E call mcall c c'"
| send: "BlmClient_sendMsg E mt st data c = Some (mid, c') \<Longrightarrow> client_step E call mcall c c'"
| on_conn: "client_step E call mcall c (addConnectCallback cb c)"
| on_close: "client_step E call mcall c (addCloseCallback cb c)"
| on_msg: "client_step E call mcall c (addMsgCallback mt cb c)"
| remove: "removeObjCallbacks objof obj c = (n, c') \<Longrightarrow> client_step E call mcall c c'"
| connected: "p \<in> set (tcpCandidates c) \<Longrightarrow> on_ioqueue_connect E call status p c = Some c' \<Longrightarrow>
    client_step E call mcall c c'"
| read: "clientTcp c = Some p \<Longrightarrow> on_ioqueue_read E call mcall n data p c = Some c' \<Longrightarrow>
    client_step E call mcall c c'"

inductive_cases client_stepE: "client_step E call mcall c c'"

definition reachable :: "comm_env \<Rightarrow> 'cb caller \<Rightarrow> 'cb msg_caller \<Rightarrow> 'cb BlmClient \<Rightarrow> bool" where
  "reachable E call mcall c \<longleftrightarrow> (client_step E call mcall)\<^sup>*\<^sup>* BlmClient_new c"

section \<open>Ownership\<close>

text \<open>The client owns exactly the objects that live, each once; it has candidates or a connection, never
  both; and the addresses to come are unused.\<close>

definition client_inv :: "'cb BlmClient \<Rightarrow> bool" where
  "client_inv c \<longleftrightarrow> (clientTcp c = None \<or> tcpCandidates c = []) \<and> distinct (tcpCandidates c)
     \<and> dom (tcps c) = set (tcpCandidates c) \<union> set_option (clientTcp c)
     \<and> (\<forall>p \<in> dom (tcps c). p < next_tcp c)"

definition same_conn :: "'cb BlmClient \<Rightarrow> 'cb BlmClient \<Rightarrow> bool" where
  "same_conn c c' \<longleftrightarrow> clientTcp c' = clientTcp c \<and> tcpCandidates c' = tcpCandidates c
     \<and> dom (tcps c') = dom (tcps c) \<and> next_tcp c' = next_tcp c"

lemma same_conn_refl [simp]: "same_conn c c"
  by (simp add: same_conn_def)

lemma same_conn_trans [trans]: "same_conn a b \<Longrightarrow> same_conn b c \<Longrightarrow> same_conn a c"
  by (simp add: same_conn_def)

lemma same_conn_inv [inv_intros]: "same_conn c c' \<Longrightarrow> client_inv c \<Longrightarrow> client_inv c'"
  by (simp add: same_conn_def client_inv_def)

text \<open>Callbacks that leave the connections alone; they may send, register and remove callbacks.\<close>

definition keeps_conn :: "'cb caller \<Rightarrow> 'cb msg_caller \<Rightarrow> bool" where
  "keeps_conn call mcall \<longleftrightarrow> (\<forall>cb c. same_conn c (snd (call cb c))) \<and>
     (\<forall>cb mt st d i c. same_conn c (snd (mcall cb mt st d i c)))"

lemma callList_same: "keeps_conn call mcall \<Longrightarrow> same_conn c (snd (callList call ls c))"
proof (induction call ls c rule: callList.induct)
  case (2 call p ls c)
  let ?c = "c\<lparr>cb_calls := cb_calls c @ [p]\<rparr>"
  have "same_conn ?c (snd (call p ?c))" using "2.prems" unfolding keeps_conn_def by blast
  then have "same_conn c (snd (call p ?c))" by (simp add: same_conn_def)
  then show ?case
    using "2.IH" [OF refl prod.collapse] "2.prems" same_conn_trans by (auto simp: split_beta)
qed simp

lemma call_msg_list_same: "keeps_conn call mcall \<Longrightarrow> same_conn c (snd (call_msg_list mcall mt st d i ls c))"
proof (induction mcall mt st d i ls c rule: call_msg_list.induct)
  case (2 mcall mt st d i p ls c)
  let ?c = "c\<lparr>cb_calls := cb_calls c @ [p]\<rparr>"
  have "same_conn ?c (snd (mcall p mt st d i ?c))" using "2.prems" unfolding keeps_conn_def by blast
  then have "same_conn c (snd (mcall p mt st d i ?c))" by (simp add: same_conn_def)
  then show ?case
    using "2.IH" [OF refl prod.collapse] "2.prems" same_conn_trans by (auto simp: split_beta)
qed simp

lemma processMsg_same: "keeps_conn call mcall \<Longrightarrow> same_conn c (snd (processMsg mcall mt st d i c))"
  by (simp add: processMsg_def call_msg_list_same split: option.split)

lemma read_loop_same:
  assumes "\<And>mt st d i c. same_conn c (snd (process mt st d i c))"
    and "read_loop E process tcp c = Some (e, tcp', c')"
  shows "same_conn c c'"
  using assms(2)
proof (induction "length (recved tcp)" arbitrary: tcp c rule: less_induct)
  case less
  show ?case
  proof (cases "next_msg E tcp")
    case (Got msg cont rest)
    let ?p = "process (sint (msg_mt msg)) (sint (msg_st msg)) cont (sint (msg_id msg)) c"
    have p: "same_conn c (snd ?p)" by (rule assms(1))
    show ?thesis
    proof (cases "fst ?p = 0")
      case True
      then have "read_loop E process (tcp\<lparr>recved := rest\<rparr>) (snd ?p) = Some (e, tcp', c')"
        using less.prems by (subst (asm) read_loop.simps) (simp add: Got Let_def split_beta)
      then have "same_conn (snd ?p) c'" using less.hyps [of "tcp\<lparr>recved := rest\<rparr>"] next_msg_shorter [OF Got] by simp
      with p show ?thesis by (rule same_conn_trans)
    next
      case False
      then show ?thesis using less.prems p by (subst (asm) read_loop.simps) (simp add: Got Let_def split_beta)
    qed
  qed (use less.prems in \<open>subst (asm) read_loop.simps, simp\<close>)+
qed

lemma restrict_outside: "dom m \<subseteq> A \<Longrightarrow> m |` (- A) = Map.empty"
  by (auto simp: restrict_map_def fun_eq_iff)

lemma delete_tcps_ok:
  "distinct ps \<Longrightarrow> set ps \<subseteq> dom (tcps c) \<Longrightarrow> delete_tcps ps c = Some (c\<lparr>tcps := tcps c |` (- set ps)\<rparr>)"
proof (induction ps arbitrary: c)
  case (Cons p ps)
  let ?c = "c\<lparr>tcps := (tcps c)(p := None)\<rparr>"
  have 1: "delete_tcp p c = Some ?c" using Cons.prems by (auto simp: delete_tcp_def)
  have 2: "delete_tcps ps ?c = Some (?c\<lparr>tcps := tcps ?c |` (- set ps)\<rparr>)"
    by (rule Cons.IH) (use Cons.prems in auto)
  have 3: "tcps ?c |` (- set ps) = tcps c |` (- set (p # ps))"
    by (auto simp: restrict_map_def fun_eq_iff)
  show ?case unfolding delete_tcps.simps 1 Option.bind.simps 2 3 by simp
qed (simp add: restrict_map_def)

lemma disconnect_ok:
  assumes "client_inv c"
  shows "disconnect c = Some (c\<lparr>clientTcp := None, tcpCandidates := [], tcps := Map.empty\<rparr>)"
proof (cases "clientTcp c")
  case None
  have "tcps c |` (- set (tcpCandidates c)) = Map.empty"
    using assms None by (intro restrict_outside) (simp add: client_inv_def)
  then show ?thesis
    using delete_tcps_ok [of "tcpCandidates c" c] assms None by (simp add: disconnect_def client_inv_def)
next
  case (Some p)
  then have "tcpCandidates c = []" "dom (tcps c) = {p}" using assms by (auto simp: client_inv_def)
  moreover from this have "(tcps c)(p := None) = Map.empty" by (simp flip: dom_eq_empty_conv)
  ultimately show ?thesis using Some by (auto simp: disconnect_def delete_tcp_def)
qed

lemma fold_new_candidate_inv:
  "client_inv c \<Longrightarrow> clientTcp c = None \<Longrightarrow>
   client_inv (fold (new_candidate mk) ips c) \<and> clientTcp (fold (new_candidate mk) ips c) = None
   \<and> length (tcpCandidates (fold (new_candidate mk) ips c)) = length (tcpCandidates c) + length ips"
proof (induction ips arbitrary: c)
  case (Cons ip ips)
  have "client_inv (new_candidate mk ip c)"
    using Cons.prems by (auto simp: client_inv_def new_candidate_def less_Suc_eq)
  then show ?case using Cons.IH [of "new_candidate mk ip c"] Cons.prems by (simp add: new_candidate_def)
qed simp

lemma connectFastest_ok:
  assumes "client_inv c"
  shows "\<exists>c'. connectFastest mk ips c = Some c' \<and> client_inv c' \<and> clientTcp c' = None
    \<and> length (tcpCandidates c') = length (splitString ips CHR '' '')"
proof -
  let ?c = "c\<lparr>clientTcp := None, tcpCandidates := [], tcps := Map.empty\<rparr>"
  have "client_inv ?c" by (simp add: client_inv_def)
  from fold_new_candidate_inv [OF this, of mk "splitString ips CHR '' ''"]
    fold_new_candidate_inv [OF assms, of mk "splitString ips CHR '' ''"]
  show ?thesis by (auto simp: connectFastest_def disconnect_ok [OF assms])
qed

lemma onConnect_ok:
  assumes "client_inv c" "p \<in> set (tcpCandidates c)" "keeps_conn call mcall"
  shows "\<exists>e c'. onConnect call p c = Some (e, c') \<and> client_inv c' \<and> clientTcp c' = Some p \<and> dom (tcps c') = {p}"
proof -
  let ?ps = "filter (\<lambda>q. q \<noteq> p) (tcpCandidates c)"
  let ?c = "c\<lparr>tcps := tcps c |` (- set ?ps), tcpCandidates := [], clientTcp := Some p\<rparr>"
  have none: "clientTcp c = None" using assms(1,2) by (auto simp: client_inv_def)
  then have "distinct ?ps" "set ?ps \<subseteq> dom (tcps c)" using assms(1) by (auto simp: client_inv_def)
  then have on: "onConnect call p c = Some (callList call (connCallbacks c) ?c)"
    by (simp add: onConnect_def delete_tcps_ok)
  have "dom (tcps ?c) = {p}" "p < next_tcp c"
    using assms(1,2) none by (auto simp: client_inv_def)
  then have "client_inv ?c" "clientTcp ?c = Some p" by (auto simp: client_inv_def)
  moreover have same: "same_conn ?c (snd (callList call (connCallbacks c) ?c))" by (rule callList_same [OF assms(3)])
  ultimately have "client_inv (snd (callList call (connCallbacks c) ?c))" using same_conn_inv by blast
  moreover have "dom (tcps (snd (callList call (connCallbacks c) ?c))) = {p}"
    "clientTcp (snd (callList call (connCallbacks c) ?c)) = Some p"
    using same \<open>dom (tcps ?c) = {p}\<close> by (simp_all add: same_conn_def)
  ultimately show ?thesis using on by (metis prod.collapse)
qed

lemma remove_candidate_ok:
  assumes "client_inv c" "p \<in> set (tcpCandidates c)"
  shows "\<exists>c'. remove_candidate p c = Some c' \<and> client_inv c' \<and> clientTcp c' = None
    \<and> set (tcpCandidates c') = set (tcpCandidates c) - {p} \<and> closeCallbacks c' = closeCallbacks c
    \<and> cb_calls c' = cb_calls c"
proof -
  let ?v = "tcpCandidates c"
  let ?i = "find_index p ?v"
  let ?w = "butlast (swap ?v ?i (length ?v - 1))"
  have i: "?i < length ?v" "?v ! ?i = p" using find_index_nth [OF assms(2)] by auto
  have d: "distinct ?v" using assms(1) by (simp add: client_inv_def)
  have "mset ?w = mset (remove1 p ?v)" using swap_last_mset [OF i(1)] i(2) by simp
  then have w: "distinct ?w" "set ?w = set ?v - {p}"
    using d mset_eq_imp_distinct_iff mset_eq_setD by (metis distinct_remove1, metis set_remove1_eq)
  have none: "clientTcp c = None" using assms by (auto simp: client_inv_def)
  have "tcps c p \<noteq> None" using assms by (metis UnI1 client_inv_def domIff)
  then have "remove_candidate p c = Some (c\<lparr>tcps := (tcps c)(p := None), tcpCandidates := ?w\<rparr>)"
    using i(1) by (simp add: remove_candidate_def delete_tcp_def Let_def)
  moreover have "client_inv (c\<lparr>tcps := (tcps c)(p := None), tcpCandidates := ?w\<rparr>)"
    using assms(1) none w by (auto simp: client_inv_def)
  ultimately show ?thesis using none w(2) by auto
qed

lemma onClose_ok:
  assumes "client_inv c" "p \<in> set (tcpCandidates c) \<or> clientTcp c = Some p" "keeps_conn call mcall"
  shows "\<exists>e c'. onClose call p c = Some (e, c') \<and> client_inv c' \<and> tcps c' p = None"
proof -
  obtain c1 where c1: "(if length (tcpCandidates c) > 0 then remove_candidate p c else Some c) = Some c1"
      "client_inv c1" "tcpCandidates c1 \<noteq> [] \<longrightarrow> tcps c1 p = None"
  proof (cases "p \<in> set (tcpCandidates c)")
    case True
    then obtain c1 where "remove_candidate p c = Some c1" "client_inv c1" "clientTcp c1 = None"
        "set (tcpCandidates c1) = set (tcpCandidates c) - {p}"
      using remove_candidate_ok [OF assms(1)] by blast
    moreover from this have "tcps c1 p = None" by (auto simp: client_inv_def)
    moreover have "0 < length (tcpCandidates c)" using True by auto
    ultimately show ?thesis using that [of c1] by simp
  next
    case False
    then have "tcpCandidates c = []" using assms(1,2) by (auto simp: client_inv_def)
    then show ?thesis using that [of c] assms(1) by simp
  qed
  show ?thesis
  proof (cases "tcpCandidates c1 = []")
    case True
    let ?c = "c1\<lparr>clientTcp := None, tcpCandidates := [], tcps := Map.empty\<rparr>"
    let ?r = "callList call (closeCallbacks c1) ?c"
    have "onClose call p c = Some ?r"
      using c1(1) True disconnect_ok [OF c1(2)] by (simp add: onClose_def del: length_greater_0_conv)
    moreover have same: "same_conn ?c (snd ?r)" by (rule callList_same [OF assms(3)])
    then have "dom (tcps (snd ?r)) = {}" by (simp add: same_conn_def)
    then have "tcps (snd ?r) p = None" by auto
    moreover have "client_inv (snd ?r)" using same_conn_inv [OF same] by (simp add: client_inv_def)
    ultimately show ?thesis by (metis prod.collapse)
  next
    case False
    then show ?thesis using c1 by (auto simp: onClose_def simp del: length_greater_0_conv)
  qed
qed

lemma send_session_key_ok:
  "\<not> env_bigendian E \<Longrightarrow> \<exists>i m t. send_session_key E n tcp = Some (i, m, t)"
  by (simp add: send_session_key_def ClientTcp_sendMsg_def ClientMsg_new_def toLittleEndian_def Let_def)

lemma on_ioqueue_connect_ok:
  assumes "client_inv c" "p \<in> set (tcpCandidates c)" "keeps_conn call mcall" "\<not> env_bigendian E"
  shows "\<exists>c'. on_ioqueue_connect E call status p c = Some c' \<and> client_inv c'
    \<and> (status \<noteq> 0 \<longrightarrow> \<not> alive p c') \<and> (alive p c' \<longrightarrow> clientTcp c' = Some p)"
proof -
  have al: "alive p c" using assms(1,2) by (auto simp: alive_def client_inv_def)
  show ?thesis
  proof (cases "status = 0")
    case False
    then show ?thesis
      using onClose_ok [OF assms(1) _ assms(3), of p] assms(2) al by (auto simp: on_ioqueue_connect_def alive_def)
  next
    case True
    obtain tcp where tcp: "tcps c p = Some tcp" using al by (auto simp: alive_def)
    obtain i m t where t: "send_session_key E (msgid c) tcp = Some (i, m, t)"
      using send_session_key_ok [OF assms(4)] by blast
    let ?c = "c\<lparr>tcps := (tcps c)(p \<mapsto> t), msgid := m\<rparr>"
    have "same_conn c ?c" using tcp by (auto simp: same_conn_def)
    then have "client_inv ?c" using assms(1) same_conn_inv by blast
    then obtain e c' where c': "onConnect call p ?c = Some (e, c')" "client_inv c'" "clientTcp c' = Some p" "dom (tcps c') = {p}"
      using onConnect_ok [of ?c p call mcall] assms(2,3) by auto
    then have al': "alive p c'" by (auto simp: alive_def)
    have on: "ClientTcp_onConnect E call p c = Some (e, c')" using tcp t c'(1) by (simp add: ClientTcp_onConnect_def)
    show ?thesis
    proof (cases "e = 0")
      case True
      then show ?thesis using on \<open>status = 0\<close> al al' c' by (simp add: on_ioqueue_connect_def)
    next
      case False
      then show ?thesis
        using onClose_ok [OF c'(2) _ assms(3), of p] c'(3) on \<open>status = 0\<close> al al'
        by (auto simp: on_ioqueue_connect_def alive_def)
    qed
  qed
qed

lemma on_ioqueue_read_ok:
  assumes "client_inv c" "clientTcp c = Some p" "keeps_conn call mcall" "0 \<le> n"
    and "n = 0 \<or> onDataRead E (processMsg mcall) (take (nat n) data) (the (tcps c p)) c \<noteq> None"
  shows "\<exists>c'. on_ioqueue_read E call mcall n data p c = Some c' \<and> client_inv c'"
proof -
  obtain tcp where tcp: "tcps c p = Some tcp" using assms(1,2) by (auto simp: client_inv_def)
  show ?thesis
  proof (cases "n = 0")
    case True
    then show ?thesis
      using onClose_ok [OF assms(1) _ assms(3), of p] assms(2) tcp by (auto simp: on_ioqueue_read_def)
  next
    case False
    then obtain e tcp' c1 where r: "onDataRead E (processMsg mcall) (take (nat n) data) tcp c = Some (e, tcp', c1)"
      using assms(5) tcp by auto
    have same: "same_conn c c1"
      using read_loop_same [OF processMsg_same [OF assms(3)]] r by (simp add: onDataRead_def)
    then obtain t where t: "tcps c1 p = Some t" using tcp by (auto simp: same_conn_def dom_def set_eq_iff)
    let ?c = "c1\<lparr>tcps := (tcps c1)(p \<mapsto> t\<lparr>recved := recved tcp'\<rparr>)\<rparr>"
    have "same_conn c1 ?c" using t by (auto simp: same_conn_def)
    then have inv: "client_inv ?c" "clientTcp ?c = Some p"
      using same same_conn_inv [OF same assms(1)] same_conn_inv assms(2) by (blast, simp add: same_conn_def)
    then show ?thesis
      using onClose_ok [OF inv(1) _ assms(3), of p] False assms(4) tcp t r
      by (auto simp: on_ioqueue_read_def Let_def)
  qed
qed

lemma client_step_inv [inv_intros]:
  assumes "client_step E call mcall c c'" "client_inv c" "keeps_conn call mcall" "\<not> env_bigendian E"
  shows "client_inv c'"
  using assms(1)
proof (cases rule: client_step.cases)
  case (connect mk ips)
  then show ?thesis using connectFastest_ok [OF assms(2), of mk ips] by auto
next
  case disconnect
  then show ?thesis using disconnect_ok [OF assms(2)] by (auto simp: client_inv_def)
next
  case (send mt st data mid)
  then have "same_conn c c'"
    by (auto simp: BlmClient_sendMsg_def same_conn_def split: option.splits prod.splits if_splits)
  then show ?thesis using assms(2) same_conn_inv by blast
next
  case (remove objof obj n)
  then have "same_conn c c'"
    by (auto simp: removeObjCallbacks_def same_conn_def Let_def split: prod.splits)
  then show ?thesis using assms(2) same_conn_inv by blast
next
  case (connected p status)
  then show ?thesis using on_ioqueue_connect_ok [OF assms(2) _ assms(3,4), of p status] by auto
next
  case (read p n data)
  then have "0 \<le> n" by (auto simp: on_ioqueue_read_def split: option.splits if_splits)
  moreover have "n = 0 \<or> onDataRead E (processMsg mcall) (take (nat n) data) (the (tcps c p)) c \<noteq> None"
    using read by (auto simp: on_ioqueue_read_def split: option.splits if_splits)
  ultimately show ?thesis using on_ioqueue_read_ok [OF assms(2) read(1) assms(3), of n E data] read(2) by auto
qed (use assms(2) in \<open>auto simp: client_inv_def addConnectCallback_def addCloseCallback_def addMsgCallback_def\<close>)

lemma reachable_inv:
  assumes "reachable E call mcall c" "keeps_conn call mcall" "\<not> env_bigendian E"
  shows "client_inv c"
  using assms(1) unfolding reachable_def
proof (induction rule: rtranclp_induct)
  case base
  show ?case by (simp add: client_inv_def BlmClient_new_def)
next
  case (step c c')
  then show ?case using client_step_inv assms(2,3) by blast
qed

text \<open>C2: As long as user callbacks leave the connections alone, no run of the client deletes an object
  twice, uses a deleted one or loses one: in every reachable state the living TCP objects are exactly
  the candidates and the connection, there is never a connection beside candidates, and connecting,
  disconnecting, the end of a connect on any candidate and the end of a read all succeed; the read if
  its count is not negative and its messages can be decoded.\<close>

theorem client_ownership:
  assumes "reachable E call mcall c" "keeps_conn call mcall" "\<not> env_bigendian E"
  shows "dom (tcps c) = set (tcpCandidates c) \<union> set_option (clientTcp c) \<and> distinct (tcpCandidates c)
    \<and> (clientTcp c = None \<or> tcpCandidates c = [])
    \<and> connectFastest mk ips c \<noteq> None \<and> disconnect c \<noteq> None
    \<and> (p \<in> set (tcpCandidates c) \<longrightarrow> on_ioqueue_connect E call status p c \<noteq> None)
    \<and> (clientTcp c = Some p \<and> 0 \<le> n
        \<and> (n = 0 \<or> onDataRead E (processMsg mcall) (take (nat n) data) (the (tcps c p)) c \<noteq> None)
       \<longrightarrow> on_ioqueue_read E call mcall n data p c \<noteq> None)"
proof -
  have inv: "client_inv c" by (rule reachable_inv [OF assms])
  have "connectFastest mk ips c \<noteq> None" using connectFastest_ok [OF inv, of mk ips] by auto
  moreover have "on_ioqueue_connect E call status p c \<noteq> None" if "p \<in> set (tcpCandidates c)"
    using on_ioqueue_connect_ok [OF inv that assms(2,3), of status] by auto
  moreover have "on_ioqueue_read E call mcall n data p c \<noteq> None"
    if "clientTcp c = Some p" "0 \<le> n" "n = 0 \<or> onDataRead E (processMsg mcall) (take (nat n) data) (the (tcps c p)) c \<noteq> None"
    using on_ioqueue_read_ok [OF inv that(1) assms(2) that(2,3)] by auto
  ultimately show ?thesis using inv disconnect_ok [OF inv] by (auto simp: client_inv_def)
qed

text \<open>Callbacks that do nothing.\<close>

definition idle_call :: "nat caller" where
  "idle_call cb c = (0, c)"

definition idle_mcall :: "nat msg_caller" where
  "idle_mcall cb mt st d i c = (0, c)"

lemma keeps_conn_idle: "keeps_conn idle_call idle_mcall"
  by (simp add: keeps_conn_def idle_call_def idle_mcall_def)

definition two_servers :: "nat BlmClient" where
  "two_servers = the (connectFastest (\<lambda>n. plain_tcp) ''10.0.0.1 10.0.0.2'' (addCloseCallback 77 BlmClient_new))"

lemma two_servers_eval:
  "connectFastest (\<lambda>n. plain_tcp) ''10.0.0.1 10.0.0.2'' (addCloseCallback 77 BlmClient_new) = Some two_servers"
  "tcpCandidates two_servers = [0, 1]" "clientTcp two_servers = None" "closeCallbacks two_servers = [77]"
  "connCallbacks two_servers = []" "cb_calls two_servers = []"
  by (simp_all add: two_servers_def connectFastest_def addCloseCallback_def BlmClient_new_def splitString_def new_candidate_def)

lemma reachable_two_servers: "reachable plain_env idle_call idle_mcall two_servers"
proof -
  have "client_step plain_env idle_call idle_mcall BlmClient_new (addCloseCallback 77 BlmClient_new)"
    by (rule client_step.on_close)
  moreover have "client_step plain_env idle_call idle_mcall (addCloseCallback 77 BlmClient_new) two_servers"
    by (rule client_step.connect [OF two_servers_eval(1)])
  ultimately show ?thesis
    unfolding reachable_def by (rule rtranclp.rtrancl_into_rtrancl [OF r_into_rtranclp])
qed

theorem client_ownership_witness:
  "dom (tcps two_servers) = {0, 1} \<and> on_ioqueue_connect plain_env idle_call 0 1 two_servers \<noteq> None"
  using client_ownership [OF reachable_two_servers keeps_conn_idle, of "\<lambda>n. plain_tcp" "[]" 1 0 0 "[]"]
  by (auto simp: two_servers_eval plain_env_def)



lemma callList_idle: "callList idle_call ls c = (0, c\<lparr>cb_calls := cb_calls c @ ls\<rparr>)"
  by (induction ls arbitrary: c) (simp_all add: idle_call_def)

text \<open>The close callbacks are also called when no connection was ever made: when the last candidate
  fails to connect, every close callback is called.\<close>

theorem close_without_connect:
  assumes "client_inv c" "tcpCandidates c = [p]" "status \<noteq> 0"
  shows "\<exists>c'. on_ioqueue_connect E idle_call status p c = Some c' \<and> cb_calls c' = cb_calls c @ closeCallbacks c
    \<and> clientTcp c' = None \<and> tcps c' = Map.empty"
proof -
  obtain c1 where c1: "remove_candidate p c = Some c1" "client_inv c1" "set (tcpCandidates c1) = {}"
      "closeCallbacks c1 = closeCallbacks c" "cb_calls c1 = cb_calls c"
    using remove_candidate_ok [OF assms(1), of p] assms(2) by auto
  have "alive p c" using assms(1,2) by (auto simp: alive_def client_inv_def)
  then show ?thesis
    using assms(2,3) c1 disconnect_ok [OF c1(2)]
    by (simp add: on_ioqueue_connect_def onClose_def callList_idle)
qed

theorem close_without_connect_witness:
  "\<exists>c'. on_ioqueue_connect plain_env idle_call 111 0
      \<lparr>clientTcp = None, tcpCandidates = [0], tcps = [0 \<mapsto> plain_tcp], next_tcp = 1, msgid = 0,
       connCallbacks = [], closeCallbacks = [77], msgMap = [], cb_calls = []\<rparr> = Some c' \<and> cb_calls c' = [77]"
  using close_without_connect [of "\<lparr>clientTcp = None, tcpCandidates = [0], tcps = [0 \<mapsto> plain_tcp], next_tcp = 1, msgid = 0,
       connCallbacks = [], closeCallbacks = [77], msgMap = [], cb_calls = []\<rparr>" 0 111 plain_env]
  by (auto simp: client_inv_def)

text \<open>A connect callback that disconnects the client makes the ioqueue callback use a deleted
  object.\<close>

theorem disconnect_in_callback_faults:
  assumes "client_inv c" "p \<in> set (tcpCandidates c)" "connCallbacks c = [cb]" "\<not> env_bigendian E"
  shows "on_ioqueue_connect E (\<lambda>cb c. (0, the (disconnect c))) 0 p c = None"
proof -
  obtain tcp where tcp: "tcps c p = Some tcp" "alive p c" using assms(1,2) by (auto simp: alive_def client_inv_def)
  obtain i m t where t: "send_session_key E (msgid c) tcp = Some (i, m, t)"
    using send_session_key_ok [OF assms(4)] by blast
  let ?c = "c\<lparr>tcps := (tcps c)(p \<mapsto> t), msgid := m\<rparr>"
  let ?ps = "filter (\<lambda>q. q \<noteq> p) (tcpCandidates c)"
  let ?c1 = "?c\<lparr>tcps := tcps ?c |` (- set ?ps), tcpCandidates := [], clientTcp := Some p, cb_calls := cb_calls c @ [cb]\<rparr>"
  have none: "clientTcp c = None" using assms(1,2) by (auto simp: client_inv_def)
  have "distinct ?ps" "set ?ps \<subseteq> dom (tcps ?c)" using assms(1) none by (auto simp: client_inv_def)
  then have "delete_tcps ?ps ?c = Some (?c\<lparr>tcps := tcps ?c |` (- set ?ps)\<rparr>)" by (rule delete_tcps_ok)
  moreover have "dom (tcps ?c1) = {p}"
    using assms(1,2) none by (auto simp: client_inv_def)
  then have "client_inv ?c1"
    using assms(1,2) by (auto simp: client_inv_def)
  ultimately have "ClientTcp_onConnect E (\<lambda>cb c. (0, the (disconnect c))) p c
      = Some (0, ?c1\<lparr>clientTcp := None, tcpCandidates := [], tcps := Map.empty\<rparr>)"
    using tcp(1) t assms(3) disconnect_ok [of ?c1] by (simp add: ClientTcp_onConnect_def onConnect_def)
  then show ?thesis using tcp(2) by (simp add: on_ioqueue_connect_def alive_def)
qed

theorem disconnect_in_callback_faults_witness:
  "on_ioqueue_connect plain_env (\<lambda>cb c. (0, the (disconnect c))) 0 1 (addConnectCallback 5 two_servers) = None"
proof (rule disconnect_in_callback_faults)
  show "client_inv (addConnectCallback 5 two_servers)"
    using reachable_inv [OF reachable_two_servers keeps_conn_idle]
    by (simp add: client_inv_def addConnectCallback_def plain_env_def)
qed (simp_all add: addConnectCallback_def two_servers_eval plain_env_def)

section \<open>Callback lists\<close>

lemma map_of_push: "map_of (map_push_front mt cb m) k =
    (if k = mt then Some (cb # (case map_of m mt of Some cbs \<Rightarrow> cbs | None \<Rightarrow> [])) else map_of m k)"
  if "sorted (map fst m)"
  using that
proof (induction mt cb m rule: map_push_front.induct)
  case (2 mt cb k' cbs m)
  then have "map_of ((k', cbs) # m) mt = None" if "mt < k'"
    using that by (auto simp: map_of_eq_None_iff)
  then show ?case using 2 by auto
qed simp

lemma filter_empty_keys:
  assumes "distinct (map fst m)"
  shows "filter (\<lambda>(mt, kept). mt \<notin> set (map fst (filter (\<lambda>(mt, kept). kept = []) m))) m = filter (\<lambda>e. snd e \<noteq> []) m"
proof (rule filter_cong [OF refl])
  fix e assume e: "e \<in> set m"
  have "fst e \<in> set (map fst (filter (\<lambda>(mt, kept). kept = []) m)) \<longleftrightarrow> snd e = []"
    using e eq_key_imp_eq_value [OF assms, of "fst e" "snd e" "[]"] by force
  then show "(case e of (mt, kept) \<Rightarrow> mt \<notin> set (map fst (filter (\<lambda>(mt, kept). kept = []) m))) \<longleftrightarrow> snd e \<noteq> []"
    by (simp add: split_beta)
qed

text \<open>Removing the callbacks of an object removes every callback registered with it, from the connect,
  close and message lists, keeps all others in their order, leaves no empty message list behind, and
  reports how many there were.\<close>

theorem removeObjCallbacks_correct:
  assumes "removeObjCallbacks objof (Some obj) c = (n, c')" "distinct (map fst (msgMap c))"
  shows "connCallbacks c' = filter (\<lambda>cb. objof cb \<noteq> obj) (connCallbacks c)
    \<and> closeCallbacks c' = filter (\<lambda>cb. objof cb \<noteq> obj) (closeCallbacks c)
    \<and> msgMap c' = filter (\<lambda>e. snd e \<noteq> []) (map (\<lambda>(mt, cbs). (mt, filter (\<lambda>cb. objof cb \<noteq> obj) cbs)) (msgMap c))
    \<and> n = int (length (filter (\<lambda>cb. objof cb = obj)
            (connCallbacks c @ closeCallbacks c @ concat (map snd (msgMap c)))))"
proof -
  let ?keep = "filter (\<lambda>cb. objof cb \<noteq> obj)" and ?gone = "filter (\<lambda>cb. objof cb = obj)"
  let ?rm = "map (\<lambda>(mt, mcbs). (mt, removeAllCallbackFromList objof (Some obj) mcbs)) (msgMap c)"
  let ?m = "map (\<lambda>(mt, cbs). (mt, ?keep cbs)) (msgMap c)"
  have kept: "map (\<lambda>(mt, (kept, _, r)). (mt, kept)) ?rm = ?m"
    by (simp add: removeAllCallbackFromList_eq comp_def split_beta)
  have empt: "map fst (filter (\<lambda>(mt, (kept, _, r)). kept = []) ?rm) = map fst (filter (\<lambda>(mt, kept). kept = []) ?m)"
    by (induction "msgMap c" arbitrary: c) (auto simp: removeAllCallbackFromList_eq filter_map comp_def split_beta)
  have sum: "sum_list (map (\<lambda>(mt, (kept, _, r)). r) (map (\<lambda>(mt, mcbs). (mt, removeAllCallbackFromList objof (Some obj) mcbs)) m))
      = int (length (?gone (concat (map snd m))))" for m :: "(int \<times> 'a list) list"
    by (induction m) (auto simp: removeAllCallbackFromList_eq)
  have "distinct (map fst ?m)" using assms(2) by (simp add: comp_def split_beta)
  note drop = filter_empty_keys [OF this]
  show ?thesis
    using assms(1) unfolding removeObjCallbacks_def Let_def kept empt sum drop
    by (auto simp: removeAllCallbackFromList_eq)
qed

theorem removeObjCallbacks_correct_witness:
  "fst (removeObjCallbacks (\<lambda>cb. cb mod 10) (Some 7) (addMsgCallback 3 17 two_servers)) = 2"
proof -
  let ?c = "addMsgCallback 3 17 two_servers"
  have c: "msgMap ?c = [(3, [17])]"
    by (simp add: addMsgCallback_def two_servers_def connectFastest_def addCloseCallback_def BlmClient_new_def splitString_def new_candidate_def)
  obtain n c' where "removeObjCallbacks (\<lambda>cb. cb mod 10) (Some 7) ?c = (n, c')" by fastforce
  from removeObjCallbacks_correct [OF this] this c show ?thesis
    by (simp add: addMsgCallback_def two_servers_eval)
qed

end
