(* ===== verification/BlmHttp.thy ===== *)
theory BlmHttp
  imports BlmBase
begin

text \<open>
  The HTTP request of \<open>src/blmcomm.cpp\<close>: the class \<open>PjHttp\<close>, whose objects are made by \<open>wget\<close> and
  delete themselves when pjlib-util's client reports the end of the request. Using an object after
  that is \<open>None\<close>. What the user callback was called with is recorded.
\<close>

record PjHttp =
  http_url :: string
  http_result :: bytes
  http_timeout :: Time
  http_live :: bool
  http_called :: "bytes list"
  http_log :: "log_line list"

text \<open>The constructor: the timeout is split into seconds and milliseconds.\<close>

definition PjHttp_new :: "log_state \<Rightarrow> string \<Rightarrow> int \<Rightarrow> PjHttp" where
  "PjHttp_new l url millisec1 =
     \<lparr>http_url = url, http_result = [],
      http_timeout = \<lparr>time_sec = cdiv millisec1 1000, time_msec = cmod millisec1 1000\<rparr>,
      http_live = True, http_called = [], http_log = blmlog l 3 ''blmcomm'' (''getting url: '' @ url)\<rparr>"

datatype http_event = on_response | on_send_data | on_data_read bytes | on_complete int nat

text \<open>The callbacks that pjlib-util makes; \<open>on_complete\<close> gets the status and, when that is
  \<open>PJ_SUCCESS\<close>, the size of the response.\<close>

definition http_on_data_read :: "bytes \<Rightarrow> PjHttp \<Rightarrow> PjHttp" where
  "http_on_data_read data h = h\<lparr>http_result := http_result h @ data\<rparr>"

definition PjHttp_destroy :: "log_state \<Rightarrow> PjHttp \<Rightarrow> PjHttp" where
  "PjHttp_destroy l h =
     h\<lparr>http_log := http_log h @ blmlog l 3 ''blmcomm'' (''destroying pjhttp: '' @ http_url h), http_live := False\<rparr>"

definition http_on_complete :: "log_state \<Rightarrow> int \<Rightarrow> int \<Rightarrow> nat \<Rightarrow> PjHttp \<Rightarrow> PjHttp" where
  "http_on_complete l pending status rsize h =
     (let h = h\<lparr>http_log := http_log h @ CheckerPjStatus l pending status ''on_complete''\<rparr>;
          h = h\<lparr>http_called := http_called h @ [http_result h]\<rparr>;
          h = (if status = 0
               then h\<lparr>http_log := http_log h @ CheckerTrue l (rsize = length (http_result h)) ''on_complete''\<rparr>
               else h);
          h = h\<lparr>http_log := http_log h @ blmlog l 3 ''blmcomm'' (''oncomplete: size: '' @ dec_nat rsize)\<rparr>
      in PjHttp_destroy l h)"

definition http_handle :: "log_state \<Rightarrow> int \<Rightarrow> http_event \<Rightarrow> PjHttp \<Rightarrow> PjHttp option" where
  "http_handle l pending e h =
     (if \<not> http_live h then None
      else Some (case e of
        on_response \<Rightarrow> h
      | on_send_data \<Rightarrow> h
      | on_data_read data \<Rightarrow> http_on_data_read data h
      | on_complete status rsize \<Rightarrow> http_on_complete l pending status rsize h))"

fun http_run :: "log_state \<Rightarrow> int \<Rightarrow> http_event list \<Rightarrow> PjHttp \<Rightarrow> PjHttp option" where
  "http_run l pending [] h = Some h"
| "http_run l pending (e # es) h = Option.bind (http_handle l pending e h) (http_run l pending es)"

section \<open>Properties\<close>

fun received :: "http_event list \<Rightarrow> bytes" where
  "received [] = []"
| "received (on_data_read d # es) = d @ received es"
| "received (e # es) = received es"

definition is_complete :: "http_event \<Rightarrow> bool" where
  "is_complete e = (case e of on_complete _ _ \<Rightarrow> True | _ \<Rightarrow> False)"

lemma http_run_before:
  "http_live h \<Longrightarrow> list_all (\<lambda>e. \<not> is_complete e) es \<Longrightarrow>
   \<exists>h'. http_run l pending es h = Some h' \<and> http_live h' \<and> http_result h' = http_result h @ received es
     \<and> http_called h' = http_called h"
proof (induction es arbitrary: h)
  case (Cons e es)
  then show ?case
    using Cons.IH [of "http_on_data_read d h" for d]
    by (cases e) (auto simp: http_handle_def http_on_data_read_def is_complete_def)
qed simp

lemma http_run_append: "http_run l pending (es @ fs) h = Option.bind (http_run l pending es h) (http_run l pending fs)"
  by (induction es arbitrary: h) (auto split: bind_split)

lemma time_split: "millis \<lparr>time_sec = cdiv m 1000, time_msec = cmod m 1000\<rparr> = m"
  using cdiv_cmod [of m 1000] by (simp add: millis_def)

text \<open>C30: A request hands its user exactly what was received, in order, once, when it ends, whatever the
  status; then the object is gone, and one more event would use a deleted object. The timeout given to
  the client is the one asked for.\<close>

theorem http_delivers_once:
  assumes "list_all (\<lambda>e. \<not> is_complete e) es"
  shows "(\<exists>h. http_run l pending (es @ [on_complete status rsize]) (PjHttp_new l url ms) = Some h
      \<and> http_called h = [received es] \<and> http_run l pending [e] h = None)
    \<and> millis (http_timeout (PjHttp_new l url ms)) = ms"
proof -
  obtain h where "http_run l pending es (PjHttp_new l url ms) = Some h" "http_live h" "http_result h = received es"
      "http_called h = []"
    using http_run_before [OF _ assms, of "PjHttp_new l url ms" l pending] by (auto simp: PjHttp_new_def)
  then have "\<exists>h. http_run l pending (es @ [on_complete status rsize]) (PjHttp_new l url ms) = Some h
      \<and> http_called h = [received es] \<and> http_run l pending [e] h = None"
    by (simp add: http_run_append http_handle_def http_on_complete_def PjHttp_destroy_def Let_def)
  moreover have "millis (http_timeout (PjHttp_new l url ms)) = ms" by (simp add: PjHttp_new_def time_split)
  ultimately show ?thesis by blast
qed

theorem http_delivers_once_witness:
  "\<exists>h. http_run log_init 7 [on_response, on_data_read [1, 2], on_data_read [3], on_complete 0 3] (PjHttp_new log_init ''u'' 5250) = Some h
    \<and> http_called h = [[1, 2, 3]]"
  using http_delivers_once [of "[on_response, on_data_read [1, 2], on_data_read [3]]" log_init 7 0 3 "''u''" 5250 on_response]
  by (auto simp: is_complete_def)

end
