(* ===== verification/Sqlite_Exception.thy ===== *)
theory Sqlite_Exception
  imports C_Strings
begin

text \<open>
  The ground of the model of \<open>src/CppSQLite3.cpp\<close>: outcomes of a method (a value, an exception or a
  crash), methods that change the state they run on, and the classes \<open>CppSQLite3Exception\<close> and
  \<open>CppSQLite3Buffer\<close>.
\<close>

section \<open>Outcomes\<close>

text \<open>What ends a program in C++: a handle that was freed before, an uninitialised pointer, an access
  outside of a block, a null pointer, a signed overflow.\<close>

datatype crash = Dangling | Uninit | Bounds | NullPtr | Overflow

text \<open>\<open>Throw\<close> carries the arguments of the constructor of the exception: the code, the message (if it
  is not null) and whether the constructor frees the message.\<close>

datatype 'a sq_result = Val 'a | Throw int "string option" bool | Crash crash

type_synonym ('s, 'a) sq = "'s \<Rightarrow> 'a sq_result \<times> 's"

definition sq_return :: "'a \<Rightarrow> ('s, 'a) sq" where
  "sq_return x s = (Val x, s)"

definition sq_raise :: "int \<Rightarrow> string option \<Rightarrow> bool \<Rightarrow> ('s, 'a) sq" where
  "sq_raise c m d s = (Throw c m d, s)"

text \<open>A literal as message is never deleted (\<open>DONT_DELETE_MSG\<close>).\<close>

definition sq_throw :: "int \<Rightarrow> string \<Rightarrow> ('s, 'a) sq" where
  "sq_throw c m = sq_raise c (Some m) False"

definition sq_crash :: "crash \<Rightarrow> ('s, 'a) sq" where
  "sq_crash k s = (Crash k, s)"

definition sq_bind :: "('s, 'a) sq \<Rightarrow> ('a \<Rightarrow> ('s, 'b) sq) \<Rightarrow> ('s, 'b) sq" where
  "sq_bind m f s =
     (case m s of
        (Val x, s') \<Rightarrow> f x s'
      | (Throw c e d, s') \<Rightarrow> (Throw c e d, s')
      | (Crash k, s') \<Rightarrow> (Crash k, s'))"

definition sq_get :: "('s \<Rightarrow> 'a) \<Rightarrow> ('s, 'a) sq" where
  "sq_get f s = (Val (f s), s)"

definition sq_modify :: "('s \<Rightarrow> 's) \<Rightarrow> ('s, unit) sq" where
  "sq_modify f s = (Val (), f s)"

definition sq_check :: "bool \<Rightarrow> int \<Rightarrow> string \<Rightarrow> ('s, unit) sq" where
  "sq_check ok c m = (if ok then sq_return () else sq_throw c m)"

text \<open>\<open>try { m } catch (...) {}\<close>\<close>

definition sq_try :: "('s, unit) sq \<Rightarrow> ('s, unit) sq" where
  "sq_try m s = (case m s of (Throw c e d, s') \<Rightarrow> (Val (), s') | r \<Rightarrow> r)"

named_theorems sq_simps \<open>unfolding of methods\<close>

declare sq_return_def [sq_simps] sq_raise_def [sq_simps] sq_throw_def [sq_simps] sq_crash_def [sq_simps] sq_bind_def [sq_simps]
  sq_get_def [sq_simps] sq_modify_def [sq_simps] sq_check_def [sq_simps] sq_try_def [sq_simps]

lemma sq_bind_assoc: "sq_bind (sq_bind m f) g = sq_bind m (\<lambda>x. sq_bind (f x) g)"
  by (rule ext) (simp add: sq_bind_def split: prod.splits sq_result.splits)

text \<open>An invariant of the state is kept by a sequence when both parts keep it.\<close>

definition keeps :: "('s \<Rightarrow> bool) \<Rightarrow> ('s, 'a) sq \<Rightarrow> bool" where
  "keeps I m \<longleftrightarrow> (\<forall>s. I s \<longrightarrow> I (snd (m s)))"

lemma keepsD: "keeps I m \<Longrightarrow> I s \<Longrightarrow> m s = (r, s') \<Longrightarrow> I s'"
  by (metis keeps_def snd_conv)

lemma keeps_basic [intro, simp]:
  "keeps I (sq_return x)" "keeps I (sq_throw c m)" "keeps I (sq_raise c m' d)"
  "keeps I (sq_crash k)" "keeps I (sq_get f)"
  "keeps I (sq_check b c m)"
  by (auto simp: keeps_def sq_simps)

lemma keeps_bind [intro]: "keeps I m \<Longrightarrow> (\<And>x. keeps I (f x)) \<Longrightarrow> keeps I (sq_bind m f)"
  by (auto simp: keeps_def sq_bind_def split: prod.split sq_result.split)

lemma keeps_try [intro]: "keeps I m \<Longrightarrow> keeps I (sq_try m)"
  by (auto simp: keeps_def sq_try_def split: prod.split sq_result.split)

section \<open>Result codes\<close>

definition sqlite3_codes :: "(int \<times> string) list" where
  "sqlite3_codes =
    [(0, ''SQLITE_OK''), (1, ''SQLITE_ERROR''), (2, ''SQLITE_INTERNAL''), (3, ''SQLITE_PERM''),
     (4, ''SQLITE_ABORT''), (5, ''SQLITE_BUSY''), (6, ''SQLITE_LOCKED''), (7, ''SQLITE_NOMEM''),
     (8, ''SQLITE_READONLY''), (9, ''SQLITE_INTERRUPT''), (10, ''SQLITE_IOERR''), (11, ''SQLITE_CORRUPT''),
     (12, ''SQLITE_NOTFOUND''), (13, ''SQLITE_FULL''), (14, ''SQLITE_CANTOPEN''), (15, ''SQLITE_PROTOCOL''),
     (16, ''SQLITE_EMPTY''), (17, ''SQLITE_SCHEMA''), (18, ''SQLITE_TOOBIG''), (19, ''SQLITE_CONSTRAINT''),
     (20, ''SQLITE_MISMATCH''), (21, ''SQLITE_MISUSE''), (22, ''SQLITE_NOLFS''), (23, ''SQLITE_AUTH''),
     (24, ''SQLITE_FORMAT''), (25, ''SQLITE_RANGE''), (26, ''SQLITE_NOTADB''), (100, ''SQLITE_ROW''),
     (101, ''SQLITE_DONE'')]"

abbreviation SQLITE_OK :: int where "SQLITE_OK \<equiv> 0"
abbreviation SQLITE_ROW :: int where "SQLITE_ROW \<equiv> 100"
abbreviation SQLITE_DONE :: int where "SQLITE_DONE \<equiv> 101"
abbreviation CPPSQLITE_ERROR :: int where "CPPSQLITE_ERROR \<equiv> 1000"

section \<open>Exceptions\<close>

definition errorCodeAsString :: "int \<Rightarrow> string" where
  "errorCodeAsString nErrCode =
     (if nErrCode = 0 then ''SQLITE_OK''
      else if nErrCode = 1 then ''SQLITE_ERROR''
      else if nErrCode = 2 then ''SQLITE_INTERNAL''
      else if nErrCode = 3 then ''SQLITE_PERM''
      else if nErrCode = 4 then ''SQLITE_ABORT''
      else if nErrCode = 5 then ''SQLITE_BUSY''
      else if nErrCode = 6 then ''SQLITE_LOCKED''
      else if nErrCode = 7 then ''SQLITE_NOMEM''
      else if nErrCode = 8 then ''SQLITE_READONLY''
      else if nErrCode = 9 then ''SQLITE_INTERRUPT''
      else if nErrCode = 10 then ''SQLITE_IOERR''
      else if nErrCode = 11 then ''SQLITE_CORRUPT''
      else if nErrCode = 12 then ''SQLITE_NOTFOUND''
      else if nErrCode = 13 then ''SQLITE_FULL''
      else if nErrCode = 14 then ''SQLITE_CANTOPEN''
      else if nErrCode = 15 then ''SQLITE_PROTOCOL''
      else if nErrCode = 16 then ''SQLITE_EMPTY''
      else if nErrCode = 17 then ''SQLITE_SCHEMA''
      else if nErrCode = 18 then ''SQLITE_TOOBIG''
      else if nErrCode = 19 then ''SQLITE_CONSTRAINT''
      else if nErrCode = 20 then ''SQLITE_MISMATCH''
      else if nErrCode = 21 then ''SQLITE_MISUSE''
      else if nErrCode = 22 then ''SQLITE_NOLFS''
      else if nErrCode = 23 then ''SQLITE_AUTH''
      else if nErrCode = 24 then ''SQLITE_FORMAT''
      else if nErrCode = 25 then ''SQLITE_RANGE''
      else if nErrCode = 100 then ''SQLITE_ROW''
      else if nErrCode = 101 then ''SQLITE_DONE''
      else if nErrCode = CPPSQLITE_ERROR then ''CPPSQLITE_ERROR''
      else ''UNKNOWN_ERROR'')"

record CppSQLite3Exception =
  mnErrCode :: int
  mpszErrMess :: "string option"

text \<open>\<open>mprintf t\<close> is what \<open>sqlite3_mprintf\<close> returns for the formatted text \<open>t\<close>: the text or, without
  memory, null. The second result is the argument of \<open>sqlite3_free\<close>, if it is called.\<close>

definition Exception_new ::
  "(string \<Rightarrow> string option) \<Rightarrow> int \<Rightarrow> string option \<Rightarrow> bool \<Rightarrow> CppSQLite3Exception \<times> string option" where
  "Exception_new mprintf nErrCode szErrMess bDeleteMsg =
     (\<lparr>mnErrCode = nErrCode,
       mpszErrMess = mprintf (errorCodeAsString nErrCode @ ''['' @ dec_int nErrCode @ '']: '' @
                              (case szErrMess of Some m \<Rightarrow> m | None \<Rightarrow> []))\<rparr>,
      if bDeleteMsg then szErrMess else None)"

definition Exception_copy :: "(string \<Rightarrow> string option) \<Rightarrow> CppSQLite3Exception \<Rightarrow> CppSQLite3Exception" where
  "Exception_copy mprintf e =
     \<lparr>mnErrCode = mnErrCode e, mpszErrMess = (case mpszErrMess e of Some m \<Rightarrow> mprintf m | None \<Rightarrow> None)\<rparr>"

text \<open>The destructor: the object afterwards and the argument of \<open>sqlite3_free\<close>.\<close>

definition Exception_destroy :: "CppSQLite3Exception \<Rightarrow> CppSQLite3Exception \<times> string option" where
  "Exception_destroy e = (e\<lparr>mpszErrMess := None\<rparr>, mpszErrMess e)"

section \<open>Buffers\<close>

record CppSQLite3Buffer =
  bufText :: "string option"

definition Buffer_new :: CppSQLite3Buffer where
  "Buffer_new = \<lparr>bufText = None\<rparr>"

definition Buffer_clear :: "CppSQLite3Buffer \<Rightarrow> CppSQLite3Buffer \<times> string option" where
  "Buffer_clear b = (case bufText b of Some t \<Rightarrow> (b\<lparr>bufText := None\<rparr>, Some t) | None \<Rightarrow> (b, None))"

definition Buffer_destroy :: "CppSQLite3Buffer \<Rightarrow> CppSQLite3Buffer \<times> string option" where
  "Buffer_destroy = Buffer_clear"

text \<open>\<open>text\<close> is what \<open>sqlite3_vmprintf\<close> returns; the results are the object, what is freed and what is
  returned.\<close>

definition Buffer_format :: "string option \<Rightarrow> CppSQLite3Buffer \<Rightarrow> CppSQLite3Buffer \<times> string option \<times> string option" where
  "Buffer_format text b = (let (b, fr) = Buffer_clear b in (b\<lparr>bufText := text\<rparr>, fr, text))"

section \<open>The messages name the codes of the header\<close>

lemma errorCodeAsString_table:
  "list_all (\<lambda>(c, n). c \<noteq> 26 \<longrightarrow> errorCodeAsString c = n) sqlite3_codes"
  by code_simp

lemma errorCodeAsString_header:
  "(c, n) \<in> set sqlite3_codes \<Longrightarrow> c \<noteq> 26 \<Longrightarrow> errorCodeAsString c = n"
  using errorCodeAsString_table by (force simp: list_all_iff)

lemma errorCodeAsString_other:
  assumes "\<forall>n. (c, n) \<in> set sqlite3_codes \<longrightarrow> c = 26" "c \<noteq> CPPSQLITE_ERROR"
  shows "errorCodeAsString c = ''UNKNOWN_ERROR''"
proof -
  have "c \<notin> set (filter (\<lambda>k. k \<noteq> 26) (map fst sqlite3_codes))" using assms(1) by auto
  then show ?thesis using assms(2) by (simp add: sqlite3_codes_def errorCodeAsString_def)
qed

text \<open>An exception with enough memory says the name the header gives to the code, the code and the
  message, and its copies say the same; a code the table lacks, as \<open>SQLITE_NOTADB\<close> and all extended
  codes, is called unknown. The message that is passed is freed exactly when the flag says so.\<close>

theorem exception_message:
  "(\<forall>(c, n) \<in> set sqlite3_codes. c \<noteq> 26 \<longrightarrow>
      mpszErrMess (fst (Exception_new Some c (Some m) d)) = Some (n @ ''['' @ dec_int c @ '']: '' @ m)) \<and>
   (\<forall>c. (\<forall>n. (c, n) \<in> set sqlite3_codes \<longrightarrow> c = 26) \<and> c \<noteq> CPPSQLITE_ERROR \<longrightarrow>
      mpszErrMess (fst (Exception_new Some c (Some m) d)) = Some (''UNKNOWN_ERROR['' @ dec_int c @ '']: '' @ m)) \<and>
   Exception_copy Some (fst (Exception_new Some c0 (Some m) d)) = fst (Exception_new Some c0 (Some m) d) \<and>
   (snd (Exception_new Some c0 (Some m) d) = Some m \<longleftrightarrow> d)"
  by (intro conjI ballI allI impI)
    (auto simp: Exception_new_def Exception_copy_def errorCodeAsString_header errorCodeAsString_other)

text \<open>The exceptions for a locked and for a foreign file.\<close>

theorem exception_message_witness:
  "mpszErrMess (fst (Exception_new Some 5 (Some ''database is locked'') False)) =
     Some ''SQLITE_BUSY[5]: database is locked'' \<and>
   mpszErrMess (fst (Exception_new Some 26 None False)) = Some ''UNKNOWN_ERROR[26]: ''"
proof -
  have "(5, ''SQLITE_BUSY'') \<in> set sqlite3_codes" by (simp add: sqlite3_codes_def)
  with exception_message [of "''database is locked''" False 5]
  have "mpszErrMess (fst (Exception_new Some 5 (Some ''database is locked'') False)) =
     Some (''SQLITE_BUSY'' @ ''['' @ dec_int 5 @ '']: '' @ ''database is locked'')" by fastforce
  moreover have "dec_int 5 = ''5''" "dec_int 26 = ''26''" by code_simp+
  ultimately show ?thesis by (simp add: Exception_new_def errorCodeAsString_def)
qed

end
