(* ===== verification/Sqlite_Owner.thy ===== *)
theory Sqlite_Owner
  imports Blm_Prelude
begin

text \<open>
  Exclusive ownership, the contract that the copy constructors and assignments of
  \<open>src/CppSQLite3.cpp\<close> implement with the comment \<open>Only one object can own the VM\<close>: every live handle
  belongs to exactly one object, and a copy takes it away from its source. Objects live in a store;
  the handles in \<open>F\<close> belong to other parts of the program.
\<close>

definition excl :: "('o \<Rightarrow> nat option) \<Rightarrow> nat set \<Rightarrow> (nat \<Rightarrow> 'o option) \<Rightarrow> nat list \<Rightarrow> bool" where
  "excl owned F objs live \<longleftrightarrow>
     distinct live \<and> F \<subseteq> set live \<and>
     (\<forall>i q h. objs i = Some q \<longrightarrow> owned q = Some h \<longrightarrow> h \<in> set live \<and> h \<notin> F) \<and>
     (\<forall>i j p q h. objs i = Some p \<longrightarrow> objs j = Some q \<longrightarrow> owned p = Some h \<longrightarrow> owned q = Some h \<longrightarrow> i = j) \<and>
     (\<forall>h \<in> set live - F. \<exists>i q. objs i = Some q \<and> owned q = Some h)"

lemma exclD:
  assumes "excl owned F objs live" "objs i = Some q" "owned q = Some h"
  shows "h \<in> set live" "h \<notin> F"
  using assms unfolding excl_def by blast+

lemma excl_unique:
  assumes "excl owned F objs live" "objs i = Some p" "objs j = Some q" "owned p = Some h" "owned q = Some h"
  shows "i = j"
  using assms unfolding excl_def by blast

lemma excl_owner:
  assumes "excl owned F objs live" "h \<in> set live" "h \<notin> F"
  obtains i q where "objs i = Some q" "owned q = Some h"
  using assms unfolding excl_def by blast

lemma exclI:
  assumes "distinct live" "F \<subseteq> set live"
    "\<And>i q h. objs i = Some q \<Longrightarrow> owned q = Some h \<Longrightarrow> h \<in> set live \<and> h \<notin> F"
    "\<And>i j p q h. objs i = Some p \<Longrightarrow> objs j = Some q \<Longrightarrow> owned p = Some h \<Longrightarrow> owned q = Some h \<Longrightarrow> i = j"
    "\<And>h. h \<in> set live \<Longrightarrow> h \<notin> F \<Longrightarrow> \<exists>i q. objs i = Some q \<and> owned q = Some h"
  shows "excl owned F objs live"
  using assms unfolding excl_def by blast

lemma excl_base: "excl owned F objs live \<Longrightarrow> distinct live \<and> F \<subseteq> set live"
  by (simp add: excl_def)

text \<open>What an owner's class provides: \<open>grab t s\<close> is the object \<open>t\<close> with the members of \<open>s\<close>, \<open>leave s\<close>
  is the source afterwards.\<close>

locale handle_owner =
  fixes owned :: "'o \<Rightarrow> nat option"
    and grab :: "'o \<Rightarrow> 'o \<Rightarrow> 'o"
    and leave :: "'o \<Rightarrow> 'o"
  assumes owned_grab: "owned (grab t s) = owned s"
    and owned_leave: "owned (leave s) = None"
begin

lemma excl_update:
  assumes "excl owned F objs live" "objs i = Some q" "owned q' = owned q"
  shows "excl owned F (objs(i \<mapsto> q')) live"
proof (rule exclI)
  fix h assume "h \<in> set live" "h \<notin> F"
  with assms(1) obtain j p where "objs j = Some p" "owned p = Some h" by (rule excl_owner)
  then show "\<exists>j p. (objs(i \<mapsto> q')) j = Some p \<and> owned p = Some h"
    using assms by (cases "j = i") auto
next
  fix j k p r h assume "(objs(i \<mapsto> q')) j = Some p" "(objs(i \<mapsto> q')) k = Some r" "owned p = Some h" "owned r = Some h"
  then show "j = k" using assms excl_unique [OF assms(1)] by (metis map_upd_Some_unfold)
next
  fix j p h assume "(objs(i \<mapsto> q')) j = Some p" "owned p = Some h"
  then show "h \<in> set live \<and> h \<notin> F" using assms exclD [OF assms(1)] by (metis map_upd_Some_unfold)
qed (use excl_base [OF assms(1)] in auto)

lemma excl_new:
  assumes "excl owned F objs live" "objs i = None" "owned q = Some h" "h \<notin> set live"
  shows "excl owned F (objs(i \<mapsto> q)) (h # live)"
proof (rule exclI)
  fix g assume "g \<in> set (h # live)" "g \<notin> F"
  then show "\<exists>j p. (objs(i \<mapsto> q)) j = Some p \<and> owned p = Some g"
    using assms by (cases "g = h") (auto elim!: excl_owner [OF assms(1)], metis option.distinct(1))
next
  fix j k p r g
  assume "(objs(i \<mapsto> q)) j = Some p" "(objs(i \<mapsto> q)) k = Some r" "owned p = Some g" "owned r = Some g"
  then show "j = k" using assms exclD [OF assms(1)] excl_unique [OF assms(1)] by (auto split: if_splits)
qed (use assms excl_base [OF assms(1)] in \<open>auto split: if_splits dest: exclD [OF assms(1)]\<close>)

lemma excl_new_empty:
  assumes "excl owned F objs live" "objs i = None" "owned q = None"
  shows "excl owned F (objs(i \<mapsto> q)) live"
proof (rule exclI)
  fix h assume "h \<in> set live" "h \<notin> F"
  with assms(1) obtain j p where "objs j = Some p" "owned p = Some h" by (rule excl_owner)
  then show "\<exists>j p. (objs(i \<mapsto> q)) j = Some p \<and> owned p = Some h"
    using assms(2) by (intro exI [of _ j] exI [of _ p]) auto
next
  fix j k p r g
  assume "(objs(i \<mapsto> q)) j = Some p" "(objs(i \<mapsto> q)) k = Some r" "owned p = Some g" "owned r = Some g"
  then show "j = k" using assms excl_unique [OF assms(1)] by (auto split: if_splits)
qed (use assms excl_base [OF assms(1)] in \<open>auto split: if_splits dest: exclD [OF assms(1)]\<close>)

lemma excl_release:
  assumes "excl owned F objs live" "objs i = Some q" "owned q = Some h" "owned q' = None"
  shows "excl owned F (objs(i \<mapsto> q')) (remove1 h live)"
proof (rule exclI)
  have d: "distinct live" and F: "F \<subseteq> set live" using excl_base [OF assms(1)] by auto
  note hF = exclD [OF assms(1-3)]
  show "distinct (remove1 h live)" "F \<subseteq> set (remove1 h live)" using d F hF by (auto simp: distinct_remove1)
  fix g assume "g \<in> set (remove1 h live)" "g \<notin> F"
  with d have "g \<in> set live" "g \<noteq> h" by auto
  with assms(1) \<open>g \<notin> F\<close> obtain j p where "objs j = Some p" "owned p = Some g" by (meson excl_owner)
  then show "\<exists>j p. (objs(i \<mapsto> q')) j = Some p \<and> owned p = Some g"
    using assms \<open>g \<noteq> h\<close> by (intro exI [of _ j] exI [of _ p]) auto
next
  fix j p g assume "(objs(i \<mapsto> q')) j = Some p" "owned p = Some g"
  with assms(4) have "j \<noteq> i" "objs j = Some p" by (auto split: if_splits)
  with \<open>owned p = Some g\<close> assms show "g \<in> set (remove1 h live) \<and> g \<notin> F"
    using exclD [OF assms(1)] excl_unique [OF assms(1)] by (metis in_set_remove1)
next
  fix j k p r g
  assume "(objs(i \<mapsto> q')) j = Some p" "(objs(i \<mapsto> q')) k = Some r" "owned p = Some g" "owned r = Some g"
  then show "j = k" using assms excl_unique [OF assms(1)] by (auto split: if_splits)
qed

lemma excl_drop:
  assumes "excl owned F objs live" "objs i = Some q" "owned q = None"
  shows "excl owned F (objs(i := None)) live"
proof (rule exclI)
  fix h assume "h \<in> set live" "h \<notin> F"
  with assms(1) obtain j p where "objs j = Some p" "owned p = Some h" by (rule excl_owner)
  then show "\<exists>j p. (objs(i := None)) j = Some p \<and> owned p = Some h"
    using assms(2,3) by (intro exI [of _ j] exI [of _ p]) auto
next
  fix j k p r g
  assume "(objs(i := None)) j = Some p" "(objs(i := None)) k = Some r" "owned p = Some g" "owned r = Some g"
  then show "j = k" using excl_unique [OF assms(1)] by (auto split: if_splits)
qed (use assms excl_base [OF assms(1)] in \<open>auto split: if_splits dest: exclD [OF assms(1)]\<close>)

text \<open>A handle that is taken from one object and given to another.\<close>

lemma excl_move:
  assumes "excl owned F objs live" "objs j = Some s" "i \<noteq> j"
    "\<And>t. objs i = Some t \<Longrightarrow> owned t = None" "owned t' = owned s" "owned s' = None"
  shows "excl owned F (objs(i \<mapsto> t', j \<mapsto> s')) live" (is "excl owned F ?objs live")
proof (rule exclI)
  fix h assume "h \<in> set live" "h \<notin> F"
  with assms(1) obtain k p where "objs k = Some p" "owned p = Some h" by (rule excl_owner)
  then show "\<exists>k p. ?objs k = Some p \<and> owned p = Some h"
    using assms by (cases "k = j") (force intro: exI [of _ i] exI [of _ t'] exI [of _ k] exI [of _ p])+
next
  fix k l p r g assume "?objs k = Some p" "?objs l = Some r" "owned p = Some g" "owned r = Some g"
  then show "k = l" using assms excl_unique [OF assms(1)] by (auto split: if_splits) metis+
next
  fix k p h assume "?objs k = Some p" "owned p = Some h"
  then show "h \<in> set live \<and> h \<notin> F" using assms exclD [OF assms(1)]
    by (metis map_upd_Some_unfold option.distinct(1))
qed (use excl_base [OF assms(1)] in auto)

text \<open>The copy constructor.\<close>

lemma excl_copy:
  assumes "excl owned F objs live" "objs i = None" "objs j = Some s"
  shows "excl owned F (objs(i \<mapsto> grab t s, j \<mapsto> leave s)) live"
  using assms by (intro excl_move) (auto simp: owned_grab owned_leave)

text \<open>The assignment, after the target has released its handle; source and target may be the same
  object.\<close>

lemma excl_assign:
  assumes "excl owned F objs live" "objs i = Some t" "owned t = None" "objs j = Some s"
  shows "excl owned F ((objs(i \<mapsto> grab t s))(j \<mapsto> leave (if i = j then grab t s else s))) live"
proof (cases "i = j")
  case True
  then show ?thesis using assms by (simp add: excl_update owned_leave)
next
  case False
  then show ?thesis using assms excl_move [of F objs live j s i "grab t s" "leave s"]
    by (simp add: owned_grab owned_leave)
qed

lemma excl_empty: "excl owned F (\<lambda>_. None) live \<Longrightarrow> set live = F"
  by (auto simp: excl_def)

end

end
