(* ===== verification/Sqlite_Query.thy ===== *)
theory Sqlite_Query
  imports Sqlite_Exception Sqlite_Owner
begin

text \<open>
  Queries of \<open>src/CppSQLite3.cpp\<close>: the class \<open>CppSQLite3Query\<close>, a cursor on a virtual machine of the
  SQLite library, with its checks, the access to the columns of the current row and the transfer of
  the machine from one object to another. The library is a record of functions on a state of its own;
  \<open>vms\<close> lists the machines that are prepared and not yet finalized, so that the use of a finalized one
  is the crash \<open>Dangling\<close>.
\<close>

section \<open>The library\<close>

text \<open>Handles are numbers, a null pointer is \<open>None\<close>; \<open>'d\<close> is the type \<open>double\<close>. Each function returns
  its result and the new state of the library.\<close>

record ('w, 'd) sqlite3_api =
  sqlite3_step :: "nat option \<Rightarrow> 'w \<Rightarrow> int \<times> 'w"
  sqlite3_finalize :: "nat option \<Rightarrow> 'w \<Rightarrow> int \<times> 'w"
  sqlite3_reset :: "nat option \<Rightarrow> 'w \<Rightarrow> int \<times> 'w"
  sqlite3_errmsg :: "nat option \<Rightarrow> 'w \<Rightarrow> string option \<times> 'w"
  sqlite3_changes :: "nat option \<Rightarrow> 'w \<Rightarrow> int \<times> 'w"
  sqlite3_column_count :: "nat option \<Rightarrow> 'w \<Rightarrow> int \<times> 'w"
  sqlite3_column_type :: "nat option \<Rightarrow> int \<Rightarrow> 'w \<Rightarrow> int \<times> 'w"
  sqlite3_column_int :: "nat option \<Rightarrow> int \<Rightarrow> 'w \<Rightarrow> int \<times> 'w"
  sqlite3_column_int64 :: "nat option \<Rightarrow> int \<Rightarrow> 'w \<Rightarrow> int \<times> 'w"
  sqlite3_column_double :: "nat option \<Rightarrow> int \<Rightarrow> 'w \<Rightarrow> 'd \<times> 'w"
  sqlite3_column_text :: "nat option \<Rightarrow> int \<Rightarrow> 'w \<Rightarrow> string option \<times> 'w"
  sqlite3_column_bytes :: "nat option \<Rightarrow> int \<Rightarrow> 'w \<Rightarrow> int \<times> 'w"
  sqlite3_column_blob :: "nat option \<Rightarrow> int \<Rightarrow> 'w \<Rightarrow> bytes option \<times> 'w"
  sqlite3_column_name :: "nat option \<Rightarrow> int \<Rightarrow> 'w \<Rightarrow> string option \<times> 'w"
  sqlite3_column_decltype :: "nat option \<Rightarrow> int \<Rightarrow> 'w \<Rightarrow> string option \<times> 'w"
  sqlite3_bind_text :: "nat option \<Rightarrow> int \<Rightarrow> string option \<Rightarrow> 'w \<Rightarrow> int \<times> 'w"
  sqlite3_bind_int :: "nat option \<Rightarrow> int \<Rightarrow> int \<Rightarrow> 'w \<Rightarrow> int \<times> 'w"
  sqlite3_bind_int64 :: "nat option \<Rightarrow> int \<Rightarrow> int \<Rightarrow> 'w \<Rightarrow> int \<times> 'w"
  sqlite3_bind_double :: "nat option \<Rightarrow> int \<Rightarrow> 'd \<Rightarrow> 'w \<Rightarrow> int \<times> 'w"
  sqlite3_bind_blob :: "nat option \<Rightarrow> int \<Rightarrow> bytes \<Rightarrow> 'w \<Rightarrow> int \<times> 'w"
  sqlite3_bind_null :: "nat option \<Rightarrow> int \<Rightarrow> 'w \<Rightarrow> int \<times> 'w"
  sqlite3_open :: "string \<Rightarrow> 'w \<Rightarrow> (int \<times> nat option) \<times> 'w"
  sqlite3_close :: "nat option \<Rightarrow> 'w \<Rightarrow> int \<times> 'w"
  sqlite3_busy_timeout :: "nat option \<Rightarrow> int \<Rightarrow> 'w \<Rightarrow> int \<times> 'w"
  sqlite3_last_insert_rowid :: "nat option \<Rightarrow> 'w \<Rightarrow> int \<times> 'w"
  sqlite3_interrupt :: "nat option \<Rightarrow> 'w \<Rightarrow> unit \<times> 'w"
  sqlite3_prepare :: "nat option \<Rightarrow> string \<Rightarrow> 'w \<Rightarrow> (int \<times> nat option) \<times> 'w"
  sqlite3_exec :: "nat option \<Rightarrow> string \<Rightarrow> 'w \<Rightarrow> (int \<times> string option) \<times> 'w"
  sqlite3_get_table :: "nat option \<Rightarrow> string \<Rightarrow> 'w \<Rightarrow>
    (int \<times> (nat \<times> string option list) option \<times> int \<times> int \<times> string option) \<times> 'w"
  sqlite3_free_table :: "nat \<Rightarrow> 'w \<Rightarrow> unit \<times> 'w"

record 'w world =
  lib :: 'w
  vms :: "nat list"
  tables :: "nat list"

abbreviation SQLITE_NULL :: int where "SQLITE_NULL \<equiv> 5"

text \<open>A method runs on its object and the world.\<close>

definition this :: "('o \<Rightarrow> 'a) \<Rightarrow> ('o \<times> 'w world, 'a) sq" where
  "this f = sq_get (\<lambda>(q, w). f q)"

definition set_this :: "('o \<Rightarrow> 'o) \<Rightarrow> ('o \<times> 'w world, unit) sq" where
  "set_this f = sq_modify (\<lambda>(q, w). (f q, w))"

definition lib_call :: "('w \<Rightarrow> 'a \<times> 'w) \<Rightarrow> ('o \<times> 'w world, 'a) sq" where
  "lib_call f = (\<lambda>(q, w). let (r, l) = f (lib w) in (Val r, (q, w\<lparr>lib := l\<rparr>)))"

definition vm_call :: "(nat option \<Rightarrow> 'w \<Rightarrow> 'a \<times> 'w) \<Rightarrow> nat option \<Rightarrow> ('o \<times> 'w world, 'a) sq" where
  "vm_call f vm = (\<lambda>(q, w).
     if \<exists>v \<in> set_option vm. v \<notin> set (vms w) then (Crash Dangling, (q, w)) else lib_call (f vm) (q, w))"

definition vm_finalize :: "('w, 'd) sqlite3_api \<Rightarrow> nat option \<Rightarrow> ('o \<times> 'w world, int) sq" where
  "vm_finalize api vm =
     sq_bind (vm_call (sqlite3_finalize api) vm) (\<lambda>nRet.
     sq_bind (sq_modify (\<lambda>(q, w). (q, case vm of None \<Rightarrow> w | Some v \<Rightarrow> w\<lparr>vms := remove1 v (vms w)\<rparr>))) (\<lambda>_.
     sq_return nRet))"

section \<open>The object\<close>

text \<open>The constructors that copy do not set \<open>mpDB\<close>.\<close>

datatype db_ptr = UninitDB | DB_ptr "nat option"

record CppSQLite3Query =
  mpDB :: db_ptr
  mpVM :: "nat option"
  mbEof :: bool
  mnCols :: int
  mbOwnVM :: bool

definition Query_new :: CppSQLite3Query where
  "Query_new = \<lparr>mpDB = UninitDB, mpVM = None, mbEof = True, mnCols = 0, mbOwnVM = False\<rparr>"

text \<open>The members a copy gets, and the source without its machine.\<close>

definition Query_grab :: "CppSQLite3Query \<Rightarrow> CppSQLite3Query \<Rightarrow> CppSQLite3Query" where
  "Query_grab q rQuery =
     q\<lparr>mpVM := mpVM rQuery, mbEof := mbEof rQuery, mnCols := mnCols rQuery, mbOwnVM := mbOwnVM rQuery\<rparr>"

definition Query_leave :: "CppSQLite3Query \<Rightarrow> CppSQLite3Query" where
  "Query_leave rQuery = rQuery\<lparr>mpVM := None\<rparr>"

definition Query_copy :: "CppSQLite3Query \<Rightarrow> CppSQLite3Query \<times> CppSQLite3Query" where
  "Query_copy rQuery = (Query_grab Query_new rQuery, Query_leave rQuery)"

definition Query_make ::
  "('w, 'd) sqlite3_api \<Rightarrow> nat option \<Rightarrow> nat option \<Rightarrow> bool \<Rightarrow> bool \<Rightarrow> ('o \<times> 'w world, CppSQLite3Query) sq" where
  "Query_make api pDB pVM bEof bOwnVM =
     sq_bind (vm_call (sqlite3_column_count api) pVM) (\<lambda>n.
     sq_return \<lparr>mpDB = DB_ptr pDB, mpVM = pVM, mbEof = bEof, mnCols = n, mbOwnVM = bOwnVM\<rparr>)"

definition Query_checkVM :: "(CppSQLite3Query \<times> 'w world, unit) sq" where
  "Query_checkVM =
     sq_bind (this mpVM) (\<lambda>vm. sq_check (vm \<noteq> None) CPPSQLITE_ERROR ''Null Virtual Machine pointer'')"

text \<open>The exception with the library's message.\<close>

definition Query_raise :: "('w, 'd) sqlite3_api \<Rightarrow> int \<Rightarrow> (CppSQLite3Query \<times> 'w world, 'a) sq" where
  "Query_raise api nRet =
     sq_bind (this mpDB) (\<lambda>p.
     case p of
       UninitDB \<Rightarrow> sq_crash Uninit
     | DB_ptr db \<Rightarrow> sq_bind (lib_call (sqlite3_errmsg api db)) (\<lambda>szError. sq_raise nRet szError False))"

definition Query_finalize :: "('w, 'd) sqlite3_api \<Rightarrow> (CppSQLite3Query \<times> 'w world, unit) sq" where
  "Query_finalize api =
     sq_bind (this (\<lambda>q. (mpVM q, mbOwnVM q))) (\<lambda>(vm, own).
     if vm \<noteq> None \<and> own then
       sq_bind (vm_finalize api vm) (\<lambda>nRet.
       sq_bind (set_this (\<lambda>q. q\<lparr>mpVM := None\<rparr>)) (\<lambda>_.
       if nRet \<noteq> SQLITE_OK then Query_raise api nRet else sq_return ()))
     else sq_return ())"

definition Query_destroy :: "('w, 'd) sqlite3_api \<Rightarrow> (CppSQLite3Query \<times> 'w world, unit) sq" where
  "Query_destroy api = sq_try (Query_finalize api)"

text \<open>The assignment of the object \<open>j\<close> of a store to the object \<open>i\<close>; they may be the same.\<close>

definition on_obj :: "nat \<Rightarrow> ('o \<times> 'w world, 'a) sq \<Rightarrow> ((nat \<Rightarrow> 'o option) \<times> 'w world, 'a) sq" where
  "on_obj i m = (\<lambda>(objs, w).
     case objs i of
       None \<Rightarrow> (Crash Dangling, (objs, w))
     | Some q \<Rightarrow> (case m (q, w) of (r, (q', w')) \<Rightarrow> (r, (objs(i \<mapsto> q'), w'))))"

definition Query_assign ::
  "('w, 'd) sqlite3_api \<Rightarrow> nat \<Rightarrow> nat \<Rightarrow> ((nat \<Rightarrow> CppSQLite3Query option) \<times> 'w world, unit) sq" where
  "Query_assign api i j =
     sq_bind (on_obj i (sq_try (Query_finalize api))) (\<lambda>_.
     sq_bind (on_obj j (this (\<lambda>q. q))) (\<lambda>rQuery.
     sq_bind (on_obj i (set_this (\<lambda>q. Query_grab q rQuery))) (\<lambda>_.
     on_obj j (set_this Query_leave))))"

definition Query_numFields :: "(CppSQLite3Query \<times> 'w world, int) sq" where
  "Query_numFields = sq_bind Query_checkVM (\<lambda>_. this mnCols)"

definition Query_checkField :: "int \<Rightarrow> (CppSQLite3Query \<times> 'w world, nat option) sq" where
  "Query_checkField nField =
     sq_bind Query_checkVM (\<lambda>_.
     sq_bind (this mnCols) (\<lambda>n.
     sq_bind (sq_check (\<not> (nField < 0 \<or> nField > n - 1)) CPPSQLITE_ERROR ''Invalid field index requested'') (\<lambda>_.
     this mpVM)))"

definition Query_fieldValue ::
  "('w, 'd) sqlite3_api \<Rightarrow> int \<Rightarrow> (CppSQLite3Query \<times> 'w world, string option) sq" where
  "Query_fieldValue api nField =
     sq_bind (Query_checkField nField) (vm_call (\<lambda>vm. sqlite3_column_text api vm nField))"

fun fieldIndex_loop ::
  "('w, 'd) sqlite3_api \<Rightarrow> nat option \<Rightarrow> string \<Rightarrow> int list \<Rightarrow> (CppSQLite3Query \<times> 'w world, int) sq" where
  "fieldIndex_loop api vm szField [] = sq_throw CPPSQLITE_ERROR ''Invalid field name requested''"
| "fieldIndex_loop api vm szField (nField # ns) =
     sq_bind (vm_call (\<lambda>vm. sqlite3_column_name api vm nField) vm) (\<lambda>szTemp.
     case szTemp of
       None \<Rightarrow> sq_crash NullPtr
     | Some t \<Rightarrow> if szField = t then sq_return nField else fieldIndex_loop api vm szField ns)"

definition Query_fieldIndex ::
  "('w, 'd) sqlite3_api \<Rightarrow> string option \<Rightarrow> (CppSQLite3Query \<times> 'w world, int) sq" where
  "Query_fieldIndex api szField =
     sq_bind Query_checkVM (\<lambda>_.
     sq_bind (this (\<lambda>q. (mpVM q, mnCols q))) (\<lambda>(vm, n).
     case szField of
       None \<Rightarrow> sq_throw CPPSQLITE_ERROR ''Invalid field name requested''
     | Some f \<Rightarrow> fieldIndex_loop api vm f [0..n - 1]))"

definition Query_fieldValue_name ::
  "('w, 'd) sqlite3_api \<Rightarrow> string option \<Rightarrow> (CppSQLite3Query \<times> 'w world, string option) sq" where
  "Query_fieldValue_name api szField =
     sq_bind (Query_fieldIndex api szField) (\<lambda>nField.
     sq_bind (this mpVM) (vm_call (\<lambda>vm. sqlite3_column_text api vm nField)))"

definition Query_fieldName ::
  "('w, 'd) sqlite3_api \<Rightarrow> int \<Rightarrow> (CppSQLite3Query \<times> 'w world, string option) sq" where
  "Query_fieldName api nCol =
     sq_bind (Query_checkField nCol) (vm_call (\<lambda>vm. sqlite3_column_name api vm nCol))"

definition Query_fieldDeclType ::
  "('w, 'd) sqlite3_api \<Rightarrow> int \<Rightarrow> (CppSQLite3Query \<times> 'w world, string option) sq" where
  "Query_fieldDeclType api nCol =
     sq_bind (Query_checkField nCol) (vm_call (\<lambda>vm. sqlite3_column_decltype api vm nCol))"

definition Query_fieldDataType ::
  "('w, 'd) sqlite3_api \<Rightarrow> int \<Rightarrow> (CppSQLite3Query \<times> 'w world, int) sq" where
  "Query_fieldDataType api nCol =
     sq_bind (Query_checkField nCol) (vm_call (\<lambda>vm. sqlite3_column_type api vm nCol))"

text \<open>The getters: the given value for a column that is null, the library's value otherwise.\<close>

definition Query_getIntField ::
  "('w, 'd) sqlite3_api \<Rightarrow> int \<Rightarrow> int \<Rightarrow> (CppSQLite3Query \<times> 'w world, int) sq" where
  "Query_getIntField api nField nNullValue =
     sq_bind (Query_fieldDataType api nField) (\<lambda>t.
     if t = SQLITE_NULL then sq_return nNullValue
     else sq_bind (this mpVM) (vm_call (\<lambda>vm. sqlite3_column_int api vm nField)))"

definition Query_getIntField_name ::
  "('w, 'd) sqlite3_api \<Rightarrow> string option \<Rightarrow> int \<Rightarrow> (CppSQLite3Query \<times> 'w world, int) sq" where
  "Query_getIntField_name api szField nNullValue =
     sq_bind (Query_fieldIndex api szField) (\<lambda>nField. Query_getIntField api nField nNullValue)"

definition Query_getInt64Field ::
  "('w, 'd) sqlite3_api \<Rightarrow> int \<Rightarrow> int \<Rightarrow> (CppSQLite3Query \<times> 'w world, int) sq" where
  "Query_getInt64Field api nField nNullValue =
     sq_bind (Query_fieldDataType api nField) (\<lambda>t.
     if t = SQLITE_NULL then sq_return nNullValue
     else sq_bind (this mpVM) (vm_call (\<lambda>vm. sqlite3_column_int64 api vm nField)))"

text \<open>The conversion of a \<open>long long\<close> to an \<open>int\<close>.\<close>

definition to_int :: "int \<Rightarrow> int" where
  "to_int n = (n + 2 ^ 31) mod 2 ^ 32 - 2 ^ 31"

definition Query_getInt64Field_name ::
  "('w, 'd) sqlite3_api \<Rightarrow> string option \<Rightarrow> int \<Rightarrow> (CppSQLite3Query \<times> 'w world, int) sq" where
  "Query_getInt64Field_name api szField nNullValue =
     sq_bind (Query_fieldIndex api szField) (\<lambda>nField. Query_getIntField api nField (to_int nNullValue))"

definition Query_getFloatField ::
  "('w, 'd) sqlite3_api \<Rightarrow> int \<Rightarrow> 'd \<Rightarrow> (CppSQLite3Query \<times> 'w world, 'd) sq" where
  "Query_getFloatField api nField fNullValue =
     sq_bind (Query_fieldDataType api nField) (\<lambda>t.
     if t = SQLITE_NULL then sq_return fNullValue
     else sq_bind (this mpVM) (vm_call (\<lambda>vm. sqlite3_column_double api vm nField)))"

definition Query_getFloatField_name ::
  "('w, 'd) sqlite3_api \<Rightarrow> string option \<Rightarrow> 'd \<Rightarrow> (CppSQLite3Query \<times> 'w world, 'd) sq" where
  "Query_getFloatField_name api szField fNullValue =
     sq_bind (Query_fieldIndex api szField) (\<lambda>nField. Query_getFloatField api nField fNullValue)"

definition Query_getStringField ::
  "('w, 'd) sqlite3_api \<Rightarrow> int \<Rightarrow> string option \<Rightarrow> (CppSQLite3Query \<times> 'w world, string option) sq" where
  "Query_getStringField api nField szNullValue =
     sq_bind (Query_fieldDataType api nField) (\<lambda>t.
     if t = SQLITE_NULL then sq_return szNullValue
     else sq_bind (this mpVM) (vm_call (\<lambda>vm. sqlite3_column_text api vm nField)))"

definition Query_getStringField_name ::
  "('w, 'd) sqlite3_api \<Rightarrow> string option \<Rightarrow> string option \<Rightarrow> (CppSQLite3Query \<times> 'w world, string option) sq" where
  "Query_getStringField_name api szField szNullValue =
     sq_bind (Query_fieldIndex api szField) (\<lambda>nField. Query_getStringField api nField szNullValue)"

text \<open>The results are the bytes and the number in \<open>nLen\<close>.\<close>

definition Query_getBlobField ::
  "('w, 'd) sqlite3_api \<Rightarrow> int \<Rightarrow> (CppSQLite3Query \<times> 'w world, bytes option \<times> int) sq" where
  "Query_getBlobField api nField =
     sq_bind (Query_checkField nField) (\<lambda>vm.
     sq_bind (vm_call (\<lambda>vm. sqlite3_column_bytes api vm nField) vm) (\<lambda>nLen.
     sq_bind (vm_call (\<lambda>vm. sqlite3_column_blob api vm nField) vm) (\<lambda>b. sq_return (b, nLen))))"

definition Query_getBlobField_name ::
  "('w, 'd) sqlite3_api \<Rightarrow> string option \<Rightarrow> (CppSQLite3Query \<times> 'w world, bytes option \<times> int) sq" where
  "Query_getBlobField_name api szField = sq_bind (Query_fieldIndex api szField) (Query_getBlobField api)"

definition Query_fieldIsNull ::
  "('w, 'd) sqlite3_api \<Rightarrow> int \<Rightarrow> (CppSQLite3Query \<times> 'w world, bool) sq" where
  "Query_fieldIsNull api nField =
     sq_bind (Query_fieldDataType api nField) (\<lambda>t. sq_return (t = SQLITE_NULL))"

definition Query_fieldIsNull_name ::
  "('w, 'd) sqlite3_api \<Rightarrow> string option \<Rightarrow> (CppSQLite3Query \<times> 'w world, bool) sq" where
  "Query_fieldIsNull_name api szField =
     sq_bind (Query_fieldIndex api szField) (\<lambda>nField.
     sq_bind (Query_fieldDataType api nField) (\<lambda>t. sq_return (t = SQLITE_NULL)))"

definition Query_eof :: "(CppSQLite3Query \<times> 'w world, bool) sq" where
  "Query_eof = sq_bind Query_checkVM (\<lambda>_. this mbEof)"

definition Query_nextRow :: "('w, 'd) sqlite3_api \<Rightarrow> (CppSQLite3Query \<times> 'w world, unit) sq" where
  "Query_nextRow api =
     sq_bind Query_checkVM (\<lambda>_.
     sq_bind (this mpVM) (\<lambda>vm.
     sq_bind (vm_call (sqlite3_step api) vm) (\<lambda>nRet.
     if nRet = SQLITE_DONE then set_this (\<lambda>q. q\<lparr>mbEof := True\<rparr>)
     else if nRet = SQLITE_ROW then sq_return ()
     else
       sq_bind (vm_finalize api vm) (\<lambda>nRet.
       sq_bind (set_this (\<lambda>q. q\<lparr>mpVM := None\<rparr>)) (\<lambda>_. Query_raise api nRet)))))"

section \<open>Reading leaves the cursor alone\<close>

lemmas query_defs = this_def set_this_def lib_call_def vm_call_def Query_checkVM_def Query_checkField_def

text \<open>A method that only reads: the object, the live handles and the tables stay, and it does not use a
  dangling handle when the object's machine is live.\<close>

definition calm :: "CppSQLite3Query \<Rightarrow> (CppSQLite3Query \<times> 'w world, 'a) sq \<Rightarrow> bool" where
  "calm q m \<longleftrightarrow> (\<forall>w. set_option (mpVM q) \<subseteq> set (vms w) \<longrightarrow>
     (\<exists>r l. m (q, w) = (r, (q, w\<lparr>lib := l\<rparr>)) \<and> r \<noteq> Crash Dangling \<and> r \<noteq> Crash Uninit))"

lemma calmD:
  assumes "calm q m" "set_option (mpVM q) \<subseteq> set (vms w)"
  obtains r l where "m (q, w) = (r, (q, w\<lparr>lib := l\<rparr>))" "r \<noteq> Crash Dangling" "r \<noteq> Crash Uninit"
  using assms unfolding calm_def by blast

lemma calm_bind [intro]:
  assumes "calm q m" "\<And>x. calm q (f x)"
  shows "calm q (sq_bind m f)"
  unfolding calm_def
proof (intro allI impI)
  fix w :: "'a world" assume live: "set_option (mpVM q) \<subseteq> set (vms w)"
  with assms(1) obtain r l where m: "m (q, w) = (r, (q, w\<lparr>lib := l\<rparr>))" "r \<noteq> Crash Dangling" "r \<noteq> Crash Uninit"
    by (rule calmD)
  show "\<exists>r l. sq_bind m f (q, w) = (r, (q, w\<lparr>lib := l\<rparr>)) \<and> r \<noteq> Crash Dangling \<and> r \<noteq> Crash Uninit"
  proof (cases r)
    case (Val x)
    have "set_option (mpVM q) \<subseteq> set (vms (w\<lparr>lib := l\<rparr>))" using live by simp
    with assms(2) obtain r' l' where "f x (q, w\<lparr>lib := l\<rparr>) = (r', (q, w\<lparr>lib := l\<rparr>\<lparr>lib := l'\<rparr>))"
        "r' \<noteq> Crash Dangling" "r' \<noteq> Crash Uninit" by (rule calmD)
    then show ?thesis using m Val by (intro exI [of _ r'] exI [of _ l']) (simp add: sq_bind_def)
  qed (use m in \<open>auto simp: sq_bind_def\<close>)
qed

lemma calm_pure:
  assumes "\<And>w. snd (m (q, w)) = (q, w)" "\<And>w. fst (m (q, w)) \<noteq> Crash Dangling \<and> fst (m (q, w)) \<noteq> Crash Uninit"
  shows "calm q m"
  unfolding calm_def
proof (intro allI impI)
  fix w
  show "\<exists>r l. m (q, w) = (r, (q, w\<lparr>lib := l\<rparr>)) \<and> r \<noteq> Crash Dangling \<and> r \<noteq> Crash Uninit"
    using assms by (intro exI [of _ "fst (m (q, w))"] exI [of _ "lib w"]) (simp add: prod_eq_iff)
qed

lemma calm_basic [intro, simp]:
  "calm q (sq_return x)" "calm q (sq_throw c t)" "calm q (sq_check b c t)" "calm q (this g)"
  "calm q (sq_crash NullPtr)" "calm q Query_checkVM"
  by (rule calm_pure; simp add: sq_simps query_defs)+

lemma calm_vm_call [intro]: "calm q (vm_call f (mpVM q))"
  by (auto simp: calm_def vm_call_def lib_call_def split: prod.split)

lemma calm_this [intro]: "calm q (f (g q)) \<Longrightarrow> calm q (sq_bind (this g) f)"
  by (simp add: calm_def sq_bind_def this_def sq_get_def)

lemma calm_checkField [intro]: "calm q (f (mpVM q)) \<Longrightarrow> calm q (sq_bind (Query_checkField n) f)"
  unfolding Query_checkField_def sq_bind_assoc by (intro calm_bind calm_this) auto

lemma calm_fieldIndex_loop: "calm q (fieldIndex_loop api (mpVM q) f ns)"
  by (induction ns) (auto split: option.split)

lemma calm_fieldIndex [intro, simp]: "calm q (Query_fieldIndex api szField)"
  unfolding Query_fieldIndex_def
  by (rule calm_bind calm_basic calm_this)+ (auto simp: calm_fieldIndex_loop split: option.split)

lemma calm_fieldDataType [intro, simp]: "calm q (Query_fieldDataType api n)"
  unfolding Query_fieldDataType_def by (intro calm_checkField calm_vm_call)

lemma calm_getters:
  "calm q (Query_getIntField api n d)" "calm q (Query_getInt64Field api n d)"
  "calm q (Query_getFloatField api n fd)" "calm q (Query_getStringField api n sd)"
  "calm q (Query_getBlobField api n)" "calm q (Query_fieldIsNull api n)"
  "calm q (Query_fieldValue api n)" "calm q (Query_fieldName api n)" "calm q (Query_fieldDeclType api n)"
  unfolding Query_getIntField_def Query_getInt64Field_def Query_getFloatField_def Query_getStringField_def
    Query_getBlobField_def Query_fieldIsNull_def Query_fieldValue_def Query_fieldName_def Query_fieldDeclType_def
  by (auto intro!: calm_checkField calm_bind calm_vm_call calm_this)

section \<open>Columns by name and by index\<close>

text \<open>The names of the columns of a prepared machine, which do not change.\<close>

definition has_columns :: "('w, 'd) sqlite3_api \<Rightarrow> nat \<Rightarrow> string list \<Rightarrow> bool" where
  "has_columns api v cols \<longleftrightarrow>
     (\<forall>i < length cols. \<forall>l. sqlite3_column_name api (Some v) (int i) l = (Some (cols ! i), l))"

lemma fieldIndex_loop_found:
  assumes "has_columns api v cols" "v \<in> set (vms w)" "k < length cols" "cols ! k = f" "\<forall>i < k. cols ! i \<noteq> f" "i \<le> k"
  shows "fieldIndex_loop api (Some v) f [int i..int (length cols) - 1] (q, w) = (Val (int k), (q, w))"
  using assms(6)
proof (induction rule: inc_induct)
  case base
  then show ?case using assms
    by (simp add: upto_rec1 has_columns_def sq_simps query_defs)
next
  case (step i)
  with assms have "sqlite3_column_name api (Some v) (int i) (lib w) = (Some (cols ! i), lib w)" "cols ! i \<noteq> f"
    by (auto simp: has_columns_def)
  then show ?case using step assms by (subst upto_rec1) (auto simp: sq_simps query_defs add.commute)
qed

lemma fieldIndex_loop_missing:
  assumes "has_columns api v cols" "v \<in> set (vms w)" "f \<notin> set cols" "i \<le> length cols"
  shows "fieldIndex_loop api (Some v) f [int i..int (length cols) - 1] (q, w) =
    (Throw CPPSQLITE_ERROR (Some ''Invalid field name requested'') False, (q, w))"
  using assms(4)
proof (induction rule: inc_induct)
  case base
  then show ?case by (simp add: sq_simps)
next
  case (step i)
  with assms have "sqlite3_column_name api (Some v) (int i) (lib w) = (Some (cols ! i), lib w)" "cols ! i \<noteq> f"
    by (auto simp: has_columns_def)
  then show ?case using step assms by (subst upto_rec1) (auto simp: sq_simps query_defs add.commute)
qed

definition on_columns :: "('w, 'd) sqlite3_api \<Rightarrow> string list \<Rightarrow> CppSQLite3Query \<Rightarrow> 'w world \<Rightarrow> bool" where
  "on_columns api cols q w \<longleftrightarrow>
     (\<exists>v \<in> set (vms w). mpVM q = Some v \<and> has_columns api v cols \<and> mnCols q = int (length cols))"

lemma Query_fieldIndex_found:
  assumes "on_columns api cols q w" "k < length cols" "cols ! k = f" "\<forall>i < k. cols ! i \<noteq> f"
  shows "Query_fieldIndex api (Some f) (q, w) = (Val (int k), (q, w))"
proof -
  obtain v where v: "v \<in> set (vms w)" "mpVM q = Some v" "has_columns api v cols" "mnCols q = int (length cols)"
    using assms(1) unfolding on_columns_def by blast
  from fieldIndex_loop_found [OF v(3,1) assms(2-4), of 0 q] v show ?thesis
    by (simp add: Query_fieldIndex_def Query_checkVM_def sq_simps this_def)
qed

lemma Query_fieldIndex_missing:
  assumes "on_columns api cols q w" "f \<notin> set cols"
  shows "Query_fieldIndex api (Some f) (q, w) =
    (Throw CPPSQLITE_ERROR (Some ''Invalid field name requested'') False, (q, w))"
proof -
  obtain v where v: "v \<in> set (vms w)" "mpVM q = Some v" "has_columns api v cols" "mnCols q = int (length cols)"
    using assms(1) unfolding on_columns_def by blast
  from fieldIndex_loop_missing [OF v(3,1) assms(2), of 0 q] v show ?thesis
    by (simp add: Query_fieldIndex_def Query_checkVM_def sq_simps this_def)
qed

lemma by_index:
  assumes "on_columns api cols q w" "k < length cols" "\<forall>i < k. cols ! i \<noteq> cols ! k"
  shows "sq_bind (Query_fieldIndex api (Some (cols ! k))) f (q, w) = f (int k) (q, w)"
  using Query_fieldIndex_found [OF assms(1,2) refl assms(3)] by (simp add: sq_bind_def)

lemma by_missing:
  assumes "on_columns api cols q w" "n \<notin> set cols"
  shows "sq_bind (Query_fieldIndex api (Some n)) f (q, w) =
    (Throw CPPSQLITE_ERROR (Some ''Invalid field name requested'') False, (q, w))"
  using Query_fieldIndex_missing [OF assms] by (simp add: sq_bind_def)

lemmas by_name_defs = Query_getIntField_name_def Query_getFloatField_name_def Query_getStringField_name_def
  Query_getBlobField_name_def Query_fieldIsNull_name_def Query_fieldValue_name_def Query_getInt64Field_name_def

text \<open>On a cursor with the columns \<open>cols\<close>, an access by the name of a column is the access by the
  index of the first column with that name, and the access by any other name is an exception.\<close>

theorem query_by_name:
  assumes "on_columns api cols q w"
  shows "(\<forall>k < length cols. (\<forall>i < k. cols ! i \<noteq> cols ! k) \<longrightarrow>
      Query_getIntField_name api (Some (cols ! k)) n (q, w) = Query_getIntField api (int k) n (q, w) \<and>
      Query_getFloatField_name api (Some (cols ! k)) x (q, w) = Query_getFloatField api (int k) x (q, w) \<and>
      Query_getStringField_name api (Some (cols ! k)) t (q, w) = Query_getStringField api (int k) t (q, w) \<and>
      Query_getBlobField_name api (Some (cols ! k)) (q, w) = Query_getBlobField api (int k) (q, w) \<and>
      Query_fieldIsNull_name api (Some (cols ! k)) (q, w) = Query_fieldIsNull api (int k) (q, w) \<and>
      Query_fieldValue_name api (Some (cols ! k)) (q, w) = Query_fieldValue api (int k) (q, w)) \<and>
    (\<forall>f. f \<notin> set cols \<longrightarrow>
      Query_getIntField_name api (Some f) n (q, w) =
        (Throw CPPSQLITE_ERROR (Some ''Invalid field name requested'') False, (q, w)) \<and>
      Query_fieldValue_name api (Some f) (q, w) =
        (Throw CPPSQLITE_ERROR (Some ''Invalid field name requested'') False, (q, w)))"
proof (intro conjI allI impI)
  fix k assume k: "k < length cols" "\<forall>i < k. cols ! i \<noteq> cols ! k"
  note found = by_index [OF assms k]
  show "Query_fieldValue_name api (Some (cols ! k)) (q, w) = Query_fieldValue api (int k) (q, w)"
    unfolding by_name_defs found using assms k(1)
    by (auto simp: Query_fieldValue_def Query_checkField_def on_columns_def Query_checkVM_def this_def sq_simps)
  show "Query_getIntField_name api (Some (cols ! k)) n (q, w) = Query_getIntField api (int k) n (q, w)"
    "Query_getFloatField_name api (Some (cols ! k)) x (q, w) = Query_getFloatField api (int k) x (q, w)"
    "Query_getStringField_name api (Some (cols ! k)) t (q, w) = Query_getStringField api (int k) t (q, w)"
    "Query_getBlobField_name api (Some (cols ! k)) (q, w) = Query_getBlobField api (int k) (q, w)"
    "Query_fieldIsNull_name api (Some (cols ! k)) (q, w) = Query_fieldIsNull api (int k) (q, w)"
    by (simp_all add: by_name_defs found Query_fieldIsNull_def)
next
  fix f assume "f \<notin> set cols"
  note missing = by_missing [OF assms this]
  show "Query_getIntField_name api (Some f) n (q, w) =
        (Throw CPPSQLITE_ERROR (Some ''Invalid field name requested'') False, (q, w))"
    "Query_fieldValue_name api (Some f) (q, w) =
        (Throw CPPSQLITE_ERROR (Some ''Invalid field name requested'') False, (q, w))"
    by (simp_all add: by_name_defs missing)
qed

text \<open>A library with one machine, one row and the columns \<open>id\<close> and \<open>size\<close>.\<close>

definition demo_api :: "(unit, int) sqlite3_api" where
  "demo_api = \<lparr>sqlite3_step = \<lambda>vm l. (SQLITE_DONE, l), sqlite3_finalize = \<lambda>vm l. (SQLITE_OK, l),
     sqlite3_reset = \<lambda>vm l. (SQLITE_OK, l), sqlite3_errmsg = \<lambda>db l. (Some ''not an error'', l),
     sqlite3_changes = \<lambda>db l. (0, l), sqlite3_column_count = \<lambda>vm l. (2, l),
     sqlite3_column_type = \<lambda>vm i l. (1, l), sqlite3_column_int = \<lambda>vm i l. (to_int (2 ^ 40 + i), l),
     sqlite3_column_int64 = \<lambda>vm i l. (2 ^ 40 + i, l), sqlite3_column_double = \<lambda>vm i l. (i, l),
     sqlite3_column_text = \<lambda>vm i l. (Some ''1099511627776'', l), sqlite3_column_bytes = \<lambda>vm i l. (13, l),
     sqlite3_column_blob = \<lambda>vm i l. (None, l),
     sqlite3_column_name = \<lambda>vm i l. (Some ([''id'', ''size''] ! nat i), l),
     sqlite3_column_decltype = \<lambda>vm i l. (Some ''INTEGER'', l),
     sqlite3_bind_text = \<lambda>vm i x l. (SQLITE_OK, l), sqlite3_bind_int = \<lambda>vm i x l. (SQLITE_OK, l),
     sqlite3_bind_int64 = \<lambda>vm i x l. (SQLITE_OK, l), sqlite3_bind_double = \<lambda>vm i x l. (SQLITE_OK, l),
     sqlite3_bind_blob = \<lambda>vm i x l. (SQLITE_OK, l), sqlite3_bind_null = \<lambda>vm i l. (SQLITE_OK, l),
     sqlite3_open = \<lambda>f l. ((SQLITE_OK, Some 1), l), sqlite3_close = \<lambda>db l. (SQLITE_OK, l),
     sqlite3_busy_timeout = \<lambda>db n l. (SQLITE_OK, l), sqlite3_last_insert_rowid = \<lambda>db l. (0, l),
     sqlite3_interrupt = \<lambda>db l. ((), l), sqlite3_prepare = \<lambda>db sql l. ((SQLITE_OK, None), l),
     sqlite3_exec = \<lambda>db sql l. ((SQLITE_OK, None), l),
     sqlite3_get_table = \<lambda>db sql l. ((SQLITE_OK, Some (0, []), 0, 0, None), l),
     sqlite3_free_table = \<lambda>t l. ((), l)\<rparr>"

definition demo_query :: CppSQLite3Query where
  "demo_query = \<lparr>mpDB = DB_ptr (Some 1), mpVM = Some 7, mbEof = False, mnCols = 2, mbOwnVM = True\<rparr>"

definition demo_world :: "unit world" where
  "demo_world = \<lparr>lib = (), vms = [7], tables = []\<rparr>"

lemma demo_columns: "on_columns demo_api [''id'', ''size''] demo_query demo_world"
  by (simp add: on_columns_def has_columns_def demo_api_def demo_query_def demo_world_def)

text \<open>Column \<open>size\<close> is column 1.\<close>

theorem query_by_name_witness:
  "Query_getIntField_name demo_api (Some ''size'') 0 (demo_query, demo_world) =
     Query_getIntField demo_api 1 0 (demo_query, demo_world)"
  using query_by_name [OF demo_columns, of 0 0 None, THEN conjunct1, THEN spec, of 1] by simp

text \<open>The library's documentation says that \<open>sqlite3_column_int\<close> returns the lower bits of the
  64-bit value.\<close>

definition int_is_truncated :: "('w, 'd) sqlite3_api \<Rightarrow> bool" where
  "int_is_truncated api \<longleftrightarrow> (\<forall>vm i l. sqlite3_column_int api vm i l =
     (to_int (fst (sqlite3_column_int64 api vm i l)), snd (sqlite3_column_int64 api vm i l)))"

lemma to_int_bounds: "- (2 ^ 31) \<le> to_int n \<and> to_int n < 2 ^ 31"
  by (simp add: to_int_def)

lemma to_int_id: "- (2 ^ 31) \<le> n \<Longrightarrow> n < 2 ^ 31 \<Longrightarrow> to_int n = n"
  by (simp add: to_int_def)

text \<open>\<open>getInt64Field\<close> with a column name calls \<open>getIntField\<close>: it returns the value that the access
  by index returns (or the value for null) cut to 32 bits, so the two differ for exactly the values
  outside of an \<open>int\<close>.\<close>

theorem int64_by_name_truncates:
  assumes "on_columns api cols q w" "int_is_truncated api" "k < length cols" "\<forall>i < k. cols ! i \<noteq> cols ! k"
    "Query_getInt64Field api (int k) d (q, w) = (Val v, s)"
  shows "Query_getInt64Field_name api (Some (cols ! k)) d (q, w) = (Val (to_int v), s) \<and>
    (to_int v = v \<longleftrightarrow> - (2 ^ 31) \<le> v \<and> v < 2 ^ 31)"
proof
  note found = by_index [OF assms(1,3,4)]
  show "Query_getInt64Field_name api (Some (cols ! k)) d (q, w) = (Val (to_int v), s)"
    unfolding by_name_defs found using assms(2,5)
    by (auto simp: Query_getIntField_def Query_getInt64Field_def sq_simps this_def vm_call_def
        lib_call_def int_is_truncated_def split: prod.splits sq_result.splits if_splits)
  show "to_int v = v \<longleftrightarrow> - (2 ^ 31) \<le> v \<and> v < 2 ^ 31"
    using to_int_bounds [of v] to_int_id by metis
qed

text \<open>The value \<open>2\<^sup>4\<^sup>0\<close> comes back as zero.\<close>

theorem int64_by_name_truncates_witness:
  "Query_getInt64Field demo_api 0 0 (demo_query, demo_world) = (Val (2 ^ 40), (demo_query, demo_world)) \<and>
   Query_getInt64Field_name demo_api (Some ''id'') 0 (demo_query, demo_world) = (Val 0, (demo_query, demo_world))"
proof -
  have v: "Query_getInt64Field demo_api (int 0) 0 (demo_query, demo_world) = (Val (2 ^ 40), (demo_query, demo_world))"
    by (simp add: Query_getInt64Field_def Query_fieldDataType_def query_defs sq_simps demo_api_def demo_query_def demo_world_def)
  have "int_is_truncated demo_api" by (simp add: int_is_truncated_def demo_api_def)
  from int64_by_name_truncates [OF demo_columns this _ _ v] v show ?thesis by (simp add: to_int_def)
qed

end
