(* ===== verification/Sqlite_Table.thy ===== *)
theory Sqlite_Table
  imports Sqlite_Query Util_Fun
begin

text \<open>
  Results held in memory of \<open>src/CppSQLite3.cpp\<close>: the class \<open>CppSQLite3Table\<close> over the array that
  \<open>sqlite3_get_table\<close> returns, which starts with the names of the columns and goes on with the rows.
  The theorems: positions, bounds of the accesses, and the ownership of the array.
\<close>

section \<open>The object\<close>

text \<open>The array is its handle and its entries; \<open>tabCols\<close> is the member \<open>mnCols\<close>.\<close>

record CppSQLite3Table =
  mpaszResults :: "(nat \<times> string option list) option"
  mnRows :: int
  tabCols :: int
  mnCurrentRow :: int

definition Table_new :: CppSQLite3Table where
  "Table_new = \<lparr>mpaszResults = None, mnRows = 0, tabCols = 0, mnCurrentRow = 0\<rparr>"

definition Table_make :: "(nat \<times> string option list) option \<Rightarrow> int \<Rightarrow> int \<Rightarrow> CppSQLite3Table" where
  "Table_make paszResults nRows nCols =
     \<lparr>mpaszResults = paszResults, mnRows = nRows, tabCols = nCols, mnCurrentRow = 0\<rparr>"

definition Table_grab :: "CppSQLite3Table \<Rightarrow> CppSQLite3Table \<Rightarrow> CppSQLite3Table" where
  "Table_grab t rTable =
     t\<lparr>mpaszResults := mpaszResults rTable, mnRows := mnRows rTable, tabCols := tabCols rTable,
       mnCurrentRow := mnCurrentRow rTable\<rparr>"

definition Table_leave :: "CppSQLite3Table \<Rightarrow> CppSQLite3Table" where
  "Table_leave rTable = rTable\<lparr>mpaszResults := None\<rparr>"

definition Table_copy :: "CppSQLite3Table \<Rightarrow> CppSQLite3Table \<times> CppSQLite3Table" where
  "Table_copy rTable = (Table_grab Table_new rTable, Table_leave rTable)"

definition Table_finalize :: "('w, 'd) sqlite3_api \<Rightarrow> (CppSQLite3Table \<times> 'w world, unit) sq" where
  "Table_finalize api =
     sq_bind (this mpaszResults) (\<lambda>p.
     case p of
       None \<Rightarrow> sq_return ()
     | Some (h, xs) \<Rightarrow>
         sq_bind (\<lambda>(t, w). if h \<in> set (tables w) then (Val (), (t, w\<lparr>tables := remove1 h (tables w)\<rparr>))
                          else (Crash Dangling, (t, w))) (\<lambda>_.
         sq_bind (lib_call (sqlite3_free_table api h)) (\<lambda>_.
         set_this (\<lambda>t. t\<lparr>mpaszResults := None\<rparr>))))"

definition Table_destroy :: "('w, 'd) sqlite3_api \<Rightarrow> (CppSQLite3Table \<times> 'w world, unit) sq" where
  "Table_destroy api = sq_try (Table_finalize api)"

definition Table_assign ::
  "('w, 'd) sqlite3_api \<Rightarrow> nat \<Rightarrow> nat \<Rightarrow> ((nat \<Rightarrow> CppSQLite3Table option) \<times> 'w world, unit) sq" where
  "Table_assign api i j =
     sq_bind (on_obj i (sq_try (Table_finalize api))) (\<lambda>_.
     sq_bind (on_obj j (this (\<lambda>t. t))) (\<lambda>rTable.
     sq_bind (on_obj i (set_this (\<lambda>t. Table_grab t rTable))) (\<lambda>_.
     on_obj j (set_this Table_leave))))"

definition Table_checkResults :: "(CppSQLite3Table \<times> 'w world, unit) sq" where
  "Table_checkResults =
     sq_bind (this mpaszResults) (\<lambda>p. sq_check (p \<noteq> None) CPPSQLITE_ERROR ''Null Results pointer'')"

definition Table_numFields :: "(CppSQLite3Table \<times> 'w world, int) sq" where
  "Table_numFields = sq_bind Table_checkResults (\<lambda>_. this tabCols)"

definition Table_numRows :: "(CppSQLite3Table \<times> 'w world, int) sq" where
  "Table_numRows = sq_bind Table_checkResults (\<lambda>_. this mnRows)"

text \<open>\<open>mpaszResults[nIndex]\<close>\<close>

definition result_at :: "int \<Rightarrow> (CppSQLite3Table \<times> 'w world, string option) sq" where
  "result_at nIndex = (\<lambda>(t, w).
     (case mpaszResults t of
        None \<Rightarrow> Crash NullPtr
      | Some (h, xs) \<Rightarrow>
          if h \<notin> set (tables w) then Crash Dangling
          else if 0 \<le> nIndex \<and> nIndex < int (length xs) then Val (xs ! nat nIndex) else Crash Bounds,
      (t, w)))"

definition cell_at :: "int \<Rightarrow> (CppSQLite3Table \<times> 'w world, string option) sq" where
  "cell_at nField =
     sq_bind (this (\<lambda>t. mnCurrentRow t * tabCols t + tabCols t + nField)) result_at"

definition Table_fieldValue :: "int \<Rightarrow> (CppSQLite3Table \<times> 'w world, string option) sq" where
  "Table_fieldValue nField =
     sq_bind Table_checkResults (\<lambda>_.
     sq_bind (this tabCols) (\<lambda>n.
     sq_bind (sq_check (\<not> (nField < 0 \<or> nField > n - 1)) CPPSQLITE_ERROR ''Invalid field index requested'') (\<lambda>_.
     cell_at nField)))"

fun Table_find :: "string \<Rightarrow> int list \<Rightarrow> (CppSQLite3Table \<times> 'w world, string option) sq" where
  "Table_find szField [] = sq_throw CPPSQLITE_ERROR ''Invalid field name requested''"
| "Table_find szField (nField # ns) =
     sq_bind (result_at nField) (\<lambda>szTemp.
     case szTemp of
       None \<Rightarrow> sq_crash NullPtr
     | Some t \<Rightarrow> if szField = t then cell_at nField else Table_find szField ns)"

definition Table_fieldValue_name :: "string option \<Rightarrow> (CppSQLite3Table \<times> 'w world, string option) sq" where
  "Table_fieldValue_name szField =
     sq_bind Table_checkResults (\<lambda>_.
     sq_bind (this tabCols) (\<lambda>n.
     case szField of
       None \<Rightarrow> sq_throw CPPSQLITE_ERROR ''Invalid field name requested''
     | Some f \<Rightarrow> Table_find f [0..n - 1]))"

definition Table_fieldIsNull :: "int \<Rightarrow> (CppSQLite3Table \<times> 'w world, bool) sq" where
  "Table_fieldIsNull nField =
     sq_bind Table_checkResults (\<lambda>_. sq_bind (Table_fieldValue nField) (\<lambda>v. sq_return (v = None)))"

definition Table_fieldIsNull_name :: "string option \<Rightarrow> (CppSQLite3Table \<times> 'w world, bool) sq" where
  "Table_fieldIsNull_name szField =
     sq_bind Table_checkResults (\<lambda>_. sq_bind (Table_fieldValue_name szField) (\<lambda>v. sq_return (v = None)))"

text \<open>\<open>atoi\<close> and \<open>atof\<close> of a pointer; a number that does not fit is not defined.\<close>

definition sq_atoi :: "string option \<Rightarrow> ('s, int) sq" where
  "sq_atoi v =
     (case v of
        None \<Rightarrow> sq_crash NullPtr
      | Some t \<Rightarrow> (case ato_signed 32 t of None \<Rightarrow> sq_crash Overflow | Some n \<Rightarrow> sq_return n))"

definition sq_atof :: "(string \<Rightarrow> 'd) \<Rightarrow> string option \<Rightarrow> ('s, 'd) sq" where
  "sq_atof atof v = (case v of None \<Rightarrow> sq_crash NullPtr | Some t \<Rightarrow> sq_return (atof t))"

definition Table_getIntField :: "int \<Rightarrow> int \<Rightarrow> (CppSQLite3Table \<times> 'w world, int) sq" where
  "Table_getIntField nField nNullValue =
     sq_bind (Table_fieldIsNull nField) (\<lambda>null.
     if null then sq_return nNullValue else sq_bind (Table_fieldValue nField) sq_atoi)"

definition Table_getIntField_name :: "string option \<Rightarrow> int \<Rightarrow> (CppSQLite3Table \<times> 'w world, int) sq" where
  "Table_getIntField_name szField nNullValue =
     sq_bind (Table_fieldIsNull_name szField) (\<lambda>null.
     if null then sq_return nNullValue else sq_bind (Table_fieldValue_name szField) sq_atoi)"

definition Table_getFloatField :: "(string \<Rightarrow> 'd) \<Rightarrow> int \<Rightarrow> 'd \<Rightarrow> (CppSQLite3Table \<times> 'w world, 'd) sq" where
  "Table_getFloatField atof nField fNullValue =
     sq_bind (Table_fieldIsNull nField) (\<lambda>null.
     if null then sq_return fNullValue else sq_bind (Table_fieldValue nField) (sq_atof atof))"

definition Table_getFloatField_name ::
  "(string \<Rightarrow> 'd) \<Rightarrow> string option \<Rightarrow> 'd \<Rightarrow> (CppSQLite3Table \<times> 'w world, 'd) sq" where
  "Table_getFloatField_name atof szField fNullValue =
     sq_bind (Table_fieldIsNull_name szField) (\<lambda>null.
     if null then sq_return fNullValue else sq_bind (Table_fieldValue_name szField) (sq_atof atof))"

definition Table_getStringField :: "int \<Rightarrow> string option \<Rightarrow> (CppSQLite3Table \<times> 'w world, string option) sq" where
  "Table_getStringField nField szNullValue =
     sq_bind (Table_fieldIsNull nField) (\<lambda>null.
     if null then sq_return szNullValue else Table_fieldValue nField)"

definition Table_getStringField_name ::
  "string option \<Rightarrow> string option \<Rightarrow> (CppSQLite3Table \<times> 'w world, string option) sq" where
  "Table_getStringField_name szField szNullValue =
     sq_bind (Table_fieldIsNull_name szField) (\<lambda>null.
     if null then sq_return szNullValue else Table_fieldValue_name szField)"

definition Table_fieldName :: "int \<Rightarrow> (CppSQLite3Table \<times> 'w world, string option) sq" where
  "Table_fieldName nCol =
     sq_bind Table_checkResults (\<lambda>_.
     sq_bind (this tabCols) (\<lambda>n.
     sq_bind (sq_check (\<not> (nCol < 0 \<or> nCol > n - 1)) CPPSQLITE_ERROR ''Invalid field index requested'') (\<lambda>_.
     result_at nCol)))"

definition Table_setRow :: "int \<Rightarrow> (CppSQLite3Table \<times> 'w world, unit) sq" where
  "Table_setRow nRow =
     sq_bind Table_checkResults (\<lambda>_.
     sq_bind (this mnRows) (\<lambda>n.
     sq_bind (sq_check (\<not> (nRow < 0 \<or> nRow > n - 1)) CPPSQLITE_ERROR ''Invalid row index requested'') (\<lambda>_.
     set_this (\<lambda>t. t\<lparr>mnCurrentRow := nRow\<rparr>))))"

section \<open>Positions\<close>

text \<open>What \<open>sqlite3_get_table\<close> documents of its result: the names, then the rows, each as long as the
  names.\<close>

definition table_of :: "string list \<Rightarrow> string option list list \<Rightarrow> CppSQLite3Table \<Rightarrow> 'w world \<Rightarrow> bool" where
  "table_of cols rows t w \<longleftrightarrow>
     (\<exists>h \<in> set (tables w). mpaszResults t = Some (h, map Some cols @ concat rows)) \<and>
     tabCols t = int (length cols) \<and> mnRows t = int (length rows) \<and>
     (\<forall>r \<in> set rows. length r = length cols) \<and> 0 \<le> mnCurrentRow t \<and>
     (mnCurrentRow t < int (length rows) \<or> rows = [] \<and> mnCurrentRow t = 0)"

lemma nth_concat_rows:
  assumes "\<forall>r \<in> set rows. length r = c" "i < length rows" "k < c"
  shows "concat rows ! (i * c + k) = rows ! i ! k \<and> i * c + k < length (concat rows)"
  using assms
proof (induction rows arbitrary: i)
  case (Cons r rows)
  then show ?case by (cases i) (auto simp: nth_append algebra_simps)
qed simp

lemma length_concat_rows: "\<forall>r \<in> set rows. length r = c \<Longrightarrow> length (concat rows) = length rows * c"
  by (induction rows) auto

lemma result_at_int:
  assumes "mpaszResults t = Some (h, xs)" "h \<in> set (tables w)" "n < length xs"
  shows "result_at (int n) (t, w) = (Val (xs ! n), (t, w))"
  using assms by (simp add: result_at_def)

lemma cell_at_row:
  assumes "table_of cols rows t w" "k < length cols" "nat (mnCurrentRow t) < length rows"
  shows "cell_at (int k) (t, w) = (Val (rows ! nat (mnCurrentRow t) ! k), (t, w))"
proof -
  obtain h where h: "h \<in> set (tables w)" "mpaszResults t = Some (h, map Some cols @ concat rows)"
    and c: "tabCols t = int (length cols)" "0 \<le> mnCurrentRow t" "\<forall>r \<in> set rows. length r = length cols"
    using assms(1) by (auto simp: table_of_def)
  then obtain i where i: "mnCurrentRow t = int i" using nonneg_int_cases by blast
  have "mnCurrentRow t * tabCols t + tabCols t + int k = int (length cols + (i * length cols + k))"
    by (simp add: c(1) i algebra_simps)
  then have "cell_at (int k) (t, w) = result_at (int (length cols + (i * length cols + k))) (t, w)"
    by (simp only: cell_at_def this_def sq_bind_def sq_get_def prod.case sq_result.case)
  also have "\<dots> = (Val ((map Some cols @ concat rows) ! (length cols + (i * length cols + k))), (t, w))"
    using nth_concat_rows [of rows "length cols" i k] assms(2,3) c i h by (intro result_at_int) auto
  also have "\<dots> = (Val (rows ! nat (mnCurrentRow t) ! k), (t, w))"
    using nth_concat_rows [of rows "length cols" i k] assms(2,3) c i by (simp add: nth_append)
  finally show ?thesis .
qed

lemma cell_at_empty:
  assumes "table_of cols [] t w" "k < length cols"
  shows "cell_at (int k) (t, w) = (Crash Bounds, (t, w))"
  using assms by (auto simp: table_of_def cell_at_def this_def result_at_def sq_simps)

lemma Table_fieldValue_cell:
  assumes "table_of cols rows t w" "k < length cols"
  shows "Table_fieldValue (int k) (t, w) = cell_at (int k) (t, w)"
  using assms by (auto simp: table_of_def Table_fieldValue_def Table_checkResults_def this_def sq_simps)

lemma result_at_name:
  assumes "table_of cols rows t w" "i < length cols"
  shows "result_at (int i) (t, w) = (Val (Some (cols ! i)), (t, w))"
  using assms by (auto simp: table_of_def result_at_def nth_append)

lemma Table_find_found:
  assumes "table_of cols rows t w" "k < length cols" "\<forall>i < k. cols ! i \<noteq> cols ! k" "i \<le> k"
  shows "Table_find (cols ! k) [int i..int (length cols) - 1] (t, w) = cell_at (int k) (t, w)"
  using assms(4)
proof (induction rule: inc_induct)
  case base
  then show ?case using assms by (simp add: upto_rec1 result_at_name sq_bind_def)
next
  case (step i)
  with assms show ?case
    by (subst upto_rec1) (auto simp: result_at_name [OF assms(1)] sq_bind_def add.commute)
qed

lemma Table_fieldValue_name_cell:
  assumes "table_of cols rows t w" "k < length cols" "\<forall>i < k. cols ! i \<noteq> cols ! k"
  shows "Table_fieldValue_name (Some (cols ! k)) (t, w) = cell_at (int k) (t, w)"
  using assms Table_find_found [OF assms, of 0]
  by (auto simp: table_of_def Table_fieldValue_name_def Table_checkResults_def this_def sq_simps)

lemma Table_setRow_ok:
  assumes "table_of cols rows t w" "i < length rows"
  shows "Table_setRow (int i) (t, w) = (Val (), (t\<lparr>mnCurrentRow := int i\<rparr>, w)) \<and>
    table_of cols rows (t\<lparr>mnCurrentRow := int i\<rparr>) w"
  using assms by (auto simp: table_of_def Table_setRow_def Table_checkResults_def this_def set_this_def sq_simps)

lemma Table_setRow_bad:
  assumes "table_of cols rows t w" "n < 0 \<or> n \<ge> int (length rows)"
  shows "Table_setRow n (t, w) = (Throw CPPSQLITE_ERROR (Some ''Invalid row index requested'') False, (t, w))"
  using assms by (auto simp: table_of_def Table_setRow_def Table_checkResults_def this_def sq_simps)

lemma Table_checked: "table_of cols rows t w \<Longrightarrow> Table_checkResults (t, w) = (Val (), (t, w))"
  by (auto simp: table_of_def Table_checkResults_def this_def sq_simps)

lemmas table_getter_defs = Table_getStringField_def Table_getStringField_name_def Table_fieldIsNull_def
  Table_fieldIsNull_name_def

text \<open>On a table with the columns \<open>cols\<close> and the rows \<open>rows\<close>, \<open>setRow\<close> with an index inside of the
  rows selects that row and is refused with an exception otherwise; then each field, by index and by
  the name of a column (the first one of that name), is the entry of that row, null entries are
  reported as such and replaced by the given value.\<close>

theorem table_cells:
  assumes "table_of cols rows t w" "i < length rows" "k < length cols" "\<forall>j < k. cols ! j \<noteq> cols ! k"
  shows "\<exists>t'. Table_setRow (int i) (t, w) = (Val (), (t', w)) \<and>
      Table_fieldValue (int k) (t', w) = (Val (rows ! i ! k), (t', w)) \<and>
      Table_fieldValue_name (Some (cols ! k)) (t', w) = (Val (rows ! i ! k), (t', w)) \<and>
      Table_fieldIsNull (int k) (t', w) = (Val (rows ! i ! k = None), (t', w)) \<and>
      Table_getStringField (int k) d (t', w) = (Val (case rows ! i ! k of None \<Rightarrow> d | v \<Rightarrow> v), (t', w)) \<and>
      Table_getStringField_name (Some (cols ! k)) d (t', w) =
        (Val (case rows ! i ! k of None \<Rightarrow> d | v \<Rightarrow> v), (t', w)) \<and>
      (\<forall>n. n < 0 \<or> n \<ge> int (length rows) \<longrightarrow>
        Table_setRow n (t, w) = (Throw CPPSQLITE_ERROR (Some ''Invalid row index requested'') False, (t, w)))"
proof -
  let ?t = "t\<lparr>mnCurrentRow := int i\<rparr>"
  note set = Table_setRow_ok [OF assms(1,2)]
  note tab = set [THEN conjunct2]
  have cell: "cell_at (int k) (?t, w) = (Val (rows ! i ! k), (?t, w))"
    using cell_at_row [OF tab assms(3)] assms(2) by simp
  note val = Table_fieldValue_cell [OF tab assms(3)] Table_fieldValue_name_cell [OF tab assms(3,4)]
  show ?thesis using set Table_setRow_bad [OF assms(1)]
    by (intro exI [of _ ?t])
      (simp add: val cell table_getter_defs sq_bind_def Table_checked [OF tab] sq_return_def split: option.split)
qed

text \<open>A table of two columns and two rows with a null.\<close>

theorem table_cells_witness:
  "\<exists>t'. Table_setRow 1 (Table_make (Some (3, [Some ''id'', Some ''name'', Some ''1'', Some ''a'', Some ''2'', None])) 2 2,
        \<lparr>lib = (), vms = [], tables = [3]\<rparr>) = (Val (), (t', \<lparr>lib = (), vms = [], tables = [3]\<rparr>)) \<and>
     Table_fieldIsNull 1 (t', \<lparr>lib = (), vms = [], tables = [3]\<rparr>) = (Val True, (t', \<lparr>lib = (), vms = [], tables = [3]\<rparr>))"
proof -
  have "table_of [''id'', ''name''] [[Some ''1'', Some ''a''], [Some ''2'', None]]
    (Table_make (Some (3, [Some ''id'', Some ''name'', Some ''1'', Some ''a'', Some ''2'', None])) 2 2)
    \<lparr>lib = (), vms = [], tables = [3]\<rparr>" by (simp add: table_of_def Table_make_def)
  from table_cells [OF this, of 1 1 None] show ?thesis by auto
qed

text \<open>A table without rows has a valid current row 0 all the same: every access to a field of a
  valid index or name reads beyond the array.\<close>

theorem empty_table_reads_beyond:
  assumes "table_of cols [] t w" "k < length cols" "\<forall>j < k. cols ! j \<noteq> cols ! k"
  shows "fst (Table_fieldValue (int k) (t, w)) = Crash Bounds \<and>
    fst (Table_fieldValue_name (Some (cols ! k)) (t, w)) = Crash Bounds \<and>
    fst (Table_fieldIsNull (int k) (t, w)) = Crash Bounds \<and>
    fst (Table_getIntField (int k) n (t, w)) = Crash Bounds"
  using assms
  by (simp add: Table_fieldValue_cell Table_fieldValue_name_cell cell_at_empty Table_fieldIsNull_def
      Table_getIntField_def sq_bind_def Table_checked)

text \<open>A table of one column.\<close>

theorem empty_table_reads_beyond_witness:
  "fst (Table_fieldValue 0 (Table_make (Some (3, [Some ''id''])) 0 1, \<lparr>lib = (), vms = [], tables = [3]\<rparr>)) = Crash Bounds"
proof -
  have "table_of [''id''] [] (Table_make (Some (3, [Some ''id''])) 0 1) \<lparr>lib = (), vms = [], tables = [3]\<rparr>"
    by (simp add: table_of_def Table_make_def)
  from empty_table_reads_beyond [OF this, of 0 0] show ?thesis by simp
qed

end
