(* ===== verification/Sqlite_DB.thy ===== *)
theory Sqlite_DB
  imports Sqlite_Table
begin

text \<open>
  Statements and databases of \<open>src/CppSQLite3.cpp\<close>: the classes \<open>CppSQLite3Statement\<close>, a prepared
  statement with its parameters, and \<open>CppSQLite3DB\<close>, a connection, whose methods prepare machines and
  make the queries, tables and statements.
\<close>

section \<open>Statements\<close>

text \<open>\<open>st_mpDB\<close> and \<open>st_mpVM\<close> are the members \<open>mpDB\<close> and \<open>mpVM\<close>.\<close>

record CppSQLite3Statement =
  st_mpDB :: "nat option"
  st_mpVM :: "nat option"

definition Statement_new :: CppSQLite3Statement where
  "Statement_new = \<lparr>st_mpDB = None, st_mpVM = None\<rparr>"

definition Statement_make :: "nat option \<Rightarrow> nat option \<Rightarrow> CppSQLite3Statement" where
  "Statement_make pDB pVM = \<lparr>st_mpDB = pDB, st_mpVM = pVM\<rparr>"

definition Statement_grab :: "CppSQLite3Statement \<Rightarrow> CppSQLite3Statement \<Rightarrow> CppSQLite3Statement" where
  "Statement_grab s rStatement = s\<lparr>st_mpDB := st_mpDB rStatement, st_mpVM := st_mpVM rStatement\<rparr>"

definition Statement_leave :: "CppSQLite3Statement \<Rightarrow> CppSQLite3Statement" where
  "Statement_leave rStatement = rStatement\<lparr>st_mpVM := None\<rparr>"

definition Statement_copy :: "CppSQLite3Statement \<Rightarrow> CppSQLite3Statement \<times> CppSQLite3Statement" where
  "Statement_copy rStatement = (Statement_grab Statement_new rStatement, Statement_leave rStatement)"

text \<open>Unlike the other assignments this one does not release what the target holds.\<close>

definition Statement_assign ::
  "nat \<Rightarrow> nat \<Rightarrow> ((nat \<Rightarrow> CppSQLite3Statement option) \<times> 'w world, unit) sq" where
  "Statement_assign i j =
     sq_bind (on_obj j (this (\<lambda>s. s))) (\<lambda>rStatement.
     sq_bind (on_obj i (set_this (\<lambda>s. Statement_grab s rStatement))) (\<lambda>_.
     on_obj j (set_this Statement_leave)))"

definition Statement_checkDB :: "(CppSQLite3Statement \<times> 'w world, unit) sq" where
  "Statement_checkDB =
     sq_bind (this st_mpDB) (\<lambda>db. sq_check (db \<noteq> None) CPPSQLITE_ERROR ''Database not open'')"

definition Statement_checkVM :: "(CppSQLite3Statement \<times> 'w world, unit) sq" where
  "Statement_checkVM =
     sq_bind (this st_mpVM) (\<lambda>vm. sq_check (vm \<noteq> None) CPPSQLITE_ERROR ''Null Virtual Machine pointer'')"

definition Statement_raise :: "('w, 'd) sqlite3_api \<Rightarrow> int \<Rightarrow> (CppSQLite3Statement \<times> 'w world, 'a) sq" where
  "Statement_raise api nRet =
     sq_bind (this st_mpDB) (\<lambda>db.
     sq_bind (lib_call (sqlite3_errmsg api db)) (\<lambda>szError. sq_raise nRet szError False))"

definition Statement_execDML :: "('w, 'd) sqlite3_api \<Rightarrow> (CppSQLite3Statement \<times> 'w world, int) sq" where
  "Statement_execDML api =
     sq_bind Statement_checkDB (\<lambda>_.
     sq_bind Statement_checkVM (\<lambda>_.
     sq_bind (this (\<lambda>s. (st_mpDB s, st_mpVM s))) (\<lambda>(db, vm).
     sq_bind (vm_call (sqlite3_step api) vm) (\<lambda>nRet.
     if nRet = SQLITE_DONE then
       sq_bind (lib_call (sqlite3_changes api db)) (\<lambda>nRowsChanged.
       sq_bind (vm_call (sqlite3_reset api) vm) (\<lambda>nRet.
       if nRet \<noteq> SQLITE_OK then Statement_raise api nRet else sq_return nRowsChanged))
     else sq_bind (vm_call (sqlite3_reset api) vm) (Statement_raise api)))))"

definition Statement_execQuery ::
  "('w, 'd) sqlite3_api \<Rightarrow> (CppSQLite3Statement \<times> 'w world, CppSQLite3Query) sq" where
  "Statement_execQuery api =
     sq_bind Statement_checkDB (\<lambda>_.
     sq_bind Statement_checkVM (\<lambda>_.
     sq_bind (this (\<lambda>s. (st_mpDB s, st_mpVM s))) (\<lambda>(db, vm).
     sq_bind (vm_call (sqlite3_step api) vm) (\<lambda>nRet.
     if nRet = SQLITE_DONE then Query_make api db vm True False
     else if nRet = SQLITE_ROW then Query_make api db vm False False
     else sq_bind (vm_call (sqlite3_reset api) vm) (Statement_raise api)))))"

text \<open>The common part of the six methods that bind a parameter.\<close>

definition Statement_bindWith ::
  "(nat option \<Rightarrow> 'w \<Rightarrow> int \<times> 'w) \<Rightarrow> string \<Rightarrow> (CppSQLite3Statement \<times> 'w world, unit) sq" where
  "Statement_bindWith f msg =
     sq_bind Statement_checkVM (\<lambda>_.
     sq_bind (this st_mpVM) (\<lambda>vm.
     sq_bind (vm_call f vm) (\<lambda>nRes. sq_check (nRes = SQLITE_OK) nRes msg)))"

definition Statement_bindText ::
  "('w, 'd) sqlite3_api \<Rightarrow> int \<Rightarrow> string option \<Rightarrow> (CppSQLite3Statement \<times> 'w world, unit) sq" where
  "Statement_bindText api nParam szValue =
     Statement_bindWith (\<lambda>vm. sqlite3_bind_text api vm nParam szValue) ''Error binding string param''"

definition Statement_bindInt ::
  "('w, 'd) sqlite3_api \<Rightarrow> int \<Rightarrow> int \<Rightarrow> (CppSQLite3Statement \<times> 'w world, unit) sq" where
  "Statement_bindInt api nParam nValue =
     Statement_bindWith (\<lambda>vm. sqlite3_bind_int api vm nParam nValue) ''Error binding int param''"

definition Statement_bindInt64 ::
  "('w, 'd) sqlite3_api \<Rightarrow> int \<Rightarrow> int \<Rightarrow> (CppSQLite3Statement \<times> 'w world, unit) sq" where
  "Statement_bindInt64 api nParam nValue =
     Statement_bindWith (\<lambda>vm. sqlite3_bind_int64 api vm nParam nValue) ''Error binding int64 param''"

definition Statement_bindDouble ::
  "('w, 'd) sqlite3_api \<Rightarrow> int \<Rightarrow> 'd \<Rightarrow> (CppSQLite3Statement \<times> 'w world, unit) sq" where
  "Statement_bindDouble api nParam dValue =
     Statement_bindWith (\<lambda>vm. sqlite3_bind_double api vm nParam dValue) ''Error binding double param''"

definition Statement_bindBlob ::
  "('w, 'd) sqlite3_api \<Rightarrow> int \<Rightarrow> bytes \<Rightarrow> (CppSQLite3Statement \<times> 'w world, unit) sq" where
  "Statement_bindBlob api nParam blobValue =
     Statement_bindWith (\<lambda>vm. sqlite3_bind_blob api vm nParam blobValue) ''Error binding blob param''"

definition Statement_bindNull ::
  "('w, 'd) sqlite3_api \<Rightarrow> int \<Rightarrow> (CppSQLite3Statement \<times> 'w world, unit) sq" where
  "Statement_bindNull api nParam =
     Statement_bindWith (\<lambda>vm. sqlite3_bind_null api vm nParam) ''Error binding NULL param''"

definition Statement_reset :: "('w, 'd) sqlite3_api \<Rightarrow> (CppSQLite3Statement \<times> 'w world, unit) sq" where
  "Statement_reset api =
     sq_bind (this st_mpVM) (\<lambda>vm.
     if vm \<noteq> None then
       sq_bind (vm_call (sqlite3_reset api) vm) (\<lambda>nRet.
       if nRet \<noteq> SQLITE_OK then Statement_raise api nRet else sq_return ())
     else sq_return ())"

definition Statement_finalize :: "('w, 'd) sqlite3_api \<Rightarrow> (CppSQLite3Statement \<times> 'w world, unit) sq" where
  "Statement_finalize api =
     sq_bind (this st_mpVM) (\<lambda>vm.
     if vm \<noteq> None then
       sq_bind (vm_finalize api vm) (\<lambda>nRet.
       sq_bind (set_this (\<lambda>s. s\<lparr>st_mpVM := None\<rparr>)) (\<lambda>_.
       if nRet \<noteq> SQLITE_OK then Statement_raise api nRet else sq_return ()))
     else sq_return ())"

definition Statement_destroy :: "('w, 'd) sqlite3_api \<Rightarrow> (CppSQLite3Statement \<times> 'w world, unit) sq" where
  "Statement_destroy api = sq_try (Statement_finalize api)"

section \<open>Databases\<close>

record CppSQLite3DB =
  db_mpDB :: "nat option"
  mnBusyTimeoutMs :: int

definition DB_new :: CppSQLite3DB where
  "DB_new = \<lparr>db_mpDB = None, mnBusyTimeoutMs = 60000\<rparr>"

definition DB_copy :: "CppSQLite3DB \<Rightarrow> CppSQLite3DB" where
  "DB_copy db = \<lparr>db_mpDB = db_mpDB db, mnBusyTimeoutMs = 60000\<rparr>"

definition DB_assign :: "CppSQLite3DB \<Rightarrow> CppSQLite3DB \<Rightarrow> CppSQLite3DB" where
  "DB_assign t db = t\<lparr>db_mpDB := db_mpDB db, mnBusyTimeoutMs := 60000\<rparr>"

definition DB_close :: "('w, 'd) sqlite3_api \<Rightarrow> (CppSQLite3DB \<times> 'w world, unit) sq" where
  "DB_close api =
     sq_bind (this db_mpDB) (\<lambda>db.
     if db \<noteq> None then
       sq_bind (lib_call (sqlite3_close api db)) (\<lambda>_. set_this (\<lambda>d. d\<lparr>db_mpDB := None\<rparr>))
     else sq_return ())"

definition DB_destroy :: "('w, 'd) sqlite3_api \<Rightarrow> (CppSQLite3DB \<times> 'w world, unit) sq" where
  "DB_destroy = DB_close"

definition DB_setBusyTimeout :: "('w, 'd) sqlite3_api \<Rightarrow> int \<Rightarrow> (CppSQLite3DB \<times> 'w world, unit) sq" where
  "DB_setBusyTimeout api nMillisecs =
     sq_bind (set_this (\<lambda>d. d\<lparr>mnBusyTimeoutMs := nMillisecs\<rparr>)) (\<lambda>_.
     sq_bind (this (\<lambda>d. (db_mpDB d, mnBusyTimeoutMs d))) (\<lambda>(db, ms).
     sq_bind (lib_call (sqlite3_busy_timeout api db ms)) (\<lambda>_. sq_return ())))"

definition DB_open :: "('w, 'd) sqlite3_api \<Rightarrow> string \<Rightarrow> (CppSQLite3DB \<times> 'w world, unit) sq" where
  "DB_open api szFile =
     sq_bind (lib_call (sqlite3_open api szFile)) (\<lambda>(nRet, db).
     sq_bind (set_this (\<lambda>d. d\<lparr>db_mpDB := db\<rparr>)) (\<lambda>_.
     if nRet \<noteq> SQLITE_OK then
       sq_bind (lib_call (sqlite3_errmsg api db)) (\<lambda>szError. sq_raise nRet szError False)
     else sq_bind (this mnBusyTimeoutMs) (DB_setBusyTimeout api)))"

definition DB_checkDB :: "(CppSQLite3DB \<times> 'w world, unit) sq" where
  "DB_checkDB =
     sq_bind (this db_mpDB) (\<lambda>db. sq_check (db \<noteq> None) CPPSQLITE_ERROR ''Database not open'')"

text \<open>A prepared machine is live from here on. The message of the exception is a pointer that was never
  set to anything but null.\<close>

definition DB_compile :: "('w, 'd) sqlite3_api \<Rightarrow> string \<Rightarrow> (CppSQLite3DB \<times> 'w world, nat option) sq" where
  "DB_compile api szSQL =
     sq_bind DB_checkDB (\<lambda>_.
     sq_bind (this db_mpDB) (\<lambda>db.
     sq_bind (lib_call (sqlite3_prepare api db szSQL)) (\<lambda>(nRet, pVM).
     if nRet \<noteq> SQLITE_OK then sq_raise nRet None True
     else sq_bind (sq_modify (\<lambda>(d, w). (d, w\<lparr>vms := (case pVM of None \<Rightarrow> [] | Some v \<Rightarrow> [v]) @ vms w\<rparr>))) (\<lambda>_.
       sq_return pVM))))"

definition DB_compileStatement ::
  "('w, 'd) sqlite3_api \<Rightarrow> string \<Rightarrow> (CppSQLite3DB \<times> 'w world, CppSQLite3Statement) sq" where
  "DB_compileStatement api szSQL =
     sq_bind DB_checkDB (\<lambda>_.
     sq_bind (DB_compile api szSQL) (\<lambda>pVM.
     sq_bind (this db_mpDB) (\<lambda>db. sq_return (Statement_make db pVM))))"

definition DB_execDML :: "('w, 'd) sqlite3_api \<Rightarrow> string \<Rightarrow> (CppSQLite3DB \<times> 'w world, int) sq" where
  "DB_execDML api szSQL =
     sq_bind DB_checkDB (\<lambda>_.
     sq_bind (this db_mpDB) (\<lambda>db.
     sq_bind (lib_call (sqlite3_exec api db szSQL)) (\<lambda>(nRet, szError).
     if nRet = SQLITE_OK then lib_call (sqlite3_changes api db) else sq_raise nRet szError True)))"

definition DB_execQuery :: "('w, 'd) sqlite3_api \<Rightarrow> string \<Rightarrow> (CppSQLite3DB \<times> 'w world, CppSQLite3Query) sq" where
  "DB_execQuery api szSQL =
     sq_bind DB_checkDB (\<lambda>_.
     sq_bind (DB_compile api szSQL) (\<lambda>pVM.
     sq_bind (this db_mpDB) (\<lambda>db.
     sq_bind (vm_call (sqlite3_step api) pVM) (\<lambda>nRet.
     if nRet = SQLITE_DONE then Query_make api db pVM True True
     else if nRet = SQLITE_ROW then Query_make api db pVM False True
     else
       sq_bind (vm_finalize api pVM) (\<lambda>nRet.
       sq_bind (lib_call (sqlite3_errmsg api db)) (\<lambda>szError. sq_raise nRet szError False))))))"

text \<open>A local query: its destructor runs when the block is left, with a value or with an exception.\<close>

definition with_query ::
  "('w, 'd) sqlite3_api \<Rightarrow> CppSQLite3Query \<Rightarrow> (CppSQLite3Query \<times> 'w world, 'a) sq \<Rightarrow> ('o \<times> 'w world, 'a) sq" where
  "with_query api q m = (\<lambda>(d, w).
     case m (q, w) of
       (Crash k, (q', w')) \<Rightarrow> (Crash k, (d, w'))
     | (r, (q', w')) \<Rightarrow>
         (case Query_destroy api (q', w') of
            (Crash k, (q'', w'')) \<Rightarrow> (Crash k, (d, w''))
          | (_, (q'', w'')) \<Rightarrow> (r, (d, w''))))"

definition scalar_of :: "('w, 'd) sqlite3_api \<Rightarrow> (CppSQLite3Query \<times> 'w world, int) sq" where
  "scalar_of api =
     sq_bind Query_eof (\<lambda>eof.
     sq_bind (if eof then sq_return True else sq_bind Query_numFields (\<lambda>n. sq_return (n < 1))) (\<lambda>bad.
     sq_bind (sq_check (\<not> bad) CPPSQLITE_ERROR ''Invalid scalar query'') (\<lambda>_.
     sq_bind (Query_fieldValue api 0) sq_atoi)))"

definition DB_execScalar :: "('w, 'd) sqlite3_api \<Rightarrow> string \<Rightarrow> (CppSQLite3DB \<times> 'w world, int) sq" where
  "DB_execScalar api szSQL =
     sq_bind (DB_execQuery api szSQL) (\<lambda>q. with_query api q (scalar_of api))"

text \<open>The text is written to an array of 128 bytes.\<close>

definition tableExists_sql :: "string \<Rightarrow> string" where
  "tableExists_sql szTable =
     ''select count(*) from sqlite_master where type='' @ [CHR 0x27] @ ''table'' @ [CHR 0x27] @
     '' and name='' @ [CHR 0x27] @ szTable @ [CHR 0x27]"

definition DB_tableExists :: "('w, 'd) sqlite3_api \<Rightarrow> string \<Rightarrow> (CppSQLite3DB \<times> 'w world, bool) sq" where
  "DB_tableExists api szTable =
     (if length (tableExists_sql szTable) + 1 > 128 then sq_crash Bounds
      else sq_bind (DB_execScalar api (tableExists_sql szTable)) (\<lambda>nRet. sq_return (nRet > 0)))"

definition DB_getTable :: "('w, 'd) sqlite3_api \<Rightarrow> string \<Rightarrow> (CppSQLite3DB \<times> 'w world, CppSQLite3Table) sq" where
  "DB_getTable api szSQL =
     sq_bind DB_checkDB (\<lambda>_.
     sq_bind (this db_mpDB) (\<lambda>db.
     sq_bind (lib_call (sqlite3_get_table api db szSQL)) (\<lambda>(nRet, paszResults, nRows, nCols, szError).
     if nRet = SQLITE_OK then
       sq_bind (sq_modify (\<lambda>(d, w). (d, w\<lparr>tables := (case paszResults of None \<Rightarrow> [] | Some (h, xs) \<Rightarrow> [h]) @ tables w\<rparr>)))
         (\<lambda>_. sq_return (Table_make paszResults nRows nCols))
     else sq_raise nRet szError True)))"

definition DB_lastRowId :: "('w, 'd) sqlite3_api \<Rightarrow> (CppSQLite3DB \<times> 'w world, int) sq" where
  "DB_lastRowId api = sq_bind (this db_mpDB) (\<lambda>db. lib_call (sqlite3_last_insert_rowid api db))"

definition DB_interrupt :: "('w, 'd) sqlite3_api \<Rightarrow> (CppSQLite3DB \<times> 'w world, unit) sq" where
  "DB_interrupt api = sq_bind (this db_mpDB) (\<lambda>db. lib_call (sqlite3_interrupt api db))"

definition SQLiteVersion :: string where
  "SQLiteVersion = ''3.7.16.2''"

end
