(* ===== verification/Sqlite_Life.thy ===== *)
theory Sqlite_Life
  imports Sqlite_DB
begin

text \<open>
  The life of the handles of \<open>src/CppSQLite3.cpp\<close>: queries and tables that are made, copied, assigned,
  used, finalized and destroyed in any order never use a handle after its release and release every
  handle exactly once; the two places where statements break this.
\<close>

section \<open>Interpretations of the ownership contract\<close>

interpretation query: handle_owner mpVM Query_grab Query_leave
  by unfold_locales (simp_all add: Query_grab_def Query_leave_def)

definition table_handle :: "CppSQLite3Table \<Rightarrow> nat option" where
  "table_handle t = map_option fst (mpaszResults t)"

interpretation table: handle_owner table_handle Table_grab Table_leave
  by unfold_locales (simp_all add: Table_grab_def Table_leave_def table_handle_def)

interpretation statement: handle_owner st_mpVM Statement_grab Statement_leave
  by unfold_locales (simp_all add: Statement_grab_def Statement_leave_def)

section \<open>Queries\<close>

type_synonym 'w queries = "(nat \<Rightarrow> CppSQLite3Query option) \<times> 'w world"

text \<open>The methods that move the cursor or release the machine.\<close>

definition query_methods :: "('w, 'd) sqlite3_api \<Rightarrow> (CppSQLite3Query \<times> 'w world, unit) sq set" where
  "query_methods api = {Query_nextRow api, Query_finalize api}"

text \<open>The step relation: other code uses the library, queries come from a default constructor or a
  database, whose machines are new, and are copied, assigned, used and destroyed. Exceptions are
  caught by the caller; a crash has no step.\<close>

inductive query_step :: "('w, 'd) sqlite3_api \<Rightarrow> 'w queries \<Rightarrow> 'w queries \<Rightarrow> bool" for api where
  q_env: "query_step api (objs, w) (objs, w\<lparr>lib := l\<rparr>)"
| q_new: "objs i = None \<Longrightarrow> query_step api (objs, w) (objs(i \<mapsto> Query_new), w)"
| q_exec: "objs i = None \<Longrightarrow> DB_execQuery api sql (d, w) = (Val q, (d', w')) \<Longrightarrow>
    set_option (mpVM q) \<inter> set (vms w) = {} \<Longrightarrow> query_step api (objs, w) (objs(i \<mapsto> q), w')"
| q_exec_fails: "DB_execQuery api sql (d, w) = (Throw c e del, (d', w')) \<Longrightarrow> query_step api (objs, w) (objs, w')"
| q_copy: "objs i = None \<Longrightarrow> objs j = Some q \<Longrightarrow>
    query_step api (objs, w) (objs(i \<mapsto> fst (Query_copy q), j \<mapsto> snd (Query_copy q)), w)"
| q_assign: "Query_assign api i j (objs, w) = (Val (), s) \<Longrightarrow> query_step api (objs, w) s"
| q_method: "m \<in> query_methods api \<Longrightarrow> on_obj i m (objs, w) = (r, s) \<Longrightarrow> (\<forall>k. r \<noteq> Crash k) \<Longrightarrow>
    query_step api (objs, w) s"
| q_destroy: "objs i = Some q \<Longrightarrow> Query_destroy api (q, w) = (Val (), (q', w')) \<Longrightarrow>
    query_step api (objs, w) (objs(i := None), w')"

definition query_inv :: "nat set \<Rightarrow> 'w queries \<Rightarrow> bool" where
  "query_inv F = (\<lambda>(objs, w). excl mpVM F objs (vms w) \<and>
     (\<forall>i q. objs i = Some q \<longrightarrow> mpVM q \<noteq> None \<longrightarrow> mbOwnVM q))"

subsection \<open>The methods on one object\<close>

lemma vm_call_live:
  assumes "set_option vm \<subseteq> set (vms w)"
  obtains r l where "vm_call f vm (q, w) = (Val r, (q, w\<lparr>lib := l\<rparr>))"
proof -
  obtain r l where "f vm (lib w) = (r, l)" by fastforce
  then show ?thesis using assms by (intro that [of r l]) (auto simp: vm_call_def lib_call_def)
qed

lemma vm_finalize_live:
  assumes "v \<in> set (vms w)"
  obtains r l where "vm_finalize api (Some v) (q, w) = (Val r, (q, w\<lparr>lib := l, vms := remove1 v (vms w)\<rparr>))"
proof -
  obtain r l where "vm_call (sqlite3_finalize api) (Some v) (q, w) = (Val r, (q, w\<lparr>lib := l\<rparr>))"
    using assms by (auto intro: vm_call_live [of "Some v" w "sqlite3_finalize api" q])
  then show ?thesis by (intro that [of r l]) (simp add: vm_finalize_def sq_simps)
qed

lemma Query_raise_lib:
  obtains r l where "Query_raise api n (q, w) = (r, (q, w\<lparr>lib := l\<rparr>))" "r \<noteq> Crash Dangling" "\<And>x. r \<noteq> Val x"
proof (cases "mpDB q")
  case UninitDB
  then show ?thesis by (intro that [of "Crash Uninit" "lib w"]) (simp_all add: Query_raise_def this_def sq_simps)
next
  case (DB_ptr db)
  obtain m l where "sqlite3_errmsg api db (lib w) = (m, l)" by fastforce
  then show ?thesis using DB_ptr
    by (intro that [of "Throw n m False" l]) (simp_all add: Query_raise_def this_def lib_call_def sq_simps)
qed

lemma Query_finalize_cases:
  assumes "set_option (mpVM q) \<subseteq> set (vms w)" "mpVM q \<noteq> None \<longrightarrow> mbOwnVM q"
  shows "(mpVM q = None \<and> Query_finalize api (q, w) = (Val (), (q, w))) \<or>
     (\<exists>v r l. mpVM q = Some v \<and> r \<noteq> Crash Dangling \<and>
        Query_finalize api (q, w) = (r, (q\<lparr>mpVM := None\<rparr>, w\<lparr>lib := l, vms := remove1 v (vms w)\<rparr>)))"
proof (cases "mpVM q")
  case (Some v)
  then obtain n l where fin: "vm_finalize api (Some v) (q, w) = (Val n, (q, w\<lparr>lib := l, vms := remove1 v (vms w)\<rparr>))"
    using assms by (auto intro: vm_finalize_live [of v w api q])
  let ?q = "q\<lparr>mpVM := None\<rparr>" and ?w = "w\<lparr>lib := l, vms := remove1 v (vms w)\<rparr>"
  have run: "Query_finalize api (q, w) = (if n \<noteq> SQLITE_OK then Query_raise api n else sq_return ()) (?q, ?w)"
    using Some assms(2) by (simp add: Query_finalize_def this_def set_this_def sq_simps fin)
  show ?thesis
  proof (cases "n = SQLITE_OK")
    case True
    then show ?thesis using run Some by (auto simp: sq_return_def intro!: exI [of _ "Val ()"])
  next
    case False
    obtain r :: "unit sq_result" and l' where "Query_raise api n (?q, ?w) = (r, (?q, ?w\<lparr>lib := l'\<rparr>))" "r \<noteq> Crash Dangling"
      by (rule Query_raise_lib)
    then show ?thesis using run False Some by (intro disjI2 exI [of _ v] exI [of _ r] exI [of _ l']) simp
  qed
qed (simp add: Query_finalize_def this_def sq_simps)

lemma Query_nextRow_cases:
  assumes "set_option (mpVM q) \<subseteq> set (vms w)"
  shows "\<exists>r q' l. r \<noteq> Crash Dangling \<and> mbOwnVM q' = mbOwnVM q \<and>
     (mpVM q' = mpVM q \<and> Query_nextRow api (q, w) = (r, (q', w\<lparr>lib := l\<rparr>)) \<or>
      (\<exists>v. mpVM q = Some v \<and> mpVM q' = None \<and>
        Query_nextRow api (q, w) = (r, (q', w\<lparr>lib := l, vms := remove1 v (vms w)\<rparr>))))"
proof (cases "mpVM q")
  case None
  then show ?thesis
    by (intro exI [of _ "Throw CPPSQLITE_ERROR (Some ''Null Virtual Machine pointer'') False"] exI [of _ q] exI [of _ "lib w"])
      (simp add: Query_nextRow_def Query_checkVM_def this_def sq_simps)
next
  case (Some v)
  then obtain n l where step: "vm_call (sqlite3_step api) (Some v) (q, w) = (Val n, (q, w\<lparr>lib := l\<rparr>))"
    using assms by (metis vm_call_live)
  obtain n' l' where fin: "vm_finalize api (Some v) (q, w\<lparr>lib := l\<rparr>) = (Val n', (q, w\<lparr>lib := l', vms := remove1 v (vms w)\<rparr>))"
    using assms Some vm_finalize_live [of v "w\<lparr>lib := l\<rparr>" api q] by auto
  note run = Query_nextRow_def Query_checkVM_def this_def set_this_def sq_simps Some step fin
  consider "n = SQLITE_DONE" | "n = SQLITE_ROW" | "n \<noteq> SQLITE_DONE" "n \<noteq> SQLITE_ROW" by blast
  then show ?thesis
  proof cases
    case 1
    then show ?thesis
      by (intro exI [of _ "Val ()"] exI [of _ "q\<lparr>mbEof := True\<rparr>"] exI [of _ l]) (simp add: run)
  next
    case 2
    then show ?thesis by (intro exI [of _ "Val ()"] exI [of _ q] exI [of _ l]) (simp add: run)
  next
    case 3
    let ?w = "w\<lparr>lib := l', vms := remove1 v (vms w)\<rparr>"
    obtain r :: "unit sq_result" and l'' where "Query_raise api n' (q\<lparr>mpVM := None\<rparr>, ?w) = (r, (q\<lparr>mpVM := None\<rparr>, ?w\<lparr>lib := l''\<rparr>))"
      "r \<noteq> Crash Dangling" by (rule Query_raise_lib)
    then show ?thesis using 3
      by (intro exI [of _ r] exI [of _ "q\<lparr>mpVM := None\<rparr>"] exI [of _ l'']) (simp add: run)
  qed
qed

subsection \<open>Queries of a database\<close>

lemma vm_list_live: "set_option vm \<subseteq> set ((case vm of None \<Rightarrow> [] | Some v \<Rightarrow> [v]) @ vs)"
  by (cases vm) auto

lemma vm_finalize_fresh:
  assumes "vms w = (case vm of None \<Rightarrow> [] | Some v \<Rightarrow> [v]) @ vs"
  obtains r l where "vm_finalize api vm (d, w) = (Val r, (d, w\<lparr>lib := l, vms := vs\<rparr>))"
proof (cases vm)
  case None
  obtain r l where "vm_call (sqlite3_finalize api) vm (d, w) = (Val r, (d, w\<lparr>lib := l\<rparr>))"
    using None by (auto intro: vm_call_live [of vm w "sqlite3_finalize api" d])
  moreover have "w\<lparr>lib := l, vms := vs\<rparr> = w\<lparr>lib := l\<rparr>" using assms None by simp
  ultimately show ?thesis using None by (intro that [of r l]) (simp add: vm_finalize_def sq_simps)
next
  case (Some v)
  then have "v \<in> set (vms w)" using assms by simp
  then show ?thesis using vm_finalize_live [of v w api d] assms Some that by auto
qed

lemma DB_compile_cases:
  "(\<exists>c e del l. DB_compile api sql (d, w) = (Throw c e del, (d, w\<lparr>lib := l\<rparr>))) \<or>
   (\<exists>vm l. DB_compile api sql (d, w) =
      (Val vm, (d, w\<lparr>lib := l, vms := (case vm of None \<Rightarrow> [] | Some v \<Rightarrow> [v]) @ vms w\<rparr>)))"
proof (cases "db_mpDB d")
  case None
  then have "DB_compile api sql (d, w) = (Throw CPPSQLITE_ERROR (Some ''Database not open'') False, (d, w\<lparr>lib := lib w\<rparr>))"
    by (simp add: DB_compile_def DB_checkDB_def this_def sq_simps)
  then show ?thesis by blast
next
  case (Some db)
  obtain n vm l where "sqlite3_prepare api (Some db) sql (lib w) = ((n, vm), l)" by (metis prod.exhaust)
  then show ?thesis using Some
    by (cases "n = SQLITE_OK") (auto simp: DB_compile_def DB_checkDB_def this_def lib_call_def sq_simps)
qed

text \<open>A query that is made owns the machine that was prepared for it; a failure leaves no machine.\<close>

lemma DB_execQuery_cases:
  "(\<exists>c e del l. DB_execQuery api sql (d, w) = (Throw c e del, (d, w\<lparr>lib := l\<rparr>))) \<or>
   (\<exists>q l. DB_execQuery api sql (d, w) =
      (Val q, (d, w\<lparr>lib := l, vms := (case mpVM q of None \<Rightarrow> [] | Some v \<Rightarrow> [v]) @ vms w\<rparr>)) \<and>
      mbOwnVM q \<and> mpDB q = DB_ptr (db_mpDB d))"
proof (cases "db_mpDB d")
  case None
  then have "DB_execQuery api sql (d, w) = (Throw CPPSQLITE_ERROR (Some ''Database not open'') False, (d, w\<lparr>lib := lib w\<rparr>))"
    by (simp add: DB_execQuery_def DB_checkDB_def this_def sq_simps)
  then show ?thesis by blast
next
  case (Some db)
  have check: "DB_checkDB (d, w) = (Val (), (d, w))" using Some by (simp add: DB_checkDB_def this_def sq_simps)
  from DB_compile_cases [of api sql d w] show ?thesis
  proof (elim disjE exE)
    fix c e del l assume "DB_compile api sql (d, w) = (Throw c e del, (d, w\<lparr>lib := l\<rparr>))"
    then have "DB_execQuery api sql (d, w) = (Throw c e del, (d, w\<lparr>lib := l\<rparr>))"
      by (simp add: DB_execQuery_def sq_bind_def check)
    then show ?thesis by blast
  next
    fix vm l
    let ?w = "w\<lparr>lib := l, vms := (case vm of None \<Rightarrow> [] | Some v \<Rightarrow> [v]) @ vms w\<rparr>"
    assume comp: "DB_compile api sql (d, w) = (Val vm, (d, ?w))"
    have live: "set_option vm \<subseteq> set (vms (?w\<lparr>lib := l'\<rparr>))" for l' by (cases vm) auto
    obtain n l1 where step: "vm_call (sqlite3_step api) vm (d, ?w) = (Val n, (d, ?w\<lparr>lib := l1\<rparr>))"
      by (rule vm_call_live [of vm ?w]) (use live [of l] in simp)
    obtain k l2 where count: "vm_call (sqlite3_column_count api) vm (d, ?w\<lparr>lib := l1\<rparr>) =
        (Val k, (d, ?w\<lparr>lib := l1\<rparr>\<lparr>lib := l2\<rparr>))" by (rule vm_call_live [OF live])
    have vs: "vms (?w\<lparr>lib := l1\<rparr>) = (case vm of None \<Rightarrow> [] | Some v \<Rightarrow> [v]) @ vms w" by simp
    obtain n' l3 where fin: "vm_finalize api vm (d, ?w\<lparr>lib := l1\<rparr>) = (Val n', (d, ?w\<lparr>lib := l1\<rparr>\<lparr>lib := l3, vms := vms w\<rparr>))"
      by (rule vm_finalize_fresh [OF vs])
    obtain m l4 where msg: "sqlite3_errmsg api (Some db) l3 = (m, l4)" by fastforce
    note run = DB_execQuery_def sq_simps check comp this_def step count fin msg lib_call_def Query_make_def Some
    have "DB_execQuery api sql (d, w) =
      (if n = SQLITE_DONE \<or> n = SQLITE_ROW
       then (Val \<lparr>mpDB = DB_ptr (Some db), mpVM = vm, mbEof = (n = SQLITE_DONE), mnCols = k, mbOwnVM = True\<rparr>,
             (d, w\<lparr>lib := l2, vms := (case vm of None \<Rightarrow> [] | Some v \<Rightarrow> [v]) @ vms w\<rparr>))
       else (Throw n' m False, (d, w\<lparr>lib := l4\<rparr>)))"
      using step count fin msg by (simp add: run split del: option.split)
    then show ?thesis using Some by (cases "n = SQLITE_DONE \<or> n = SQLITE_ROW") auto
  qed
qed

subsection \<open>The invariant\<close>

lemma query_invD:
  assumes "query_inv F (objs, w)" "objs i = Some q"
  shows "set_option (mpVM q) \<subseteq> set (vms w)" "mpVM q \<noteq> None \<longrightarrow> mbOwnVM q"
  using assms exclD [of mpVM F objs "vms w" i q] unfolding query_inv_def by auto

lemma query_inv_update:
  assumes "query_inv F (objs, w)" "objs i = Some q" "mpVM q' = mpVM q" "mbOwnVM q' = mbOwnVM q" "vms w' = vms w"
  shows "query_inv F (objs(i \<mapsto> q'), w')"
  using assms query.excl_update [of F objs "vms w" i q q'] by (auto simp: query_inv_def)

lemma query_inv_release:
  assumes "query_inv F (objs, w)" "objs i = Some q" "mpVM q = Some v" "mpVM q' = None" "vms w' = remove1 v (vms w)"
  shows "query_inv F (objs(i \<mapsto> q'), w')"
  using assms query.excl_release [of F objs "vms w" i q v q'] by (auto simp: query_inv_def)

lemma query_inv_finalize:
  assumes "query_inv F (objs, w)" "objs i = Some q" "Query_finalize api (q, w) = (r, (q', w'))"
  shows "query_inv F (objs(i \<mapsto> q'), w')" "mpVM q' = None" "r \<noteq> Crash Dangling"
  using Query_finalize_cases [OF query_invD [OF assms(1,2)], of api] assms
  by (auto intro: query_inv_update query_inv_release)

lemma query_inv_nextRow:
  assumes "query_inv F (objs, w)" "objs i = Some q" "Query_nextRow api (q, w) = (r, (q', w'))"
  shows "query_inv F (objs(i \<mapsto> q'), w') \<and> r \<noteq> Crash Dangling"
  using Query_nextRow_cases [OF query_invD(1) [OF assms(1,2)], of api] assms
  by (auto intro: query_inv_update query_inv_release)

lemma query_inv_method:
  assumes "query_inv F (objs, w)" "m \<in> query_methods api" "on_obj i m (objs, w) = (r, s)" "objs i \<noteq> None"
  shows "query_inv F s \<and> r \<noteq> Crash Dangling"
proof -
  obtain q where q: "objs i = Some q" using assms(4) by blast
  obtain r' q' w' where m: "m (q, w) = (r', (q', w'))" by (metis prod.exhaust)
  with q assms(3) have s: "s = (objs(i \<mapsto> q'), w')" "r = r'" by (auto simp: on_obj_def)
  from assms(2) consider "m = Query_nextRow api" | "m = Query_finalize api" by (auto simp: query_methods_def)
  then show ?thesis
  proof cases
    case 1
    then show ?thesis using query_inv_nextRow [OF assms(1) q] m s by simp
  next
    case 2
    then show ?thesis using query_inv_finalize [OF assms(1) q, of api r' q' w'] m s by simp
  qed
qed

lemma sq_try_finalize:
  assumes "sq_try (Query_finalize api) (q, w) = (r, (q', w'))"
  obtains r' where "Query_finalize api (q, w) = (r', (q', w'))" "r = r' \<or> r = Val ()"
  using assms by (auto simp: sq_try_def split: prod.splits sq_result.splits)

lemma query_inv_assign:
  assumes "query_inv F (objs, w)" "objs i \<noteq> None" "objs j \<noteq> None" "Query_assign api i j (objs, w) = (r, s)"
  shows "r \<noteq> Crash Dangling" "r = Val () \<Longrightarrow> query_inv F s"
proof -
  obtain q where q: "objs i = Some q" using assms(2) by blast
  obtain r1 q1 w1 where catch: "sq_try (Query_finalize api) (q, w) = (r1, (q1, w1))" by (metis prod.exhaust)
  then obtain r2 where fin: "Query_finalize api (q, w) = (r2, (q1, w1))" and r2: "r1 = r2 \<or> r1 = Val ()"
    by (rule sq_try_finalize)
  note inv = query_inv_finalize [OF assms(1) q fin]
  let ?objs = "objs(i \<mapsto> q1)"
  obtain p where p: "?objs j = Some p" using assms(3) q by (cases "i = j") auto
  have run: "Query_assign api i j (objs, w) = (case r1 of
      Val _ \<Rightarrow> (Val (), ((?objs(i \<mapsto> Query_grab q1 p))(j \<mapsto> Query_leave (if i = j then Query_grab q1 p else p)), w1))
    | Throw c e d \<Rightarrow> (Throw c e d, (?objs, w1)) | Crash k \<Rightarrow> (Crash k, (?objs, w1)))"
    using q catch p by (auto simp: Query_assign_def on_obj_def sq_simps this_def set_this_def split: sq_result.split)
  show "r \<noteq> Crash Dangling" using run assms(4) inv(3) r2 by (auto split: sq_result.splits)
  assume "r = Val ()"
  then have s: "s = ((?objs(i \<mapsto> Query_grab q1 p))(j \<mapsto> Query_leave (if i = j then Query_grab q1 p else p)), w1)"
    using run assms(4) by (auto split: sq_result.splits)
  have "excl mpVM F (fst s) (vms w1)"
    unfolding s fst_conv by (rule query.excl_assign) (use inv(1,2) p in \<open>auto simp: query_inv_def\<close>)
  moreover have "\<forall>i q. fst s i = Some q \<longrightarrow> mpVM q \<noteq> None \<longrightarrow> mbOwnVM q"
    using inv(1,2) p unfolding s query_inv_def by (auto simp: Query_grab_def Query_leave_def split: if_splits)
  ultimately show "query_inv F s" by (simp add: query_inv_def s)
qed

lemma query_inv_exec:
  assumes "query_inv F (objs, w)" "objs i = None" "DB_execQuery api sql (d, w) = (Val q, (d', w'))"
    "set_option (mpVM q) \<inter> set (vms w) = {}"
  shows "query_inv F (objs(i \<mapsto> q), w')"
proof -
  have ex: "excl mpVM F objs (vms w)" using assms(1) by (simp add: query_inv_def)
  have w': "vms w' = (case mpVM q of None \<Rightarrow> [] | Some v \<Rightarrow> [v]) @ vms w" and own: "mbOwnVM q"
    using DB_execQuery_cases [of api sql d w] assms(3) by auto
  have "excl mpVM F (objs(i \<mapsto> q)) (vms w')"
    using query.excl_new [OF ex assms(2)] query.excl_new_empty [OF ex assms(2)] assms(4) w' by (cases "mpVM q") auto
  then show ?thesis using assms(1) own by (auto simp: query_inv_def)
qed

lemma query_step_inv: "query_step api s s' \<Longrightarrow> query_inv F s \<Longrightarrow> query_inv F s'"
proof (induction rule: query_step.induct)
  case (q_copy objs i j q w)
  then show ?case using query.excl_copy [of F objs "vms w" i j q Query_new]
    by (auto simp: query_inv_def Query_copy_def Query_grab_def Query_leave_def split: if_splits)
next
  case (q_assign i j objs w s)
  then have "objs i \<noteq> None" by (auto simp: Query_assign_def on_obj_def sq_bind_def split: option.splits)
  moreover have "objs j \<noteq> None"
    using q_assign(1) \<open>objs i \<noteq> None\<close>
    by (auto simp: Query_assign_def on_obj_def sq_bind_def split: option.splits prod.splits sq_result.splits if_splits)
  ultimately show ?case using query_inv_assign q_assign by blast
next
  case (q_method m i objs w r s)
  then have "objs i \<noteq> None" by (auto simp: on_obj_def split: option.splits)
  then show ?case using q_method query_inv_method by blast
next
  case (q_destroy objs i q w q' w')
  then obtain r where "Query_finalize api (q, w) = (r, (q', w'))" by (auto simp: Query_destroy_def elim: sq_try_finalize)
  note inv = query_inv_finalize [OF q_destroy(3,1) this]
  from inv(1,2) query.excl_drop [of F "objs(i \<mapsto> q')" "vms w'" i q'] show ?case
    by (auto simp: query_inv_def split: if_splits)
next
  case (q_new objs i w)
  then show ?case using query.excl_new_empty [of F objs "vms w" i Query_new]
    by (auto simp: query_inv_def Query_new_def split: if_splits)
next
  case (q_exec objs i sql d w q d' w')
  then show ?case by (blast intro: query_inv_exec)
next
  case (q_exec_fails sql d w c e del d' w' objs)
  then show ?case using DB_execQuery_cases [of api sql d w] by (auto simp: query_inv_def)
qed (simp add: query_inv_def)

lemma query_steps_inv: "(query_step api)\<^sup>*\<^sup>* s s' \<Longrightarrow> query_inv F s \<Longrightarrow> query_inv F s'"
  by (induction rule: rtranclp_induct) (auto intro: query_step_inv)

text \<open>C5: Start with machines \<open>F\<close> of other parts of the program and no query, and let queries be made by
  databases, copied, assigned (also to themselves), moved to the next row, finalized and destroyed in
  any order, with any results and failures of the library. Then every machine belongs to exactly one
  query or to the others; no such operation uses a machine after its release, so none is finalized
  twice; reading from a live query neither crashes on its handle nor changes the query; and when no
  query is left, exactly the machines of the others remain.\<close>

theorem query_lifecycle:
  assumes "(query_step api)\<^sup>*\<^sup>* (\<lambda>_. None, w0) (objs, w)" "distinct (vms w0)" "F = set (vms w0)"
  shows "distinct (vms w) \<and> F \<subseteq> set (vms w) \<and>
    (\<forall>v \<in> set (vms w) - F. \<exists>!i. \<exists>q. objs i = Some q \<and> mpVM q = Some v) \<and>
    (\<forall>i j. objs i \<noteq> None \<and> objs j \<noteq> None \<longrightarrow>
      (\<forall>m \<in> query_methods api. fst (on_obj i m (objs, w)) \<noteq> Crash Dangling) \<and>
      fst (Query_assign api i j (objs, w)) \<noteq> Crash Dangling \<and>
      fst (on_obj i (Query_destroy api) (objs, w)) \<noteq> Crash Dangling) \<and>
    (\<forall>i q n d. objs i = Some q \<longrightarrow>
      (\<exists>r l. Query_getIntField api n d (q, w) = (r, (q, w\<lparr>lib := l\<rparr>)) \<and> (\<forall>k. r = Crash k \<longrightarrow> k \<noteq> Dangling))) \<and>
    ((\<forall>i. objs i = None) \<longrightarrow> set (vms w) = F)"
proof -
  have "query_inv F (\<lambda>_. None, w0)" using assms(2,3) by (simp add: query_inv_def excl_def)
  then have inv: "query_inv F (objs, w)" by (rule query_steps_inv [OF assms(1)])
  then have ex: "excl mpVM F objs (vms w)" by (simp add: query_inv_def)
  show ?thesis
  proof (intro conjI allI impI ballI)
    show "distinct (vms w)" "F \<subseteq> set (vms w)" using excl_base [OF ex] by auto
  next
    fix v assume v: "v \<in> set (vms w) - F"
    then show "\<exists>!i. \<exists>q. objs i = Some q \<and> mpVM q = Some v"
      using excl_owner [OF ex, of v] excl_unique [OF ex] by (metis DiffE)
  next
    fix i j m assume "objs i \<noteq> None \<and> objs j \<noteq> None" "m \<in> query_methods api"
    then show "fst (on_obj i m (objs, w)) \<noteq> Crash Dangling"
      using query_inv_method [OF inv, of m api i] by (metis prod.collapse)
  next
    fix i j assume "objs i \<noteq> None \<and> objs j \<noteq> None"
    then show "fst (Query_assign api i j (objs, w)) \<noteq> Crash Dangling"
      using query_inv_assign(1) [OF inv] by (metis prod.collapse)
  next
    fix i j assume "objs i \<noteq> None \<and> objs j \<noteq> None"
    then obtain q where q: "objs i = Some q" by blast
    obtain r q' w' where d: "sq_try (Query_finalize api) (q, w) = (r, (q', w'))" by (metis prod.exhaust)
    then obtain r' where "Query_finalize api (q, w) = (r', (q', w'))" "r = r' \<or> r = Val ()" by (rule sq_try_finalize)
    with query_inv_finalize(3) [OF inv q] d q show "fst (on_obj i (Query_destroy api) (objs, w)) \<noteq> Crash Dangling"
      by (auto simp: on_obj_def Query_destroy_def)
  next
    fix i q n d assume "objs i = Some q"
    from query_invD(1) [OF inv this] calm_getters(1) [of q api n d]
    show "\<exists>r l. Query_getIntField api n d (q, w) = (r, (q, w\<lparr>lib := l\<rparr>)) \<and> (\<forall>k. r = Crash k \<longrightarrow> k \<noteq> Dangling)"
      unfolding calm_def by blast
  next
    assume "\<forall>i. objs i = None"
    then have "objs = (\<lambda>_. None)" by blast
    with ex show "set (vms w) = F" using query.excl_empty by blast
  qed
qed

text \<open>A query of a connection is made, copied, and its copy destroyed.\<close>

definition life_api :: "(unit, int) sqlite3_api" where
  "life_api = demo_api\<lparr>sqlite3_prepare := \<lambda>db sql l. ((SQLITE_OK, Some 9), l)\<rparr>"

lemma life_run:
  "(query_step life_api)\<^sup>*\<^sup>* (\<lambda>_. None, \<lparr>lib = (), vms = [4], tables = []\<rparr>)
     (((\<lambda>_. None)(1 \<mapsto> \<lparr>mpDB = DB_ptr (Some 1), mpVM = None, mbEof = True, mnCols = 2, mbOwnVM = True\<rparr>)),
      \<lparr>lib = (), vms = [4], tables = []\<rparr>)"
proof -
  let ?q = "\<lparr>mpDB = DB_ptr (Some 1), mpVM = Some 9, mbEof = True, mnCols = 2, mbOwnVM = True\<rparr>"
  let ?w = "\<lparr>lib = (), vms = [4 :: nat], tables = []\<rparr>" and ?w' = "\<lparr>lib = (), vms = [9, 4 :: nat], tables = []\<rparr>"
  let ?o = "(\<lambda>_ :: nat. None) :: nat \<Rightarrow> CppSQLite3Query option"
  have "DB_execQuery life_api ''select'' (\<lparr>db_mpDB = Some 1, mnBusyTimeoutMs = 60000\<rparr>, ?w) =
      (Val ?q, (\<lparr>db_mpDB = Some 1, mnBusyTimeoutMs = 60000\<rparr>, ?w'))"
    by (simp add: DB_execQuery_def DB_compile_def DB_checkDB_def Query_make_def life_api_def demo_api_def query_defs sq_simps)
  then have s1: "query_step life_api (?o, ?w) (?o(1 \<mapsto> ?q), ?w')" by (intro q_exec) auto
  have s2: "query_step life_api (?o(1 \<mapsto> ?q), ?w') ((?o(1 \<mapsto> ?q))(2 \<mapsto> fst (Query_copy ?q), 1 \<mapsto> snd (Query_copy ?q)), ?w')"
    by (rule q_copy) auto
  have d: "Query_destroy life_api (fst (Query_copy ?q), ?w') = (Val (), ((fst (Query_copy ?q))\<lparr>mpVM := None\<rparr>, ?w))"
    by (simp add: Query_destroy_def Query_finalize_def vm_finalize_def Query_copy_def Query_grab_def Query_new_def life_api_def demo_api_def query_defs sq_simps)
  have s3: "query_step life_api ((?o(1 \<mapsto> ?q))(2 \<mapsto> fst (Query_copy ?q), 1 \<mapsto> snd (Query_copy ?q)), ?w')
     (((?o(1 \<mapsto> ?q))(2 \<mapsto> fst (Query_copy ?q), 1 \<mapsto> snd (Query_copy ?q)))(2 := None), ?w)"
    by (rule q_destroy [OF _ d]) auto
  have "((?o(1 \<mapsto> ?q))(2 \<mapsto> fst (Query_copy ?q), 1 \<mapsto> snd (Query_copy ?q)))(2 := None) = ?o(1 \<mapsto> ?q\<lparr>mpVM := None\<rparr>)"
    by (auto simp: Query_copy_def Query_leave_def fun_eq_iff)
  with s1 s2 s3 show ?thesis by simp
qed

theorem query_lifecycle_witness:
  "fst (on_obj 1 (Query_destroy life_api)
     ((\<lambda>_. None)(1 \<mapsto> \<lparr>mpDB = DB_ptr (Some 1), mpVM = None, mbEof = True, mnCols = 2, mbOwnVM = True\<rparr>),
      \<lparr>lib = (), vms = [4], tables = []\<rparr>)) \<noteq> Crash Dangling"
  using query_lifecycle [OF life_run, of "{4}"] by (auto split: if_splits)

section \<open>Tables\<close>

type_synonym 'w result_tables = "(nat \<Rightarrow> CppSQLite3Table option) \<times> 'w world"

inductive table_step :: "('w, 'd) sqlite3_api \<Rightarrow> 'w result_tables \<Rightarrow> 'w result_tables \<Rightarrow> bool" for api where
  t_env: "table_step api (objs, w) (objs, w\<lparr>lib := l\<rparr>)"
| t_new: "objs i = None \<Longrightarrow> table_step api (objs, w) (objs(i \<mapsto> Table_new), w)"
| t_get: "objs i = None \<Longrightarrow> DB_getTable api sql (d, w) = (Val t, (d', w')) \<Longrightarrow>
    set_option (table_handle t) \<inter> set (tables w) = {} \<Longrightarrow> table_step api (objs, w) (objs(i \<mapsto> t), w')"
| t_copy: "objs i = None \<Longrightarrow> objs j = Some t \<Longrightarrow>
    table_step api (objs, w) (objs(i \<mapsto> fst (Table_copy t), j \<mapsto> snd (Table_copy t)), w)"
| t_assign: "Table_assign api i j (objs, w) = (Val (), s) \<Longrightarrow> table_step api (objs, w) s"
| t_setRow: "on_obj i (Table_setRow n) (objs, w) = (r, s) \<Longrightarrow> (\<forall>k. r \<noteq> Crash k) \<Longrightarrow> table_step api (objs, w) s"
| t_finalize: "on_obj i (Table_finalize api) (objs, w) = (Val (), s) \<Longrightarrow> table_step api (objs, w) s"
| t_destroy: "objs i = Some t \<Longrightarrow> Table_destroy api (t, w) = (Val (), (t', w')) \<Longrightarrow>
    table_step api (objs, w) (objs(i := None), w')"

definition table_inv :: "nat set \<Rightarrow> 'w result_tables \<Rightarrow> bool" where
  "table_inv F = (\<lambda>(objs, w). excl table_handle F objs (tables w))"

lemma Table_finalize_run:
  assumes "set_option (table_handle t) \<subseteq> set (tables w)"
  obtains l where "Table_finalize api (t, w) =
    (Val (), (t\<lparr>mpaszResults := None\<rparr>,
      w\<lparr>lib := l, tables := (case table_handle t of None \<Rightarrow> tables w | Some h \<Rightarrow> remove1 h (tables w))\<rparr>))"
proof (cases "mpaszResults t")
  case None
  then show ?thesis
    by (intro that [of "lib w"]) (simp add: Table_finalize_def this_def sq_simps table_handle_def)
next
  case (Some p)
  obtain h xs where p: "p = (h, xs)" by fastforce
  obtain l where "sqlite3_free_table api h (lib w) = ((), l)" by (metis old.unit.exhaust surj_pair)
  then show ?thesis using Some p assms
    by (intro that [of l]) (simp add: Table_finalize_def this_def set_this_def lib_call_def sq_simps table_handle_def)
qed

lemma table_inv_finalize:
  assumes "table_inv F (objs, w)" "objs i = Some t"
  obtains w' where "Table_finalize api (t, w) = (Val (), (t\<lparr>mpaszResults := None\<rparr>, w'))"
    "table_inv F (objs(i \<mapsto> t\<lparr>mpaszResults := None\<rparr>), w')"
proof -
  have ex: "excl table_handle F objs (tables w)" using assms(1) by (simp add: table_inv_def)
  then have "set_option (table_handle t) \<subseteq> set (tables w)" using exclD [OF ex assms(2)] by auto
  then obtain l where fin: "Table_finalize api (t, w) = (Val (), (t\<lparr>mpaszResults := None\<rparr>,
      w\<lparr>lib := l, tables := (case table_handle t of None \<Rightarrow> tables w | Some h \<Rightarrow> remove1 h (tables w))\<rparr>))"
    by (rule Table_finalize_run)
  have none: "table_handle (t\<lparr>mpaszResults := None\<rparr>) = None" by (simp add: table_handle_def)
  show ?thesis
    by (rule that [OF fin])
      (use table.excl_update [OF ex assms(2)] table.excl_release [OF ex assms(2)] none in
        \<open>cases "table_handle t"; simp add: table_inv_def\<close>)
qed

lemma table_inv_assign:
  assumes "table_inv F (objs, w)" "objs i \<noteq> None" "objs j \<noteq> None"
  shows "\<exists>s. Table_assign api i j (objs, w) = (Val (), s) \<and> table_inv F s"
proof -
  obtain t where t: "objs i = Some t" using assms(2) by blast
  let ?t = "t\<lparr>mpaszResults := None\<rparr>" and ?objs = "objs(i \<mapsto> t\<lparr>mpaszResults := None\<rparr>)"
  obtain w' where fin: "Table_finalize api (t, w) = (Val (), (?t, w'))" and inv: "table_inv F (?objs, w')"
    by (rule table_inv_finalize [OF assms(1) t])
  obtain p where p: "?objs j = Some p" using assms(3) by (cases "i = j") auto
  have "Table_assign api i j (objs, w) =
      (Val (), ((?objs(i \<mapsto> Table_grab ?t p))(j \<mapsto> Table_leave (if i = j then Table_grab ?t p else p)), w'))"
    using t fin p by (auto simp: Table_assign_def on_obj_def sq_simps this_def set_this_def)
  moreover have "excl table_handle F ((?objs(i \<mapsto> Table_grab ?t p))(j \<mapsto> Table_leave (if i = j then Table_grab ?t p else p))) (tables w')"
    by (rule table.excl_assign) (use inv p in \<open>auto simp: table_inv_def table_handle_def\<close>)
  ultimately show ?thesis by (auto simp: table_inv_def)
qed

lemma table_inv_get:
  assumes "table_inv F (objs, w)" "objs i = None" "DB_getTable api sql (d, w) = (Val t, (d', w'))"
    "set_option (table_handle t) \<inter> set (tables w) = {}"
  shows "table_inv F (objs(i \<mapsto> t), w')"
proof -
  have ex: "excl table_handle F objs (tables w)" using assms(1) by (simp add: table_inv_def)
  have "tables w' = (case table_handle t of None \<Rightarrow> [] | Some h \<Rightarrow> [h]) @ tables w"
    using assms(3) by (auto simp: DB_getTable_def DB_checkDB_def this_def lib_call_def Table_make_def table_handle_def sq_simps
        split: prod.splits if_splits option.splits)
  then show ?thesis
    using table.excl_new [OF ex assms(2), of t] table.excl_new_empty [OF ex assms(2), of t] assms(4)
    by (cases "table_handle t") (auto simp: table_inv_def)
qed

lemma table_inv_setRow:
  assumes "table_inv F (objs, w)" "on_obj i (Table_setRow n) (objs, w) = (r, s)"
  shows "table_inv F s"
proof (cases "objs i")
  case (Some t)
  have "\<exists>r' t'. Table_setRow n (t, w) = (r', (t', w)) \<and> table_handle t' = table_handle t"
    by (cases "mpaszResults t")
      (auto simp: Table_setRow_def Table_checkResults_def this_def set_this_def sq_simps table_handle_def)
  then obtain r' t' where "Table_setRow n (t, w) = (r', (t', w))" and "table_handle t' = table_handle t" by blast
  then show ?thesis using assms Some table.excl_update [of F objs "tables w" i t t'] by (auto simp: table_inv_def on_obj_def)
qed (use assms in \<open>auto simp: on_obj_def\<close>)

lemma table_step_inv: "table_step api s s' \<Longrightarrow> table_inv F s \<Longrightarrow> table_inv F s'"
proof (induction rule: table_step.induct)
  case (t_new objs i w)
  then show ?case using table.excl_new_empty [of F objs "tables w" i Table_new]
    by (auto simp: table_inv_def Table_new_def table_handle_def)
next
  case (t_get objs i sql d w t d' w')
  then show ?case by (blast intro: table_inv_get)
next
  case (t_copy objs i j t w)
  then show ?case using table.excl_copy [of F objs "tables w" i j t Table_new] by (simp add: table_inv_def Table_copy_def)
next
  case (t_assign i j objs w s)
  then have "objs i \<noteq> None" by (auto simp: Table_assign_def on_obj_def sq_bind_def split: option.splits)
  moreover have "objs j \<noteq> None"
    using t_assign(1) \<open>objs i \<noteq> None\<close>
    by (auto simp: Table_assign_def on_obj_def sq_bind_def split: option.splits prod.splits sq_result.splits if_splits)
  ultimately show ?case using table_inv_assign [OF t_assign(2), of i j api] t_assign(1) by auto
next
  case (t_setRow i n objs w r s)
  then show ?case by (blast intro: table_inv_setRow)
next
  case (t_finalize i objs w s)
  then obtain t where t: "objs i = Some t" by (auto simp: on_obj_def split: option.splits)
  obtain w' where "Table_finalize api (t, w) = (Val (), (t\<lparr>mpaszResults := None\<rparr>, w'))"
    "table_inv F (objs(i \<mapsto> t\<lparr>mpaszResults := None\<rparr>), w')" by (rule table_inv_finalize [OF t_finalize(2) t])
  then show ?case using t t_finalize(1) by (auto simp: on_obj_def)
next
  case (t_destroy objs i t w t' w')
  obtain w'' where "Table_finalize api (t, w) = (Val (), (t\<lparr>mpaszResults := None\<rparr>, w''))"
    and inv: "table_inv F (objs(i \<mapsto> t\<lparr>mpaszResults := None\<rparr>), w'')" by (rule table_inv_finalize [OF t_destroy(3,1)])
  with t_destroy(2) have "w'' = w'" by (auto simp: Table_destroy_def sq_try_def)
  with inv table.excl_drop [of F "objs(i \<mapsto> t\<lparr>mpaszResults := None\<rparr>)" "tables w'" i "t\<lparr>mpaszResults := None\<rparr>"] show ?case
    by (auto simp: table_inv_def table_handle_def)
qed (simp add: table_inv_def)

lemma table_steps_inv: "(table_step api)\<^sup>*\<^sup>* s s' \<Longrightarrow> table_inv F s \<Longrightarrow> table_inv F s'"
  by (induction rule: rtranclp_induct) (auto intro: table_step_inv)



section \<open>Scalars\<close>

lemma calm_atoi [intro, simp]: "calm q (sq_atoi v)"
  by (rule calm_pure; simp add: sq_atoi_def sq_simps split: option.split)

lemma calm_scalar_of: "calm q (scalar_of api)"
  unfolding scalar_of_def Query_eof_def Query_numFields_def
  by (auto intro!: calm_bind calm_getters)

lemma Query_raise_open: "mpDB q = DB_ptr db \<Longrightarrow> fst (Query_raise api n (q, w)) \<noteq> Crash k"
  by (simp add: Query_raise_def this_def lib_call_def sq_simps split: prod.split)

lemma Query_destroy_open:
  assumes "mpDB q = DB_ptr db" "mbOwnVM q" "vms w = (case mpVM q of None \<Rightarrow> [] | Some v \<Rightarrow> [v]) @ vs"
  shows "\<exists>q' l. Query_destroy api (q, w) = (Val (), (q', w\<lparr>lib := l, vms := vs\<rparr>))"
proof (cases "mpVM q")
  case None
  then have "w\<lparr>lib := lib w, vms := vs\<rparr> = w" using assms(3) by simp
  then show ?thesis using None
    by (intro exI [of _ q] exI [of _ "lib w"]) (simp add: Query_destroy_def Query_finalize_def this_def sq_simps)
next
  case (Some v)
  then obtain n l where fin: "vm_finalize api (Some v) (q, w) = (Val n, (q, w\<lparr>lib := l, vms := vs\<rparr>))"
    using vm_finalize_fresh [of w "Some v" vs api q] assms(3) by auto
  obtain m l' where "sqlite3_errmsg api db l = (m, l')" by fastforce
  then show ?thesis using Some assms(1,2) fin
    by (intro exI [of _ "q\<lparr>mpVM := None\<rparr>"] exI [of _ "if n = SQLITE_OK then l else l'"])
      (simp add: Query_destroy_def Query_finalize_def Query_raise_def this_def set_this_def lib_call_def sq_simps)
qed

lemma with_query_open:
  assumes "calm q m" "mpDB q = DB_ptr db" "mbOwnVM q" "vms w = (case mpVM q of None \<Rightarrow> [] | Some v \<Rightarrow> [v]) @ vs"
  shows "\<exists>r l vs'. with_query api q m (d, w) = (r, (d, w\<lparr>lib := l, vms := vs'\<rparr>)) \<and>
    r = fst (m (q, w)) \<and> r \<noteq> Crash Dangling \<and> r \<noteq> Crash Uninit \<and> ((\<forall>k. r \<noteq> Crash k) \<longrightarrow> vs' = vs)"
proof -
  have live: "set_option (mpVM q) \<subseteq> set (vms w)" using assms(4) by (auto split: option.splits)
  from calmD [OF assms(1) live] obtain r l where m: "m (q, w) = (r, (q, w\<lparr>lib := l\<rparr>))" "r \<noteq> Crash Dangling" "r \<noteq> Crash Uninit" .
  have "vms (w\<lparr>lib := l\<rparr>) = (case mpVM q of None \<Rightarrow> [] | Some v \<Rightarrow> [v]) @ vs" using assms(4) by simp
  from Query_destroy_open [OF assms(2,3) this, of api] obtain q' l' where
    d: "Query_destroy api (q, w\<lparr>lib := l\<rparr>) = (Val (), (q', w\<lparr>lib := l', vms := vs\<rparr>))" by auto
  show ?thesis
  proof (cases "\<exists>k. r = Crash k")
    case True
    then show ?thesis using m by (intro exI [of _ r] exI [of _ l] exI [of _ "vms w"]) (auto simp: with_query_def)
  next
    case False
    then show ?thesis using m d
      by (intro exI [of _ r] exI [of _ l'] exI [of _ vs]) (cases r; simp add: with_query_def)
  qed
qed

text \<open>\<open>execScalar\<close> leaves the connection alone and, whether it returns or throws, has released the
  machine it prepared: the live machines are those of before. It never uses a released machine; what
  can end it are a null as the value and a number beyond the range of an \<open>int\<close>.\<close>

theorem execScalar_releases:
  assumes "DB_execScalar api sql (d, w) = (r, (d', w'))"
  shows "d' = d \<and> r \<noteq> Crash Dangling \<and> r \<noteq> Crash Uninit \<and> ((\<forall>k. r \<noteq> Crash k) \<longrightarrow> vms w' = vms w)"
  using DB_execQuery_cases [of api sql d w]
proof (elim disjE exE conjE)
  fix c e del l assume "DB_execQuery api sql (d, w) = (Throw c e del, (d, w\<lparr>lib := l\<rparr>))"
  then show ?thesis using assms by (auto simp: DB_execScalar_def sq_bind_def)
next
  fix q :: CppSQLite3Query and l
  let ?w = "w\<lparr>lib := l, vms := (case mpVM q of None \<Rightarrow> [] | Some v \<Rightarrow> [v]) @ vms w\<rparr>"
  assume q: "DB_execQuery api sql (d, w) = (Val q, (d, ?w))" "mbOwnVM q" "mpDB q = DB_ptr (db_mpDB d)"
  have "\<exists>r l vs'. with_query api q (scalar_of api) (d, ?w) = (r, (d, ?w\<lparr>lib := l, vms := vs'\<rparr>)) \<and>
    r = fst (scalar_of api (q, ?w)) \<and> r \<noteq> Crash Dangling \<and> r \<noteq> Crash Uninit \<and> ((\<forall>k. r \<noteq> Crash k) \<longrightarrow> vs' = vms w)"
    by (rule with_query_open [OF calm_scalar_of q(3,2)]) simp
  then show ?thesis using assms q(1) by (auto simp: DB_execScalar_def sq_bind_def)
qed

text \<open>The scalar of a library that has no rows.\<close>

theorem execScalar_releases_witness:
  "fst (DB_execScalar life_api ''select'' (\<lparr>db_mpDB = Some 1, mnBusyTimeoutMs = 60000\<rparr>, \<lparr>lib = (), vms = [4], tables = []\<rparr>)) \<noteq> Crash Dangling"
  using execScalar_releases [OF prod.collapse [symmetric, THEN trans, OF arg_cong2 [where f = Pair, OF refl prod.collapse [symmetric]]]]
  by blast

text \<open>\<open>tableExists\<close> overflows its array for every table name of 63 bytes or more; for a shorter name
  it answers whether the count that the library reports is positive.\<close>

theorem tableExists_correct:
  "(length szTable \<ge> 63 \<longrightarrow> fst (DB_tableExists api szTable (d, w)) = Crash Bounds) \<and>
   (length szTable < 63 \<longrightarrow> (\<forall>n s. DB_execScalar api (tableExists_sql szTable) (d, w) = (Val n, s) \<longrightarrow>
      DB_tableExists api szTable (d, w) = (Val (n > 0), s)))"
  by (auto simp: DB_tableExists_def tableExists_sql_def sq_simps)

text \<open>A name that is too long and one that is not.\<close>

theorem tableExists_correct_witness:
  "fst (DB_tableExists life_api (replicate 63 CHR ''x'') (DB_new, \<lparr>lib = (), vms = [], tables = []\<rparr>)) = Crash Bounds"
  using tableExists_correct [of "replicate 63 CHR ''x''" life_api DB_new "\<lparr>lib = (), vms = [], tables = []\<rparr>"] by simp

section \<open>Statements\<close>

lemma Statement_execQuery_shares:
  assumes "Statement_execQuery api (s, w) = (Val q, (s', w1))"
  obtains v where "st_mpVM s = Some v" "st_mpDB s \<noteq> None" "mpVM q = Some v" "v \<in> set (vms w1)"
proof -
  have "st_mpDB s \<noteq> None \<and> (\<exists>v. st_mpVM s = Some v \<and> mpVM q = Some v \<and> v \<in> set (vms w1))"
    using assms by (auto simp: Statement_execQuery_def Statement_checkDB_def Statement_checkVM_def Statement_raise_def
        Query_make_def this_def vm_call_def lib_call_def sq_simps split: prod.splits if_splits option.splits)
  then show ?thesis using that by blast
qed

lemma nextRow_error_releases:
  assumes "mpVM q = Some v" "v \<in> set (vms w)" "fst (sqlite3_step api (Some v) (lib w)) \<notin> {SQLITE_DONE, SQLITE_ROW}"
    "Query_nextRow api (q, w) = (r, (q', w'))"
  shows "vms w' = remove1 v (vms w) \<and> mpVM q' = None"
  using assms by (auto simp: Query_nextRow_def Query_checkVM_def Query_raise_def vm_finalize_def this_def set_this_def
      vm_call_def lib_call_def sq_simps split: prod.splits if_splits db_ptr.splits)

text \<open>C39: A query made by a statement shares its machine. When its \<open>nextRow\<close> meets an error of the
  library, the query finalizes the machine, and the statement is left with a dangling pointer: its
  reset, its execution, its finalization and even its destructor use the released machine.\<close>

theorem statement_query_double_release:
  assumes "Statement_execQuery api (s, w) = (Val q, (s, w1))" "distinct (vms w1)"
    "fst (sqlite3_step api (st_mpVM s) (lib w1)) \<notin> {SQLITE_DONE, SQLITE_ROW}"
    "Query_nextRow api (q, w1) = (r, (q', w2))"
  shows "fst (Statement_reset api (s, w2)) = Crash Dangling \<and> fst (Statement_execDML api (s, w2)) = Crash Dangling \<and>
    fst (Statement_finalize api (s, w2)) = Crash Dangling \<and> fst (Statement_destroy api (s, w2)) = Crash Dangling"
proof -
  obtain v where v: "st_mpVM s = Some v" "st_mpDB s \<noteq> None" "mpVM q = Some v" "v \<in> set (vms w1)"
    using assms(1) by (rule Statement_execQuery_shares)
  have "v \<notin> set (vms w2)" using nextRow_error_releases [OF v(3,4) _ assms(4)] assms(2,3) v(1) by simp
  then show ?thesis using v(1,2)
    by (auto simp: Statement_reset_def Statement_execDML_def Statement_finalize_def Statement_destroy_def
        Statement_checkDB_def Statement_checkVM_def vm_finalize_def this_def vm_call_def sq_simps)
qed

text \<open>A library whose second step of a machine meets a locked database; its state counts the steps.\<close>

definition busy_api :: "(nat, int) sqlite3_api" where
  "busy_api = \<lparr>sqlite3_step = \<lambda>vm l. (if l = 0 then SQLITE_ROW else 5, l + 1), sqlite3_finalize = \<lambda>vm l. (5, l),
     sqlite3_reset = \<lambda>vm l. (5, l), sqlite3_errmsg = \<lambda>db l. (Some ''database is locked'', l),
     sqlite3_changes = \<lambda>db l. (0, l), sqlite3_column_count = \<lambda>vm l. (1, l),
     sqlite3_column_type = \<lambda>vm i l. (1, l), sqlite3_column_int = \<lambda>vm i l. (1, l),
     sqlite3_column_int64 = \<lambda>vm i l. (1, l), sqlite3_column_double = \<lambda>vm i l. (1, l),
     sqlite3_column_text = \<lambda>vm i l. (Some ''1'', l), sqlite3_column_bytes = \<lambda>vm i l. (1, l),
     sqlite3_column_blob = \<lambda>vm i l. (None, l), sqlite3_column_name = \<lambda>vm i l. (Some ''id'', l),
     sqlite3_column_decltype = \<lambda>vm i l. (Some ''INTEGER'', l),
     sqlite3_bind_text = \<lambda>vm i x l. (SQLITE_OK, l), sqlite3_bind_int = \<lambda>vm i x l. (SQLITE_OK, l),
     sqlite3_bind_int64 = \<lambda>vm i x l. (SQLITE_OK, l), sqlite3_bind_double = \<lambda>vm i x l. (SQLITE_OK, l),
     sqlite3_bind_blob = \<lambda>vm i x l. (SQLITE_OK, l), sqlite3_bind_null = \<lambda>vm i l. (SQLITE_OK, l),
     sqlite3_open = \<lambda>f l. ((SQLITE_OK, Some 1), l), sqlite3_close = \<lambda>db l. (SQLITE_OK, l),
     sqlite3_busy_timeout = \<lambda>db n l. (SQLITE_OK, l), sqlite3_last_insert_rowid = \<lambda>db l. (0, l),
     sqlite3_interrupt = \<lambda>db l. ((), l), sqlite3_prepare = \<lambda>db sql l. ((SQLITE_OK, Some 7), l),
     sqlite3_exec = \<lambda>db sql l. ((SQLITE_OK, None), l),
     sqlite3_get_table = \<lambda>db sql l. ((SQLITE_OK, Some (0, []), 0, 0, None), l),
     sqlite3_free_table = \<lambda>t l. ((), l)\<rparr>"

theorem statement_query_double_release_witness:
  "fst (Statement_destroy busy_api (Statement_make (Some 1) (Some 7), \<lparr>lib = 2, vms = [], tables = []\<rparr>)) = Crash Dangling"
proof -
  let ?q = "\<lparr>mpDB = DB_ptr (Some 1), mpVM = Some 7, mbEof = False, mnCols = 1, mbOwnVM = False\<rparr>"
  let ?w1 = "\<lparr>lib = 1, vms = [7], tables = []\<rparr>" and ?w2 = "\<lparr>lib = 2, vms = [], tables = []\<rparr>"
  have "Statement_execQuery busy_api (Statement_make (Some 1) (Some 7), \<lparr>lib = 0, vms = [7], tables = []\<rparr>) =
    (Val ?q, (Statement_make (Some 1) (Some 7), ?w1))"
    by (simp add: Statement_execQuery_def Statement_checkDB_def Statement_checkVM_def Statement_make_def Query_make_def
        query_defs sq_simps busy_api_def)
  moreover have "Query_nextRow busy_api (?q, ?w1) =
    (Throw 5 (Some ''database is locked'') False, (?q\<lparr>mpVM := None\<rparr>, ?w2))"
    by (simp add: Query_nextRow_def Query_raise_def vm_finalize_def query_defs sq_simps busy_api_def numeral_2_eq_2)
  ultimately show ?thesis
    using statement_query_double_release [of busy_api "Statement_make (Some 1) (Some 7)" _ ?q ?w1 _ _ ?w2]
    by (simp add: busy_api_def)
qed

text \<open>The assignment of a statement drops the machine its target held without releasing it: it stays
  live, and no statement of the program holds it any more, whatever other statements do.\<close>

theorem statement_assign_leaks:
  assumes "excl st_mpVM F objs (vms w)" "objs i = Some t" "st_mpVM t = Some v" "objs j = Some s" "i \<noteq> j"
    "Statement_assign i j (objs, w) = (r, (objs', w'))"
  shows "r = Val () \<and> v \<in> set (vms w') \<and> v \<notin> F \<and> (\<forall>k p. objs' k = Some p \<longrightarrow> st_mpVM p \<noteq> Some v)"
proof -
  have v: "v \<in> set (vms w)" "v \<notin> F" using exclD [OF assms(1-3)] by auto
  have run: "r = Val ()" "w' = w" "objs' = objs(i \<mapsto> Statement_grab t s, j \<mapsto> Statement_leave s)"
    using assms(2,4-6) by (auto simp: Statement_assign_def on_obj_def sq_simps this_def set_this_def)
  have "st_mpVM p \<noteq> Some v" if "objs' k = Some p" for k p
    using that assms(2-5) excl_unique [OF assms(1), of i t k p v] excl_unique [OF assms(1), of i t j s v]
    by (auto simp: run(3) Statement_grab_def Statement_leave_def split: if_splits)
  with v run show ?thesis by auto
qed

text \<open>Two statements with a machine each.\<close>

theorem statement_assign_leaks_witness:
  "\<forall>r objs' w'. Statement_assign 0 1
      ((\<lambda>_. None)(0 \<mapsto> Statement_make (Some 1) (Some 5), 1 \<mapsto> Statement_make (Some 1) (Some 6)),
       \<lparr>lib = (), vms = [5, 6], tables = []\<rparr>) = (r, (objs', w')) \<longrightarrow> 5 \<in> set (vms w') \<and> (\<forall>k p. objs' k = Some p \<longrightarrow> st_mpVM p \<noteq> Some 5)"
proof (intro allI impI)
  let ?objs = "(\<lambda>_. None)(0 \<mapsto> Statement_make (Some 1) (Some 5), 1 \<mapsto> Statement_make (Some 1) (Some 6))"
  fix r objs' and w' :: "unit world"
  assume "Statement_assign 0 1 (?objs, \<lparr>lib = (), vms = [5, 6], tables = []\<rparr>) = (r, (objs', w'))"
  moreover have "excl st_mpVM {} ?objs [5, 6]"
    by (rule exclI) (auto simp: Statement_make_def split: if_splits)
  ultimately show "5 \<in> set (vms w') \<and> (\<forall>k p. objs' k = Some p \<longrightarrow> st_mpVM p \<noteq> Some 5)"
    using statement_assign_leaks [of "{}" ?objs "\<lparr>lib = (), vms = [5, 6], tables = []\<rparr>" 0 "Statement_make (Some 1) (Some 5)" 5 1
        "Statement_make (Some 1) (Some 6)" r objs' w'] by (simp add: Statement_make_def)
qed

end
