(* ===== verification/Sqlite_Binary.thy ===== *)
theory Sqlite_Binary
  imports Sqlite_Exception
begin

unbundle bit_operations_syntax

text \<open>
  Binary values of \<open>src/CppSQLite3.cpp\<close>: the routines \<open>sqlite3_encode_binary\<close> and
  \<open>sqlite3_decode_binary\<close>, which turn a buffer into a string without zeros and quotes and back, and
  the class \<open>CppSQLite3Binary\<close>, which keeps a value in either form in one block. The theorems: the
  chosen offset needs the fewest escapes, so an encoded value has no zero, no quote and at most three
  bytes more for every 254; decoding restores it, in place and within the block.
\<close>

section \<open>The encoder\<close>

definition enc_sum :: "bytes \<Rightarrow> nat \<Rightarrow> nat" where
  "enc_sum inp i =
     (let cnt = (\<lambda>k. count_list inp (of_nat k))
      in cnt i + cnt ((i + 1) AND 0xff) + cnt ((i + 39) AND 0xff))"

text \<open>The loop that chooses the offset, over the values of \<open>i\<close> that are left, with \<open>m\<close> and \<open>e\<close>.\<close>

fun enc_offset :: "(nat \<Rightarrow> nat) \<Rightarrow> nat list \<Rightarrow> nat \<Rightarrow> nat \<Rightarrow> nat \<times> nat" where
  "enc_offset tot [] m e = (m, e)"
| "enc_offset tot (i # is) m e =
     (if i = 39 then enc_offset tot is m e
      else if tot i < m then
        if tot i = 0 then (0, i) else enc_offset tot is (tot i) i
      else enc_offset tot is m e)"

definition enc_byte :: "byte \<Rightarrow> byte \<Rightarrow> bytes" where
  "enc_byte e b =
     (let c = b - e in
      if c = 0 then [1, 1] else if c = 1 then [1, 2] else if c = 39 then [1, 3] else [c])"

text \<open>The string that is written, without its terminating zero; \<open>e0\<close> is what the variable \<open>e\<close> holds
  before it is set.\<close>

definition sqlite3_encode_binary :: "nat \<Rightarrow> bytes \<Rightarrow> bytes" where
  "sqlite3_encode_binary e0 inp =
     (if inp = [] then [0x78]
      else let (m, e) = enc_offset (enc_sum inp) [1..<256] (length inp) e0
           in of_nat e # concat (map (enc_byte (of_nat e)) inp))"

section \<open>The decoder\<close>

text \<open>The loop of the decoder from a position in a block on. The output never overtakes the input, so
  the two may be the same block; the results are what was written and, unless the string is
  malformed, success.\<close>

fun dec_loop :: "byte \<Rightarrow> bytes \<Rightarrow> (bytes \<times> bool) option" where
  "dec_loop e [] = None"
| "dec_loop e (c # inp) =
     (if c = 0 then Some ([], True)
      else if c = 1 then
        (case inp of
           [] \<Rightarrow> None
         | d # inp' \<Rightarrow>
             if d = 1 then map_option (\<lambda>(os, r). ((0 + e) # os, r)) (dec_loop e inp')
             else if d = 2 then map_option (\<lambda>(os, r). ((1 + e) # os, r)) (dec_loop e inp')
             else if d = 3 then map_option (\<lambda>(os, r). ((39 + e) # os, r)) (dec_loop e inp')
             else Some ([], False))
      else map_option (\<lambda>(os, r). ((c + e) # os, r)) (dec_loop e inp))"

definition sqlite3_decode_binary :: "bytes \<Rightarrow> (bytes \<times> bool) option" where
  "sqlite3_decode_binary inp = (case inp of [] \<Rightarrow> None | e # rest \<Rightarrow> dec_loop e rest)"

section \<open>The class\<close>

record CppSQLite3Binary =
  mpBuf :: "bytes option"
  mnBinaryLen :: int
  mnBufferLen :: int
  mnEncodedLen :: int
  mbEncoded :: bool

definition Binary_new :: CppSQLite3Binary where
  "Binary_new = \<lparr>mpBuf = None, mnBinaryLen = 0, mnBufferLen = 0, mnEncodedLen = 0, mbEncoded = False\<rparr>"

definition Binary_clear :: "(CppSQLite3Binary, unit) sq" where
  "Binary_clear =
     sq_modify (\<lambda>b. if mpBuf b \<noteq> None then b\<lparr>mnBinaryLen := 0, mnBufferLen := 0, mpBuf := None\<rparr> else b)"

definition Binary_destroy :: "(CppSQLite3Binary, unit) sq" where
  "Binary_destroy = Binary_clear"

text \<open>\<open>malloc n\<close> is the block that is returned, if any, with what it holds. The size is computed in an
  \<open>int\<close>, whose overflow is not defined; \<open>nLen\<close> is the size of a buffer, so it is not negative.\<close>

definition Binary_allocBuffer :: "(nat \<Rightarrow> bytes option) \<Rightarrow> nat \<Rightarrow> (CppSQLite3Binary, unit) sq" where
  "Binary_allocBuffer malloc nLen =
     sq_bind Binary_clear (\<lambda>_.
     if 257 * nLen \<ge> 2 ^ 31 then sq_crash Overflow
     else let n = 3 + (257 * nLen) div 254 in
       sq_bind (sq_modify (\<lambda>b. b\<lparr>mnBinaryLen := int nLen, mnBufferLen := int n, mpBuf := malloc n\<rparr>)) (\<lambda>_.
       case malloc n of
         None \<Rightarrow> sq_throw CPPSQLITE_ERROR ''Cannot allocate memory''
       | Some blk \<Rightarrow> sq_modify (\<lambda>b. b\<lparr>mbEncoded := False\<rparr>)))"

text \<open>\<open>memcpy(mpBuf, bs, n)\<close>.\<close>

definition write_block :: "bytes \<Rightarrow> (CppSQLite3Binary, unit) sq" where
  "write_block bs b =
     (case mpBuf b of
        None \<Rightarrow> (Crash NullPtr, b)
      | Some blk \<Rightarrow>
          if length bs \<le> length blk then (Val (), b\<lparr>mpBuf := Some (bs @ drop (length bs) blk)\<rparr>)
          else (Crash Bounds, b))"

definition Binary_setBinary :: "(nat \<Rightarrow> bytes option) \<Rightarrow> bytes \<Rightarrow> (CppSQLite3Binary, unit) sq" where
  "Binary_setBinary malloc pBuf =
     sq_bind (Binary_allocBuffer malloc (length pBuf)) (\<lambda>_. write_block pBuf)"

text \<open>\<open>setEncoded\<close> of a string, here without its terminating zero.\<close>

definition Binary_setEncoded :: "(nat \<Rightarrow> bytes option) \<Rightarrow> bytes \<Rightarrow> (CppSQLite3Binary, unit) sq" where
  "Binary_setEncoded malloc str =
     sq_bind Binary_clear (\<lambda>_.
     sq_bind (sq_modify (\<lambda>b. b\<lparr>mnEncodedLen := int (length str), mnBufferLen := int (length str) + 1,
                               mpBuf := malloc (length str + 1)\<rparr>)) (\<lambda>_.
     case malloc (length str + 1) of
       None \<Rightarrow> sq_throw CPPSQLITE_ERROR ''Cannot allocate memory''
     | Some blk \<Rightarrow>
         sq_bind (write_block (str @ [0])) (\<lambda>_. sq_modify (\<lambda>b. b\<lparr>mbEncoded := True\<rparr>))))"

text \<open>The copy in \<open>ptmp\<close> is \<open>take (mnBinaryLen b) blk\<close>; it is read from the block and written to a
  block of its own.\<close>

definition Binary_getEncoded :: "(nat \<Rightarrow> bytes option) \<Rightarrow> nat \<Rightarrow> (CppSQLite3Binary, bytes option) sq" where
  "Binary_getEncoded malloc e0 =
     sq_bind (sq_get mbEncoded) (\<lambda>enc.
     sq_bind
      (if enc then sq_return ()
       else sq_bind (sq_get (\<lambda>b. (mpBuf b, nat (mnBinaryLen b)))) (\<lambda>(buf, n).
         case buf of
           None \<Rightarrow> sq_crash NullPtr
         | Some blk \<Rightarrow>
             if length blk < n then sq_crash Bounds
             else if malloc n = None \<and> n > 0 then sq_crash NullPtr
             else let str = sqlite3_encode_binary e0 (take n blk) in
               sq_bind (write_block (str @ [0])) (\<lambda>_.
               sq_modify (\<lambda>b. b\<lparr>mnEncodedLen := int (length str), mbEncoded := True\<rparr>))))
      (\<lambda>_. sq_get mpBuf))"

text \<open>When decoding fails the object keeps the length -1 and what was written so far.\<close>

definition Binary_getBinary :: "(CppSQLite3Binary, bytes option) sq" where
  "Binary_getBinary =
     sq_bind (sq_get mbEncoded) (\<lambda>enc.
     sq_bind
      (if \<not> enc then sq_return ()
       else sq_bind (sq_get mpBuf) (\<lambda>buf.
         case buf of
           None \<Rightarrow> sq_crash NullPtr
         | Some blk \<Rightarrow>
             (case sqlite3_decode_binary blk of
                None \<Rightarrow> sq_crash Bounds
              | Some (out, ok) \<Rightarrow>
                  sq_bind (write_block out) (\<lambda>_.
                  sq_bind (sq_modify (\<lambda>b. b\<lparr>mnBinaryLen := (if ok then int (length out) else - 1)\<rparr>)) (\<lambda>_.
                  sq_bind (sq_check ok CPPSQLITE_ERROR ''Cannot decode binary'') (\<lambda>_.
                  sq_modify (\<lambda>b. b\<lparr>mbEncoded := False\<rparr>)))))))
      (\<lambda>_. sq_get mpBuf))"

definition Binary_getBinaryLength :: "(CppSQLite3Binary, int) sq" where
  "Binary_getBinaryLength = sq_bind Binary_getBinary (\<lambda>_. sq_get mnBinaryLen)"

section \<open>Round trip\<close>

lemma enc_byte_dec: "dec_loop e (enc_byte e b @ rest) = map_option (\<lambda>(os, r). (b # os, r)) (dec_loop e rest)"
proof -
  have eq: "b - e = c \<longleftrightarrow> b = c + e" for c by (auto simp: algebra_simps)
  show ?thesis
    by (cases "b - e = 0"; cases "b - e = 1"; cases "b - e = 39") (auto simp: enc_byte_def Let_def eq)
qed

lemma dec_enc: "dec_loop e (concat (map (enc_byte e) inp) @ 0 # rest) = Some (inp, True)"
  by (induction inp) (auto simp: enc_byte_dec)

lemma decode_encode:
  "inp \<noteq> [] \<Longrightarrow> sqlite3_decode_binary (sqlite3_encode_binary e0 inp @ 0 # rest) = Some (inp, True)"
  by (simp add: sqlite3_decode_binary_def sqlite3_encode_binary_def dec_enc split: prod.split)

lemma decode_encode_empty: "sqlite3_decode_binary (sqlite3_encode_binary e0 [] @ 0 # rest) = Some ([], True)"
  by (simp add: sqlite3_decode_binary_def sqlite3_encode_binary_def)

section \<open>The choice of the offset\<close>

lemma enc_offset_least:
  assumes "enc_offset tot is m e = (m', e')"
  shows "m' \<le> m \<and> (m' = m \<longrightarrow> e' = e) \<and> (m' < m \<longrightarrow> e' \<in> set is - {39} \<and> tot e' = m') \<and>
     (\<forall>i \<in> set is - {39}. m' \<le> tot i)"
  using assms
proof (induction "is" arbitrary: m e)
  case (Cons i "is")
  show ?case
  proof (cases "i \<noteq> 39 \<and> tot i < m \<and> tot i > 0")
    case True
    with Cons.prems have "enc_offset tot is (tot i) i = (m', e')" by simp
    from Cons.IH [OF this] True show ?thesis by auto
  next
    case False
    then show ?thesis
    proof (cases "i \<noteq> 39 \<and> tot i < m")
      case True
      with False Cons.prems show ?thesis by simp
    next
      case rest: False
      with Cons.prems have "enc_offset tot is m e = (m', e')" by (auto split: if_splits)
      from Cons.IH [OF this] rest show ?thesis by auto
    qed
  qed
qed simp

lemma count_sum_le:
  assumes "inj_on f A" "finite A" "f ` A \<subseteq> {..<256}"
  shows "(\<Sum>i \<in> A. count_list (inp :: bytes) (of_nat (f i))) \<le> length inp"
proof -
  let ?g = "\<lambda>i. of_nat (f i) :: byte"
  have inj: "inj_on ?g A"
  proof (rule inj_onI)
    fix x y assume xy: "x \<in> A" "y \<in> A" "?g x = ?g y"
    then have "f x < 256" "f y < 256" using assms(3) by auto
    with xy have "f x = f y" by (metis unat_of_nat_byte)
    with xy assms(1) show "x = y" by (auto dest: inj_onD)
  qed
  have "(\<Sum>i \<in> A. count_list inp (?g i)) = sum (count_list inp) (?g ` A)"
    using inj by (simp add: sum.reindex)
  also have "\<dots> \<le> sum (count_list inp) (UNIV :: byte set)" by (rule sum_mono2) auto
  also have "\<dots> = length inp"
    using sum_count_set [of inp "UNIV :: byte set"] by simp
  finally show ?thesis .
qed

lemma shift_inj: "inj_on (\<lambda>i. (i + k) AND 0xff) {..<256 :: nat}"
proof (rule inj_onI)
  fix x y :: nat assume "x \<in> {..<256}" "y \<in> {..<256}" "(x + k) AND 0xff = (y + k) AND 0xff"
  then have xy: "x < 256" "y < 256" and m: "(x + k) mod 256 = (y + k) mod 256" by (simp_all add: and_255_nat)
  from m have "(x + k + (256 * k - k)) mod 256 = (y + k + (256 * k - k)) mod 256" by (metis mod_add_left_eq)
  with xy show "x = y" by simp
qed

lemma enc_sum_total:
  assumes "A \<subseteq> {..<256}"
  shows "(\<Sum>i \<in> A. enc_sum inp i) \<le> 3 * length inp"
proof -
  have fin: "finite A" using assms by (rule finite_subset) simp
  have part: "(\<Sum>i \<in> A. count_list inp (of_nat ((i + k) AND 0xff))) \<le> length inp" for k
    using fin inj_on_subset [OF shift_inj assms] by (intro count_sum_le) (auto simp: and_255_nat)
  have id: "i AND 0xff = i" if "i \<in> A" for i using that assms by (auto simp: and_255_nat)
  have "(\<Sum>i \<in> A. count_list inp (of_nat i)) \<le> length inp"
    using part [of 0] id by (simp cong: sum.cong)
  with part [of 1] part [of 39] show ?thesis
    by (simp add: enc_sum_def Let_def sum.distrib)
qed

text \<open>The smallest number of escapes is at most the average over the 254 offsets that are tried.\<close>

lemma enc_offset_bound:
  assumes "enc_offset (enc_sum inp) [1..<256] (length inp) e0 = (m, e)" "inp \<noteq> []"
  shows "254 * m \<le> 3 * length inp \<and> e \<in> {1..<256} - {39} \<and> enc_sum inp e = m"
proof -
  note least = enc_offset_least [OF assms(1)]
  let ?I = "{1..<256} - {39 :: nat}"
  have card: "card ?I = 254" by simp
  have "254 * m = (\<Sum>i \<in> ?I. m)" by (simp add: card)
  also have "\<dots> \<le> (\<Sum>i \<in> ?I. enc_sum inp i)" using least by (intro sum_mono) auto
  also have "\<dots> \<le> 3 * length inp" by (rule enc_sum_total) auto
  finally have "254 * m \<le> 3 * length inp" .
  moreover from this assms(2) have "m < length inp" by (cases inp) auto
  ultimately show ?thesis using least by auto
qed

section \<open>The encoded form\<close>

lemma length_enc_byte: "length (enc_byte e b) = (if b \<in> {e, e + 1, e + 39} then 2 else 1)"
proof -
  have "b - e = c \<longleftrightarrow> b = e + c" for c by (auto simp: algebra_simps)
  then show ?thesis by (auto simp: enc_byte_def Let_def)
qed

lemma byte_offsets_distinct: "(e :: byte) \<noteq> e + 1" "e \<noteq> e + 39" "e + 1 \<noteq> e + 39"
  by simp_all

lemma length_enc:
  "length (concat (map (enc_byte e) inp)) =
     length inp + (count_list inp e + count_list inp (e + 1) + count_list inp (e + 39))"
  by (induction inp) (auto simp: length_enc_byte byte_offsets_distinct)

lemma enc_byte_clean: "0 \<notin> set (enc_byte e b) \<and> 0x27 \<notin> set (enc_byte e b)"
  by (auto simp: enc_byte_def Let_def)

lemma of_nat_and_255: "(of_nat (n AND 0xff) :: byte) = of_nat n"
  by (simp add: and_255_nat word_of_nat_eq_iff take_bit_eq_mod)

lemma enc_sum_bytes: "enc_sum inp i =
    count_list inp (of_nat i) + count_list inp (of_nat i + 1) + count_list inp (of_nat i + 39)"
  by (simp add: enc_sum_def of_nat_and_255 add.commute)

lemma encode_form:
  assumes "inp \<noteq> []"
  obtains e where "sqlite3_encode_binary e0 inp = of_nat e # concat (map (enc_byte (of_nat e)) inp)"
    "e \<in> {1..<256} - {39}" "254 * enc_sum inp e \<le> 3 * length inp"
    "\<forall>i \<in> {1..<256} - {39}. enc_sum inp e \<le> enc_sum inp i"
proof -
  obtain m e where eq: "enc_offset (enc_sum inp) [1..<256] (length inp) e0 = (m, e)" by fastforce
  have m: "254 * m \<le> 3 * length inp \<and> e \<in> {1..<256} - {39} \<and> enc_sum inp e = m"
    by (rule enc_offset_bound [OF eq assms])
  have "sqlite3_encode_binary e0 inp = of_nat e # concat (map (enc_byte (of_nat e)) inp)"
    using assms by (simp add: sqlite3_encode_binary_def eq del: One_nat_def)
  then show ?thesis by (rule that) (use m enc_offset_least [OF eq] in auto)
qed

lemma byte_code_clean:
  assumes "e \<in> {1..<256} - {39}"
  shows "(of_nat e :: byte) \<noteq> 0 \<and> (of_nat e :: byte) \<noteq> 39"
proof -
  have "unat (of_nat e :: byte) = e" using assms by (intro unat_of_nat_byte) auto
  then show ?thesis using assms by (auto dest: arg_cong [where f = unat])
qed

lemma length_encode_form: "length (e # concat (map (enc_byte e) inp)) =
    1 + length inp + (count_list inp e + count_list inp (e + 1) + count_list inp (e + 39))"
  by (simp add: length_enc)

lemma encode_length:
  "length (sqlite3_encode_binary e0 inp) \<le> 1 + (257 * length inp) div 254"
proof (cases "inp = []")
  case False
  then obtain e where e: "sqlite3_encode_binary e0 inp = of_nat e # concat (map (enc_byte (of_nat e)) inp)"
      "254 * enc_sum inp e \<le> 3 * length inp" by (rule encode_form)
  then have "length (sqlite3_encode_binary e0 inp) = 1 + length inp + enc_sum inp e"
    by (simp only: length_encode_form enc_sum_bytes)
  with e(2) show ?thesis by simp
qed (simp add: sqlite3_encode_binary_def)

text \<open>C17: Whatever the variable for the offset held before, encoding a buffer and decoding the string
  gives the buffer back, also when other bytes follow the terminating zero; the string holds no zero
  and no quote, and is at most one byte and three bytes for every 254 longer, as the comment in the
  code promises. No admissible offset would need fewer escapes.\<close>

theorem encode_binary_correct:
  "sqlite3_decode_binary (sqlite3_encode_binary e0 inp @ 0 # rest) = Some (inp, True) \<and>
   0 \<notin> set (sqlite3_encode_binary e0 inp) \<and> 0x27 \<notin> set (sqlite3_encode_binary e0 inp) \<and>
   length (sqlite3_encode_binary e0 inp) + 1 \<le> 2 + (257 * length inp) div 254 \<and>
   (inp \<noteq> [] \<longrightarrow> (\<forall>i \<in> {1..<256} - {39}.
      length (sqlite3_encode_binary e0 inp) \<le> length (of_nat i # concat (map (enc_byte (of_nat i)) inp))))"
proof (cases "inp = []")
  case True
  then show ?thesis by (simp add: sqlite3_encode_binary_def decode_encode_empty [unfolded sqlite3_encode_binary_def, simplified])
next
  case False
  then obtain e where e: "sqlite3_encode_binary e0 inp = of_nat e # concat (map (enc_byte (of_nat e)) inp)"
      "e \<in> {1..<256} - {39}" "\<forall>i \<in> {1..<256} - {39}. enc_sum inp e \<le> enc_sum inp i" by (rule encode_form)
  have "0 \<notin> set (sqlite3_encode_binary e0 inp) \<and> 0x27 \<notin> set (sqlite3_encode_binary e0 inp)"
    using byte_code_clean [OF e(2)] enc_byte_clean by (auto simp: e(1))
  moreover have "\<forall>i \<in> {1..<256} - {39}. length (sqlite3_encode_binary e0 inp) \<le> length (of_nat i # concat (map (enc_byte (of_nat i)) inp))"
    using e(3) by (simp only: e(1) length_encode_form enc_sum_bytes) simp
  ultimately show ?thesis using False decode_encode [of inp e0 rest] encode_length [of e0 inp] by simp
qed

text \<open>A quote, a zero and an escape: the offset 2 needs no escapes.\<close>

theorem encode_binary_correct_witness:
  "[39, 0, 1] \<noteq> ([] :: bytes) \<and> length (sqlite3_encode_binary 0 [39, 0, 1]) \<le> length (2 # concat (map (enc_byte 2) [39, 0, 1]))"
proof -
  have "(2 :: nat) \<in> {1..<256} - {39}" by simp
  then show ?thesis using encode_binary_correct [of 0 "[39, 0, 1]" "[]"] by (metis list.discI of_nat_numeral)
qed

section \<open>Objects\<close>

text \<open>\<open>malloc\<close> as documented, when there is memory: a block of the size that was asked for.\<close>

definition malloc_ok :: "(nat \<Rightarrow> bytes option) \<Rightarrow> bool" where
  "malloc_ok malloc \<longleftrightarrow> (\<forall>n. \<exists>blk. malloc n = Some blk \<and> length blk = n)"

lemma setBinary_run:
  assumes "malloc_ok malloc" "257 * length inp < 2 ^ 31"
  obtains blk where "length blk = 3 + (257 * length inp) div 254" "take (length inp) blk = inp"
    "Binary_setBinary malloc inp b =
       (Val (), b\<lparr>mpBuf := Some blk, mnBinaryLen := int (length inp), mnBufferLen := int (length blk), mbEncoded := False\<rparr>)"
proof -
  let ?n = "3 + (257 * length inp) div 254"
  obtain blk where blk: "malloc ?n = Some blk" "length blk = ?n" using assms(1) unfolding malloc_ok_def by blast
  have "length inp \<le> ?n" by simp
  then show ?thesis using assms(2) blk
    by (intro that [of "inp @ drop (length inp) blk"])
      (simp_all add: Binary_setBinary_def Binary_allocBuffer_def Binary_clear_def write_block_def sq_simps)
qed

lemma getEncoded_run:
  assumes "malloc_ok malloc" "\<not> mbEncoded b" "mpBuf b = Some blk" "mnBinaryLen b = int (length inp)"
    "take (length inp) blk = inp" "length blk = 3 + (257 * length inp) div 254"
  obtains tail where "length (sqlite3_encode_binary e0 inp @ 0 # tail) = length blk"
    "Binary_getEncoded malloc e0 b =
       (Val (Some (sqlite3_encode_binary e0 inp @ 0 # tail)),
        b\<lparr>mpBuf := Some (sqlite3_encode_binary e0 inp @ 0 # tail),
          mnEncodedLen := int (length (sqlite3_encode_binary e0 inp)), mbEncoded := True\<rparr>)"
proof -
  let ?s = "sqlite3_encode_binary e0 inp"
  have room: "Suc (length ?s) \<le> length blk" using encode_length [of e0 inp] assms(6) by simp
  have "length inp \<le> length blk" using assms(5) by (metis nat_le_linear take_all length_take min.absorb_iff1)
  moreover have "malloc (length inp) \<noteq> None" using assms(1) unfolding malloc_ok_def by (metis option.discI)
  ultimately show ?thesis using assms room
    by (intro that [of "drop (Suc (length ?s)) blk"])
      (simp_all add: Binary_getEncoded_def write_block_def sq_simps Let_def)
qed

lemma getBinary_run:
  assumes "mbEncoded b" "mpBuf b = Some (str @ 0 # tail)"
    "sqlite3_decode_binary (str @ 0 # tail) = Some (inp, True)" "length inp \<le> length (str @ 0 # tail)"
  shows "Binary_getBinary b =
     (Val (Some (inp @ drop (length inp) (str @ 0 # tail))),
      b\<lparr>mpBuf := Some (inp @ drop (length inp) (str @ 0 # tail)), mnBinaryLen := int (length inp), mbEncoded := False\<rparr>)"
  using assms by (simp add: Binary_getBinary_def write_block_def sq_simps del: drop_append)

lemma setEncoded_run:
  assumes "malloc_ok malloc"
  shows "Binary_setEncoded malloc str b = (Val (), (snd (Binary_clear b))\<lparr>mpBuf := Some (str @ [0]),
     mnEncodedLen := int (length str), mnBufferLen := int (length str) + 1, mbEncoded := True\<rparr>)"
proof -
  obtain blk where "malloc (length str + 1) = Some blk" "length blk = length str + 1"
    using assms unfolding malloc_ok_def by blast
  then show ?thesis by (simp add: Binary_setEncoded_def Binary_clear_def write_block_def sq_simps)
qed

lemma dec_loop_length: "dec_loop e inp = Some (part, r) \<Longrightarrow> length part \<le> length inp"
  by (induction e inp arbitrary: part rule: dec_loop.induct)
    (fastforce split: if_splits list.splits)+

lemma decode_length: "sqlite3_decode_binary inp = Some (part, r) \<Longrightarrow> length part \<le> length inp"
  by (auto simp: sqlite3_decode_binary_def le_SucI dest: dec_loop_length split: list.splits)

lemma length_le_encode: "length inp \<le> length (sqlite3_encode_binary e0 inp)"
proof (cases "inp = []")
  case False
  then obtain e where "sqlite3_encode_binary e0 inp = of_nat e # concat (map (enc_byte (of_nat e)) inp)"
    by (rule encode_form)
  then show ?thesis by (simp add: length_enc)
qed simp

text \<open>With memory, and below the size at which the computation of the block size overflows, a value
  given to any object comes back: its encoded form is the zero-terminated string of the encoder,
  written inside of the block, decoding it in place restores the value and its length, and so does
  decoding the string in another object.\<close>

theorem binary_object_roundtrip:
  assumes "malloc_ok malloc" "257 * length inp < 2 ^ 31"
  shows "\<exists>b1 b2 b3 b4 b5 blk tail rest rest'.
     Binary_setBinary malloc inp b = (Val (), b1) \<and> Binary_getBinaryLength b1 = (Val (int (length inp)), b1) \<and>
     Binary_getEncoded malloc e0 b1 = (Val (Some (sqlite3_encode_binary e0 inp @ 0 # tail)), b2) \<and>
     Binary_getBinary b2 = (Val (Some (inp @ rest)), b3) \<and>
     Binary_getBinaryLength b3 = (Val (int (length inp)), b3) \<and>
     Binary_setEncoded malloc (sqlite3_encode_binary e0 inp) b' = (Val (), b4) \<and>
     Binary_getBinary b4 = (Val (Some (inp @ rest')), b5) \<and> mnBinaryLen b5 = int (length inp)"
proof -
  let ?s = "sqlite3_encode_binary e0 inp"
  have dec: "sqlite3_decode_binary (?s @ 0 # t) = Some (inp, True)" for t
    using decode_encode [of inp e0 t] decode_encode_empty [of e0 t] by (cases "inp = []") auto
  obtain blk where blk: "length blk = 3 + (257 * length inp) div 254" "take (length inp) blk = inp"
    and b1: "Binary_setBinary malloc inp b =
       (Val (), b\<lparr>mpBuf := Some blk, mnBinaryLen := int (length inp), mnBufferLen := int (length blk), mbEncoded := False\<rparr>)"
      (is "_ = (_, ?b1)")
    by (rule setBinary_run [OF assms])
  obtain tail where b2: "Binary_getEncoded malloc e0 ?b1 =
       (Val (Some (?s @ 0 # tail)), ?b1\<lparr>mpBuf := Some (?s @ 0 # tail), mnEncodedLen := int (length ?s), mbEncoded := True\<rparr>)"
      (is "_ = (_, ?b2)")
    by (rule getEncoded_run [OF assms(1), of ?b1 blk inp]) (use blk in auto)
  have b3: "Binary_getBinary ?b2 = (Val (Some (inp @ drop (length inp) (?s @ 0 # tail))),
      ?b2\<lparr>mpBuf := Some (inp @ drop (length inp) (?s @ 0 # tail)), mnBinaryLen := int (length inp), mbEncoded := False\<rparr>)"
      (is "_ = (_, ?b3)")
    by (rule getBinary_run) (use dec length_le_encode [of inp e0] in simp_all)
  let ?b4 = "(snd (Binary_clear b'))\<lparr>mpBuf := Some (?s @ [0]), mnEncodedLen := int (length ?s),
       mnBufferLen := int (length ?s) + 1, mbEncoded := True\<rparr>"
  have b4: "Binary_setEncoded malloc ?s b' = (Val (), ?b4)"
    by (rule setEncoded_run [OF assms(1)])
  have b5: "Binary_getBinary ?b4 = (Val (Some (inp @ drop (length inp) (?s @ [0]))),
      ?b4\<lparr>mpBuf := Some (inp @ drop (length inp) (?s @ [0])), mnBinaryLen := int (length inp), mbEncoded := False\<rparr>)"
    by (rule getBinary_run) (use dec length_le_encode [of inp e0] in simp_all)
  have l: "Binary_getBinaryLength ?b1 = (Val (int (length inp)), ?b1)" "Binary_getBinaryLength ?b3 = (Val (int (length inp)), ?b3)"
    by (simp_all add: Binary_getBinaryLength_def Binary_getBinary_def sq_simps)
  show ?thesis using b1 l(1) b2 b3 l(2) b4 b5 by (intro exI conjI) (assumption | simp)+
qed

text \<open>A value with a zero and a quote, in a memory that gives zeroed blocks.\<close>

theorem binary_object_roundtrip_witness:
  "\<exists>b1. Binary_setBinary (\<lambda>n. Some (replicate n 0)) [0, 39] Binary_new = (Val (), b1) \<and>
        Binary_getBinaryLength b1 = (Val 2, b1)"
proof -
  have "malloc_ok (\<lambda>n. Some (replicate n 0))" by (simp add: malloc_ok_def)
  from binary_object_roundtrip [OF this, of "[0, 39]" Binary_new 0 Binary_new] show ?thesis by auto
qed

text \<open>What an object does with other contents: a malformed string is an exception that leaves the
  length -1 and the object still in the encoded state; an empty string is decoded beyond its block;
  an object without a value dereferences null when it is encoded, and, after \<open>clear\<close>, when an
  encoded value is decoded; a value of more than \<open>8355967\<close> bytes overflows the size computation.\<close>

theorem binary_object_errors:
  assumes "malloc_ok malloc"
  shows "(sqlite3_decode_binary (str @ [0]) = Some (part, False) \<longrightarrow>
      (\<exists>b1 b2. Binary_setEncoded malloc str b = (Val (), b1) \<and>
        Binary_getBinary b1 = (Throw CPPSQLITE_ERROR (Some ''Cannot decode binary'') False, b2) \<and>
        mnBinaryLen b2 = - 1 \<and> mbEncoded b2)) \<and>
    (\<exists>b1. Binary_setEncoded malloc [] b = (Val (), b1) \<and> fst (Binary_getBinary b1) = Crash Bounds) \<and>
    fst (Binary_getEncoded malloc e0 Binary_new) = Crash NullPtr \<and>
    (mbEncoded b \<and> mpBuf b \<noteq> None \<longrightarrow> fst (Binary_getBinary (snd (Binary_clear b))) = Crash NullPtr) \<and>
    (length inp > 8355967 \<longrightarrow> fst (Binary_setBinary malloc inp b) = Crash Overflow)"
proof (intro conjI impI)
  assume bad: "sqlite3_decode_binary (str @ [0]) = Some (part, False)"
  then have len: "length part \<le> Suc (length str)" using decode_length by fastforce
  show "\<exists>b1 b2. Binary_setEncoded malloc str b = (Val (), b1) \<and>
        Binary_getBinary b1 = (Throw CPPSQLITE_ERROR (Some ''Cannot decode binary'') False, b2) \<and>
        mnBinaryLen b2 = - 1 \<and> mbEncoded b2"
    unfolding setEncoded_run [OF assms] using bad len
    by (simp add: Binary_getBinary_def write_block_def sq_simps)
next
  show "\<exists>b1. Binary_setEncoded malloc [] b = (Val (), b1) \<and> fst (Binary_getBinary b1) = Crash Bounds"
    unfolding setEncoded_run [OF assms]
    by (simp add: Binary_getBinary_def sqlite3_decode_binary_def sq_simps)
qed (simp_all add: Binary_getEncoded_def Binary_getBinary_def Binary_clear_def Binary_new_def
      Binary_setBinary_def Binary_allocBuffer_def sq_simps)

text \<open>The string \<open>x\<close>, escape, \<open>9\<close> has an unknown escape.\<close>

theorem binary_object_errors_witness:
  "\<exists>b1 b2. Binary_setEncoded (\<lambda>n. Some (replicate n 0)) [0x78, 1, 9] Binary_new = (Val (), b1) \<and>
     Binary_getBinary b1 = (Throw CPPSQLITE_ERROR (Some ''Cannot decode binary'') False, b2) \<and>
     mnBinaryLen b2 = - 1 \<and> mbEncoded b2"
proof -
  have "malloc_ok (\<lambda>n. Some (replicate n 0))" by (simp add: malloc_ok_def)
  moreover have "sqlite3_decode_binary ([0x78, 1, 9] @ [0]) = Some ([], False)" by code_simp
  ultimately show ?thesis
    using binary_object_errors [of "\<lambda>n. Some (replicate n 0)" "[0x78, 1, 9]" "[]" Binary_new 0 "[]"] by blast
qed

end
