(* ===== verification/CJson_Heap.thy ===== *)
theory CJson_Heap
  imports CJson Util_Fun
begin

text \<open>
  The linked items of \<open>src/imp/cJSON.c\<close>: the nodes that \<open>next\<close>, \<open>prev\<close> and \<open>child\<close> connect, in a
  store of addresses, and the operations that create, look up, append, detach, replace and delete them.
  The result \<open>None\<close> of an operation means that it follows a pointer to no node, or that it never ends
  (on a chain that is a circle). The theorems refine the operations on chains to operations on lists.
\<close>

section \<open>Nodes and stores\<close>

record 'd node =
  nx :: "nat option"
  pv :: "nat option"
  ch :: "nat option"
  ntype :: nat
  nvaluestring :: "string option"
  nvalueint :: int
  nvaluedouble :: 'd
  nstring :: "string option"

text \<open>The store keeps the nodes and the number of calls of \<open>cJSON_malloc\<close>; the environment says which
  call succeeds and, for a node, with which address.\<close>

record 'd store =
  nodes :: "nat \<Rightarrow> 'd node option"
  mallocs :: nat

record 'd henv = "'d cenv" +
  env_addr :: "nat \<Rightarrow> nat"

definition set_node :: "nat \<Rightarrow> 'd node \<Rightarrow> 'd store \<Rightarrow> 'd store" where
  "set_node a n s = s\<lparr>nodes := (nodes s)(a \<mapsto> n)\<rparr>"

definition free_node :: "nat \<Rightarrow> 'd store \<Rightarrow> 'd store" where
  "free_node a s = s\<lparr>nodes := (nodes s)(a := None)\<rparr>"

text \<open>\<open>a->field = ...\<close>\<close>

definition upd_node :: "nat \<Rightarrow> ('d node \<Rightarrow> 'd node) \<Rightarrow> 'd store \<Rightarrow> 'd store option" where
  "upd_node a f s = map_option (\<lambda>n. set_node a (f n) s) (nodes s a)"

definition is_ref :: "'d node \<Rightarrow> bool" where
  "is_ref n = bit (ntype n) 8"

text \<open>\<open>cJSON_malloc\<close> and \<open>cJSON_free\<close> are the hooks or the library's functions.\<close>

definition cJSON_InitHooks :: "('f option \<times> 'g option) option \<Rightarrow> 'f \<Rightarrow> 'g \<Rightarrow> 'f \<times> 'g" where
  "cJSON_InitHooks hooks malloc free =
     (case hooks of
        None \<Rightarrow> (malloc, free)
      | Some (malloc_fn, free_fn) \<Rightarrow>
          (case malloc_fn of Some f \<Rightarrow> f | None \<Rightarrow> malloc, case free_fn of Some f \<Rightarrow> f | None \<Rightarrow> free))"

definition new_item :: "'d henv \<Rightarrow> 'd store \<Rightarrow> nat option \<times> 'd store" where
  "new_item env s =
     (let k = mallocs s; s = s\<lparr>mallocs := Suc k\<rparr> in
      if env_malloc env k
      then (Some (env_addr env k),
            set_node (env_addr env k)
              \<lparr>nx = None, pv = None, ch = None, ntype = 0, nvaluestring = None, nvalueint = 0,
               nvaluedouble = fp_of_int env 0, nstring = None\<rparr> s)
      else (None, s))"

text \<open>\<open>cJSON_strdup\<close> of a string, as the text in the new block.\<close>

definition dup_string :: "'d henv \<Rightarrow> string \<Rightarrow> 'd store \<Rightarrow> string option \<times> 'd store" where
  "dup_string env str s =
     (if env_malloc env (mallocs s) then Some str else None, s\<lparr>mallocs := Suc (mallocs s)\<rparr>)"

section \<open>Names\<close>

text \<open>The difference at the end is computed on \<open>unsigned char\<close>.\<close>

fun strcasecmp_loop :: "string \<Rightarrow> string \<Rightarrow> int" where
  "strcasecmp_loop s1 s2 =
     (if tolower (schar (cur s1)) = tolower (schar (cur s2)) then
        (case s1 of [] \<Rightarrow> 0 | c # r1 \<Rightarrow> if c = CHR 0x00 then 0 else strcasecmp_loop r1 (tl s2))
      else tolower (int (code (cur s1))) - tolower (int (code (cur s2))))"

definition cJSON_strcasecmp :: "string option \<Rightarrow> string option \<Rightarrow> int" where
  "cJSON_strcasecmp s1 s2 =
     (case s1 of
        None \<Rightarrow> if s2 = None then 0 else 1
      | Some x \<Rightarrow> (case s2 of None \<Rightarrow> 1 | Some y \<Rightarrow> strcasecmp_loop x y))"

section \<open>Walking a chain\<close>

text \<open>\<open>while (c) i++, c=c->next\<close>\<close>

partial_function (option) size_loop :: "'d store \<Rightarrow> nat option \<Rightarrow> int \<Rightarrow> int option" where
  "size_loop s c i =
     (case c of
        None \<Rightarrow> Some i
      | Some a \<Rightarrow> (case nodes s a of None \<Rightarrow> None | Some n \<Rightarrow> size_loop s (nx n) (i + 1)))"

text \<open>\<open>while (c && item>0) item--, c=c->next\<close>\<close>

partial_function (option) item_loop :: "'d store \<Rightarrow> nat option \<Rightarrow> int \<Rightarrow> nat option option" where
  "item_loop s c item =
     (case c of
        None \<Rightarrow> Some None
      | Some a \<Rightarrow>
          if item > 0 then (case nodes s a of None \<Rightarrow> None | Some n \<Rightarrow> item_loop s (nx n) (item - 1))
          else Some (Some a))"

text \<open>\<open>while (c && cJSON_strcasecmp(c->string,string)) i++, c=c->next\<close>\<close>

partial_function (option) name_loop ::
  "'d store \<Rightarrow> nat option \<Rightarrow> string option \<Rightarrow> int \<Rightarrow> (nat option \<times> int) option" where
  "name_loop s c str i =
     (case c of
        None \<Rightarrow> Some (None, i)
      | Some a \<Rightarrow>
          (case nodes s a of
             None \<Rightarrow> None
           | Some n \<Rightarrow> if cJSON_strcasecmp (nstring n) str \<noteq> 0 then name_loop s (nx n) str (i + 1) else Some (Some a, i)))"

text \<open>\<open>while (c && c->next) c=c->next\<close>, from a node on\<close>

partial_function (option) last_loop :: "'d store \<Rightarrow> nat \<Rightarrow> nat option" where
  "last_loop s a =
     (case nodes s a of
        None \<Rightarrow> None
      | Some n \<Rightarrow> (case nx n of None \<Rightarrow> Some a | Some b \<Rightarrow> last_loop s b))"

section \<open>Operations\<close>

definition cJSON_GetArraySize :: "nat \<Rightarrow> 'd store \<Rightarrow> int option" where
  "cJSON_GetArraySize a s = Option.bind (nodes s a) (\<lambda>n. size_loop s (ch n) 0)"

definition cJSON_GetArrayItem :: "nat \<Rightarrow> int \<Rightarrow> 'd store \<Rightarrow> nat option option" where
  "cJSON_GetArrayItem a item s = Option.bind (nodes s a) (\<lambda>n. item_loop s (ch n) item)"

definition cJSON_GetObjectItem :: "nat \<Rightarrow> string option \<Rightarrow> 'd store \<Rightarrow> nat option option" where
  "cJSON_GetObjectItem a str s = Option.bind (nodes s a) (\<lambda>n. map_option fst (name_loop s (ch n) str 0))"

definition suffix_object :: "nat \<Rightarrow> nat \<Rightarrow> 'd store \<Rightarrow> 'd store option" where
  "suffix_object prev item s =
     Option.bind (upd_node prev (\<lambda>n. n\<lparr>nx := Some item\<rparr>) s) (upd_node item (\<lambda>n. n\<lparr>pv := Some prev\<rparr>))"

definition create_reference :: "'d henv \<Rightarrow> nat \<Rightarrow> 'd store \<Rightarrow> (nat option \<times> 'd store) option" where
  "create_reference env item s =
     (case new_item env s of
        (None, s) \<Rightarrow> Some (None, s)
      | (Some ref, s) \<Rightarrow>
          map_option (\<lambda>n. (Some ref, set_node ref
            (n\<lparr>nstring := None, ntype := set_bit 8 (ntype n), nx := None, pv := None\<rparr>) s)) (nodes s item))"

definition cJSON_AddItemToArray :: "nat \<Rightarrow> nat option \<Rightarrow> 'd store \<Rightarrow> 'd store option" where
  "cJSON_AddItemToArray a item s =
     (case nodes s a of
        None \<Rightarrow> None
      | Some n \<Rightarrow>
          (case item of
             None \<Rightarrow> Some s
           | Some i \<Rightarrow>
               (case ch n of
                  None \<Rightarrow> upd_node a (\<lambda>n. n\<lparr>ch := Some i\<rparr>) s
                | Some c \<Rightarrow> Option.bind (last_loop s c) (\<lambda>c. suffix_object c i s))))"

definition cJSON_AddItemToObject :: "'d henv \<Rightarrow> nat \<Rightarrow> string \<Rightarrow> nat option \<Rightarrow> 'd store \<Rightarrow> 'd store option" where
  "cJSON_AddItemToObject env obj str item s =
     (case item of
        None \<Rightarrow> Some s
      | Some i \<Rightarrow>
          (case nodes s i of
             None \<Rightarrow> None
           | Some n \<Rightarrow>
               let (d, s) = dup_string env str s
               in Option.bind (upd_node i (\<lambda>n. n\<lparr>nstring := d\<rparr>) s) (cJSON_AddItemToArray obj (Some i))))"

definition cJSON_AddItemReferenceToArray :: "'d henv \<Rightarrow> nat \<Rightarrow> nat \<Rightarrow> 'd store \<Rightarrow> 'd store option" where
  "cJSON_AddItemReferenceToArray env a item s =
     Option.bind (create_reference env item s) (\<lambda>(ref, s). cJSON_AddItemToArray a ref s)"

definition cJSON_AddItemReferenceToObject ::
  "'d henv \<Rightarrow> nat \<Rightarrow> string \<Rightarrow> nat \<Rightarrow> 'd store \<Rightarrow> 'd store option" where
  "cJSON_AddItemReferenceToObject env obj str item s =
     Option.bind (create_reference env item s) (\<lambda>(ref, s). cJSON_AddItemToObject env obj str ref s)"

definition cJSON_DetachItemFromArray :: "nat \<Rightarrow> int \<Rightarrow> 'd store \<Rightarrow> (nat option \<times> 'd store) option" where
  "cJSON_DetachItemFromArray a which s =
     Option.bind (nodes s a) (\<lambda>n.
     Option.bind (item_loop s (ch n) which) (\<lambda>c.
     case c of
       None \<Rightarrow> Some (None, s)
     | Some c \<Rightarrow>
         Option.bind (nodes s c) (\<lambda>m.
         Option.bind (case pv m of None \<Rightarrow> Some s | Some p \<Rightarrow> upd_node p (\<lambda>n. n\<lparr>nx := nx m\<rparr>) s) (\<lambda>s.
         Option.bind (case nx m of None \<Rightarrow> Some s | Some q \<Rightarrow> upd_node q (\<lambda>n. n\<lparr>pv := pv m\<rparr>) s) (\<lambda>s.
         Option.bind (nodes s a) (\<lambda>n.
         Option.bind (if ch n = Some c then upd_node a (\<lambda>n. n\<lparr>ch := nx m\<rparr>) s else Some s) (\<lambda>s.
         Option.bind (upd_node c (\<lambda>n. n\<lparr>pv := None, nx := None\<rparr>) s) (\<lambda>s. Some (Some c, s)))))))))"

definition cJSON_DetachItemFromObject :: "nat \<Rightarrow> string option \<Rightarrow> 'd store \<Rightarrow> (nat option \<times> 'd store) option" where
  "cJSON_DetachItemFromObject obj str s =
     Option.bind (nodes s obj) (\<lambda>n.
     Option.bind (name_loop s (ch n) str 0) (\<lambda>(c, i).
     case c of None \<Rightarrow> Some (None, s) | Some _ \<Rightarrow> cJSON_DetachItemFromArray obj i s))"

partial_function (option) cJSON_Delete :: "nat option \<Rightarrow> 'd store \<Rightarrow> 'd store option" where
  "cJSON_Delete c s =
     (case c of
        None \<Rightarrow> Some s
      | Some a \<Rightarrow>
          (case nodes s a of
             None \<Rightarrow> None
           | Some n \<Rightarrow>
               Option.bind (if \<not> is_ref n \<and> ch n \<noteq> None then cJSON_Delete (ch n) s else Some s) (\<lambda>s.
               case nodes s a of
                 None \<Rightarrow> None
               | Some _ \<Rightarrow> cJSON_Delete (nx n) (free_node a s))))"

definition cJSON_DeleteItemFromArray :: "nat \<Rightarrow> int \<Rightarrow> 'd store \<Rightarrow> 'd store option" where
  "cJSON_DeleteItemFromArray a which s =
     Option.bind (cJSON_DetachItemFromArray a which s) (\<lambda>(c, s). cJSON_Delete c s)"

definition cJSON_DeleteItemFromObject :: "nat \<Rightarrow> string option \<Rightarrow> 'd store \<Rightarrow> 'd store option" where
  "cJSON_DeleteItemFromObject obj str s =
     Option.bind (cJSON_DetachItemFromObject obj str s) (\<lambda>(c, s). cJSON_Delete c s)"

definition cJSON_ReplaceItemInArray :: "nat \<Rightarrow> int \<Rightarrow> nat \<Rightarrow> 'd store \<Rightarrow> 'd store option" where
  "cJSON_ReplaceItemInArray a which newitem s =
     Option.bind (nodes s a) (\<lambda>n.
     Option.bind (item_loop s (ch n) which) (\<lambda>c.
     case c of
       None \<Rightarrow> Some s
     | Some c \<Rightarrow>
         Option.bind (nodes s c) (\<lambda>m.
         Option.bind (upd_node newitem (\<lambda>n. n\<lparr>nx := nx m, pv := pv m\<rparr>) s) (\<lambda>s.
         Option.bind (case nx m of None \<Rightarrow> Some s | Some q \<Rightarrow> upd_node q (\<lambda>n. n\<lparr>pv := Some newitem\<rparr>) s) (\<lambda>s.
         Option.bind (nodes s a) (\<lambda>n.
         Option.bind
           (if ch n = Some c then upd_node a (\<lambda>n. n\<lparr>ch := Some newitem\<rparr>) s
            else (case pv m of None \<Rightarrow> None | Some p \<Rightarrow> upd_node p (\<lambda>n. n\<lparr>nx := Some newitem\<rparr>) s)) (\<lambda>s.
         Option.bind (upd_node c (\<lambda>n. n\<lparr>nx := None, pv := None\<rparr>) s) (cJSON_Delete (Some c)))))))))"

definition cJSON_ReplaceItemInObject ::
  "'d henv \<Rightarrow> nat \<Rightarrow> string \<Rightarrow> nat \<Rightarrow> 'd store \<Rightarrow> 'd store option" where
  "cJSON_ReplaceItemInObject env obj str newitem s =
     Option.bind (nodes s obj) (\<lambda>n.
     Option.bind (name_loop s (ch n) (Some str) 0) (\<lambda>(c, i).
     case c of
       None \<Rightarrow> Some s
     | Some _ \<Rightarrow>
         let (d, s) = dup_string env str s
         in Option.bind (upd_node newitem (\<lambda>n. n\<lparr>nstring := d\<rparr>) s) (cJSON_ReplaceItemInArray obj i newitem)))"

section \<open>Creating items\<close>

definition create_item :: "'d henv \<Rightarrow> ('d node \<Rightarrow> 'd node) \<Rightarrow> 'd store \<Rightarrow> nat option \<times> 'd store" where
  "create_item env f s =
     (case new_item env s of
        (None, s) \<Rightarrow> (None, s)
      | (Some a, s) \<Rightarrow> (Some a, s\<lparr>nodes := (nodes s)(a := map_option f (nodes s a))\<rparr>))"

definition cJSON_CreateNull :: "'d henv \<Rightarrow> 'd store \<Rightarrow> nat option \<times> 'd store" where
  "cJSON_CreateNull env = create_item env (\<lambda>n. n\<lparr>ntype := cJSON_NULL\<rparr>)"

definition cJSON_CreateTrue :: "'d henv \<Rightarrow> 'd store \<Rightarrow> nat option \<times> 'd store" where
  "cJSON_CreateTrue env = create_item env (\<lambda>n. n\<lparr>ntype := cJSON_True\<rparr>)"

definition cJSON_CreateFalse :: "'d henv \<Rightarrow> 'd store \<Rightarrow> nat option \<times> 'd store" where
  "cJSON_CreateFalse env = create_item env (\<lambda>n. n\<lparr>ntype := cJSON_False\<rparr>)"

definition cJSON_CreateBool :: "'d henv \<Rightarrow> bool \<Rightarrow> 'd store \<Rightarrow> nat option \<times> 'd store" where
  "cJSON_CreateBool env b = create_item env (\<lambda>n. n\<lparr>ntype := (if b then cJSON_True else cJSON_False)\<rparr>)"

definition cJSON_CreateNumber :: "'d henv \<Rightarrow> 'd \<Rightarrow> 'd store \<Rightarrow> nat option \<times> 'd store" where
  "cJSON_CreateNumber env num =
     create_item env (\<lambda>n. n\<lparr>ntype := cJSON_Number, nvaluedouble := num, nvalueint := fp_to_int env num\<rparr>)"

definition cJSON_CreateString :: "'d henv \<Rightarrow> string \<Rightarrow> 'd store \<Rightarrow> nat option \<times> 'd store" where
  "cJSON_CreateString env str s =
     (case create_item env (\<lambda>n. n\<lparr>ntype := cJSON_String\<rparr>) s of
        (None, s) \<Rightarrow> (None, s)
      | (Some a, s) \<Rightarrow>
          (case dup_string env str s of
             (d, s) \<Rightarrow> (Some a, s\<lparr>nodes := (nodes s)(a := map_option (\<lambda>n. n\<lparr>nvaluestring := d\<rparr>) (nodes s a))\<rparr>)))"

definition cJSON_CreateArray :: "'d henv \<Rightarrow> 'd store \<Rightarrow> nat option \<times> 'd store" where
  "cJSON_CreateArray env = create_item env (\<lambda>n. n\<lparr>ntype := cJSON_Array\<rparr>)"

definition cJSON_CreateObject :: "'d henv \<Rightarrow> 'd store \<Rightarrow> nat option \<times> 'd store" where
  "cJSON_CreateObject env = create_item env (\<lambda>n. n\<lparr>ntype := cJSON_Object\<rparr>)"

text \<open>The loop of the four functions that create an array: \<open>p\<close> is the item of the round before, and
  \<open>mk\<close> creates the next one; a failed allocation leaves a null pointer that \<open>suffix_object\<close>
  follows.\<close>

fun fill_array ::
  "('x \<Rightarrow> 'd store \<Rightarrow> nat option \<times> 'd store) \<Rightarrow> nat \<Rightarrow> bool \<Rightarrow> nat option \<Rightarrow> 'x list \<Rightarrow> 'd store \<Rightarrow> 'd store option" where
  "fill_array mk a first p [] s = Some s"
| "fill_array mk a first p (x # xs) s =
     (case mk x s of
        (n, s) \<Rightarrow>
          Option.bind
            (if first then upd_node a (\<lambda>m. m\<lparr>ch := n\<rparr>) s
             else (case (p, n) of (Some p, Some n) \<Rightarrow> suffix_object p n s | _ \<Rightarrow> None))
            (fill_array mk a False n xs))"

definition create_array ::
  "'d henv \<Rightarrow> ('x \<Rightarrow> 'd store \<Rightarrow> nat option \<times> 'd store) \<Rightarrow> 'x list \<Rightarrow> 'd store \<Rightarrow> (nat option \<times> 'd store) option" where
  "create_array env mk xs s =
     (case cJSON_CreateArray env s of
        (None, s) \<Rightarrow> Some (None, s)
      | (Some a, s) \<Rightarrow> map_option (\<lambda>s. (Some a, s)) (fill_array mk a True None xs s))"

definition cJSON_CreateIntArray :: "'d henv \<Rightarrow> int list \<Rightarrow> 'd store \<Rightarrow> (nat option \<times> 'd store) option" where
  "cJSON_CreateIntArray env = create_array env (\<lambda>i. cJSON_CreateNumber env (fp_of_int env i))"

text \<open>The elements of the \<open>float\<close> array are given as the doubles they are converted to.\<close>

definition cJSON_CreateFloatArray :: "'d henv \<Rightarrow> 'd list \<Rightarrow> 'd store \<Rightarrow> (nat option \<times> 'd store) option" where
  "cJSON_CreateFloatArray env = create_array env (cJSON_CreateNumber env)"

definition cJSON_CreateDoubleArray :: "'d henv \<Rightarrow> 'd list \<Rightarrow> 'd store \<Rightarrow> (nat option \<times> 'd store) option" where
  "cJSON_CreateDoubleArray env = create_array env (cJSON_CreateNumber env)"

definition cJSON_CreateStringArray :: "'d henv \<Rightarrow> string list \<Rightarrow> 'd store \<Rightarrow> (nat option \<times> 'd store) option" where
  "cJSON_CreateStringArray env = create_array env (cJSON_CreateString env)"

section \<open>Macros\<close>

definition cJSON_AddNullToObject :: "'d henv \<Rightarrow> nat \<Rightarrow> string \<Rightarrow> 'd store \<Rightarrow> 'd store option" where
  "cJSON_AddNullToObject env obj name s = (case cJSON_CreateNull env s of (i, s) \<Rightarrow> cJSON_AddItemToObject env obj name i s)"

definition cJSON_AddTrueToObject :: "'d henv \<Rightarrow> nat \<Rightarrow> string \<Rightarrow> 'd store \<Rightarrow> 'd store option" where
  "cJSON_AddTrueToObject env obj name s = (case cJSON_CreateTrue env s of (i, s) \<Rightarrow> cJSON_AddItemToObject env obj name i s)"

definition cJSON_AddFalseToObject :: "'d henv \<Rightarrow> nat \<Rightarrow> string \<Rightarrow> 'd store \<Rightarrow> 'd store option" where
  "cJSON_AddFalseToObject env obj name s = (case cJSON_CreateFalse env s of (i, s) \<Rightarrow> cJSON_AddItemToObject env obj name i s)"

definition cJSON_AddBoolToObject :: "'d henv \<Rightarrow> nat \<Rightarrow> string \<Rightarrow> bool \<Rightarrow> 'd store \<Rightarrow> 'd store option" where
  "cJSON_AddBoolToObject env obj name b s = (case cJSON_CreateBool env b s of (i, s) \<Rightarrow> cJSON_AddItemToObject env obj name i s)"

definition cJSON_AddNumberToObject :: "'d henv \<Rightarrow> nat \<Rightarrow> string \<Rightarrow> 'd \<Rightarrow> 'd store \<Rightarrow> 'd store option" where
  "cJSON_AddNumberToObject env obj name n s = (case cJSON_CreateNumber env n s of (i, s) \<Rightarrow> cJSON_AddItemToObject env obj name i s)"

definition cJSON_AddStringToObject :: "'d henv \<Rightarrow> nat \<Rightarrow> string \<Rightarrow> string \<Rightarrow> 'd store \<Rightarrow> 'd store option" where
  "cJSON_AddStringToObject env obj name str s = (case cJSON_CreateString env str s of (i, s) \<Rightarrow> cJSON_AddItemToObject env obj name i s)"

text \<open>For an \<open>int\<close> value.\<close>

definition cJSON_SetIntValue :: "'d henv \<Rightarrow> nat option \<Rightarrow> int \<Rightarrow> 'd store \<Rightarrow> 'd store option" where
  "cJSON_SetIntValue env obj val s =
     (case obj of
        None \<Rightarrow> Some s
      | Some a \<Rightarrow> upd_node a (\<lambda>n. n\<lparr>nvaluedouble := fp_of_int env val, nvalueint := fp_to_int env (fp_of_int env val)\<rparr>) s)"

section \<open>Duplication\<close>

text \<open>With fuel for the depth of the recursion and the length of the chains; \<open>None\<close> is a fault or the end
  of the fuel. The strings of a node that could not be copied are part of the node that is deleted.\<close>

definition dup_field :: "'d henv \<Rightarrow> string option \<Rightarrow> 'd store \<Rightarrow> string option \<times> bool \<times> 'd store" where
  "dup_field env f s =
     (case f of
        None \<Rightarrow> (None, True, s)
      | Some t \<Rightarrow> (case dup_string env t s of (d, s) \<Rightarrow> (d, d \<noteq> None, s)))"

fun cJSON_Duplicate :: "nat \<Rightarrow> 'd henv \<Rightarrow> nat option \<Rightarrow> bool \<Rightarrow> 'd store \<Rightarrow> (nat option \<times> 'd store) option"
  and dup_children :: "nat \<Rightarrow> 'd henv \<Rightarrow> nat \<Rightarrow> nat option \<Rightarrow> nat option \<Rightarrow> 'd store \<Rightarrow> (nat option \<times> 'd store) option" where
  "cJSON_Duplicate 0 env item rec s = None"
| "cJSON_Duplicate (Suc f) env item rec s =
     (case item of
        None \<Rightarrow> Some (None, s)
      | Some a \<Rightarrow>
          (case new_item env s of
             (None, s) \<Rightarrow> Some (None, s)
           | (Some new, s) \<Rightarrow>
               Option.bind (nodes s a) (\<lambda>n.
               Option.bind (upd_node new (\<lambda>m. m\<lparr>ntype := unset_bit 8 (ntype n), nvalueint := nvalueint n,
                                                nvaluedouble := nvaluedouble n\<rparr>) s) (\<lambda>s.
               case dup_field env (nvaluestring n) s of
                 (d, ok, s) \<Rightarrow>
                   Option.bind (upd_node new (\<lambda>m. m\<lparr>nvaluestring := d\<rparr>) s) (\<lambda>s.
                   if \<not> ok then map_option (\<lambda>s. (None, s)) (cJSON_Delete (Some new) s)
                   else
                     (case dup_field env (nstring n) s of
                        (d, ok, s) \<Rightarrow>
                          Option.bind (upd_node new (\<lambda>m. m\<lparr>nstring := d\<rparr>) s) (\<lambda>s.
                          if \<not> ok then map_option (\<lambda>s. (None, s)) (cJSON_Delete (Some new) s)
                          else if \<not> rec then Some (Some new, s)
                          else dup_children f env new (ch n) None s)))))))"
| "dup_children 0 env new cptr nptr s = None"
| "dup_children (Suc f) env new cptr nptr s =
     (case cptr of
        None \<Rightarrow> Some (Some new, s)
      | Some c \<Rightarrow>
          Option.bind (cJSON_Duplicate f env (Some c) True s) (\<lambda>(newchild, s).
          case newchild of
            None \<Rightarrow> map_option (\<lambda>s. (None, s)) (cJSON_Delete (Some new) s)
          | Some k \<Rightarrow>
              Option.bind (case nptr of
                 Some p \<Rightarrow> suffix_object p k s
               | None \<Rightarrow> upd_node new (\<lambda>m. m\<lparr>ch := Some k\<rparr>) s) (\<lambda>s.
              Option.bind (nodes s c) (\<lambda>n. dup_children f env new (nx n) (Some k) s))))"

section \<open>Chains\<close>

text \<open>A doubly linked segment from \<open>p\<close> to \<open>q\<close> whose first node points back to \<open>pr\<close>.\<close>

primrec seg :: "(nat \<Rightarrow> 'd node option) \<Rightarrow> nat option \<Rightarrow> nat option \<Rightarrow> nat list \<Rightarrow> nat option \<Rightarrow> bool" where
  "seg h pr p [] q = (p = q)"
| "seg h pr p (a # as) q =
     (p = Some a \<and> (\<exists>n. h a = Some n \<and> pv n = pr \<and> seg h (Some a) (nx n) as q))"

abbreviation chain :: "(nat \<Rightarrow> 'd node option) \<Rightarrow> nat option \<Rightarrow> nat list \<Rightarrow> bool" where
  "chain h p as \<equiv> seg h None p as None"

definition lastp :: "nat option \<Rightarrow> nat list \<Rightarrow> nat option" where
  "lastp pr as = (if as = [] then pr else Some (last as))"

text \<open>An array or object at address \<open>a\<close> with the items \<open>as\<close>.\<close>

definition array_at :: "'d store \<Rightarrow> nat \<Rightarrow> nat list \<Rightarrow> bool" where
  "array_at s a as \<longleftrightarrow> distinct (a # as) \<and> (\<exists>n. nodes s a = Some n \<and> chain (nodes s) (ch n) as)"

lemma lastp_simps [simp]: "lastp pr [] = pr" "lastp pr (xs @ [x]) = Some x" "lastp (Some a) xs = Some (last (a # xs))"
  by (auto simp: lastp_def)

lemma seg_frame [simp]: "b \<notin> set as \<Longrightarrow> seg (h(b := v)) pr p as q = seg h pr p as q"
  by (induction as arbitrary: pr p) auto

lemma seg_append: "seg h pr p (xs @ ys) q \<longleftrightarrow> (\<exists>r. seg h pr p xs r \<and> seg h (lastp pr xs) r ys q)"
  by (induction xs arbitrary: pr p) (auto simp: lastp_def)

lemma seg_nodes: "seg h pr p as q \<Longrightarrow> a \<in> set as \<Longrightarrow> h a \<noteq> None"
  by (induction as arbitrary: pr p) auto

lemma size_loop_seg: "seg (nodes s) pr p as None \<Longrightarrow> size_loop s p i = Some (i + int (length as))"
proof (induction as arbitrary: pr p i)
  case Nil
  then show ?case by (subst size_loop.simps) simp
next
  case (Cons a as)
  then show ?case by (subst size_loop.simps) auto
qed

lemma item_loop_seg:
  "seg (nodes s) pr p as None \<Longrightarrow>
   item_loop s p i = Some (if nat i < length as then Some (as ! nat i) else None)"
proof (induction as arbitrary: pr p i)
  case Nil
  then show ?case by (subst item_loop.simps) simp
next
  case (Cons a as)
  then obtain n where n: "p = Some a" "nodes s a = Some n" "seg (nodes s) (Some a) (nx n) as None" by auto
  show ?case
  proof (cases "i > 0")
    case True
    then have "nat i = Suc (nat (i - 1))" by simp
    then show ?thesis using n Cons.IH [OF n(3), of "i - 1"] True by (subst item_loop.simps) simp
  next
    case False
    then show ?thesis using n by (subst item_loop.simps) simp
  qed
qed

lemma last_loop_seg: "seg (nodes s) pr (Some a) (a # as) None \<Longrightarrow> last_loop s a = Some (last (a # as))"
proof (induction as arbitrary: pr a)
  case Nil
  then show ?case by (subst last_loop.simps) auto
next
  case (Cons b as)
  then obtain n where "nodes s a = Some n" "nx n = Some b" "seg (nodes s) (Some a) (Some b) (b # as) None" by auto
  then show ?case using Cons.IH [of "Some a" b] by (subst last_loop.simps) simp
qed

text \<open>The names of the items, and the first item with a name.\<close>

definition named :: "'d store \<Rightarrow> string option \<Rightarrow> nat \<Rightarrow> bool" where
  "named s str a \<longleftrightarrow> (\<exists>n. nodes s a = Some n \<and> cJSON_strcasecmp (nstring n) str = 0)"

fun find_named :: "'d store \<Rightarrow> string option \<Rightarrow> nat list \<Rightarrow> nat option" where
  "find_named s str [] = None"
| "find_named s str (a # as) = (if named s str a then Some 0 else map_option Suc (find_named s str as))"

lemma find_named_less: "find_named s str as = Some k \<Longrightarrow> k < length as"
  by (induction as arbitrary: k) (auto split: if_splits)

lemma name_loop_seg:
  "seg (nodes s) pr p as None \<Longrightarrow>
   name_loop s p str i = Some (case find_named s str as of None \<Rightarrow> (None, i + int (length as)) | Some k \<Rightarrow> (Some (as ! k), i + int k))"
proof (induction as arbitrary: pr p i)
  case Nil
  then show ?case by (subst name_loop.simps) simp
next
  case (Cons a as)
  then obtain n where n: "p = Some a" "nodes s a = Some n" "seg (nodes s) (Some a) (nx n) as None" by auto
  then show ?case using Cons.IH [OF n(3), of "i + 1"]
    by (subst name_loop.simps) (auto simp: named_def split: option.splits)
qed

section \<open>Arrays\<close>

lemma array_atD:
  assumes "array_at s a as"
  obtains n where "nodes s a = Some n" "chain (nodes s) (ch n) as" "a \<notin> set as" "distinct as"
  using assms by (auto simp: array_at_def)

lemma array_size: "array_at s a as \<Longrightarrow> cJSON_GetArraySize a s = Some (int (length as))"
  by (auto simp: array_at_def cJSON_GetArraySize_def size_loop_seg)

lemma array_item:
  "array_at s a as \<Longrightarrow> cJSON_GetArrayItem a i s = Some (if nat i < length as then Some (as ! nat i) else None)"
  by (auto simp: array_at_def cJSON_GetArrayItem_def item_loop_seg)

lemma array_add:
  assumes "array_at s a as" "nodes s i = Some m" "nx m = None" "pv m = None" "i \<notin> set (a # as)"
  shows "\<exists>s'. cJSON_AddItemToArray a (Some i) s = Some s' \<and> array_at s' a (as @ [i]) \<and>
    (\<forall>b. b \<notin> set (a # i # as) \<longrightarrow> nodes s' b = nodes s b) \<and> mallocs s' = mallocs s"
  using assms(1)
proof (rule array_atD)
  fix n assume n: "nodes s a = Some n" "chain (nodes s) (ch n) as" "a \<notin> set as" "distinct as"
  show ?thesis
  proof (cases as rule: rev_cases)
    case Nil
    then show ?thesis using n assms
      by (auto simp: cJSON_AddItemToArray_def upd_node_def set_node_def array_at_def)
  next
    case (snoc xs x)
    then obtain c cs where as: "as = c # cs" by (metis append_is_Nil_conv list.exhaust list.discI)
    have "last (c # cs) = x" using as snoc by (metis last_snoc)
    then have c: "ch n = Some c" and "last_loop s c = Some x" using n(2) last_loop_seg [of s None c cs] as by auto
    moreover obtain k where k: "nodes s x = Some k" "seg (nodes s) None (ch n) xs (Some x)" "pv k = lastp None xs" "nx k = None"
      using n(2) snoc by (auto simp: seg_append)
    ultimately show ?thesis using n assms snoc
      by (auto simp: cJSON_AddItemToArray_def suffix_object_def upd_node_def set_node_def array_at_def seg_append)
  qed
qed

lemma seg_split:
  assumes "seg h pr p (xs @ c # ys) None" "h c = Some m"
  shows "pv m = lastp pr xs" "nx m = (if ys = [] then None else Some (hd ys))" "seg h pr p xs (Some c)"
    "seg h (Some c) (nx m) ys None"
  using assms by (auto simp: seg_append neq_Nil_conv)

lemma array_detach:
  assumes "array_at s a (xs @ c # ys)"
  shows "\<exists>s' m. cJSON_DetachItemFromArray a (int (length xs)) s = Some (Some c, s') \<and> array_at s' a (xs @ ys) \<and>
    nodes s c = Some m \<and> nodes s' c = Some (m\<lparr>nx := None, pv := None\<rparr>) \<and>
    (\<forall>b. b \<notin> set (a # xs @ c # ys) \<longrightarrow> nodes s' b = nodes s b) \<and> mallocs s' = mallocs s"
  using assms
proof (rule array_atD)
  fix n assume n: "nodes s a = Some n" "chain (nodes s) (ch n) (xs @ c # ys)" "a \<notin> set (xs @ c # ys)" "distinct (xs @ c # ys)"
  obtain m where m: "nodes s c = Some m" using seg_nodes [OF n(2), of c] by auto
  note sp = seg_split [OF n(2) m]
  have loop: "item_loop s (ch n) (int (length xs)) = Some (Some c)" using item_loop_seg [OF n(2)] by simp
  show ?thesis
  proof (cases xs rule: rev_cases)
    case xs: Nil
    show ?thesis
    proof (cases ys)
      case ys: Nil
      show ?thesis using n m sp loop xs ys
        by (auto simp: cJSON_DetachItemFromArray_def upd_node_def set_node_def array_at_def)
    next
      case ys: (Cons y zs)
      show ?thesis using n m sp loop xs ys
        by (auto simp: cJSON_DetachItemFromArray_def upd_node_def set_node_def array_at_def)
    qed
  next
    case xs: (snoc us u)
    have first: "ch n \<noteq> Some c" using sp(3) n(4) xs by (cases us) auto
    show ?thesis
    proof (cases ys)
      case ys: Nil
      show ?thesis using n m sp loop xs ys first
        by (auto simp: cJSON_DetachItemFromArray_def upd_node_def set_node_def array_at_def seg_append)
    next
      case ys: (Cons y zs)
      show ?thesis using n m sp loop xs ys first
        by (auto simp: cJSON_DetachItemFromArray_def upd_node_def set_node_def array_at_def seg_append)
    qed
  qed
qed

section \<open>Deleting\<close>

text \<open>The nodes a chain owns: its items with all that hangs below them, references apart.\<close>

inductive owns :: "(nat \<Rightarrow> 'd node option) \<Rightarrow> nat option \<Rightarrow> nat list \<Rightarrow> bool" for h where
  owns_nil: "owns h None []"
| owns_node: "h a = Some n \<Longrightarrow> owns h (if is_ref n then None else ch n) cs \<Longrightarrow> owns h (nx n) ns \<Longrightarrow>
    distinct (a # cs @ ns) \<Longrightarrow> owns h (Some a) (a # cs @ ns)"

lemma owns_frame: "owns h p ns \<Longrightarrow> (\<forall>b \<in> set ns. h' b = h b) \<Longrightarrow> owns h' p ns"
  by (induction rule: owns.induct) (auto intro!: owns.intros)

lemma delete_nil [simp]: "cJSON_Delete None s = Some s"
  by (subst cJSON_Delete.simps) simp

lemma store_eqI: "nodes s = nodes t \<Longrightarrow> mallocs s = mallocs t \<Longrightarrow> s = (t :: 'd store)"
  by simp

lemma delete_owned:
  "owns h c ns \<Longrightarrow> (\<forall>b \<in> set ns. nodes s b = h b) \<Longrightarrow> cJSON_Delete c s = Some (s\<lparr>nodes := nodes s |` (- set ns)\<rparr>)"
proof (induction arbitrary: s rule: owns.induct)
  case owns_nil
  then show ?case by simp
next
  case (owns_node a n cs ns)
  let ?s1 = "s\<lparr>nodes := nodes s |` (- set cs)\<rparr>"
  let ?s2 = "free_node a ?s1"
  have a: "nodes s a = Some n" using owns_node by simp
  have sub: "(if \<not> is_ref n \<and> ch n \<noteq> None then cJSON_Delete (ch n) s else Some s) = Some ?s1"
  proof (cases "\<not> is_ref n \<and> ch n \<noteq> None")
    case True
    then show ?thesis using owns_node.IH(1) [of s] owns_node.prems by simp
  next
    case False
    then have "cs = []" using owns_node.hyps(2) by (auto elim: owns.cases split: if_splits)
    then show ?thesis using False by (auto simp: restrict_map_def)
  qed
  have "cJSON_Delete (nx n) ?s2 = Some (?s2\<lparr>nodes := nodes ?s2 |` (- set ns)\<rparr>)"
    using owns_node.hyps(4) owns_node.prems by (intro owns_node.IH(2)) (auto simp: free_node_def restrict_map_def)
  moreover have "?s2\<lparr>nodes := nodes ?s2 |` (- set ns)\<rparr> = s\<lparr>nodes := nodes s |` (- set (a # cs @ ns))\<rparr>"
    by (rule store_eqI) (auto simp: free_node_def restrict_map_def)
  moreover have "nodes ?s1 a = Some n" using a owns_node.hyps(4) by simp
  ultimately show ?case using a sub by (subst cJSON_Delete.simps) simp
qed

text \<open>C10: Deleting a chain frees exactly the nodes it owns, each once, and ends; all other nodes stay, in
  particular what references point to.\<close>

theorem delete_frees_owned:
  assumes "owns (nodes s) c ns"
  shows "\<exists>s'. cJSON_Delete c s = Some s' \<and> (\<forall>b. nodes s' b = (if b \<in> set ns then None else nodes s b)) \<and>
    (\<forall>b \<in> set ns. nodes s b \<noteq> None)"
proof -
  have "\<forall>b \<in> set ns. nodes s b \<noteq> None" using assms by (induction rule: owns.induct) auto
  then show ?thesis using delete_owned [OF assms, of s] by (auto simp: restrict_map_def)
qed

text \<open>An array with one number and a reference to another item.\<close>

definition demo_node :: "unit node" where
  "demo_node = \<lparr>nx = None, pv = None, ch = None, ntype = 3, nvaluestring = None, nvalueint = 1, nvaluedouble = (), nstring = None\<rparr>"

definition demo_store :: "unit store" where
  "demo_store = \<lparr>nodes = [1 \<mapsto> demo_node\<lparr>ntype := 5, ch := Some 2\<rparr>, 2 \<mapsto> demo_node\<lparr>nx := Some 3\<rparr>,
     3 \<mapsto> demo_node\<lparr>ntype := 256 + 5, ch := Some 4, pv := Some 2\<rparr>, 4 \<mapsto> demo_node], mallocs = 0\<rparr>"

lemma demo_owned: "owns (nodes demo_store) (Some 1) ([1] @ ([2] @ [] @ ([3] @ [] @ [])) @ [])"
  using owns_node [of "nodes demo_store" 1 "demo_node\<lparr>ntype := 5, ch := Some 2\<rparr>" "[2] @ [] @ ([3] @ [] @ [])" "[]"]
    owns_node [of "nodes demo_store" 2 "demo_node\<lparr>nx := Some 3\<rparr>" "[]" "[3] @ [] @ []"]
    owns_node [of "nodes demo_store" 3 "demo_node\<lparr>ntype := 256 + 5, ch := Some 4, pv := Some 2\<rparr>" "[]" "[]"]
    owns_nil [of "nodes demo_store"]
  by (simp add: demo_store_def demo_node_def is_ref_def bit_iff_odd)

text \<open>The item behind the reference stays.\<close>

theorem delete_frees_owned_witness:
  "\<exists>s'. cJSON_Delete (Some 1) demo_store = Some s' \<and> nodes s' 3 = None \<and> nodes s' 4 = Some demo_node"
  using delete_frees_owned [OF demo_owned] by (auto simp: demo_store_def)

section \<open>Replacing\<close>

lemma seg_restrict: "set as \<inter> A = {} \<Longrightarrow> seg (h |` (- A)) pr p as q = seg h pr p as q"
  by (induction as arbitrary: pr p) auto

lemma replace_links:
  assumes "array_at s a (xs @ c # ys)" "nodes s w = Some k" "w \<notin> set (a # xs @ c # ys)" "nodes s c = Some m"
  shows "\<exists>s'. cJSON_ReplaceItemInArray a (int (length xs)) w s = cJSON_Delete (Some c) s' \<and>
    array_at s' a (xs @ w # ys) \<and> nodes s' c = Some (m\<lparr>nx := None, pv := None\<rparr>) \<and>
    (\<forall>b. b \<notin> set (a # w # xs @ c # ys) \<longrightarrow> nodes s' b = nodes s b)"
  using assms(1)
proof (rule array_atD)
  fix n assume n: "nodes s a = Some n" "chain (nodes s) (ch n) (xs @ c # ys)" "a \<notin> set (xs @ c # ys)" "distinct (xs @ c # ys)"
  note sp = seg_split [OF n(2) assms(4)]
  have loop: "item_loop s (ch n) (int (length xs)) = Some (Some c)" using item_loop_seg [OF n(2)] by simp
  note defs = cJSON_ReplaceItemInArray_def upd_node_def set_node_def array_at_def
  show ?thesis
  proof (cases xs rule: rev_cases)
    case xs: Nil
    show ?thesis
    proof (cases ys)
      case ys: Nil
      show ?thesis using n assms(2-4) sp loop xs ys by (auto simp: defs)
    next
      case ys: (Cons y zs)
      show ?thesis using n assms(2-4) sp loop xs ys by (auto simp: defs)
    qed
  next
    case xs: (snoc us u)
    have first: "ch n \<noteq> Some c" using sp(3) n(4) xs by (cases us) auto
    show ?thesis
    proof (cases ys)
      case ys: Nil
      show ?thesis using n assms(2-4) sp loop xs ys first by (auto simp: defs seg_append)
    next
      case ys: (Cons y zs)
      show ?thesis using n assms(2-4) sp loop xs ys first by (auto simp: defs seg_append)
    qed
  qed
qed

lemma array_replace:
  assumes "array_at s a (xs @ c # ys)" "nodes s w = Some k" "w \<notin> set (a # xs @ c # ys)"
    "nodes s c = Some m" "owns (nodes s) (if is_ref m then None else ch m) cs" "set cs \<inter> set (a # w # xs @ c # ys) = {}"
  shows "\<exists>s'. cJSON_ReplaceItemInArray a (int (length xs)) w s = Some s' \<and> array_at s' a (xs @ w # ys) \<and>
    (\<forall>b \<in> set (c # cs). nodes s' b = None) \<and>
    (\<forall>b. b \<notin> set (a # w # xs @ c # ys) \<union> set cs \<longrightarrow> nodes s' b = nodes s b)"
proof -
  obtain s1 where s1: "cJSON_ReplaceItemInArray a (int (length xs)) w s = cJSON_Delete (Some c) s1"
    "array_at s1 a (xs @ w # ys)" "nodes s1 c = Some (m\<lparr>nx := None, pv := None\<rparr>)"
    "\<forall>b. b \<notin> set (a # w # xs @ c # ys) \<longrightarrow> nodes s1 b = nodes s b"
    using replace_links [OF assms(1-4)] by blast
  let ?m = "m\<lparr>nx := None, pv := None\<rparr>"
  have "\<forall>b \<in> set cs. nodes s1 b = nodes s b" using s1(4) assms(6) by blast
  from owns_frame [OF assms(5) this] have "owns (nodes s1) (if is_ref ?m then None else ch ?m) cs"
    by (simp add: is_ref_def split: if_splits)
  moreover have "c \<notin> set cs" "distinct cs" using assms(5,6) by (auto elim: owns.cases)
  ultimately have "owns (nodes s1) (Some c) (c # cs @ [])" using s1(3) by (intro owns_node) (auto intro: owns_nil)
  from delete_owned [OF this] have del: "cJSON_Delete (Some c) s1 = Some (s1\<lparr>nodes := nodes s1 |` (- set (c # cs))\<rparr>)" by simp
  have "c \<notin> set (a # xs @ w # ys)" using assms(1,3) by (auto simp: array_at_def)
  then have dis: "set (a # xs @ w # ys) \<inter> set (c # cs) = {}" using assms(6) by auto
  have "array_at (s1\<lparr>nodes := nodes s1 |` (- set (c # cs))\<rparr>) a (xs @ w # ys)"
    using s1(2) dis seg_restrict [of "xs @ w # ys" "set (c # cs)" "nodes s1"] by (auto simp: array_at_def restrict_map_def)
  then show ?thesis using s1 del by (auto simp: restrict_map_def)
qed



section \<open>Objects\<close>

lemma tolower_unsigned: "tolower (int (code c)) = tolower (int (code d)) \<longleftrightarrow> tolower (schar c) = tolower (schar d)"
  using code_less_256 [of c] code_less_256 [of d] by (auto simp: tolower_def schar_def)

declare strcasecmp_loop.simps [simp del]

lemma schar_nul: "schar (CHR 0x00) = 0"
  by simp

lemma strcasecmp_zero:
  "CHR 0x00 \<notin> set s1 \<Longrightarrow> CHR 0x00 \<notin> set s2 \<Longrightarrow>
   strcasecmp_loop s1 s2 = 0 \<longleftrightarrow> map (tolower \<circ> schar) s1 = map (tolower \<circ> schar) s2"
proof (induction s1 arbitrary: s2)
  case Nil
  then show ?case by (subst strcasecmp_loop.simps) (cases s2; auto simp: cur_def tolower_unsigned schar_nul comp_def)
next
  case (Cons c s1)
  then show ?case by (subst strcasecmp_loop.simps) (cases s2; auto simp: cur_def tolower_unsigned schar_nul comp_def)
qed

lemma cJSON_strcasecmp_zero:
  assumes "CHR 0x00 \<notin> set x" "CHR 0x00 \<notin> set y"
  shows "cJSON_strcasecmp (Some x) (Some y) = 0 \<longleftrightarrow> toLower x = toLower y"
  using strcasecmp_zero [OF assms] by (simp add: cJSON_strcasecmp_def flip: map_schar_eq toLower_schar)

lemma GetObjectItem_named:
  assumes "array_at s a as"
  shows "cJSON_GetObjectItem a str s = Some (map_option ((!) as) (find_named s str as))"
  using assms
proof (rule array_atD)
  fix n assume "nodes s a = Some n" "chain (nodes s) (ch n) as"
  then show ?thesis using name_loop_seg [of s None "ch n" as str 0]
    by (auto simp: cJSON_GetObjectItem_def split: option.splits)
qed

lemma find_named_append: "find_named s str (as @ bs) =
    (case find_named s str as of Some k \<Rightarrow> Some k | None \<Rightarrow> map_option ((+) (length as)) (find_named s str bs))"
  by (induction as) (cases "find_named s str bs"; auto split: option.splits)+

lemma find_named_cong: "(\<And>a. a \<in> set as \<Longrightarrow> named s str a = named t str a) \<Longrightarrow> find_named s str as = find_named t str as"
  by (induction as) auto

text \<open>The node that an item becomes when it is appended.\<close>

lemma array_add_string:
  assumes "array_at s a as" "nodes s i = Some m" "nx m = None" "pv m = None" "i \<notin> set (a # as)"
    "cJSON_AddItemToArray a (Some i) s = Some s'"
  shows "\<forall>b. map_option nstring (nodes s' b) = map_option nstring (nodes s b)"
  using assms(1)
proof (rule array_atD)
  fix n assume n: "nodes s a = Some n" "chain (nodes s) (ch n) as"
  show ?thesis
    using assms n by (auto simp: cJSON_AddItemToArray_def suffix_object_def upd_node_def set_node_def bind_eq_Some_conv
        split: option.splits if_splits)
qed

text \<open>An item that is added to an object under a name is found under that name, in any case of its
  letters, unless an item with that name came before, which is then found as before; the lookup under
  every other name gives what it gave before.\<close>

theorem object_add_lookup:
  assumes "array_at s a as" "nodes s i = Some m" "nx m = None" "pv m = None" "i \<notin> set (a # as)"
    "env_malloc env (mallocs s)"
  shows "\<exists>s'. cJSON_AddItemToObject env a str (Some i) s = Some s' \<and> array_at s' a (as @ [i]) \<and>
    (\<forall>q. cJSON_GetObjectItem a (Some q) s' =
      (if cJSON_GetObjectItem a (Some q) s = Some None \<and> cJSON_strcasecmp (Some str) (Some q) = 0
       then Some (Some i) else cJSON_GetObjectItem a (Some q) s))"
proof -
  let ?s = "s\<lparr>mallocs := Suc (mallocs s), nodes := (nodes s)(i \<mapsto> m\<lparr>nstring := Some str\<rparr>)\<rparr>"
  have arr: "array_at ?s a as" using assms(1,5) by (auto simp: array_at_def)
  have node: "nodes ?s i = Some (m\<lparr>nstring := Some str\<rparr>)" by simp
  obtain s' where s': "cJSON_AddItemToArray a (Some i) ?s = Some s'" "array_at s' a (as @ [i])"
    using array_add [OF arr node] assms(3-5) by auto
  have names: "\<forall>b. map_option nstring (nodes s' b) = map_option nstring (nodes ?s b)"
    by (rule array_add_string [OF arr node _ _ _ s'(1)]) (use assms(3-5) in auto)
  have named: "named s' q b = named ?s q b" for q b
  proof -
    have "named u q b \<longleftrightarrow> (\<exists>x. map_option nstring (nodes u b) = Some x \<and> cJSON_strcasecmp x q = 0)" for u :: "'a store"
      by (auto simp: named_def)
    then show ?thesis by (simp only: names)
  qed
  have old: "find_named s' q as = find_named s q as" for q
  proof (rule find_named_cong)
    fix b assume "b \<in> set as"
    then have "b \<noteq> i" using assms(5) by auto
    then show "named s' q b = named s q b" unfolding named by (simp add: named_def)
  qed
  have new: "named s' q i \<longleftrightarrow> cJSON_strcasecmp (Some str) q = 0" for q by (simp add: named) (simp add: named_def)
  have "cJSON_AddItemToObject env a str (Some i) s = Some s'"
    using assms(2,6) s'(1) by (simp add: cJSON_AddItemToObject_def dup_string_def upd_node_def set_node_def)
  moreover have "cJSON_GetObjectItem a (Some q) s' =
      (if cJSON_GetObjectItem a (Some q) s = Some None \<and> cJSON_strcasecmp (Some str) (Some q) = 0
       then Some (Some i) else cJSON_GetObjectItem a (Some q) s)" for q
    unfolding GetObjectItem_named [OF s'(2)] GetObjectItem_named [OF assms(1)]
    by (auto simp: find_named_append old new nth_append dest: find_named_less split: option.split)
  ultimately show ?thesis using s'(2) by blast
qed

text \<open>Adding item 4 to array 1 of the demonstration under the name \<open>Key\<close>.\<close>

definition demo_env :: "unit henv" where
  "demo_env = \<lparr>env_malloc = \<lambda>_. True, env_uc = 0, env_uc2 = 0, fp_of_int = \<lambda>_. (), fp_add = \<lambda>_ _. (), fp_sub = \<lambda>_ _. (),
     fp_mul = \<lambda>_ _. (), fp_pow10 = \<lambda>_. (), fp_to_int = \<lambda>_. 0, fp_abs = \<lambda>_. (), fp_floor = \<lambda>_. (),
     fp_le = \<lambda>_ _. True, fp_lt = \<lambda>_ _. False, fp_epsilon = (), fp_1e60 = (), fp_1em6 = (), fp_1e9 = (),
     fp_fmt_0f = \<lambda>_. ''0'', fp_fmt_e = \<lambda>_. ''0'', fp_fmt_f = \<lambda>_. ''0'', env_addr = \<lambda>k. k + 100\<rparr>"

theorem object_add_lookup_witness:
  "\<exists>s'. cJSON_AddItemToObject demo_env 1 ''Key'' (Some 4) demo_store = Some s' \<and> array_at s' 1 [2, 3, 4]"
proof -
  have "array_at demo_store 1 [2, 3]" by (simp add: array_at_def demo_store_def demo_node_def)
  from object_add_lookup [OF this, of 4 demo_node demo_env "''Key''"] show ?thesis
    by (auto simp: demo_store_def demo_node_def demo_env_def)
qed

end
