(* ===== verification/BlmJson.thy ===== *)
theory BlmJson
  imports CJson_Heap
begin

text \<open>
  The class \<open>Json\<close> of \<open>src/blmutil.cpp\<close>, a view of an item of cJSON that may own it. The parser's tree
  is laid out in the store of linked items; the theorems connect what was parsed with what the methods
  return, and the ownership with the memory.
\<close>

section \<open>Laying out a tree\<close>

text \<open>The items of a list of trees, linked as \<open>parse_array\<close> and \<open>parse_object\<close> link them, at the addresses
  \<open>addr k\<close>, \<open>addr (k + 1)\<close>, and so on.\<close>

fun lay_items :: "(nat \<Rightarrow> nat) \<Rightarrow> nat option \<Rightarrow> 'd cJSON list \<Rightarrow> nat \<Rightarrow> (nat \<Rightarrow> 'd node option)
    \<Rightarrow> nat option \<times> nat \<times> (nat \<Rightarrow> 'd node option)" where
  "lay_items addr pr [] k h = (None, k, h)"
| "lay_items addr pr (cJSON t vs vi vd nm cs # ts) k h =
     (case lay_items addr None cs (Suc k) h of
        (c, k1, h1) \<Rightarrow>
          (case lay_items addr (Some (addr k)) ts k1 h1 of
             (q, k2, h2) \<Rightarrow>
               (Some (addr k), k2, h2(addr k \<mapsto>
                  \<lparr>nx = q, pv = pr, ch = c, ntype = t, nvaluestring = vs, nvalueint = vi, nvaluedouble = vd, nstring = nm\<rparr>))))"

section \<open>The class\<close>

record Json =
  isowned :: bool
  json :: "nat option"
  err :: string

definition Json_new :: Json where
  "Json_new = \<lparr>isowned = False, json = None, err = []\<rparr>"

text \<open>The private constructor.\<close>

definition Json_of :: "nat option \<Rightarrow> Json" where
  "Json_of j = \<lparr>isowned = False, json = j, err = []\<rparr>"

definition Json_destroy :: "Json \<Rightarrow> 'd store \<Rightarrow> 'd store option" where
  "Json_destroy j s = (if json j \<noteq> None \<and> isowned j then cJSON_Delete (json j) s else Some s)"

text \<open>\<open>json->field\<close>\<close>

definition Json_field :: "('d node \<Rightarrow> 'x) \<Rightarrow> Json \<Rightarrow> 'd store \<Rightarrow> 'x option" where
  "Json_field f j s = Option.bind (json j) (\<lambda>a. map_option f (nodes s a))"

definition Json_getName :: "Json \<Rightarrow> 'd store \<Rightarrow> string option option" where
  "Json_getName = Json_field nstring"

definition Json_getInt :: "Json \<Rightarrow> 'd store \<Rightarrow> int option" where
  "Json_getInt = Json_field nvalueint"

definition Json_getString :: "Json \<Rightarrow> 'd store \<Rightarrow> string option option" where
  "Json_getString = Json_field nvaluestring"

definition Json_getDouble :: "Json \<Rightarrow> 'd store \<Rightarrow> 'd option" where
  "Json_getDouble = Json_field nvaluedouble"

definition Json_isValid :: "Json \<Rightarrow> bool" where
  "Json_isValid j = (json j \<noteq> None)"

definition Json_isFalse :: "Json \<Rightarrow> 'd store \<Rightarrow> bool option" where
  "Json_isFalse = Json_field (\<lambda>n. ntype n = cJSON_False)"

definition Json_isTrue :: "Json \<Rightarrow> 'd store \<Rightarrow> bool option" where
  "Json_isTrue = Json_field (\<lambda>n. ntype n = cJSON_True)"

definition Json_isNull :: "Json \<Rightarrow> 'd store \<Rightarrow> bool option" where
  "Json_isNull = Json_field (\<lambda>n. ntype n = cJSON_NULL)"

definition Json_isNumber :: "Json \<Rightarrow> 'd store \<Rightarrow> bool option" where
  "Json_isNumber = Json_field (\<lambda>n. ntype n = cJSON_Number)"

definition Json_isString :: "Json \<Rightarrow> 'd store \<Rightarrow> bool option" where
  "Json_isString = Json_field (\<lambda>n. ntype n = cJSON_String)"

definition Json_isArray :: "Json \<Rightarrow> 'd store \<Rightarrow> bool option" where
  "Json_isArray = Json_field (\<lambda>n. ntype n = cJSON_Array)"

definition Json_isObject :: "Json \<Rightarrow> 'd store \<Rightarrow> bool option" where
  "Json_isObject = Json_field (\<lambda>n. ntype n = cJSON_Object)"

definition Json_isMember :: "string option \<Rightarrow> Json \<Rightarrow> 'd store \<Rightarrow> bool option" where
  "Json_isMember name j s = Option.bind (json j) (\<lambda>a. map_option (\<lambda>c. c \<noteq> None) (cJSON_GetObjectItem a name s))"

definition Json_get :: "string option \<Rightarrow> Json \<Rightarrow> 'd store \<Rightarrow> Json option" where
  "Json_get name j s = Option.bind (json j) (\<lambda>a. map_option Json_of (cJSON_GetObjectItem a name s))"

definition Json_getInt_name :: "string option \<Rightarrow> Json \<Rightarrow> 'd store \<Rightarrow> int option" where
  "Json_getInt_name name j s = Option.bind (Json_get name j s) (\<lambda>j. Json_getInt j s)"

definition Json_getDouble_name :: "string option \<Rightarrow> Json \<Rightarrow> 'd store \<Rightarrow> 'd option" where
  "Json_getDouble_name name j s = Option.bind (Json_get name j s) (\<lambda>j. Json_getDouble j s)"

definition Json_getString_name :: "string option \<Rightarrow> Json \<Rightarrow> 'd store \<Rightarrow> string option option" where
  "Json_getString_name name j s = Option.bind (Json_get name j s) (\<lambda>j. Json_getString j s)"

definition Json_getSize :: "Json \<Rightarrow> 'd store \<Rightarrow> int option" where
  "Json_getSize j s = Option.bind (json j) (\<lambda>a. cJSON_GetArraySize a s)"

definition Json_get_at :: "int \<Rightarrow> Json \<Rightarrow> 'd store \<Rightarrow> Json option" where
  "Json_get_at i j s = Option.bind (json j) (\<lambda>a. map_option Json_of (cJSON_GetArrayItem a i s))"

definition Json_getInt_at :: "int \<Rightarrow> Json \<Rightarrow> 'd store \<Rightarrow> int option" where
  "Json_getInt_at i j s = Option.bind (Json_get_at i j s) (\<lambda>j. Json_getInt j s)"

definition Json_getDouble_at :: "int \<Rightarrow> Json \<Rightarrow> 'd store \<Rightarrow> 'd option" where
  "Json_getDouble_at i j s = Option.bind (Json_get_at i j s) (\<lambda>j. Json_getDouble j s)"

definition Json_getString_at :: "int \<Rightarrow> Json \<Rightarrow> 'd store \<Rightarrow> string option option" where
  "Json_getString_at i j s = Option.bind (Json_get_at i j s) (\<lambda>j. Json_getString j s)"

definition Json_getErr :: "Json \<Rightarrow> string" where
  "Json_getErr j = err j"

text \<open>The environment of a parse in a store: its calls of \<open>cJSON_malloc\<close> come after the earlier ones. The
  string cannot be assigned a null error pointer, which a failed allocation leaves.\<close>

definition parse_env :: "'d henv \<Rightarrow> 'd store \<Rightarrow> 'd cenv" where
  "parse_env env s = (cenv.truncate env)\<lparr>env_malloc := \<lambda>k. env_malloc env (mallocs s + k)\<rparr>"

definition Json_parse :: "'d henv \<Rightarrow> string \<Rightarrow> Json \<Rightarrow> 'd store \<Rightarrow> (bool \<times> Json \<times> 'd store) option" where
  "Json_parse env str j s =
     Option.bind (if isowned j \<and> json j \<noteq> None then cJSON_Delete (json j) s else Some s) (\<lambda>s.
     case cJSON_Parse (parse_env env s) str of
       (Ok (t, rest), k) \<Rightarrow>
         (case lay_items (env_addr env) None [t] (mallocs s) (nodes s) of
            (p, _, h) \<Rightarrow> Some (True, j\<lparr>json := p, isowned := True\<rparr>, s\<lparr>nodes := h, mallocs := mallocs s + k\<rparr>))
     | (Fail (Some e), k) \<Rightarrow>
         Some (False, j\<lparr>json := None, isowned := True, err := e\<rparr>, s\<lparr>mallocs := mallocs s + k\<rparr>)
     | (Fail None, k) \<Rightarrow> None
     | (Fault, k) \<Rightarrow> None
     | (NoFuel, k) \<Rightarrow> None)"

section \<open>The layout represents the tree\<close>

text \<open>No item of the trees is a reference; the parser makes none.\<close>

fun no_ref :: "'d cJSON \<Rightarrow> bool" where
  "no_ref (cJSON t vs vi vd nm cs) \<longleftrightarrow> \<not> bit t 8 \<and> (\<forall>c \<in> set cs. no_ref c)"

definition shows_item :: "'d node \<Rightarrow> 'd cJSON \<Rightarrow> bool" where
  "shows_item n t \<longleftrightarrow> ntype n = ctype t \<and> nvaluestring n = valuestring t \<and> nvalueint n = valueint t \<and>
     nvaluedouble n = valuedouble t \<and> nstring n = cstring t"

lemma lay_items_mono: "lay_items addr pr ts k h = (p, k', h') \<Longrightarrow> k \<le> k'"
  by (induction addr pr ts k h arbitrary: p k' h' rule: lay_items.induct) (fastforce split: prod.splits)+

lemma lay_items_frame:
  "lay_items addr pr ts k h = (p, k', h') \<Longrightarrow> a \<notin> addr ` {k..<k'} \<Longrightarrow> h' a = h a"
proof (induction addr pr ts k h arbitrary: p k' h' rule: lay_items.induct)
  case (2 addr pr t vs vi vd nm cs ts k h)
  obtain c k1 h1 where l1: "lay_items addr None cs (Suc k) h = (c, k1, h1)" by (metis prod.exhaust)
  obtain q k2 h2 where l2: "lay_items addr (Some (addr k)) ts k1 h1 = (q, k2, h2)" by (metis prod.exhaust)
  note mono = lay_items_mono [OF l1] lay_items_mono [OF l2]
  from 2(3,4) l1 l2 have "k' = k2" "a \<noteq> addr k" "h' a = h2 a" using mono by auto
  then show ?case using 2(1) [OF l1] 2(2) [OF l1 [symmetric] refl l2] 2(4) mono by force
qed simp

lemma addr_disjoint:
  assumes "inj addr" "addr i \<in> addr ` {k..<k'}"
  shows "k \<le> i \<and> i < k'"
  using assms by (auto dest: injD)

lemma lay_items_seg:
  assumes "inj addr"
  shows "lay_items addr pr ts k h = (p, k', h') \<Longrightarrow>
    \<exists>as. seg h' pr p as None \<and> length as = length ts \<and> set as \<subseteq> addr ` {k..<k'} \<and> distinct as \<and>
      (\<forall>i < length ts. \<exists>n. h' (as ! i) = Some n \<and> shows_item n (ts ! i))"
proof (induction ts arbitrary: pr k h p k' h')
  case (Cons t ts)
  obtain ty vs vi vd nm cs where t: "t = cJSON ty vs vi vd nm cs" by (cases t)
  obtain c k1 h1 where l1: "lay_items addr None cs (Suc k) h = (c, k1, h1)" by (metis prod.exhaust)
  obtain q k2 h2 where l2: "lay_items addr (Some (addr k)) ts k1 h1 = (q, k2, h2)" by (metis prod.exhaust)
  note mono = lay_items_mono [OF l1] lay_items_mono [OF l2]
  obtain as where as: "seg h2 (Some (addr k)) q as None" "length as = length ts" "set as \<subseteq> addr ` {k1..<k2}" "distinct as"
    "\<forall>i < length ts. \<exists>n. h2 (as ! i) = Some n \<and> shows_item n (ts ! i)" using Cons.IH [OF l2] by blast
  have new: "addr k \<notin> set as" using as(3) mono addr_disjoint [OF assms, of k k1 k2] by auto
  have res: "p = Some (addr k)" "k' = k2" "h' = h2(addr k \<mapsto>
      \<lparr>nx = q, pv = pr, ch = c, ntype = ty, nvaluestring = vs, nvalueint = vi, nvaluedouble = vd, nstring = nm\<rparr>)"
    using Cons.prems t l1 l2 by auto
  have "\<exists>n. h' ((addr k # as) ! i) = Some n \<and> shows_item n ((t # ts) ! i)" if "i < length (t # ts)" for i
    using that as(2,5) new res(3) t by (cases i) (auto simp: shows_item_def in_set_conv_nth)
  moreover have "set (addr k # as) \<subseteq> addr ` {k..<k2}" using as(3) mono by fastforce
  moreover have "seg h' pr p (addr k # as) None" using as(1) new by (simp add: res)
  moreover have "length (addr k # as) = length (t # ts)" "distinct (addr k # as)" using as(2,4) new by auto
  ultimately show ?case unfolding res(2) by blast
qed auto

lemma lay_items_owns:
  "lay_items addr pr ts k h = (p, k', h') \<Longrightarrow> inj addr \<Longrightarrow> (\<forall>t \<in> set ts. no_ref t) \<Longrightarrow>
    \<exists>ns. owns h' p ns \<and> set ns = addr ` {k..<k'} \<and> distinct ns"
proof (induction addr pr ts k h arbitrary: p k' h' rule: lay_items.induct [case_names Nil Cons])
  case (Cons addr pr t vs vi vd nm cs ts k h)
  obtain c k1 h1 where l1: "lay_items addr None cs (Suc k) h = (c, k1, h1)" by (metis prod.exhaust)
  obtain q k2 h2 where l2: "lay_items addr (Some (addr k)) ts k1 h1 = (q, k2, h2)" by (metis prod.exhaust)
  note mono = lay_items_mono [OF l1] lay_items_mono [OF l2] and dis = addr_disjoint [OF Cons.prems(2)]
  obtain ms where ms: "owns h1 c ms" "set ms = addr ` {Suc k..<k1}" "distinct ms"
    using Cons.IH(1) [OF l1 Cons.prems(2)] Cons.prems(3) by auto
  obtain ns where ns: "owns h2 q ns" "set ns = addr ` {k1..<k2}" "distinct ns"
    using Cons.IH(2) [OF l1 [symmetric] refl l2 Cons.prems(2)] Cons.prems(3) by auto
  have res: "p = Some (addr k)" "k' = k2" and h': "h' = h2(addr k \<mapsto>
      \<lparr>nx = q, pv = pr, ch = c, ntype = t, nvaluestring = vs, nvalueint = vi, nvaluedouble = vd, nstring = nm\<rparr>)"
    using Cons.prems(1) l1 l2 by auto
  have msk: "addr k \<notin> set ms" using ms(2) dis [of k "Suc k" k1] by auto
  have nsk: "addr k \<notin> set ns" using ns(2) mono dis [of k k1 k2] by auto
  have "h' b = h1 b" if b: "b \<in> set ms" for b
  proof -
    obtain i where "b = addr i" "i < k1" using b ms(2) by auto
    then have "b \<notin> addr ` {k1..<k2}" using dis [of i k1 k2] by auto
    moreover have "b \<noteq> addr k" using msk b by blast
    ultimately show ?thesis using lay_items_frame [OF l2, of b] h' by simp
  qed
  then have o1: "owns h' c ms" by (intro owns_frame [OF ms(1)]) auto
  have "h' b = h2 b" if "b \<in> set ns" for b using that nsk h' by auto
  then have o2: "owns h' q ns" by (intro owns_frame [OF ns(1)]) auto
  have "{Suc k..<k1} \<inter> {k1..<k2} = {}" by auto
  then have "set ms \<inter> set ns = {}" unfolding ms(2) ns(2) by (simp add: image_Int [OF Cons.prems(2), symmetric])
  then have d: "distinct (addr k # ms @ ns)" using ms(3) ns(3) msk nsk by auto
  have "{k..<k2} = insert k ({Suc k..<k1} \<union> {k1..<k2})" using mono by auto
  then have st: "set (addr k # ms @ ns) = addr ` {k..<k2}" using ms(2) ns(2) by (simp add: image_Un)
  have "owns h' (Some (addr k)) (addr k # ms @ ns)"
    by (rule owns_node [OF _ _ _ d]) (use h' o1 o2 Cons.prems(3) in \<open>auto simp: is_ref_def\<close>)
  with d st res show ?case by blast
qed (auto intro: owns_nil)

section \<open>The parser makes no references\<close>

definition res_ok :: "('a \<Rightarrow> bool) \<Rightarrow> 'a outcome \<Rightarrow> bool" where
  "res_ok P r \<longleftrightarrow> (\<forall>a. r = Ok a \<longrightarrow> P a)"

lemma res_ok_simps [simp]: "res_ok P (Ok a) = P a" "res_ok P (Fail e)" "res_ok P Fault" "res_ok P NoFuel"
  by (auto simp: res_ok_def)

lemma res_ok_obind:
  "res_ok P (fst r) \<Longrightarrow> (\<And>a k. P a \<Longrightarrow> res_ok Q (fst (f a k))) \<Longrightarrow> res_ok Q (fst (obind r f))"
  by (cases r; cases "fst r") auto

lemma res_ok_obind_pair:
  "res_ok (\<lambda>r. P (fst r)) (fst r) \<Longrightarrow> (\<And>a v k. P a \<Longrightarrow> res_ok Q (fst (f a v k))) \<Longrightarrow>
   res_ok Q (fst (obind r (\<lambda>(a, v). f a v)))"
  by (erule res_ok_obind) (auto split: prod.split)

abbreviation plain :: "'d cJSON \<times> string \<Rightarrow> bool" where "plain r \<equiv> no_ref (fst r)"

lemma no_ref_type: "no_ref i \<Longrightarrow> \<not> bit t 8 \<Longrightarrow> no_ref (set_type t i)" "no_ref i \<Longrightarrow> no_ref (set_true i)"
  "no_ref i \<Longrightarrow> no_ref (move_name i)" "no_ref i \<Longrightarrow> \<forall>c \<in> set cs. no_ref c \<Longrightarrow> no_ref (set_children cs i)"
  by (cases i; auto simp: set_type_def set_true_def move_name_def set_children_def bit_1_iff)+

lemma plain_new: "res_ok no_ref (fst (cJSON_New_Item E k))"
  by (simp add: cJSON_New_Item_def)

lemma plain_string: "no_ref i \<Longrightarrow> res_ok plain (fst (parse_string E i s k))"
  by (cases i) (auto simp: parse_string_def Let_def bit_iff_odd split: option.split prod.split)

lemma plain_number: "no_ref i \<Longrightarrow> res_ok plain (parse_number E i s)"
  by (cases i) (auto simp: parse_number_def Let_def bit_iff_odd split: prod.split outcome.split)

lemma plain_name: "res_ok plain (fst (parse_member_name E s k))"
  unfolding parse_member_name_def
  by (rule res_ok_obind [OF plain_new], rule res_ok_obind_pair, erule plain_string) (simp add: Let_def no_ref_type)

abbreviation all_plain :: "'d cJSON list \<times> string \<Rightarrow> bool" where "all_plain r \<equiv> \<forall>c \<in> set (fst r). no_ref c"

lemma plain_elements:
  assumes "\<And>i s k. no_ref i \<Longrightarrow> res_ok plain (fst (par i s k))"
  shows "\<forall>c \<in> set cs. no_ref c \<Longrightarrow> res_ok all_plain (fst (parse_elements par E f cs s k))"
proof (induction f arbitrary: cs s k)
  case (Suc f)
  have "res_ok all_plain (fst (obind (cJSON_New_Item E k) (\<lambda>child k. obind (par child (skip (tl s)) k) (\<lambda>(child, value) k.
             parse_elements par E f (cs @ [child]) (skip value) k))))"
    by (rule res_ok_obind [OF plain_new], rule res_ok_obind_pair, erule assms, rule Suc.IH) (use Suc.prems in auto)
  then show ?case using Suc.prems by (simp add: parse_elements.simps)
qed simp

lemma plain_members:
  assumes "\<And>i s k. no_ref i \<Longrightarrow> res_ok plain (fst (par i s k))"
  shows "\<forall>c \<in> set cs. no_ref c \<Longrightarrow> res_ok all_plain (fst (parse_members par E f cs s k))"
proof (induction f arbitrary: cs s k)
  case (Suc f)
  have "res_ok all_plain (fst (obind (parse_member_name E (tl s) k) (\<lambda>(child, value) k. obind (par child (skip value) k) (\<lambda>(child, value) k.
             parse_members par E f (cs @ [child]) (skip value) k))))"
    by (rule res_ok_obind_pair [OF plain_name], rule res_ok_obind_pair, erule assms, rule Suc.IH) (use Suc.prems in auto)
  then show ?case using Suc.prems by (simp add: parse_members.simps)
qed simp

lemma plain_array:
  assumes "\<And>i s k. no_ref i \<Longrightarrow> res_ok plain (fst (par i s k))" "no_ref i"
  shows "res_ok plain (fst (parse_array par E f i s k))"
proof -
  have "res_ok plain (fst (obind (cJSON_New_Item E k) (\<lambda>child k. obind (par child (skip v) k) (\<lambda>(child, value) k.
             obind (parse_elements par E f [child] (skip value) k) (\<lambda>(cs, value) k.
               if cur value = CHR '']'' then (Ok (set_children cs (set_type cJSON_Array i), tl value), k)
               else (Fail (Some value), k))))))" for v
    by (rule res_ok_obind [OF plain_new], rule res_ok_obind_pair, erule assms(1),
        rule res_ok_obind_pair, rule plain_elements [OF assms(1)])
      (use assms(2) in \<open>auto simp: no_ref_type bit_iff_odd\<close>)
  then show ?thesis using assms(2) by (simp add: parse_array_def Let_def no_ref_type bit_iff_odd)
qed

lemma plain_object:
  assumes "\<And>i s k. no_ref i \<Longrightarrow> res_ok plain (fst (par i s k))" "no_ref i"
  shows "res_ok plain (fst (parse_object par E f i s k))"
proof -
  have "res_ok plain (fst (obind (parse_member_name E v k) (\<lambda>(child, value) k. obind (par child (skip value) k) (\<lambda>(child, value) k.
             obind (parse_members par E f [child] (skip value) k) (\<lambda>(cs, value) k.
               if cur value = CHR ''}'' then (Ok (set_children cs (set_type cJSON_Object i), tl value), k)
               else (Fail (Some value), k))))))" for v
    by (rule res_ok_obind_pair [OF plain_name], rule res_ok_obind_pair, erule assms(1),
        rule res_ok_obind_pair, rule plain_members [OF assms(1)])
      (use assms(2) in \<open>auto simp: no_ref_type bit_iff_odd\<close>)
  then show ?thesis using assms(2) by (simp add: parse_object_def Let_def no_ref_type bit_iff_odd)
qed

lemma plain_value: "no_ref i \<Longrightarrow> res_ok plain (fst (parse_value E f i s k))"
proof (induction f arbitrary: i s k)
  case (Suc f)
  then show ?case
    using plain_array [of "parse_value E f", OF Suc.IH] plain_object [of "parse_value E f", OF Suc.IH]
    by (auto simp: parse_value.simps(2) no_ref_type bit_iff_odd plain_number plain_string)
qed simp

lemma plain_Parse: "cJSON_Parse E str = (Ok (t, rest), k) \<Longrightarrow> no_ref t"
proof -
  have "res_ok plain (fst (cJSON_Parse E str))"
    unfolding cJSON_Parse_def cJSON_ParseWithOpts_def
    by (rule res_ok_obind [OF plain_new], rule res_ok_obind, erule plain_value) (auto split: prod.split)
  then show "cJSON_Parse E str = (Ok (t, rest), k) \<Longrightarrow> no_ref t" by simp
qed

section \<open>What was parsed is what is read\<close>

text \<open>The addresses of the environment are those of fresh blocks.\<close>

definition fresh_addrs :: "'d henv \<Rightarrow> 'd store \<Rightarrow> bool" where
  "fresh_addrs env s \<longleftrightarrow> inj (env_addr env) \<and> (\<forall>i \<ge> mallocs s. nodes s (env_addr env i) = None)"

lemma lay_root:
  assumes "fresh_addrs env s" "lay_items (env_addr env) None [t] (mallocs s) (nodes s) = (p, k', h')" "mallocs s' = m" "nodes s' = h'"
  obtains a n as where "p = Some a" "nodes s' a = Some n" "shows_item n t" "array_at s' a as" "length as = length (children t)"
    "\<forall>i < length as. \<exists>n. nodes s' (as ! i) = Some n \<and> shows_item n (children t ! i)"
proof -
  let ?addr = "env_addr env" and ?k = "mallocs s"
  obtain ty vs vi vd nm cs where t: "t = cJSON ty vs vi vd nm cs" by (cases t)
  have inj: "inj ?addr" using assms(1) by (simp add: fresh_addrs_def)
  obtain c k1 h1 where l1: "lay_items ?addr None cs (Suc ?k) (nodes s) = (c, k1, h1)" by (metis prod.exhaust)
  let ?n = "\<lparr>nx = None, pv = None, ch = c, ntype = ty, nvaluestring = vs, nvalueint = vi, nvaluedouble = vd, nstring = nm\<rparr>"
  have p: "p = Some (?addr ?k)" and h': "h' = h1(?addr ?k \<mapsto> ?n)" using assms(2) t l1 by auto
  obtain as where as: "chain h1 c as" "length as = length cs" "set as \<subseteq> ?addr ` {Suc ?k..<k1}" "distinct as"
    "\<forall>i < length cs. \<exists>n. h1 (as ! i) = Some n \<and> shows_item n (cs ! i)" using lay_items_seg [OF inj l1] by blast
  have new: "?addr ?k \<notin> set as" using as(3) addr_disjoint [OF inj, of ?k "Suc ?k" k1] by auto
  show ?thesis
  proof (rule that [OF p])
    show "nodes s' (?addr ?k) = Some ?n" by (simp add: assms(4) h')
    show "shows_item ?n t" by (simp add: shows_item_def t)
    show "array_at s' (?addr ?k) as" using as(1,4) new by (simp add: array_at_def assms(4) h')
    show "length as = length (children t)" using as(2) t by simp
    show "\<forall>i < length as. \<exists>n. nodes s' (as ! i) = Some n \<and> shows_item n (children t ! i)"
      using as(2,5) new t by (auto simp: assms(4) h' in_set_conv_nth)
  qed
qed

lemma lay_root_delete:
  assumes "fresh_addrs env s" "lay_items (env_addr env) None [t] (mallocs s) (nodes s) = (p, k', h')" "no_ref t" "nodes s' = h'"
  shows "\<exists>s''. cJSON_Delete p s' = Some s'' \<and> nodes s'' = nodes s"
proof -
  have inj: "inj (env_addr env)" using assms(1) by (simp add: fresh_addrs_def)
  obtain ns where ns: "owns h' p ns" "set ns = env_addr env ` {mallocs s..<k'}"
    using lay_items_owns [OF assms(2) inj] assms(3) by auto
  have "nodes s' |` (- set ns) = nodes s"
  proof
    fix b
    show "(nodes s' |` (- set ns)) b = nodes s b"
      using lay_items_frame [OF assms(2), of b] assms(1,4) ns(2) by (auto simp: restrict_map_def fresh_addrs_def)
  qed
  then show ?thesis using delete_owned [OF ns(1), of s'] assms(4) by simp
qed

abbreviation shown :: "'d store \<Rightarrow> nat list \<Rightarrow> 'd cJSON list \<Rightarrow> bool" where
  "shown s as cs \<equiv> list_all2 (\<lambda>a c. \<exists>n. nodes s a = Some n \<and> shows_item n c) as cs"

lemma named_shown: "\<exists>n. nodes s a = Some n \<and> shows_item n c \<Longrightarrow> named s q a \<longleftrightarrow> cJSON_strcasecmp (cstring c) q = 0"
  by (auto simp: named_def shows_item_def)

lemma find_named_none:
  "shown s as cs \<Longrightarrow> find_named s q as = None \<longleftrightarrow> (\<forall>c \<in> set cs. cJSON_strcasecmp (cstring c) q \<noteq> 0)"
  by (induction rule: list_all2_induct) (auto simp: named_shown)

lemma find_named_first:
  "shown s as cs \<Longrightarrow> i < length cs \<Longrightarrow> cJSON_strcasecmp (cstring (cs ! i)) q = 0 \<Longrightarrow>
   \<forall>j < i. cJSON_strcasecmp (cstring (cs ! j)) q \<noteq> 0 \<Longrightarrow> find_named s q as = Some i"
proof (induction arbitrary: i rule: list_all2_induct)
  case (Cons a as c cs)
  show ?case
  proof (cases i)
    case (Suc j)
    then have "find_named s q as = Some j" using Cons.prems by (intro Cons.IH) force+
    then show ?thesis using Cons.hyps(1) Cons.prems(3) Suc by (auto simp: named_shown)
  qed (use Cons in \<open>auto simp: named_shown\<close>)
qed simp

lemma Json_get_fields:
  assumes "nodes s b = Some n" "shows_item n c"
  shows "Json_getInt (Json_of (Some b)) s = Some (valueint c)" "Json_getDouble (Json_of (Some b)) s = Some (valuedouble c)"
    "Json_getString (Json_of (Some b)) s = Some (valuestring c)"
  using assms by (simp_all add: Json_getInt_def Json_getDouble_def Json_getString_def Json_field_def Json_of_def shows_item_def)

lemmas json_named = Json_getInt_name_def Json_getDouble_name_def Json_getString_name_def Json_get_def
lemmas json_indexed = Json_getInt_at_def Json_getDouble_at_def Json_getString_at_def Json_get_at_def

text \<open>C19: When the parser accepts a text with the tree \<open>t\<close>, a new object that parses it owns an item with
  the type and the values of \<open>t\<close>; its size is the number of children, an access by index gives the
  values of that child and an access by name those of the first child with that name, in any case;
  membership is the existence of one. Destroying the object frees all that the parse allocated and
  nothing else.\<close>

theorem json_reads_parsed:
  assumes "cJSON_Parse (parse_env env s) str = (Ok (t, rest), k)" "fresh_addrs env s"
  shows "\<exists>j s'. Json_parse env str Json_new s = Some (True, j, s') \<and>
    Json_getInt j s' = Some (valueint t) \<and> Json_isObject j s' = Some (ctype t = cJSON_Object) \<and>
    Json_getSize j s' = Some (int (length (children t))) \<and>
    (\<forall>i < length (children t). Json_getInt_at (int i) j s' = Some (valueint (children t ! i)) \<and>
      Json_getDouble_at (int i) j s' = Some (valuedouble (children t ! i)) \<and>
      Json_getString_at (int i) j s' = Some (valuestring (children t ! i))) \<and>
    (\<forall>q. Json_isMember q j s' = Some (\<exists>c \<in> set (children t). cJSON_strcasecmp (cstring c) q = 0)) \<and>
    (\<forall>q i. i < length (children t) \<and> cJSON_strcasecmp (cstring (children t ! i)) q = 0 \<and>
        (\<forall>l < i. cJSON_strcasecmp (cstring (children t ! l)) q \<noteq> 0) \<longrightarrow>
      Json_getInt_name q j s' = Some (valueint (children t ! i)) \<and>
      Json_getDouble_name q j s' = Some (valuedouble (children t ! i)) \<and>
      Json_getString_name q j s' = Some (valuestring (children t ! i))) \<and>
    (\<exists>s''. Json_destroy j s' = Some s'' \<and> nodes s'' = nodes s)"
proof -
  obtain p k' h' where lay: "lay_items (env_addr env) None [t] (mallocs s) (nodes s) = (p, k', h')" by (metis prod.exhaust)
  let ?s = "s\<lparr>nodes := h', mallocs := mallocs s + k\<rparr>" and ?j = "Json_new\<lparr>json := p, isowned := True\<rparr>"
  have run: "Json_parse env str Json_new s = Some (True, ?j, ?s)"
    using assms(1) lay by (simp add: Json_parse_def Json_new_def)
  obtain a n as where p: "p = Some a" "nodes ?s a = Some n" "shows_item n t" and arr: "array_at ?s a as"
    and len: "length as = length (children t)"
    and items: "\<forall>i < length as. \<exists>n. nodes ?s (as ! i) = Some n \<and> shows_item n (children t ! i)"
    by (rule lay_root [OF assms(2) lay, of ?s]) auto
  have sh: "shown ?s as (children t)" using len items by (simp add: list_all2_conv_all_nth)
  have item: "cJSON_GetArrayItem a (int i) ?s = Some (Some (as ! i))" if "i < length (children t)" for i
    using array_item [OF arr, of "int i"] len that by simp
  have size: "cJSON_GetArraySize a ?s = Some (int (length (children t)))" using array_size [OF arr] len by simp
  have del: "\<exists>s''. cJSON_Delete p ?s = Some s'' \<and> nodes s'' = nodes s"
    by (rule lay_root_delete [OF assms(2) lay plain_Parse [OF assms(1)]]) simp
  have fields: "Json_getInt (Json_of (Some (as ! i))) ?s = Some (valueint (children t ! i))"
     "Json_getDouble (Json_of (Some (as ! i))) ?s = Some (valuedouble (children t ! i))"
     "Json_getString (Json_of (Some (as ! i))) ?s = Some (valuestring (children t ! i))" if "i < length (children t)" for i
    using items len that by (metis Json_get_fields)+
  have j: "json ?j = Some a" "isowned ?j" using p(1) by simp_all
  show ?thesis
  proof (rule exI [of _ ?j], rule exI [of _ ?s], intro conjI run allI impI)
    show "Json_getInt ?j ?s = Some (valueint t)" "Json_isObject ?j ?s = Some (ctype t = cJSON_Object)"
      using p(2,3) j by (simp_all add: Json_getInt_def Json_isObject_def Json_field_def shows_item_def)
    show "Json_getSize ?j ?s = Some (int (length (children t)))" using size j by (simp add: Json_getSize_def)
    show "\<exists>s''. Json_destroy ?j ?s = Some s'' \<and> nodes s'' = nodes s" using del j p(1) by (simp add: Json_destroy_def)
    show "Json_isMember q ?j ?s = Some (\<exists>c \<in> set (children t). cJSON_strcasecmp (cstring c) q = 0)" for q
      using find_named_none [OF sh, of q] j by (auto simp: Json_isMember_def GetObjectItem_named [OF arr])
  next
    fix i assume i: "i < length (children t)"
    show "Json_getInt_at (int i) ?j ?s = Some (valueint (children t ! i))"
      "Json_getDouble_at (int i) ?j ?s = Some (valuedouble (children t ! i))"
      "Json_getString_at (int i) ?j ?s = Some (valuestring (children t ! i))"
      using j item [OF i] fields [OF i] by (simp_all add: json_indexed)
  next
    fix q i
    assume i: "i < length (children t) \<and> cJSON_strcasecmp (cstring (children t ! i)) q = 0 \<and>
        (\<forall>l < i. cJSON_strcasecmp (cstring (children t ! l)) q \<noteq> 0)"
    then have "find_named ?s q as = Some i" using find_named_first [OF sh] by blast
    then show "Json_getInt_name q ?j ?s = Some (valueint (children t ! i))"
      "Json_getDouble_name q ?j ?s = Some (valuedouble (children t ! i))"
      "Json_getString_name q ?j ?s = Some (valuestring (children t ! i))"
      using j i fields by (simp_all add: json_named GetObjectItem_named [OF arr])
  qed
qed

text \<open>The text \<open>{id:true}\<close>, whose name has no quotes.\<close>

theorem json_reads_parsed_witness:
  "\<exists>j s'. Json_parse demo_env ''{id:true}'' Json_new \<lparr>nodes = (\<lambda>_. None), mallocs = 0\<rparr> = Some (True, j, s') \<and>
     Json_getSize j s' = Some 1 \<and> Json_getInt_name (Some ''ID'') j s' = Some 1"
proof -
  let ?s = "\<lparr>nodes = (\<lambda>_. None), mallocs = 0\<rparr> :: unit store"
  let ?t = "cJSON cJSON_Object None 0 () None [cJSON cJSON_True None 1 () (Some ''id'') []]"
  have p: "cJSON_Parse (parse_env demo_env ?s) ''{id:true}'' = (Ok (?t, []), 3)"
    by (simp add: parse_env_def demo_env_def) code_simp
  have "fresh_addrs demo_env ?s" by (simp add: fresh_addrs_def demo_env_def inj_def)
  moreover have "cJSON_strcasecmp (Some ''id'') (Some ''ID'') = 0" by code_simp
  ultimately show ?thesis using json_reads_parsed [OF p] by fastforce
qed

text \<open>The class hides its assignment but not its copy constructor, which copies the pointer and the
  ownership: when both the parsed object and a copy of it are destroyed, the second destructor follows
  a pointer to freed items.\<close>

theorem json_copy_double_delete:
  assumes "cJSON_Parse (parse_env env s) str = (Ok (t, rest), k)" "fresh_addrs env s"
    "Json_parse env str Json_new s = Some (True, j, s1)" "copy = j" "Json_destroy copy s1 = Some s2"
  shows "Json_destroy j s2 = None"
proof -
  obtain p k' h' where lay: "lay_items (env_addr env) None [t] (mallocs s) (nodes s) = (p, k', h')" by (metis prod.exhaust)
  then have p: "p = Some (env_addr env (mallocs s))" by (cases t) (auto split: prod.splits)
  have j: "j = Json_new\<lparr>json := p, isowned := True\<rparr>" "nodes s1 = h'"
    using assms(1,3) lay by (auto simp: Json_parse_def Json_new_def)
  have "nodes s2 = nodes s"
    using lay_root_delete [OF assms(2) lay plain_Parse [OF assms(1)] j(2)] assms(4,5) j(1) p by (auto simp: Json_destroy_def)
  then have "nodes s2 (env_addr env (mallocs s)) = None" using assms(2) by (simp add: fresh_addrs_def)
  then show ?thesis using j(1) p by (simp add: Json_destroy_def) (subst cJSON_Delete.simps, simp)
qed

text \<open>The same text.\<close>

theorem json_copy_double_delete_witness:
  "\<exists>j s1 s2. Json_parse demo_env ''{id:true}'' Json_new \<lparr>nodes = (\<lambda>_. None), mallocs = 0\<rparr> = Some (True, j, s1) \<and>
     Json_destroy j s1 = Some s2 \<and> Json_destroy j s2 = None"
proof -
  let ?s = "\<lparr>nodes = (\<lambda>_. None), mallocs = 0\<rparr> :: unit store"
  have p: "cJSON_Parse (parse_env demo_env ?s) ''{id:true}'' =
      (Ok (cJSON cJSON_Object None 0 () None [cJSON cJSON_True None 1 () (Some ''id'') []], []), 3)"
    by (simp add: parse_env_def demo_env_def) code_simp
  have f: "fresh_addrs demo_env ?s" by (simp add: fresh_addrs_def demo_env_def inj_def)
  obtain j s1 where j: "Json_parse demo_env ''{id:true}'' Json_new ?s = Some (True, j, s1)"
    using p by (simp add: Json_parse_def Json_new_def split: prod.split)
  moreover obtain q k' h' where lay: "lay_items (env_addr demo_env) None
      [cJSON cJSON_Object None 0 () None [cJSON cJSON_True None 1 () (Some ''id'') []]] (mallocs ?s) (nodes ?s) = (q, k', h')"
    by (metis prod.exhaust)
  ultimately have "j = Json_new\<lparr>json := q, isowned := True\<rparr>" "nodes s1 = h'"
    using p by (auto simp: Json_parse_def Json_new_def)
  then obtain s2 where "Json_destroy j s1 = Some s2"
    using lay_root_delete [OF f lay plain_Parse [OF p]] by (cases q) (auto simp: Json_destroy_def)
  with json_copy_double_delete [OF p f j refl] j show ?thesis by blast
qed

end
