(* ===== verification/Xml_Mem.thy ===== *)
theory Xml_Mem
  imports Blm_Prelude
begin

text \<open>
  The containers of \<open>include/tinyxml2.h\<close>: the growing array \<open>DynArray\<close> and the pool of equal chunks
  \<open>MemPoolT\<close>, whose free chunks are linked through their own memory. The theorems: the array is a list
  with push and pop at its end, in bounds of its memory; the pool never hands out a chunk that is in use
  and loses none.
\<close>

section \<open>DynArray\<close>

text \<open>\<open>cells\<close> is the block at \<open>_mem\<close>, with \<open>None\<close> for a cell that was never written, so \<open>_allocated\<close> is its
  length; \<open>pooled\<close> says whether it is the array \<open>_pool\<close> inside of the object. \<open>None\<close> as a result is an
  access outside of the block, a failed assertion or the overflow of an \<open>int\<close>.\<close>

record 'a dynarray =
  cells :: "'a option list"
  used :: nat
  pooled :: bool

definition DynArray_new :: "nat \<Rightarrow> 'a dynarray" where
  "DynArray_new INIT = \<lparr>cells = replicate INIT None, used = 0, pooled = True\<rparr>"

definition EnsureCapacity :: "nat \<Rightarrow> 'a dynarray \<Rightarrow> 'a dynarray option" where
  "EnsureCapacity cap a =
     (if cap > length (cells a) then
        if cap * 2 \<ge> 2 ^ 31 then None
        else Some (a\<lparr>cells := take (used a) (cells a) @ replicate (cap * 2 - used a) None, pooled := False\<rparr>)
      else Some a)"

definition DynArray_Push :: "'a \<Rightarrow> 'a dynarray \<Rightarrow> 'a dynarray option" where
  "DynArray_Push t a =
     map_option (\<lambda>a. a\<lparr>cells := (cells a)[used a := Some t], used := Suc (used a)\<rparr>) (EnsureCapacity (used a + 1) a)"

text \<open>The result is the index of the first of the new cells.\<close>

definition DynArray_PushArr :: "nat \<Rightarrow> 'a dynarray \<Rightarrow> (nat \<times> 'a dynarray) option" where
  "DynArray_PushArr cnt a =
     map_option (\<lambda>a. (used a, a\<lparr>used := used a + cnt\<rparr>)) (EnsureCapacity (used a + cnt) a)"

text \<open>Writing through a pointer into the block.\<close>

definition write_cells :: "nat \<Rightarrow> 'a list \<Rightarrow> 'a dynarray \<Rightarrow> 'a dynarray option" where
  "write_cells i xs a =
     (if i + length xs \<le> length (cells a)
      then Some (a\<lparr>cells := take i (cells a) @ map Some xs @ drop (i + length xs) (cells a)\<rparr>) else None)"

definition DynArray_Pop :: "'a dynarray \<Rightarrow> ('a option \<times> 'a dynarray) option" where
  "DynArray_Pop a = (if used a = 0 then None else Some (cells a ! (used a - 1), a\<lparr>used := used a - 1\<rparr>))"

definition DynArray_PopArr :: "nat \<Rightarrow> 'a dynarray \<Rightarrow> 'a dynarray option" where
  "DynArray_PopArr cnt a = (if used a \<ge> cnt then Some (a\<lparr>used := used a - cnt\<rparr>) else None)"

definition DynArray_Empty :: "'a dynarray \<Rightarrow> bool" where
  "DynArray_Empty a = (used a = 0)"

definition DynArray_at :: "int \<Rightarrow> 'a dynarray \<Rightarrow> 'a option option" where
  "DynArray_at i a = (if i \<ge> 0 \<and> i < int (used a) then Some (cells a ! nat i) else None)"

definition DynArray_Size :: "'a dynarray \<Rightarrow> int" where
  "DynArray_Size a = int (used a)"

definition DynArray_Capacity :: "'a dynarray \<Rightarrow> int" where
  "DynArray_Capacity a = int (length (cells a))"

text \<open>The array holds a list.\<close>

definition holds :: "'a dynarray \<Rightarrow> 'a list \<Rightarrow> bool" where
  "holds a xs \<longleftrightarrow> used a = length xs \<and> used a \<le> length (cells a) \<and> take (used a) (cells a) = map Some xs"

lemma holds_new: "holds (DynArray_new n) []"
  by (simp add: holds_def DynArray_new_def)

lemma EnsureCapacity_holds:
  assumes "holds a xs" "cap < 2 ^ 30"
  obtains a' where "EnsureCapacity cap a = Some a'" "holds a' xs" "cap \<le> length (cells a')" "used a' = used a"
proof (cases "cap > length (cells a)")
  case True
  let ?a = "a\<lparr>cells := take (used a) (cells a) @ replicate (cap * 2 - used a) None, pooled := False\<rparr>"
  show ?thesis using True assms by (intro that [of ?a]) (auto simp: EnsureCapacity_def holds_def)
qed (use assms in \<open>auto intro: that simp: EnsureCapacity_def\<close>)

lemma Push_holds:
  assumes "holds a xs" "length xs < 2 ^ 30 - 1"
  shows "\<exists>a'. DynArray_Push t a = Some a' \<and> holds a' (xs @ [t])"
proof -
  have "used a + 1 < 2 ^ 30" using assms by (simp add: holds_def)
  from EnsureCapacity_holds [OF assms(1) this] obtain a1 where
    a1: "EnsureCapacity (used a + 1) a = Some a1" "holds a1 xs" "used a + 1 \<le> length (cells a1)" "used a1 = used a" .
  then have "take (Suc (used a)) ((cells a1)[used a := Some t]) = map Some xs @ [Some t]"
    by (auto simp: take_Suc_conv_app_nth holds_def)
  then show ?thesis using a1 by (auto simp: DynArray_Push_def holds_def)
qed

lemma PushArr_write_holds:
  assumes "holds a xs" "length xs + length ys < 2 ^ 30"
  shows "\<exists>a1 a2. DynArray_PushArr (length ys) a = Some (length xs, a1) \<and> write_cells (length xs) ys a1 = Some a2 \<and>
    holds a2 (xs @ ys)"
proof -
  have "used a + length ys < 2 ^ 30" using assms by (simp add: holds_def)
  from EnsureCapacity_holds [OF assms(1) this] obtain a1 where
    "EnsureCapacity (used a + length ys) a = Some a1" "holds a1 xs" "used a + length ys \<le> length (cells a1)" "used a1 = used a" .
  then show ?thesis by (auto simp: DynArray_PushArr_def write_cells_def holds_def)
qed

lemma Pop_holds:
  assumes "holds a (ys @ [y])"
  obtains a' where "DynArray_Pop a = Some (Some y, a')" "holds a' ys"
proof -
  have u: "used a = Suc (length ys)" "Suc (length ys) \<le> length (cells a)" "take (Suc (length ys)) (cells a) = map Some (ys @ [y])"
    using assms by (auto simp: holds_def)
  have "take (length ys) (cells a) = take (length ys) (take (Suc (length ys)) (cells a))" by (simp add: min_def)
  also have "\<dots> = map Some ys" by (simp only: u(3)) simp
  finally have "holds (a\<lparr>used := length ys\<rparr>) ys" using u by (simp add: holds_def)
  moreover have "take (Suc (length ys)) (cells a) ! length ys = Some y" by (simp only: u(3)) (simp add: nth_append)
  ultimately show ?thesis using u(1) by (intro that) (auto simp: DynArray_Pop_def)
qed

text \<open>C35: An array holds a list, starting with the empty one: pushing appends, reserving cells and
  filling them appends them all, popping returns and removes the last element, indexing is that of the
  list and anything else is outside; the list never exceeds the block.\<close>

theorem dynarray_refines_list:
  assumes "holds a xs" "length xs < 2 ^ 30 - 1"
  shows "(\<exists>a'. DynArray_Push t a = Some a' \<and> holds a' (xs @ [t])) \<and>
    (\<forall>ys. length xs + length ys < 2 ^ 30 \<longrightarrow>
      (\<exists>a1 a2. DynArray_PushArr (length ys) a = Some (length xs, a1) \<and> write_cells (length xs) ys a1 = Some a2 \<and> holds a2 (xs @ ys))) \<and>
    (xs \<noteq> [] \<longrightarrow> (\<exists>a'. DynArray_Pop a = Some (Some (last xs), a') \<and> holds a' (butlast xs))) \<and>
    (xs = [] \<longrightarrow> DynArray_Pop a = None) \<and>
    (\<forall>i. DynArray_at i a = (if 0 \<le> i \<and> i < int (length xs) then Some (Some (xs ! nat i)) else None)) \<and>
    DynArray_Size a = int (length xs) \<and> DynArray_Size a \<le> DynArray_Capacity a"
proof (intro conjI allI impI)
  show "\<exists>a'. DynArray_Push t a = Some a' \<and> holds a' (xs @ [t])" by (rule Push_holds [OF assms])
  show "\<exists>a1 a2. DynArray_PushArr (length ys) a = Some (length xs, a1) \<and> write_cells (length xs) ys a1 = Some a2 \<and> holds a2 (xs @ ys)"
    if "length xs + length ys < 2 ^ 30" for ys by (rule PushArr_write_holds [OF assms(1) that])
  have cell: "cells a ! i = Some (xs ! i)" if "i < length xs" for i
    using assms(1) that by (metis holds_def length_map nth_map nth_take)
  show "DynArray_at i a = (if 0 \<le> i \<and> i < int (length xs) then Some (Some (xs ! nat i)) else None)" for i
    using assms(1) cell [of "nat i"] by (auto simp: DynArray_at_def holds_def)
  show "\<exists>a'. DynArray_Pop a = Some (Some (last xs), a') \<and> holds a' (butlast xs)" if ne: "xs \<noteq> []"
  proof -
    obtain ys y where xs: "xs = ys @ [y]" using ne by (cases xs rule: rev_cases) auto
    obtain a' where "DynArray_Pop a = Some (Some y, a')" "holds a' ys" using assms(1) unfolding xs by (rule Pop_holds)
    then show ?thesis by (simp add: xs)
  qed
qed (use assms in \<open>auto simp: DynArray_Pop_def DynArray_Size_def DynArray_Capacity_def holds_def\<close>)

text \<open>An empty array of ten cells.\<close>

theorem dynarray_refines_list_witness: "\<exists>a'. DynArray_Push (7 :: nat) (DynArray_new 10) = Some a' \<and> holds a' [7]"
  using dynarray_refines_list [where t = "7 :: nat", OF holds_new [of 10]] by simp

section \<open>Allocators\<close>

text \<open>Requests in any order: \<open>None\<close> allocates, \<open>Some k\<close> gives back the \<open>k\<close>-th chunk in use.\<close>

fun serve :: "('s \<Rightarrow> ('c \<times> 's) option) \<Rightarrow> ('c \<Rightarrow> 's \<Rightarrow> 's) \<Rightarrow> nat option list \<Rightarrow> 'c list \<Rightarrow> 's \<Rightarrow> ('c list \<times> 's) option" where
  "serve alloc free [] cs s = Some (cs, s)"
| "serve alloc free (None # rs) cs s = Option.bind (alloc s) (\<lambda>(c, s). serve alloc free rs (c # cs) s)"
| "serve alloc free (Some k # rs) cs s =
     (if k < length cs then serve alloc free rs (take k cs @ drop (Suc k) cs) (free (cs ! k) s) else serve alloc free rs cs s)"

text \<open>What users of a pool rely on: an allocation gives a chunk that is not in use, and a chunk in use can be
  given back.\<close>

locale allocator =
  fixes alloc :: "'s \<Rightarrow> ('c \<times> 's) option"
    and free :: "'c \<Rightarrow> 's \<Rightarrow> 's"
    and inv :: "'s \<Rightarrow> 'c set \<Rightarrow> bool"
  assumes alloc_new: "inv s U \<Longrightarrow> \<exists>c s'. alloc s = Some (c, s') \<and> c \<notin> U \<and> inv s' (insert c U)"
    and free_used: "inv s U \<Longrightarrow> c \<in> U \<Longrightarrow> inv (free c s) (U - {c})"
begin

text \<open>The chunks in use stay different from each other, and the invariant holds at the end.\<close>

lemma serve_distinct:
  "inv s (set cs) \<Longrightarrow> distinct cs \<Longrightarrow> \<exists>cs' s'. serve alloc free rs cs s = Some (cs', s') \<and> distinct cs' \<and> inv s' (set cs')"
proof (induction rs arbitrary: cs s)
  case (Cons r rs)
  show ?case
  proof (cases r)
    case None
    from alloc_new [OF Cons.prems(1)] obtain c s' where "alloc s = Some (c, s')" "c \<notin> set cs" "inv s' (insert c (set cs))" by blast
    then show ?thesis using Cons.IH [of s' "c # cs"] Cons.prems(2) None by simp
  next
    case (Some k)
    show ?thesis
    proof (cases "k < length cs")
      case True
      let ?cs = "take k cs @ drop (Suc k) cs"
      have split: "cs = take k cs @ cs ! k # drop (Suc k) cs" using True by (simp add: id_take_nth_drop)
      have "distinct (take k cs @ cs ! k # drop (Suc k) cs)" using Cons.prems(2) split by simp
      then have d: "distinct ?cs" "cs ! k \<notin> set ?cs" by auto
      have "set cs = insert (cs ! k) (set ?cs)" by (subst split) auto
      then have "set cs - {cs ! k} = set ?cs" using d(2) by auto
      moreover have "inv (free (cs ! k) s) (set cs - {cs ! k})" by (rule free_used [OF Cons.prems(1)]) (use True in simp)
      ultimately show ?thesis using Cons.IH [of "free (cs ! k) s" ?cs] d(1) True Some by simp
    qed (use Cons Some in simp)
  qed
qed simp

end

section \<open>MemPoolT\<close>

text \<open>A chunk is the number of its block and its index there. \<open>mp_next\<close> is the member \<open>next\<close> of the
  chunks, which is only meaningful in the free ones.\<close>

type_synonym chunk = "nat \<times> nat"

record mempool =
  mp_root :: "chunk option"
  mp_next :: "chunk \<Rightarrow> chunk option"
  mp_blocks :: nat
  currentAllocs :: int
  nAllocs :: int
  maxAllocs :: int
  nUntracked :: int

definition MemPool_new :: mempool where
  "MemPool_new = \<lparr>mp_root = None, mp_next = \<lambda>_. None, mp_blocks = 0, currentAllocs = 0, nAllocs = 0, maxAllocs = 0, nUntracked = 0\<rparr>"

definition MemPool_COUNT :: "nat \<Rightarrow> nat" where
  "MemPool_COUNT SIZE = (4 * 1024) div SIZE"

text \<open>A new block with its chunks linked.\<close>

definition new_block :: "nat \<Rightarrow> mempool \<Rightarrow> mempool" where
  "new_block n p =
     (let b = mp_blocks p in
      p\<lparr>mp_blocks := Suc b,
        mp_next := (\<lambda>c. if fst c = b then (if snd c < n - 1 then Some (b, snd c + 1) else None) else mp_next p c),
        mp_root := Some (b, 0)\<rparr>)"

text \<open>For chunks larger than a block the array has no element.\<close>

definition MemPool_Alloc :: "nat \<Rightarrow> mempool \<Rightarrow> (chunk \<times> mempool) option" where
  "MemPool_Alloc SIZE p =
     (let n = MemPool_COUNT SIZE;
          p = (if mp_root p = None then new_block n p else p)
      in case mp_root p of
           None \<Rightarrow> None
         | Some c \<Rightarrow>
             if n = 0 then None
             else
               let p = p\<lparr>mp_root := mp_next p c, currentAllocs := currentAllocs p + 1\<rparr>;
                   p = (if currentAllocs p > maxAllocs p then p\<lparr>maxAllocs := currentAllocs p\<rparr> else p)
               in Some (c, p\<lparr>nAllocs := nAllocs p + 1, nUntracked := nUntracked p + 1\<rparr>))"

definition MemPool_Free :: "chunk option \<Rightarrow> mempool \<Rightarrow> mempool" where
  "MemPool_Free m p =
     (case m of
        None \<Rightarrow> p
      | Some c \<Rightarrow> p\<lparr>currentAllocs := currentAllocs p - 1, mp_next := (mp_next p)(c := mp_root p), mp_root := Some c\<rparr>)"

definition MemPool_SetTracked :: "mempool \<Rightarrow> mempool" where
  "MemPool_SetTracked p = p\<lparr>nUntracked := nUntracked p - 1\<rparr>"

definition MemPool_Untracked :: "mempool \<Rightarrow> int" where
  "MemPool_Untracked p = nUntracked p"

definition MemPool_CurrentAllocs :: "mempool \<Rightarrow> int" where
  "MemPool_CurrentAllocs p = currentAllocs p"

definition MemPool_ItemSize :: "nat \<Rightarrow> nat" where
  "MemPool_ItemSize SIZE = SIZE"

text \<open>The user of a chunk overwrites its memory.\<close>

definition scribble :: "chunk \<Rightarrow> chunk option \<Rightarrow> mempool \<Rightarrow> mempool" where
  "scribble c v p = p\<lparr>mp_next := (mp_next p)(c := v)\<rparr>"

subsection \<open>The free list\<close>

primrec free_list :: "(chunk \<Rightarrow> chunk option) \<Rightarrow> chunk option \<Rightarrow> chunk list \<Rightarrow> bool" where
  "free_list nxt r [] = (r = None)"
| "free_list nxt r (c # cs) = (r = Some c \<and> free_list nxt (nxt c) cs)"

definition chunk_inv :: "nat \<Rightarrow> mempool \<Rightarrow> chunk set \<Rightarrow> bool" where
  "chunk_inv SIZE p U \<longleftrightarrow> MemPool_COUNT SIZE > 0 \<and> finite U \<and> currentAllocs p = int (card U) \<and>
     (\<exists>fl. free_list (mp_next p) (mp_root p) fl \<and> distinct fl \<and> set fl \<inter> U = {} \<and>
        set fl \<union> U = {0..<mp_blocks p} \<times> {0..<MemPool_COUNT SIZE})"

lemma free_list_frame [simp]: "c \<notin> set cs \<Longrightarrow> free_list (nxt(c := v)) r cs = free_list nxt r cs"
  by (induction cs arbitrary: r) auto

lemma free_list_cong: "(\<And>c. c \<in> set cs \<Longrightarrow> nxt c = nxt' c) \<Longrightarrow> free_list nxt r cs = free_list nxt' r cs"
  by (induction cs arbitrary: r) auto

lemma chunk_invI:
  assumes "MemPool_COUNT SIZE > 0" "finite U" "currentAllocs p = int (card U)" "free_list (mp_next p) (mp_root p) fl"
    "distinct fl" "set fl \<inter> U = {}" "set fl \<union> U = {0..<mp_blocks p} \<times> {0..<MemPool_COUNT SIZE}"
  shows "chunk_inv SIZE p U"
  using assms unfolding chunk_inv_def by blast

lemma pool_new: "MemPool_COUNT SIZE > 0 \<Longrightarrow> chunk_inv SIZE MemPool_new {}"
  by (auto simp: chunk_inv_def MemPool_new_def intro!: exI [of _ "[]"])

lemma block_list:
  "i \<le> n \<Longrightarrow> (\<And>k. k < n \<Longrightarrow> nxt (b, k) = (if k < n - 1 then Some (b, Suc k) else None)) \<Longrightarrow> n > 0 \<Longrightarrow>
   free_list nxt (if i < n then Some (b, i) else None) (map (Pair b) [i..<n])"
proof (induction "n - i" arbitrary: i)
  case (Suc k)
  then have "free_list nxt (if Suc i < n then Some (b, Suc i) else None) (map (Pair b) [Suc i..<n])" by (intro Suc.hyps(1)) auto
  moreover have "nxt (b, i) = (if Suc i < n then Some (b, Suc i) else None)" using Suc by auto
  ultimately show ?case using Suc.hyps(2) by (simp add: upt_conv_Cons)
qed simp

lemma new_block_inv:
  assumes "chunk_inv SIZE p U" "mp_root p = None"
  shows "chunk_inv SIZE (new_block (MemPool_COUNT SIZE) p) U" "mp_root (new_block (MemPool_COUNT SIZE) p) = Some (mp_blocks p, 0)"
proof -
  let ?n = "MemPool_COUNT SIZE" and ?b = "mp_blocks p"
  let ?p = "new_block ?n p" and ?fl = "map (Pair ?b) [0..<?n]"
  obtain fl where fl: "free_list (mp_next p) (mp_root p) fl" "set fl \<union> U = {0..<?b} \<times> {0..<?n}"
    using assms(1) by (auto simp: chunk_inv_def)
  then have "fl = []" using assms(2) by (cases fl) auto
  then have U: "U = {0..<?b} \<times> {0..<?n}" using fl(2) by simp
  have "free_list (mp_next ?p) (mp_root ?p) ?fl"
    using block_list [of 0 ?n "mp_next ?p" ?b] assms(1) by (simp add: new_block_def Let_def chunk_inv_def)
  moreover have "distinct ?fl" by (simp add: distinct_map inj_on_def)
  moreover have "set ?fl \<inter> U = {}" "set ?fl \<union> U = {0..<mp_blocks ?p} \<times> {0..<?n}"
    unfolding U by (auto simp: new_block_def Let_def less_Suc_eq)
  moreover have "?n > 0" "finite U" "currentAllocs ?p = int (card U)"
    using assms(1) by (auto simp: chunk_inv_def new_block_def Let_def)
  ultimately show "chunk_inv SIZE ?p U" by (intro chunk_invI [of _ _ _ ?fl])
  show "mp_root ?p = Some (?b, 0)" by (simp add: new_block_def Let_def)
qed

lemma take_root:
  assumes "chunk_inv SIZE p U" "mp_root p = Some c"
  shows "c \<notin> U \<and> chunk_inv SIZE (p\<lparr>mp_root := mp_next p c, currentAllocs := currentAllocs p + 1, maxAllocs := m, nAllocs := k, nUntracked := u\<rparr>) (insert c U)"
proof -
  obtain fl where fl: "free_list (mp_next p) (mp_root p) fl" "distinct fl" "set fl \<inter> U = {}"
    "set fl \<union> U = {0..<mp_blocks p} \<times> {0..<MemPool_COUNT SIZE}" using assms(1) by (auto simp: chunk_inv_def)
  then obtain cs where cs: "fl = c # cs" using assms(2) by (cases fl) auto
  then have "c \<notin> U" using fl(3) by auto
  moreover have "free_list (mp_next p) (mp_next p c) cs" "distinct cs" "set cs \<inter> insert c U = {}"
    "set cs \<union> insert c U = {0..<mp_blocks p} \<times> {0..<MemPool_COUNT SIZE}" using fl cs by auto
  ultimately show ?thesis using assms(1) unfolding chunk_inv_def by auto
qed

lemma Alloc_inv:
  assumes "chunk_inv SIZE p U"
  shows "\<exists>c p'. MemPool_Alloc SIZE p = Some (c, p') \<and> c \<notin> U \<and> chunk_inv SIZE p' (insert c U)"
proof -
  let ?p = "if mp_root p = None then new_block (MemPool_COUNT SIZE) p else p"
  have inv: "chunk_inv SIZE ?p U" using assms new_block_inv(1) by auto
  obtain c where c: "mp_root ?p = Some c" using assms new_block_inv(2) by (cases "mp_root p") auto
  let ?q = "?p\<lparr>mp_root := mp_next ?p c, currentAllocs := currentAllocs ?p + 1,
     maxAllocs := (if currentAllocs ?p + 1 > maxAllocs ?p then currentAllocs ?p + 1 else maxAllocs ?p),
     nAllocs := nAllocs ?p + 1, nUntracked := nUntracked ?p + 1\<rparr>"
  have "MemPool_COUNT SIZE > 0" using assms by (simp add: chunk_inv_def)
  then have "MemPool_Alloc SIZE p = Some (c, ?q)" using c by (auto simp: MemPool_Alloc_def Let_def)
  then show ?thesis using take_root [OF inv c] by blast
qed

lemma Free_inv:
  assumes "chunk_inv SIZE p U" "c \<in> U"
  shows "chunk_inv SIZE (MemPool_Free (Some c) p) (U - {c})"
proof -
  obtain fl where fl: "free_list (mp_next p) (mp_root p) fl" "distinct fl" "set fl \<inter> U = {}"
    "set fl \<union> U = {0..<mp_blocks p} \<times> {0..<MemPool_COUNT SIZE}" and U: "finite U" "currentAllocs p = int (card U)"
    using assms(1) by (auto simp: chunk_inv_def)
  have "c \<notin> set fl" using fl(3) assms(2) by auto
  then have "free_list ((mp_next p)(c := mp_root p)) (Some c) (c # fl)" "distinct (c # fl)" "set (c # fl) \<inter> (U - {c}) = {}"
    "set (c # fl) \<union> (U - {c}) = {0..<mp_blocks p} \<times> {0..<MemPool_COUNT SIZE}" using fl assms(2) by auto
  moreover have "int (card (U - {c})) = currentAllocs p - 1"
    using U assms(2) card_gt_0_iff [of U] by (auto simp: card_Diff_singleton of_nat_diff)
  moreover have "MemPool_COUNT SIZE > 0" using assms(1) by (simp add: chunk_inv_def)
  ultimately show ?thesis using U(1) by (intro chunk_invI [of _ _ _ "c # fl"]) (simp_all add: MemPool_Free_def)
qed

lemma scribble_inv:
  assumes "chunk_inv SIZE p U" "c \<in> U"
  shows "chunk_inv SIZE (scribble c v p) U"
proof -
  obtain fl where "free_list (mp_next p) (mp_root p) fl" "distinct fl" "set fl \<inter> U = {}"
    "set fl \<union> U = {0..<mp_blocks p} \<times> {0..<MemPool_COUNT SIZE}" using assms(1) by (auto simp: chunk_inv_def)
  moreover from this have "c \<notin> set fl" using assms(2) by auto
  ultimately show ?thesis using assms(1) unfolding chunk_inv_def scribble_def by auto
qed

text \<open>The allocation of a chunk together with whatever its user then writes into it is an allocator.\<close>

definition alloc_used :: "nat \<Rightarrow> (chunk \<Rightarrow> chunk option) \<Rightarrow> mempool \<Rightarrow> (chunk \<times> mempool) option" where
  "alloc_used SIZE garbage p = map_option (\<lambda>(c, p). (c, scribble c (garbage c) p)) (MemPool_Alloc SIZE p)"

interpretation pool: allocator "alloc_used SIZE garbage" "\<lambda>c. MemPool_Free (Some c)" "chunk_inv SIZE"
proof
  fix p U assume inv: "chunk_inv SIZE p U"
  then obtain c p' where "MemPool_Alloc SIZE p = Some (c, p')" "c \<notin> U" "chunk_inv SIZE p' (insert c U)" using Alloc_inv by blast
  then show "\<exists>c p'. alloc_used SIZE garbage p = Some (c, p') \<and> c \<notin> U \<and> chunk_inv SIZE p' (insert c U)"
    using scribble_inv [of SIZE p' "insert c U" c] by (auto simp: alloc_used_def)
qed (rule Free_inv)

text \<open>A pool of chunks that fit a block serves any sequence of allocations and frees, whatever the users
  write into their chunks: every allocation succeeds, the chunks in use are pairwise different, their
  number is \<open>CurrentAllocs\<close>, and each chunk of the blocks is in use or on the free list.\<close>

theorem pool_serves_distinct:
  assumes "0 < SIZE" "SIZE \<le> 4096"
  shows "\<exists>cs p. serve (alloc_used SIZE garbage) (\<lambda>c. MemPool_Free (Some c)) rs [] MemPool_new = Some (cs, p) \<and> distinct cs \<and>
    MemPool_CurrentAllocs p = int (length cs) \<and> chunk_inv SIZE p (set cs)"
proof -
  have "MemPool_COUNT SIZE > 0" using assms by (simp add: MemPool_COUNT_def div_greater_zero_iff)
  then have "chunk_inv SIZE MemPool_new (set [])" by (simp add: pool_new)
  from pool.serve_distinct [OF this, of garbage rs] obtain cs p where
    "serve (alloc_used SIZE garbage) (\<lambda>c. MemPool_Free (Some c)) rs [] MemPool_new = Some (cs, p)" "distinct cs" "chunk_inv SIZE p (set cs)" by auto
  then show ?thesis by (auto simp: MemPool_CurrentAllocs_def chunk_inv_def distinct_card)
qed

text \<open>Three allocations, the second chunk given back, and another allocation.\<close>

theorem pool_serves_distinct_witness:
  "\<exists>cs p. serve (alloc_used 48 (\<lambda>_. Some (9, 9))) (\<lambda>c. MemPool_Free (Some c)) [None, None, None, Some 1, None] [] MemPool_new = Some (cs, p) \<and> distinct cs"
  using pool_serves_distinct [of 48 "\<lambda>_. Some (9, 9)" "[None, None, None, Some 1, None]"] by auto

end
