(* ===== verification/Xml_Util.thy ===== *)
theory Xml_Util
  imports C_Strings
begin

text \<open>
  The helpers of \<open>src/tinyxml2.cpp\<close> and the inline functions of the class \<open>XMLUtil\<close> in
  \<open>include/tinyxml2.h\<close>: classification of characters, the byte order mark, numeric character references
  and their UTF-8 encoding, and the conversions between numbers and text. The theorems: the encoding of
  every code up to \<open>0x1FFFFF\<close> is its UTF-8 form, decimal and hexadecimal references give the code they
  spell, and the conversions are inverse to each other.
\<close>

section \<open>Characters and entities\<close>

type_synonym u64 = "64 word"

definition NUL :: char where
  "NUL = CHR 0x00"

definition LF :: char where
  "LF = CHR 0x0A"

definition CR :: char where
  "CR = CHR 0x0D"

text \<open>The pattern and the value of an entity; its length is that of the pattern.\<close>

definition entities :: "(string \<times> char) list" where
  "entities = [(''quot'', CHR 0x22), (''amp'', CHR ''&''), (''apos'', CHR 0x27), (''lt'', CHR ''<''), (''gt'', CHR ''>'')]"

definition IsUTF8Continuation :: "char \<Rightarrow> bool" where
  "IsUTF8Continuation p \<longleftrightarrow> code p \<ge> 128"

definition IsWhiteSpace :: "char \<Rightarrow> bool" where
  "IsWhiteSpace p \<longleftrightarrow> \<not> IsUTF8Continuation p \<and> isspace p"

fun SkipWhiteSpace :: "string \<Rightarrow> string" where
  "SkipWhiteSpace [] = []"
| "SkipWhiteSpace (c # p) = (if \<not> IsUTF8Continuation c \<and> isspace c then SkipWhiteSpace p else c # p)"

definition IsNameStartChar :: "char \<Rightarrow> bool" where
  "IsNameStartChar ch \<longleftrightarrow> (if code ch < 128 then isalpha ch else True) \<or> ch = CHR '':'' \<or> ch = CHR ''_''"

definition IsNameChar :: "char \<Rightarrow> bool" where
  "IsNameChar ch \<longleftrightarrow> IsNameStartChar ch \<or> isdigit ch \<or> ch = CHR ''.'' \<or> ch = CHR ''-''"

definition INT_MAX :: int where
  "INT_MAX = 2 ^ 31 - 1"

fun equal_loop :: "string \<Rightarrow> string \<Rightarrow> int \<Rightarrow> int \<Rightarrow> string \<times> string \<times> int" where
  "equal_loop (a # p) (b # q) n nChar =
     (if a \<noteq> NUL \<and> b \<noteq> NUL \<and> a = b \<and> n < nChar then equal_loop p q (n + 1) nChar else (a # p, b # q, n))"
| "equal_loop p q n nChar = (p, q, n)"

definition StringEqual :: "string \<Rightarrow> string \<Rightarrow> int \<Rightarrow> bool" where
  "StringEqual p q nChar = (case equal_loop p q 0 nChar of (p, q, n) \<Rightarrow> n = nChar \<or> cur p = NUL \<and> cur q = NUL)"

text \<open>The result is the rest of the text and whether there was a byte order mark.\<close>

definition ReadBOM :: "string \<Rightarrow> string \<times> bool" where
  "ReadBOM p =
     (if cur p = CHR 0xEF \<and> cur (drop 1 p) = CHR 0xBB \<and> cur (drop 2 p) = CHR 0xBF then (drop 3 p, True) else (p, False))"

section \<open>Character references\<close>

definition BYTE_MASK :: u64 where
  "BYTE_MASK = 0xBF"

definition BYTE_MARK :: u64 where
  "BYTE_MARK = 0x80"

definition FIRST_BYTE_MARK :: "u64 list" where
  "FIRST_BYTE_MARK = [0x00, 0x00, 0xC0, 0xE0, 0xF0, 0xF8, 0xFC]"

text \<open>The cast to \<open>char\<close>.\<close>

definition to_char :: "u64 \<Rightarrow> char" where
  "to_char w = char_of (unat w)"

text \<open>The \<open>switch\<close> with its fall-through, which fills the bytes from the last to the first.\<close>

fun utf8_switch :: "nat \<Rightarrow> nat \<Rightarrow> u64 \<Rightarrow> string" where
  "utf8_switch len 0 input = []"
| "utf8_switch len (Suc 0) input = [to_char (input OR FIRST_BYTE_MARK ! len)]"
| "utf8_switch len (Suc (Suc n)) input =
     utf8_switch len (Suc n) (drop_bit 6 input) @ [to_char ((input OR BYTE_MARK) AND BYTE_MASK)]"

definition ConvertUTF32ToUTF8 :: "u64 \<Rightarrow> string" where
  "ConvertUTF32ToUTF8 input =
     (if input < 0x80 then utf8_switch 1 1 input
      else if input < 0x800 then utf8_switch 2 2 input
      else if input < 0x10000 then utf8_switch 3 3 input
      else if input < 0x200000 then utf8_switch 4 4 input
      else [])"

definition strchr :: "char \<Rightarrow> string \<Rightarrow> nat option" where
  "strchr c s = (let k = length (takeWhile (\<lambda>d. d \<noteq> c) s) in if k < length s then Some k else None)"

definition dec_value :: "char \<Rightarrow> nat option" where
  "dec_value c = (if isdigit c then Some (code c - 48) else None)"

text \<open>The loops over the digits run backwards from the semicolon until the character \<open>stop\<close>; the list holds
  the characters in that order. \<open>mul\<close> (\<open>mult\<close>) is an \<open>unsigned\<close>, \<open>ucs\<close> an \<open>unsigned long\<close>.\<close>

fun ref_loop :: "char \<Rightarrow> u32 \<Rightarrow> (char \<Rightarrow> nat option) \<Rightarrow> string \<Rightarrow> u32 \<Rightarrow> u64 \<Rightarrow> u64 option" where
  "ref_loop stop base val [] mul ucs = None"
| "ref_loop stop base val (c # q) mul ucs =
     (if c = stop then Some ucs
      else case val c of
             None \<Rightarrow> None
           | Some d \<Rightarrow> ref_loop stop base val q (mul * base) (ucs + ucast (mul * of_nat d)))"

text \<open>The number of characters consumed and the bytes of \<open>value\<close>; \<open>None\<close> is the null pointer.\<close>

definition GetCharacterRef :: "string \<Rightarrow> (nat \<times> string) option" where
  "GetCharacterRef p =
     (if cur (drop 1 p) = CHR ''#'' \<and> cur (drop 2 p) \<noteq> NUL then
        if cur (drop 2 p) = CHR ''x'' then
          if cur (drop 3 p) = NUL then None
          else case strchr (CHR '';'') (drop 3 p) of
                 None \<Rightarrow> None
               | Some k \<Rightarrow>
                   let delta = 3 + k in
                   map_option (\<lambda>ucs. (delta + 1, ConvertUTF32ToUTF8 ucs))
                     (ref_loop (CHR ''x'') 16 hex_value (rev (take delta p)) 1 0)
        else
          case strchr (CHR '';'') (drop 2 p) of
            None \<Rightarrow> None
          | Some k \<Rightarrow>
              let delta = 2 + k in
              map_option (\<lambda>ucs. (delta + 1, ConvertUTF32ToUTF8 ucs))
                (ref_loop (CHR ''#'') 10 dec_value (rev (take delta p)) 1 0)
      else Some (1, []))"

section \<open>Conversions\<close>

text \<open>The results of \<open>sscanf\<close> with one conversion. The C standard leaves numbers outside of the range of the
  target undefined.\<close>

datatype 'a scanned = NoMatch | Scanned 'a | OutOfRange

definition scan_sign :: "string \<Rightarrow> int \<times> string" where
  "scan_sign s = (if cur s = CHR ''-'' then (-1, drop 1 s) else if cur s = CHR ''+'' then (1, drop 1 s) else (1, s))"

definition scan_number :: "string \<Rightarrow> int option" where
  "scan_number s =
     (case scan_sign (dropWhile isspace s) of (neg, t) \<Rightarrow>
        let ds = takeWhile isdigit t in
        if ds = [] then None else Some (neg * foldl (\<lambda>n c. 10 * n + digit_value c) 0 ds))"

definition sscanf_d :: "string \<Rightarrow> int scanned" where
  "sscanf_d s =
     (case scan_number s of None \<Rightarrow> NoMatch | Some v \<Rightarrow> if - (2 ^ 31) \<le> v \<and> v < 2 ^ 31 then Scanned v else OutOfRange)"

text \<open>A minus sign negates in the unsigned type.\<close>

definition sscanf_u :: "string \<Rightarrow> u32 scanned" where
  "sscanf_u s =
     (case scan_number s of None \<Rightarrow> NoMatch | Some v \<Rightarrow> if \<bar>v\<bar> < 2 ^ 32 then Scanned (word_of_int v) else OutOfRange)"

definition ToStr_int :: "int \<Rightarrow> string" where
  "ToStr_int v = dec_int v"

definition ToStr_unsigned :: "u32 \<Rightarrow> string" where
  "ToStr_unsigned v = dec_nat (unat v)"

definition ToStr_bool :: "bool \<Rightarrow> string" where
  "ToStr_bool v = dec_int (if v then 1 else 0)"

text \<open>\<open>%g\<close> of the C library is a parameter; the buffers have \<open>bufferSize\<close> bytes with the terminating zero.\<close>

definition ToStr_float :: "('d \<Rightarrow> string) \<Rightarrow> 'd \<Rightarrow> nat \<Rightarrow> string" where
  "ToStr_float fmt_g v bufferSize = take (bufferSize - 1) (fmt_g v)"

definition ToInt :: "string \<Rightarrow> int scanned" where
  "ToInt str = sscanf_d str"

definition ToUnsigned :: "string \<Rightarrow> u32 scanned" where
  "ToUnsigned str = sscanf_u str"

definition ToBool :: "string \<Rightarrow> bool scanned" where
  "ToBool str =
     (case ToInt str of
        Scanned ival \<Rightarrow> Scanned (if ival = 0 then False else True)
      | OutOfRange \<Rightarrow> OutOfRange
      | NoMatch \<Rightarrow>
          if StringEqual str ''true'' INT_MAX then Scanned True
          else if StringEqual str ''false'' INT_MAX then Scanned False
          else NoMatch)"

text \<open>\<open>sscanf\<close> with \<open>%f\<close> and \<open>%lf\<close> is a parameter too.\<close>

definition ToFloat :: "(string \<Rightarrow> 'd option) \<Rightarrow> string \<Rightarrow> 'd option" where
  "ToFloat sscanf_f str = (case sscanf_f str of Some v \<Rightarrow> Some v | None \<Rightarrow> None)"

definition ToDouble :: "(string \<Rightarrow> 'd option) \<Rightarrow> string \<Rightarrow> 'd option" where
  "ToDouble sscanf_lf str = (case sscanf_lf str of Some v \<Rightarrow> Some v | None \<Rightarrow> None)"

section \<open>UTF-8\<close>

text \<open>The reference: the form of each length, and the code it stands for.\<close>

definition utf8_form :: "nat \<Rightarrow> nat list" where
  "utf8_form n =
     (if n < 0x80 then [n]
      else if n < 0x800 then [0xC0 + n div 2 ^ 6, 0x80 + n mod 2 ^ 6]
      else if n < 0x10000 then [0xE0 + n div 2 ^ 12, 0x80 + n div 2 ^ 6 mod 2 ^ 6, 0x80 + n mod 2 ^ 6]
      else [0xF0 + n div 2 ^ 18, 0x80 + n div 2 ^ 12 mod 2 ^ 6, 0x80 + n div 2 ^ 6 mod 2 ^ 6, 0x80 + n mod 2 ^ 6])"

lemma code_to_char: "code (to_char w) = unat w mod 256"
  by (simp add: code_def to_char_def)


lemma or_push: "(\<And>j. bit w j \<Longrightarrow> j < k) \<Longrightarrow> w OR push_bit k x = w + push_bit k (x :: u64)"
  by (rule disjunctive_add [symmetric]) (use leD in \<open>auto simp: bit_simps\<close>)

lemma cont_byte: "code (to_char ((w OR BYTE_MARK) AND BYTE_MASK)) = 0x80 + unat w mod 64"
proof -
  have masks: "BYTE_MARK = push_bit 7 1" "BYTE_MASK = mask 6 OR push_bit 7 1"
    by (simp_all add: BYTE_MARK_def BYTE_MASK_def mask_eq_exp_minus_1 push_bit_eq_mult)
  have "(w OR BYTE_MARK) AND BYTE_MASK = take_bit 6 w OR push_bit 7 1"
    unfolding masks by (rule bit_word_eqI) (auto simp: bit_simps)
  also have "\<dots> = take_bit 6 w + push_bit 7 1" by (rule or_push) (simp add: bit_simps)
  finally have "unat ((w OR BYTE_MARK) AND BYTE_MASK) = unat (take_bit 6 w + 128)" by (simp add: push_bit_eq_mult)
  also have "\<dots> = unat w mod 64 + 128"
    by (simp add: unat_word_ariths unsigned_take_bit_eq take_bit_eq_mod)
  finally show ?thesis by (simp add: code_to_char)
qed

lemma first_byte:
  assumes "unat w < 2 ^ k" "m = push_bit k x" "unat m + unat w < 256"
  shows "code (to_char (w OR m)) = unat m + unat w"
proof -
  have "take_bit k w = w"
    using assms(1) by (metis take_bit_nat_eq_self unsigned_take_bit_eq unsigned_word_eqI)
  then have "w OR m = w + m" unfolding assms(2) by (intro or_push) (metis bit_take_bit_iff)
  then have "unat (w OR m) = (unat w + unat m) mod 2 ^ 64" by (simp add: unat_word_ariths)
  then show ?thesis using assms(3) by (simp add: code_to_char)
qed

lemma unat_drop_bit: "unat (drop_bit k (w :: u64)) = unat w div 2 ^ k"
  using unsigned_less [of w, where ?'a = nat] by (subst unsigned_drop_bit_eq) (simp add: drop_bit_eq_div take_bit_nat_eq_self)

lemma utf8_switch_simps:
  "utf8_switch len 1 w = [to_char (w OR FIRST_BYTE_MARK ! len)]"
  "utf8_switch len 2 w = utf8_switch len 1 (drop_bit 6 w) @ [to_char ((w OR BYTE_MARK) AND BYTE_MASK)]"
  "utf8_switch len 3 w = utf8_switch len 2 (drop_bit 6 w) @ [to_char ((w OR BYTE_MARK) AND BYTE_MASK)]"
  "utf8_switch len 4 w = utf8_switch len 3 (drop_bit 6 w) @ [to_char ((w OR BYTE_MARK) AND BYTE_MASK)]"
  by (simp_all add: eval_nat_numeral)

lemma first_bytes:
  "unat w < 0x20 \<Longrightarrow> code (to_char (w OR FIRST_BYTE_MARK ! 2)) = 0xC0 + unat w"
  "unat w < 0x10 \<Longrightarrow> code (to_char (w OR FIRST_BYTE_MARK ! 3)) = 0xE0 + unat w"
  "unat w < 0x8 \<Longrightarrow> code (to_char (w OR FIRST_BYTE_MARK ! 4)) = 0xF0 + unat w"
  using first_byte [of w 5 "0xC0" 6] first_byte [of w 4 "0xE0" 14] first_byte [of w 3 "0xF0" 30]
  by (simp_all add: FIRST_BYTE_MARK_def push_bit_eq_mult)

text \<open>Every code below \<open>0x200000\<close> is written as its UTF-8 form of the least length; larger ones give no
  byte.\<close>

theorem utf8_correct:
  "map code (ConvertUTF32ToUTF8 n) = (if unat n < 0x200000 then utf8_form (unat n) else [])"
proof -
  have div: "unat n div 64 div 64 = unat n div 2 ^ 12" "unat n div 64 div 64 div 64 = unat n div 2 ^ 18"
    by (simp_all add: div_mult2_eq [symmetric])
  note facts = ConvertUTF32ToUTF8_def utf8_form_def word_less_nat_alt utf8_switch_simps cont_byte first_bytes unat_drop_bit
  consider "unat n < 0x80" | "0x80 \<le> unat n" "unat n < 0x800" | "0x800 \<le> unat n" "unat n < 0x10000"
    | "0x10000 \<le> unat n" "unat n < 0x200000" | "0x200000 \<le> unat n" by linarith
  then show ?thesis
  proof cases
    case 1
    then show ?thesis by (simp add: facts FIRST_BYTE_MARK_def code_to_char)
  next
    case 2
    then show ?thesis by (simp add: facts)
  next
    case 3
    then show ?thesis by (simp add: facts div)
  next
    case 4
    then show ?thesis by (simp add: facts div)
  qed (simp add: facts)
qed

section \<open>Numbers in a base\<close>

text \<open>The reference for character references: the digits of a number, most significant first.\<close>

function num_str :: "nat \<Rightarrow> (nat \<Rightarrow> char) \<Rightarrow> nat \<Rightarrow> string" where
  "num_str b d n = (if n < b \<or> b < 2 then [d n] else num_str b d (n div b) @ [d (n mod b)])"
  by pat_completeness auto
termination by (relation "measure (\<lambda>(b, d, n). n)") auto

declare num_str.simps [simp del]

definition ref_hex :: "nat \<Rightarrow> string" where
  "ref_hex n = num_str 16 hex_char n"

lemma dec_nat_num_str: "dec_nat n = num_str 10 (\<lambda>k. char_of (48 + k)) n"
proof (induction n rule: dec_nat.induct)
  case (1 n)
  then show ?case by (subst dec_nat.simps, subst num_str.simps) simp
qed

lemma num_str_all: "(\<And>k. k < b \<Longrightarrow> P (d k)) \<Longrightarrow> 2 \<le> b \<Longrightarrow> \<forall>c \<in> set (num_str b d n). P c"
proof (induction b d n rule: num_str.induct)
  case (1 b d n)
  show ?case using 1(1) 1(2) [of n] 1(2) [of "n mod b"] 1(2,3) by (subst num_str.simps) auto
qed

lemma num_str_ne: "num_str b d n \<noteq> []"
  by (subst num_str.simps) simp

lemma ref_loop_num:
  assumes "2 \<le> b" "\<And>k. k < b \<Longrightarrow> d k \<noteq> stop \<and> val (d k) = Some k"
  shows "m * n < 2 ^ 32 \<Longrightarrow>
    ref_loop stop (of_nat b) val (rev (num_str b d n) @ stop # q) (of_nat m) ucs = Some (ucs + of_nat (m * n))"
  using assms
proof (induction b d n arbitrary: m ucs rule: num_str.induct)
  case (1 b d n)
  have digit: "ucast (of_nat m * of_nat k :: u32) = (of_nat (m * k) :: u64)" if "m * k < 2 ^ 32" for k
    using that by (simp add: unsigned_of_nat take_bit_nat_eq_self flip: of_nat_mult)
  show ?case
  proof (cases "n < b")
    case True
    then show ?thesis using 1(2,4) digit [of n] by (simp add: num_str.simps)
  next
    case False
    have split: "m * n = m * (n mod b) + m * b * (n div b)" by (metis add_mult_distrib2 mod_mult_div_eq mult.assoc)
    then have lt: "m * (n mod b) < 2 ^ 32" "m * b * (n div b) < 2 ^ 32" using 1(2) by linarith+
    have "n mod b < b" using 1(3) by simp
    then have "ref_loop stop (of_nat b) val (rev (num_str b d n) @ stop # q) (of_nat m) ucs =
        ref_loop stop (of_nat b) val (rev (num_str b d (n div b)) @ stop # q) (of_nat (m * b)) (ucs + of_nat (m * (n mod b)))"
      using False 1(3,4) digit [OF lt(1)] by (subst num_str.simps) simp
    also have "\<dots> = Some (ucs + of_nat (m * (n mod b)) + of_nat (m * b * (n div b)))"
      using False 1(3) by (intro 1(1) lt(2) 1(3,4)) auto
    finally show ?thesis by (subst split) (simp add: add.assoc)
  qed
qed

lemma strchr_append: "c \<notin> set s \<Longrightarrow> strchr c (s @ c # r) = Some (length s)"
proof -
  assume "c \<notin> set s"
  then have "takeWhile (\<lambda>d. d \<noteq> c) (s @ c # r) = s" by (induction s) auto
  then show ?thesis by (simp add: strchr_def)
qed

text \<open>A decimal or hexadecimal character reference to any code below \<open>0x200000\<close> is consumed to its
  semicolon and gives the UTF-8 form of that code.\<close>

theorem character_ref_correct:
  assumes "n < 0x200000"
  shows "GetCharacterRef (''&#'' @ dec_nat n @ '';'' @ rest) = Some (length (dec_nat n) + 3, ConvertUTF32ToUTF8 (of_nat n)) \<and>
    GetCharacterRef (''&#x'' @ ref_hex n @ '';'' @ rest) = Some (length (ref_hex n) + 4, ConvertUTF32ToUTF8 (of_nat n))"
proof
  let ?d = "\<lambda>k. char_of (48 + k) :: char"
  have val: "?d k \<noteq> CHR ''#'' \<and> dec_value (?d k) = Some k \<and> ?d k \<noteq> CHR '';''  \<and> ?d k \<noteq> CHR ''x'' \<and> ?d k \<noteq> NUL" if "k < 10" for k
  proof -
    have "code (?d k) = 48 + k" using that by (simp add: code_char_of)
    moreover have "code (CHR ''#'') = 35" "code (CHR '';'') = 59" "code (CHR ''x'') = 120" "code NUL = 0"
      by (simp_all add: code_def NUL_def)
    ultimately show ?thesis using that by (auto simp: dec_value_def isdigit_def)
  qed
  have loop: "ref_loop (CHR ''#'') 10 dec_value (rev (dec_nat n) @ [CHR ''#'', CHR ''&'']) 1 0 = Some (of_nat n)"
    using ref_loop_num [of 10 ?d "CHR ''#''" dec_value 1 n "[CHR ''&'']" 0] val assms by (simp add: dec_nat_num_str)
  have chars: "\<forall>c \<in> set (dec_nat n). c \<noteq> CHR '';'' \<and> c \<noteq> CHR ''x'' \<and> c \<noteq> NUL"
    unfolding dec_nat_num_str by (rule num_str_all) (use val in auto)
  obtain c cs where c: "dec_nat n = c # cs" "c \<noteq> CHR ''x''" "c \<noteq> NUL" using chars num_str_ne by (cases "dec_nat n") (auto simp: dec_nat_num_str)
  have "CHR '';'' \<notin> set (dec_nat n)" using chars by auto
  then show "GetCharacterRef (''&#'' @ dec_nat n @ '';'' @ rest) = Some (length (dec_nat n) + 3, ConvertUTF32ToUTF8 (of_nat n))"
    using c loop strchr_append [of "CHR '';''" "dec_nat n" rest]
    by (simp add: GetCharacterRef_def cur_def Let_def)
next
  have val: "hex_char k \<noteq> CHR ''x'' \<and> hex_value (hex_char k) = Some k \<and> hex_char k \<noteq> CHR '';'' \<and> hex_char k \<noteq> NUL" if "k < 16" for k
  proof -
    have "code (hex_char k) = (if k < 10 then 48 + k else 87 + k)" using that by (simp add: code_char_of hex_char_def)
    moreover have "code (CHR '';'') = 59" "code (CHR ''x'') = 120" "code NUL = 0" by (simp_all add: code_def NUL_def)
    ultimately show ?thesis using that hex_value_hex_char by (auto split: if_splits)
  qed
  have loop: "ref_loop (CHR ''x'') 16 hex_value (rev (ref_hex n) @ [CHR ''x'', CHR ''#'', CHR ''&'']) 1 0 = Some (of_nat n)"
    using ref_loop_num [of 16 hex_char "CHR ''x''" hex_value 1 n "[CHR ''#'', CHR ''&'']" 0] val assms by (simp add: ref_hex_def)
  have chars: "\<forall>c \<in> set (ref_hex n). c \<noteq> CHR '';'' \<and> c \<noteq> NUL"
    unfolding ref_hex_def by (rule num_str_all) (use val in auto)
  obtain c cs where c: "ref_hex n = c # cs" "c \<noteq> NUL" using chars num_str_ne by (cases "ref_hex n") (auto simp: ref_hex_def)
  have "CHR '';'' \<notin> set (ref_hex n)" using chars by auto
  then show "GetCharacterRef (''&#x'' @ ref_hex n @ '';'' @ rest) = Some (length (ref_hex n) + 4, ConvertUTF32ToUTF8 (of_nat n))"
    using c loop strchr_append [of "CHR '';''" "ref_hex n" rest]
    by (simp add: GetCharacterRef_def cur_def Let_def NUL_def take_Cons')
qed

text \<open>The Chinese character of the comment in the source.\<close>

theorem character_ref_correct_witness:
  "GetCharacterRef (''&#'' @ dec_nat 20013 @ '';'' @ ''x'') = Some (length (dec_nat 20013) + 3, ConvertUTF32ToUTF8 20013)"
  using character_ref_correct [of 20013 "''x''"] by simp

text \<open>A reference never gives more bytes than it has characters, and ends inside of the text.\<close>

lemma length_utf8_switch: "length (utf8_switch len n w) = n"
  by (induction len n w rule: utf8_switch.induct) simp_all

lemma length_ConvertUTF32ToUTF8: "length (ConvertUTF32ToUTF8 w) \<le> 4"
  by (simp add: ConvertUTF32ToUTF8_def length_utf8_switch)

lemma strchr_bound: "strchr c s = Some k \<Longrightarrow> k < length s"
  by (auto simp: strchr_def Let_def split: if_splits)

lemma cur_drop: "cur (drop i s) \<noteq> NUL \<Longrightarrow> i < length s \<and> s ! i = cur (drop i s)"
  by (cases "i < length s") (simp_all add: Cons_nth_drop_Suc [symmetric] cur_def NUL_def)

lemma GetCharacterRef_bound:
  assumes "GetCharacterRef p = Some (k, v)" "p \<noteq> []"
  shows "0 < k \<and> k \<le> length p \<and> length v \<le> k"
proof (cases "cur (drop 1 p) = CHR ''#'' \<and> cur (drop 2 p) \<noteq> NUL")
  case True
  then have lp: "2 < length p" "p ! 1 = CHR ''#''" using cur_drop [of 2 p] cur_drop [of 1 p] by (auto simp: NUL_def)
  have "\<exists>j w. strchr (CHR '';'') (drop j p) = Some (k - 1 - j) \<and> 2 \<le> j \<and> j < k \<and> v = ConvertUTF32ToUTF8 w \<and>
      (k = 3 \<longrightarrow> ref_loop (CHR ''#'') 10 dec_value (rev (take 2 p)) 1 0 = Some w)"
  proof (cases "cur (drop 2 p) = CHR ''x''")
    case x: True
    then show ?thesis using assms(1) True
      by (intro exI [of _ "3 :: nat"]) (auto simp: GetCharacterRef_def Let_def split: option.splits if_splits)
  next
    case False
    then show ?thesis using assms(1) True
      by (intro exI [of _ "2 :: nat"]) (fastforce simp: GetCharacterRef_def Let_def numeral_2_eq_2 split: option.splits if_splits)
  qed
  then obtain j w where j: "strchr (CHR '';'') (drop j p) = Some (k - 1 - j)" "2 \<le> j" "j < k" "v = ConvertUTF32ToUTF8 w"
      "k = 3 \<longrightarrow> ref_loop (CHR ''#'') 10 dec_value (rev (take 2 p)) 1 0 = Some w" by blast
  have "k \<le> length p" using strchr_bound [OF j(1)] j(2,3) by auto
  moreover have "length v \<le> k"
  proof (cases "k = 3")
    case k: True
    have "take 2 p = [p ! 0, CHR ''#'']" using lp by (cases p; cases "tl p") (auto simp: numeral_2_eq_2)
    then have "w = 0" using j(5) k by simp
    then show ?thesis using k j(4) by (simp add: ConvertUTF32ToUTF8_def length_utf8_switch)
  next
    case False
    then show ?thesis using j(2,3) length_ConvertUTF32ToUTF8 [of w] unfolding j(4) by linarith
  qed
  ultimately show ?thesis using j by simp
next
  case False
  then show ?thesis using assms by (cases p) (auto simp: GetCharacterRef_def)
qed

section \<open>Numbers and text\<close>

lemma equal_loop_take:
  "NUL \<notin> set p \<Longrightarrow> NUL \<notin> set q \<Longrightarrow>
   (case equal_loop p q i (i + int n) of (p', q', k) \<Rightarrow> k = i + int n \<or> cur p' = NUL \<and> cur q' = NUL) \<longleftrightarrow> take n p = take n q"
proof (induction p q i "i + int n" arbitrary: n rule: equal_loop.induct)
  case (1 a p b q i)
  show ?case
  proof (cases "a = b \<and> 0 < n")
    case True
    then obtain m where m: "n = Suc m" by (cases n) auto
    have "a \<noteq> NUL" using 1(2-) by auto
    then show ?thesis using True m 1(2-) 1(1) [of m] by (simp add: ac_simps)
  qed (use 1(2-) in \<open>auto simp: cur_def take_Cons'\<close>)
qed (auto simp: cur_def NUL_def take_Cons' split: list.splits)

text \<open>The comparison is the equality of the first \<open>nChar\<close> characters.\<close>

lemma StringEqual_take: "NUL \<notin> set p \<Longrightarrow> NUL \<notin> set q \<Longrightarrow> StringEqual p q (int n) \<longleftrightarrow> take n p = take n q"
  using equal_loop_take [of p q 0 n] by (simp add: StringEqual_def)

lemma foldl_dec_nat: "foldl (\<lambda>n c. 10 * n + digit_value c) 0 (dec_nat n) = int n"
proof (induction n rule: dec_nat.induct)
  case (1 n)
  have "10 * int (n div 10) + int (n mod 10) = int n" by presburger
  then show ?case using 1 by (cases "n < 10") (simp_all add: dec_nat.simps [of n] digit_value_def code_char_of)
qed

lemma scan_digits:
  assumes "list_all isdigit ds" "ds \<noteq> []"
  shows "scan_number ds = Some (foldl (\<lambda>n c. 10 * n + digit_value c) 0 ds)"
    "scan_number (CHR ''-'' # ds) = Some (- foldl (\<lambda>n c. 10 * n + digit_value c) 0 ds)"
proof -
  obtain c cs where c: "ds = c # cs" "isdigit c" using assms by (cases ds) auto
  have "\<not> isspace c" "c \<noteq> CHR ''-''" "c \<noteq> CHR ''+''" using c(2) by (auto simp: isdigit_def isspace_def code_def)
  moreover have "\<not> isspace (CHR ''-'')" by (simp add: isspace_def code_def)
  moreover have tw: "takeWhile isdigit cs = cs" using assms(1) c by (simp add: takeWhile_eq_all_conv list_all_iff)
  ultimately show "scan_number ds = Some (foldl (\<lambda>n c. 10 * n + digit_value c) 0 ds)"
    "scan_number (CHR ''-'' # ds) = Some (- foldl (\<lambda>n c. 10 * n + digit_value c) 0 ds)"
    using c by (simp_all add: scan_number_def scan_sign_def cur_def Let_def tw)
qed

lemma scan_dec_nat: "scan_number (dec_nat n) = Some (int n)" "scan_number (CHR ''-'' # dec_nat n) = Some (- int n)"
  using scan_digits [OF dec_nat_digits, of n] dec_nat_Cons [of n] foldl_dec_nat [of n] by auto

lemma scan_dec_int: "scan_number (dec_int v) = Some v"
  by (simp add: dec_int_def scan_dec_nat)

text \<open>What \<open>ToStr\<close> writes for an integer, an unsigned integer or a truth value, the function for that
  type reads back.\<close>

theorem conversions_inverse:
  assumes "- (2 ^ 31) \<le> v" "v < 2 ^ 31"
  shows "ToInt (ToStr_int v) = Scanned v \<and> ToUnsigned (ToStr_unsigned u) = Scanned u \<and> ToBool (ToStr_bool b) = Scanned b"
proof (intro conjI)
  show "ToInt (ToStr_int v) = Scanned v" using assms by (simp add: ToInt_def ToStr_int_def sscanf_d_def scan_dec_int)
  show "ToUnsigned (ToStr_unsigned u) = Scanned u"
    using unsigned_less [of u, where ?'a = int] by (simp add: ToUnsigned_def ToStr_unsigned_def sscanf_u_def scan_dec_nat)
  show "ToBool (ToStr_bool b) = Scanned b" by (simp add: ToBool_def ToInt_def ToStr_bool_def sscanf_d_def scan_dec_int)
qed

text \<open>The least integer, the largest unsigned one, and true.\<close>

theorem conversions_inverse_witness:
  "ToInt (ToStr_int (- 2147483648)) = Scanned (- 2147483648) \<and> ToUnsigned (ToStr_unsigned 0xFFFFFFFF) = Scanned 0xFFFFFFFF \<and>
   ToBool (ToStr_bool True) = Scanned True"
  using conversions_inverse [of "- 2147483648" "0xFFFFFFFF" True] by simp

end
