(* ===== verification/Xml_StrPair.thy ===== *)
theory Xml_StrPair
  imports Xml_Util
begin

text \<open>
  The class \<open>StrPair\<close> of \<open>include/tinyxml2.h\<close> and \<open>src/tinyxml2.cpp\<close>: a piece of the parsed document, or a
  string of its own, which is normalised in place when it is first read. The theorems: the in-place
  translation never leaves the piece, it is the translation by a pure function of the text, and white
  space is collapsed to the words of the text; blocks are freed exactly when they are owned.
\<close>

section \<open>Memory\<close>

text \<open>The blocks of characters. A pointer is a block and an offset; \<open>None\<close> as a result is an access outside
  of a block, through a null pointer, or to a block that was deleted.\<close>

type_synonym ptr = "nat \<times> nat"

record cmem =
  blk :: "nat \<Rightarrow> string option"
  nblk :: nat

definition zstr :: "string \<Rightarrow> string" where
  "zstr s = takeWhile (\<lambda>c. c \<noteq> NUL) s"

definition load_block :: "nat \<Rightarrow> cmem \<Rightarrow> string option" where
  "load_block b m = blk m b"

definition store_block :: "nat \<Rightarrow> string \<Rightarrow> cmem \<Rightarrow> cmem" where
  "store_block b s m = m\<lparr>blk := (blk m)(b \<mapsto> s)\<rparr>"

definition new_string :: "string \<Rightarrow> cmem \<Rightarrow> nat \<times> cmem" where
  "new_string s m = (nblk m, m\<lparr>blk := (blk m)(nblk m \<mapsto> s), nblk := Suc (nblk m)\<rparr>)"

text \<open>\<open>delete []\<close> needs the start of a block.\<close>

definition delete_string :: "ptr option \<Rightarrow> cmem \<Rightarrow> cmem option" where
  "delete_string p m =
     (case p of
        None \<Rightarrow> Some m
      | Some (b, i) \<Rightarrow> if i = 0 \<and> blk m b \<noteq> None then Some (m\<lparr>blk := (blk m)(b := None)\<rparr>) else None)"

definition write_at :: "nat \<Rightarrow> string \<Rightarrow> string \<Rightarrow> string option" where
  "write_at q v buf = (if q + length v \<le> length buf then Some (take q buf @ v @ drop (q + length v) buf) else None)"

section \<open>StrPair\<close>

definition NEEDS_ENTITY_PROCESSING :: nat where "NEEDS_ENTITY_PROCESSING = 0x01"
definition NEEDS_NEWLINE_NORMALIZATION :: nat where "NEEDS_NEWLINE_NORMALIZATION = 0x02"
definition COLLAPSE_WHITESPACE :: nat where "COLLAPSE_WHITESPACE = 0x04"
definition TEXT_ELEMENT :: nat where "TEXT_ELEMENT = NEEDS_ENTITY_PROCESSING OR NEEDS_NEWLINE_NORMALIZATION"
definition TEXT_ELEMENT_LEAVE_ENTITIES :: nat where "TEXT_ELEMENT_LEAVE_ENTITIES = NEEDS_NEWLINE_NORMALIZATION"
definition ATTRIBUTE_NAME :: nat where "ATTRIBUTE_NAME = 0"
definition ATTRIBUTE_VALUE :: nat where "ATTRIBUTE_VALUE = NEEDS_ENTITY_PROCESSING OR NEEDS_NEWLINE_NORMALIZATION"
definition ATTRIBUTE_VALUE_LEAVE_ENTITIES :: nat where "ATTRIBUTE_VALUE_LEAVE_ENTITIES = NEEDS_NEWLINE_NORMALIZATION"
definition COMMENT :: nat where "COMMENT = NEEDS_NEWLINE_NORMALIZATION"
definition NEEDS_FLUSH :: nat where "NEEDS_FLUSH = 0x100"
definition NEEDS_DELETE :: nat where "NEEDS_DELETE = 0x200"

lemmas flag_defs = NEEDS_ENTITY_PROCESSING_def NEEDS_NEWLINE_NORMALIZATION_def COLLAPSE_WHITESPACE_def TEXT_ELEMENT_def
  TEXT_ELEMENT_LEAVE_ENTITIES_def ATTRIBUTE_NAME_def ATTRIBUTE_VALUE_def ATTRIBUTE_VALUE_LEAVE_ENTITIES_def COMMENT_def
  NEEDS_FLUSH_def NEEDS_DELETE_def

record StrPair =
  sp_flags :: nat
  sp_start :: "ptr option"
  sp_end :: "ptr option"

definition StrPair_new :: StrPair where
  "StrPair_new = \<lparr>sp_flags = 0, sp_start = None, sp_end = None\<rparr>"

definition StrPair_Reset :: "cmem \<Rightarrow> StrPair \<Rightarrow> (cmem \<times> StrPair) option" where
  "StrPair_Reset m sp =
     map_option (\<lambda>m. (m, \<lparr>sp_flags = 0, sp_start = None, sp_end = None\<rparr>))
       (if sp_flags sp AND NEEDS_DELETE \<noteq> 0 then delete_string (sp_start sp) m else Some m)"

definition StrPair_destroy :: "cmem \<Rightarrow> StrPair \<Rightarrow> cmem option" where
  "StrPair_destroy m sp = map_option fst (StrPair_Reset m sp)"

definition StrPair_Set :: "ptr \<Rightarrow> ptr \<Rightarrow> nat \<Rightarrow> cmem \<Rightarrow> StrPair \<Rightarrow> (cmem \<times> StrPair) option" where
  "StrPair_Set start end' flags m sp =
     map_option (\<lambda>(m, sp). (m, \<lparr>sp_flags = flags OR NEEDS_FLUSH, sp_start = Some start, sp_end = Some end'\<rparr>)) (StrPair_Reset m sp)"

definition StrPair_SetInternedStr :: "ptr \<Rightarrow> cmem \<Rightarrow> StrPair \<Rightarrow> (cmem \<times> StrPair) option" where
  "StrPair_SetInternedStr str m sp = map_option (\<lambda>(m, sp). (m, sp\<lparr>sp_start := Some str\<rparr>)) (StrPair_Reset m sp)"

definition StrPair_SetStr :: "string \<Rightarrow> nat \<Rightarrow> cmem \<Rightarrow> StrPair \<Rightarrow> (cmem \<times> StrPair) option" where
  "StrPair_SetStr str flags m sp =
     map_option (\<lambda>(m, sp).
       case new_string (zstr str @ [NUL]) m of
         (b, m) \<Rightarrow> (m, \<lparr>sp_flags = flags OR NEEDS_DELETE, sp_start = Some (b, 0), sp_end = Some (b, length (zstr str))\<rparr>))
       (StrPair_Reset m sp)"

definition StrPair_Empty :: "StrPair \<Rightarrow> bool" where
  "StrPair_Empty sp \<longleftrightarrow> sp_start sp = sp_end sp"

subsection \<open>Parsing\<close>

definition strncmp_eq :: "string \<Rightarrow> string \<Rightarrow> nat \<Rightarrow> bool" where
  "strncmp_eq p q n \<longleftrightarrow> take n p = take n q"

text \<open>The loop over a C string: the number of characters in front of the end tag.\<close>

fun text_loop :: "string \<Rightarrow> string \<Rightarrow> nat \<Rightarrow> nat option" where
  "text_loop endTag [] k = None"
| "text_loop endTag (c # p) k =
     (if c = cur endTag \<and> strncmp_eq (c # p) endTag (length endTag) then Some k else text_loop endTag p (Suc k))"

text \<open>The outer option is a crash, the inner one the null pointer.\<close>

definition ParseText :: "ptr \<Rightarrow> string \<Rightarrow> nat \<Rightarrow> cmem \<Rightarrow> StrPair \<Rightarrow> (ptr option \<times> cmem \<times> StrPair) option" where
  "ParseText p endTag strFlags m sp =
     (case p of (b, i) \<Rightarrow>
        Option.bind (load_block b m) (\<lambda>buf.
          if endTag = [] \<or> NUL \<notin> set (drop i buf) then None
          else case text_loop endTag (zstr (drop i buf)) 0 of
                 None \<Rightarrow> Some (None, m, sp)
               | Some k \<Rightarrow>
                   map_option (\<lambda>(m, sp). (Some (b, i + k + length endTag), m, sp))
                     (StrPair_Set (b, i) (b, i + k) strFlags m sp)))"

fun xml_name_loop :: "string \<Rightarrow> bool \<Rightarrow> nat \<Rightarrow> nat" where
  "xml_name_loop [] first k = k"
| "xml_name_loop (c # p) first k =
     (if (if first then IsNameStartChar c else IsNameChar c) then xml_name_loop p False (Suc k) else k)"

definition ParseName :: "ptr option \<Rightarrow> cmem \<Rightarrow> StrPair \<Rightarrow> (ptr option \<times> cmem \<times> StrPair) option" where
  "ParseName p m sp =
     (case p of
        None \<Rightarrow> Some (None, m, sp)
      | Some (b, i) \<Rightarrow>
          Option.bind (load_block b m) (\<lambda>buf.
            if NUL \<notin> set (drop i buf) then None
            else
              let s = zstr (drop i buf); k = xml_name_loop s True 0 in
              if s = [] then Some (None, m, sp)
              else if k > 0 then
                map_option (\<lambda>(m, sp). (Some (b, i + k), m, sp)) (StrPair_Set (b, i) (b, i + k) 0 m sp)
              else Some (None, m, sp)))"

subsection \<open>GetStr\<close>

definition find_entity :: "string \<Rightarrow> (string \<times> char) option" where
  "find_entity s =
     List.find (\<lambda>(pattern, value). strncmp_eq s pattern (length pattern) \<and> cur (drop (length pattern) s) = CHR '';'') entities"

text \<open>One round of the loop at the C string \<open>s\<close>: how many characters are consumed, and what is written, where
  \<open>None\<close> means that the write pointer moves over one byte without writing it. A null pointer from
  \<open>GetCharacterRef\<close> is dereferenced in the next round.\<close>

definition getstr_step :: "nat \<Rightarrow> string \<Rightarrow> (nat \<times> string option) option" where
  "getstr_step flags s =
     (if flags AND NEEDS_NEWLINE_NORMALIZATION \<noteq> 0 \<and> cur s = CR then
        Some (if cur (drop 1 s) = LF then 2 else 1, Some [LF])
      else if flags AND NEEDS_NEWLINE_NORMALIZATION \<noteq> 0 \<and> cur s = LF then
        Some (if cur (drop 1 s) = CR then 2 else 1, Some [LF])
      else if flags AND NEEDS_ENTITY_PROCESSING \<noteq> 0 \<and> cur s = CHR ''&'' then
        if cur (drop 1 s) = CHR ''#'' then map_option (\<lambda>(k, value). (k, Some value)) (GetCharacterRef s)
        else case find_entity (drop 1 s) of
               Some (pattern, value) \<Rightarrow> Some (length pattern + 2, Some [value])
             | None \<Rightarrow> Some (1, None)
      else Some (1, Some [cur s]))"

lemma getstr_step_pos: "getstr_step flags s = Some (k, w) \<Longrightarrow> 0 < k"
  by (auto simp: getstr_step_def GetCharacterRef_def Let_def split: if_splits option.splits)

function getstr_loop :: "nat \<Rightarrow> nat \<Rightarrow> string \<Rightarrow> nat \<Rightarrow> nat \<Rightarrow> (string \<times> nat) option" where
  "getstr_loop flags e buf p q =
     (if p < e then
        case getstr_step flags (zstr (drop p buf)) of
          None \<Rightarrow> None
        | Some (k, None) \<Rightarrow> getstr_loop flags e buf (p + k) (q + 1)
        | Some (k, Some v) \<Rightarrow> (case write_at q v buf of None \<Rightarrow> None | Some buf \<Rightarrow> getstr_loop flags e buf (p + k) (q + length v))
      else Some (buf, q))"
  by pat_completeness auto
termination by (relation "measure (\<lambda>(flags, e, buf, p, q). e - p)") (auto dest: getstr_step_pos)

declare getstr_loop.simps [simp del]

lemma getstr_loop_steps:
  "p < e \<Longrightarrow> getstr_step flags (zstr (drop p buf)) = Some (k, Some v) \<Longrightarrow> write_at q v buf = Some buf' \<Longrightarrow>
     getstr_loop flags e buf p q = getstr_loop flags e buf' (p + k) (q + length v)"
  "p < e \<Longrightarrow> getstr_step flags (zstr (drop p buf)) = Some (k, None) \<Longrightarrow>
     getstr_loop flags e buf p q = getstr_loop flags e buf (p + k) (q + 1)"
  "p < e \<Longrightarrow> getstr_step flags (zstr (drop p buf)) = None \<Longrightarrow> getstr_loop flags e buf p q = None"
  "e \<le> p \<Longrightarrow> getstr_loop flags e buf p q = Some (buf, q)"
  by (subst getstr_loop.simps, simp)+

definition skip_count :: "string \<Rightarrow> nat" where
  "skip_count s = length s - length (SkipWhiteSpace s)"

lemma length_write_at: "write_at q v buf = Some buf' \<Longrightarrow> length buf' = length buf"
  by (auto simp: write_at_def split: if_splits)

lemma cur_drop_length: "cur (drop p buf) \<noteq> NUL \<Longrightarrow> p < length buf"
  by (rule ccontr) (simp add: cur_def NUL_def)

function collapse_loop :: "string \<Rightarrow> nat \<Rightarrow> nat \<Rightarrow> string option" where
  "collapse_loop buf p q =
     (let c = cur (drop p buf) in
      if c = NUL then write_at q [NUL] buf
      else if IsWhiteSpace c then
        let p = p + skip_count (drop p buf) in
        if cur (drop p buf) = NUL then write_at q [NUL] buf
        else
          case write_at q '' '' buf of
            None \<Rightarrow> None
          | Some buf \<Rightarrow> (case write_at (q + 1) [cur (drop p buf)] buf of None \<Rightarrow> None | Some buf \<Rightarrow> collapse_loop buf (p + 1) (q + 2))
      else case write_at q [c] buf of None \<Rightarrow> None | Some buf \<Rightarrow> collapse_loop buf (p + 1) (q + 1))"
  by pat_completeness auto
termination
  by (relation "measure (\<lambda>(buf, p, q). length buf - p)") (auto dest!: length_write_at cur_drop_length)

declare collapse_loop.simps [simp del]

definition CollapseWhitespace :: "string \<Rightarrow> nat \<Rightarrow> (string \<times> nat) option" where
  "CollapseWhitespace buf start =
     (if NUL \<notin> set (drop start buf) then None
      else
        let start = start + skip_count (drop start buf) in
        if cur (drop start buf) \<noteq> NUL then map_option (\<lambda>buf. (buf, start)) (collapse_loop buf start start)
        else Some (buf, start))"

definition GetStr :: "cmem \<Rightarrow> StrPair \<Rightarrow> (ptr option \<times> cmem \<times> StrPair) option" where
  "GetStr m sp =
     (if sp_flags sp AND NEEDS_FLUSH \<noteq> 0 then
        case (sp_start sp, sp_end sp) of
          (Some (b, i), Some (b', j)) \<Rightarrow>
            if b \<noteq> b' then None
            else
              Option.bind (load_block b m) (\<lambda>buf.
              Option.bind (write_at j [NUL] buf) (\<lambda>buf.
              let flags = sp_flags sp XOR NEEDS_FLUSH in
              Option.bind
                (if flags \<noteq> 0 then Option.bind (getstr_loop flags j buf i i) (\<lambda>(buf, q). write_at q [NUL] buf) else Some buf) (\<lambda>buf.
              Option.bind (if flags AND COLLAPSE_WHITESPACE \<noteq> 0 then CollapseWhitespace buf i else Some (buf, i)) (\<lambda>(buf, i).
              Some (Some (b, i), store_block b buf m, sp\<lparr>sp_flags := flags AND NEEDS_DELETE, sp_start := Some (b, i)\<rparr>)))))
        | _ \<Rightarrow> None
      else Some (sp_start sp, m, sp))"

section \<open>The translation in place\<close>

lemma cur_NUL: "cur s \<noteq> NUL \<Longrightarrow> s \<noteq> []"
  by (auto simp: cur_def NUL_def)

lemma find_entity_bound: "find_entity s = Some (pattern, v) \<Longrightarrow> length pattern < length s"
  using cur_drop_length [of "length pattern" s] by (auto simp: find_entity_def find_Some_iff NUL_def)

lemma getstr_step_bound:
  assumes "getstr_step flags s = Some (k, w)" "s \<noteq> []"
  shows "k \<le> length s" "\<And>v. w = Some v \<Longrightarrow> length v \<le> k" "w = None \<Longrightarrow> k = 1"
proof -
  have two: "2 \<le> length s" if "cur (drop (Suc 0) s) = LF \<or> cur (drop (Suc 0) s) = CR"
    using cur_drop_length [of 1 s] that by (auto simp: LF_def CR_def NUL_def)
  have ent: "length pattern + 2 \<le> length s" if "find_entity (drop 1 s) = Some (pattern, v)" for pattern v
    using find_entity_bound [OF that] by simp
  show "k \<le> length s" "\<And>v. w = Some v \<Longrightarrow> length v \<le> k" "w = None \<Longrightarrow> k = 1"
    using assms two ent GetCharacterRef_bound [of s]
    by (auto simp: getstr_step_def Suc_le_eq split: if_splits option.splits)
qed

text \<open>The pure function: the translation of a text, where it is defined by the text alone.\<close>

function decode :: "nat \<Rightarrow> string \<Rightarrow> string option" where
  "decode flags s =
     (if s = [] then Some []
      else case getstr_step flags s of
             Some (k, Some v) \<Rightarrow> map_option ((@) v) (decode flags (drop k s))
           | _ \<Rightarrow> None)"
  by pat_completeness auto
termination by (relation "measure (\<lambda>(flags, s). length s)") (auto dest: getstr_step_pos)

declare decode.simps [simp del]

lemma take_drop_append [simp]: "take n s @ drop n s @ x = s @ x"
  by (simp flip: append_assoc)

lemma zstr_append: "NUL \<notin> set s \<Longrightarrow> zstr (s @ NUL # r) = s"
  unfolding zstr_def by (induction s) auto

lemma write_at_region:
  "length v \<le> length x \<Longrightarrow> write_at (length d) v (d @ x @ y) = Some (d @ v @ drop (length v) x @ y)"
  by (simp add: write_at_def)

lemma getstr_loop_decode:
  assumes "decode flags s = Some t" "NUL \<notin> set s"
  shows "\<exists>junk'. getstr_loop flags (length d + length junk + length s) (d @ junk @ s @ NUL # r) (length d + length junk) (length d) =
      Some (d @ t @ junk' @ NUL # r, length d + length t) \<and> length t + length junk' = length junk + length s"
  using assms
proof (induction flags s arbitrary: d junk t rule: decode.induct)
  case (1 flags s)
  let ?p = "length d + length junk"
  show ?case
  proof (cases "s = []")
    case True
    then show ?thesis using 1(2) by (simp add: decode.simps getstr_loop.simps)
  next
    case False
    then obtain k v t' where step: "getstr_step flags s = Some (k, Some v)" and t': "decode flags (drop k s) = Some t'" "t = v @ t'"
      using 1(2) by (subst (asm) decode.simps) (auto split: option.splits)
    note b = getstr_step_bound [OF step False]
    have k: "k \<le> length s" "length v \<le> k" using b(1,2) by auto
    let ?junk = "drop (length v) (junk @ take k s)"
    have len: "length (d @ v) + length ?junk = ?p + k" using k by simp
    have buf: "d @ junk @ s @ NUL # r = d @ (junk @ take k s) @ (drop k s @ NUL # r)" by simp
    have w: "write_at (length d) v (d @ junk @ s @ NUL # r) = Some ((d @ v) @ ?junk @ drop k s @ NUL # r)"
      unfolding buf by (subst write_at_region) (use k in simp_all)
    have "getstr_loop flags (?p + length s) (d @ junk @ s @ NUL # r) ?p (length d) =
        getstr_loop flags (?p + length s) ((d @ v) @ ?junk @ drop k s @ NUL # r) (?p + k) (length d + length v)"
      using False 1(3) step by (intro getstr_loop_steps(1) w) (simp_all add: zstr_append)
    also have "\<dots> = getstr_loop flags (length (d @ v) + length ?junk + length (drop k s)) ((d @ v) @ ?junk @ drop k s @ NUL # r)
          (length (d @ v) + length ?junk) (length (d @ v))"
      unfolding len using k(1) by (simp add: add.assoc)
    finally have "getstr_loop flags (?p + length s) (d @ junk @ s @ NUL # r) ?p (length d) = \<dots>" .
    moreover have "NUL \<notin> set (drop k s)" using 1(3) by (auto dest: in_set_dropD)
    ultimately show ?thesis using 1(1) [OF False step _ _ t'(1), of "Some v" v "d @ v" ?junk] k t'(2) by auto
  qed
qed

text \<open>In general the loop stays inside of the text, unless it meets a reference that is malformed.\<close>

definition malformed_ref :: "string \<Rightarrow> bool" where
  "malformed_ref s \<longleftrightarrow> (\<exists>i < length s. take 2 (drop i s) = ''&#'' \<and> GetCharacterRef (drop i s) = None)"

lemma take2_ref: "cur s = CHR ''&'' \<Longrightarrow> cur (drop 1 s) = CHR ''#'' \<Longrightarrow> take 2 s = ''&#''"
  by (cases s; cases "tl s") (auto simp: cur_def numeral_2_eq_2)

lemma getstr_step_None:
  "getstr_step flags s = None \<Longrightarrow> take 2 s = ''&#'' \<and> GetCharacterRef s = None"
  using take2_ref by (auto simp: getstr_step_def split: if_splits option.splits)

lemma malformed_drop: "malformed_ref (drop k s) \<Longrightarrow> malformed_ref s"
proof -
  assume "malformed_ref (drop k s)"
  then obtain i where "i < length (drop k s)" "take 2 (drop i (drop k s)) = ''&#''" "GetCharacterRef (drop i (drop k s)) = None"
    by (auto simp: malformed_ref_def)
  then show ?thesis unfolding malformed_ref_def by (intro exI [of _ "i + k"]) (auto simp: ac_simps)
qed

text \<open>One round, with the text before the read pointer in \<open>a\<close>.\<close>

lemma getstr_round:
  assumes "getstr_step flags s = Some (k, w)" "s \<noteq> []" "NUL \<notin> set s" "q \<le> length a"
  shows "\<exists>a' q'. getstr_loop flags (length a + length s) (a @ s @ NUL # r) (length a) q =
      getstr_loop flags (length a' + length (drop k s)) (a' @ drop k s @ NUL # r) (length a') q' \<and>
      q \<le> q' \<and> q' \<le> length a' \<and> length a' = length a + k \<and> take q a' = take q a"
proof -
  have lt: "length a < length a + length s" using assms(2) by simp
  have cs: "zstr (drop (length a) (a @ s @ NUL # r)) = s" using assms(3) by (simp add: zstr_append)
  note b = getstr_step_bound [OF assms(1,2)]
  show ?thesis
  proof (cases w)
    case None
    have "getstr_loop flags (length a + length s) (a @ s @ NUL # r) (length a) q =
        getstr_loop flags (length a + length s) (a @ s @ NUL # r) (length a + k) (q + 1)"
      by (intro getstr_loop_steps(2) lt) (simp only: cs assms(1) None)
    moreover have "Suc (length a + length s - Suc 0) = length a + length s" using assms(2) by simp
    ultimately show ?thesis using b None assms(4)
      by (intro exI [of _ "a @ take k s"] exI [of _ "q + 1"]) simp
  next
    case (Some v)
    let ?x = "drop q a @ take k s"
    define a' where "a' = take q a @ v @ drop (length v) ?x"
    have v: "length v \<le> k" "k \<le> length s" using b Some by auto
    have a': "length a' = length a + k" "take q a' = take q a" using v assms(4) unfolding a'_def by (auto simp: min_def)
    have "write_at (length (take q a)) v (take q a @ ?x @ drop k s @ NUL # r) = Some (a' @ drop k s @ NUL # r)"
      using v unfolding a'_def by (subst write_at_region) simp_all
    then have w: "write_at q v (a @ s @ NUL # r) = Some (a' @ drop k s @ NUL # r)" using assms(4) by simp
    have "getstr_loop flags (length a + length s) (a @ s @ NUL # r) (length a) q =
        getstr_loop flags (length a + length s) (a' @ drop k s @ NUL # r) (length a + k) (q + length v)"
      by (intro getstr_loop_steps(1) lt w) (simp only: cs assms(1) Some)
    then show ?thesis using v a' assms(4) by (intro exI [of _ a'] exI [of _ "q + length v"]) simp
  qed
qed

lemma getstr_loop_safe:
  assumes "NUL \<notin> set s" "q \<le> length a"
  shows "(getstr_loop flags (length a + length s) (a @ s @ NUL # r) (length a) q = None \<longrightarrow> malformed_ref s) \<and>
    (\<forall>buf q'. getstr_loop flags (length a + length s) (a @ s @ NUL # r) (length a) q = Some (buf, q') \<longrightarrow>
       (\<exists>a'. buf = a' @ NUL # r \<and> length a' = length a + length s \<and> take q a' = take q a \<and> q \<le> q' \<and> q' \<le> length a'))"
  using assms
proof (induction "length s" arbitrary: s a q rule: less_induct)
  case less
  show ?case
  proof (cases "s = []")
    case True
    then show ?thesis using less.prems by (auto simp: getstr_loop_steps(4))
  next
    case False
    show ?thesis
    proof (cases "getstr_step flags s")
      case None
      have "malformed_ref s" using getstr_step_None [OF None] False by (auto simp: malformed_ref_def intro!: exI [of _ 0])
      moreover have "getstr_loop flags (length a + length s) (a @ s @ NUL # r) (length a) q = None"
        using None False less.prems by (intro getstr_loop_steps(3)) (simp_all add: zstr_append)
      ultimately show ?thesis by simp
    next
      case (Some kw)
      obtain k w where step: "getstr_step flags s = Some (k, w)" using Some by (cases kw) auto
      from getstr_round [OF step False less.prems] obtain a' q' where
        e: "getstr_loop flags (length a + length s) (a @ s @ NUL # r) (length a) q =
          getstr_loop flags (length a' + length (drop k s)) (a' @ drop k s @ NUL # r) (length a') q'"
        and q: "q \<le> q'" "q' \<le> length a'" "length a' = length a + k" "take q a' = take q a" by blast
      have tk: "take q x = take q a" if "take q' x = take q' a'" for x using q(1,4) that by (metis min.absorb1 take_take)
      have "length (drop k s) < length s" "NUL \<notin> set (drop k s)" "k \<le> length s"
        using getstr_step_pos [OF step] getstr_step_bound(1) [OF step False] False less.prems(1) by (auto dest: in_set_dropD)
      then show ?thesis unfolding e using less.hyps [of "drop k s" q' a'] q tk malformed_drop [of k s] by fastforce
    qed
  qed
qed

section \<open>Reading a piece of the document\<close>

definition piece :: "nat \<Rightarrow> nat \<Rightarrow> nat \<Rightarrow> nat \<Rightarrow> StrPair" where
  "piece flags b i j = \<lparr>sp_flags = flags OR NEEDS_FLUSH, sp_start = Some (b, i), sp_end = Some (b, j)\<rparr>"

lemma public_flags:
  assumes "flags < 8"
  shows "(flags OR NEEDS_FLUSH) AND NEEDS_FLUSH \<noteq> 0" "(flags OR NEEDS_FLUSH) XOR NEEDS_FLUSH = flags"
    "(flags OR NEEDS_FLUSH) AND NEEDS_DELETE = 0" "flags AND NEEDS_DELETE = 0" "flags AND NEEDS_FLUSH = 0"
    "(flags OR NEEDS_DELETE) AND NEEDS_DELETE \<noteq> 0" "(flags OR NEEDS_DELETE) AND NEEDS_FLUSH = 0"
proof -
  have "flags \<in> {0, 1, 2, 3, 4, 5, 6, 7}" using assms by auto
  then show "(flags OR NEEDS_FLUSH) AND NEEDS_FLUSH \<noteq> 0" "(flags OR NEEDS_FLUSH) XOR NEEDS_FLUSH = flags"
    "(flags OR NEEDS_FLUSH) AND NEEDS_DELETE = 0" "flags AND NEEDS_DELETE = 0" "flags AND NEEDS_FLUSH = 0"
    "(flags OR NEEDS_DELETE) AND NEEDS_DELETE \<noteq> 0" "(flags OR NEEDS_DELETE) AND NEEDS_FLUSH = 0"
    by (auto simp: flag_defs)
qed

lemma no_collapse: "flags < 4 \<Longrightarrow> flags AND COLLAPSE_WHITESPACE = 0"
proof -
  assume "flags < 4"
  then have "flags \<in> {0, 1, 2, 3}" by auto
  then show ?thesis by (auto simp: flag_defs)
qed

lemma write_end: "write_at (length pre + length s) [NUL] (pre @ s @ c # r) = Some (pre @ s @ NUL # r)"
  by (simp add: write_at_def)

text \<open>The reading of a piece by the loop and the final zero.\<close>

definition translate :: "nat \<Rightarrow> string \<Rightarrow> string \<Rightarrow> string \<Rightarrow> string option" where
  "translate flags pre s r =
     (if flags = 0 then Some (pre @ s @ NUL # r)
      else Option.bind (getstr_loop flags (length pre + length s) (pre @ s @ NUL # r) (length pre) (length pre))
             (\<lambda>(buf, q). write_at q [NUL] buf))"

lemma GetStr_piece:
  assumes "blk m b = Some (pre @ s @ c # r)" "flags < 4"
  shows "GetStr m (piece flags b (length pre) (length pre + length s)) =
    map_option (\<lambda>buf. (Some (b, length pre), store_block b buf m,
        \<lparr>sp_flags = 0, sp_start = Some (b, length pre), sp_end = Some (b, length pre + length s)\<rparr>))
      (translate flags pre s r)"
  using assms public_flags [of flags] no_collapse [OF assms(2)]
  by (auto simp: GetStr_def piece_def load_block_def write_end translate_def Let_def split: option.splits bind_splits)



lemma decode_plain:
  "flags AND NEEDS_NEWLINE_NORMALIZATION = 0 \<Longrightarrow> flags AND NEEDS_ENTITY_PROCESSING = 0 \<Longrightarrow> decode flags s = Some s"
proof (induction s)
  case (Cons c s)
  then show ?case by (subst decode.simps) (simp add: getstr_step_def cur_def)
qed (simp add: decode.simps)

lemma GetStr_decode:
  assumes "blk m b = Some (pre @ s @ c # r)" "NUL \<notin> set s" "flags < 4" "decode flags s = Some t"
  shows "\<exists>m' sp w. GetStr m (piece flags b (length pre) (length pre + length s)) = Some (Some (b, length pre), m', sp) \<and>
    blk m' = (blk m)(b \<mapsto> pre @ t @ NUL # w) \<and> length t + length w = length s + length r"
proof -
  have "\<exists>w. translate flags pre s r = Some (pre @ t @ NUL # w) \<and> length t + length w = length s + length r"
  proof (cases "flags = 0")
    case True
    then show ?thesis using assms(4) by (auto simp: translate_def decode_plain)
  next
    case False
    from getstr_loop_decode [OF assms(4,2), of pre "[]" r] obtain junk where
      "getstr_loop flags (length pre + length s) (pre @ s @ NUL # r) (length pre) (length pre) = Some (pre @ t @ junk @ NUL # r, length pre + length t)"
      and len: "length t + length junk = length s" by auto
    moreover have "write_at (length (pre @ t)) [NUL] ((pre @ t) @ (junk @ [NUL]) @ r) = Some ((pre @ t) @ [NUL] @ drop 1 (junk @ [NUL]) @ r)"
      by (subst write_at_region) simp_all
    ultimately show ?thesis using False by (intro exI [of _ "drop 1 (junk @ [NUL]) @ r"]) (auto simp: translate_def)
  qed
  then show ?thesis using GetStr_piece [OF assms(1,3)] by (auto simp: store_block_def)
qed

text \<open>The reference for the line ends.\<close>

fun norm_lines :: "string \<Rightarrow> string" where
  "norm_lines [] = []"
| "norm_lines (c # s) =
     (if c = CR then LF # norm_lines (if cur s = LF then tl s else s)
      else if c = LF then LF # norm_lines (if cur s = CR then tl s else s)
      else c # norm_lines s)"

lemma decode_lines: "NUL \<notin> set s \<Longrightarrow> decode NEEDS_NEWLINE_NORMALIZATION s = Some (norm_lines s)"
proof (induction s rule: norm_lines.induct)
  case (2 c s)
  have tl: "NUL \<notin> set (tl s)" using 2(4) by (cases s) auto
  have flags: "NEEDS_NEWLINE_NORMALIZATION AND NEEDS_NEWLINE_NORMALIZATION \<noteq> 0" "NEEDS_NEWLINE_NORMALIZATION AND NEEDS_ENTITY_PROCESSING = 0"
    by (simp_all add: flag_defs)
  have "CR \<noteq> LF" by (simp add: CR_def LF_def)
  then show ?case using 2 tl flags by (subst decode.simps) (auto simp: getstr_step_def cur_def drop_Suc numeral_2_eq_2)
qed (simp add: decode.simps)

text \<open>A comment, a declaration or any piece that only needs its line ends normalised reads as the text in
  which each of CR LF, LF CR, CR and LF has become one LF.\<close>

theorem getstr_lines:
  assumes "blk m b = Some (pre @ s @ c # r)" "NUL \<notin> set s"
  shows "\<exists>m' sp w. GetStr m (piece COMMENT b (length pre) (length pre + length s)) = Some (Some (b, length pre), m', sp) \<and>
    blk m' b = Some (pre @ norm_lines s @ NUL # w)"
proof -
  have "decode COMMENT s = Some (norm_lines s)" using decode_lines [OF assms(2)] by (simp add: COMMENT_def)
  then show ?thesis using GetStr_decode [OF assms, of COMMENT] by (fastforce simp: flag_defs)
qed

text \<open>A comment with the line end of DOS.\<close>

theorem getstr_lines_witness:
  "\<exists>m' sp w. GetStr \<lparr>blk = [0 \<mapsto> ''<!--'' @ [CHR ''a'', CR, LF] @ ''-->'' @ [NUL]], nblk = 1\<rparr> (piece COMMENT 0 (length ''<!--'') (length ''<!--'' + length [CHR ''a'', CR, LF])) =
      Some (Some (0, 4), m', sp) \<and> blk m' 0 = Some (''<!--'' @ [CHR ''a'', LF] @ NUL # w)"
proof -
  let ?m = "\<lparr>blk = [0 \<mapsto> ''<!--'' @ [CHR ''a'', CR, LF] @ ''-->'' @ [NUL]], nblk = 1\<rparr>"
  have chars: "CHR ''a'' \<noteq> NUL" "CR \<noteq> NUL" "LF \<noteq> NUL" "CHR ''a'' \<noteq> CR" "CHR ''a'' \<noteq> LF" by (simp_all add: NUL_def CR_def LF_def)
  have "norm_lines [CHR ''a'', CR, LF] = [CHR ''a'', LF]" using chars by (simp add: cur_def)
  then show ?thesis
    using getstr_lines [of ?m 0 "''<!--''" "[CHR ''a'', CR, LF]" "CHR ''-''" "''->'' @ [NUL]"] chars by auto
qed

text \<open>Two texts that are not well-formed: after an entity an unknown one leaves a character of the
  source text in the result, and a reference that is not a number is dereferenced as a null pointer.\<close>

theorem getstr_malformed:
  "(case GetStr \<lparr>blk = [0 \<mapsto> ''&lt;&foo<'' @ [NUL]], nblk = 1\<rparr> (piece TEXT_ELEMENT 0 0 8) of
      Some (p, m, sp) \<Rightarrow> p = Some (0, 0) \<and> map_option zstr (blk m 0) = Some ''<lfoo''
    | None \<Rightarrow> False) \<and>
   GetStr \<lparr>blk = [0 \<mapsto> ''&#a;<'' @ [NUL]], nblk = 1\<rparr> (piece TEXT_ELEMENT 0 0 4) = None"
  by code_simp

section \<open>White space\<close>

text \<open>The text that the loop writes.\<close>

function squeeze :: "string \<Rightarrow> string" where
  "squeeze [] = []"
| "squeeze (c # s) =
     (if IsWhiteSpace c then (case dropWhile IsWhiteSpace s of [] \<Rightarrow> [] | d # t \<Rightarrow> CHR '' '' # d # squeeze t)
      else c # squeeze s)"
  by pat_completeness auto
termination
proof (relation "measure length")
  fix c s d t assume "dropWhile IsWhiteSpace s = d # t"
  then have "length (d # t) \<le> length s" by (metis length_dropWhile_le)
  then show "(t, c # s) \<in> measure length" by simp
qed simp_all

lemma SkipWhiteSpace_dropWhile: "SkipWhiteSpace s = dropWhile IsWhiteSpace s"
  by (induction s) (simp_all add: IsWhiteSpace_def)

lemma skip_count_takeWhile: "skip_count s = length (takeWhile IsWhiteSpace s)"
proof -
  have "length s = length (takeWhile IsWhiteSpace s) + length (dropWhile IsWhiteSpace s)"
    by (metis length_append takeWhile_dropWhile_id)
  then show ?thesis by (simp add: skip_count_def SkipWhiteSpace_dropWhile)
qed

lemma ws_NUL [simp]: "\<not> IsWhiteSpace NUL"
  by (simp add: IsWhiteSpace_def isspace_def code_def NUL_def)

lemma ws_stop [simp]: "takeWhile IsWhiteSpace (s @ NUL # r) = takeWhile IsWhiteSpace s"
  by (induction s) simp_all

text \<open>The rounds of the loop, as equations.\<close>

lemma collapse_loop_steps:
  "cur (drop p buf) = NUL \<Longrightarrow> collapse_loop buf p q = write_at q [NUL] buf"
  "cur (drop p buf) \<noteq> NUL \<Longrightarrow> \<not> IsWhiteSpace (cur (drop p buf)) \<Longrightarrow> write_at q [cur (drop p buf)] buf = Some buf' \<Longrightarrow>
     collapse_loop buf p q = collapse_loop buf' (p + 1) (q + 1)"
  "IsWhiteSpace (cur (drop p buf)) \<Longrightarrow> p' = p + skip_count (drop p buf) \<Longrightarrow> cur (drop p' buf) = NUL \<Longrightarrow>
     collapse_loop buf p q = write_at q [NUL] buf"
  "IsWhiteSpace (cur (drop p buf)) \<Longrightarrow> p' = p + skip_count (drop p buf) \<Longrightarrow> cur (drop p' buf) \<noteq> NUL \<Longrightarrow>
     write_at q '' '' buf = Some buf1 \<Longrightarrow> write_at (q + 1) [cur (drop p' buf1)] buf1 = Some buf2 \<Longrightarrow>
     collapse_loop buf p q = collapse_loop buf2 (p' + 1) (q + 2)"
proof -
  have ws: "IsWhiteSpace c \<Longrightarrow> c \<noteq> NUL" for c by auto
  show "cur (drop p buf) = NUL \<Longrightarrow> collapse_loop buf p q = write_at q [NUL] buf"
    "cur (drop p buf) \<noteq> NUL \<Longrightarrow> \<not> IsWhiteSpace (cur (drop p buf)) \<Longrightarrow> write_at q [cur (drop p buf)] buf = Some buf' \<Longrightarrow>
       collapse_loop buf p q = collapse_loop buf' (p + 1) (q + 1)"
    "IsWhiteSpace (cur (drop p buf)) \<Longrightarrow> p' = p + skip_count (drop p buf) \<Longrightarrow> cur (drop p' buf) = NUL \<Longrightarrow>
       collapse_loop buf p q = write_at q [NUL] buf"
    "IsWhiteSpace (cur (drop p buf)) \<Longrightarrow> p' = p + skip_count (drop p buf) \<Longrightarrow> cur (drop p' buf) \<noteq> NUL \<Longrightarrow>
       write_at q '' '' buf = Some buf1 \<Longrightarrow> write_at (q + 1) [cur (drop p' buf1)] buf1 = Some buf2 \<Longrightarrow>
       collapse_loop buf p q = collapse_loop buf2 (p' + 1) (q + 2)"
    by (subst collapse_loop.simps, auto simp: Let_def dest: ws)+
qed

lemma write_over:
  assumes "length v \<le> length x"
  obtains junk where "write_at (length d) v (d @ x @ y) = Some ((d @ v) @ junk @ y)" "length (d @ v) + length junk = length d + length x"
  using assms write_at_region [of v x d y] that [of "drop (length v) x"] by simp

lemma collapse_loop_squeeze:
  "NUL \<notin> set s \<Longrightarrow> p = length d + length junk \<Longrightarrow> \<exists>w. collapse_loop (d @ junk @ s @ NUL # r) p (length d) = Some (d @ squeeze s @ NUL # w)"
proof (induction s arbitrary: d junk p rule: squeeze.induct)
  case 1
  obtain j where "write_at (length d) [NUL] (d @ (junk @ [NUL]) @ r) = Some ((d @ [NUL]) @ j @ r)" by (rule write_over [of "[NUL]" "junk @ [NUL]"]) auto
  then show ?case using 1 by (subst collapse_loop_steps(1)) (auto simp: cur_def)
next
  case (2 c s)
  have c: "c \<noteq> NUL" "NUL \<notin> set s" using 2(3) by auto
  show ?case
  proof (cases "IsWhiteSpace c")
    case False
    obtain j where j: "write_at (length d) [c] (d @ (junk @ [c]) @ s @ NUL # r) = Some ((d @ [c]) @ j @ s @ NUL # r)"
      "length (d @ [c]) + length j = length d + length (junk @ [c])" by (rule write_over [of "[c]" "junk @ [c]"]) auto
    then have "collapse_loop (d @ junk @ (c # s) @ NUL # r) p (length d) = collapse_loop ((d @ [c]) @ j @ s @ NUL # r) (p + 1) (length d + 1)"
      using False c 2(4) by (intro collapse_loop_steps(2)) (auto simp: cur_def)
    then show ?thesis using 2(2) [OF False, of "p + 1" "d @ [c]" j] c j(2) 2(4) False by simp
  next
    case True
    let ?ws = "takeWhile IsWhiteSpace s" and ?buf = "d @ junk @ (c # s) @ NUL # r"
    have skip: "p + skip_count (drop p ?buf) = p + 1 + length ?ws"
      using True 2(4) c by (simp add: skip_count_takeWhile)
    have s: "s = ?ws @ dropWhile IsWhiteSpace s" by simp
    show ?thesis
    proof (cases "dropWhile IsWhiteSpace s")
      case Nil
      then have "?ws = s" using s by simp
      obtain j where "write_at (length d) [NUL] (d @ (junk @ c # s @ [NUL]) @ r) = Some ((d @ [NUL]) @ j @ r)"
        by (rule write_over [of "[NUL]" "junk @ c # s @ [NUL]"]) auto
      moreover have "collapse_loop ?buf p (length d) = write_at (length d) [NUL] ?buf"
        using True 2(4) by (intro collapse_loop_steps(3) [OF _ skip [symmetric], unfolded \<open>?ws = s\<close>]) (auto simp: cur_def NUL_def)
      moreover have "squeeze (c # s) = []" using True by (simp add: Nil)
      ultimately show ?thesis by simp
    next
      case (Cons e u)
      have buf: "?buf = d @ (junk @ c # ?ws) @ e # u @ NUL # r" using s Cons by (metis append.assoc append_Cons)
      obtain j1 where j1: "write_at (length d) '' '' (d @ (junk @ c # ?ws) @ e # u @ NUL # r) = Some ((d @ '' '') @ j1 @ e # u @ NUL # r)"
        "length (d @ '' '') + length j1 = length d + length (junk @ c # ?ws)" by (rule write_over [of "'' ''" "junk @ c # ?ws"]) auto
      obtain j2 where j2: "write_at (length (d @ '' '')) [e] ((d @ '' '') @ (j1 @ [e]) @ u @ NUL # r) = Some (((d @ '' '') @ [e]) @ j2 @ u @ NUL # r)"
        "length ((d @ '' '') @ [e]) + length j2 = length (d @ '' '') + length (j1 @ [e])" by (rule write_over [of "[e]" "j1 @ [e]" "d @ '' ''" "u @ NUL # r"]) auto
      have "e \<noteq> NUL" "NUL \<notin> set u" using c s Cons by (metis in_set_conv_decomp set_dropWhileD list.set_intros)+
      then have "collapse_loop ?buf p (length d) = collapse_loop (((d @ '' '') @ [e]) @ j2 @ u @ NUL # r) (p + 1 + length ?ws + 1) (length d + 2)"
        using True 2(4) j1 j2 unfolding buf
        by (intro collapse_loop_steps(4) [where ?buf1.0 = "(d @ '' '') @ j1 @ e # u @ NUL # r", OF _ skip [symmetric, unfolded buf]]) (auto simp: cur_def)
      then show ?thesis using 2(1) [OF True Cons, of "p + 1 + length ?ws + 1" "(d @ '' '') @ [e]" j2] \<open>NUL \<notin> set u\<close> j1(2) j2(2) 2(4) True Cons by simp
    qed
  qed
qed

text \<open>The reference: the words of a text with one space between them.\<close>

function xml_words :: "string \<Rightarrow> string list" where
  "xml_words s =
     (let t = dropWhile IsWhiteSpace s in
      if t = [] then [] else takeWhile (\<lambda>c. \<not> IsWhiteSpace c) t # xml_words (dropWhile (\<lambda>c. \<not> IsWhiteSpace c) t))"
  by pat_completeness auto
termination
proof (relation "measure length")
  fix s t assume t: "t = dropWhile IsWhiteSpace s" "t \<noteq> []"
  then obtain c u where c: "t = c # u" "\<not> IsWhiteSpace c" by (metis hd_dropWhile list.collapse)
  have "length (dropWhile (\<lambda>c. \<not> IsWhiteSpace c) t) \<le> length u" using c by (simp add: length_dropWhile_le)
  moreover have "length t \<le> length s" using t(1) by (simp add: length_dropWhile_le)
  ultimately show "(dropWhile (\<lambda>c. \<not> IsWhiteSpace c) t, s) \<in> measure length" using c by simp
qed simp

declare xml_words.simps [simp del]

fun unwords :: "string list \<Rightarrow> string" where
  "unwords [] = []"
| "unwords [w] = w"
| "unwords (w # v # ws) = w @ CHR '' '' # unwords (v # ws)"

lemma squeeze_word: "\<forall>c \<in> set u. \<not> IsWhiteSpace c \<Longrightarrow> squeeze (u @ v) = u @ squeeze v"
  by (induction u) auto

lemma squeeze_words: "squeeze (dropWhile IsWhiteSpace s) = unwords (xml_words s)"
proof (induction s rule: xml_words.induct)
  case (1 s)
  let ?t = "dropWhile IsWhiteSpace s"
  let ?w = "takeWhile (\<lambda>c. \<not> IsWhiteSpace c) ?t" and ?v = "dropWhile (\<lambda>c. \<not> IsWhiteSpace c) ?t"
  show ?case
  proof (cases "?t = []")
    case True
    show ?thesis by (simp add: True xml_words.simps [of s])
  next
    case False
    have "squeeze (?w @ ?v) = ?w @ squeeze ?v" by (rule squeeze_word) (auto dest: set_takeWhileD)
    then have t: "squeeze ?t = ?w @ squeeze ?v" by simp
    have words: "xml_words s = ?w # xml_words ?v" using False by (subst xml_words.simps) (simp add: Let_def)
    show ?thesis
    proof (cases "dropWhile IsWhiteSpace ?v")
      case Nil
      then have "squeeze ?v = []" by (cases ?v) (auto split: if_splits simp del: dropWhile_eq_Nil_conv)
      moreover have "xml_words ?v = []" by (subst xml_words.simps) (simp add: Nil Let_def)
      ultimately show ?thesis using t words by simp
    next
      case (Cons e u)
      then obtain c v where v: "?v = c # v" by (cases ?v) auto
      have ws: "IsWhiteSpace c" using v hd_dropWhile [of "\<lambda>c. \<not> IsWhiteSpace c" ?t] by simp
      have "\<not> IsWhiteSpace e" using Cons hd_dropWhile [of IsWhiteSpace ?v] by simp
      then have "squeeze ?v = CHR '' '' # squeeze (dropWhile IsWhiteSpace ?v)" using Cons v ws by simp
      moreover have "xml_words ?v \<noteq> []" by (subst xml_words.simps) (simp add: Cons Let_def)
      ultimately show ?thesis using t words 1 [OF refl False] by (cases "xml_words ?v") simp_all
    qed
  qed
qed

lemma squeeze_NUL: "NUL \<notin> set s \<Longrightarrow> NUL \<notin> set (squeeze s)"
proof (induction s rule: squeeze.induct)
  case (2 c s)
  then have "NUL \<notin> set (dropWhile IsWhiteSpace s)" by (auto dest: set_dropWhileD)
  then show ?case using 2 by (cases "dropWhile IsWhiteSpace s") (auto simp: NUL_def simp del: dropWhile_eq_Nil_conv)
qed simp

text \<open>A piece whose white space is to be collapsed reads as its words with one space between them.\<close>

theorem getstr_words:
  assumes "blk m b = Some (pre @ s @ c # r)" "NUL \<notin> set s"
  shows "\<exists>i m' sp buf. GetStr m (piece COLLAPSE_WHITESPACE b (length pre) (length pre + length s)) = Some (Some (b, i), m', sp) \<and>
    blk m' b = Some buf \<and> zstr (drop i buf) = unwords (xml_words s)"
proof -
  let ?buf = "pre @ s @ NUL # r" and ?F = COLLAPSE_WHITESPACE
  have "?F < 8" "?F \<noteq> 0" "?F AND ?F \<noteq> 0" "?F AND NEEDS_NEWLINE_NORMALIZATION = 0" "?F AND NEEDS_ENTITY_PROCESSING = 0"
    by (simp_all add: flag_defs)
  note flags = this public_flags [OF this(1)]
  have "decode ?F s = Some s" by (rule decode_plain) (simp_all add: flags)
  then have loop: "getstr_loop ?F (length pre + length s) ?buf (length pre) (length pre) = Some (?buf, length pre + length s)"
    using getstr_loop_decode [of ?F s s pre "[]" r] assms(2) by auto
  have "\<exists>buf i. CollapseWhitespace ?buf (length pre) = Some (buf, i) \<and> zstr (drop i buf) = unwords (xml_words s)"
  proof (cases "dropWhile IsWhiteSpace s")
    case Nil
    then have "takeWhile IsWhiteSpace s = s" by (metis append_Nil2 takeWhile_dropWhile_id)
    then have "CollapseWhitespace ?buf (length pre) = Some (?buf, length pre + length s)"
      by (simp add: CollapseWhitespace_def Let_def skip_count_takeWhile cur_def del: takeWhile_eq_all_conv)
    moreover have "unwords (xml_words s) = []" using squeeze_words [of s, symmetric] by (simp only: Nil squeeze.simps)
    ultimately show ?thesis by (auto simp: zstr_def)
  next
    case (Cons e u)
    let ?d = "pre @ takeWhile IsWhiteSpace s"
    have buf: "?buf = ?d @ [] @ dropWhile IsWhiteSpace s @ NUL # r" by simp
    have nul: "NUL \<notin> set (dropWhile IsWhiteSpace s)" using assms(2) by (auto dest: set_dropWhileD)
    obtain w where w: "collapse_loop ?buf (length ?d) (length ?d) = Some (?d @ squeeze (dropWhile IsWhiteSpace s) @ NUL # w)"
      using collapse_loop_squeeze [OF nul, of "length ?d" ?d "[]" r] unfolding buf by auto
    have "e \<noteq> NUL" using nul Cons by auto
    then have "cur (drop (length ?d) ?buf) \<noteq> NUL" unfolding buf using Cons by (simp add: cur_def)
    then have "CollapseWhitespace ?buf (length pre) = Some (?d @ squeeze (dropWhile IsWhiteSpace s) @ NUL # w, length ?d)"
      using w by (simp add: CollapseWhitespace_def Let_def skip_count_takeWhile)
    moreover have "NUL \<notin> set (squeeze (dropWhile IsWhiteSpace s))" by (rule squeeze_NUL [OF nul])
    ultimately show ?thesis by (auto simp: squeeze_words zstr_append)
  qed
  then show ?thesis using assms(1) flags loop
    by (fastforce simp: GetStr_def piece_def load_block_def store_block_def write_end Let_def)
qed

text \<open>A text of two words.\<close>

theorem getstr_words_witness:
  "\<exists>i m' sp buf. GetStr \<lparr>blk = [0 \<mapsto> ''<b>'' @ ''  one    two '' @ CHR ''<'' # [NUL]], nblk = 1\<rparr>
      (piece COLLAPSE_WHITESPACE 0 (length ''<b>'') (length ''<b>'' + length ''  one    two '')) = Some (Some (0, i), m', sp) \<and>
    blk m' 0 = Some buf \<and> zstr (drop i buf) = unwords (xml_words ''  one    two '')"
  by (rule getstr_words [where c = "CHR ''<''" and r = "[NUL]"]) (simp_all add: NUL_def)

section \<open>Ownership\<close>

text \<open>A piece that still has to be translated is never owned, so that moving its start is harmless, and an
  owned string starts at a block that exists.\<close>

definition strpair_ok :: "cmem \<Rightarrow> StrPair \<Rightarrow> bool" where
  "strpair_ok m sp \<longleftrightarrow> (sp_flags sp AND NEEDS_FLUSH \<noteq> 0 \<longrightarrow> sp_flags sp AND NEEDS_DELETE = 0) \<and>
     (sp_flags sp AND NEEDS_DELETE \<noteq> 0 \<longrightarrow> (\<exists>b. sp_start sp = Some (b, 0) \<and> blk m b \<noteq> None))"

lemma flush_delete: "(f XOR NEEDS_FLUSH) AND NEEDS_DELETE = f AND NEEDS_DELETE"
proof -
  have "bit NEEDS_FLUSH n \<longleftrightarrow> n = 8" "bit NEEDS_DELETE n \<longleftrightarrow> n = 9" for n
    using bit_exp_iff [of 8 n, where ?'a = nat] bit_exp_iff [of 9 n, where ?'a = nat] by (auto simp: flag_defs possible_bit_def)
  then show ?thesis by (intro bit_eqI) (auto simp: bit_and_iff bit_xor_iff)
qed

lemma Reset_ok: "strpair_ok m sp \<Longrightarrow> \<exists>m'. StrPair_Reset m sp = Some (m', StrPair_new)"
  by (auto simp: strpair_ok_def StrPair_Reset_def StrPair_new_def delete_string_def)



section \<open>Finding the end of a piece\<close>

lemma text_loop_first:
  assumes "\<And>i. i < length s \<Longrightarrow> take (length endTag) (drop i (s @ endTag @ r)) \<noteq> endTag" "endTag \<noteq> []"
  shows "text_loop endTag (s @ endTag @ r) k = Some (k + length s)"
  using assms(1)
proof (induction s arbitrary: k)
  case Nil
  then show ?case using assms(2) by (cases endTag) (simp_all add: strncmp_eq_def cur_def)
next
  case (Cons c s)
  have "take (length endTag) (drop i (s @ endTag @ r)) \<noteq> endTag" if "i < length s" for i using Cons.prems [of "Suc i"] that by simp
  moreover have "take (length endTag) (c # s @ endTag @ r) \<noteq> endTag" using Cons.prems [of 0] by simp
  ultimately show ?case using Cons.IH by (simp add: strncmp_eq_def)
qed

lemma parse_text_piece:
  assumes "blk m b = Some (pre @ s @ endTag @ r)" "NUL \<notin> set (s @ endTag)" "NUL \<in> set r" "endTag \<noteq> []"
    "sp_flags sp AND NEEDS_DELETE = 0" "flags < 4" "decode flags s = Some t"
    "\<And>i. i < length s \<Longrightarrow> take (length endTag) (drop i (s @ endTag)) \<noteq> endTag"
  shows "\<exists>sp' m' sp'' w. ParseText (b, length pre) endTag flags m sp = Some (Some (b, length (pre @ s @ endTag)), m, sp') \<and>
    GetStr m sp' = Some (Some (b, length pre), m', sp'') \<and> blk m' = (blk m)(b \<mapsto> pre @ t @ NUL # w)"
proof -
  have cstr: "zstr (s @ endTag @ r) = s @ endTag @ zstr r" using assms(2) by (simp add: zstr_def takeWhile_append)
  have "take (length endTag) (drop i (s @ endTag @ zstr r)) \<noteq> endTag" if "i < length s" for i
    using assms(8) [OF that] that by (simp add: take_append flip: append_assoc)
  then have "text_loop endTag (s @ endTag @ zstr r) 0 = Some (length s)" using text_loop_first [of s endTag "zstr r" 0] assms(4) by auto
  moreover have "NUL \<in> set (s @ endTag @ r)" using assms(3) by simp
  ultimately have "ParseText (b, length pre) endTag flags m sp =
      Some (Some (b, length (pre @ s @ endTag)), m, piece flags b (length pre) (length pre + length s))"
    using assms(1,4,5) cstr by (auto simp: ParseText_def load_block_def StrPair_Set_def StrPair_Reset_def piece_def)
  moreover have "blk m b = Some (pre @ s @ hd endTag # tl endTag @ r)" using assms(1,4) by simp
  ultimately show ?thesis using GetStr_decode [OF _ _ assms(6,7), of m b pre "hd endTag" "tl endTag @ r"] assms(2) by fastforce
qed

text \<open>\<open>ParseText\<close> takes the text up to the first occurrence of the end tag and continues after it; the
  piece it sets reads back as the text with its normalisation.\<close>

theorem parse_text_reads:
  assumes "blk m b = Some (pre @ s @ endTag @ r)" "NUL \<notin> set (s @ endTag)" "NUL \<in> set r" "endTag \<noteq> []"
    "sp_flags sp AND NEEDS_DELETE = 0" "flags < 4" "decode flags s = Some t"
    "\<And>i. i < length s \<Longrightarrow> take (length endTag) (drop i (s @ endTag)) \<noteq> endTag"
  shows "\<exists>sp' m' sp'' w. ParseText (b, length pre) endTag flags m sp = Some (Some (b, length (pre @ s @ endTag)), m, sp') \<and>
    GetStr m sp' = Some (Some (b, length pre), m', sp'') \<and> blk m' = (blk m)(b \<mapsto> pre @ t @ NUL # w)"
  using assms by (rule parse_text_piece)

text \<open>The text of an element with an entity, up to the next tag.\<close>

theorem parse_text_reads_witness:
  "\<exists>sp' m' sp'' w. ParseText (0, length ''<b>'') ''<'' TEXT_ELEMENT \<lparr>blk = [0 \<mapsto> ''<b>a&lt;c</b>'' @ [NUL]], nblk = 1\<rparr> StrPair_new =
      Some (Some (0, length (''<b>'' @ ''a&lt;c'' @ ''<'')), \<lparr>blk = [0 \<mapsto> ''<b>a&lt;c</b>'' @ [NUL]], nblk = 1\<rparr>, sp') \<and>
    GetStr \<lparr>blk = [0 \<mapsto> ''<b>a&lt;c</b>'' @ [NUL]], nblk = 1\<rparr> sp' = Some (Some (0, length ''<b>''), m', sp'') \<and>
    blk m' = (blk \<lparr>blk = [0 \<mapsto> ''<b>a&lt;c</b>'' @ [NUL]], nblk = 1\<rparr>)(0 \<mapsto> ''<b>'' @ ''a<c'' @ NUL # w)"
proof (rule parse_text_reads [where r = "''/b>'' @ [NUL]"])
  show "decode TEXT_ELEMENT ''a&lt;c'' = Some ''a<c''" by code_simp
  show "take (length ''<'') (drop i (''a&lt;c'' @ ''<'')) \<noteq> ''<''" if "i < length ''a&lt;c''" for i
    using that by (auto simp: less_Suc_eq)
qed (simp_all add: NUL_def StrPair_new_def flag_defs)

end
