(* ===== verification/Xml_Printer.thy ===== *)
theory Xml_Printer
  imports Xml_Mem Xml_StrPair
begin

text \<open>
  The class \<open>XMLPrinter\<close> of \<open>src/tinyxml2.cpp\<close>, which writes XML to a file or to a \<open>DynArray\<close> in memory, and the
  visits of a document that drive it. The theorems: what is printed for a text is read back as that text by
  \<open>ParseText\<close> and \<open>GetStr\<close>, and the compact form of a tree is its serialisation, ended by a zero in memory.
\<close>

section \<open>The printer\<close>

text \<open>\<open>pr_fp\<close> is the text written to the file, if there is one. \<open>None\<close> as a result is the overflow of an array
  or a failed assertion.\<close>

record XMLPrinter =
  pr_elementJustOpened :: bool
  pr_firstElement :: bool
  pr_fp :: "string option"
  pr_depth :: int
  pr_textDepth :: int
  pr_processEntities :: bool
  pr_compactMode :: bool
  pr_entityFlag :: "bool list"
  pr_restrictedEntityFlag :: "bool list"
  pr_stack :: "string dynarray"
  pr_buffer :: "char dynarray"

definition ENTITY_RANGE :: nat where
  "ENTITY_RANGE = 64"

definition BUF_SIZE :: nat where
  "BUF_SIZE = 200"

definition set_flag :: "char \<Rightarrow> bool list \<Rightarrow> bool list" where
  "set_flag c flag = (if code c < ENTITY_RANGE then flag[code c := True] else flag)"

definition XMLPrinter_new :: "string option \<Rightarrow> bool \<Rightarrow> XMLPrinter option" where
  "XMLPrinter_new file compact =
     map_option (\<lambda>buf.
       \<lparr>pr_elementJustOpened = False, pr_firstElement = True, pr_fp = file, pr_depth = 0, pr_textDepth = -1,
        pr_processEntities = True, pr_compactMode = compact,
        pr_entityFlag = fold (\<lambda>(pattern, value). set_flag value) entities (replicate ENTITY_RANGE False),
        pr_restrictedEntityFlag = set_flag (CHR ''>'') (set_flag (CHR ''<'') (set_flag (CHR ''&'') (replicate ENTITY_RANGE False))),
        pr_stack = DynArray_new 10, pr_buffer = buf\<rparr>)
       (DynArray_Push NUL (DynArray_new 20))"

text \<open>\<open>s\<close> is the text that the format expands to.\<close>

definition Print :: "string \<Rightarrow> XMLPrinter \<Rightarrow> XMLPrinter option" where
  "Print s pr =
     (case pr_fp pr of
        Some t \<Rightarrow> Some (pr\<lparr>pr_fp := Some (t @ s)\<rparr>)
      | None \<Rightarrow>
          (case DynArray_PushArr (length s) (pr_buffer pr) of
             None \<Rightarrow> None
           | Some (i, buf) \<Rightarrow>
               if i = 0 then None else map_option (\<lambda>buf. pr\<lparr>pr_buffer := buf\<rparr>) (write_cells (i - 1) (s @ [NUL]) buf)))"

fun PrintSpace :: "nat \<Rightarrow> XMLPrinter \<Rightarrow> XMLPrinter option" where
  "PrintSpace 0 pr = Some pr"
| "PrintSpace (Suc n) pr = Option.bind (Print ''    '' pr) (PrintSpace n)"

definition has_flag :: "bool list \<Rightarrow> char \<Rightarrow> bool" where
  "has_flag flag c \<longleftrightarrow> 0 < code c \<and> code c < ENTITY_RANGE \<and> flag ! code c"

fun print_run :: "string \<Rightarrow> XMLPrinter \<Rightarrow> XMLPrinter option" where
  "print_run [] pr = Some pr"
| "print_run (c # p) pr = Option.bind (Print [c] pr) (print_run p)"

definition print_entity :: "char \<Rightarrow> XMLPrinter \<Rightarrow> XMLPrinter option" where
  "print_entity c pr =
     (case List.find (\<lambda>(pattern, value). value = c) entities of
        Some (pattern, value) \<Rightarrow> Print (''&'' @ pattern @ '';'') pr
      | None \<Rightarrow> Some pr)"

text \<open>\<open>run\<close> is the text between the two pointers.\<close>

fun print_loop :: "bool list \<Rightarrow> string \<Rightarrow> string \<Rightarrow> XMLPrinter \<Rightarrow> (string \<times> XMLPrinter) option" where
  "print_loop flag run [] pr = Some (run, pr)"
| "print_loop flag run (c # q) pr =
     (if has_flag flag c then
        Option.bind (print_run run pr) (\<lambda>pr. Option.bind (print_entity c pr) (print_loop flag [] q))
      else print_loop flag (run @ [c]) q pr)"

definition PrintString :: "string \<Rightarrow> bool \<Rightarrow> XMLPrinter \<Rightarrow> XMLPrinter option" where
  "PrintString p restricted pr =
     (let flag = (if restricted then pr_restrictedEntityFlag pr else pr_entityFlag pr) in
      if pr_processEntities pr then
        Option.bind (print_loop flag [] p pr) (\<lambda>(run, pr). if run \<noteq> [] then Print run pr else Some pr)
      else Print p pr)"

definition SealElement :: "XMLPrinter \<Rightarrow> XMLPrinter option" where
  "SealElement pr = Print ''>'' (pr\<lparr>pr_elementJustOpened := False\<rparr>)"

definition seal_open :: "XMLPrinter \<Rightarrow> XMLPrinter option" where
  "seal_open pr = (if pr_elementJustOpened pr then SealElement pr else Some pr)"

definition new_line :: "XMLPrinter \<Rightarrow> XMLPrinter option" where
  "new_line pr = Option.bind (Print [LF] pr) (\<lambda>pr. PrintSpace (nat (pr_depth pr)) pr)"

text \<open>What the functions that start a node have in common.\<close>

definition start_line :: "XMLPrinter \<Rightarrow> XMLPrinter option" where
  "start_line pr = (if pr_textDepth pr < 0 \<and> \<not> pr_firstElement pr \<and> \<not> pr_compactMode pr then new_line pr else Some pr)"

definition push_node :: "string \<Rightarrow> XMLPrinter \<Rightarrow> XMLPrinter option" where
  "push_node s pr =
     Option.bind (seal_open pr) (\<lambda>pr.
     Option.bind (start_line pr) (\<lambda>pr.
     Print s (pr\<lparr>pr_firstElement := False\<rparr>)))"

definition PushComment :: "string \<Rightarrow> XMLPrinter \<Rightarrow> XMLPrinter option" where
  "PushComment comment = push_node (''<!--'' @ comment @ ''-->'')"

definition PushDeclaration :: "string \<Rightarrow> XMLPrinter \<Rightarrow> XMLPrinter option" where
  "PushDeclaration value = push_node (''<?'' @ value @ ''?>'')"

definition PushUnknown :: "string \<Rightarrow> XMLPrinter \<Rightarrow> XMLPrinter option" where
  "PushUnknown value = push_node (''<!'' @ value @ ''>'')"

definition PushHeader :: "bool \<Rightarrow> bool \<Rightarrow> XMLPrinter \<Rightarrow> XMLPrinter option" where
  "PushHeader writeBOM writeDec pr =
     Option.bind (if writeBOM then Print [CHR 0xEF, CHR 0xBB, CHR 0xBF] pr else Some pr) (\<lambda>pr.
     if writeDec then PushDeclaration (''xml version='' @ [CHR 0x22] @ ''1.0'' @ [CHR 0x22]) pr else Some pr)"

definition OpenElement :: "string \<Rightarrow> XMLPrinter \<Rightarrow> XMLPrinter option" where
  "OpenElement name pr =
     Option.bind (seal_open pr) (\<lambda>pr.
     Option.bind (DynArray_Push name (pr_stack pr)) (\<lambda>stk.
     Option.bind (start_line (pr\<lparr>pr_stack := stk\<rparr>)) (\<lambda>pr.
     map_option (\<lambda>pr. pr\<lparr>pr_elementJustOpened := True, pr_firstElement := False, pr_depth := pr_depth pr + 1\<rparr>)
       (Print (''<'' @ name) pr))))"

definition PushAttribute :: "string \<Rightarrow> string \<Rightarrow> XMLPrinter \<Rightarrow> XMLPrinter option" where
  "PushAttribute name value pr =
     (if \<not> pr_elementJustOpened pr then None
      else
        Option.bind (Print ('' '' @ name @ ''='' @ [CHR 0x22]) pr) (\<lambda>pr.
        Option.bind (PrintString value False pr) (Print [CHR 0x22])))"

definition PushAttribute_int :: "string \<Rightarrow> int \<Rightarrow> XMLPrinter \<Rightarrow> XMLPrinter option" where
  "PushAttribute_int name v = PushAttribute name (ToStr_int v)"

definition PushAttribute_unsigned :: "string \<Rightarrow> u32 \<Rightarrow> XMLPrinter \<Rightarrow> XMLPrinter option" where
  "PushAttribute_unsigned name v = PushAttribute name (ToStr_unsigned v)"

definition PushAttribute_bool :: "string \<Rightarrow> bool \<Rightarrow> XMLPrinter \<Rightarrow> XMLPrinter option" where
  "PushAttribute_bool name v = PushAttribute name (ToStr_bool v)"

definition PushAttribute_double :: "('d \<Rightarrow> string) \<Rightarrow> string \<Rightarrow> 'd \<Rightarrow> XMLPrinter \<Rightarrow> XMLPrinter option" where
  "PushAttribute_double fmt_g name v = PushAttribute name (ToStr_float fmt_g v BUF_SIZE)"

definition CloseElement :: "XMLPrinter \<Rightarrow> XMLPrinter option" where
  "CloseElement pr =
     (let pr = pr\<lparr>pr_depth := pr_depth pr - 1\<rparr> in
      Option.bind (DynArray_Pop (pr_stack pr)) (\<lambda>(name, stk).
      Option.bind name (\<lambda>name.
      let pr = pr\<lparr>pr_stack := stk\<rparr> in
      Option.bind
        (if pr_elementJustOpened pr then Print ''/>'' pr
         else
           Option.bind (if pr_textDepth pr < 0 \<and> \<not> pr_compactMode pr then new_line pr else Some pr)
             (Print (''</'' @ name @ ''>''))) (\<lambda>pr.
      let pr = (if pr_textDepth pr = pr_depth pr then pr\<lparr>pr_textDepth := -1\<rparr> else pr) in
      map_option (\<lambda>pr. pr\<lparr>pr_elementJustOpened := False\<rparr>)
        (if pr_depth pr = 0 \<and> \<not> pr_compactMode pr then Print [LF] pr else Some pr)))))"

definition PushText :: "string \<Rightarrow> bool \<Rightarrow> XMLPrinter \<Rightarrow> XMLPrinter option" where
  "PushText s cdata pr =
     Option.bind (seal_open (pr\<lparr>pr_textDepth := pr_depth pr - 1\<rparr>)) (\<lambda>pr.
     if cdata then Option.bind (Print ''<![CDATA['' pr) (\<lambda>pr. Option.bind (Print s pr) (Print '']]>''))
     else PrintString s True pr)"

definition PushText_int :: "int \<Rightarrow> XMLPrinter \<Rightarrow> XMLPrinter option" where
  "PushText_int v = PushText (ToStr_int v) False"

definition PushText_unsigned :: "u32 \<Rightarrow> XMLPrinter \<Rightarrow> XMLPrinter option" where
  "PushText_unsigned v = PushText (ToStr_unsigned v) False"

definition PushText_bool :: "bool \<Rightarrow> XMLPrinter \<Rightarrow> XMLPrinter option" where
  "PushText_bool v = PushText (ToStr_bool v) False"

definition PushText_double :: "('d \<Rightarrow> string) \<Rightarrow> 'd \<Rightarrow> XMLPrinter \<Rightarrow> XMLPrinter option" where
  "PushText_double fmt_g v = PushText (ToStr_float fmt_g v BUF_SIZE) False"

definition CStr :: "XMLPrinter \<Rightarrow> char option list" where
  "CStr pr = cells (pr_buffer pr)"

definition CStrSize :: "XMLPrinter \<Rightarrow> int" where
  "CStrSize pr = DynArray_Size (pr_buffer pr)"

section \<open>Visits\<close>

text \<open>The nodes of a document, as far as a visit reads them. The visits of the printer always return true,
  so that every loop over children runs to its end.\<close>

datatype xmlnode =
    XMLElement string "(string \<times> string) list" "xmlnode list"
  | XMLText string bool
  | XMLComment string
  | XMLDeclaration string
  | XMLUnknown string

fun push_attributes :: "(string \<times> string) list \<Rightarrow> XMLPrinter \<Rightarrow> XMLPrinter option" where
  "push_attributes [] pr = Some pr"
| "push_attributes ((name, value) # attribs) pr = Option.bind (PushAttribute name value pr) (push_attributes attribs)"

definition VisitEnter :: "string \<Rightarrow> (string \<times> string) list \<Rightarrow> XMLPrinter \<Rightarrow> XMLPrinter option" where
  "VisitEnter name attribs pr = Option.bind (OpenElement name pr) (push_attributes attribs)"

fun Accept :: "xmlnode \<Rightarrow> XMLPrinter \<Rightarrow> XMLPrinter option"
  and Accept_children :: "xmlnode list \<Rightarrow> XMLPrinter \<Rightarrow> XMLPrinter option" where
  "Accept (XMLElement name attribs children) pr =
     Option.bind (VisitEnter name attribs pr) (\<lambda>pr. Option.bind (Accept_children children pr) CloseElement)"
| "Accept (XMLText s cdata) pr = PushText s cdata pr"
| "Accept (XMLComment s) pr = PushComment s pr"
| "Accept (XMLDeclaration s) pr = PushDeclaration s pr"
| "Accept (XMLUnknown s) pr = PushUnknown s pr"
| "Accept_children [] pr = Some pr"
| "Accept_children (x # xs) pr = Option.bind (Accept x pr) (Accept_children xs)"

record xmldocument =
  doc_processEntities :: bool
  doc_writeBOM :: bool
  doc_children :: "xmlnode list"

definition VisitEnter_document :: "xmldocument \<Rightarrow> XMLPrinter \<Rightarrow> XMLPrinter option" where
  "VisitEnter_document doc pr =
     (let pr = pr\<lparr>pr_processEntities := doc_processEntities doc\<rparr> in
      if doc_writeBOM doc then PushHeader True False pr else Some pr)"

definition Document_Accept :: "xmldocument \<Rightarrow> XMLPrinter \<Rightarrow> XMLPrinter option" where
  "Document_Accept doc pr = Option.bind (VisitEnter_document doc pr) (Accept_children (doc_children doc))"

definition Document_Print :: "XMLPrinter option \<Rightarrow> xmldocument \<Rightarrow> XMLPrinter option" where
  "Document_Print streamer doc =
     (case streamer of
        Some pr \<Rightarrow> Document_Accept doc pr
      | None \<Rightarrow> Option.bind (XMLPrinter_new (Some []) False) (Document_Accept doc))"

section \<open>Escaping\<close>

text \<open>The reference: the characters of a set are replaced by their entities.\<close>

definition entity_text :: "char \<Rightarrow> string" where
  "entity_text c = (case List.find (\<lambda>(pattern, value). value = c) entities of Some (pattern, value) \<Rightarrow> ''&'' @ pattern @ '';'' | None \<Rightarrow> [])"

definition escape :: "bool list \<Rightarrow> string \<Rightarrow> string" where
  "escape flag s = concat (map (\<lambda>c. if has_flag flag c then entity_text c else [c]) s)"

definition ENTITY_FLAGS :: "bool list" where
  "ENTITY_FLAGS = fold (\<lambda>(pattern, value). set_flag value) entities (replicate ENTITY_RANGE False)"

definition RESTRICTED_FLAGS :: "bool list" where
  "RESTRICTED_FLAGS = set_flag (CHR ''>'') (set_flag (CHR ''<'') (set_flag (CHR ''&'') (replicate ENTITY_RANGE False)))"

lemma code_eq_char: "code c = code d \<longleftrightarrow> c = d"
  by (simp add: code_def)

lemma flag_chars:
  "has_flag ENTITY_FLAGS c \<longleftrightarrow> c \<in> {CHR 0x22, CHR ''&'', CHR 0x27, CHR ''<'', CHR ''>''}"
  "has_flag RESTRICTED_FLAGS c \<longleftrightarrow> c \<in> {CHR ''&'', CHR ''<'', CHR ''>''}"
proof -
  have ef: "ENTITY_FLAGS = (replicate 64 False)[34 := True, 38 := True, 39 := True, 60 := True, 62 := True]"
    by (simp add: ENTITY_FLAGS_def entities_def set_flag_def code_def ENTITY_RANGE_def)
  have rf: "RESTRICTED_FLAGS = (replicate 64 False)[38 := True, 60 := True, 62 := True]"
    by (simp add: RESTRICTED_FLAGS_def set_flag_def code_def ENTITY_RANGE_def list_update_swap)
  have "has_flag ENTITY_FLAGS c \<longleftrightarrow> code c \<in> {34, 38, 39, 60, 62}" "has_flag RESTRICTED_FLAGS c \<longleftrightarrow> code c \<in> {38, 60, 62}"
    by (auto simp: ef rf has_flag_def ENTITY_RANGE_def nth_list_update)
  moreover have "c = CHR 0x22 \<longleftrightarrow> code c = 34" "c = CHR ''&'' \<longleftrightarrow> code c = 38" "c = CHR 0x27 \<longleftrightarrow> code c = 39"
    "c = CHR ''<'' \<longleftrightarrow> code c = 60" "c = CHR ''>'' \<longleftrightarrow> code c = 62"
    by (subst code_eq_char [symmetric], simp add: code_def)+
  ultimately show "has_flag ENTITY_FLAGS c \<longleftrightarrow> c \<in> {CHR 0x22, CHR ''&'', CHR 0x27, CHR ''<'', CHR ''>''}"
    "has_flag RESTRICTED_FLAGS c \<longleftrightarrow> c \<in> {CHR ''&'', CHR ''<'', CHR ''>''}"
    by simp_all
qed

lemma entity_texts:
  "entity_text (CHR 0x22) = ''&quot;''" "entity_text (CHR ''&'') = ''&amp;''" "entity_text (CHR 0x27) = ''&apos;''"
  "entity_text (CHR ''<'') = ''&lt;''" "entity_text (CHR ''>'') = ''&gt;''"
  by (simp_all add: entity_text_def entities_def)

text \<open>The translation of a text undoes its escaping.\<close>

definition escapes :: "bool list \<Rightarrow> bool" where
  "escapes flag \<longleftrightarrow> (\<forall>c. has_flag flag c \<longrightarrow> c \<in> {CHR 0x22, CHR ''&'', CHR 0x27, CHR ''<'', CHR ''>''}) \<and>
     has_flag flag (CHR ''&'') \<and> has_flag flag (CHR ''<'')"

lemma escapes_flags: "escapes ENTITY_FLAGS" "escapes RESTRICTED_FLAGS"
  by (auto simp: escapes_def flag_chars)

lemma step_entity:
  assumes "c \<in> {CHR 0x22, CHR ''&'', CHR 0x27, CHR ''<'', CHR ''>''}"
  shows "getstr_step TEXT_ELEMENT (entity_text c @ s) = Some (length (entity_text c), Some [c])"
proof -
  have "TEXT_ELEMENT AND NEEDS_ENTITY_PROCESSING \<noteq> 0" by (simp add: flag_defs)
  note step = this getstr_step_def entity_texts cur_def CR_def LF_def find_entity_def entities_def strncmp_eq_def
  from assms show ?thesis by (elim insertE emptyE) (simp_all add: step)
qed

lemma step_plain:
  assumes "c \<noteq> CHR ''&''" "c \<noteq> CR" "cur s \<noteq> CR"
  shows "getstr_step TEXT_ELEMENT (c # s) = Some (1, Some [c])"
  using assms by (auto simp: getstr_step_def cur_def)

lemma decode_escape:
  assumes "escapes flag" "CR \<notin> set t"
  shows "decode TEXT_ELEMENT (escape flag t) = Some t"
  using assms(2)
proof (induction t)
  case (Cons c t)
  let ?r = "escape flag t"
  have IH: "decode TEXT_ELEMENT ?r = Some t" using Cons by simp
  show ?case
  proof (cases "has_flag flag c")
    case True
    then have c: "c \<in> {CHR 0x22, CHR ''&'', CHR 0x27, CHR ''<'', CHR ''>''}" using assms(1) by (auto simp: escapes_def)
    have "entity_text c \<noteq> []" using c by (auto simp: entity_texts)
    moreover have e: "escape flag (c # t) = entity_text c @ ?r" using True by (simp add: escape_def)
    ultimately show ?thesis using step_entity [OF c, of ?r] IH unfolding e by (subst decode.simps) simp
  next
    case False
    have e: "escape flag (c # t) = c # ?r" using False by (simp add: escape_def)
    have "c \<noteq> CHR ''&''" "c \<noteq> CR" using False assms(1) Cons.prems by (auto simp: escapes_def)
    moreover have "cur ?r \<noteq> CR"
    proof (cases t)
      case (Cons d u)
      have "d \<noteq> CR" using Cons Cons.prems by auto
      moreover have "has_flag flag d \<Longrightarrow> cur (entity_text d @ escape flag u) = CHR ''&''" using assms(1) by (auto simp: escapes_def entity_texts cur_def)
      ultimately show ?thesis using Cons by (auto simp: escape_def cur_def CR_def)
    qed (simp add: escape_def cur_def CR_def)
    ultimately show ?thesis using step_plain [of c ?r] IH unfolding e by (subst decode.simps) simp
  qed
qed (simp add: escape_def decode.simps)

section \<open>Output\<close>

text \<open>The printer has printed \<open>t\<close>, to memory or to a file, and there is room for \<open>n\<close> more characters. In memory
  the text ends with a zero.\<close>

definition wrote :: "bool \<Rightarrow> XMLPrinter \<Rightarrow> string \<Rightarrow> nat \<Rightarrow> bool" where
  "wrote m pr t n \<longleftrightarrow>
     (if m then pr_fp pr = None \<and> holds (pr_buffer pr) (t @ [NUL]) \<and> length t + n + 1 < 2 ^ 30 else pr_fp pr = Some t)"

text \<open>A printer in compact mode that processes entities; \<open>j\<close> says whether an element was just opened, and
  \<open>names\<close> are the open elements.\<close>

definition compact :: "bool \<times> string list \<Rightarrow> XMLPrinter \<Rightarrow> bool" where
  "compact a pr \<longleftrightarrow> pr_elementJustOpened pr = fst a \<and> holds (pr_stack pr) (snd a) \<and> pr_compactMode pr \<and> pr_processEntities pr \<and>
     pr_entityFlag pr = ENTITY_FLAGS \<and> pr_restrictedEntityFlag pr = RESTRICTED_FLAGS"

text \<open>\<open>st\<close> tells which printers are in a state. \<open>op\<close> takes a printer in the state \<open>a\<close> to the state \<open>b\<close> and prints \<open>s\<close>.\<close>

definition prints :: "('s \<Rightarrow> XMLPrinter \<Rightarrow> bool) \<Rightarrow> 's \<Rightarrow> (XMLPrinter \<Rightarrow> XMLPrinter option) \<Rightarrow> string \<Rightarrow> 's \<Rightarrow> bool" where
  "prints st a op s b \<longleftrightarrow>
     (\<forall>m pr t n. st a pr \<longrightarrow> wrote m pr t (n + length s) \<longrightarrow> (\<exists>pr'. op pr = Some pr' \<and> st b pr' \<and> wrote m pr' (t @ s) n))"

lemma printsD:
  assumes "prints st a op s b" "st a pr" "wrote m pr t (n + length s)"
  obtains pr' where "op pr = Some pr'" "st b pr'" "wrote m pr' (t @ s) n"
  using assms unfolding prints_def by blast

lemma prints_bind:
  assumes "prints st a f s b" "prints st b g t c"
  shows "prints st a (\<lambda>pr. Option.bind (f pr) g) (s @ t) c"
  unfolding prints_def
proof (intro allI impI)
  fix m pr u n assume pr: "st a pr" "wrote m pr u (n + length (s @ t))"
  then have "wrote m pr u ((n + length t) + length s)" by (simp add: ac_simps)
  from printsD [OF assms(1) pr(1) this] obtain pr1 where 1: "f pr = Some pr1" "st b pr1" "wrote m pr1 (u @ s) (n + length t)" .
  from printsD [OF assms(2) 1(2,3)] obtain pr2 where "g pr1 = Some pr2" "st c pr2" "wrote m pr2 ((u @ s) @ t) n" .
  then show "\<exists>pr'. Option.bind (f pr) g = Some pr' \<and> st c pr' \<and> wrote m pr' (u @ s @ t) n" using 1 by simp
qed

lemma prints_Some: "prints st a Some [] a"
  by (simp add: prints_def)

lemma prints_cong: "prints st a f s b \<Longrightarrow> (\<And>pr. st a pr \<Longrightarrow> g pr = f pr) \<Longrightarrow> s' = s \<Longrightarrow> prints st a g s' b"
  by (simp add: prints_def)

lemma Print_memory:
  assumes "holds b (t @ [NUL])" "length t + length s + 1 < 2 ^ 30"
  shows "\<exists>b1 b2. DynArray_PushArr (length s) b = Some (Suc (length t), b1) \<and> write_cells (length t) (s @ [NUL]) b1 = Some b2 \<and>
    holds b2 ((t @ s) @ [NUL])"
proof -
  have cap: "used b + length s < 2 ^ 30" using assms by (simp add: holds_def)
  from EnsureCapacity_holds [OF assms(1) cap] obtain b1 where
    b1: "EnsureCapacity (used b + length s) b = Some b1" "holds b1 (t @ [NUL])" "used b + length s \<le> length (cells b1)" "used b1 = used b" .
  have u: "used b = Suc (length t)" using assms(1) by (simp add: holds_def)
  have "take (length t) (cells b1) = map Some t"
    using b1(2) u b1(4) by (metis append_eq_conv_conj holds_def length_map map_append take_append take_take min.absorb1 lessI less_imp_le_nat)
  then show ?thesis using b1 u by (auto simp: DynArray_PushArr_def write_cells_def holds_def)
qed

text \<open>Changes of the other members.\<close>

lemma prints_update:
  assumes "\<And>pr. st a pr \<Longrightarrow> st b (u pr)" "\<And>pr. pr_fp (u pr) = pr_fp pr" "\<And>pr. pr_buffer (u pr) = pr_buffer pr" "prints st b f s c"
  shows "prints st a (\<lambda>pr. f (u pr)) s c"
proof -
  have "wrote m (u pr) t n = wrote m pr t n" for m pr t n using assms(2,3) by (simp add: wrote_def)
  then show ?thesis using assms(1,4) unfolding prints_def by metis
qed

lemma prints_after:
  assumes "prints st a f s b" "\<And>pr. st b pr \<Longrightarrow> st c (u pr)" "\<And>pr. pr_fp (u pr) = pr_fp pr" "\<And>pr. pr_buffer (u pr) = pr_buffer pr"
  shows "prints st a (\<lambda>pr. map_option u (f pr)) s c"
proof -
  have "wrote m (u pr) t n = wrote m pr t n" for m pr t n using assms(3,4) by (simp add: wrote_def)
  then show ?thesis using assms(1,2) unfolding prints_def by (metis option.map(2))
qed

subsection \<open>Strings\<close>

lemma has_flag_restricted: "has_flag RESTRICTED_FLAGS c \<Longrightarrow> has_flag ENTITY_FLAGS c"
  by (auto simp: flag_chars)

text \<open>The bracket that closes the tag of an element that was just opened, and an attribute.\<close>

definition seal :: "bool \<Rightarrow> string" where
  "seal j = (if j then ''>'' else [])"

definition attribute_text :: "string \<times> string \<Rightarrow> string" where
  "attribute_text a = '' '' @ fst a @ ''='' @ [CHR 0x22] @ escape ENTITY_FLAGS (snd a) @ [CHR 0x22]"

text \<open>A description of the states of a printer that does not depend on what was written and fixes how
  entities are treated. A state tells whether an element was just opened; the states in which its tag is
  closed, and in which a text was seen, are functions of it.\<close>

locale printer_mode =
  fixes st :: "'s \<Rightarrow> XMLPrinter \<Rightarrow> bool"
    and just :: "'s \<Rightarrow> bool"
    and sealed texted :: "'s \<Rightarrow> 's"
  assumes st_output: "st a pr \<Longrightarrow> st a (pr\<lparr>pr_fp := f\<rparr>)" "st a pr \<Longrightarrow> st a (pr\<lparr>pr_buffer := b\<rparr>)"
    and st_entities: "st a pr \<Longrightarrow> pr_processEntities pr" "st a pr \<Longrightarrow> pr_entityFlag pr = ENTITY_FLAGS"
      "st a pr \<Longrightarrow> pr_restrictedEntityFlag pr = RESTRICTED_FLAGS"
    and st_process: "st a pr \<Longrightarrow> st a (pr\<lparr>pr_processEntities := True\<rparr>)"
    and st_just: "st a pr \<Longrightarrow> pr_elementJustOpened pr = just a" "just (texted a) = just a"
    and st_sealed: "st a pr \<Longrightarrow> st (sealed a) (pr\<lparr>pr_elementJustOpened := False\<rparr>)" "\<not> just a \<Longrightarrow> sealed a = a"
    and st_texted: "st a pr \<Longrightarrow> st (texted a) (pr\<lparr>pr_textDepth := pr_depth pr - 1\<rparr>)"
begin

lemma prints_Print: "prints st a (Print s) s a"
  unfolding prints_def
proof (intro allI impI)
  fix m pr t n assume pr: "st a pr" "wrote m pr t (n + length s)"
  show "\<exists>pr'. Print s pr = Some pr' \<and> st a pr' \<and> wrote m pr' (t @ s) n"
  proof (cases m)
    case True
    then have h: "holds (pr_buffer pr) (t @ [NUL])" "length t + length s + 1 < 2 ^ 30" "length (t @ s) + n + 1 < 2 ^ 30" "pr_fp pr = None"
      using pr(2) by (auto simp: wrote_def)
    from Print_memory [OF h(1,2)] obtain b1 b2 where
      "DynArray_PushArr (length s) (pr_buffer pr) = Some (Suc (length t), b1)" "write_cells (length t) (s @ [NUL]) b1 = Some b2"
      "holds b2 ((t @ s) @ [NUL])" by blast
    then show ?thesis using True pr(1) h(3,4) by (auto simp: Print_def wrote_def st_output)
  qed (use pr in \<open>auto simp: Print_def wrote_def st_output\<close>)
qed

lemma prints_run: "prints st a (print_run s) s a"
proof (induction s)
  case (Cons c s)
  from prints_bind [OF prints_Print Cons, of "[c]"] show ?case by (rule prints_cong) simp_all
qed (rule prints_cong [OF prints_Some], simp_all)

lemma prints_entity:
  assumes "has_flag ENTITY_FLAGS c"
  shows "prints st a (print_entity c) (entity_text c) a"
proof -
  have c: "c \<in> {CHR 0x22, CHR ''&'', CHR 0x27, CHR ''<'', CHR ''>''}" using assms by (simp add: flag_chars)
  show ?thesis by (rule prints_cong [OF prints_Print]) (use c in \<open>auto simp: print_entity_def entity_text_def entities_def\<close>)
qed

text \<open>The loop and the flush at its end.\<close>

lemma prints_loop:
  assumes "\<And>c. has_flag flag c \<Longrightarrow> has_flag ENTITY_FLAGS c"
  shows "prints st a (\<lambda>pr. Option.bind (print_loop flag run s pr) (\<lambda>(run, pr). if run \<noteq> [] then Print run pr else Some pr))
    (run @ escape flag s) a"
proof (induction s arbitrary: run)
  case Nil
  show ?case
  proof (cases "run = []")
    case True
    show ?thesis by (rule prints_cong [where f = Some]) (use True prints_Some in \<open>simp_all add: escape_def\<close>)
  next
    case False
    show ?thesis by (rule prints_cong [where f = "Print run"]) (use False prints_Print in \<open>simp_all add: escape_def\<close>)
  qed
next
  case (Cons c s)
  show ?case
  proof (cases "has_flag flag c")
    case True
    note rest = Cons.IH [of "[]"]
    from prints_bind [OF prints_run [of a run] prints_bind [OF prints_entity [OF assms [OF True]] rest]] show ?thesis
      by (rule prints_cong) (use True in \<open>simp_all add: escape_def\<close>)
  next
    case False
    show ?thesis using Cons.IH [of "run @ [c]"] False by (simp add: escape_def)
  qed
qed

lemma prints_string:
  "prints st a (PrintString s True) (escape RESTRICTED_FLAGS s) a" "prints st a (PrintString s False) (escape ENTITY_FLAGS s) a"
  by (rule prints_cong [OF prints_loop [of _ a "[]" s]]; auto simp: PrintString_def st_entities has_flag_restricted)+

lemma prints_seal_open: "prints st a seal_open (seal (just a)) (sealed a)"
proof (cases "just a")
  case True
  have "prints st a SealElement ''>'' (sealed a)"
    unfolding SealElement_def by (rule prints_update [OF _ _ _ prints_Print]) (simp_all add: st_sealed)
  then show ?thesis by (rule prints_cong) (use True in \<open>simp_all add: seal_open_def seal_def st_just\<close>)
next
  case False
  show ?thesis using prints_cong [OF prints_Some [of st a], of seal_open "[]"] False by (simp add: seal_open_def seal_def st_just st_sealed)
qed

lemma prints_PushAttribute:
  "just a \<Longrightarrow> prints st a (PushAttribute name value) (attribute_text (name, value)) a"
  by (rule prints_cong [OF prints_bind [OF prints_Print [of _ "'' '' @ name @ ''='' @ [CHR 0x22]"] prints_bind [OF prints_string(2) prints_Print]]])
    (simp_all add: PushAttribute_def st_just attribute_text_def)

lemma prints_attributes: "just a \<Longrightarrow> prints st a (push_attributes attribs) (concat (map attribute_text attribs)) a"
proof (induction attribs)
  case (Cons x attribs)
  obtain name v where x: "x = (name, v)" by (cases x)
  from prints_bind [OF prints_PushAttribute Cons.IH, OF Cons.prems Cons.prems] show ?case
    by (rule prints_cong) (simp_all add: x)
qed (rule prints_cong [OF prints_Some], simp_all)

lemma prints_PushText:
  "prints st a (PushText s cdata) (seal (just a) @ (if cdata then ''<![CDATA['' @ s @ '']]>'' else escape RESTRICTED_FLAGS s)) (sealed (texted a))"
proof -
  have start: "prints st a (\<lambda>pr. seal_open (pr\<lparr>pr_textDepth := pr_depth pr - 1\<rparr>)) (seal (just a)) (sealed (texted a))"
    using prints_update [OF _ _ _ prints_seal_open [of "texted a"], of a "\<lambda>pr. pr\<lparr>pr_textDepth := pr_depth pr - 1\<rparr>"]
    by (simp add: st_texted st_just)
  show ?thesis
  proof (cases cdata)
    case True
    from prints_bind [OF start prints_bind [OF prints_Print [of _ "''<![CDATA[''"] prints_bind [OF prints_Print [of _ s] prints_Print [of _ "'']]>''"]]]] show ?thesis
      by (rule prints_cong) (use True in \<open>simp_all add: PushText_def\<close>)
  next
    case False
    from prints_bind [OF start prints_string(1)] show ?thesis by (rule prints_cong) (use False in \<open>simp_all add: PushText_def\<close>)
  qed
qed

text \<open>Documents.\<close>

lemma document_prints:
  assumes "prints st a (Accept_children xs) s b" "st a pr" "pr_fp pr = file" "file = None \<longrightarrow> holds (pr_buffer pr) [NUL]" "length s + 4 < 2 ^ 30"
  shows "\<exists>pr'. Document_Print (Some pr) \<lparr>doc_processEntities = True, doc_writeBOM = bom, doc_children = xs\<rparr> = Some pr' \<and>
    (let s = (if bom then [CHR 0xEF, CHR 0xBB, CHR 0xBF] else []) @ s in
     case file of None \<Rightarrow> take (nat (CStrSize pr')) (CStr pr') = map Some (s @ [NUL]) | Some f \<Rightarrow> pr_fp pr' = Some (f @ s))"
proof -
  let ?bom = "if bom then [CHR 0xEF, CHR 0xBB, CHR 0xBF] else []" and ?f = "case file of None \<Rightarrow> [] | Some f \<Rightarrow> f"
  let ?doc = "\<lparr>doc_processEntities = True, doc_writeBOM = bom, doc_children = xs\<rparr>"
  have bom: "prints st a (\<lambda>pr. if bom then PushHeader True False pr else Some pr) ?bom a"
    by (cases bom; rule prints_cong [OF prints_Print] prints_cong [OF prints_Some]; simp add: PushHeader_def)
  have "prints st a (VisitEnter_document ?doc) ?bom a"
    by (rule prints_cong [OF prints_update [OF _ _ _ bom, of _ "\<lambda>pr. pr\<lparr>pr_processEntities := True\<rparr>"]])
      (simp_all add: st_process VisitEnter_document_def Let_def)
  from prints_bind [OF this assms(1)] have all: "prints st a (Document_Accept ?doc) (?bom @ s) b"
    by (rule prints_cong) (simp_all add: Document_Accept_def)
  have "wrote (file = None) pr ?f (0 + length (?bom @ s))" using assms(3-5) by (auto simp: wrote_def)
  from printsD [OF all assms(2) this] obtain pr' where "Document_Accept ?doc pr = Some pr'" "wrote (file = None) pr' (?f @ ?bom @ s) 0" by blast
  then show ?thesis by (cases "file") (auto simp: Document_Print_def wrote_def CStr_def CStrSize_def DynArray_Size_def holds_def Let_def)
qed

end

interpretation cm: printer_mode compact fst "\<lambda>(j, ns). (False, ns)" "\<lambda>a. a"
  by unfold_locales (auto simp: compact_def)

subsection \<open>Operations\<close>

lemma seal_compact: "prints compact (j, ns) seal_open (seal j) (False, ns)"
  using cm.prints_seal_open [of "(j, ns)"] by simp

lemma text_compact:
  "prints compact (j, ns) (PushText s cdata) (seal j @ (if cdata then ''<![CDATA['' @ s @ '']]>'' else escape RESTRICTED_FLAGS s)) (False, ns)"
  using cm.prints_PushText [of "(j, ns)" s cdata] by simp

lemma prints_start_line: "prints compact a start_line [] a"
  by (rule prints_cong [OF prints_Some]) (simp_all add: start_line_def compact_def)

lemma prints_push_node: "prints compact (j, ns) (push_node s) (seal j @ s) (False, ns)"
proof -
  have "prints compact (False, ns) (\<lambda>pr. Print s (pr\<lparr>pr_firstElement := False\<rparr>)) s (False, ns)"
    by (rule prints_update [OF _ _ _ cm.prints_Print]) (simp_all add: compact_def)
  from prints_bind [OF seal_compact prints_bind [OF prints_start_line this]] show ?thesis
    by (rule prints_cong) (simp_all add: push_node_def)
qed

lemma prints_push_name:
  assumes "length ns < 2 ^ 30 - 1" "prints compact (j, ns @ [name]) f s b"
  shows "prints compact (j, ns) (\<lambda>pr. Option.bind (DynArray_Push name (pr_stack pr)) (\<lambda>stk. f (pr\<lparr>pr_stack := stk\<rparr>))) s b"
  unfolding prints_def
proof (intro allI impI)
  fix m pr t n assume pr: "compact (j, ns) pr" "wrote m pr t (n + length s)"
  obtain stk where stk: "DynArray_Push name (pr_stack pr) = Some stk" "holds stk (ns @ [name])"
    using Push_holds [OF _ assms(1), of "pr_stack pr" name] pr(1) by (auto simp: compact_def)
  have "compact (j, ns @ [name]) (pr\<lparr>pr_stack := stk\<rparr>)" "wrote m (pr\<lparr>pr_stack := stk\<rparr>) t (n + length s)"
    using pr stk by (auto simp: compact_def wrote_def split: if_splits)
  from printsD [OF assms(2) this] show "\<exists>pr'. Option.bind (DynArray_Push name (pr_stack pr)) (\<lambda>stk. f (pr\<lparr>pr_stack := stk\<rparr>)) = Some pr' \<and>
      compact b pr' \<and> wrote m pr' (t @ s) n" using stk(1) by auto
qed

lemma prints_OpenElement:
  assumes "length ns < 2 ^ 30 - 1"
  shows "prints compact (j, ns) (OpenElement name) (seal j @ ''<'' @ name) (True, ns @ [name])"
proof -
  have "prints compact (False, ns @ [name]) (\<lambda>pr. map_option (\<lambda>pr. pr\<lparr>pr_elementJustOpened := True, pr_firstElement := False, pr_depth := pr_depth pr + 1\<rparr>)
      (Print (''<'' @ name) pr)) (''<'' @ name) (True, ns @ [name])"
    by (rule prints_after [OF cm.prints_Print]) (simp_all add: compact_def)
  note tail = prints_bind [OF prints_start_line this]
  from prints_bind [OF seal_compact prints_push_name [OF assms tail]] show ?thesis
    by (rule prints_cong) (simp_all add: OpenElement_def)
qed

lemma prints_CloseElement:
  "prints compact (j, ns @ [name]) CloseElement (if j then ''/>'' else ''</'' @ name @ ''>'') (False, ns)"
  unfolding prints_def
proof (intro allI impI)
  let ?s = "if j then ''/>'' else ''</'' @ name @ ''>''"
  fix m pr t n assume pr: "compact (j, ns @ [name]) pr" "wrote m pr t (n + length ?s)"
  then have h: "holds (pr_stack pr) (ns @ [name])" by (simp add: compact_def)
  then obtain stk where stk: "DynArray_Pop (pr_stack pr) = Some (Some name, stk)" "holds stk ns" by (rule Pop_holds)
  let ?pr = "pr\<lparr>pr_depth := pr_depth pr - 1, pr_stack := stk\<rparr>"
  have "compact (j, ns) ?pr" "wrote m ?pr t (n + length ?s)"
    using pr stk(2) by (cases m; auto simp: compact_def wrote_def)+
  from printsD [OF cm.prints_Print this] obtain pr' where
    pr': "Print ?s ?pr = Some pr'" "compact (j, ns) pr'" "wrote m pr' (t @ ?s) n" .
  let ?res = "(if pr_textDepth pr' = pr_depth pr' then pr'\<lparr>pr_textDepth := -1\<rparr> else pr')\<lparr>pr_elementJustOpened := False\<rparr>"
  have "CloseElement pr = Some ?res"
    using stk(1) pr pr'(1,2) by (cases j) (auto simp: CloseElement_def Let_def compact_def)
  moreover have "compact (False, ns) ?res" "wrote m ?res (t @ ?s) n"
    using pr'(2,3) by (auto simp: compact_def wrote_def)
  ultimately show "\<exists>pr'. CloseElement pr = Some pr' \<and> compact (False, ns) pr' \<and> wrote m pr' (t @ ?s) n" by blast
qed

section \<open>Trees\<close>

text \<open>The reference: the serialisation of a tree.\<close>

fun serialize :: "xmlnode \<Rightarrow> string" where
  "serialize (XMLElement name attribs children) =
     ''<'' @ name @ concat (map attribute_text attribs) @
       (if children = [] then ''/>'' else ''>'' @ concat (map serialize children) @ ''</'' @ name @ ''>'')"
| "serialize (XMLText s cdata) = (if cdata then ''<![CDATA['' @ s @ '']]>'' else escape RESTRICTED_FLAGS s)"
| "serialize (XMLComment s) = ''<!--'' @ s @ ''-->''"
| "serialize (XMLDeclaration s) = ''<?'' @ s @ ''?>''"
| "serialize (XMLUnknown s) = ''<!'' @ s @ ''>''"

fun xml_height :: "xmlnode \<Rightarrow> nat" where
  "xml_height (XMLElement name attribs children) = Suc (foldr max (map xml_height children) 0)"
| "xml_height x = 0"

lemma foldr_max: "foldr max (x # xs) (0 :: nat) = max x (foldr max xs 0)"
  by simp

lemma prints_children:
  assumes "\<And>x j ns. x \<in> set xs \<Longrightarrow> length ns + xml_height x < 2 ^ 30 - 1 \<Longrightarrow> prints compact (j, ns) (Accept x) (seal j @ serialize x) (False, ns)"
    "length ns + foldr max (map xml_height xs) 0 < 2 ^ 30 - 1"
  shows "prints compact (j, ns) (Accept_children xs) (if xs = [] then [] else seal j @ concat (map serialize xs)) (j \<and> xs = [], ns)"
  using assms
proof (induction xs arbitrary: j)
  case Nil
  show ?case by (simp add: prints_def)
next
  case (Cons x xs)
  have "prints compact (j, ns) (Accept x) (seal j @ serialize x) (False, ns)" using Cons.prems by simp
  moreover have "prints compact (False, ns) (Accept_children xs) (if xs = [] then [] else seal False @ concat (map serialize xs)) (False, ns)"
    using Cons.IH [of False] Cons.prems by simp
  ultimately have "prints compact (j, ns) (\<lambda>pr. Option.bind (Accept x pr) (Accept_children xs))
      ((seal j @ serialize x) @ (if xs = [] then [] else seal False @ concat (map serialize xs))) (False, ns)" by (rule prints_bind)
  then have "prints compact (j, ns) (Accept_children (x # xs)) (seal j @ concat (map serialize (x # xs))) (False, ns)"
    by (rule prints_cong) (simp_all add: seal_def)
  then show ?case by (simp del: Accept_children.simps)
qed

lemma prints_tree:
  "length ns + xml_height x < 2 ^ 30 - 1 \<Longrightarrow> prints compact (j, ns) (Accept x) (seal j @ serialize x) (False, ns)"
proof (induction x arbitrary: j ns)
  case (XMLElement name attribs children)
  have IH: "prints compact (True, ns @ [name]) (Accept_children children) (if children = [] then [] else seal True @ concat (map serialize children))
      (children = [], ns @ [name])" using prints_children [of children "ns @ [name]" True] XMLElement by simp
  have "length ns < 2 ^ 30 - 1" using XMLElement.prems by simp
  note enter = prints_bind [OF prints_OpenElement [OF this] cm.prints_attributes [of "(True, ns @ [name])" attribs]]
  from prints_bind [OF enter prints_bind [OF IH prints_CloseElement]] show ?case
    by (rule prints_cong) (simp_all add: VisitEnter_def seal_def)
next
  case (XMLText s cdata)
  show ?case by (rule prints_cong [OF text_compact]) simp_all
next
  case (XMLComment s)
  show ?case by (rule prints_cong [OF prints_push_node]) (simp_all add: PushComment_def)
next
  case (XMLDeclaration s)
  show ?case by (rule prints_cong [OF prints_push_node]) (simp_all add: PushDeclaration_def)
next
  case (XMLUnknown s)
  show ?case by (rule prints_cong [OF prints_push_node]) (simp_all add: PushUnknown_def)
qed

lemma XMLPrinter_start:
  "\<exists>pr. XMLPrinter_new file c = Some pr \<and> pr_fp pr = file \<and> (file = None \<longrightarrow> holds (pr_buffer pr) [NUL]) \<and>
     \<not> pr_elementJustOpened pr \<and> pr_firstElement pr \<and> pr_textDepth pr = -1 \<and> pr_depth pr = 0 \<and> holds (pr_stack pr) [] \<and> pr_compactMode pr = c \<and>
     pr_processEntities pr \<and> pr_entityFlag pr = ENTITY_FLAGS \<and> pr_restrictedEntityFlag pr = RESTRICTED_FLAGS"
proof -
  obtain b where "DynArray_Push NUL (DynArray_new 20) = Some b" "holds b ([] @ [NUL])"
    using Push_holds [OF holds_new, of NUL 20] by auto
  then show ?thesis by (simp add: XMLPrinter_new_def ENTITY_FLAGS_def RESTRICTED_FLAGS_def holds_new)
qed

lemma new_printer:
  "\<exists>pr. XMLPrinter_new file True = Some pr \<and> compact (False, []) pr \<and> pr_fp pr = file \<and>
     (file = None \<longrightarrow> holds (pr_buffer pr) [NUL])"
  using XMLPrinter_start [of "file" True] by (auto simp: compact_def)

lemma document_printed:
  assumes "foldr max (map xml_height xs) 0 < 2 ^ 30 - 1" "length (concat (map serialize xs)) + 4 < 2 ^ 30"
  shows "\<exists>pr pr'. XMLPrinter_new file True = Some pr \<and>
    Document_Print (Some pr) \<lparr>doc_processEntities = True, doc_writeBOM = bom, doc_children = xs\<rparr> = Some pr' \<and>
    (let s = (if bom then [CHR 0xEF, CHR 0xBB, CHR 0xBF] else []) @ concat (map serialize xs) in
     case file of None \<Rightarrow> take (nat (CStrSize pr')) (CStr pr') = map Some (s @ [NUL]) | Some f \<Rightarrow> pr_fp pr' = Some (f @ s))"
proof -
  obtain pr where pr: "XMLPrinter_new file True = Some pr" "compact (False, []) pr" "pr_fp pr = file" "file = None \<longrightarrow> holds (pr_buffer pr) [NUL]"
    using new_printer by blast
  have ch: "prints compact (False, []) (Accept_children xs) (concat (map serialize xs)) (False, [])"
    using prints_children [OF prints_tree, of xs "[]" False] assms(1) by (cases "xs = []") (simp_all add: seal_def)
  show ?thesis using cm.document_prints [OF ch pr(2-4) assms(2)] pr(1) by blast
qed

text \<open>The compact form of a document, in memory or in a file, is the serialisation of its nodes, preceded by
  the byte order mark if the document has one; in memory it is followed by a zero and nothing is written
  outside of the buffer.\<close>

theorem document_print_compact:
  assumes "foldr max (map xml_height xs) 0 < 2 ^ 30 - 1" "length (concat (map serialize xs)) + 4 < 2 ^ 30"
  shows "\<exists>pr pr'. XMLPrinter_new file True = Some pr \<and>
    Document_Print (Some pr) \<lparr>doc_processEntities = True, doc_writeBOM = bom, doc_children = xs\<rparr> = Some pr' \<and>
    (let s = (if bom then [CHR 0xEF, CHR 0xBB, CHR 0xBF] else []) @ concat (map serialize xs) in
     case file of None \<Rightarrow> take (nat (CStrSize pr')) (CStr pr') = map Some (s @ [NUL]) | Some f \<Rightarrow> pr_fp pr' = Some (f @ s))"
  using assms by (rule document_printed)

text \<open>A document of two elements and a text.\<close>

theorem document_print_compact_witness:
  "\<exists>pr pr'. XMLPrinter_new None True = Some pr \<and>
     Document_Print (Some pr) \<lparr>doc_processEntities = True, doc_writeBOM = False,
       doc_children = [XMLElement ''a'' [(''k'', ''1<2'')] [XMLElement ''b'' [] [], XMLText ''x&y'' False]]\<rparr> = Some pr' \<and>
     take (nat (CStrSize pr')) (CStr pr') = map Some (''<a k='' @ [CHR 0x22] @ ''1&lt;2'' @ [CHR 0x22] @ ''><b/>x&amp;y</a>'' @ [NUL])"
proof -
  let ?x = "XMLElement ''a'' [(''k'', ''1<2'')] [XMLElement ''b'' [] [], XMLText ''x&y'' False]"
  have ser: "serialize ?x = ''<a k='' @ [CHR 0x22] @ ''1&lt;2'' @ [CHR 0x22] @ ''><b/>x&amp;y</a>''"
    by (simp add: attribute_text_def escape_def flag_chars entity_texts)
  show ?thesis using document_print_compact [of "[?x]" None False] unfolding list.map concat.simps ser by simp
qed

section \<open>Texts and attributes come back\<close>

lemma escape_chars:
  assumes "escapes flag" "d \<in> set (escape flag s)"
  shows "d \<in> set s \<and> \<not> has_flag flag d \<or> d \<in> set ''&quot;amp;apos;lt;gt;''"
proof -
  obtain c where c: "c \<in> set s" "d \<in> set (if has_flag flag c then entity_text c else [c])"
    using assms(2) by (auto simp: escape_def)
  show ?thesis
  proof (cases "has_flag flag c")
    case True
    then have "c \<in> {CHR 0x22, CHR ''&'', CHR 0x27, CHR ''<'', CHR ''>''}" using assms(1) by (auto simp: escapes_def)
    then show ?thesis using True c(2) by (elim insertE emptyE) (auto simp: entity_texts)
  qed (use c in auto)
qed

lemma single_tag:
  assumes "d \<notin> set s" "i < length s"
  shows "take (length [d]) (drop i (s @ [d])) \<noteq> [d]"
  using assms by (auto simp: Cons_nth_drop_Suc [symmetric])

text \<open>What the printer writes for a text, or for the value of an attribute, contains no angle bracket, or
  quote, and \<open>ParseText\<close> up to that character and \<open>GetStr\<close> give the text back, for every text without a
  carriage return.\<close>

theorem text_print_parse:
  assumes "NUL \<notin> set s" "CR \<notin> set s" "compact (j, ns) pr" "wrote True pr t (n + length (escape flag s))"
    "flag = (if restricted then RESTRICTED_FLAGS else ENTITY_FLAGS)" "d = (if restricted then CHR ''<'' else CHR 0x22)"
    "blk m b = Some (pre @ escape flag s @ d # r)" "NUL \<in> set r"
  shows "(\<exists>pr'. PrintString s restricted pr = Some pr' \<and> wrote True pr' (t @ escape flag s) n) \<and>
    (\<exists>sp m' sp' w. ParseText (b, length pre) [d] TEXT_ELEMENT m StrPair_new = Some (Some (b, length (pre @ escape flag s @ [d])), m, sp) \<and>
       GetStr m sp = Some (Some (b, length pre), m', sp') \<and> blk m' = (blk m)(b \<mapsto> pre @ s @ NUL # w))"
proof
  have "prints compact (j, ns) (PrintString s restricted) (escape flag s) (j, ns)" using cm.prints_string assms(5) by (cases restricted) auto
  then show "\<exists>pr'. PrintString s restricted pr = Some pr' \<and> wrote True pr' (t @ escape flag s) n"
    using assms(3,4) unfolding prints_def by blast
  have flag: "escapes flag" "has_flag flag d" using assms(5,6) escapes_flags by (auto simp: flag_chars)
  have "d \<notin> set ''&quot;amp;apos;lt;gt;''" "NUL \<notin> set ''&quot;amp;apos;lt;gt;''" "d \<noteq> NUL" using assms(6) by (auto simp: NUL_def)
  then have d: "d \<notin> set (escape flag s)" "NUL \<notin> set (escape flag s @ [d])"
    using escape_chars [OF flag(1), of d s] escape_chars [OF flag(1), of NUL s] flag(2) assms(1) by auto
  show "\<exists>sp m' sp' w. ParseText (b, length pre) [d] TEXT_ELEMENT m StrPair_new = Some (Some (b, length (pre @ escape flag s @ [d])), m, sp) \<and>
      GetStr m sp = Some (Some (b, length pre), m', sp') \<and> blk m' = (blk m)(b \<mapsto> pre @ s @ NUL # w)"
    by (rule parse_text_piece [OF _ d(2) assms(8) _ _ _ decode_escape [OF flag(1) assms(2)] single_tag [OF d(1)]])
      (simp_all add: assms(7) StrPair_new_def flag_defs)
qed

text \<open>A text with a bracket, printed by a new printer and read from a document.\<close>

theorem text_print_parse_witness:
  "\<exists>pr pr'. XMLPrinter_new None True = Some pr \<and> PrintString ''a<b'' True pr = Some pr' \<and> wrote True pr' (escape RESTRICTED_FLAGS ''a<b'') 5 \<and>
    (\<exists>sp m' sp' w. ParseText (0, length ''<t>'') ''<'' TEXT_ELEMENT \<lparr>blk = [0 \<mapsto> ''<t>'' @ escape RESTRICTED_FLAGS ''a<b'' @ CHR ''<'' # ''/t>'' @ [NUL]], nblk = 1\<rparr> StrPair_new =
         Some (Some (0, length (''<t>'' @ escape RESTRICTED_FLAGS ''a<b'' @ ''<'')), \<lparr>blk = [0 \<mapsto> ''<t>'' @ escape RESTRICTED_FLAGS ''a<b'' @ CHR ''<'' # ''/t>'' @ [NUL]], nblk = 1\<rparr>, sp) \<and>
       GetStr \<lparr>blk = [0 \<mapsto> ''<t>'' @ escape RESTRICTED_FLAGS ''a<b'' @ CHR ''<'' # ''/t>'' @ [NUL]], nblk = 1\<rparr> sp = Some (Some (0, length ''<t>''), m', sp') \<and>
       blk m' = [0 \<mapsto> ''<t>'' @ ''a<b'' @ NUL # w])"
proof -
  let ?m = "\<lparr>blk = [0 \<mapsto> ''<t>'' @ escape RESTRICTED_FLAGS ''a<b'' @ CHR ''<'' # ''/t>'' @ [NUL]], nblk = 1\<rparr>"
  obtain pr where pr: "XMLPrinter_new None True = Some pr" "compact (False, []) pr" "pr_fp pr = None" "holds (pr_buffer pr) [NUL]"
    using new_printer [of None] by blast
  have chars: "NUL \<notin> set ''a<b''" "CR \<notin> set ''a<b''" by (simp_all add: NUL_def CR_def)
  have out: "wrote True pr [] (5 + length (escape RESTRICTED_FLAGS ''a<b''))"
    using pr by (simp add: wrote_def escape_def flag_chars entity_texts)
  have "(\<exists>pr'. PrintString ''a<b'' True pr = Some pr' \<and> wrote True pr' ([] @ escape RESTRICTED_FLAGS ''a<b'') 5) \<and>
    (\<exists>sp m' sp' w. ParseText (0, length ''<t>'') [CHR ''<''] TEXT_ELEMENT ?m StrPair_new =
         Some (Some (0, length (''<t>'' @ escape RESTRICTED_FLAGS ''a<b'' @ [CHR ''<''])), ?m, sp) \<and>
       GetStr ?m sp = Some (Some (0, length ''<t>''), m', sp') \<and> blk m' = (blk ?m)(0 \<mapsto> ''<t>'' @ ''a<b'' @ NUL # w))"
    by (rule text_print_parse [OF chars pr(2) out, where r = "''/t>'' @ [NUL]"]) simp_all
  moreover have "(blk ?m)(0 \<mapsto> x) = [0 \<mapsto> x]" for x by simp
  ultimately show ?thesis using pr(1) unfolding append_Nil by metis
qed

end
