(* ===== verification/Xml_Parser.thy ===== *)
theory Xml_Parser
  imports Xml_Printer
begin

text \<open>
  The parser of \<open>src/tinyxml2.cpp\<close>: \<open>Identify\<close>, the \<open>ParseDeep\<close> methods of nodes, elements, attributes, texts,
  comments, declarations and unknown nodes, and the documents that call them. The text is the C string at
  the read pointer; a value is the piece of the text it was taken from together with the flags it will be
  translated with, which \<open>Xml_StrPair\<close> treats in memory. The parser reads some pieces back while it goes
  on (names, to compare them), which writes a zero behind the piece: a place that is already consumed. The theorems: the parser returns on every text, and
  parsing the serialisation of a tree gives the tree.
\<close>

section \<open>Errors, values and nodes\<close>

datatype XMLError =
    XML_NO_ERROR
  | XML_NO_ATTRIBUTE
  | XML_WRONG_ATTRIBUTE_TYPE
  | XML_ERROR_FILE_NOT_FOUND
  | XML_ERROR_FILE_COULD_NOT_BE_OPENED
  | XML_ERROR_FILE_READ_ERROR
  | XML_ERROR_ELEMENT_MISMATCH
  | XML_ERROR_PARSING_ELEMENT
  | XML_ERROR_PARSING_ATTRIBUTE
  | XML_ERROR_IDENTIFYING_TAG
  | XML_ERROR_PARSING_TEXT
  | XML_ERROR_PARSING_CDATA
  | XML_ERROR_PARSING_COMMENT
  | XML_ERROR_PARSING_DECLARATION
  | XML_ERROR_PARSING_UNKNOWN
  | XML_ERROR_EMPTY_DOCUMENT
  | XML_ERROR_MISMATCHED_ELEMENT
  | XML_ERROR_PARSING
  | XML_CAN_NOT_CONVERT_TEXT
  | XML_NO_TEXT_NODE

type_synonym xstr = "nat \<times> string"

datatype xnode =
    Element (el_name: string) (el_attribs: "(string \<times> xstr) list") (el_children: "xnode list")
  | Text xstr bool
  | Comment xstr
  | Declaration xstr
  | Unknown xstr

datatype closing_type = OPEN | CLOSED | CLOSING

record xml_settings =
  set_processEntities :: bool
  set_collapse :: bool

section \<open>Pieces of the text\<close>

definition parse_text :: "string \<Rightarrow> string \<Rightarrow> (string \<times> string) option" where
  "parse_text p endTag =
     map_option (\<lambda>k. (take k p, drop (k + length endTag) p)) (text_loop endTag p 0)"

definition parse_name :: "string \<Rightarrow> (string \<times> string) option" where
  "parse_name p = (let k = xml_name_loop p True 0 in if k > 0 then Some (take k p, drop k p) else None)"

section \<open>Identify\<close>

datatype node_kind = KDeclaration | KComment | KCData | KUnknown | KElement | KText

definition Identify :: "string \<Rightarrow> string \<times> node_kind option" where
  "Identify start =
     (let p = SkipWhiteSpace start in
      if p = [] then (p, None)
      else if StringEqual p ''<?'' 2 then (drop 2 p, Some KDeclaration)
      else if StringEqual p ''<!--'' 4 then (drop 4 p, Some KComment)
      else if StringEqual p ''<![CDATA['' 9 then (drop 9 p, Some KCData)
      else if StringEqual p ''<!'' 2 then (drop 2 p, Some KUnknown)
      else if StringEqual p ''<'' 1 then (drop 1 p, Some KElement)
      else (start, Some KText))"

section \<open>ParseDeep\<close>

definition Attribute_ParseDeep :: "string \<Rightarrow> bool \<Rightarrow> ((string \<times> xstr) \<times> string) option" where
  "Attribute_ParseDeep p processEntities =
     (case parse_name p of
        None \<Rightarrow> None
      | Some (name, p) \<Rightarrow>
          if p = [] then None
          else
            let p = SkipWhiteSpace p in
            if cur p \<noteq> CHR ''='' then None
            else
              let p = SkipWhiteSpace (drop 1 p) in
              if cur p \<noteq> CHR 0x22 \<and> cur p \<noteq> CHR 0x27 then None
              else map_option (\<lambda>(v, p). ((name, (if processEntities then ATTRIBUTE_VALUE else ATTRIBUTE_VALUE_LEAVE_ENTITIES, v)), p))
                     (parse_text (drop 1 p) [cur p]))"

lemma length_SkipWhiteSpace: "length (SkipWhiteSpace p) \<le> length p"
  by (induction p) auto

lemma text_loop_bound: "text_loop endTag p k = Some n \<Longrightarrow> k \<le> n \<and> n < k + length p"
  by (induction endTag p k rule: text_loop.induct) (auto split: if_splits)

lemma parse_text_shorter: "parse_text p endTag = Some (v, q) \<Longrightarrow> endTag \<noteq> [] \<Longrightarrow> length q < length p"
  by (cases endTag) (auto simp: parse_text_def dest!: text_loop_bound)

lemma parse_name_shorter: "parse_name p = Some (v, q) \<Longrightarrow> length q < length p"
  by (cases p) (auto simp: parse_name_def Let_def split: if_splits)

lemma Attribute_shorter:
  assumes "Attribute_ParseDeep p e = Some (a, q)"
  shows "length q < length p"
proof -
  obtain name r where r: "parse_name p = Some (name, r)" using assms by (auto simp: Attribute_ParseDeep_def split: option.splits)
  let ?s = "SkipWhiteSpace (drop 1 (SkipWhiteSpace r))"
  obtain v where "parse_text (drop 1 ?s) [cur ?s] = Some (v, q)"
    using assms r by (auto simp: Attribute_ParseDeep_def Let_def split: if_splits)
  then have "length q < length (drop 1 ?s)" by (rule parse_text_shorter) simp
  then show ?thesis using parse_name_shorter [OF r] length_SkipWhiteSpace [of "drop 1 (SkipWhiteSpace r)"] length_SkipWhiteSpace [of r] by simp
qed

text \<open>The result is the rest of the text or the null pointer, the attributes, the closing type and the error.\<close>

function ParseAttributes ::
  "bool \<Rightarrow> (string \<times> xstr) list \<Rightarrow> closing_type \<Rightarrow> XMLError \<Rightarrow> string \<Rightarrow> string option \<times> (string \<times> xstr) list \<times> closing_type \<times> XMLError" where
  "ParseAttributes pe attribs ct e p =
     (let p = SkipWhiteSpace p in
      if p = [] then (None, attribs, ct, XML_ERROR_PARSING_ELEMENT)
      else if IsNameStartChar (cur p) then
        case Attribute_ParseDeep p pe of
          None \<Rightarrow> (None, attribs, ct, XML_ERROR_PARSING_ATTRIBUTE)
        | Some ((name, v), p) \<Rightarrow>
            if list_ex (\<lambda>a. StringEqual (fst a) name INT_MAX) attribs then (None, attribs, ct, XML_ERROR_PARSING_ATTRIBUTE)
            else ParseAttributes pe (attribs @ [(name, v)]) ct e p
      else if cur p = CHR ''/'' \<and> cur (drop 1 p) = CHR ''>'' then (Some (drop 2 p), attribs, CLOSED, e)
      else if cur p = CHR ''>'' then (Some (drop 1 p), attribs, ct, e)
      else (None, attribs, ct, XML_ERROR_PARSING_ELEMENT))"
  by pat_completeness auto
termination
proof (relation "measure (\<lambda>(pe, attribs, ct, e, p). length p)", goal_cases)
  case (2 pe attribs ct e p x y z w name v)
  then show ?case using Attribute_shorter length_SkipWhiteSpace [of p] by fastforce
qed simp

declare ParseAttributes.simps [simp del]

text \<open>The methods of nodes call each other. The result is the rest of the text or the null pointer, the node,
  the closing type of an element, its end tag as read by its children, and the error; \<open>None\<close> means that the
  fuel is used up.\<close>

type_synonym node_result = "string option \<times> xnode \<times> closing_type \<times> string option \<times> XMLError"

definition parse_piece :: "string \<Rightarrow> nat \<Rightarrow> XMLError \<Rightarrow> (xstr \<Rightarrow> xnode) \<Rightarrow> string \<Rightarrow> XMLError \<Rightarrow> node_result" where
  "parse_piece endTag flags err mk p e =
     (case parse_text p endTag of
        None \<Rightarrow> (None, mk (0, []), CLOSED, None, err)
      | Some (v, p) \<Rightarrow> (Some p, mk (flags, v), CLOSED, None, e))"

definition Text_ParseDeep :: "xml_settings \<Rightarrow> string \<Rightarrow> XMLError \<Rightarrow> node_result" where
  "Text_ParseDeep cfg p e =
     (let flags = (if set_processEntities cfg then TEXT_ELEMENT else TEXT_ELEMENT_LEAVE_ENTITIES);
          flags = (if set_collapse cfg then flags OR COLLAPSE_WHITESPACE else flags)
      in case parse_text p ''<'' of
           None \<Rightarrow> (None, Text (0, []) False, CLOSED, None, XML_ERROR_PARSING_TEXT)
         | Some (v, q) \<Rightarrow> (if q \<noteq> [] then Some (CHR ''<'' # q) else None, Text (flags, v) False, CLOSED, None, e))"

definition CData_ParseDeep :: "string \<Rightarrow> XMLError \<Rightarrow> node_result" where
  "CData_ParseDeep = parse_piece '']]>'' NEEDS_NEWLINE_NORMALIZATION XML_ERROR_PARSING_CDATA (\<lambda>v. Text v True)"

definition Comment_ParseDeep :: "string \<Rightarrow> XMLError \<Rightarrow> node_result" where
  "Comment_ParseDeep = parse_piece ''-->'' COMMENT XML_ERROR_PARSING_COMMENT Comment"

definition Declaration_ParseDeep :: "string \<Rightarrow> XMLError \<Rightarrow> node_result" where
  "Declaration_ParseDeep = parse_piece ''?>'' NEEDS_NEWLINE_NORMALIZATION XML_ERROR_PARSING_DECLARATION Declaration"

definition Unknown_ParseDeep :: "string \<Rightarrow> XMLError \<Rightarrow> node_result" where
  "Unknown_ParseDeep = parse_piece ''>'' NEEDS_NEWLINE_NORMALIZATION XML_ERROR_PARSING_UNKNOWN Unknown"

text \<open>The call of the virtual method on the node that \<open>Identify\<close> made, elements apart.\<close>

definition Piece_ParseDeep :: "xml_settings \<Rightarrow> node_kind \<Rightarrow> string \<Rightarrow> XMLError \<Rightarrow> node_result" where
  "Piece_ParseDeep cfg kind =
     (case kind of
        KComment \<Rightarrow> Comment_ParseDeep
      | KDeclaration \<Rightarrow> Declaration_ParseDeep
      | KUnknown \<Rightarrow> Unknown_ParseDeep
      | KCData \<Rightarrow> CData_ParseDeep
      | _ \<Rightarrow> Text_ParseDeep cfg)"

lemmas piece_defs = Piece_ParseDeep_def CData_ParseDeep_def Comment_ParseDeep_def Declaration_ParseDeep_def Unknown_ParseDeep_def

text \<open>The start of an element, up to its children.\<close>

definition Element_start :: "xml_settings \<Rightarrow> string \<Rightarrow> XMLError \<Rightarrow> string option \<times> string \<times> (string \<times> xstr) list \<times> closing_type \<times> XMLError" where
  "Element_start cfg p e =
     (let p = SkipWhiteSpace p;
          (ct, p) = (if cur p = CHR ''/'' then (CLOSING, drop 1 p) else (OPEN, p))
      in case parse_name p of
           None \<Rightarrow> (None, [], [], ct, e)
         | Some (name, p) \<Rightarrow>
             (case ParseAttributes (set_processEntities cfg) [] ct e p of (q, attribs, ct, e) \<Rightarrow> (q, name, attribs, ct, e)))"

text \<open>What \<open>XMLNode::ParseDeep\<close> does with the end tag of a child: the error it finds.\<close>

definition end_tag_error :: "xnode \<Rightarrow> closing_type \<Rightarrow> string option \<Rightarrow> bool" where
  "end_tag_error node ct endTag =
     (case node of
        Element name _ _ \<Rightarrow>
          (case endTag of
             None \<Rightarrow> ct = OPEN
           | Some t \<Rightarrow> ct \<noteq> OPEN \<or> \<not> StringEqual t name INT_MAX)
      | _ \<Rightarrow> False)"

definition is_closing :: "xnode \<Rightarrow> closing_type \<Rightarrow> bool" where
  "is_closing node ct = (case node of Element _ _ _ \<Rightarrow> ct = CLOSING | _ \<Rightarrow> False)"

fun Element_ParseDeep :: "nat \<Rightarrow> xml_settings \<Rightarrow> string \<Rightarrow> XMLError \<Rightarrow> node_result option"
  and Node_ParseDeep :: "nat \<Rightarrow> xml_settings \<Rightarrow> string \<Rightarrow> xnode list \<Rightarrow> XMLError \<Rightarrow> (string option \<times> xnode list \<times> string option \<times> XMLError) option" where
  "Element_ParseDeep fuel cfg p e =
     (case Element_start cfg p e of (q, name, attribs, ct, e) \<Rightarrow>
        case q of
          None \<Rightarrow> Some (None, Element name attribs [], ct, None, e)
        | Some p \<Rightarrow>
            if p = [] \<or> ct \<noteq> OPEN then Some (Some p, Element name attribs [], ct, None, e)
            else case fuel of
                   0 \<Rightarrow> None
                 | Suc n \<Rightarrow>
                     map_option (\<lambda>(q, children, endTag, e). (q, Element name attribs children, ct, endTag, e))
                       (Node_ParseDeep n cfg p [] e))"
| "Node_ParseDeep fuel cfg p children e =
     (if p = [] then Some (None, children, None, e)
      else case fuel of
             0 \<Rightarrow> None
           | Suc n \<Rightarrow>
               (case Identify p of
                  (p, None) \<Rightarrow> Some (None, children, None, e)
                | (p, Some kind) \<Rightarrow>
                    Option.bind (if kind = KElement then Element_ParseDeep n cfg p e else Some (Piece_ParseDeep cfg kind p e))
                      (\<lambda>(q, node, ct, endTag, e).
                        case q of
                          None \<Rightarrow> Some (None, children, None, if e = XML_NO_ERROR then XML_ERROR_PARSING else e)
                        | Some p \<Rightarrow>
                            if is_closing node ct then Some (Some p, children, Some (el_name node), e)
                            else if end_tag_error node ct endTag then Some (None, children, None, XML_ERROR_MISMATCHED_ELEMENT)
                            else Node_ParseDeep n cfg p (children @ [node]) e)))"

declare Element_ParseDeep.simps [simp del] Node_ParseDeep.simps [simp del]

section \<open>Termination\<close>

lemma StringEqual_bracket: "StringEqual p ''<'' 1 \<longleftrightarrow> p \<noteq> [] \<and> cur p = CHR ''<''"
  by (cases p) (auto simp: StringEqual_def cur_def NUL_def)

lemma SkipWhiteSpace_cur: "cur p = CHR ''<'' \<Longrightarrow> SkipWhiteSpace p = p"
  by (cases p) (auto simp: cur_def isspace_def code_def)

lemma Identify_shorter:
  assumes "Identify start = (p, Some kind)"
  shows "start \<noteq> []" "kind = KText \<Longrightarrow> p = start \<and> cur start \<noteq> CHR ''<''" "kind \<noteq> KText \<Longrightarrow> length p < length start"
proof -
  let ?p = "SkipWhiteSpace start"
  have ne: "?p \<noteq> []" using assms by (auto simp: Identify_def Let_def)
  then show "start \<noteq> []" by auto
  show "p = start \<and> cur start \<noteq> CHR ''<''" if "kind = KText"
    using assms that ne SkipWhiteSpace_cur [of start] by (auto simp: Identify_def Let_def StringEqual_bracket split: if_splits)
  have less: "length (drop (Suc n) ?p) < length start" for n
    using ne length_SkipWhiteSpace [of start] by (cases ?p) (auto simp: less_eq_Suc_le)
  have "\<exists>n. p = drop (Suc n) ?p" if "kind \<noteq> KText"
    using assms that by (auto simp: Identify_def Let_def eval_nat_numeral split: if_splits)
  then show "length p < length start" if "kind \<noteq> KText" using less that by blast
qed

text \<open>A result that leaves less text.\<close>

definition consumes :: "string \<Rightarrow> string option \<Rightarrow> bool" where
  "consumes p q \<longleftrightarrow> (\<forall>r. q = Some r \<longrightarrow> length r < length p)"

lemma consumes_le: "consumes p q \<Longrightarrow> length p \<le> length p' \<Longrightarrow> consumes p' q"
  by (auto simp: consumes_def)

lemma Piece_shorter:
  assumes "kind = KText \<Longrightarrow> cur p \<noteq> CHR ''<''" "kind \<noteq> KElement"
  shows "consumes p (fst (Piece_ParseDeep cfg kind p e))"
proof (cases "kind = KText")
  case False
  then show ?thesis using assms(2)
    by (cases kind) (auto simp: piece_defs parse_piece_def consumes_def split: option.splits dest: parse_text_shorter)
next
  case True
  have "consumes p (fst (Text_ParseDeep cfg p e))" if "cur p \<noteq> CHR ''<''"
  proof (cases "parse_text p ''<''")
    case (Some vq)
    then obtain k where k: "text_loop ''<'' p 0 = Some k" "vq = (take k p, drop (Suc k) p)" by (auto simp: parse_text_def)
    have "k \<noteq> 0" using k(1) that by (cases p) (auto simp: cur_def strncmp_eq_def dest: text_loop_bound split: if_splits)
    then show ?thesis using Some k text_loop_bound [OF k(1)] by (auto simp: Text_ParseDeep_def consumes_def Let_def)
  qed (simp add: Text_ParseDeep_def consumes_def Let_def)
  then show ?thesis using True assms by (auto simp: piece_defs)
qed

lemma ParseAttributes_shorter: "fst (ParseAttributes pe attribs ct e p) = Some q \<Longrightarrow> length q < length p"
proof (induction pe attribs ct e p rule: ParseAttributes.induct)
  case (1 pe attribs ct e p)
  let ?p = "SkipWhiteSpace p"
  have le: "length ?p \<le> length p" by (rule length_SkipWhiteSpace)
  have ne: "?p \<noteq> []" using 1(2) by (subst (asm) ParseAttributes.simps) (auto simp: Let_def)
  show ?case
  proof (cases "IsNameStartChar (cur ?p)")
    case True
    then obtain name v r where a: "Attribute_ParseDeep ?p pe = Some ((name, v), r)" "\<not> list_ex (\<lambda>a. StringEqual (fst a) name INT_MAX) attribs"
      using 1(2) ne by (subst (asm) ParseAttributes.simps) (auto simp: Let_def split: option.splits if_splits)
    then have "fst (ParseAttributes pe (attribs @ [(name, v)]) ct e r) = Some q"
      using 1(2) ne True by (subst (asm) ParseAttributes.simps) (auto simp: Let_def)
    then have "length q < length r" using 1(1) [OF refl ne True a(1) refl refl a(2)] by simp
    then show ?thesis using Attribute_shorter [OF a(1)] le by simp
  next
    case False
    then have "q = drop 2 ?p \<or> q = drop 1 ?p" using 1(2) ne by (subst (asm) ParseAttributes.simps) (auto simp: Let_def split: if_splits)
    then show ?thesis using ne le by (cases ?p) (auto simp: less_eq_Suc_le)
  qed
qed

lemma Element_start_shorter:
  assumes "fst (Element_start cfg p e) = Some q"
  shows "Suc (length q) < length p"
proof -
  let ?p = "SkipWhiteSpace p"
  let ?q = "if cur ?p = CHR ''/'' then drop 1 ?p else ?p"
  obtain name r where r: "parse_name ?q = Some (name, r)" using assms by (auto simp: Element_start_def Let_def split: option.splits if_splits)
  let ?ct = "if cur ?p = CHR ''/'' then CLOSING else OPEN"
  have "Element_start cfg p e = (case ParseAttributes (set_processEntities cfg) [] ?ct e r of (q, attribs, ct, e) \<Rightarrow> (q, name, attribs, ct, e))"
    using r by (auto simp: Element_start_def Let_def split: prod.split)
  then have "fst (ParseAttributes (set_processEntities cfg) [] ?ct e r) = Some q"
    using assms by (cases "ParseAttributes (set_processEntities cfg) [] ?ct e r") auto
  then have "length q < length r" by (rule ParseAttributes_shorter)
  moreover have "length r < length ?q" by (rule parse_name_shorter [OF r])
  ultimately show ?thesis using length_SkipWhiteSpace [of p] by (auto split: if_splits)
qed

text \<open>Enough fuel for the methods that call each other.\<close>

definition node_ends :: "nat \<Rightarrow> bool" where
  "node_ends n \<longleftrightarrow> (\<forall>cfg p ch e. length p \<le> n \<longrightarrow> (\<exists>q r. Node_ParseDeep n cfg p ch e = Some (q, r) \<and> consumes p q))"

lemma node_endsE:
  assumes "node_ends n" "length p \<le> n"
  obtains q r where "Node_ParseDeep n cfg p ch e = Some (q, r)" "consumes p q"
  using assms unfolding node_ends_def by meson

lemma Element_ends:
  assumes "n = 0 \<or> node_ends (n - 1)" "length p \<le> n"
  shows "\<exists>q r. Element_ParseDeep n cfg p e = Some (q, r) \<and> consumes p q"
proof -
  obtain q name attribs ct e' where st: "Element_start cfg p e = (q, name, attribs, ct, e')" by (cases "Element_start cfg p e") auto
  show ?thesis
  proof (cases "\<exists>r. q = Some r \<and> r \<noteq> [] \<and> ct = OPEN")
    case False
    then show ?thesis using st Element_start_shorter [of cfg p e]
      by (subst Element_ParseDeep.simps) (auto simp: consumes_def split: option.splits)
  next
    case True
    then obtain r where r: "q = Some r" "r \<noteq> []" "ct = OPEN" by blast
    have lt: "Suc (length r) < length p" using Element_start_shorter [of cfg p e r] st r(1) by simp
    then obtain k where k: "n = Suc k" using assms(2) by (cases n) auto
    have "node_ends k" "length r \<le> k" using assms lt k by auto
    then obtain q' x where "Node_ParseDeep k cfg r [] e' = Some (q', x)" "consumes r q'" by (rule node_endsE)
    then show ?thesis using st r k lt consumes_le [of r q' p]
      by (subst Element_ParseDeep.simps) (auto split: prod.splits)
  qed
qed

lemma Node_child:
  assumes "Identify p = (p', Some kind)" "k = 0 \<or> node_ends (k - 1)" "length p \<le> Suc k"
  shows "\<exists>q r. (if kind = KElement then Element_ParseDeep k cfg p' e else Some (Piece_ParseDeep cfg kind p' e)) = Some (q, r) \<and> consumes p q"
proof (cases "kind = KElement")
  case True
  then have "length p' < length p" using Identify_shorter(3) [OF assms(1)] by simp
  then show ?thesis using Element_ends [OF assms(2), of p' cfg e] assms(3) True consumes_le [of p' _ p] by fastforce
next
  case False
  have "consumes p' (fst (Piece_ParseDeep cfg kind p' e))"
    using Identify_shorter(2) [OF assms(1)] False by (intro Piece_shorter) auto
  moreover have "length p' \<le> length p" using Identify_shorter(2,3) [OF assms(1)] by (cases "kind = KText") auto
  ultimately show ?thesis using False consumes_le by (cases "Piece_ParseDeep cfg kind p' e") auto
qed

lemma Node_ends: "node_ends n"
proof (induction n rule: less_induct)
  case (less n)
  show ?case unfolding node_ends_def
  proof (intro allI impI)
    fix cfg p ch e assume len: "length (p :: string) \<le> n"
    show "\<exists>q r. Node_ParseDeep n cfg p ch e = Some (q, r) \<and> consumes p q"
    proof (cases "p = [] \<or> snd (Identify p) = None")
      case True
      then show ?thesis using len by (subst Node_ParseDeep.simps) (auto simp: consumes_def split: nat.split prod.split option.split)
    next
      case False
      then obtain k where k: "n = Suc k" using len by (cases n) auto
      obtain p' kind where id: "Identify p = (p', Some kind)" using False by (cases "Identify p") auto
      let ?node = "if kind = KElement then Element_ParseDeep k cfg p' e else Some (Piece_ParseDeep cfg kind p' e)"
      obtain q node ct t e' where node: "?node = Some (q, node, ct, t, e')" "consumes p q"
        using Node_child [OF id, of k cfg e] less.IH [of "k - 1"] len k by fastforce
      show ?thesis
      proof (cases "\<exists>r. q = Some r \<and> \<not> is_closing node ct \<and> \<not> end_tag_error node ct t")
        case False
        then show ?thesis using node id k \<open>\<not> (p = [] \<or> snd (Identify p) = None)\<close>
          by (subst Node_ParseDeep.simps) (auto simp: consumes_def split: option.splits)
      next
        case True
        then obtain r where r: "q = Some r" "\<not> is_closing node ct" "\<not> end_tag_error node ct t" by blast
        then have "length r < length p" using node(2) by (simp add: consumes_def)
        then have "node_ends k" "length r \<le> k" using less.IH k len by auto
        then obtain q' x where "Node_ParseDeep k cfg r (ch @ [node]) e' = Some (q', x)" "consumes r q'" by (rule node_endsE)
        then show ?thesis using node id k r \<open>\<not> (p = [] \<or> snd (Identify p) = None)\<close> consumes_le [of r q' p] \<open>length r < length p\<close>
          by (subst Node_ParseDeep.simps, cases x) auto
      qed
    qed
  qed
qed

section \<open>Documents\<close>

text \<open>A document after parsing. The texts of an error, which are only printed, are left out.\<close>

record XMLDocument =
  xd_errorID :: XMLError
  xd_writeBOM :: bool
  xd_children :: "xnode list"

definition SetError :: "XMLError \<Rightarrow> XMLDocument \<Rightarrow> XMLDocument" where
  "SetError e d = d\<lparr>xd_errorID := e\<rparr>"

definition XMLDocument_new :: XMLDocument where
  "XMLDocument_new = \<lparr>xd_errorID = XML_NO_ERROR, xd_writeBOM = False, xd_children = []\<rparr>"

definition Clear :: "XMLDocument \<Rightarrow> XMLDocument" where
  "Clear d = d\<lparr>xd_children := [], xd_errorID := XML_NO_ERROR\<rparr>"

definition Document_ParseDeep :: "xml_settings \<Rightarrow> string \<Rightarrow> XMLDocument \<Rightarrow> XMLDocument option" where
  "Document_ParseDeep cfg p d =
     map_option (\<lambda>(q, children, endTag, e). d\<lparr>xd_children := children, xd_errorID := e\<rparr>)
       (Node_ParseDeep (length p) cfg p (xd_children d) (xd_errorID d))"

text \<open>\<open>len\<close> is \<open>None\<close> for the default argument.\<close>

definition Parse :: "xml_settings \<Rightarrow> string \<Rightarrow> nat option \<Rightarrow> XMLDocument \<Rightarrow> XMLDocument option" where
  "Parse cfg p len d =
     (let d = Clear d in
      if p = [] then Some (SetError XML_ERROR_EMPTY_DOCUMENT d)
      else
        let charBuffer = (case len of None \<Rightarrow> p | Some n \<Rightarrow> take n p);
            (q, bom) = ReadBOM (SkipWhiteSpace p);
            d = d\<lparr>xd_writeBOM := bom\<rparr>
        in if q = [] then Some (SetError XML_ERROR_EMPTY_DOCUMENT d)
           else Document_ParseDeep cfg charBuffer d)"

text \<open>The file as its contents, without a file \<open>None\<close>; \<open>got\<close> is the number of bytes that \<open>fread\<close> returns.\<close>

definition LoadFile :: "xml_settings \<Rightarrow> string option \<Rightarrow> nat \<Rightarrow> XMLDocument \<Rightarrow> XMLDocument option" where
  "LoadFile cfg contents got d =
     (let d = Clear d in
      case contents of
        None \<Rightarrow> Some (SetError XML_ERROR_FILE_NOT_FOUND d)
      | Some s \<Rightarrow>
          if s = [] then Some (SetError XML_ERROR_EMPTY_DOCUMENT d)
          else if got \<noteq> length s then Some (SetError XML_ERROR_FILE_READ_ERROR d)
          else
            let (q, bom) = ReadBOM (SkipWhiteSpace (zstr s));
                d = d\<lparr>xd_writeBOM := bom\<rparr>
            in if q = [] then Some (SetError XML_ERROR_EMPTY_DOCUMENT d)
               else Document_ParseDeep cfg q d)"

text \<open>\<open>opened\<close> tells whether the file could be opened. The result is the contents of the file and the error.\<close>

definition SaveFile :: "bool \<Rightarrow> bool \<Rightarrow> xmldocument \<Rightarrow> XMLError \<Rightarrow> (string option \<times> XMLError) option" where
  "SaveFile opened compact_mode doc e =
     (if \<not> opened then Some (None, XML_ERROR_FILE_COULD_NOT_BE_OPENED)
      else Option.bind (XMLPrinter_new (Some []) compact_mode) (\<lambda>stream. map_option (\<lambda>pr. (pr_fp pr, e)) (Document_Print (Some stream) doc)))"


section \<open>Parsing what was printed\<close>

text \<open>The values as they are read, and the tree they make.\<close>

definition value_of :: "xstr \<Rightarrow> string option" where
  "value_of v = decode (fst v) (snd v)"

fun node_of :: "xnode \<Rightarrow> xmlnode option" where
  "node_of (Element name attribs children) =
     Option.bind (those (map (\<lambda>(k, v). map_option (Pair k) (value_of v)) attribs)) (\<lambda>as.
     map_option (XMLElement name as) (those (map node_of children)))"
| "node_of (Text v cdata) = map_option (\<lambda>s. XMLText s cdata) (value_of v)"
| "node_of (Comment v) = map_option XMLComment (value_of v)"
| "node_of (Declaration v) = map_option XMLDeclaration (value_of v)"
| "node_of (Unknown v) = map_option XMLUnknown (value_of v)"

text \<open>The trees that XML can represent: proper names, different attributes, no zeros and carriage returns, texts
  that are not blank and not adjacent, and no end tag inside of a piece.\<close>

definition clean :: "string \<Rightarrow> bool" where
  "clean s \<longleftrightarrow> NUL \<notin> set s \<and> CR \<notin> set s"

definition wf_name :: "string \<Rightarrow> bool" where
  "wf_name n \<longleftrightarrow> n \<noteq> [] \<and> IsNameStartChar (hd n) \<and> list_all IsNameChar n \<and> int (length n) < INT_MAX"

definition free_of :: "string \<Rightarrow> string \<Rightarrow> bool" where
  "free_of tag s \<longleftrightarrow> (\<forall>i < length s. take (length tag) (drop i (s @ tag)) \<noteq> tag)"

definition plain_text :: "xmlnode \<Rightarrow> bool" where
  "plain_text x = (case x of XMLText s cdata \<Rightarrow> \<not> cdata | _ \<Rightarrow> False)"

fun separated :: "xmlnode list \<Rightarrow> bool" where
  "separated (x # y # xs) \<longleftrightarrow> \<not> (plain_text x \<and> plain_text y) \<and> separated (y # xs)"
| "separated xs \<longleftrightarrow> True"

fun wf_node :: "xmlnode \<Rightarrow> bool" where
  "wf_node (XMLElement name attribs children) \<longleftrightarrow>
     wf_name name \<and> list_all (\<lambda>a. wf_name (fst a) \<and> clean (snd a)) attribs \<and> distinct (map fst attribs) \<and>
     list_all wf_node children \<and> separated children"
| "wf_node (XMLText s cdata) \<longleftrightarrow> clean s \<and> (if cdata then free_of '']]>'' s else list_ex (\<lambda>c. \<not> IsWhiteSpace c) s)"
| "wf_node (XMLComment s) \<longleftrightarrow> clean s \<and> free_of ''-->'' s"
| "wf_node (XMLDeclaration s) \<longleftrightarrow> clean s \<and> free_of ''?>'' s"
| "wf_node (XMLUnknown s) \<longleftrightarrow> clean s \<and> free_of ''>'' s \<and> take 2 s \<noteq> ''--'' \<and> take 7 s \<noteq> ''[CDATA[''"

text \<open>The node that the parser makes of a serialised one.\<close>

fun parsed_of :: "xmlnode \<Rightarrow> xnode" where
  "parsed_of (XMLElement name attribs children) =
     Element name (map (\<lambda>a. (fst a, (ATTRIBUTE_VALUE, escape ENTITY_FLAGS (snd a)))) attribs) (map parsed_of children)"
| "parsed_of (XMLText s cdata) = Text (if cdata then (NEEDS_NEWLINE_NORMALIZATION, s) else (TEXT_ELEMENT, escape RESTRICTED_FLAGS s)) cdata"
| "parsed_of (XMLComment s) = Comment (COMMENT, s)"
| "parsed_of (XMLDeclaration s) = Declaration (NEEDS_NEWLINE_NORMALIZATION, s)"
| "parsed_of (XMLUnknown s) = Unknown (NEEDS_NEWLINE_NORMALIZATION, s)"

subsection \<open>Reading the values\<close>

lemma norm_lines_clean: "CR \<notin> set s \<Longrightarrow> norm_lines s = s"
proof (induction s)
  case (Cons c s)
  have "cur s \<noteq> CR" using Cons.prems by (cases s) (auto simp: cur_def CR_def)
  then show ?case using Cons by auto
qed simp

lemma value_of_lines: "clean s \<Longrightarrow> value_of (NEEDS_NEWLINE_NORMALIZATION, s) = Some s"
  by (simp add: value_of_def decode_lines norm_lines_clean clean_def)

lemma value_of_escape: "clean s \<Longrightarrow> escapes flag \<Longrightarrow> value_of (TEXT_ELEMENT, escape flag s) = Some s"
  by (simp add: value_of_def decode_escape clean_def)

lemma those_Some: "(\<And>x. x \<in> set xs \<Longrightarrow> f x = Some (g x)) \<Longrightarrow> those (map f xs) = Some (map g xs)"
  by (induction xs) simp_all

lemma node_of_parsed: "wf_node x \<Longrightarrow> node_of (parsed_of x) = Some x"
proof (induction x)
  case (XMLElement name attribs children)
  have "those (map (\<lambda>(k, v). map_option (Pair k) (value_of v)) (map (\<lambda>a. (fst a, (ATTRIBUTE_VALUE, escape ENTITY_FLAGS (snd a)))) attribs)) =
      Some (map id attribs)"
    unfolding map_map using XMLElement.prems
    by (intro those_Some) (auto simp: list_all_iff ATTRIBUTE_VALUE_def value_of_escape [unfolded TEXT_ELEMENT_def] escapes_flags)
  moreover have "those (map node_of (map parsed_of children)) = Some (map id children)"
    unfolding map_map using XMLElement by (intro those_Some) (auto simp: list_all_iff)
  ultimately show ?case by simp
qed (auto simp: value_of_lines value_of_escape escapes_flags COMMENT_def)

subsection \<open>Names and pieces\<close>

lemma name_loop_all: "list_all IsNameChar n \<Longrightarrow> \<not> IsNameChar (cur r) \<Longrightarrow> xml_name_loop (n @ r) False k = k + length n"
  by (induction n arbitrary: k) (cases r; auto simp: cur_def)+

lemma parse_name_append:
  assumes "wf_name n" "\<not> IsNameChar (cur r)"
  shows "parse_name (n @ r) = Some (n, r)"
proof -
  obtain c m where n: "n = c # m" using assms(1) by (cases n) (auto simp: wf_name_def)
  have "xml_name_loop (n @ r) True 0 = length n"
    using assms name_loop_all [of m r 1] by (simp add: n wf_name_def)
  then show ?thesis by (simp add: parse_name_def n)
qed

lemma parse_text_append:
  assumes "free_of tag s" "tag \<noteq> []"
  shows "parse_text (s @ tag @ r) tag = Some (s, r)"
proof -
  have "take (length tag) (drop i (s @ tag @ r)) \<noteq> tag" if "i < length s" for i
    using assms(1) that by (simp add: free_of_def take_append flip: append_assoc)
  then have "text_loop tag (s @ tag @ r) 0 = Some (0 + length s)" by (rule text_loop_first) (use assms(2) in auto)
  then show ?thesis by (simp add: parse_text_def)
qed

lemma free_of_single: "d \<notin> set s \<Longrightarrow> free_of [d] s"
  unfolding free_of_def using single_tag [of d s] by blast

lemma equal_loop_header:
  "NUL \<notin> set h \<Longrightarrow> (case equal_loop p h i (i + int (length h)) of (p', q', k) \<Rightarrow> k = i + int (length h) \<or> cur p' = NUL \<and> cur q' = NUL) \<longleftrightarrow>
     take (length h) p = h"
proof (induction p h i "i + int (length h)" rule: equal_loop.induct)
  case (1 a p b h i)
  show ?case
  proof (cases "a = b")
    case True
    have "b \<noteq> NUL" using 1(2) by auto
    then show ?thesis using 1 True by (simp add: ac_simps)
  qed (use 1 in \<open>auto simp: cur_def\<close>)
qed (auto simp: cur_def NUL_def split: list.splits)

lemma StringEqual_header: "NUL \<notin> set h \<Longrightarrow> n = int (length h) \<Longrightarrow> StringEqual p h n \<longleftrightarrow> take (length h) p = h"
  using equal_loop_header [where p = p and i = 0] by (simp add: StringEqual_def)

subsection \<open>Nodes\<close>

lemma SkipWhiteSpace_stop: "\<not> isspace (cur p) \<Longrightarrow> SkipWhiteSpace p = p"
  by (cases p) (auto simp: cur_def)

lemma plain_chars: "\<not> isspace (CHR ''<'')" "\<not> isspace (CHR ''='')" "\<not> isspace (CHR ''/'')" "\<not> isspace (CHR ''>'')" "\<not> isspace (CHR 0x22)"
  "isspace (CHR '' '')" "\<not> IsUTF8Continuation (CHR '' '')"
  by (simp_all add: isspace_def code_def IsUTF8Continuation_def)

lemma no_name_chars: "\<not> IsNameChar (CHR ''='')" "\<not> IsNameChar (CHR '' '')" "\<not> IsNameChar (CHR ''/'')" "\<not> IsNameChar (CHR ''>'')"
  "\<not> IsNameStartChar (CHR ''/'')" "\<not> IsNameStartChar (CHR ''>'')"
  by (simp_all add: IsNameChar_def IsNameStartChar_def isalpha_def isdigit_def code_def)

lemma headers:
  "StringEqual p ''<?'' 2 \<longleftrightarrow> take 2 p = ''<?''" "StringEqual p ''<!--'' 4 \<longleftrightarrow> take 4 p = ''<!--''"
  "StringEqual p ''<![CDATA['' 9 \<longleftrightarrow> take 9 p = ''<![CDATA[''" "StringEqual p ''<!'' 2 \<longleftrightarrow> take 2 p = ''<!''"
  "StringEqual p ''<'' 1 \<longleftrightarrow> take 1 p = ''<''"
  by (subst StringEqual_header; simp add: NUL_def numeral_eq_Suc)+

lemma Identify_tags:
  "Identify (''<?'' @ r) = (r, Some KDeclaration)" "Identify (''<!--'' @ r) = (r, Some KComment)" "Identify (''<![CDATA['' @ r) = (r, Some KCData)"
  by (simp_all add: Identify_def headers plain_chars Let_def)

lemma Identify_unknown:
  assumes "take 2 r \<noteq> ''--''" "take 7 r \<noteq> ''[CDATA[''"
  shows "Identify (''<!'' @ r) = (r, Some KUnknown)"
  using assms by (simp add: Identify_def headers plain_chars Let_def numeral_eq_Suc)

lemma Identify_element:
  assumes "cur r \<noteq> CHR ''?''" "cur r \<noteq> CHR ''!''"
  shows "Identify (''<'' @ r) = (r, Some KElement)"
  using assms by (cases r) (simp_all add: Identify_def headers plain_chars Let_def numeral_eq_Suc cur_def)

lemma dropWhile_prefix: "dropWhile P s = c # u \<Longrightarrow> dropWhile P (s @ r) = c # u @ r"
  by (induction s) (auto split: if_splits)

lemma Identify_text:
  assumes "CHR ''<'' \<notin> set s" "list_ex (\<lambda>c. \<not> IsWhiteSpace c) s"
  shows "Identify (s @ r) = (s @ r, Some KText)"
proof -
  obtain c u where c: "dropWhile IsWhiteSpace s = c # u" using assms(2) by (cases "dropWhile IsWhiteSpace s") (auto simp: list_ex_iff)
  then have "c \<in> set s" by (metis list.set_intros(1) set_dropWhileD)
  then have "c \<noteq> CHR ''<''" using assms(1) by auto
  moreover have "SkipWhiteSpace (s @ r) = c # u @ r"
    unfolding SkipWhiteSpace_dropWhile by (rule dropWhile_prefix [OF c])
  ultimately show ?thesis by (simp add: Identify_def headers Let_def numeral_eq_Suc)
qed

text \<open>Attributes.\<close>

lemma no_quote: "CHR 0x22 \<notin> set (escape ENTITY_FLAGS v)"
  using escape_chars [OF escapes_flags(1), of "CHR 0x22" v] by (auto simp: flag_chars)

lemma Attribute_printed:
  assumes "wf_name k"
  shows "Attribute_ParseDeep (k @ ''='' @ [CHR 0x22] @ escape ENTITY_FLAGS v @ [CHR 0x22] @ r) True =
    Some ((k, (ATTRIBUTE_VALUE, escape ENTITY_FLAGS v)), r)"
proof -
  have "parse_name (k @ ''='' @ [CHR 0x22] @ escape ENTITY_FLAGS v @ [CHR 0x22] @ r) = Some (k, ''='' @ [CHR 0x22] @ escape ENTITY_FLAGS v @ [CHR 0x22] @ r)"
    using assms by (rule parse_name_append) (simp add: cur_def no_name_chars)
  moreover have "parse_text (escape ENTITY_FLAGS v @ [CHR 0x22] @ r) [CHR 0x22] = Some (escape ENTITY_FLAGS v, r)"
    by (rule parse_text_append [OF free_of_single [OF no_quote]]) simp
  ultimately show ?thesis by (simp add: Attribute_ParseDeep_def Let_def cur_def plain_chars)
qed

lemma name_no_NUL: "wf_name name \<Longrightarrow> NUL \<notin> set name"
  by (auto simp: wf_name_def list_all_iff NUL_def IsNameChar_def IsNameStartChar_def isalpha_def isdigit_def code_def)

lemma StringEqual_name: "wf_name a \<Longrightarrow> wf_name b \<Longrightarrow> StringEqual a b INT_MAX \<longleftrightarrow> a = b"
proof -
  assume n: "wf_name a" "wf_name b"
  have "NUL \<notin> set a" "NUL \<notin> set b" using n name_no_NUL by auto
  then show ?thesis using StringEqual_take [of a b "2 ^ 31 - 1"] n by (simp add: INT_MAX_def wf_name_def)
qed

lemma ParseAttributes_end:
  "ParseAttributes pe attribs ct e (''/>'' @ r) = (Some r, attribs, CLOSED, e)"
  "ParseAttributes pe attribs ct e (''>'' @ r) = (Some r, attribs, ct, e)"
  by (subst ParseAttributes.simps; simp add: Let_def plain_chars no_name_chars cur_def)+

lemma ParseAttributes_printed:
  "list_all (\<lambda>a. wf_name (fst a)) (attribs @ old) \<Longrightarrow> distinct (map fst (old @ attribs)) \<Longrightarrow>
   ParseAttributes True (map (\<lambda>a. (fst a, (ATTRIBUTE_VALUE, escape ENTITY_FLAGS (snd a)))) old) ct e (concat (map attribute_text attribs) @ r) =
   ParseAttributes True (map (\<lambda>a. (fst a, (ATTRIBUTE_VALUE, escape ENTITY_FLAGS (snd a)))) (old @ attribs)) ct e r"
proof (induction attribs arbitrary: old)
  case (Cons a attribs)
  let ?old = "map (\<lambda>a. (fst a, (ATTRIBUTE_VALUE, escape ENTITY_FLAGS (snd a)))) old" and ?v = "(ATTRIBUTE_VALUE, escape ENTITY_FLAGS (snd a))"
  let ?rest = "concat (map attribute_text attribs) @ r"
  let ?t = "fst a @ ''='' @ [CHR 0x22] @ escape ENTITY_FLAGS (snd a) @ [CHR 0x22] @ ?rest"
  have name: "wf_name (fst a)" using Cons.prems by simp
  then obtain c n where c: "fst a = c # n" "IsNameStartChar c" by (cases "fst a") (auto simp: wf_name_def)
  have "\<not> isspace c" using c(2) by (auto simp: IsNameStartChar_def isspace_def isalpha_def code_def split: if_splits)
  then have skip: "SkipWhiteSpace (concat (map attribute_text (a # attribs)) @ r) = ?t"
    using c by (simp add: attribute_text_def plain_chars)
  have "\<not> StringEqual (fst b) (fst a) INT_MAX" if "b \<in> set old" for b
  proof -
    have "fst b \<in> fst ` set old" using that by (rule imageI)
    moreover have "fst a \<notin> fst ` set old" using Cons.prems(2) by simp
    ultimately have "fst b \<noteq> fst a" by metis
    moreover have "wf_name (fst b)" using Cons.prems(1) that by (simp add: list_all_iff)
    ultimately show ?thesis using name by (simp add: StringEqual_name)
  qed
  then have "\<not> list_ex (\<lambda>b. StringEqual (fst b) (fst a) INT_MAX) ?old" by (auto simp: list_ex_iff)
  then have "ParseAttributes True ?old ct e (concat (map attribute_text (a # attribs)) @ r) = ParseAttributes True (?old @ [(fst a, ?v)]) ct e ?rest"
    using c Attribute_printed [OF name, of "snd a" ?rest] by (subst ParseAttributes.simps, subst skip) (simp add: Let_def cur_def)
  then show ?case using Cons.IH [of "old @ [a]"] Cons.prems by simp
qed simp

text \<open>Elements.\<close>

definition printed_attribs :: "(string \<times> string) list \<Rightarrow> (string \<times> xstr) list" where
  "printed_attribs attribs = map (\<lambda>a. (fst a, (ATTRIBUTE_VALUE, escape ENTITY_FLAGS (snd a)))) attribs"

definition proper_attribs :: "(string \<times> string) list \<Rightarrow> bool" where
  "proper_attribs attribs \<longleftrightarrow> list_all (\<lambda>a. wf_name (fst a)) attribs \<and> distinct (map fst attribs)"

lemma name_head:
  assumes "wf_name name"
  obtains c n where "name = c # n" "IsNameStartChar c" "\<not> isspace c" "c \<noteq> CHR ''/''" "c \<noteq> CHR ''?''" "c \<noteq> CHR ''!''"
proof -
  obtain c n where c: "name = c # n" "IsNameStartChar c" using assms by (cases name) (auto simp: wf_name_def)
  then have "\<not> isspace c" "c \<noteq> CHR ''/''" "c \<noteq> CHR ''?''" "c \<noteq> CHR ''!''"
    by (auto simp: IsNameStartChar_def isspace_def isalpha_def code_def split: if_splits)
  then show ?thesis using c that by blast
qed

lemma attribs_not_name: "\<not> IsNameChar (cur t) \<Longrightarrow> \<not> IsNameChar (cur (concat (map attribute_text attribs) @ t))"
  by (cases attribs) (auto simp: attribute_text_def cur_def no_name_chars)

lemma Element_start_open:
  assumes "wf_name name" "proper_attribs attribs" "set_processEntities cfg" "t = ''>'' \<and> ct = OPEN \<or> t = ''/>'' \<and> ct = CLOSED"
  shows "Element_start cfg (name @ concat (map attribute_text attribs) @ t @ r) e = (Some r, name, printed_attribs attribs, ct, e)"
proof -
  let ?a = "concat (map attribute_text attribs) @ t @ r"
  obtain c n where c: "name = c # n" "\<not> isspace c" "c \<noteq> CHR ''/''" using assms(1) by (rule name_head)
  have "\<not> IsNameChar (cur ?a)" using assms(4) attribs_not_name [of "t @ r" attribs] by (auto simp: cur_def no_name_chars)
  then have "parse_name (name @ ?a) = Some (name, ?a)" by (rule parse_name_append [OF assms(1)])
  moreover have "ParseAttributes True [] OPEN e ?a = (Some r, printed_attribs attribs, ct, e)"
    using ParseAttributes_printed [of attribs "[]" OPEN e "t @ r"] assms(2,4) ParseAttributes_end
    by (auto simp: proper_attribs_def printed_attribs_def)
  ultimately show ?thesis using c assms(3) by (simp add: Element_start_def SkipWhiteSpace_stop cur_def Let_def)
qed

lemma Element_start_closing:
  assumes "wf_name name"
  shows "Element_start cfg (''/'' @ name @ ''>'' @ r) e = (Some r, name, [], CLOSING, e)"
proof -
  have "parse_name (name @ ''>'' @ r) = Some (name, ''>'' @ r)"
    using assms by (rule parse_name_append) (simp add: cur_def no_name_chars)
  then show ?thesis using ParseAttributes_end(2) by (simp add: Element_start_def SkipWhiteSpace_stop cur_def Let_def plain_chars)
qed

subsection \<open>Trees\<close>

text \<open>The parser reads one node from its text \<open>t\<close> and goes on behind it.\<close>

definition reads_node :: "xml_settings \<Rightarrow> xmlnode \<Rightarrow> string \<Rightarrow> bool" where
  "reads_node cfg x t \<longleftrightarrow> (\<forall>n r ch e. (plain_text x \<longrightarrow> (\<exists>u. u \<noteq> [] \<and> r = CHR ''<'' # u)) \<longrightarrow> length (t @ r) \<le> Suc n \<longrightarrow>
     Node_ParseDeep (Suc n) cfg (t @ r) ch e = Node_ParseDeep n cfg r (ch @ [parsed_of x]) e)"

lemma Node_piece:
  assumes "Identify p = (p', Some kind)" "kind \<noteq> KElement" "Piece_ParseDeep cfg kind p' e = (Some r, node, ct, None, e)" "\<And>n a c. node \<noteq> Element n a c"
  shows "Node_ParseDeep (Suc n) cfg p ch e = Node_ParseDeep n cfg r (ch @ [node]) e"
proof -
  have "p \<noteq> []" using Identify_shorter(1) [OF assms(1)] .
  moreover have "\<not> is_closing node ct" "\<not> end_tag_error node ct None"
    using assms(4) by (cases node; simp add: is_closing_def end_tag_error_def)+
  ultimately show ?thesis using assms(1-3) by (subst Node_ParseDeep.simps) simp
qed

lemma escape_no_bracket: "CHR ''<'' \<notin> set (escape RESTRICTED_FLAGS s)"
  using escape_chars [OF escapes_flags(2), of "CHR ''<''" s] by (auto simp: flag_chars)

lemma list_ex_escape:
  assumes "list_ex (\<lambda>c. \<not> IsWhiteSpace c) s"
  shows "list_ex (\<lambda>c. \<not> IsWhiteSpace c) (escape RESTRICTED_FLAGS s)"
proof -
  obtain c where c: "c \<in> set s" "\<not> IsWhiteSpace c" using assms by (auto simp: list_ex_iff)
  have amp: "\<exists>d \<in> set (entity_text c). \<not> IsWhiteSpace d" if "has_flag RESTRICTED_FLAGS c"
    using that by (auto simp: flag_chars entity_texts IsWhiteSpace_def isspace_def code_def)
  obtain d where d: "d \<in> set (if has_flag RESTRICTED_FLAGS c then entity_text c else [c])" "\<not> IsWhiteSpace d"
    using amp c(2) by (cases "has_flag RESTRICTED_FLAGS c") auto
  have "d \<in> set (escape RESTRICTED_FLAGS s)" using c(1) d(1) by (auto simp: escape_def split: if_splits)
  then show ?thesis using d(2) by (auto simp: list_ex_iff)
qed

lemma reads_text:
  assumes "set_processEntities cfg" "\<not> set_collapse cfg" "wf_node (XMLText s False)"
  shows "reads_node cfg (XMLText s False) (escape RESTRICTED_FLAGS s)"
  unfolding reads_node_def
proof (intro allI impI)
  fix n r ch e
  let ?s = "escape RESTRICTED_FLAGS s"
  assume "plain_text (XMLText s False) \<longrightarrow> (\<exists>u. u \<noteq> [] \<and> r = CHR ''<'' # u)"
  then obtain u where u: "u \<noteq> []" "r = CHR ''<'' # u" by (auto simp: plain_text_def)
  have "parse_text (?s @ ''<'' @ u) ''<'' = Some (?s, u)"
    by (rule parse_text_append [OF free_of_single [OF escape_no_bracket]]) simp
  then have "Piece_ParseDeep cfg KText (?s @ r) e = (Some r, parsed_of (XMLText s False), CLOSED, None, e)"
    using u assms by (simp add: piece_defs Text_ParseDeep_def Let_def)
  moreover have "Identify (?s @ r) = (?s @ r, Some KText)"
    using escape_no_bracket assms(3) by (intro Identify_text) (auto simp: list_ex_escape)
  ultimately show "Node_ParseDeep (Suc n) cfg (?s @ r) ch e = Node_ParseDeep n cfg r (ch @ [parsed_of (XMLText s False)]) e"
    by (simp add: Node_piece)
qed

lemma reads_piece:
  assumes "\<And>r. Identify (serialize x @ r) = (s @ tag @ r, Some kind)" "kind \<noteq> KElement" "free_of tag s" "tag \<noteq> []"
    "Piece_ParseDeep cfg kind = parse_piece tag flags err mk" "parsed_of x = mk (flags, s)" "\<And>n a c. mk (flags, s) \<noteq> Element n a c"
  shows "reads_node cfg x (serialize x)"
  unfolding reads_node_def
proof (intro allI impI)
  fix n r ch e
  have "Piece_ParseDeep cfg kind (s @ tag @ r) e = (Some r, parsed_of x, CLOSED, None, e)"
    using parse_text_append [OF assms(3,4), of r] by (simp add: assms(5,6) parse_piece_def)
  then show "Node_ParseDeep (Suc n) cfg (serialize x @ r) ch e = Node_ParseDeep n cfg r (ch @ [parsed_of x]) e"
    using assms by (intro Node_piece) auto
qed

lemma serialize_bracket: "\<not> plain_text x \<Longrightarrow> \<exists>u. u \<noteq> [] \<and> serialize x = CHR ''<'' # u"
  by (cases x) (auto simp: plain_text_def)

lemma serialize_nonempty: "wf_node x \<Longrightarrow> serialize x \<noteq> []"
  using serialize_bracket [of x] list_ex_escape by (cases x) (fastforce simp: plain_text_def)+

text \<open>A plain text is read up to the bracket of the next tag.\<close>

definition ends_by :: "xmlnode list \<Rightarrow> string \<Rightarrow> bool" where
  "ends_by xs r \<longleftrightarrow> (xs \<noteq> [] \<and> plain_text (last xs) \<longrightarrow> (\<exists>u. u \<noteq> [] \<and> r = CHR ''<'' # u))"

lemma ends_by_Cons:
  assumes "separated (x # xs)" "ends_by (x # xs) r" "plain_text x"
  shows "\<exists>u. u \<noteq> [] \<and> concat (map serialize xs) @ r = CHR ''<'' # u"
proof (cases xs)
  case (Cons y ys)
  then have "\<not> plain_text y" using assms by simp
  then show ?thesis using serialize_bracket [of y] Cons by auto
qed (use assms in \<open>simp add: ends_by_def\<close>)

lemma reads_step:
  assumes "reads_node cfg x t" "t \<noteq> []" "length (t @ r) \<le> n" "plain_text x \<longrightarrow> (\<exists>u. u \<noteq> [] \<and> r = CHR ''<'' # u)"
  obtains k where "n = Suc k" "length r \<le> k" "\<And>ch e. Node_ParseDeep n cfg (t @ r) ch e = Node_ParseDeep k cfg r (ch @ [parsed_of x]) e"
proof -
  obtain k where k: "n = Suc k" "length r \<le> k" using assms(2,3) by (cases n; cases t) auto
  then show ?thesis using that assms unfolding reads_node_def by simp
qed

lemma reads_list:
  "(\<And>x. x \<in> set xs \<Longrightarrow> reads_node cfg x (serialize x) \<and> wf_node x) \<Longrightarrow> separated xs \<Longrightarrow> ends_by xs r \<Longrightarrow> length (concat (map serialize xs) @ r) \<le> n \<Longrightarrow>
   \<exists>m. length r \<le> m \<and> Node_ParseDeep n cfg (concat (map serialize xs) @ r) ch e = Node_ParseDeep m cfg r (ch @ map parsed_of xs) e"
proof (induction xs arbitrary: n ch)
  case (Cons x xs)
  let ?r = "concat (map serialize xs) @ r"
  have x: "reads_node cfg x (serialize x)" "wf_node x" using Cons.prems(1) by simp_all
  obtain k where k: "length ?r \<le> k" "Node_ParseDeep n cfg (serialize x @ ?r) ch e = Node_ParseDeep k cfg ?r (ch @ [parsed_of x]) e"
  proof (rule reads_step [OF x(1) serialize_nonempty [OF x(2)]])
    show "length (serialize x @ ?r) \<le> n" using Cons.prems(4) by simp
    show "plain_text x \<longrightarrow> (\<exists>u. u \<noteq> [] \<and> ?r = CHR ''<'' # u)" using ends_by_Cons [OF Cons.prems(2,3)] by blast
  qed (rule that)
  note k(2)
  moreover have "separated xs" "ends_by xs r" using Cons.prems(2,3) by (cases xs; simp add: ends_by_def)+
  ultimately show ?case using Cons.IH [OF _ _ _ k(1), of "ch @ [parsed_of x]"] Cons.prems(1) by simp
qed auto

lemma Node_closing:
  assumes "wf_name name" "n \<noteq> 0"
  shows "Node_ParseDeep n cfg (''</'' @ name @ ''>'' @ r) ch e = Some (Some r, ch, Some name, e)"
proof -
  obtain k where "n = Suc k" using assms(2) by (cases n) auto
  moreover have "Identify (''<'' @ ''/'' @ name @ ''>'' @ r) = (''/'' @ name @ ''>'' @ r, Some KElement)"
    by (rule Identify_element) (simp_all add: cur_def)
  moreover have "Element_ParseDeep k cfg (''/'' @ name @ ''>'' @ r) e = Some (Some r, Element name [] [], CLOSING, None, e)"
    using Element_start_closing [OF assms(1), of cfg r e] by (subst Element_ParseDeep.simps) simp
  ultimately show ?thesis by (subst Node_ParseDeep.simps) (simp add: is_closing_def)
qed

lemma Node_element:
  assumes "wf_name name" "Element_ParseDeep n cfg (name @ t) e = Some (Some r, Element name attribs children, ct, endTag, e)"
    "ct = OPEN \<and> endTag = Some name \<or> ct = CLOSED \<and> endTag = None"
  shows "Node_ParseDeep (Suc n) cfg (''<'' @ name @ t) ch e = Node_ParseDeep n cfg r (ch @ [Element name attribs children]) e"
proof -
  obtain c m where "name = c # m" "c \<noteq> CHR ''?''" "c \<noteq> CHR ''!''" using assms(1) by (rule name_head)
  then have "Identify (''<'' @ name @ t) = (name @ t, Some KElement)" by (intro Identify_element) (simp_all add: cur_def)
  moreover have "\<not> is_closing (Element name attribs children) ct" "\<not> end_tag_error (Element name attribs children) ct endTag"
    using assms(1,3) by (auto simp: is_closing_def end_tag_error_def StringEqual_name)
  ultimately show ?thesis using assms(2) by (subst Node_ParseDeep.simps) simp
qed

text \<open>An element whose children are read from the text \<open>b\<close> up to the end tag.\<close>

lemma reads_element_body:
  assumes "wf_name name" "proper_attribs attribs" "set_processEntities cfg"
    "\<And>n r e. children \<noteq> [] \<Longrightarrow> length (b @ ''</'' @ name @ ''>'' @ r) \<le> n \<Longrightarrow>
       Node_ParseDeep n cfg (b @ ''</'' @ name @ ''>'' @ r) [] e = Some (Some r, map parsed_of children, Some name, e)"
  shows "reads_node cfg (XMLElement name attribs children)
    (''<'' @ name @ concat (map attribute_text attribs) @ (if children = [] then ''/>'' else ''>'' @ b @ ''</'' @ name @ ''>''))"
  unfolding reads_node_def
proof (intro allI impI)
  fix n r ch e
  let ?x = "XMLElement name attribs children" and ?a = "concat (map attribute_text attribs)" and ?t = "if children = [] then ''/>'' else ''>''"
  let ?r = "if children = [] then r else b @ ''</'' @ name @ ''>'' @ r"
  let ?s = "''<'' @ name @ ?a @ (if children = [] then ''/>'' else ''>'' @ b @ ''</'' @ name @ ''>'')"
  assume len: "length (?s @ r) \<le> Suc n"
  have ser: "?s @ r = ''<'' @ name @ ?a @ ?t @ ?r" by simp
  have start: "Element_start cfg (name @ ?a @ ?t @ ?r) e = (Some ?r, name, printed_attribs attribs, if children = [] then CLOSED else OPEN, e)"
    by (rule Element_start_open [OF assms(1-3)]) simp
  have "Element_ParseDeep n cfg (name @ ?a @ ?t @ ?r) e =
      Some (Some r, parsed_of ?x, if children = [] then CLOSED else OPEN, if children = [] then None else Some name, e)"
  proof (cases "children = []")
    case True
    then show ?thesis using start by (subst Element_ParseDeep.simps) (simp add: printed_attribs_def)
  next
    case False
    obtain k where k: "n = Suc k" "length ?r \<le> k" using len unfolding ser using False by (cases n) auto
    then have "Node_ParseDeep k cfg ?r [] e = Some (Some r, map parsed_of children, Some name, e)"
      using assms(4) [OF False] False by simp
    then show ?thesis using start False k(1) by (subst Element_ParseDeep.simps) (simp add: printed_attribs_def)
  qed
  then show "Node_ParseDeep (Suc n) cfg (?s @ r) ch e = Node_ParseDeep n cfg r (ch @ [parsed_of ?x]) e"
    unfolding ser parsed_of.simps by (rule Node_element [OF assms(1)]) (cases "children = []"; simp)
qed

lemma wf_attribs: "wf_node (XMLElement name attribs children) \<Longrightarrow> wf_name name \<and> proper_attribs attribs \<and> separated children \<and> list_all wf_node children"
  by (auto simp: proper_attribs_def list_all_iff)

lemma reads_element:
  assumes "\<And>x. x \<in> set children \<Longrightarrow> reads_node cfg x (serialize x)" "set_processEntities cfg" "wf_node (XMLElement name attribs children)"
  shows "reads_node cfg (XMLElement name attribs children) (serialize (XMLElement name attribs children))"
  unfolding serialize.simps
proof (rule reads_element_body)
  note wf = wf_attribs [OF assms(3)]
  then show "wf_name name" "proper_attribs attribs" "set_processEntities cfg" using assms(2) by simp_all
  fix n r e
  let ?r = "''</'' @ name @ ''>'' @ r"
  assume "length (concat (map serialize children) @ ?r) \<le> n"
  moreover have "ends_by children ?r" by (simp add: ends_by_def)
  ultimately obtain m where m: "length ?r \<le> m" "Node_ParseDeep n cfg (concat (map serialize children) @ ?r) [] e = Node_ParseDeep m cfg ?r (map parsed_of children) e"
    using reads_list [of children cfg ?r n "[]" e] wf assms(1) by (auto simp: list_all_iff)
  then show "Node_ParseDeep n cfg (concat (map serialize children) @ ?r) [] e = Some (Some r, map parsed_of children, Some name, e)"
    using Node_closing [of name m] wf by (cases m) simp_all
qed

lemma take_before: "take n (s @ c # r) = t \<Longrightarrow> c \<notin> set t \<Longrightarrow> take n s = t"
  by (cases "n - length s") auto

lemma reads_all:
  assumes "set_processEntities cfg" "\<not> set_collapse cfg"
  shows "wf_node x \<Longrightarrow> reads_node cfg x (serialize x)"
proof (induction x)
  case (XMLElement name attribs children)
  then show ?case by (intro reads_element assms) (auto simp: list_all_iff)
next
  case (XMLText s cdata)
  show ?case
  proof (cases cdata)
    case True
    then show ?thesis using XMLText Identify_tags(3)
      by (intro reads_piece [where s = s and tag = "'']]>''" and kind = KCData and mk = "\<lambda>v. Text v True"]) (simp_all add: piece_defs)
  qed (use XMLText assms reads_text in simp)
next
  case (XMLComment s)
  then show ?case using Identify_tags(2)
    by (intro reads_piece [where s = s and tag = "''-->''" and kind = KComment and mk = Comment]) (simp_all add: piece_defs)
next
  case (XMLDeclaration s)
  then show ?case using Identify_tags(1)
    by (intro reads_piece [where s = s and tag = "''?>''" and kind = KDeclaration and mk = Declaration]) (simp_all add: piece_defs)
next
  case (XMLUnknown s)
  then have "Identify (serialize (XMLUnknown s) @ r) = (s @ ''>'' @ r, Some KUnknown)" for r
  proof -
    have "take 2 (s @ ''>'' @ r) \<noteq> ''--''" "take 7 (s @ ''>'' @ r) \<noteq> ''[CDATA[''"
      using XMLUnknown take_before [of 2 s "CHR ''>''" r "''--''"] take_before [of 7 s "CHR ''>''" r "''[CDATA[''"] by auto
    then show ?thesis using Identify_unknown [of "s @ ''>'' @ r"] by simp
  qed
  then show ?case using XMLUnknown
    by (intro reads_piece [where s = s and tag = "''>''" and kind = KUnknown and mk = Unknown]) (simp_all add: piece_defs)
qed

subsection \<open>Documents\<close>

lemma escape_no_NUL: "escapes flag \<Longrightarrow> NUL \<notin> set s \<Longrightarrow> NUL \<notin> set (escape flag s)"
  using escape_chars [of flag NUL s] by (auto simp: NUL_def)

lemma serialize_no_NUL: "wf_node x \<Longrightarrow> NUL \<notin> set (serialize x)"
proof (induction x)
  case (XMLElement name attribs children)
  have "NUL \<notin> set (attribute_text a)" if "a \<in> set attribs" for a
    using XMLElement.prems that name_no_NUL escape_no_NUL [OF escapes_flags(1)]
    by (auto simp: attribute_text_def list_all_iff clean_def NUL_def)
  moreover have "NUL \<notin> set (serialize x)" if "x \<in> set children" for x
    using XMLElement that by (auto simp: list_all_iff)
  moreover have "NUL \<notin> set name" using XMLElement.prems name_no_NUL by simp
  ultimately show ?case by (auto simp: NUL_def)
qed (use escape_no_NUL [OF escapes_flags(2)] in \<open>auto simp: clean_def NUL_def\<close>)

definition BOM :: string where
  "BOM = [CHR 0xEF, CHR 0xBB, CHR 0xBF]"

text \<open>A text that starts with a tag and is read to its end.\<close>

lemma LoadFile_text:
  assumes "Node_ParseDeep (length t) cfg t [] XML_NO_ERROR = Some (None, ys, None, XML_NO_ERROR)" "t = CHR ''<'' # u" "NUL \<notin> set t"
    and s_def: "s = (if bom then BOM else []) @ t"
  shows "LoadFile cfg (Some s) (length s) d = Some \<lparr>xd_errorID = XML_NO_ERROR, xd_writeBOM = bom, xd_children = ys\<rparr>"
proof -
  have "NUL \<notin> set s" using assms(3) by (auto simp: s_def BOM_def NUL_def)
  then have z: "zstr s = s" unfolding zstr_def by (intro takeWhile_eq_all_conv [THEN iffD2]) auto
  have "SkipWhiteSpace s = s" using assms(2) by (auto simp: s_def BOM_def plain_chars IsUTF8Continuation_def code_def)
  moreover have "ReadBOM s = (t, bom)" using assms(2) by (auto simp: s_def BOM_def ReadBOM_def cur_def)
  ultimately show ?thesis using assms(1,2) z by (cases d) (auto simp: LoadFile_def Clear_def Let_def s_def Document_ParseDeep_def)
qed

lemma Parse_text:
  assumes "Node_ParseDeep (length t) cfg t [] XML_NO_ERROR = Some (None, ys, None, XML_NO_ERROR)" "t = CHR ''<'' # u"
  shows "Parse cfg t None d = Some \<lparr>xd_errorID = XML_NO_ERROR, xd_writeBOM = False, xd_children = ys\<rparr>"
proof -
  have "SkipWhiteSpace t = t" using assms(2) by (intro SkipWhiteSpace_stop) (simp add: cur_def plain_chars)
  moreover have "ReadBOM t = (t, False)" using assms(2) by (simp add: ReadBOM_def cur_def)
  ultimately show ?thesis using assms by (cases d) (simp add: Parse_def Clear_def Let_def Document_ParseDeep_def)
qed

lemma Node_serialized:
  assumes "set_processEntities cfg" "\<not> set_collapse cfg" "list_all wf_node xs" "separated xs" "xs \<noteq> []" "\<not> plain_text (last xs)"
    "s = concat (map serialize xs)"
  shows "Node_ParseDeep (length s) cfg s [] XML_NO_ERROR = Some (None, map parsed_of xs, None, XML_NO_ERROR)"
proof -
  have "\<exists>m. length ([] :: string) \<le> m \<and> Node_ParseDeep (length s) cfg (concat (map serialize xs) @ []) [] XML_NO_ERROR =
      Node_ParseDeep m cfg [] ([] @ map parsed_of xs) XML_NO_ERROR"
    by (rule reads_list) (use assms reads_all in \<open>auto simp: list_all_iff ends_by_def\<close>)
  then show ?thesis by (auto simp: Node_ParseDeep.simps [where p = "[]"] assms(7))
qed

lemma serialized_start:
  assumes "xs \<noteq> []" "\<not> plain_text (hd xs)"
  obtains u where "concat (map serialize xs) = CHR ''<'' # u"
  using assms serialize_bracket [of "hd xs"] by (cases xs) auto

text \<open>C6: What the parser makes of a document that was saved in the compact form is the document: every element
  with its attributes and children, every text, comment, declaration and unknown node, and the byte order mark.
  The same holds for the text of a document without a mark that is parsed in memory.\<close>

theorem xml_round_trip:
  assumes "foldr max (map xml_height xs) 0 < 2 ^ 30 - 1" "length (concat (map serialize xs)) + 4 < 2 ^ 30"
    "list_all wf_node xs" "separated xs" "xs \<noteq> []" "\<not> plain_text (hd xs)" "\<not> plain_text (last xs)"
    "set_processEntities cfg" "\<not> set_collapse cfg"
  shows "\<exists>s d' d''. SaveFile True True \<lparr>doc_processEntities = True, doc_writeBOM = bom, doc_children = xs\<rparr> e = Some (Some s, e) \<and>
    LoadFile cfg (Some s) (length s) d = Some d' \<and>
    xd_errorID d' = XML_NO_ERROR \<and> xd_writeBOM d' = bom \<and> map node_of (xd_children d') = map Some xs \<and>
    (\<not> bom \<longrightarrow> Parse cfg s None d = Some d'' \<and> xd_errorID d'' = XML_NO_ERROR \<and> map node_of (xd_children d'') = map Some xs)"
proof -
  let ?s = "(if bom then BOM else []) @ concat (map serialize xs)"
  have "SaveFile True True \<lparr>doc_processEntities = True, doc_writeBOM = bom, doc_children = xs\<rparr> e = Some (Some ?s, e)"
    using document_printed [OF assms(1,2), of "Some []" bom] by (auto simp: BOM_def Let_def SaveFile_def)
  moreover have "map node_of (map parsed_of xs) = map Some xs" using assms(3) by (auto simp: list_all_iff node_of_parsed)
  moreover obtain u where u: "concat (map serialize xs) = CHR ''<'' # u" using assms(5,6) by (rule serialized_start)
  moreover have "NUL \<notin> set (concat (map serialize xs))" using assms(3) serialize_no_NUL by (auto simp: list_all_iff)
  moreover note node = Node_serialized [OF assms(8,9,3-5,7) refl]
  ultimately show ?thesis using LoadFile_text [OF node u _ refl, of bom d] Parse_text [OF node u, of d] by fastforce
qed

text \<open>A document with a declaration, attributes, a comment, a CDATA section and characters that need entities.\<close>

theorem xml_round_trip_witness:
  "\<exists>s d' d''. SaveFile True True \<lparr>doc_processEntities = True, doc_writeBOM = True,
      doc_children = [XMLDeclaration ''xml'', XMLElement ''a'' [(''k'', ''1<2'')] [XMLText ''x&y'' False, XMLElement ''b'' [] [], XMLText ''<z>'' True, XMLComment ''c'']]\<rparr> XML_NO_ERROR = Some (Some s, XML_NO_ERROR) \<and>
    LoadFile \<lparr>set_processEntities = True, set_collapse = False\<rparr> (Some s) (length s) XMLDocument_new = Some d' \<and>
    xd_errorID d' = XML_NO_ERROR \<and> xd_writeBOM d' \<and>
    map node_of (xd_children d') =
      map Some [XMLDeclaration ''xml'', XMLElement ''a'' [(''k'', ''1<2'')] [XMLText ''x&y'' False, XMLElement ''b'' [] [], XMLText ''<z>'' True, XMLComment ''c'']]"
proof -
  let ?e = "XMLElement ''a'' [(''k'', ''1<2'')] [XMLText ''x&y'' False, XMLElement ''b'' [] [], XMLText ''<z>'' True, XMLComment ''c'']"
  have ser: "serialize (XMLDeclaration ''xml'') = ''<?xml?>''"
    "serialize ?e = ''<a k='' @ [CHR 0x22] @ ''1&lt;2'' @ [CHR 0x22] @ ''>x&amp;y<b/><![CDATA[<z>]]><!--c--></a>''"
    by (simp_all add: attribute_text_def escape_def flag_chars entity_texts)
  have "wf_node ?e" "wf_node (XMLDeclaration ''xml'')"
    by code_simp+
  then show ?thesis
    using xml_round_trip [of "[XMLDeclaration ''xml'', ?e]" "\<lparr>set_processEntities = True, set_collapse = False\<rparr>" True XML_NO_ERROR XMLDocument_new]
    unfolding list.map concat.simps ser by (simp add: plain_text_def)
qed

text \<open>A byte order mark in front of a text that is parsed in memory: the document has it as a text.\<close>

theorem parse_mark_text:
  "map_option (\<lambda>d. (xd_errorID d, xd_writeBOM d, xd_children d)) (Parse \<lparr>set_processEntities = True, set_collapse = False\<rparr> (BOM @ ''<a/>'') None XMLDocument_new) =
   Some (XML_NO_ERROR, True, [Text (TEXT_ELEMENT, BOM) False, Element ''a'' [] []])"
  by code_simp

text \<open>An end tag outside of all elements ends the parser without an error, whatever follows.\<close>

theorem parse_stray_end:
  "map_option (\<lambda>d. (xd_errorID d, xd_children d)) (Parse \<lparr>set_processEntities = True, set_collapse = False\<rparr> ''<a/></b><c>'' None XMLDocument_new) =
   Some (XML_NO_ERROR, [Element ''a'' [] []])"
  by code_simp

end
