(* ===== verification/Xml_Dom.thy ===== *)
theory Xml_Dom
  imports Xml_Parser "HOL-Library.Monad_Syntax"
begin

text \<open>
  The document tree of \<open>src/tinyxml2.cpp\<close>: nodes with their links to parent, first and last child and siblings, in
  a store of nodes and attributes. A node is the address of its chunk in a pool; \<open>None\<close> as a result is a crash
  (a null pointer or a deleted object is used) or a loop that does not end. The values of nodes and attributes
  are the strings that \<open>GetStr\<close> gives. The lemmas show that the operations keep the links consistent and act
  as operations on lists of children, and that deleting ends and frees exactly the nodes below.
\<close>

section \<open>Nodes and store\<close>

datatype dom_kind = DDocument | DElement | DText bool | DComment | DDeclaration | DUnknown

record dom_node =
  dn_kind :: dom_kind
  dn_value :: string
  dn_parent :: "nat option"
  dn_firstChild :: "nat option"
  dn_lastChild :: "nat option"
  dn_prev :: "nat option"
  dn_next :: "nat option"
  dn_rootAttribute :: "nat option"

record dom_attribute =
  da_name :: string
  da_value :: string
  da_next :: "nat option"

text \<open>The pools of a document; only their count of objects that are not yet linked is state here.\<close>

datatype dom_pool = ElementPool | AttributePool | TextPool | CommentPool

record dom =
  dm_nodes :: "nat \<Rightarrow> dom_node option"
  dm_attributes :: "nat \<Rightarrow> dom_attribute option"
  dm_untracked :: "dom_pool \<Rightarrow> int"

definition upd :: "nat \<Rightarrow> (dom_node \<Rightarrow> dom_node) \<Rightarrow> dom \<Rightarrow> dom option" where
  "upd p f s = map_option (\<lambda>n. s\<lparr>dm_nodes := (dm_nodes s)(p \<mapsto> f n)\<rparr>) (dm_nodes s p)"

fun pool_of :: "dom_kind \<Rightarrow> dom_pool" where
  "pool_of DElement = ElementPool"
| "pool_of (DText _) = TextPool"
| "pool_of _ = CommentPool"

definition count_untracked :: "dom_pool \<Rightarrow> int \<Rightarrow> dom \<Rightarrow> dom" where
  "count_untracked pool k s = s\<lparr>dm_untracked := (dm_untracked s)(pool := dm_untracked s pool + k)\<rparr>"

definition SetTracked :: "nat \<Rightarrow> dom \<Rightarrow> dom option" where
  "SetTracked p s = map_option (\<lambda>n. count_untracked (pool_of (dn_kind n)) (- 1) s) (dm_nodes s p)"

text \<open>\<open>a\<close> is the chunk that the pool hands out.\<close>

definition XMLNode_new :: "dom_kind \<Rightarrow> nat \<Rightarrow> dom \<Rightarrow> dom" where
  "XMLNode_new kind a s =
     count_untracked (pool_of kind) 1 (s\<lparr>dm_nodes := (dm_nodes s)(a \<mapsto>
       \<lparr>dn_kind = kind, dn_value = [], dn_parent = None, dn_firstChild = None, dn_lastChild = None,
        dn_prev = None, dn_next = None, dn_rootAttribute = None\<rparr>)\<rparr>)"

definition SetValue :: "string \<Rightarrow> nat \<Rightarrow> dom \<Rightarrow> dom option" where
  "SetValue str p s = upd p (\<lambda>n. n\<lparr>dn_value := str\<rparr>) s"

definition NewElement :: "string \<Rightarrow> nat \<Rightarrow> dom \<Rightarrow> dom option" where
  "NewElement name a s = SetValue name a (XMLNode_new DElement a s)"

definition NewComment :: "string \<Rightarrow> nat \<Rightarrow> dom \<Rightarrow> dom option" where
  "NewComment str a s = SetValue str a (XMLNode_new DComment a s)"

definition NewText :: "string \<Rightarrow> nat \<Rightarrow> dom \<Rightarrow> dom option" where
  "NewText str a s = SetValue str a (XMLNode_new (DText False) a s)"

definition NewDeclaration :: "string option \<Rightarrow> nat \<Rightarrow> dom \<Rightarrow> dom option" where
  "NewDeclaration str a s =
     SetValue (case str of None \<Rightarrow> ''xml version='' @ [CHR 0x22] @ ''1.0'' @ [CHR 0x22] @ '' encoding='' @ [CHR 0x22] @ ''UTF-8'' @ [CHR 0x22] | Some t \<Rightarrow> t)
       a (XMLNode_new DDeclaration a s)"

definition NewUnknown :: "string \<Rightarrow> nat \<Rightarrow> dom \<Rightarrow> dom option" where
  "NewUnknown str a s = SetValue str a (XMLNode_new DUnknown a s)"

definition SetCData :: "bool \<Rightarrow> nat \<Rightarrow> dom \<Rightarrow> dom option" where
  "SetCData isCData p s = upd p (\<lambda>n. n\<lparr>dn_kind := DText isCData\<rparr>) s"

section \<open>Links\<close>

definition Unlink :: "nat \<Rightarrow> nat \<Rightarrow> dom \<Rightarrow> dom option" where
  "Unlink this child s = do {
     t \<leftarrow> dm_nodes s this;
     c \<leftarrow> dm_nodes s child;
     s \<leftarrow> (if dn_firstChild t = Some child then upd this (\<lambda>n. n\<lparr>dn_firstChild := dn_next c\<rparr>) s else Some s);
     s \<leftarrow> (if dn_lastChild t = Some child then upd this (\<lambda>n. n\<lparr>dn_lastChild := dn_prev c\<rparr>) s else Some s);
     s \<leftarrow> (case dn_prev c of None \<Rightarrow> Some s | Some p \<Rightarrow> upd p (\<lambda>n. n\<lparr>dn_next := dn_next c\<rparr>) s);
     s \<leftarrow> (case dn_next c of None \<Rightarrow> Some s | Some q \<Rightarrow> upd q (\<lambda>n. n\<lparr>dn_prev := dn_prev c\<rparr>) s);
     upd child (\<lambda>n. n\<lparr>dn_parent := None\<rparr>) s }"

definition InsertEndChild :: "nat \<Rightarrow> nat \<Rightarrow> dom \<Rightarrow> (nat option \<times> dom) option" where
  "InsertEndChild this addThis s = do {
     t \<leftarrow> dm_nodes s this;
     s \<leftarrow> (case dn_lastChild t of
            Some l \<Rightarrow> do {
              s \<leftarrow> upd l (\<lambda>n. n\<lparr>dn_next := Some addThis\<rparr>) s;
              s \<leftarrow> upd addThis (\<lambda>n. n\<lparr>dn_prev := Some l\<rparr>) s;
              s \<leftarrow> upd this (\<lambda>n. n\<lparr>dn_lastChild := Some addThis\<rparr>) s;
              upd addThis (\<lambda>n. n\<lparr>dn_next := None\<rparr>) s }
          | None \<Rightarrow> do {
              s \<leftarrow> upd this (\<lambda>n. n\<lparr>dn_firstChild := Some addThis, dn_lastChild := Some addThis\<rparr>) s;
              upd addThis (\<lambda>n. n\<lparr>dn_prev := None, dn_next := None\<rparr>) s });
     s \<leftarrow> upd addThis (\<lambda>n. n\<lparr>dn_parent := Some this\<rparr>) s;
     s \<leftarrow> SetTracked addThis s;
     Some (Some addThis, s) }"

definition InsertFirstChild :: "nat \<Rightarrow> nat \<Rightarrow> dom \<Rightarrow> (nat option \<times> dom) option" where
  "InsertFirstChild this addThis s = do {
     t \<leftarrow> dm_nodes s this;
     s \<leftarrow> (case dn_firstChild t of
            Some f \<Rightarrow> do {
              s \<leftarrow> upd f (\<lambda>n. n\<lparr>dn_prev := Some addThis\<rparr>) s;
              s \<leftarrow> upd addThis (\<lambda>n. n\<lparr>dn_next := Some f\<rparr>) s;
              s \<leftarrow> upd this (\<lambda>n. n\<lparr>dn_firstChild := Some addThis\<rparr>) s;
              upd addThis (\<lambda>n. n\<lparr>dn_prev := None\<rparr>) s }
          | None \<Rightarrow> do {
              s \<leftarrow> upd this (\<lambda>n. n\<lparr>dn_firstChild := Some addThis, dn_lastChild := Some addThis\<rparr>) s;
              upd addThis (\<lambda>n. n\<lparr>dn_prev := None, dn_next := None\<rparr>) s });
     s \<leftarrow> upd addThis (\<lambda>n. n\<lparr>dn_parent := Some this\<rparr>) s;
     s \<leftarrow> SetTracked addThis s;
     Some (Some addThis, s) }"

definition InsertAfterChild :: "nat \<Rightarrow> nat \<Rightarrow> nat \<Rightarrow> dom \<Rightarrow> (nat option \<times> dom) option" where
  "InsertAfterChild this afterThis addThis s = do {
     a \<leftarrow> dm_nodes s afterThis;
     if dn_parent a \<noteq> Some this then Some (None, s)
     else case dn_next a of
       None \<Rightarrow> InsertEndChild this addThis s
     | Some q \<Rightarrow> do {
         s \<leftarrow> upd addThis (\<lambda>n. n\<lparr>dn_prev := Some afterThis, dn_next := Some q\<rparr>) s;
         s \<leftarrow> upd q (\<lambda>n. n\<lparr>dn_prev := Some addThis\<rparr>) s;
         s \<leftarrow> upd afterThis (\<lambda>n. n\<lparr>dn_next := Some addThis\<rparr>) s;
         s \<leftarrow> upd addThis (\<lambda>n. n\<lparr>dn_parent := Some this\<rparr>) s;
         s \<leftarrow> SetTracked addThis s;
         Some (Some addThis, s) } }"

section \<open>Deletion\<close>

definition free_dom_node :: "nat \<Rightarrow> dom \<Rightarrow> dom" where
  "free_dom_node p s = s\<lparr>dm_nodes := (dm_nodes s)(p := None)\<rparr>"

definition DELETE_ATTRIBUTE :: "nat \<Rightarrow> dom \<Rightarrow> dom option" where
  "DELETE_ATTRIBUTE a s = map_option (\<lambda>_. s\<lparr>dm_attributes := (dm_attributes s)(a := None)\<rparr>) (dm_attributes s a)"

text \<open>The destructor of an element; other nodes have no attributes.\<close>

partial_function (option) delete_attributes :: "nat \<Rightarrow> dom \<Rightarrow> dom option" where
  "delete_attributes p s = do {
     n \<leftarrow> dm_nodes s p;
     case dn_rootAttribute n of
       None \<Rightarrow> Some s
     | Some a \<Rightarrow> do {
         x \<leftarrow> dm_attributes s a;
         s \<leftarrow> DELETE_ATTRIBUTE a s;
         s \<leftarrow> upd p (\<lambda>n. n\<lparr>dn_rootAttribute := da_next x\<rparr>) s;
         delete_attributes p s } }"

definition leave_parent :: "nat \<Rightarrow> dom \<Rightarrow> dom option" where
  "leave_parent node s = do {
     n \<leftarrow> dm_nodes s node;
     case dn_parent n of None \<Rightarrow> Some s | Some p \<Rightarrow> Unlink p node s }"

text \<open>The children are deleted by their destructors, which delete the children's children and leave the parent.\<close>

partial_function (option) DeleteChildren :: "nat \<Rightarrow> dom \<Rightarrow> dom option" where
  "DeleteChildren this s = do {
     t \<leftarrow> dm_nodes s this;
     case dn_firstChild t of
       None \<Rightarrow> upd this (\<lambda>n. n\<lparr>dn_firstChild := None, dn_lastChild := None\<rparr>) s
     | Some node \<Rightarrow> do {
         s \<leftarrow> Unlink this node s;
         s \<leftarrow> delete_attributes node s;
         s \<leftarrow> DeleteChildren node s;
         s \<leftarrow> leave_parent node s;
         DeleteChildren this (free_dom_node node s) } }"

definition DELETE_NODE :: "nat \<Rightarrow> dom \<Rightarrow> dom option" where
  "DELETE_NODE node s = do {
     s \<leftarrow> delete_attributes node s;
     s \<leftarrow> DeleteChildren node s;
     s \<leftarrow> leave_parent node s;
     Some (free_dom_node node s) }"

definition DeleteChild :: "nat \<Rightarrow> nat \<Rightarrow> dom \<Rightarrow> dom option" where
  "DeleteChild this node s = do { t \<leftarrow> dm_nodes s this; DELETE_NODE node s }"

definition DeleteNode :: "nat \<Rightarrow> dom \<Rightarrow> dom option" where
  "DeleteNode node s = do {
     n \<leftarrow> dm_nodes s node;
     case dn_parent n of None \<Rightarrow> None | Some p \<Rightarrow> DeleteChild p node s }"

section \<open>Navigation\<close>

definition child_matches :: "string option \<Rightarrow> dom_node \<Rightarrow> bool" where
  "child_matches v n \<longleftrightarrow> dn_kind n = DElement \<and> (case v of None \<Rightarrow> True | Some t \<Rightarrow> StringEqual (dn_value n) t INT_MAX)"

definition sibling_matches :: "string option \<Rightarrow> dom_node \<Rightarrow> bool" where
  "sibling_matches v n \<longleftrightarrow> dn_kind n = DElement \<and> (case v of None \<Rightarrow> True | Some t \<Rightarrow> StringEqual t (dn_value n) INT_MAX)"

text \<open>The loops over the siblings: forwards or backwards, of a child or of a sibling.\<close>

definition element_matches :: "bool \<Rightarrow> string option \<Rightarrow> dom_node \<Rightarrow> bool" where
  "element_matches child v = (if child then child_matches v else sibling_matches v)"

partial_function (option) search_loop :: "bool \<Rightarrow> bool \<Rightarrow> string option \<Rightarrow> dom \<Rightarrow> nat option \<Rightarrow> nat option option" where
  "search_loop forwards child v s p =
     (case p of
        None \<Rightarrow> Some None
      | Some a \<Rightarrow> (case dm_nodes s a of
          None \<Rightarrow> None
        | Some n \<Rightarrow> if element_matches child v n then Some (Some a) else search_loop forwards child v s (if forwards then dn_next n else dn_prev n)))"

definition FirstChildElement :: "nat \<Rightarrow> string option \<Rightarrow> dom \<Rightarrow> nat option option" where
  "FirstChildElement this v s = do { t \<leftarrow> dm_nodes s this; search_loop True True v s (dn_firstChild t) }"

definition LastChildElement :: "nat \<Rightarrow> string option \<Rightarrow> dom \<Rightarrow> nat option option" where
  "LastChildElement this v s = do { t \<leftarrow> dm_nodes s this; search_loop False True v s (dn_lastChild t) }"

definition NextSiblingElement :: "nat \<Rightarrow> string option \<Rightarrow> dom \<Rightarrow> nat option option" where
  "NextSiblingElement this v s = do { t \<leftarrow> dm_nodes s this; search_loop True False v s (dn_next t) }"

definition PreviousSiblingElement :: "nat \<Rightarrow> string option \<Rightarrow> dom \<Rightarrow> nat option option" where
  "PreviousSiblingElement this v s = do { t \<leftarrow> dm_nodes s this; search_loop False False v s (dn_prev t) }"

definition RootElement :: "nat \<Rightarrow> dom \<Rightarrow> nat option option" where
  "RootElement doc s = FirstChildElement doc None s"

section \<open>Consistent links\<close>

text \<open>\<open>siblings N p pr xs q\<close>: the nodes \<open>xs\<close> are linked to each other, the first one to \<open>pr\<close> and the last one to
  \<open>q\<close>, and have the parent \<open>p\<close>.\<close>

definition headp :: "nat list \<Rightarrow> nat option \<Rightarrow> nat option" where
  "headp xs q = (case xs of [] \<Rightarrow> q | x # _ \<Rightarrow> Some x)"

definition endp :: "nat option \<Rightarrow> nat list \<Rightarrow> nat option" where
  "endp pr xs = (if xs = [] then pr else Some (last xs))"

primrec siblings :: "(nat \<Rightarrow> dom_node option) \<Rightarrow> nat \<Rightarrow> nat option \<Rightarrow> nat list \<Rightarrow> nat option \<Rightarrow> bool" where
  "siblings N p pr [] q \<longleftrightarrow> True"
| "siblings N p pr (x # xs) q \<longleftrightarrow>
     (\<exists>n. N x = Some n \<and> dn_parent n = Some p \<and> dn_prev n = pr \<and> dn_next n = headp xs q) \<and> siblings N p (Some x) xs q"

definition below :: "(nat \<Rightarrow> nat list) \<Rightarrow> (nat \<times> nat) set" where
  "below C = {(x, p). x \<in> set (C p)}"

text \<open>\<open>C p\<close> are the children of \<open>p\<close>.\<close>

definition children_ok :: "(nat \<Rightarrow> dom_node option) \<Rightarrow> nat \<Rightarrow> nat list \<Rightarrow> bool" where
  "children_ok N p xs \<longleftrightarrow>
     (\<exists>n. N p = Some n \<and> dn_firstChild n = headp xs None \<and> dn_lastChild n = endp None xs) \<and> siblings N p None xs None \<and> distinct xs"

definition linked :: "(nat \<Rightarrow> dom_node option) \<Rightarrow> (nat \<Rightarrow> nat list) \<Rightarrow> bool" where
  "linked N C \<longleftrightarrow>
     (\<forall>p. if N p = None then C p = [] else children_ok N p (C p)) \<and>
     (\<forall>x n p. N x = Some n \<longrightarrow> dn_parent n = Some p \<longrightarrow> x \<in> set (C p)) \<and>
     finite (dom N) \<and> acyclic (below C)"

lemma headp_simps [simp]: "headp [] q = q" "headp (x # xs) q = Some x" "headp (xs @ ys) q = headp xs (headp ys q)"
  by (simp_all add: headp_def split: list.split)

lemma endp_simps [simp]: "endp pr [] = pr" "endp pr (xs @ [x]) = Some x" "endp pr (x # xs) = endp (Some x) xs" "endp pr (xs @ x # ys) = endp (Some x) ys"
  by (simp_all add: endp_def)

lemma siblings_append: "siblings N p pr (xs @ ys) q \<longleftrightarrow> siblings N p pr xs (headp ys q) \<and> siblings N p (endp pr xs) ys q"
  by (induction xs arbitrary: pr) auto

definition link_of :: "dom_node \<Rightarrow> nat option \<times> nat option \<times> nat option" where
  "link_of n = (dn_parent n, dn_prev n, dn_next n)"

definition ends_of :: "dom_node \<Rightarrow> nat option \<times> nat option" where
  "ends_of n = (dn_firstChild n, dn_lastChild n)"

lemma siblings_cong:
  "(\<And>x. x \<in> set xs \<Longrightarrow> map_option link_of (N' x) = map_option link_of (N x)) \<Longrightarrow> siblings N p pr xs q \<Longrightarrow> siblings N' p pr xs q"
proof (induction xs arbitrary: pr)
  case (Cons x xs)
  have "map_option link_of (N' x) = map_option link_of (N x)" using Cons.prems(1) by simp
  moreover have "siblings N' p (Some x) xs q" using Cons by simp
  ultimately show ?case using Cons.prems(2) by (cases "N' x") (auto simp: link_of_def)
qed simp

lemma siblings_frame [simp]: "x \<notin> set xs \<Longrightarrow> siblings (N(x := v)) p pr xs q = siblings N p pr xs q"
  by (induction xs arbitrary: pr) auto

lemma siblings_member: "siblings N p pr xs q \<Longrightarrow> x \<in> set xs \<Longrightarrow> \<exists>n. N x = Some n \<and> dn_parent n = Some p"
  by (induction xs arbitrary: pr) auto

lemma linkedD:
  assumes "linked N C"
  shows "x \<in> set (C p) \<Longrightarrow> \<exists>n. N x = Some n \<and> dn_parent n = Some p" "N p \<noteq> None \<Longrightarrow> children_ok N p (C p)" "p \<notin> set (C p)"
    "x \<in> set (C p) \<Longrightarrow> N p \<noteq> None"
proof -
  have ok: "if N p = None then C p = [] else children_ok N p (C p)" for p using assms by (simp add: linked_def)
  show mem: "\<exists>n. N x = Some n \<and> dn_parent n = Some p" if "x \<in> set (C p)" for x p
    using ok [of p] that siblings_member by (fastforce simp: children_ok_def split: if_splits)
  show "N p \<noteq> None \<Longrightarrow> children_ok N p (C p)" using ok [of p] by simp
  show "p \<notin> set (C p)" using assms by (auto simp: linked_def acyclic_def below_def)
  show "x \<in> set (C p) \<Longrightarrow> N p \<noteq> None" using ok [of p] by (auto split: if_splits)
qed

text \<open>A change of one list of children.\<close>

lemma linked_change:
  assumes "linked N C" "dom N' = dom N" "children_ok N' p xs" "acyclic (below (C(p := xs)))"
    "\<And>x. x \<noteq> p \<Longrightarrow> map_option ends_of (N' x) = map_option ends_of (N x)"
    "\<And>x. x \<notin> set (C p) \<union> set xs \<Longrightarrow> map_option link_of (N' x) = map_option link_of (N x)"
    "\<And>x. x \<in> set xs - set (C p) \<Longrightarrow> map_option dn_parent (N x) = Some None"
    "\<And>x. x \<in> set (C p) - set xs \<Longrightarrow> map_option dn_parent (N' x) = Some None"
  shows "linked N' (C(p := xs))"
proof -
  have other: "children_ok N' q (C q)" if "q \<noteq> p" "N' q \<noteq> None" for q
  proof -
    have "N q \<noteq> None" using assms(2) that(2) by auto
    then have ok: "children_ok N q (C q)" by (rule linkedD(2) [OF assms(1)])
    have "map_option link_of (N' x) = map_option link_of (N x)" if x: "x \<in> set (C q)" for x
      using linkedD(1) [OF assms(1) x] linkedD(1) [OF assms(1), of x p] assms(7) [of x] \<open>q \<noteq> p\<close>
      by (intro assms(6)) (cases "x \<in> set (C p)"; auto)
    then have "siblings N' q None (C q) None" using ok siblings_cong [of "C q" N' N] by (simp add: children_ok_def)
    then show ?thesis using ok assms(5) [OF that(1)] by (auto simp: children_ok_def ends_of_def)
  qed
  have parent: "x \<in> set ((C(p := xs)) q)" if "N' x = Some n" "dn_parent n = Some q" for x n q
  proof (cases "x \<in> set xs")
    case True
    then have "dn_parent n = Some p" using siblings_member [of N' p None xs None x] assms(3) that(1) by (auto simp: children_ok_def)
    then show ?thesis using True that(2) by simp
  next
    case False
    then have "x \<notin> set (C p)" using assms(8) [of x] that by auto
    then have "map_option link_of (N x) = Some (link_of n)" using assms(6) [of x] False that(1) by auto
    then have "x \<in> set (C q)" using assms(1) that(2) by (auto simp: linked_def link_of_def)
    then show ?thesis using \<open>x \<notin> set (C p)\<close> by auto
  qed
  have "C q = []" if "N' q = None" for q
  proof -
    have "N q = None" using assms(2) that by (metis domIff)
    then show ?thesis using assms(1) by (simp add: linked_def)
  qed
  moreover have "N' p \<noteq> None" using assms(3) by (auto simp: children_ok_def)
  ultimately show ?thesis using assms(1-4) other parent by (auto simp: linked_def)
qed

section \<open>The operations are operations on the lists\<close>

text \<open>What the links do not concern stays as it is.\<close>

definition content_of :: "dom_node \<Rightarrow> dom_kind \<times> string \<times> nat option" where
  "content_of n = (dn_kind n, dn_value n, dn_rootAttribute n)"

definition same_content :: "dom \<Rightarrow> dom \<Rightarrow> bool" where
  "same_content s s' \<longleftrightarrow> dm_attributes s' = dm_attributes s \<and> (\<forall>x. map_option content_of (dm_nodes s' x) = map_option content_of (dm_nodes s x))"

lemma acyclic_insert_child:
  assumes "linked N C" "(p, x) \<notin> (below C)\<^sup>*" "set xs = insert x (set (C p))"
  shows "acyclic (below (C(p := xs)))"
proof -
  have "below (C(p := xs)) = insert (x, p) (below C)" using assms(3) by (auto simp: below_def split: if_splits)
  then show ?thesis using assms(1,2) by (simp add: linked_def acyclic_insert)
qed

lemma acyclic_remove_child:
  assumes "linked N C" "set xs \<subseteq> set (C p)"
  shows "acyclic (below (C(p := xs)))"
  by (rule acyclic_subset [where s = "below C"]) (use assms in \<open>auto simp: below_def linked_def split: if_splits\<close>)

lemmas link_defs = upd_def SetTracked_def count_untracked_def children_ok_def ends_of_def link_of_def same_content_def content_of_def

lemma unlinked_not_child: "linked N C \<Longrightarrow> N x = Some n \<Longrightarrow> dn_parent n = None \<Longrightarrow> x \<notin> set (C p)"
  using linkedD(1) by fastforce

lemma InsertEndChild_linked:
  assumes "linked (dm_nodes s) C" "dm_nodes s p = Some t" "dm_nodes s x = Some a" "dn_parent a = None" "(p, x) \<notin> (below C)\<^sup>*"
  shows "\<exists>s'. InsertEndChild p x s = Some (Some x, s') \<and> linked (dm_nodes s') (C(p := C p @ [x])) \<and> same_content s s'"
proof -
  have ok: "children_ok (dm_nodes s) p (C p)" using linkedD(2) [OF assms(1)] assms(2) by simp
  have x: "x \<notin> set (C p)" "p \<notin> set (C p)" "x \<noteq> p" using unlinked_not_child [OF assms(1,3,4)] linkedD(3) [OF assms(1)] assms(5) by auto
  have ac: "acyclic (below (C(p := C p @ [x])))" by (rule acyclic_insert_child [OF assms(1,5)]) auto
  show ?thesis
  proof (cases "C p" rule: rev_cases)
    case Nil
    let ?N = "(dm_nodes s)(p \<mapsto> t\<lparr>dn_firstChild := Some x, dn_lastChild := Some x\<rparr>, x \<mapsto> a\<lparr>dn_prev := None, dn_next := None, dn_parent := Some p\<rparr>)"
    have "linked ?N (C(p := C p @ [x]))"
      by (rule linked_change [OF assms(1) _ _ ac]) (use ok x assms Nil in \<open>auto simp: link_defs\<close>)
    moreover have "\<exists>s'. InsertEndChild p x s = Some (Some x, s') \<and> dm_nodes s' = ?N \<and> same_content s s'"
      using ok x assms Nil by (auto simp: InsertEndChild_def link_defs)
    ultimately show ?thesis by fastforce
  next
    case (snoc xs l)
    obtain b where b: "dm_nodes s l = Some b" "siblings (dm_nodes s) p None xs (Some l)" "dn_parent b = Some p" "dn_prev b = endp None xs" "dn_next b = None"
      using ok snoc by (auto simp: children_ok_def siblings_append)
    let ?N = "(dm_nodes s)(l \<mapsto> b\<lparr>dn_next := Some x\<rparr>, p \<mapsto> t\<lparr>dn_lastChild := Some x\<rparr>, x \<mapsto> a\<lparr>dn_prev := Some l, dn_next := None, dn_parent := Some p\<rparr>)"
    have "linked ?N (C(p := C p @ [x]))"
      by (rule linked_change [OF assms(1) _ _ ac]) (use ok x assms snoc b in \<open>auto simp: link_defs siblings_append\<close>)
    moreover have "\<exists>s'. InsertEndChild p x s = Some (Some x, s') \<and> dm_nodes s' = ?N \<and> same_content s s'"
      using ok x assms snoc b by (auto simp: InsertEndChild_def link_defs)
    ultimately show ?thesis by fastforce
  qed
qed

lemma InsertFirstChild_linked:
  assumes "linked (dm_nodes s) C" "dm_nodes s p = Some t" "dm_nodes s x = Some a" "dn_parent a = None" "(p, x) \<notin> (below C)\<^sup>*"
  shows "\<exists>s'. InsertFirstChild p x s = Some (Some x, s') \<and> linked (dm_nodes s') (C(p := x # C p)) \<and> same_content s s'"
proof -
  have ok: "children_ok (dm_nodes s) p (C p)" using linkedD(2) [OF assms(1)] assms(2) by simp
  have x: "x \<notin> set (C p)" "p \<notin> set (C p)" "x \<noteq> p" using unlinked_not_child [OF assms(1,3,4)] linkedD(3) [OF assms(1)] assms(5) by auto
  have ac: "acyclic (below (C(p := x # C p)))" by (rule acyclic_insert_child [OF assms(1,5)]) auto
  show ?thesis
  proof (cases "C p")
    case Nil
    let ?N = "(dm_nodes s)(p \<mapsto> t\<lparr>dn_firstChild := Some x, dn_lastChild := Some x\<rparr>, x \<mapsto> a\<lparr>dn_prev := None, dn_next := None, dn_parent := Some p\<rparr>)"
    have "linked ?N (C(p := x # C p))"
      by (rule linked_change [OF assms(1) _ _ ac]) (use ok x assms Nil in \<open>auto simp: link_defs\<close>)
    moreover have "\<exists>s'. InsertFirstChild p x s = Some (Some x, s') \<and> dm_nodes s' = ?N \<and> same_content s s'"
      using ok x assms Nil by (auto simp: InsertFirstChild_def link_defs)
    ultimately show ?thesis by fastforce
  next
    case (Cons f ys)
    obtain b where b: "dm_nodes s f = Some b" "siblings (dm_nodes s) p (Some f) ys None" "dn_parent b = Some p" "dn_prev b = None" "dn_next b = headp ys None"
      using ok Cons by (auto simp: children_ok_def)
    let ?N = "(dm_nodes s)(f \<mapsto> b\<lparr>dn_prev := Some x\<rparr>, p \<mapsto> t\<lparr>dn_firstChild := Some x\<rparr>, x \<mapsto> a\<lparr>dn_prev := None, dn_next := Some f, dn_parent := Some p\<rparr>)"
    have "linked ?N (C(p := x # C p))"
      by (rule linked_change [OF assms(1) _ _ ac]) (use ok x assms Cons b in \<open>auto simp: link_defs\<close>)
    moreover have "\<exists>s'. InsertFirstChild p x s = Some (Some x, s') \<and> dm_nodes s' = ?N \<and> same_content s s'"
      using ok x assms Cons b by (auto simp: InsertFirstChild_def link_defs)
    ultimately show ?thesis by fastforce
  qed
qed

lemma InsertAfterChild_linked:
  assumes "linked (dm_nodes s) C" "dm_nodes s p = Some t" "dm_nodes s x = Some a" "dn_parent a = None" "(p, x) \<notin> (below C)\<^sup>*" "C p = xs @ y # ys"
  shows "\<exists>s'. InsertAfterChild p y x s = Some (Some x, s') \<and> linked (dm_nodes s') (C(p := xs @ y # x # ys)) \<and> same_content s s'"
proof (cases ys)
  case Nil
  have "children_ok (dm_nodes s) p (C p)" using linkedD(2) [OF assms(1)] assms(2) by simp
  then obtain b where "dm_nodes s y = Some b" "dn_parent b = Some p" "dn_next b = None" using assms(6) Nil by (auto simp: children_ok_def siblings_append)
  then show ?thesis using InsertEndChild_linked [OF assms(1-5)] assms(6) Nil by (simp add: InsertAfterChild_def)
next
  case (Cons z zs)
  have ok: "children_ok (dm_nodes s) p (C p)" using linkedD(2) [OF assms(1)] assms(2) by simp
  have x: "x \<notin> set (C p)" "p \<notin> set (C p)" "x \<noteq> p" using unlinked_not_child [OF assms(1,3,4)] linkedD(3) [OF assms(1)] assms(5) by auto
  have ac: "acyclic (below (C(p := xs @ y # x # ys)))" by (rule acyclic_insert_child [OF assms(1,5)]) (auto simp: assms(6))
  obtain b c where b: "dm_nodes s y = Some b" "siblings (dm_nodes s) p None xs (Some y)" "dn_parent b = Some p" "dn_prev b = endp None xs" "dn_next b = Some z"
    "dm_nodes s z = Some c" "dn_parent c = Some p" "dn_prev c = Some y" "dn_next c = headp zs None" "siblings (dm_nodes s) p (Some z) zs None"
    using ok assms(6) Cons by (auto simp: children_ok_def siblings_append)
  let ?N = "(dm_nodes s)(z \<mapsto> c\<lparr>dn_prev := Some x\<rparr>, y \<mapsto> b\<lparr>dn_next := Some x\<rparr>, x \<mapsto> a\<lparr>dn_prev := Some y, dn_next := Some z, dn_parent := Some p\<rparr>)"
  have "linked ?N (C(p := xs @ y # x # ys))"
    by (rule linked_change [OF assms(1) _ _ ac]) (use ok x assms Cons b in \<open>auto simp: link_defs siblings_append\<close>)
  moreover have "\<exists>s'. InsertAfterChild p y x s = Some (Some x, s') \<and> dm_nodes s' = ?N \<and> same_content s s'"
    using ok x assms Cons b by (auto simp: InsertAfterChild_def link_defs fun_upd_twist)
  ultimately show ?thesis by fastforce
qed

text \<open>Only the ends of \<open>p\<close> and the nodes of \<open>A\<close> change.\<close>

definition keeps_rest :: "nat \<Rightarrow> nat set \<Rightarrow> dom \<Rightarrow> dom \<Rightarrow> bool" where
  "keeps_rest p A s s' \<longleftrightarrow> (\<forall>x. x \<notin> insert p A \<longrightarrow> dm_nodes s' x = dm_nodes s x) \<and>
     (p \<notin> A \<longrightarrow> map_option link_of (dm_nodes s' p) = map_option link_of (dm_nodes s p) \<and> map_option content_of (dm_nodes s' p) = map_option content_of (dm_nodes s p))"

lemma Unlink_linked:
  assumes "linked (dm_nodes s) C" "C p = xs @ x # ys"
  shows "\<exists>s' n. Unlink p x s = Some s' \<and> linked (dm_nodes s') (C(p := xs @ ys)) \<and> same_content s s' \<and> dm_nodes s' x = Some n \<and> dn_parent n = None \<and> keeps_rest p (set (C p)) s s'"
proof -
  have p: "dm_nodes s p \<noteq> None" "p \<notin> set (C p)" using linkedD(3) [OF assms(1), of p] linkedD(4) [OF assms(1), of x p] assms(2) by auto
  then have ok: "children_ok (dm_nodes s) p (C p)" using linkedD(2) [OF assms(1)] by simp
  have ac: "acyclic (below (C(p := xs @ ys)))" by (rule acyclic_remove_child [OF assms(1)]) (auto simp: assms(2))
  obtain t where t: "dm_nodes s p = Some t" using p(1) by auto
  obtain a where a: "dm_nodes s x = Some a" "siblings (dm_nodes s) p None xs (Some x)" "dn_prev a = endp None xs" "dn_next a = headp ys None" "siblings (dm_nodes s) p (Some x) ys None"
    using ok assms(2) by (auto simp: children_ok_def siblings_append)
  show ?thesis
  proof (cases xs rule: rev_cases)
    case xs: Nil
    show ?thesis
    proof (cases ys)
      case ys: Nil
      let ?N = "(dm_nodes s)(p \<mapsto> t\<lparr>dn_firstChild := None, dn_lastChild := None\<rparr>, x \<mapsto> a\<lparr>dn_parent := None\<rparr>)"
      have "linked ?N (C(p := xs @ ys))"
        by (rule linked_change [OF assms(1) _ _ ac]) (use ok p t a assms xs ys in \<open>auto simp: link_defs\<close>)
      moreover have "\<exists>s'. Unlink p x s = Some s' \<and> dm_nodes s' = ?N \<and> same_content s s' \<and> keeps_rest p (set (C p)) s s'"
        using ok p t a assms xs ys by (auto simp: Unlink_def link_defs keeps_rest_def)
      ultimately show ?thesis by fastforce
    next
      case ys: (Cons z zs)
      obtain c where c: "dm_nodes s z = Some c" "dn_parent c = Some p" "dn_prev c = Some x" "dn_next c = headp zs None" "siblings (dm_nodes s) p (Some z) zs None"
        using a(5) ys by auto
      let ?N = "(dm_nodes s)(p \<mapsto> t\<lparr>dn_firstChild := Some z\<rparr>, z \<mapsto> c\<lparr>dn_prev := None\<rparr>, x \<mapsto> a\<lparr>dn_parent := None\<rparr>)"
      have "linked ?N (C(p := xs @ ys))"
        by (rule linked_change [OF assms(1) _ _ ac]) (use ok p t a c assms xs ys in \<open>auto simp: link_defs\<close>)
      moreover have "\<exists>s'. Unlink p x s = Some s' \<and> dm_nodes s' = ?N \<and> same_content s s' \<and> keeps_rest p (set (C p)) s s'"
        using ok p t a c assms xs ys by (auto simp: Unlink_def link_defs keeps_rest_def endp_def)
      ultimately show ?thesis by fastforce
    qed
  next
    case xs: (snoc us u)
    obtain b where b: "dm_nodes s u = Some b" "dn_parent b = Some p" "dn_prev b = endp None us" "dn_next b = Some x" "siblings (dm_nodes s) p None us (Some u)"
      using a(2) xs by (auto simp: siblings_append)
    show ?thesis
    proof (cases ys)
      case ys: Nil
      let ?N = "(dm_nodes s)(p \<mapsto> t\<lparr>dn_lastChild := Some u\<rparr>, u \<mapsto> b\<lparr>dn_next := None\<rparr>, x \<mapsto> a\<lparr>dn_parent := None\<rparr>)"
      have "linked ?N (C(p := xs @ ys))"
        by (rule linked_change [OF assms(1) _ _ ac]) (use ok p t a b assms xs ys in \<open>auto simp: link_defs siblings_append\<close>)
      moreover have ne: "dn_firstChild t \<noteq> Some x" "dn_lastChild t = Some x" "distinct (us @ [u, x])"
        using ok t assms(2) xs ys by (cases us; auto simp: children_ok_def)+
      moreover obtain s' where s': "Unlink p x s = Some s'" "dm_nodes s' = ?N" "dm_attributes s' = dm_attributes s"
        using p t a b assms(2) xs ys ne by (auto simp: Unlink_def upd_def)
      moreover have "same_content s s'" "keeps_rest p (set (C p)) s s'"
        using s'(2,3) p t a b assms(2) xs ys by (auto simp: link_defs keeps_rest_def)
      ultimately show ?thesis by fastforce
    next
      case ys: (Cons z zs)
      obtain c where c: "dm_nodes s z = Some c" "dn_parent c = Some p" "dn_prev c = Some x" "dn_next c = headp zs None" "siblings (dm_nodes s) p (Some z) zs None"
        using a(5) ys by auto
      let ?N = "(dm_nodes s)(u \<mapsto> b\<lparr>dn_next := Some z\<rparr>, z \<mapsto> c\<lparr>dn_prev := Some u\<rparr>, x \<mapsto> a\<lparr>dn_parent := None\<rparr>)"
      have "linked ?N (C(p := xs @ ys))"
        by (rule linked_change [OF assms(1) _ _ ac]) (use ok p t a b c assms xs ys in \<open>auto simp: link_defs siblings_append\<close>)
      moreover have ne: "dn_firstChild t \<noteq> Some x" "dn_lastChild t \<noteq> Some x" "distinct (us @ u # x # z # zs)"
        using ok t assms(2) xs ys by (cases us; cases zs; auto simp: children_ok_def endp_def)+
      moreover obtain s' where s': "Unlink p x s = Some s'" "dm_nodes s' = ?N" "dm_attributes s' = dm_attributes s"
        using p t a b c assms(2) xs ys ne by (auto simp: Unlink_def upd_def)
      moreover have "same_content s s'" "keeps_rest p (set (C p)) s s'"
        using s'(2,3) p t a b c assms(2) xs ys by (auto simp: link_defs keeps_rest_def)
      ultimately show ?thesis by fastforce
    qed
  qed
qed

section \<open>Deletion ends and frees what is below\<close>

primrec attribute_path :: "(nat \<Rightarrow> dom_attribute option) \<Rightarrow> nat option \<Rightarrow> nat list \<Rightarrow> bool" where
  "attribute_path A r [] \<longleftrightarrow> r = None"
| "attribute_path A r (a # as) \<longleftrightarrow> r = Some a \<and> (\<exists>x. A a = Some x \<and> attribute_path A (da_next x) as)"

text \<open>\<open>T p\<close> are the attributes of \<open>p\<close>; no two nodes share one.\<close>

definition owned :: "dom \<Rightarrow> (nat \<Rightarrow> nat list) \<Rightarrow> bool" where
  "owned s T \<longleftrightarrow>
     (\<forall>p n. dm_nodes s p = Some n \<longrightarrow> attribute_path (dm_attributes s) (dn_rootAttribute n) (T p) \<and> distinct (T p)) \<and>
     (\<forall>p. dm_nodes s p = None \<longrightarrow> T p = []) \<and>
     (\<forall>p q. p \<noteq> q \<longrightarrow> set (T p) \<inter> set (T q) = {})"

lemma attribute_path_frame: "(\<And>a. a \<in> set as \<Longrightarrow> A' a = A a) \<Longrightarrow> attribute_path A' r as = attribute_path A r as"
  by (induction as arbitrary: r) auto

lemma delete_attributes_all:
  "dm_nodes s p = Some n \<Longrightarrow> attribute_path (dm_attributes s) (dn_rootAttribute n) as \<Longrightarrow> distinct as \<Longrightarrow>
   \<exists>s'. delete_attributes p s = Some s' \<and> dm_nodes s' = (dm_nodes s)(p \<mapsto> n\<lparr>dn_rootAttribute := None\<rparr>) \<and>
     dm_attributes s' = dm_attributes s |` (- set as) \<and> dm_untracked s' = dm_untracked s"
proof (induction as arbitrary: s n)
  case Nil
  then show ?case by (subst delete_attributes.simps) auto
next
  case (Cons a as)
  obtain x where x: "dm_attributes s a = Some x" "attribute_path (dm_attributes s) (da_next x) as" "dn_rootAttribute n = Some a" using Cons.prems by auto
  let ?s = "s\<lparr>dm_attributes := (dm_attributes s)(a := None), dm_nodes := (dm_nodes s)(p \<mapsto> n\<lparr>dn_rootAttribute := da_next x\<rparr>)\<rparr>"
  have "delete_attributes p s = delete_attributes p ?s"
    using x Cons.prems by (subst delete_attributes.simps) (simp add: DELETE_ATTRIBUTE_def upd_def)
  moreover have "attribute_path (dm_attributes ?s) (da_next x) as" using x(2) Cons.prems(3) by (subst attribute_path_frame [where A = "dm_attributes s"]) auto
  then obtain s' where "delete_attributes p ?s = Some s'" "dm_nodes s' = (dm_nodes ?s)(p \<mapsto> n\<lparr>dn_rootAttribute := None\<rparr>)"
    "dm_attributes s' = dm_attributes ?s |` (- set as)" "dm_untracked s' = dm_untracked s"
    using Cons.IH [of ?s "n\<lparr>dn_rootAttribute := da_next x\<rparr>"] Cons.prems(3) by (auto simp: fun_upd_same simp del: fun_upd_apply)
  ultimately show ?case by (intro exI [of _ s']) (auto simp: restrict_map_def fun_eq_iff)
qed

definition descendants :: "(nat \<Rightarrow> nat list) \<Rightarrow> nat \<Rightarrow> nat set" where
  "descendants C p = {x. (x, p) \<in> (below C)\<^sup>+}"

lemma finite_descendants:
  assumes "linked N C"
  shows "finite (descendants C p)"
proof -
  have "descendants C p \<subseteq> dom N"
  proof
    fix x assume "x \<in> descendants C p"
    then obtain y where "(x, y) \<in> below C" by (auto simp: descendants_def elim: converse_tranclE)
    then show "x \<in> dom N" using linkedD(1) [OF assms] by (fastforce simp: below_def)
  qed
  then show ?thesis using assms finite_subset by (auto simp: linked_def)
qed

lemma descendants_irrefl: "linked N C \<Longrightarrow> p \<notin> descendants C p"
  by (simp add: linked_def acyclic_def descendants_def)

lemma descendants_child: "c \<in> set (C p) \<Longrightarrow> c \<in> descendants C p" "c \<in> set (C p) \<Longrightarrow> descendants C c \<subseteq> descendants C p"
  by (auto simp: descendants_def below_def intro: trancl_into_trancl)

lemma descendants_mono: "(\<And>q. set (C' q) \<subseteq> set (C q)) \<Longrightarrow> descendants C' p \<subseteq> descendants C p"
  unfolding descendants_def by (auto intro: trancl_mono simp: below_def)

text \<open>The list of children that are left after the nodes of \<open>D\<close> are deleted below \<open>p\<close>.\<close>

definition without :: "nat set \<Rightarrow> (nat \<Rightarrow> 'a list) \<Rightarrow> nat \<Rightarrow> 'a list" where
  "without D C q = (if q \<in> D then [] else C q)"

lemma descendants_split:
  assumes "linked N C" "C p = c # cs"
  defines "C1 \<equiv> C(p := cs)"
  defines "C2 \<equiv> without (insert c (descendants C1 c)) C1"
  shows "descendants C p = insert c (descendants C1 c) \<union> descendants C2 p"
proof
  have c: "c \<in> set (C p)" using assms(2) by simp
  have sub: "set (C1 q) \<subseteq> set (C q)" "set (C2 q) \<subseteq> set (C q)" for q using assms(2) by (auto simp: C1_def C2_def without_def split: if_splits)
  have p: "p \<notin> descendants C p" by (rule descendants_irrefl [OF assms(1)])
  have C1c: "descendants C1 c \<subseteq> descendants C p" using descendants_mono [of C1 C c, OF sub(1)] descendants_child(2) [where C = C and p = p, OF c] by blast
  show "insert c (descendants C1 c) \<union> descendants C2 p \<subseteq> descendants C p"
    using C1c descendants_child(1) [where C = C and p = p, OF c] descendants_mono [of C2 C p, OF sub(2)] by blast
  show "descendants C p \<subseteq> insert c (descendants C1 c) \<union> descendants C2 p"
  proof
    fix x assume "x \<in> descendants C p"
    then have "(x, p) \<in> (below C)\<^sup>+" by (simp add: descendants_def)
    then show "x \<in> insert c (descendants C1 c) \<union> descendants C2 p"
    proof (induction rule: converse_trancl_induct)
      case (base x)
      show ?case
      proof (cases "x = c")
        case False
        then have "x \<in> set (C2 p)" using base assms(2) p C1c c descendants_child(1) by (auto simp: below_def C2_def C1_def without_def)
        then show ?thesis using descendants_child(1) by blast
      qed simp
    next
      case (step x y)
      have xy: "x \<in> set (C y)" using step(1) by (simp add: below_def)
      have "y \<noteq> p" using step(2) p by (auto simp: descendants_def)
      show ?case
      proof (cases "y \<in> insert c (descendants C1 c)")
        case True
        have "x \<in> set (C1 y)" using xy \<open>y \<noteq> p\<close> by (simp add: C1_def)
        then show ?thesis using True descendants_child [of x C1 y] by (auto simp: descendants_def below_def intro: trancl_into_trancl2)
      next
        case False
        then have "x \<in> set (C2 y)" using xy \<open>y \<noteq> p\<close> by (simp add: C2_def C1_def without_def)
        then show ?thesis using False step(3) by (auto simp: descendants_def below_def intro: trancl_into_trancl2)
      qed
    qed
  qed
qed

text \<open>The nodes of \<open>D\<close> are freed with their attributes; nothing else is.\<close>

definition cleared :: "nat set \<Rightarrow> (nat \<Rightarrow> nat list) \<Rightarrow> dom \<Rightarrow> dom \<Rightarrow> bool" where
  "cleared D T s s' \<longleftrightarrow>
     (\<forall>x \<in> D. dm_nodes s' x = None \<and> (\<forall>a \<in> set (T x). dm_attributes s' a = None)) \<and>
     (\<forall>a. (\<forall>x \<in> D. a \<notin> set (T x)) \<longrightarrow> dm_attributes s' a = dm_attributes s a)"

text \<open>What \<open>DeleteChildren p\<close> leaves.\<close>

definition deleted_below :: "(nat \<Rightarrow> nat list) \<Rightarrow> (nat \<Rightarrow> nat list) \<Rightarrow> nat \<Rightarrow> dom \<Rightarrow> dom \<Rightarrow> bool" where
  "deleted_below C T p s s' \<longleftrightarrow>
     linked (dm_nodes s') (without (insert p (descendants C p)) C) \<and> owned s' (without (descendants C p) T) \<and>
     cleared (descendants C p) T s s' \<and> keeps_rest p (descendants C p) s s'"

lemma linked_nodes_cong:
  assumes "linked N C" "\<And>x. map_option link_of (N' x) = map_option link_of (N x)" "\<And>x. map_option ends_of (N' x) = map_option ends_of (N x)"
  shows "linked N' C"
proof -
  have "dom N' = dom N" using assms(2) by (metis (no_types) domIff map_option_is_None subsetI subset_antisym)
  have [simp]: "N' x = None \<longleftrightarrow> N x = None" for x using assms(2) [of x] by (metis map_option_is_None)
  have "children_ok N' p xs" if "children_ok N p xs" for p xs
    using that assms(3) [of p] siblings_cong [of xs N' N p None None] assms(2) by (auto simp: children_ok_def ends_of_def)
  moreover have "\<exists>m. N x = Some m \<and> dn_parent m = dn_parent n" if "N' x = Some n" for x n
    using assms(2) [of x] that by (cases "N x") (auto simp: link_of_def)
  ultimately show ?thesis using assms(1) \<open>dom N' = dom N\<close> unfolding linked_def by (auto split: if_splits) metis+
qed

lemma linked_free:
  assumes "linked N C" "N c = Some n" "dn_parent n = None" "C c = []"
  shows "linked (N(c := None)) C"
proof -
  have no: "c \<notin> set (C p)" for p using unlinked_not_child [OF assms(1-3)] .
  have "children_ok (N(c := None)) p (C p)" if "p \<noteq> c" "N p \<noteq> None" for p
    using linkedD(2) [OF assms(1) that(2)] no that(1) by (simp add: children_ok_def)
  then show ?thesis using assms by (auto simp: linked_def)
qed

lemma owned_cong:
  assumes "owned s T" "same_content s s'"
  shows "owned s' T"
proof -
  have eq: "map_option content_of (dm_nodes s' x) = map_option content_of (dm_nodes s x)" "dm_attributes s' = dm_attributes s" for x
    using assms(2) by (simp_all add: same_content_def)
  have "attribute_path (dm_attributes s') (dn_rootAttribute n) (T x) \<and> distinct (T x)" if "dm_nodes s' x = Some n" for x n
    using assms(1) eq(1) [of x] that by (cases "dm_nodes s x") (auto simp: owned_def eq(2) content_of_def)
  moreover have "T x = []" if "dm_nodes s' x = None" for x using assms(1) eq(1) [of x] that by (simp add: owned_def)
  ultimately show ?thesis using assms(1) by (simp add: owned_def)
qed

lemma owned_free: "owned s T \<Longrightarrow> T c = [] \<Longrightarrow> owned (free_dom_node c s) T"
  by (auto simp: owned_def free_dom_node_def)

lemma delete_attributes_owned:
  assumes "linked (dm_nodes s) C" "owned s T" "dm_nodes s c = Some n"
  shows "\<exists>s'. delete_attributes c s = Some s' \<and> linked (dm_nodes s') C \<and> owned s' (T(c := [])) \<and>
    dm_nodes s' = (dm_nodes s)(c \<mapsto> n\<lparr>dn_rootAttribute := None\<rparr>) \<and> dm_attributes s' = dm_attributes s |` (- set (T c))"
proof -
  have "attribute_path (dm_attributes s) (dn_rootAttribute n) (T c)" "distinct (T c)" using assms(2,3) by (auto simp: owned_def)
  then obtain s' where s': "delete_attributes c s = Some s'" "dm_nodes s' = (dm_nodes s)(c \<mapsto> n\<lparr>dn_rootAttribute := None\<rparr>)"
    "dm_attributes s' = dm_attributes s |` (- set (T c))" using delete_attributes_all [OF assms(3)] by blast
  have "linked (dm_nodes s') C"
    by (rule linked_nodes_cong [OF assms(1)]) (use assms(3) s'(2) in \<open>auto simp: link_of_def ends_of_def\<close>)
  moreover have "attribute_path (dm_attributes s') r (T p) = attribute_path (dm_attributes s) r (T p)" if "p \<noteq> c" for r p
  proof (rule attribute_path_frame)
    fix a assume "a \<in> set (T p)"
    then have "a \<notin> set (T c)" using assms(2) that by (auto simp: owned_def disjoint_iff)
    then show "dm_attributes s' a = dm_attributes s a" by (simp add: s'(3))
  qed
  then have "owned s' (T(c := []))" using assms(2) s'(2) by (auto simp: owned_def)
  ultimately show ?thesis using s' by blast
qed

lemma delete_first:
  assumes ok: "linked (dm_nodes s) C" "owned s T" and C: "C p = c # cs"
    and IH: "\<And>s C T. linked (dm_nodes s) C \<Longrightarrow> owned s T \<Longrightarrow> dm_nodes s c \<noteq> None \<Longrightarrow> descendants C c \<subseteq> D \<Longrightarrow> \<exists>s'. DeleteChildren c s = Some s' \<and> deleted_below C T c s s'"
    and D: "descendants (C(p := cs)) c \<subseteq> D"
  defines "E \<equiv> insert c (descendants (C(p := cs)) c)"
  shows "\<exists>s'. DeleteChildren p s = DeleteChildren p s' \<and> linked (dm_nodes s') (without E (C(p := cs))) \<and> owned s' (without E T) \<and>
    cleared E T s s' \<and> keeps_rest p (set (C p) \<union> E) s s'"
proof -
  let ?C = "C(p := cs)"
  obtain t where t: "dm_nodes s p = Some t" "dn_firstChild t = Some c" using linkedD(4) [OF ok(1), of c p] linkedD(2) [OF ok(1), of p] C by (auto simp: children_ok_def)
  obtain s1 n where s1: "Unlink p c s = Some s1" "linked (dm_nodes s1) ?C" "same_content s s1" "dm_nodes s1 c = Some n" "dn_parent n = None" "keeps_rest p (set (C p)) s s1"
    using Unlink_linked [OF ok(1), of p "[]" c cs] C by auto
  obtain s2 where s2: "delete_attributes c s1 = Some s2" "linked (dm_nodes s2) ?C" "owned s2 (T(c := []))"
    "dm_nodes s2 = (dm_nodes s1)(c \<mapsto> n\<lparr>dn_rootAttribute := None\<rparr>)" "dm_attributes s2 = dm_attributes s1 |` (- set (T c))"
    using delete_attributes_owned [OF s1(2) owned_cong [OF ok(2) s1(3)] s1(4)] by blast
  obtain s3 where s3: "DeleteChildren c s2 = Some s3" "deleted_below ?C (T(c := [])) c s2 s3" using IH [OF s2(2,3) _ D] s2(4) by auto
  have c: "c \<notin> descendants ?C c" by (rule descendants_irrefl [OF s1(2)])
  obtain m where m: "dm_nodes s3 c = Some m" "dn_parent m = None"
    using s3(2) c s2(4) s1(5) by (auto simp: deleted_below_def keeps_rest_def link_of_def)
  have "DeleteChildren p s = DeleteChildren p (free_dom_node c s3)"
    using ok C s1(1) s2(1) s3(1) m t by (subst DeleteChildren.simps) (simp add: leave_parent_def)
  moreover have "linked (dm_nodes (free_dom_node c s3)) (without E ?C)"
    unfolding free_dom_node_def using s3(2) m by (auto intro!: linked_free simp: deleted_below_def E_def without_def)
  moreover have "without E T = without (descendants ?C c) (T(c := []))" by (auto simp: E_def without_def)
  then have "owned (free_dom_node c s3) (without E T)" using s3(2) by (auto intro!: owned_free simp: deleted_below_def) (simp add: without_def)
  moreover have "cleared E T s (free_dom_node c s3)"
  proof -
    have 1: "cleared (descendants ?C c) (T(c := [])) s2 s3" using s3(2) by (simp add: deleted_below_def)
    have 2: "dm_attributes s2 = dm_attributes s |` (- set (T c))" using s2(5) s1(3) by (simp add: same_content_def)
    have 3: "a \<notin> set (T x)" if "a \<in> set (T c)" "x \<in> descendants ?C c" for a x using that c ok(2) by (auto simp: owned_def disjoint_iff) metis
    have "dm_attributes s3 a = None" if "a \<in> set (T c)" for a using 1 2 3 that by (auto simp: cleared_def)
    then show ?thesis using 1 2 c by (auto simp: cleared_def E_def free_dom_node_def)
  qed
  moreover have "keeps_rest p (set (C p) \<union> E) s (free_dom_node c s3)"
    using s1(6) s2(4) s3(2) C by (auto simp: keeps_rest_def deleted_below_def E_def free_dom_node_def)
  ultimately show ?thesis by blast
qed

lemma descendants_empty: "C p = [] \<Longrightarrow> descendants C p = {}"
  by (auto simp: descendants_def below_def elim: tranclE)

lemma deleted_compose:
  assumes split: "descendants C p = E \<union> descendants C' p" and p: "p \<notin> descendants C p" and sub: "set (C p) \<subseteq> descendants C p"
    and C': "C' = without E (C(p := cs))" and first: "cleared E T s s'" "keeps_rest p (set (C p) \<union> E) s s'"
    and rest: "deleted_below C' (without E T) p s' s''"
  shows "deleted_below C T p s s''"
proof -
  let ?D = "descendants C p" and ?R = "descendants C' p"
  have C'x: "C' x = (if x \<in> E then [] else if x = p then cs else C x)" for x by (simp add: C' without_def)
  have "without (insert p ?R) C' = without (insert p ?D) C" "without ?R (without E T) = without ?D T"
    by (auto simp: without_def fun_eq_iff C'x split)
  then have "linked (dm_nodes s'') (without (insert p ?D) C)" "owned s'' (without ?D T)" using rest by (simp_all add: deleted_below_def)
  moreover have "cleared ?R (without E T) s' s''" "keeps_rest p ?R s' s''" using rest by (simp_all add: deleted_below_def)
  note rest' = this
  have "cleared ?D T s s''"
  proof -
    have "dm_attributes s'' a = None" if "dm_attributes s' a = None" for a
      using rest'(1) that by (cases "\<exists>x \<in> ?R. a \<in> set (without E T x)") (auto simp: cleared_def)
    moreover have "dm_nodes s'' x = None" if "x \<in> E" for x
    proof -
      have "x \<noteq> p" using that p split by auto
      then show ?thesis using rest' first(1) that by (cases "x \<in> ?R") (auto simp: cleared_def keeps_rest_def)
    qed
    ultimately show ?thesis using rest'(1) first(1) split by (auto simp: cleared_def without_def split: if_splits)
  qed
  moreover have "keeps_rest p ?D s s''"
    using first(2) rest'(2) split p sub by (auto simp: keeps_rest_def)
  ultimately show ?thesis by (simp add: deleted_below_def)
qed

lemma DeleteChildren_all:
  "linked (dm_nodes s) C \<Longrightarrow> owned s T \<Longrightarrow> dm_nodes s p \<noteq> None \<Longrightarrow> \<exists>s'. DeleteChildren p s = Some s' \<and> deleted_below C T p s s'"
proof (induction "card (descendants C p)" arbitrary: s C T p rule: less_induct)
  case (less C p s T)
  obtain t where t: "dm_nodes s p = Some t" "dn_firstChild t = headp (C p) None" "dn_lastChild t = endp None (C p)"
    using linkedD(2) [OF less.prems(1,3)] by (auto simp: children_ok_def)
  show ?case
  proof (cases "C p")
    case Nil
    let ?s = "s\<lparr>dm_nodes := (dm_nodes s)(p \<mapsto> t\<lparr>dn_firstChild := None, dn_lastChild := None\<rparr>)\<rparr>"
    have "t\<lparr>dn_firstChild := None, dn_lastChild := None\<rparr> = t" using t(2,3) Nil by simp
    then have "?s = s" using t(1) by (simp add: fun_upd_idem)
    moreover have "without (insert p {}) C = C" "without {} T = T" using Nil by (auto simp: without_def)
    ultimately have "deleted_below C T p s s"
      using less.prems descendants_empty [of C p] Nil by (simp add: deleted_below_def cleared_def keeps_rest_def)
    moreover have "DeleteChildren p s = Some ?s" using t Nil by (subst DeleteChildren.simps) (simp add: upd_def)
    ultimately show ?thesis using \<open>?s = s\<close> by auto
  next
    case (Cons c cs)
    let ?C = "C(p := cs)"
    let ?E = "insert c (descendants ?C c)"
    have split: "descendants C p = ?E \<union> descendants (without ?E ?C) p" by (rule descendants_split [OF less.prems(1) Cons])
    have fin: "finite (descendants C p)" by (rule finite_descendants [OF less.prems(1)])
    have acyc: "linked (dm_nodes s) C" by (rule less.prems(1))
    have "descendants ?C c \<subseteq> descendants C c" using Cons by (intro descendants_mono) auto
    then have c: "c \<notin> descendants ?C c" using descendants_irrefl [OF acyc, of c] by blast
    have card: "card A < card (descendants C p)" if "A \<subseteq> descendants ?C c" for A
      using that c split fin by (intro psubset_card_mono) auto
    obtain s' where s': "DeleteChildren p s = DeleteChildren p s'" "linked (dm_nodes s') (without ?E ?C)" "owned s' (without ?E T)" "cleared ?E T s s'"
        "keeps_rest p (set (C p) \<union> ?E) s s'"
      using delete_first [OF less.prems(1,2) Cons less.hyps [OF card] order_refl] by blast
    have p: "p \<notin> descendants C p" by (rule descendants_irrefl [OF acyc])
    have "c \<notin> descendants (without ?E ?C) p"
    proof
      assume "c \<in> descendants (without ?E ?C) p"
      then obtain q where "c \<in> set (without ?E ?C q)" by (auto simp: descendants_def below_def elim: converse_tranclE)
      then show False using linkedD(1) [OF s'(2)] s'(4) by (fastforce simp: cleared_def)
    qed
    then have "card (descendants (without ?E ?C) p) < card (descendants C p)" using split fin by (intro psubset_card_mono) auto
    moreover have "dm_nodes s' p \<noteq> None" using s'(5) p t(1) Cons split descendants_child(1) [of _ C p] by (auto simp: keeps_rest_def)
    ultimately obtain s'' where s'': "DeleteChildren p s' = Some s''" "deleted_below (without ?E ?C) (without ?E T) p s' s''"
      using less.hyps [OF _ s'(2,3)] by blast
    have "set (C p) \<subseteq> descendants C p" using descendants_child(1) by blast
    then have "deleted_below C T p s s''" using deleted_compose [OF split p _ refl s'(4,5) s''(2)] by blast
    then show ?thesis using s'(1) s''(1) by simp
  qed
qed

lemma DELETE_NODE_linked:
  assumes ok: "linked (dm_nodes s) C" "owned s T" and C: "C p = xs @ x # ys"
  defines "E \<equiv> insert x (descendants C x)"
  shows "\<exists>s'. DELETE_NODE x s = Some s' \<and> linked (dm_nodes s') (without E (C(p := xs @ ys))) \<and> owned s' (without E T) \<and> cleared E T s s' \<and>
    (\<forall>y. y \<notin> E \<longrightarrow> map_option content_of (dm_nodes s' y) = map_option content_of (dm_nodes s y))"
proof -
  have x: "x \<in> set (C p)" using C by simp
  obtain n where n: "dm_nodes s x = Some n" "dn_parent n = Some p" using linkedD(1) [OF ok(1) x] by blast
  have irr: "x \<notin> descendants C x" by (rule descendants_irrefl [OF ok(1)])
  have p: "p \<notin> E" using descendants_irrefl [OF ok(1), of p] descendants_child [where C = C and p = p, OF x] by (auto simp: E_def)
  obtain s1 where s1: "delete_attributes x s = Some s1" "linked (dm_nodes s1) C" "owned s1 (T(x := []))"
    "dm_nodes s1 = (dm_nodes s)(x \<mapsto> n\<lparr>dn_rootAttribute := None\<rparr>)" "dm_attributes s1 = dm_attributes s |` (- set (T x))"
    using delete_attributes_owned [OF ok n(1)] by blast
  obtain s2 where s2: "DeleteChildren x s1 = Some s2" "deleted_below C (T(x := [])) x s1 s2"
    using DeleteChildren_all [OF s1(2,3), of x] s1(4) by auto
  have l2: "linked (dm_nodes s2) (without E C)" and c2: "cleared (descendants C x) (T(x := [])) s1 s2" and k2: "keeps_rest x (descendants C x) s1 s2"
    using s2(2) by (simp_all add: deleted_below_def E_def)
  have parent: "leave_parent x s2 = Unlink p x s2"
    using k2 irr s1(4) n by (auto simp: leave_parent_def keeps_rest_def link_of_def)
  obtain s3 m where s3: "Unlink p x s2 = Some s3" "linked (dm_nodes s3) ((without E C)(p := xs @ ys))" "same_content s2 s3" "dm_nodes s3 x = Some m" "dn_parent m = None"
    using Unlink_linked [OF l2, of p xs x ys] C p by (auto simp: without_def)
  have "(without E C)(p := xs @ ys) = without E (C(p := xs @ ys))" using p by (auto simp: without_def)
  then have "linked (dm_nodes (free_dom_node x s3)) (without E (C(p := xs @ ys)))"
    unfolding free_dom_node_def using s3(2,4,5) by (auto intro!: linked_free simp: without_def E_def)
  moreover have "owned (free_dom_node x s3) (without E T)"
  proof -
    have "without E T = without (descendants C x) (T(x := []))" by (auto simp: E_def without_def)
    moreover have "owned s3 (without (descendants C x) (T(x := [])))" using owned_cong [OF _ s3(3)] s2(2) by (simp add: deleted_below_def)
    ultimately show ?thesis by (auto intro!: owned_free) (simp add: without_def)
  qed
  moreover have "cleared E T s (free_dom_node x s3)"
  proof -
    have "a \<notin> set (T y)" if "a \<in> set (T x)" "y \<in> descendants C x" for a y using that irr ok(2) by (auto simp: owned_def disjoint_iff) metis
    then have "dm_attributes s2 a = None" if "a \<in> set (T x)" for a using c2 s1(5) that by (auto simp: cleared_def)
    moreover have "dm_nodes s3 y = None" if "y \<in> descendants C x" for y
      using c2 s3(3) that by (metis cleared_def map_option_is_None same_content_def)
    ultimately show ?thesis using c2 s1(5) s3(3) irr by (auto simp: cleared_def E_def free_dom_node_def same_content_def)
  qed
  moreover have "map_option content_of (dm_nodes (free_dom_node x s3) y) = map_option content_of (dm_nodes s y)" if "y \<notin> E" for y
    using that s3(3) k2 s1(4) by (auto simp: free_dom_node_def same_content_def keeps_rest_def E_def)
  moreover have "DELETE_NODE x s = Some (free_dom_node x s3)" using s1(1) s2(1) parent s3(1) by (simp add: DELETE_NODE_def)
  ultimately show ?thesis by blast
qed

section \<open>Navigation finds the elements of the list\<close>

text \<open>Strings that C and an \<open>int\<close> length can represent.\<close>

definition proper_str :: "string \<Rightarrow> bool" where
  "proper_str t \<longleftrightarrow> NUL \<notin> set t \<and> int (length t) < INT_MAX"

lemma StringEqual_proper: "proper_str a \<Longrightarrow> proper_str b \<Longrightarrow> StringEqual a b INT_MAX \<longleftrightarrow> a = b"
  using StringEqual_take [of a b "2 ^ 31 - 1"] by (simp add: proper_str_def INT_MAX_def)

definition node_matches :: "dom \<Rightarrow> bool \<Rightarrow> string option \<Rightarrow> nat \<Rightarrow> bool" where
  "node_matches s child v x = (case dm_nodes s x of None \<Rightarrow> False | Some n \<Rightarrow> element_matches child v n)"

lemma node_matches_node: "dm_nodes s x = Some n \<Longrightarrow> node_matches s child v x = element_matches child v n"
  by (simp add: node_matches_def)

lemma search_forwards:
  "siblings (dm_nodes s) p pr xs None \<Longrightarrow> search_loop True child v s (headp xs None) = Some (find (node_matches s child v) xs)"
proof (induction xs arbitrary: pr)
  case Nil
  then show ?case by (subst search_loop.simps) simp
next
  case (Cons x xs)
  then show ?case by (subst search_loop.simps) (auto simp: node_matches_node)
qed

lemma search_backwards:
  "siblings (dm_nodes s) p None xs q \<Longrightarrow> search_loop False child v s (endp None xs) = Some (find (node_matches s child v) (rev xs))"
proof (induction xs arbitrary: q rule: rev_induct)
  case Nil
  then show ?case by (subst search_loop.simps) simp
next
  case (snoc x xs)
  then show ?case by (subst search_loop.simps) (auto simp: node_matches_node siblings_append)
qed

lemma navigation:
  assumes "linked (dm_nodes s) C" "C p = xs @ x # ys"
  shows "FirstChildElement p v s = Some (find (node_matches s True v) (C p))"
    "LastChildElement p v s = Some (find (node_matches s True v) (rev (C p)))"
    "NextSiblingElement x v s = Some (find (node_matches s False v) ys)"
    "PreviousSiblingElement x v s = Some (find (node_matches s False v) (rev xs))"
proof -
  have "dm_nodes s p \<noteq> None" using linkedD(4) [OF assms(1), of x p] assms(2) by auto
  then have "children_ok (dm_nodes s) p (C p)" by (rule linkedD(2) [OF assms(1)])
  then obtain t where t: "dm_nodes s p = Some t" "dn_firstChild t = headp (C p) None" "dn_lastChild t = endp None (C p)" "siblings (dm_nodes s) p None (C p) None"
    by (auto simp: children_ok_def)
  show "FirstChildElement p v s = Some (find (node_matches s True v) (C p))" "LastChildElement p v s = Some (find (node_matches s True v) (rev (C p)))"
    using t search_forwards [OF t(4)] search_backwards [OF t(4)] by (simp_all add: FirstChildElement_def LastChildElement_def)
  have x: "siblings (dm_nodes s) p None xs (Some x)" "siblings (dm_nodes s) p (Some x) ys None" "\<exists>n. dm_nodes s x = Some n \<and> dn_prev n = endp None xs \<and> dn_next n = headp ys None"
    using t(4) assms(2) by (auto simp: siblings_append)
  show "NextSiblingElement x v s = Some (find (node_matches s False v) ys)" "PreviousSiblingElement x v s = Some (find (node_matches s False v) (rev xs))"
    using x(3) search_forwards [OF x(2)] search_backwards [OF x(1)] by (auto simp: NextSiblingElement_def PreviousSiblingElement_def)
qed

section \<open>Appending many children\<close>

text \<open>The contract of an operation that appends one child: what may be appended, and that the rest of it may still
  be appended afterwards. Its client appends a list, as the loop over the children in the parser does.\<close>

locale child_appender =
  fixes ok :: "'s \<Rightarrow> (nat \<Rightarrow> nat list) \<Rightarrow> bool"
    and may_append :: "'s \<Rightarrow> (nat \<Rightarrow> nat list) \<Rightarrow> nat \<Rightarrow> nat \<Rightarrow> bool"
    and append_child :: "nat \<Rightarrow> nat \<Rightarrow> 's \<Rightarrow> 's option"
  assumes append_ok: "ok s C \<Longrightarrow> may_append s C p x \<Longrightarrow>
    \<exists>s'. append_child p x s = Some s' \<and> ok s' (C(p := C p @ [x])) \<and>
      (\<forall>y. y \<noteq> x \<longrightarrow> may_append s C p y \<longrightarrow> may_append s' (C(p := C p @ [x])) p y)"
begin

primrec append_all :: "nat \<Rightarrow> nat list \<Rightarrow> 's \<Rightarrow> 's option" where
  "append_all p [] s = Some s"
| "append_all p (x # xs) s = Option.bind (append_child p x s) (append_all p xs)"

lemma append_all_ok:
  "ok s C \<Longrightarrow> distinct xs \<Longrightarrow> (\<And>x. x \<in> set xs \<Longrightarrow> may_append s C p x) \<Longrightarrow> \<exists>s'. append_all p xs s = Some s' \<and> ok s' (C(p := C p @ xs))"
proof (induction xs arbitrary: s C)
  case (Cons x xs)
  obtain s1 where s1: "append_child p x s = Some s1" "ok s1 (C(p := C p @ [x]))" "\<And>y. y \<noteq> x \<Longrightarrow> may_append s C p y \<Longrightarrow> may_append s1 (C(p := C p @ [x])) p y"
    using append_ok [OF Cons.prems(1), of p x] Cons.prems(3) by auto
  have "\<exists>s'. append_all p xs s1 = Some s' \<and> ok s' ((C(p := C p @ [x]))(p := (C(p := C p @ [x])) p @ xs))"
  proof (rule Cons.IH [OF s1(2)])
    fix y assume "y \<in> set xs"
    then show "may_append s1 (C(p := C p @ [x])) p y" using Cons.prems(2,3) by (intro s1(3)) auto
  qed (use Cons.prems(2) in simp)
  then show ?case using s1(1) by (simp add: fun_upd_same del: fun_upd_apply)
qed auto

end

definition insert_end :: "nat \<Rightarrow> nat \<Rightarrow> dom \<Rightarrow> dom option" where
  "insert_end p x s = map_option snd (InsertEndChild p x s)"

definition unlinked_for :: "dom \<Rightarrow> (nat \<Rightarrow> nat list) \<Rightarrow> nat \<Rightarrow> nat \<Rightarrow> bool" where
  "unlinked_for s C p x \<longleftrightarrow> dm_nodes s p \<noteq> None \<and> (\<exists>a. dm_nodes s x = Some a \<and> dn_parent a = None) \<and> (p, x) \<notin> (below C)\<^sup>*"

lemma same_content_None: "same_content s s' \<Longrightarrow> dm_nodes s' x = None \<longleftrightarrow> dm_nodes s x = None"
  unfolding same_content_def by (metis map_option_is_None)

lemma unlinked_for_kept:
  assumes "linked (dm_nodes s) C" "linked (dm_nodes s') (C(p := C p @ [x]))" "same_content s s'" "unlinked_for s C p x" "unlinked_for s C p y" "y \<noteq> x"
  shows "unlinked_for s' (C(p := C p @ [x])) p y"
proof -
  let ?C = "C(p := C p @ [x])"
  obtain b where b: "dm_nodes s' y = Some b" using same_content_None [OF assms(3), of y] assms(5) by (auto simp: unlinked_for_def)
  have "y \<notin> set (?C q)" for q using assms(5,6) unlinked_not_child [OF assms(1)] by (auto simp: unlinked_for_def)
  then have "dn_parent b = None" using assms(2) b unfolding linked_def by (metis not_None_eq)
  moreover have "below ?C = insert (x, p) (below C)" by (auto simp: below_def split: if_splits)
  then have "(p, y) \<notin> (below ?C)\<^sup>*" using assms(4,5) by (simp add: rtrancl_insert unlinked_for_def)
  ultimately show ?thesis using b same_content_None [OF assms(3), of p] assms(5) by (auto simp: unlinked_for_def)
qed

interpretation end_child: child_appender "\<lambda>s C. linked (dm_nodes s) C" unlinked_for insert_end
proof
  fix s C p x assume ok: "linked (dm_nodes s) C" and x: "unlinked_for s C p x"
  obtain t a where "dm_nodes s p = Some t" "dm_nodes s x = Some a" "dn_parent a = None" "(p, x) \<notin> (below C)\<^sup>*" using x by (auto simp: unlinked_for_def)
  from InsertEndChild_linked [OF ok this] obtain s' where s': "InsertEndChild p x s = Some (Some x, s')" "linked (dm_nodes s') (C(p := C p @ [x]))" "same_content s s'" by blast
  then show "\<exists>s'. insert_end p x s = Some s' \<and> linked (dm_nodes s') (C(p := C p @ [x])) \<and>
      (\<forall>y. y \<noteq> x \<longrightarrow> unlinked_for s C p y \<longrightarrow> unlinked_for s' (C(p := C p @ [x])) p y)"
    using unlinked_for_kept [OF ok s'(2,3) x] by (auto simp: insert_end_def)
qed

section \<open>Properties\<close>

text \<open>C38: On a consistent store the insertions are insertions into the list of children of \<open>p\<close>, at the end, at the
  start and behind a child, and unlinking a child removes it from the list; the store stays consistent and
  the contents of the nodes stay as they are.\<close>

theorem children_refine_list:
  assumes "linked (dm_nodes s) C" "dm_nodes s p = Some t" "dm_nodes s x = Some a" "dn_parent a = None" "(p, x) \<notin> (below C)\<^sup>*"
  shows "(\<exists>s'. InsertEndChild p x s = Some (Some x, s') \<and> linked (dm_nodes s') (C(p := C p @ [x])) \<and> same_content s s') \<and>
    (\<exists>s'. InsertFirstChild p x s = Some (Some x, s') \<and> linked (dm_nodes s') (C(p := x # C p)) \<and> same_content s s') \<and>
    (\<forall>xs y ys. C p = xs @ y # ys \<longrightarrow>
      (\<exists>s'. InsertAfterChild p y x s = Some (Some x, s') \<and> linked (dm_nodes s') (C(p := xs @ y # x # ys)) \<and> same_content s s') \<and>
      (\<exists>s'. Unlink p y s = Some s' \<and> linked (dm_nodes s') (C(p := xs @ ys)) \<and> same_content s s'))"
  using InsertEndChild_linked [OF assms] InsertFirstChild_linked [OF assms] InsertAfterChild_linked [OF assms] Unlink_linked [OF assms(1)] by blast

definition demo_dom_node :: dom_node where
  "demo_dom_node = \<lparr>dn_kind = DElement, dn_value = ''a'', dn_parent = None, dn_firstChild = None, dn_lastChild = None, dn_prev = None, dn_next = None,
     dn_rootAttribute = None\<rparr>"

text \<open>A document with an element that has an attribute and a child, and a text that is not linked.\<close>

definition demo_dom :: dom where
  "demo_dom = \<lparr>dm_nodes = [0 \<mapsto> demo_dom_node\<lparr>dn_kind := DDocument, dn_firstChild := Some 1, dn_lastChild := Some 1\<rparr>,
       1 \<mapsto> demo_dom_node\<lparr>dn_parent := Some 0, dn_firstChild := Some 2, dn_lastChild := Some 2, dn_rootAttribute := Some 7\<rparr>,
       2 \<mapsto> demo_dom_node\<lparr>dn_value := ''b'', dn_parent := Some 1\<rparr>, 3 \<mapsto> demo_dom_node\<lparr>dn_kind := DText False, dn_value := ''t''\<rparr>],
     dm_attributes = [7 \<mapsto> \<lparr>da_name = ''k'', da_value = ''v'', da_next = None\<rparr>], dm_untracked = (\<lambda>_. 0)\<rparr>"

definition demo_children :: "nat \<Rightarrow> nat list" where
  "demo_children = (\<lambda>_. [])(0 := [1], 1 := [2])"

lemma demo_linked: "linked (dm_nodes demo_dom) demo_children"
proof -
  have "below demo_children \<subseteq> less_than\<inverse>" by (auto simp: below_def demo_children_def split: if_splits)
  then have "acyclic (below demo_children)" by (rule acyclic_subset [rotated]) (simp add: acyclic_converse wf_acyclic)
  then show ?thesis by (auto simp: linked_def children_ok_def demo_dom_def demo_dom_node_def demo_children_def)
qed

lemma demo_dom_owned: "owned demo_dom ((\<lambda>_. [])(1 := [7]))"
  by (auto simp: owned_def demo_dom_def demo_dom_node_def)

lemma demo_unrelated: "(1, 3) \<notin> (below demo_children)\<^sup>*"
  by (auto simp: below_def demo_children_def elim: rtranclE split: if_splits)

theorem children_refine_list_witness:
  "\<exists>s'. InsertAfterChild 1 2 3 demo_dom = Some (Some 3, s') \<and> linked (dm_nodes s') (demo_children(1 := [2, 3])) \<and> same_content demo_dom s'"
proof -
  have "\<exists>t a. dm_nodes demo_dom 1 = Some t \<and> dm_nodes demo_dom 3 = Some a \<and> dn_parent a = None" by (simp add: demo_dom_def demo_dom_node_def)
  then obtain t a where "dm_nodes demo_dom 1 = Some t" "dm_nodes demo_dom 3 = Some a" "dn_parent a = None" by blast
  from children_refine_list [OF demo_linked this demo_unrelated, THEN conjunct2, THEN conjunct2, rule_format, of "[]" 2 "[]"]
  show ?thesis by (simp add: demo_children_def)
qed

text \<open>C8: Deleting a child ends, takes it out of the list and frees exactly the child and everything below it, with
  their attributes; the store stays consistent and all other nodes keep their contents.\<close>

theorem delete_child_frees:
  assumes "linked (dm_nodes s) C" "owned s T" "C p = xs @ x # ys" "E = insert x (descendants C x)"
  shows "\<exists>s'. DeleteChild p x s = Some s' \<and> DeleteNode x s = Some s' \<and>
    linked (dm_nodes s') (without E (C(p := xs @ ys))) \<and> owned s' (without E T) \<and>
    (\<forall>y. dm_nodes s' y = None \<longleftrightarrow> y \<in> E \<or> dm_nodes s y = None) \<and>
    (\<forall>y. y \<notin> E \<longrightarrow> map_option content_of (dm_nodes s' y) = map_option content_of (dm_nodes s y)) \<and>
    (\<forall>a. dm_attributes s' a = (if \<exists>y \<in> E. a \<in> set (T y) then None else dm_attributes s a))"
proof -
  obtain s' where s': "DELETE_NODE x s = Some s'" "linked (dm_nodes s') (without E (C(p := xs @ ys)))" "owned s' (without E T)" "cleared E T s s'"
    "\<forall>y. y \<notin> E \<longrightarrow> map_option content_of (dm_nodes s' y) = map_option content_of (dm_nodes s y)"
    using DELETE_NODE_linked [OF assms(1-3)] assms(4) by blast
  have x: "x \<in> set (C p)" using assms(3) by simp
  obtain t n where "dm_nodes s p = Some t" "dm_nodes s x = Some n" "dn_parent n = Some p" using linkedD(1,4) [OF assms(1) x] by blast
  then have "DeleteChild p x s = Some s'" "DeleteNode x s = Some s'" using s'(1) by (simp_all add: DeleteChild_def DeleteNode_def)
  moreover have "dm_nodes s' y = None \<longleftrightarrow> y \<in> E \<or> dm_nodes s y = None" for y using s'(4,5) by (metis cleared_def map_option_is_None)
  moreover have "dm_attributes s' a = (if \<exists>y \<in> E. a \<in> set (T y) then None else dm_attributes s a)" for a using s'(4) by (auto simp: cleared_def)
  ultimately show ?thesis using s'(2,3,5) by blast
qed

text \<open>The element with its attribute and child is deleted.\<close>

theorem delete_child_frees_witness:
  "\<exists>s'. DeleteNode 1 demo_dom = Some s' \<and> dm_nodes s' 1 = None \<and> dm_nodes s' 2 = None \<and> dm_attributes s' 7 = None \<and> dm_nodes s' 3 \<noteq> None"
proof -
  have below: "below demo_children = {(1, 0), (2, 1)}" by (auto simp: below_def demo_children_def split: if_splits)
  have "2 \<in> descendants demo_children 1" by (auto simp: descendants_def below)
  moreover have "3 \<notin> descendants demo_children 1" by (auto simp: descendants_def below elim: converse_tranclE)
  ultimately have d: "2 \<in> descendants demo_children 1" "3 \<notin> descendants demo_children 1" by auto
  obtain s' where s': "DeleteNode 1 demo_dom = Some s'"
    "\<forall>y. dm_nodes s' y = None \<longleftrightarrow> y \<in> insert 1 (descendants demo_children 1) \<or> dm_nodes demo_dom y = None"
    "\<forall>a. dm_attributes s' a = (if \<exists>y \<in> insert 1 (descendants demo_children 1). a \<in> set (((\<lambda>_. [])(1 := [7])) y) then None else dm_attributes demo_dom a)"
    using delete_child_frees [OF demo_linked demo_dom_owned, of 0 "[]" 1 "[]", OF _ refl] by (auto simp: demo_children_def)
  have "dm_nodes demo_dom 3 \<noteq> None" by (simp add: demo_dom_def)
  then have "dm_nodes s' 3 \<noteq> None" using s'(2) d(2) by (simp del: not_None_eq)
  moreover have "dm_nodes s' 1 = None" "dm_nodes s' 2 = None" "dm_attributes s' 7 = None" using s'(2,3) d(1) by auto
  ultimately show ?thesis using s'(1) by blast
qed

text \<open>The first and last child element and the next and previous sibling element, of any name or of a given
  one, are the first matching nodes in the list of children, read forwards and backwards; the searches end.\<close>

theorem navigation_finds:
  assumes "linked (dm_nodes s) C" "C p = xs @ x # ys" "\<And>y n. dm_nodes s y = Some n \<Longrightarrow> proper_str (dn_value n)"
    "case v of None \<Rightarrow> True | Some t \<Rightarrow> proper_str t"
    "is_elem = (\<lambda>y. \<exists>n. dm_nodes s y = Some n \<and> dn_kind n = DElement \<and> (case v of None \<Rightarrow> True | Some t \<Rightarrow> dn_value n = t))"
  shows "FirstChildElement p v s = Some (find is_elem (C p)) \<and> LastChildElement p v s = Some (find is_elem (rev (C p))) \<and>
    NextSiblingElement x v s = Some (find is_elem ys) \<and> PreviousSiblingElement x v s = Some (find is_elem (rev xs))"
proof -
  have "node_matches s child v = is_elem" for child
  proof
    fix y
    show "node_matches s child v y = is_elem y"
      using assms(3) [of y] assms(4)
      by (auto simp: assms(5) node_matches_def element_matches_def child_matches_def sibling_matches_def StringEqual_proper split: option.splits)
  qed
  then show ?thesis using navigation [OF assms(1,2), of v] by simp
qed

theorem navigation_finds_witness:
  "FirstChildElement 1 (Some ''b'') demo_dom = Some (Some 2) \<and> NextSiblingElement 2 None demo_dom = Some None"
proof -
  have "proper_str (dn_value n)" if "dm_nodes demo_dom y = Some n" for y n
    using that by (auto simp: proper_str_def demo_dom_def demo_dom_node_def NUL_def INT_MAX_def split: if_splits)
  note find = navigation_finds [where s = demo_dom and C = demo_children and p = 1 and xs = "[]" and x = 2 and ys = "[]", OF demo_linked _ this _ refl]
  from find [where v = "Some ''b''"] find [where v = None]
  show ?thesis by (simp add: demo_children_def proper_str_def NUL_def INT_MAX_def) (simp add: demo_dom_def demo_dom_node_def)
qed

text \<open>Appending a list of new nodes one after the other, as the parser does, gives an element with these children
  in this order behind the old ones.\<close>

theorem append_in_order:
  assumes "linked (dm_nodes s) C" "distinct xs" "\<And>x. x \<in> set xs \<Longrightarrow> unlinked_for s C p x"
  shows "\<exists>s'. end_child.append_all p xs s = Some s' \<and> linked (dm_nodes s') (C(p := C p @ xs))"
  using assms by (rule end_child.append_all_ok)

theorem append_in_order_witness: "\<exists>s'. end_child.append_all 1 [3] demo_dom = Some s' \<and> linked (dm_nodes s') (demo_children(1 := [2, 3]))"
proof -
  have "unlinked_for demo_dom demo_children 1 3" using demo_unrelated by (simp add: unlinked_for_def) (simp add: demo_dom_def demo_dom_node_def)
  then show ?thesis using append_in_order [OF demo_linked, of "[3]" 1] by (simp add: demo_children_def)
qed

text \<open>Inserting a node that has a parent leaves it in the list of the old parent as well.\<close>

theorem insert_does_not_move:
  "\<exists>s' n m. InsertEndChild 0 2 demo_dom = Some (Some 2, s') \<and> dm_nodes s' 1 = Some n \<and> dn_firstChild n = Some 2 \<and> dm_nodes s' 2 = Some m \<and> dn_parent m = Some 0"
  by (simp add: InsertEndChild_def demo_dom_def demo_dom_node_def upd_def SetTracked_def count_untracked_def)

text \<open>Deleting a node that was never inserted uses its null parent.\<close>

theorem delete_unlinked_crashes: "DeleteNode 3 demo_dom = None"
  by (simp add: DeleteNode_def demo_dom_def demo_dom_node_def)

end
