(* ===== verification/Xml_Attr.thy ===== *)
theory Xml_Attr
  imports Xml_Dom "HOL-Library.AList"
begin

text \<open>
  The attributes of elements, the queries, the copies and the handles of \<open>src/tinyxml2.cpp\<close> and
  \<open>include/tinyxml2.h\<close>, over the store of \<open>Xml_Dom\<close>. The lemmas show that the linked attributes of an element are
  an association list, that what is set is what is queried, and that handles are safe to use.
\<close>

section \<open>Finding, creating and deleting attributes\<close>

partial_function (option) find_attribute :: "dom \<Rightarrow> nat option \<Rightarrow> string \<Rightarrow> nat option option" where
  "find_attribute s a name =
     (case a of
        None \<Rightarrow> Some None
      | Some p \<Rightarrow> (case dm_attributes s p of
          None \<Rightarrow> None
        | Some x \<Rightarrow> if StringEqual (da_name x) name INT_MAX then Some (Some p) else find_attribute s (da_next x) name))"

definition FindAttribute :: "nat \<Rightarrow> string \<Rightarrow> dom \<Rightarrow> nat option option" where
  "FindAttribute this name s = do { n \<leftarrow> dm_nodes s this; find_attribute s (dn_rootAttribute n) name }"

text \<open>The value or the null pointer; with a second string, only a value that equals it.\<close>

definition Attribute :: "nat \<Rightarrow> string \<Rightarrow> string option \<Rightarrow> dom \<Rightarrow> string option option" where
  "Attribute this name v s = do {
     a \<leftarrow> FindAttribute this name s;
     case a of
       None \<Rightarrow> Some None
     | Some p \<Rightarrow> do {
         x \<leftarrow> dm_attributes s p;
         case v of
           None \<Rightarrow> Some (Some (da_value x))
         | Some t \<Rightarrow> if StringEqual (da_value x) t INT_MAX then Some (Some (da_value x)) else Some None } }"

definition upd_attribute :: "nat \<Rightarrow> (dom_attribute \<Rightarrow> dom_attribute) \<Rightarrow> dom \<Rightarrow> dom option" where
  "upd_attribute a f s = map_option (\<lambda>x. s\<lparr>dm_attributes := (dm_attributes s)(a \<mapsto> f x)\<rparr>) (dm_attributes s a)"

text \<open>The loop of \<open>FindOrCreateAttribute\<close> gives the last attribute it passed and the one it found.\<close>

partial_function (option) last_attribute :: "dom \<Rightarrow> nat option \<Rightarrow> nat option \<Rightarrow> string \<Rightarrow> (nat option \<times> nat option) option" where
  "last_attribute s prv a name =
     (case a of
        None \<Rightarrow> Some (prv, None)
      | Some p \<Rightarrow> (case dm_attributes s p of
          None \<Rightarrow> None
        | Some x \<Rightarrow> if StringEqual (da_name x) name INT_MAX then Some (prv, Some p) else last_attribute s (Some p) (da_next x) name))"

text \<open>\<open>new\<close> is the chunk that the pool hands out.\<close>

definition FindOrCreateAttribute :: "nat \<Rightarrow> string \<Rightarrow> nat \<Rightarrow> dom \<Rightarrow> (nat \<times> dom) option" where
  "FindOrCreateAttribute this name new s = do {
     n \<leftarrow> dm_nodes s this;
     (prv, attrib) \<leftarrow> last_attribute s None (dn_rootAttribute n) name;
     case attrib of
       Some a \<Rightarrow> Some (a, s)
     | None \<Rightarrow> do {
         let s = count_untracked AttributePool 1 (s\<lparr>dm_attributes := (dm_attributes s)(new \<mapsto> \<lparr>da_name = [], da_value = [], da_next = None\<rparr>)\<rparr>);
         s \<leftarrow> (case prv of
                Some l \<Rightarrow> upd_attribute l (\<lambda>x. x\<lparr>da_next := Some new\<rparr>) s
              | None \<Rightarrow> upd this (\<lambda>n. n\<lparr>dn_rootAttribute := Some new\<rparr>) s);
         s \<leftarrow> upd_attribute new (\<lambda>x. x\<lparr>da_name := name\<rparr>) s;
         Some (new, count_untracked AttributePool (- 1) s) } }"

partial_function (option) delete_loop :: "nat \<Rightarrow> string \<Rightarrow> nat option \<Rightarrow> nat option \<Rightarrow> dom \<Rightarrow> dom option" where
  "delete_loop this name prev a s =
     (case a of
        None \<Rightarrow> Some s
      | Some p \<Rightarrow> (case dm_attributes s p of
          None \<Rightarrow> None
        | Some x \<Rightarrow>
            if StringEqual name (da_name x) INT_MAX then do {
              s \<leftarrow> (case prev of
                     Some q \<Rightarrow> upd_attribute q (\<lambda>y. y\<lparr>da_next := da_next x\<rparr>) s
                   | None \<Rightarrow> upd this (\<lambda>n. n\<lparr>dn_rootAttribute := da_next x\<rparr>) s);
              DELETE_ATTRIBUTE p s }
            else delete_loop this name (Some p) (da_next x) s))"

definition DeleteAttribute :: "nat \<Rightarrow> string \<Rightarrow> dom \<Rightarrow> dom option" where
  "DeleteAttribute this name s = do { n \<leftarrow> dm_nodes s this; delete_loop this name None (dn_rootAttribute n) s }"

definition SetAttribute_value :: "nat \<Rightarrow> string \<Rightarrow> dom \<Rightarrow> dom option" where
  "SetAttribute_value a v s = upd_attribute a (\<lambda>x. x\<lparr>da_value := v\<rparr>) s"

definition SetAttribute_value_int :: "nat \<Rightarrow> int \<Rightarrow> dom \<Rightarrow> dom option" where
  "SetAttribute_value_int a v s = SetAttribute_value a (ToStr_int v) s"

definition SetAttribute_value_unsigned :: "nat \<Rightarrow> u32 \<Rightarrow> dom \<Rightarrow> dom option" where
  "SetAttribute_value_unsigned a v s = SetAttribute_value a (ToStr_unsigned v) s"

definition SetAttribute_value_bool :: "nat \<Rightarrow> bool \<Rightarrow> dom \<Rightarrow> dom option" where
  "SetAttribute_value_bool a v s = SetAttribute_value a (ToStr_bool v) s"

definition SetAttribute_value_double :: "('d \<Rightarrow> string) \<Rightarrow> nat \<Rightarrow> 'd \<Rightarrow> dom \<Rightarrow> dom option" where
  "SetAttribute_value_double fmt_g a v s = SetAttribute_value a (ToStr_float fmt_g v 200) s"

definition SetAttribute_value_float :: "('f \<Rightarrow> string) \<Rightarrow> nat \<Rightarrow> 'f \<Rightarrow> dom \<Rightarrow> dom option" where
  "SetAttribute_value_float fmt_g a v s = SetAttribute_value a (ToStr_float fmt_g v 200) s"

definition SetAttribute :: "nat \<Rightarrow> string \<Rightarrow> string \<Rightarrow> nat \<Rightarrow> dom \<Rightarrow> dom option" where
  "SetAttribute this name v new s = do { (a, s) \<leftarrow> FindOrCreateAttribute this name new s; SetAttribute_value a v s }"

definition SetAttribute_int :: "nat \<Rightarrow> string \<Rightarrow> int \<Rightarrow> nat \<Rightarrow> dom \<Rightarrow> dom option" where
  "SetAttribute_int this name v new s = do { (a, s) \<leftarrow> FindOrCreateAttribute this name new s; SetAttribute_value_int a v s }"

definition SetAttribute_unsigned :: "nat \<Rightarrow> string \<Rightarrow> u32 \<Rightarrow> nat \<Rightarrow> dom \<Rightarrow> dom option" where
  "SetAttribute_unsigned this name v new s = do { (a, s) \<leftarrow> FindOrCreateAttribute this name new s; SetAttribute_value_unsigned a v s }"

definition SetAttribute_bool :: "nat \<Rightarrow> string \<Rightarrow> bool \<Rightarrow> nat \<Rightarrow> dom \<Rightarrow> dom option" where
  "SetAttribute_bool this name v new s = do { (a, s) \<leftarrow> FindOrCreateAttribute this name new s; SetAttribute_value_bool a v s }"

definition SetAttribute_double :: "('d \<Rightarrow> string) \<Rightarrow> nat \<Rightarrow> string \<Rightarrow> 'd \<Rightarrow> nat \<Rightarrow> dom \<Rightarrow> dom option" where
  "SetAttribute_double fmt_g this name v new s = do { (a, s) \<leftarrow> FindOrCreateAttribute this name new s; SetAttribute_value_double fmt_g a v s }"

section \<open>Queries\<close>

text \<open>The error and the target, which keeps_rest its value \<open>v\<close> unless the conversion succeeds.\<close>

definition query :: "'a scanned \<Rightarrow> XMLError \<Rightarrow> 'a \<Rightarrow> (XMLError \<times> 'a) option" where
  "query r err v = (case r of NoMatch \<Rightarrow> Some (err, v) | Scanned x \<Rightarrow> Some (XML_NO_ERROR, x) | OutOfRange \<Rightarrow> None)"

definition query_float :: "'d option \<Rightarrow> XMLError \<Rightarrow> 'd \<Rightarrow> XMLError \<times> 'd" where
  "query_float r err v = (case r of None \<Rightarrow> (err, v) | Some x \<Rightarrow> (XML_NO_ERROR, x))"

definition QueryIntValue :: "nat \<Rightarrow> int \<Rightarrow> dom \<Rightarrow> (XMLError \<times> int) option" where
  "QueryIntValue a v s = do { x \<leftarrow> dm_attributes s a; query (ToInt (da_value x)) XML_WRONG_ATTRIBUTE_TYPE v }"

definition QueryUnsignedValue :: "nat \<Rightarrow> u32 \<Rightarrow> dom \<Rightarrow> (XMLError \<times> u32) option" where
  "QueryUnsignedValue a v s = do { x \<leftarrow> dm_attributes s a; query (ToUnsigned (da_value x)) XML_WRONG_ATTRIBUTE_TYPE v }"

definition QueryBoolValue :: "nat \<Rightarrow> bool \<Rightarrow> dom \<Rightarrow> (XMLError \<times> bool) option" where
  "QueryBoolValue a v s = do { x \<leftarrow> dm_attributes s a; query (ToBool (da_value x)) XML_WRONG_ATTRIBUTE_TYPE v }"

definition QueryFloatValue :: "(string \<Rightarrow> 'd option) \<Rightarrow> nat \<Rightarrow> 'd \<Rightarrow> dom \<Rightarrow> (XMLError \<times> 'd) option" where
  "QueryFloatValue sscanf_f a v s = do { x \<leftarrow> dm_attributes s a; Some (query_float (ToFloat sscanf_f (da_value x)) XML_WRONG_ATTRIBUTE_TYPE v) }"

definition QueryDoubleValue :: "(string \<Rightarrow> 'd option) \<Rightarrow> nat \<Rightarrow> 'd \<Rightarrow> dom \<Rightarrow> (XMLError \<times> 'd) option" where
  "QueryDoubleValue sscanf_lf a v s = do { x \<leftarrow> dm_attributes s a; Some (query_float (ToDouble sscanf_lf (da_value x)) XML_WRONG_ATTRIBUTE_TYPE v) }"

definition IntValue :: "nat \<Rightarrow> dom \<Rightarrow> int option" where
  "IntValue a s = map_option snd (QueryIntValue a 0 s)"

definition UnsignedValue :: "nat \<Rightarrow> dom \<Rightarrow> u32 option" where
  "UnsignedValue a s = map_option snd (QueryUnsignedValue a 0 s)"

definition BoolValue :: "nat \<Rightarrow> dom \<Rightarrow> bool option" where
  "BoolValue a s = map_option snd (QueryBoolValue a False s)"

definition DoubleValue :: "(string \<Rightarrow> 'd option) \<Rightarrow> 'd \<Rightarrow> nat \<Rightarrow> dom \<Rightarrow> 'd option" where
  "DoubleValue sscanf_lf zero a s = map_option snd (QueryDoubleValue sscanf_lf a zero s)"

definition FloatValue :: "(string \<Rightarrow> 'd option) \<Rightarrow> 'd \<Rightarrow> nat \<Rightarrow> dom \<Rightarrow> 'd option" where
  "FloatValue sscanf_f zero a s = map_option snd (QueryFloatValue sscanf_f a zero s)"

definition query_attribute :: "(nat \<Rightarrow> 'a \<Rightarrow> dom \<Rightarrow> (XMLError \<times> 'a) option) \<Rightarrow> nat \<Rightarrow> string \<Rightarrow> 'a \<Rightarrow> dom \<Rightarrow> (XMLError \<times> 'a) option" where
  "query_attribute queryValue this name v s = do {
     a \<leftarrow> FindAttribute this name s;
     case a of None \<Rightarrow> Some (XML_NO_ATTRIBUTE, v) | Some a \<Rightarrow> queryValue a v s }"

definition QueryIntAttribute :: "nat \<Rightarrow> string \<Rightarrow> int \<Rightarrow> dom \<Rightarrow> (XMLError \<times> int) option" where
  "QueryIntAttribute = query_attribute QueryIntValue"

definition QueryUnsignedAttribute :: "nat \<Rightarrow> string \<Rightarrow> u32 \<Rightarrow> dom \<Rightarrow> (XMLError \<times> u32) option" where
  "QueryUnsignedAttribute = query_attribute QueryUnsignedValue"

definition QueryBoolAttribute :: "nat \<Rightarrow> string \<Rightarrow> bool \<Rightarrow> dom \<Rightarrow> (XMLError \<times> bool) option" where
  "QueryBoolAttribute = query_attribute QueryBoolValue"

definition QueryDoubleAttribute :: "(string \<Rightarrow> 'd option) \<Rightarrow> nat \<Rightarrow> string \<Rightarrow> 'd \<Rightarrow> dom \<Rightarrow> (XMLError \<times> 'd) option" where
  "QueryDoubleAttribute sscanf_lf = query_attribute (QueryDoubleValue sscanf_lf)"

definition QueryFloatAttribute :: "(string \<Rightarrow> 'd option) \<Rightarrow> nat \<Rightarrow> string \<Rightarrow> 'd \<Rightarrow> dom \<Rightarrow> (XMLError \<times> 'd) option" where
  "QueryFloatAttribute sscanf_f = query_attribute (QueryFloatValue sscanf_f)"

definition IntAttribute :: "nat \<Rightarrow> string \<Rightarrow> dom \<Rightarrow> int option" where
  "IntAttribute this name s = map_option snd (QueryIntAttribute this name 0 s)"

definition UnsignedAttribute :: "nat \<Rightarrow> string \<Rightarrow> dom \<Rightarrow> u32 option" where
  "UnsignedAttribute this name s = map_option snd (QueryUnsignedAttribute this name 0 s)"

definition BoolAttribute :: "nat \<Rightarrow> string \<Rightarrow> dom \<Rightarrow> bool option" where
  "BoolAttribute this name s = map_option snd (QueryBoolAttribute this name False s)"

definition DoubleAttribute :: "(string \<Rightarrow> 'd option) \<Rightarrow> 'd \<Rightarrow> nat \<Rightarrow> string \<Rightarrow> dom \<Rightarrow> 'd option" where
  "DoubleAttribute sscanf_lf zero this name s = map_option snd (QueryDoubleAttribute sscanf_lf this name zero s)"

definition FloatAttribute :: "(string \<Rightarrow> 'd option) \<Rightarrow> 'd \<Rightarrow> nat \<Rightarrow> string \<Rightarrow> dom \<Rightarrow> 'd option" where
  "FloatAttribute sscanf_f zero this name s = map_option snd (QueryFloatAttribute sscanf_f this name zero s)"

text \<open>The text of an element: its first child, if this is a text.\<close>

definition GetText :: "nat \<Rightarrow> dom \<Rightarrow> string option option" where
  "GetText this s = do {
     n \<leftarrow> dm_nodes s this;
     case dn_firstChild n of
       None \<Rightarrow> Some None
     | Some c \<Rightarrow> do { m \<leftarrow> dm_nodes s c; Some (case dn_kind m of DText _ \<Rightarrow> Some (dn_value m) | _ \<Rightarrow> None) } }"

definition query_text :: "(string \<Rightarrow> XMLError \<Rightarrow> 'a \<Rightarrow> (XMLError \<times> 'a) option) \<Rightarrow> nat \<Rightarrow> 'a \<Rightarrow> dom \<Rightarrow> (XMLError \<times> 'a) option" where
  "query_text conv this v s = do {
     t \<leftarrow> GetText this s;
     case t of None \<Rightarrow> Some (XML_NO_TEXT_NODE, v) | Some t \<Rightarrow> conv t XML_CAN_NOT_CONVERT_TEXT v }"

definition QueryIntText :: "nat \<Rightarrow> int \<Rightarrow> dom \<Rightarrow> (XMLError \<times> int) option" where
  "QueryIntText = query_text (\<lambda>t. query (ToInt t))"

definition QueryUnsignedText :: "nat \<Rightarrow> u32 \<Rightarrow> dom \<Rightarrow> (XMLError \<times> u32) option" where
  "QueryUnsignedText = query_text (\<lambda>t. query (ToUnsigned t))"

definition QueryBoolText :: "nat \<Rightarrow> bool \<Rightarrow> dom \<Rightarrow> (XMLError \<times> bool) option" where
  "QueryBoolText = query_text (\<lambda>t. query (ToBool t))"

definition QueryDoubleText :: "(string \<Rightarrow> 'd option) \<Rightarrow> nat \<Rightarrow> 'd \<Rightarrow> dom \<Rightarrow> (XMLError \<times> 'd) option" where
  "QueryDoubleText sscanf_lf = query_text (\<lambda>t err v. Some (query_float (ToDouble sscanf_lf t) err v))"

definition QueryFloatText :: "(string \<Rightarrow> 'd option) \<Rightarrow> nat \<Rightarrow> 'd \<Rightarrow> dom \<Rightarrow> (XMLError \<times> 'd) option" where
  "QueryFloatText sscanf_f = query_text (\<lambda>t err v. Some (query_float (ToFloat sscanf_f t) err v))"

section \<open>Copies and comparison\<close>

text \<open>The attributes are read from \<open>src\<close> and set on \<open>element\<close>; \<open>news\<close> are the chunks for them.\<close>

fun clone_loop :: "dom \<Rightarrow> nat option \<Rightarrow> nat \<Rightarrow> nat list \<Rightarrow> dom \<Rightarrow> dom option" where
  "clone_loop src None element news s = Some s"
| "clone_loop src (Some a) element [] s = None"
| "clone_loop src (Some a) element (new # news) s = do {
     x \<leftarrow> dm_attributes src a;
     s \<leftarrow> SetAttribute element (da_name x) (da_value x) new s;
     clone_loop src (da_next x) element news s }"

text \<open>The node is read from \<open>src\<close> and its copy made in the document \<open>s\<close>, which may be the same one.\<close>

definition Element_ShallowClone :: "dom_node \<Rightarrow> dom \<Rightarrow> nat \<Rightarrow> nat list \<Rightarrow> dom \<Rightarrow> (nat option \<times> dom) option" where
  "Element_ShallowClone n src new news s = do {
     s \<leftarrow> NewElement (dn_value n) new s;
     s \<leftarrow> clone_loop src (dn_rootAttribute n) new news s;
     Some (Some new, s) }"

definition Text_ShallowClone :: "dom_node \<Rightarrow> bool \<Rightarrow> nat \<Rightarrow> dom \<Rightarrow> (nat option \<times> dom) option" where
  "Text_ShallowClone n cdata new s = do {
     s \<leftarrow> NewText (dn_value n) new s;
     s \<leftarrow> SetCData cdata new s;
     Some (Some new, s) }"

definition Comment_ShallowClone :: "dom_node \<Rightarrow> nat \<Rightarrow> dom \<Rightarrow> (nat option \<times> dom) option" where
  "Comment_ShallowClone n new s = map_option (Pair (Some new)) (NewComment (dn_value n) new s)"

definition Declaration_ShallowClone :: "dom_node \<Rightarrow> nat \<Rightarrow> dom \<Rightarrow> (nat option \<times> dom) option" where
  "Declaration_ShallowClone n new s = map_option (Pair (Some new)) (NewDeclaration (Some (dn_value n)) new s)"

definition Unknown_ShallowClone :: "dom_node \<Rightarrow> nat \<Rightarrow> dom \<Rightarrow> (nat option \<times> dom) option" where
  "Unknown_ShallowClone n new s = map_option (Pair (Some new)) (NewUnknown (dn_value n) new s)"

text \<open>The call of the virtual method; a document has no copy.\<close>

definition ShallowClone :: "nat \<Rightarrow> dom \<Rightarrow> nat \<Rightarrow> nat list \<Rightarrow> dom \<Rightarrow> (nat option \<times> dom) option" where
  "ShallowClone this src new news s = do {
     n \<leftarrow> dm_nodes src this;
     case dn_kind n of
       DDocument \<Rightarrow> Some (None, s)
     | DElement \<Rightarrow> Element_ShallowClone n src new news s
     | DText cdata \<Rightarrow> Text_ShallowClone n cdata new s
     | DComment \<Rightarrow> Comment_ShallowClone n new s
     | DDeclaration \<Rightarrow> Declaration_ShallowClone n new s
     | DUnknown \<Rightarrow> Unknown_ShallowClone n new s }"

partial_function (option) equal_values :: "dom \<Rightarrow> nat option \<Rightarrow> dom \<Rightarrow> nat option \<Rightarrow> bool option" where
  "equal_values s a s' b =
     (case a of
        None \<Rightarrow> Some (b = None)
      | Some p \<Rightarrow> (case b of
          None \<Rightarrow> Some False
        | Some q \<Rightarrow> (case dm_attributes s p of
            None \<Rightarrow> None
          | Some x \<Rightarrow> (case dm_attributes s' q of
              None \<Rightarrow> None
            | Some y \<Rightarrow> if \<not> StringEqual (da_value x) (da_value y) INT_MAX then Some False else equal_values s (da_next x) s' (da_next y)))))"

definition Element_ShallowEqual :: "dom_node \<Rightarrow> dom \<Rightarrow> dom_node \<Rightarrow> dom \<Rightarrow> bool option" where
  "Element_ShallowEqual n s m s' =
     (if dn_kind m = DElement \<and> StringEqual (dn_value m) (dn_value n) INT_MAX
      then equal_values s (dn_rootAttribute n) s' (dn_rootAttribute m) else Some False)"

definition Text_ShallowEqual :: "dom_node \<Rightarrow> dom_node \<Rightarrow> bool" where
  "Text_ShallowEqual n m \<longleftrightarrow> (case dn_kind m of DText _ \<Rightarrow> True | _ \<Rightarrow> False) \<and> StringEqual (dn_value m) (dn_value n) INT_MAX"

definition Comment_ShallowEqual :: "dom_node \<Rightarrow> dom_node \<Rightarrow> bool" where
  "Comment_ShallowEqual n m \<longleftrightarrow> dn_kind m = DComment \<and> StringEqual (dn_value m) (dn_value n) INT_MAX"

definition Declaration_ShallowEqual :: "dom_node \<Rightarrow> dom_node \<Rightarrow> bool" where
  "Declaration_ShallowEqual n m \<longleftrightarrow> dn_kind m = DDeclaration \<and> StringEqual (dn_value m) (dn_value n) INT_MAX"

definition Unknown_ShallowEqual :: "dom_node \<Rightarrow> dom_node \<Rightarrow> bool" where
  "Unknown_ShallowEqual n m \<longleftrightarrow> dn_kind m = DUnknown \<and> StringEqual (dn_value m) (dn_value n) INT_MAX"

definition ShallowEqual :: "nat \<Rightarrow> dom \<Rightarrow> nat \<Rightarrow> dom \<Rightarrow> bool option" where
  "ShallowEqual this s compare s' = do {
     n \<leftarrow> dm_nodes s this;
     m \<leftarrow> dm_nodes s' compare;
     case dn_kind n of
       DDocument \<Rightarrow> Some False
     | DElement \<Rightarrow> Element_ShallowEqual n s m s'
     | DText _ \<Rightarrow> Some (Text_ShallowEqual n m)
     | DComment \<Rightarrow> Some (Comment_ShallowEqual n m)
     | DDeclaration \<Rightarrow> Some (Declaration_ShallowEqual n m)
     | DUnknown \<Rightarrow> Some (Unknown_ShallowEqual n m) }"

section \<open>Handles\<close>

text \<open>A handle is a pointer that may be null.\<close>

type_synonym handle = "nat option"

definition via :: "(nat \<Rightarrow> dom \<Rightarrow> handle option) \<Rightarrow> handle \<Rightarrow> dom \<Rightarrow> handle option" where
  "via f h s = (case h of None \<Rightarrow> Some None | Some p \<Rightarrow> f p s)"

definition field :: "(dom_node \<Rightarrow> handle) \<Rightarrow> nat \<Rightarrow> dom \<Rightarrow> handle option" where
  "field f p s = map_option f (dm_nodes s p)"

definition handle_FirstChild :: "handle \<Rightarrow> dom \<Rightarrow> handle option" where
  "handle_FirstChild = via (field dn_firstChild)"

definition handle_FirstChildElement :: "string option \<Rightarrow> handle \<Rightarrow> dom \<Rightarrow> handle option" where
  "handle_FirstChildElement v = via (\<lambda>p. FirstChildElement p v)"

definition handle_LastChild :: "handle \<Rightarrow> dom \<Rightarrow> handle option" where
  "handle_LastChild = via (field dn_lastChild)"

definition handle_LastChildElement :: "string option \<Rightarrow> handle \<Rightarrow> dom \<Rightarrow> handle option" where
  "handle_LastChildElement v = via (\<lambda>p. LastChildElement p v)"

definition handle_PreviousSibling :: "handle \<Rightarrow> dom \<Rightarrow> handle option" where
  "handle_PreviousSibling = via (field dn_prev)"

definition handle_PreviousSiblingElement :: "string option \<Rightarrow> handle \<Rightarrow> dom \<Rightarrow> handle option" where
  "handle_PreviousSiblingElement v = via (\<lambda>p. PreviousSiblingElement p v)"

definition handle_NextSibling :: "handle \<Rightarrow> dom \<Rightarrow> handle option" where
  "handle_NextSibling = via (field dn_next)"

definition handle_NextSiblingElement :: "string option \<Rightarrow> handle \<Rightarrow> dom \<Rightarrow> handle option" where
  "handle_NextSiblingElement v = via (\<lambda>p. NextSiblingElement p v)"

definition as_kind :: "(dom_kind \<Rightarrow> bool) \<Rightarrow> nat \<Rightarrow> dom \<Rightarrow> handle option" where
  "as_kind P p s = map_option (\<lambda>n. if P (dn_kind n) then Some p else None) (dm_nodes s p)"

definition handle_ToElement :: "handle \<Rightarrow> dom \<Rightarrow> handle option" where
  "handle_ToElement = via (as_kind (\<lambda>k. k = DElement))"

definition handle_ToText :: "handle \<Rightarrow> dom \<Rightarrow> handle option" where
  "handle_ToText = via (as_kind (\<lambda>k. case k of DText _ \<Rightarrow> True | _ \<Rightarrow> False))"

definition handle_ToUnknown :: "handle \<Rightarrow> dom \<Rightarrow> handle option" where
  "handle_ToUnknown = via (as_kind (\<lambda>k. k = DUnknown))"

definition handle_ToDeclaration :: "handle \<Rightarrow> dom \<Rightarrow> handle option" where
  "handle_ToDeclaration = via (as_kind (\<lambda>k. k = DDeclaration))"

section \<open>The attributes are an association list\<close>

primrec attribute_seg :: "(nat \<Rightarrow> dom_attribute option) \<Rightarrow> nat option \<Rightarrow> nat list \<Rightarrow> nat option \<Rightarrow> bool" where
  "attribute_seg A r [] q \<longleftrightarrow> r = q"
| "attribute_seg A r (a # as) q \<longleftrightarrow> r = Some a \<and> (\<exists>x. A a = Some x \<and> attribute_seg A (da_next x) as q)"

lemma attribute_path_seg: "attribute_path A r as \<longleftrightarrow> attribute_seg A r as None"
  by (induction as arbitrary: r) auto

lemma attribute_seg_append: "attribute_seg A r (us @ vs) q \<longleftrightarrow> (\<exists>m. attribute_seg A r us m \<and> attribute_seg A m vs q)"
  by (induction us arbitrary: r) auto

lemma attribute_seg_frame [simp]: "a \<notin> set as \<Longrightarrow> attribute_seg (A(a := v)) r as q = attribute_seg A r as q"
  by (induction as arbitrary: r) auto

lemma attribute_seg_member: "attribute_seg A r as q \<Longrightarrow> a \<in> set as \<Longrightarrow> A a \<noteq> None"
  by (induction as arbitrary: r) auto

definition pair_of :: "dom \<Rightarrow> nat \<Rightarrow> string \<times> string" where
  "pair_of s a = (case dm_attributes s a of None \<Rightarrow> ([], []) | Some x \<Rightarrow> (da_name x, da_value x))"

definition attr_named :: "dom \<Rightarrow> string \<Rightarrow> nat \<Rightarrow> bool" where
  "attr_named s name a \<longleftrightarrow> fst (pair_of s a) = name"

definition proper_names :: "dom \<Rightarrow> nat list \<Rightarrow> bool" where
  "proper_names s as \<longleftrightarrow> (\<forall>a \<in> set as. proper_str (fst (pair_of s a)))"

lemma pair_of_node: "dm_attributes s a = Some x \<Longrightarrow> pair_of s a = (da_name x, da_value x)"
  by (simp add: pair_of_def)

lemma attr_named_node: "dm_attributes s a = Some x \<Longrightarrow> attr_named s name a \<longleftrightarrow> da_name x = name"
  by (simp add: attr_named_def pair_of_def)

lemma find_attribute_seg:
  "attribute_seg (dm_attributes s) r as None \<Longrightarrow> proper_names s as \<Longrightarrow> proper_str name \<Longrightarrow> find_attribute s r name = Some (find (attr_named s name) as)"
proof (induction as arbitrary: r)
  case Nil
  then show ?case by (subst find_attribute.simps) simp
next
  case (Cons a as)
  then show ?case
    by (subst find_attribute.simps) (auto simp: attr_named_node pair_of_node proper_names_def StringEqual_proper)
qed

lemma last_attribute_pass:
  "attribute_seg (dm_attributes s) r us q \<Longrightarrow> proper_names s us \<Longrightarrow> proper_str name \<Longrightarrow> \<forall>a \<in> set us. \<not> attr_named s name a \<Longrightarrow>
   last_attribute s l r name = last_attribute s (endp l us) q name"
proof (induction us arbitrary: r l)
  case (Cons a us)
  then obtain x where x: "r = Some a" "dm_attributes s a = Some x" "attribute_seg (dm_attributes s) (da_next x) us q" by auto
  have "\<not> StringEqual (da_name x) name INT_MAX" using Cons.prems x(2) by (auto simp: attr_named_def pair_of_def proper_names_def StringEqual_proper)
  then have "last_attribute s l r name = last_attribute s (Some a) (da_next x) name" using x by (subst last_attribute.simps) simp
  then show ?case using Cons.IH [OF x(3)] Cons.prems by (simp add: proper_names_def)
qed simp

lemma delete_loop_pass:
  "attribute_seg (dm_attributes s) r us q \<Longrightarrow> proper_names s us \<Longrightarrow> proper_str name \<Longrightarrow> \<forall>a \<in> set us. \<not> attr_named s name a \<Longrightarrow>
   delete_loop p name l r s = delete_loop p name (endp l us) q s"
proof (induction us arbitrary: r l)
  case (Cons a us)
  then obtain x where x: "r = Some a" "dm_attributes s a = Some x" "attribute_seg (dm_attributes s) (da_next x) us q" by auto
  have "\<not> StringEqual name (da_name x) INT_MAX" using Cons.prems x(2) by (auto simp: attr_named_def pair_of_def proper_names_def StringEqual_proper)
  then have "delete_loop p name l r s = delete_loop p name (Some a) (da_next x) s" using x by (subst delete_loop.simps) simp
  then show ?case using Cons.IH [OF x(3)] Cons.prems by (simp add: proper_names_def)
qed simp

lemma owned_path: "owned s T \<Longrightarrow> dm_nodes s p = Some n \<Longrightarrow> attribute_seg (dm_attributes s) (dn_rootAttribute n) (T p) None \<and> distinct (T p)"
  by (simp add: owned_def attribute_path_seg)

lemma owned_disjoint: "owned s T \<Longrightarrow> q \<noteq> p \<Longrightarrow> a \<in> set (T p) \<Longrightarrow> a \<notin> set (T q)"
  unfolding owned_def by blast

lemma owned_not_new: "owned s T \<Longrightarrow> dm_attributes s new = None \<Longrightarrow> new \<notin> set (T q)"
proof
  assume a: "owned s T" "dm_attributes s new = None" "new \<in> set (T q)"
  then obtain n where "dm_nodes s q = Some n" by (cases "dm_nodes s q") (auto simp: owned_def)
  then show False using owned_path [OF a(1)] attribute_seg_member a(2,3) by blast
qed

text \<open>A change of the attributes of one element.\<close>

lemma owned_change:
  assumes "owned s T" "dm_nodes s' p = Some n'" "attribute_seg (dm_attributes s') (dn_rootAttribute n') as None" "distinct as"
    "\<And>q. q \<noteq> p \<Longrightarrow> set as \<inter> set (T q) = {}" "\<And>q. q \<noteq> p \<Longrightarrow> dm_nodes s' q = dm_nodes s q"
    "\<And>q a. q \<noteq> p \<Longrightarrow> a \<in> set (T q) \<Longrightarrow> dm_attributes s' a = dm_attributes s a"
  shows "owned s' (T(p := as))"
proof -
  have "attribute_path (dm_attributes s') r (T q) = attribute_path (dm_attributes s) r (T q)" if "q \<noteq> p" for q r
    using assms(7) [OF that] by (rule attribute_path_frame)
  then show ?thesis using assms(1-6) by (auto simp: owned_def attribute_path_seg)
qed

text \<open>\<open>s'\<close> differs from \<open>s\<close> only in the attributes of \<open>p\<close>.\<close>

definition shape_of :: "dom_node \<Rightarrow> dom_kind \<times> string \<times> (nat option \<times> nat option \<times> nat option) \<times> nat option \<times> nat option" where
  "shape_of n = (dn_kind n, dn_value n, link_of n, ends_of n)"

definition same_but :: "nat \<Rightarrow> (nat \<Rightarrow> nat list) \<Rightarrow> dom \<Rightarrow> dom \<Rightarrow> bool" where
  "same_but p T s s' \<longleftrightarrow> (\<forall>x. map_option shape_of (dm_nodes s' x) = map_option shape_of (dm_nodes s x)) \<and>
     (\<forall>q. q \<noteq> p \<longrightarrow> map (pair_of s') (T q) = map (pair_of s) (T q))"

lemma update_present: "\<forall>x \<in> set xs. fst x \<noteq> k \<Longrightarrow> AList.update k v (xs @ (k, w) # ys) = xs @ (k, v) # ys"
  by (induction xs) auto

lemma update_absent: "\<forall>x \<in> set xs. fst x \<noteq> k \<Longrightarrow> AList.update k v xs = xs @ [(k, v)]"
  by (induction xs) auto

lemma seg_next_cong:
  "(\<And>a. a \<in> set as \<Longrightarrow> map_option da_next (A' a) = map_option da_next (A a)) \<Longrightarrow> attribute_seg A r as q \<Longrightarrow> attribute_seg A' r as q"
proof (induction as arbitrary: r)
  case (Cons a as)
  have "map_option da_next (A' a) = map_option da_next (A a)" using Cons.prems(1) by simp
  then show ?case using Cons.IH Cons.prems by (cases "A' a") auto
qed simp

lemma dom_segment:
  assumes "\<And>a. a \<notin> insert b B \<Longrightarrow> A' a = A a" "A' b \<noteq> None" "\<And>a. a \<in> B \<Longrightarrow> A a \<noteq> None" "\<And>a. a \<in> B \<Longrightarrow> A' a \<noteq> None"
  shows "dom A' = insert b (dom A)"
proof -
  have "A' a \<noteq> None \<longleftrightarrow> a = b \<or> A a \<noteq> None" for a using assms(1) [of a] assms(2) assms(3,4) [of a] by (cases "a \<in> insert b B") auto
  then show ?thesis by (auto simp: dom_def)
qed

lemma SetAttribute_present:
  assumes "owned s T" "dm_nodes s p = Some n" "proper_names s (T p)" "proper_str name" "T p = us @ a # vs" "\<forall>b \<in> set us. \<not> attr_named s name b" "attr_named s name a"
  shows "\<exists>s'. SetAttribute p name v new s = Some s' \<and> owned s' (T(p := T p)) \<and>
    map (pair_of s') (T p) = AList.update name v (map (pair_of s) (T p)) \<and> same_but p T s s' \<and> dom (dm_attributes s') = dom (dm_attributes s)"
proof -
  note path = owned_path [OF assms(1,2)]
  obtain x where x: "dm_attributes s a = Some x" using path assms(5) attribute_seg_member [of "dm_attributes s"] by fastforce
  have name: "da_name x = name" using assms(7) x by (simp add: attr_named_node)
  let ?s = "s\<lparr>dm_attributes := (dm_attributes s)(a \<mapsto> x\<lparr>da_value := v\<rparr>)\<rparr>"
  have "last_attribute s None (dn_rootAttribute n) name = last_attribute s (endp None us) (Some a) name"
    using path assms(3,4,6) by (intro last_attribute_pass) (auto simp: assms(5) attribute_seg_append proper_names_def)
  also have "\<dots> = Some (endp None us, Some a)" using x name assms(4) by (subst last_attribute.simps) (simp add: StringEqual_proper)
  finally have "SetAttribute p name v new s = Some ?s"
    using assms(2) x by (simp add: SetAttribute_def FindOrCreateAttribute_def SetAttribute_value_def upd_attribute_def)
  moreover have notin: "a \<notin> set (T q)" if "q \<noteq> p" for q using owned_disjoint [OF assms(1) that, of a] assms(5) by simp
  have "owned ?s (T(p := T p))"
  proof (rule owned_change [OF assms(1)])
    show "attribute_seg (dm_attributes ?s) (dn_rootAttribute n) (T p) None" by (rule seg_next_cong [OF _ conjunct1 [OF path]]) (simp add: x)
    show "\<And>q b. q \<noteq> p \<Longrightarrow> b \<in> set (T q) \<Longrightarrow> dm_attributes ?s b = dm_attributes s b" using notin by auto
  qed (use assms(1,2) path in \<open>auto simp: owned_def\<close>)
  moreover have other: "pair_of ?s b = pair_of s b" if "b \<noteq> a" for b using that by (simp add: pair_of_def)
  have "map (pair_of ?s) (T p) = AList.update name v (map (pair_of s) (T p))"
  proof -
    have "map (pair_of ?s) us = map (pair_of s) us" "map (pair_of ?s) vs = map (pair_of s) vs" using path assms(5) by (auto intro!: other)
    moreover have "pair_of s a = (name, da_value x)" "pair_of ?s a = (name, v)" using x name by (simp_all add: pair_of_def)
    moreover have "\<forall>y \<in> set (map (pair_of s) us). fst y \<noteq> name" using assms(6) by (auto simp: attr_named_def)
    ultimately show ?thesis using update_present [of "map (pair_of s) us" name v] by (simp add: assms(5))
  qed
  moreover have "same_but p T s ?s" using notin other by (auto simp: same_but_def) metis
  moreover have "dom (dm_attributes ?s) = dom (dm_attributes s)" using x by auto
  ultimately show ?thesis by blast
qed

lemma SetAttribute_absent:
  assumes "owned s T" "dm_nodes s p = Some n" "proper_names s (T p)" "proper_str name" "\<forall>b \<in> set (T p). \<not> attr_named s name b" "dm_attributes s new = None"
  shows "\<exists>s'. SetAttribute p name v new s = Some s' \<and> owned s' (T(p := T p @ [new])) \<and>
    map (pair_of s') (T p @ [new]) = AList.update name v (map (pair_of s) (T p)) \<and> same_but p T s s' \<and> dom (dm_attributes s') = insert new (dom (dm_attributes s))"
proof -
  note path = owned_path [OF assms(1,2)]
  note new = owned_not_new [OF assms(1,6)]
  have upd: "AList.update name v (map (pair_of s) (T p)) = map (pair_of s) (T p) @ [(name, v)]"
    using assms(5) by (intro update_absent) (auto simp: attr_named_def)
  have "last_attribute s None (dn_rootAttribute n) name = last_attribute s (endp None (T p)) None name"
    using path assms(3-5) by (intro last_attribute_pass) auto
  also have "\<dots> = Some (endp None (T p), None)" by (subst last_attribute.simps) simp
  finally have last: "last_attribute s None (dn_rootAttribute n) name = Some (endp None (T p), None)" .
  note defs = SetAttribute_def FindOrCreateAttribute_def SetAttribute_value_def upd_attribute_def upd_def count_untracked_def
  let ?x = "\<lparr>da_name = name, da_value = v, da_next = None\<rparr>"
  have "\<exists>s' n'. SetAttribute p name v new s = Some s' \<and> dm_nodes s' = (dm_nodes s)(p \<mapsto> n') \<and> shape_of n' = shape_of n \<and>
      (\<forall>a. a \<notin> insert new (set (T p)) \<longrightarrow> dm_attributes s' a = dm_attributes s a) \<and> (\<forall>a \<in> set (T p). pair_of s' a = pair_of s a) \<and>
      pair_of s' new = (name, v) \<and> attribute_seg (dm_attributes s') (dn_rootAttribute n') (T p @ [new]) None"
  proof (cases "T p" rule: rev_cases)
    case Nil
    then show ?thesis using assms(2,6) last by (auto simp: defs pair_of_def shape_of_def link_of_def ends_of_def)
  next
    case (snoc us l)
    obtain y where y: "dm_attributes s l = Some y" "da_next y = None" "attribute_seg (dm_attributes s) (dn_rootAttribute n) us (Some l)"
      using path snoc by (auto simp: attribute_seg_append)
    let ?s = "s\<lparr>dm_attributes := (dm_attributes s)(l \<mapsto> y\<lparr>da_next := Some new\<rparr>, new \<mapsto> ?x)\<rparr>"
    have ne: "new \<noteq> l" "new \<notin> set us" "l \<notin> set us" using new [of p] path snoc by auto
    have set: "\<exists>s'. SetAttribute p name v new s = Some s' \<and> dm_nodes s' = dm_nodes s \<and> dm_attributes s' = dm_attributes ?s"
      using assms(2) last snoc y(1) ne by (auto simp: defs fun_upd_twist)
    then obtain s' where s': "SetAttribute p name v new s = Some s'" "dm_nodes s' = (dm_nodes s)(p \<mapsto> n)" "dm_attributes s' = dm_attributes ?s"
      using assms(2) by (auto simp: fun_upd_idem)
    have "attribute_seg (dm_attributes s') (dn_rootAttribute n) (T p @ [new]) None" using y ne snoc s'(3) by (auto simp: attribute_seg_append)
    moreover have "\<forall>a \<in> set (T p). pair_of s' a = pair_of s a" "pair_of s' new = (name, v)" using y(1) new [of p] ne s'(3) by (auto simp: pair_of_def)
    ultimately show ?thesis using s' snoc by (intro exI [of _ s'] exI [of _ n]) auto
  qed
  then obtain s' n' where s': "SetAttribute p name v new s = Some s'" "dm_nodes s' = (dm_nodes s)(p \<mapsto> n')" "shape_of n' = shape_of n"
    "\<And>a. a \<notin> insert new (set (T p)) \<Longrightarrow> dm_attributes s' a = dm_attributes s a" "\<forall>a \<in> set (T p). pair_of s' a = pair_of s a" "pair_of s' new = (name, v)"
    "attribute_seg (dm_attributes s') (dn_rootAttribute n') (T p @ [new]) None" by blast
  have notin: "a \<notin> insert new (set (T p))" if "q \<noteq> p" "a \<in> set (T q)" for a q using owned_disjoint [OF assms(1), of p q a] new [of q] that by auto
  have "owned s' (T(p := T p @ [new]))"
    by (rule owned_change [OF assms(1) _ s'(7)]) (use s'(2,4) path new notin in auto)
  moreover have "same_but p T s s'" using s'(2-4) assms(2) notin by (auto simp: same_but_def pair_of_def)
  moreover have "map (pair_of s') (T p @ [new]) = AList.update name v (map (pair_of s) (T p))" using s'(5,6) upd by simp
  moreover have "dom (dm_attributes s') = insert new (dom (dm_attributes s))"
    by (rule dom_segment [OF s'(4)]) (use attribute_seg_member [OF s'(7)] attribute_seg_member [OF conjunct1 [OF path]] in auto)
  ultimately show ?thesis using s'(1) by blast
qed

lemma DeleteAttribute_present:
  assumes "owned s T" "dm_nodes s p = Some n" "proper_names s (T p)" "proper_str name" "T p = us @ a # vs" "\<forall>b \<in> set us. \<not> attr_named s name b" "attr_named s name a"
  shows "\<exists>s'. DeleteAttribute p name s = Some s' \<and> owned s' (T(p := us @ vs)) \<and> map (pair_of s') (us @ vs) = map (pair_of s) (us @ vs) \<and>
    same_but p T s s' \<and> dm_attributes s' a = None \<and> dom (dm_attributes s') = dom (dm_attributes s) - {a}"
proof -
  note path = owned_path [OF assms(1,2)]
  obtain x where x: "dm_attributes s a = Some x" "attribute_seg (dm_attributes s) (dn_rootAttribute n) us (Some a)" "attribute_seg (dm_attributes s) (da_next x) vs None"
    using path assms(5) by (auto simp: attribute_seg_append)
  have ne: "a \<notin> set us" "a \<notin> set vs" "set us \<inter> set vs = {}" using path assms(5) by auto
  have "StringEqual name (da_name x) INT_MAX" using assms(3-5,7) x(1) by (auto simp: attr_named_node proper_names_def pair_of_node StringEqual_proper)
  then have loop: "delete_loop p name l (Some a) s = (case l of
        Some q \<Rightarrow> upd_attribute q (\<lambda>y. y\<lparr>da_next := da_next x\<rparr>) s
      | None \<Rightarrow> upd p (\<lambda>n. n\<lparr>dn_rootAttribute := da_next x\<rparr>) s) \<bind> DELETE_ATTRIBUTE a" for l
    using x(1) by (subst delete_loop.simps) simp
  have del: "DeleteAttribute p name s = delete_loop p name (endp None us) (Some a) s"
    using assms(2-6) x(2) delete_loop_pass [OF x(2), of name p None] by (auto simp: DeleteAttribute_def proper_names_def)
  have "\<exists>s' n'. DeleteAttribute p name s = Some s' \<and> dm_nodes s' = (dm_nodes s)(p \<mapsto> n') \<and> shape_of n' = shape_of n \<and> dm_attributes s' a = None \<and>
      (\<forall>b. b \<notin> set (T p) \<longrightarrow> dm_attributes s' b = dm_attributes s b) \<and> (\<forall>b \<in> set (us @ vs). pair_of s' b = pair_of s b) \<and>
      attribute_seg (dm_attributes s') (dn_rootAttribute n') (us @ vs) None"
  proof (cases us rule: rev_cases)
    case Nil
    then show ?thesis using assms(2,5) x ne by (auto simp: del loop upd_def DELETE_ATTRIBUTE_def pair_of_def shape_of_def link_of_def ends_of_def)
  next
    case (snoc ws l)
    obtain y where y: "dm_attributes s l = Some y" "attribute_seg (dm_attributes s) (dn_rootAttribute n) ws (Some l)" using x(2) snoc by (auto simp: attribute_seg_append)
    have ne': "l \<noteq> a" "l \<notin> set ws" "l \<notin> set vs" using path assms(5) snoc by auto
    let ?s = "s\<lparr>dm_attributes := (dm_attributes s)(l \<mapsto> y\<lparr>da_next := da_next x\<rparr>, a := None)\<rparr>"
    have "DeleteAttribute p name s = Some ?s" using x(1) y(1) ne' snoc by (simp add: del loop upd_attribute_def DELETE_ATTRIBUTE_def)
    moreover have "dm_nodes ?s = (dm_nodes s)(p \<mapsto> n)" using assms(2) by (simp add: fun_upd_idem)
    moreover have "\<forall>b \<in> set (us @ vs). pair_of ?s b = pair_of s b" using y(1) ne by (auto simp: pair_of_def)
    moreover have "attribute_seg (dm_attributes ?s) (dn_rootAttribute n) (us @ vs) None" using y x(3) ne ne' snoc by (auto simp: attribute_seg_append)
    ultimately show ?thesis using assms(5) snoc by (intro exI [of _ ?s] exI [of _ n]) auto
  qed
  then obtain s' n' where s': "DeleteAttribute p name s = Some s'" "dm_nodes s' = (dm_nodes s)(p \<mapsto> n')" "shape_of n' = shape_of n" "dm_attributes s' a = None"
    "\<And>b. b \<notin> set (T p) \<Longrightarrow> dm_attributes s' b = dm_attributes s b" "\<forall>b \<in> set (us @ vs). pair_of s' b = pair_of s b"
    "attribute_seg (dm_attributes s') (dn_rootAttribute n') (us @ vs) None" by blast
  have notin: "b \<notin> set (T p)" if "q \<noteq> p" "b \<in> set (T q)" for b q using owned_disjoint [OF assms(1), of p q b] that by auto
  have "owned s' (T(p := us @ vs))"
    by (rule owned_change [OF assms(1) _ s'(7)]) (use s'(2,5) path assms(5) notin in \<open>auto simp: disjoint_iff\<close>)
  moreover have "same_but p T s s'" using s'(2,3,5) assms(2) notin by (auto simp: same_but_def pair_of_def)
  moreover have "map (pair_of s') (us @ vs) = map (pair_of s) (us @ vs)" using s'(6) by simp
  moreover have "dom (dm_attributes s) = insert a (dom (dm_attributes s'))"
    by (rule dom_segment [of a "set (us @ vs)"]) (use s'(5) attribute_seg_member [OF s'(7)] attribute_seg_member [OF conjunct1 [OF path]] assms(5) in auto)
  then have "dom (dm_attributes s') = dom (dm_attributes s) - {a}" using s'(4) by auto
  ultimately show ?thesis using s'(1,4) by blast
qed

lemma map_of_find: "map_of (map (pair_of s) as) name = map_option (\<lambda>a. snd (pair_of s a)) (find (attr_named s name) as)"
proof (induction as)
  case (Cons a as)
  then show ?case by (cases "pair_of s a") (simp add: attr_named_def)
qed simp

lemma FindAttribute_owned:
  assumes "owned s T" "dm_nodes s p = Some n" "proper_names s (T p)" "proper_str name"
  shows "FindAttribute p name s = Some (find (attr_named s name) (T p))"
  using find_attribute_seg [of s "dn_rootAttribute n" "T p" name] owned_path [OF assms(1,2)] assms by (simp add: FindAttribute_def)

lemma find_present:
  assumes "owned s T" "dm_nodes s p = Some n" "find P (T p) = Some a"
  obtains x where "dm_attributes s a = Some x"
proof -
  have "a \<in> set (T p)" using assms(3) by (auto simp: find_Some_iff)
  then have "dm_attributes s a \<noteq> None" using attribute_seg_member owned_path [OF assms(1,2)] by blast
  then show ?thesis using that by blast
qed

text \<open>Every query of an attribute depends on the association list only.\<close>

lemma query_attribute_alist:
  assumes "owned s T" "dm_nodes s p = Some n" "proper_names s (T p)" "proper_str name"
    "\<And>a x. dm_attributes s a = Some x \<Longrightarrow> queryValue a v s = conv (da_value x)"
  shows "query_attribute queryValue p name v s = (case map_of (map (pair_of s) (T p)) name of None \<Rightarrow> Some (XML_NO_ATTRIBUTE, v) | Some t \<Rightarrow> conv t)"
proof (cases "find (attr_named s name) (T p)")
  case (Some a)
  then obtain x where "dm_attributes s a = Some x" using find_present [OF assms(1,2)] by blast
  then show ?thesis using Some FindAttribute_owned [OF assms(1-4)] assms(5) by (simp add: query_attribute_def map_of_find pair_of_node)
qed (use FindAttribute_owned [OF assms(1-4)] in \<open>simp add: query_attribute_def map_of_find\<close>)

lemma Attribute_alist:
  assumes "owned s T" "dm_nodes s p = Some n" "proper_names s (T p)" "proper_str name"
  shows "Attribute p name None s = Some (map_of (map (pair_of s) (T p)) name)"
proof (cases "find (attr_named s name) (T p)")
  case (Some a)
  then obtain x where "dm_attributes s a = Some x" using find_present [OF assms(1,2)] by blast
  then show ?thesis using Some FindAttribute_owned [OF assms] by (simp add: Attribute_def map_of_find pair_of_node)
qed (use FindAttribute_owned [OF assms] in \<open>simp add: Attribute_def map_of_find\<close>)

lemma SetAttribute_alist:
  assumes "owned s T" "dm_nodes s p = Some n" "proper_names s (T p)" "proper_str name" "dm_attributes s new = None"
  shows "\<exists>s' as. SetAttribute p name v new s = Some s' \<and> owned s' (T(p := as)) \<and>
    map (pair_of s') as = AList.update name v (map (pair_of s) (T p)) \<and> same_but p T s s'"
proof (cases "\<exists>a \<in> set (T p). attr_named s name a")
  case True
  then obtain us a vs where "T p = us @ a # vs" "\<forall>b \<in> set us. \<not> attr_named s name b" "attr_named s name a" using split_list_first_prop [of "T p" "attr_named s name"] by metis
  then show ?thesis using SetAttribute_present [OF assms(1-4)] by blast
qed (use SetAttribute_absent [OF assms(1-4) _ assms(5)] in blast)

lemma delete_alist: "distinct (map fst (xs @ (k, w) # ys)) \<Longrightarrow> AList.delete k (xs @ (k, w) # ys) = xs @ ys"
  by (induction xs) (auto simp: AList.delete_id)

lemma DeleteAttribute_alist:
  assumes "owned s T" "dm_nodes s p = Some n" "proper_names s (T p)" "proper_str name" "distinct (map (fst \<circ> pair_of s) (T p))"
  shows "\<exists>s' as. DeleteAttribute p name s = Some s' \<and> owned s' (T(p := as)) \<and>
    map (pair_of s') as = AList.delete name (map (pair_of s) (T p)) \<and> same_but p T s s'"
proof (cases "\<exists>a \<in> set (T p). attr_named s name a")
  case True
  then obtain us a vs where a: "T p = us @ a # vs" "\<forall>b \<in> set us. \<not> attr_named s name b" "attr_named s name a" using split_list_first_prop [of "T p" "attr_named s name"] by metis
  have "AList.delete name (map (pair_of s) (T p)) = map (pair_of s) (us @ vs)"
    using delete_alist [of "map (pair_of s) us" name "snd (pair_of s a)" "map (pair_of s) vs"] a(1,3) assms(5)
    by (cases "pair_of s a") (simp add: attr_named_def)
  then show ?thesis using DeleteAttribute_present [OF assms(1-4) a] by metis
next
  case False
  have "DeleteAttribute p name s = delete_loop p name (endp None (T p)) None s"
    using assms(2-4) False owned_path [OF assms(1,2)] delete_loop_pass [of s "dn_rootAttribute n" "T p" None name p None] by (simp add: DeleteAttribute_def)
  also have "\<dots> = Some s" by (subst delete_loop.simps) simp
  finally have "DeleteAttribute p name s = Some s" .
  moreover have "AList.delete name (map (pair_of s) (T p)) = map (pair_of s) (T p)" using False by (intro AList.delete_id) (auto simp: attr_named_def)
  ultimately show ?thesis using assms(1) by (intro exI [of _ s] exI [of _ "T p"]) (simp add: same_but_def)
qed

section \<open>Properties\<close>

text \<open>C34: The attributes of an element behave as an association list with different keys: reading is its lookup,
  setting its update and deleting its removal; the store stays consistent, and the other elements and all
  links stay as they are.\<close>

theorem attributes_refine_alist:
  assumes "owned s T" "dm_nodes s p = Some n" "proper_names s (T p)" "proper_str name" "dm_attributes s new = None"
    "L = map (pair_of s) (T p)" "distinct (map fst L)"
  shows "Attribute p name None s = Some (map_of L name) \<and>
    (\<exists>s' as. SetAttribute p name v new s = Some s' \<and> owned s' (T(p := as)) \<and> map (pair_of s') as = AList.update name v L \<and>
       distinct (map fst (AList.update name v L)) \<and> same_but p T s s') \<and>
    (\<exists>s' as. DeleteAttribute p name s = Some s' \<and> owned s' (T(p := as)) \<and> map (pair_of s') as = AList.delete name L \<and> same_but p T s s')"
  using Attribute_alist [OF assms(1-4)] SetAttribute_alist [OF assms(1-5), of v] DeleteAttribute_alist [OF assms(1-4)] assms(6,7)
    distinct_update [of L name v] by simp

text \<open>On the document with one element.\<close>

lemma demo_names: "proper_names demo_dom [7]" "map (pair_of demo_dom) [7] = [(''k'', ''v'')]" "proper_str ''k''" "proper_str ''n''"
  by (simp_all add: proper_names_def pair_of_def demo_dom_def proper_str_def NUL_def INT_MAX_def)

theorem attributes_refine_alist_witness:
  "Attribute 1 ''k'' None demo_dom = Some (Some ''v'') \<and> (\<exists>s' a. SetAttribute 1 ''k'' ''w'' 8 demo_dom = Some s' \<and> pair_of s' a = (''k'', ''w''))"
proof -
  have "\<exists>n. dm_nodes demo_dom 1 = Some n" "dm_attributes demo_dom 8 = None" by (simp_all add: demo_dom_def)
  then obtain n where "dm_nodes demo_dom 1 = Some n" "dm_attributes demo_dom 8 = None" by blast
  then show ?thesis
    using attributes_refine_alist [OF demo_dom_owned, of 1 n "''k''" 8 "[(''k'', ''v'')]" "''w''"] demo_names by auto
qed

lemma same_but_node: "same_but p T s s' \<Longrightarrow> dm_nodes s q = Some n \<Longrightarrow> \<exists>n'. dm_nodes s' q = Some n' \<and> shape_of n' = shape_of n"
  unfolding same_but_def by (metis (no_types, lifting) map_option_eq_Some)

lemma proper_names_image: "proper_names s as \<longleftrightarrow> (\<forall>k \<in> fst ` pair_of s ` set as. proper_str k)"
  by (auto simp: proper_names_def)

lemma set_then_query:
  assumes "owned s T" "dm_nodes s p = Some n" "proper_names s (T p)" "proper_str name" "dm_attributes s new = None"
    "\<And>a x s. dm_attributes s a = Some x \<Longrightarrow> queryValue a v s = conv (da_value x)"
  shows "\<exists>s'. SetAttribute p name t new s = Some s' \<and> query_attribute queryValue p name v s' = conv t"
proof -
  obtain s' as where s': "SetAttribute p name t new s = Some s'" "owned s' (T(p := as))" "map (pair_of s') as = AList.update name t (map (pair_of s) (T p))"
    "same_but p T s s'" using SetAttribute_alist [OF assms(1-5)] by blast
  obtain n' where n': "dm_nodes s' p = Some n'" using same_but_node [OF s'(4) assms(2)] by blast
  have "fst ` pair_of s' ` set as = insert name (fst ` pair_of s ` set (T p))"
    using arg_cong [OF s'(3), of "\<lambda>L. fst ` set L"] by (simp add: dom_update)
  then have "proper_names s' as" using assms(3,4) unfolding proper_names_image by simp
  then have "query_attribute queryValue p name v s' = conv t"
    using query_attribute_alist [OF s'(2) n' _ assms(4), of queryValue v conv] assms(6) s'(3) by (simp add: update_conv)
  then show ?thesis using s'(1) by blast
qed

lemma delete_then_query:
  assumes "owned s T" "dm_nodes s p = Some n" "proper_names s (T p)" "proper_str name" "distinct (map (fst \<circ> pair_of s) (T p))"
    "\<And>a x s. dm_attributes s a = Some x \<Longrightarrow> queryValue a v s = conv (da_value x)"
  shows "\<exists>s'. DeleteAttribute p name s = Some s' \<and> query_attribute queryValue p name v s' = Some (XML_NO_ATTRIBUTE, v)"
proof -
  obtain s' as where s': "DeleteAttribute p name s = Some s'" "owned s' (T(p := as))" "map (pair_of s') as = AList.delete name (map (pair_of s) (T p))"
    "same_but p T s s'" using DeleteAttribute_alist [OF assms(1-5)] by blast
  obtain n' where n': "dm_nodes s' p = Some n'" using same_but_node [OF s'(4) assms(2)] by blast
  have "fst ` pair_of s' ` set as \<subseteq> fst ` pair_of s ` set (T p)"
    using arg_cong [OF s'(3), of "\<lambda>L. fst ` set L"] by (auto simp: AList.delete_eq)
  then have "proper_names s' as" using assms(3) unfolding proper_names_image by blast
  then have "query_attribute queryValue p name v s' = Some (XML_NO_ATTRIBUTE, v)"
    using query_attribute_alist [OF s'(2) n' _ assms(4), of queryValue v conv] assms(6) s'(3) by (simp add: delete_conv)
  then show ?thesis using s'(1) by blast
qed

text \<open>C33: What is set as an attribute of any type is what the query of the type gives, without an error; after the
  attribute is deleted the query says so and leaves the target alone.\<close>

theorem attribute_set_query:
  assumes "owned s T" "dm_nodes s p = Some n" "proper_names s (T p)" "proper_str name" "dm_attributes s new = None"
    "distinct (map (fst \<circ> pair_of s) (T p))" "- (2 ^ 31) \<le> i" "i < 2 ^ 31"
  shows "(\<exists>s'. SetAttribute_int p name i new s = Some s' \<and> QueryIntAttribute p name d s' = Some (XML_NO_ERROR, i)) \<and>
    (\<exists>s'. SetAttribute_unsigned p name u new s = Some s' \<and> QueryUnsignedAttribute p name du s' = Some (XML_NO_ERROR, u)) \<and>
    (\<exists>s'. SetAttribute_bool p name b new s = Some s' \<and> QueryBoolAttribute p name db s' = Some (XML_NO_ERROR, b)) \<and>
    (\<exists>s'. DeleteAttribute p name s = Some s' \<and> QueryIntAttribute p name d s' = Some (XML_NO_ATTRIBUTE, d))"
proof -
  note set = set_then_query [OF assms(1-5)]
  have scanned: "ToInt (ToStr_int i) = Scanned i" "ToUnsigned (ToStr_unsigned u) = Scanned u" "ToBool (ToStr_bool b) = Scanned b"
    using conversions_inverse [of i u b] assms(7,8) by simp_all
  have "\<exists>s'. SetAttribute_int p name i new s = Some s' \<and> QueryIntAttribute p name d s' = Some (XML_NO_ERROR, i)"
    using set [of QueryIntValue d "\<lambda>t. query (ToInt t) XML_WRONG_ATTRIBUTE_TYPE d" "ToStr_int i"] scanned(1)
    by (simp add: SetAttribute_def SetAttribute_int_def SetAttribute_value_int_def QueryIntAttribute_def QueryIntValue_def query_def)
  moreover have "\<exists>s'. SetAttribute_unsigned p name u new s = Some s' \<and> QueryUnsignedAttribute p name du s' = Some (XML_NO_ERROR, u)"
    using set [of QueryUnsignedValue du "\<lambda>t. query (ToUnsigned t) XML_WRONG_ATTRIBUTE_TYPE du" "ToStr_unsigned u"] scanned(2)
    by (simp add: SetAttribute_def SetAttribute_unsigned_def SetAttribute_value_unsigned_def QueryUnsignedAttribute_def QueryUnsignedValue_def query_def)
  moreover have "\<exists>s'. SetAttribute_bool p name b new s = Some s' \<and> QueryBoolAttribute p name db s' = Some (XML_NO_ERROR, b)"
    using set [of QueryBoolValue db "\<lambda>t. query (ToBool t) XML_WRONG_ATTRIBUTE_TYPE db" "ToStr_bool b"] scanned(3)
    by (simp add: SetAttribute_def SetAttribute_bool_def SetAttribute_value_bool_def QueryBoolAttribute_def QueryBoolValue_def query_def)
  moreover have "\<exists>s'. DeleteAttribute p name s = Some s' \<and> QueryIntAttribute p name d s' = Some (XML_NO_ATTRIBUTE, d)"
    using delete_then_query [OF assms(1-4,6), of QueryIntValue d "\<lambda>t. query (ToInt t) XML_WRONG_ATTRIBUTE_TYPE d"]
    by (simp add: QueryIntAttribute_def QueryIntValue_def)
  ultimately show ?thesis by blast
qed

theorem attribute_set_query_witness:
  "\<exists>s'. SetAttribute_int 1 ''n'' (- 2147483648) 8 demo_dom = Some s' \<and> QueryIntAttribute 1 ''n'' 0 s' = Some (XML_NO_ERROR, - 2147483648)"
proof -
  have "\<exists>n. dm_nodes demo_dom 1 = Some n" "dm_attributes demo_dom 8 = None" by (simp_all add: demo_dom_def)
  then obtain n where "dm_nodes demo_dom 1 = Some n" "dm_attributes demo_dom 8 = None" by blast
  moreover have "proper_names demo_dom (((\<lambda>_. [])(1 := [7])) 1)" using demo_names by simp
  ultimately show ?thesis
    using attribute_set_query [OF demo_dom_owned _ _ demo_names(4), of 1 n 8 "- 2147483648" 0] by simp
qed

section \<open>Copies\<close>

lemma SetAttribute_free:
  assumes "SetAttribute p name v new s = Some s'" "a \<noteq> new" "dm_attributes s a = None"
  shows "dm_attributes s' a = None"
  using assms
  by (auto simp: SetAttribute_def FindOrCreateAttribute_def SetAttribute_value_def upd_attribute_def upd_def count_untracked_def Let_def
      split: bind_splits option.splits)

lemma same_but_trans: "same_but p T s s' \<Longrightarrow> same_but p (T(p := as)) s' s'' \<Longrightarrow> same_but p T s s''"
  by (simp add: same_but_def)

lemma clone_loop_all:
  "attribute_seg (dm_attributes src) r as None \<Longrightarrow> owned s T \<Longrightarrow> dm_nodes s e = Some n \<Longrightarrow> proper_names s (T e) \<Longrightarrow> proper_names src as \<Longrightarrow>
   length news = length as \<Longrightarrow> distinct news \<Longrightarrow> (\<And>a. a \<in> set news \<Longrightarrow> dm_attributes s a = None) \<Longrightarrow>
   distinct (map fst (map (pair_of s) (T e) @ map (pair_of src) as)) \<Longrightarrow>
   \<exists>s' bs. clone_loop src r e news s = Some s' \<and> owned s' (T(e := bs)) \<and> map (pair_of s') bs = map (pair_of s) (T e) @ map (pair_of src) as \<and> same_but e T s s'"
proof (induction as arbitrary: r s T n news)
  case Nil
  then show ?case by (intro exI [of _ s] exI [of _ "T e"]) (simp add: same_but_def)
next
  case (Cons a as)
  obtain x where x: "r = Some a" "dm_attributes src a = Some x" "attribute_seg (dm_attributes src) (da_next x) as None" using Cons.prems(1) by auto
  obtain new news' where new: "news = new # news'" using Cons.prems(6) by (cases news) auto
  have name: "proper_str (da_name x)" using Cons.prems(5) x(2) by (simp add: proper_names_def pair_of_node)
  have free: "dm_attributes s new = None" using Cons.prems(8) new by simp
  obtain s1 bs where s1: "SetAttribute e (da_name x) (da_value x) new s = Some s1" "owned s1 (T(e := bs))"
    "map (pair_of s1) bs = AList.update (da_name x) (da_value x) (map (pair_of s) (T e))" "same_but e T s s1"
    using SetAttribute_alist [OF Cons.prems(2-4) name free] by blast
  have "\<forall>y \<in> set (map (pair_of s) (T e)). fst y \<noteq> da_name x" using Cons.prems(9) x(2) by (auto simp: pair_of_node) (metis (no_types, lifting) image_eqI)
  then have L: "map (pair_of s1) bs = map (pair_of s) (T e) @ [pair_of src a]" using s1(3) x(2) by (simp add: update_absent pair_of_node)
  obtain n1 where n1: "dm_nodes s1 e = Some n1" using same_but_node [OF s1(4) Cons.prems(3)] by blast
  have "pair_of s1 ` set bs = insert (pair_of src a) (pair_of s ` set (T e))" using arg_cong [OF L, of set] by simp
  then have names: "proper_names s1 bs" using Cons.prems(4) name x(2) unfolding proper_names_image by (simp add: pair_of_node)
  have "\<exists>s' cs. clone_loop src (da_next x) e news' s1 = Some s' \<and> owned s' ((T(e := bs))(e := cs)) \<and>
      map (pair_of s') cs = map (pair_of s1) ((T(e := bs)) e) @ map (pair_of src) as \<and> same_but e (T(e := bs)) s1 s'"
  proof (rule Cons.IH [OF x(3) s1(2) n1])
    show "\<And>b. b \<in> set news' \<Longrightarrow> dm_attributes s1 b = None" using Cons.prems(7,8) new by (intro SetAttribute_free [OF s1(1)]) auto
  qed (use names L Cons.prems new in \<open>auto simp: proper_names_def\<close>)
  then obtain s' cs where "clone_loop src (da_next x) e news' s1 = Some s'" "owned s' (T(e := cs))"
    "map (pair_of s') cs = map (pair_of s1) bs @ map (pair_of src) as" "same_but e (T(e := bs)) s1 s'" by auto
  then show ?case using s1(1) x(1,2) new L same_but_trans [OF s1(4)] by (intro exI [of _ s'] exI [of _ cs]) (simp del: fun_upd_apply)
qed

lemma equal_values_seg:
  "attribute_seg (dm_attributes s) r as None \<Longrightarrow> attribute_seg (dm_attributes s') r' bs None \<Longrightarrow>
   (\<And>a. a \<in> set as \<Longrightarrow> proper_str (snd (pair_of s a))) \<Longrightarrow> (\<And>b. b \<in> set bs \<Longrightarrow> proper_str (snd (pair_of s' b))) \<Longrightarrow>
   equal_values s r s' r' = Some (map (snd \<circ> pair_of s) as = map (snd \<circ> pair_of s') bs)"
proof (induction as arbitrary: r r' bs)
  case Nil
  then show ?case by (cases bs) (subst equal_values.simps; auto)+
next
  case (Cons a as)
  show ?case
  proof (cases bs)
    case Nil
    then show ?thesis using Cons.prems by (subst equal_values.simps) auto
  next
    case (Cons b bs')
    obtain x where x: "r = Some a" "dm_attributes s a = Some x" "attribute_seg (dm_attributes s) (da_next x) as None" using Cons.prems(1) by auto
    obtain y where y: "r' = Some b" "dm_attributes s' b = Some y" "attribute_seg (dm_attributes s') (da_next y) bs' None" using Cons.prems(2) Cons by auto
    have "proper_str (da_value x)" "proper_str (da_value y)" using Cons.prems(3) [of a] Cons.prems(4) [of b] x(2) y(2) Cons by (simp_all add: pair_of_node)
    then show ?thesis using x y Cons.prems(3,4) Cons Cons.IH [OF x(3) y(3)]
      by (subst equal_values.simps) (simp add: StringEqual_proper pair_of_node comp_def)
  qed
qed

lemma NewElement_owned:
  assumes "owned s T" "dm_nodes s new = None"
  shows "\<exists>s' n. NewElement name new s = Some s' \<and> owned s' T \<and> dm_nodes s' new = Some n \<and> T new = [] \<and> dn_kind n = DElement \<and> dn_value n = name \<and> dn_parent n = None \<and>
    dn_firstChild n = None \<and> (\<forall>q. q \<noteq> new \<longrightarrow> dm_nodes s' q = dm_nodes s q) \<and> dm_attributes s' = dm_attributes s"
proof -
  have "T new = []" using assms by (simp add: owned_def)
  then show ?thesis using assms by (auto simp: NewElement_def SetValue_def XMLNode_new_def upd_def count_untracked_def owned_def)
qed

text \<open>The copy of an element is a new element without links that has the name and the attributes of the original;
  the comparison says that they are equal. Everything else stays as it is.\<close>

theorem clone_is_equal:
  assumes "owned src S" "dm_nodes src p = Some n" "dn_kind n = DElement" "proper_str (dn_value n)" "proper_names src (S p)"
    "\<And>a. a \<in> set (S p) \<Longrightarrow> proper_str (snd (pair_of src a))" "distinct (map (fst \<circ> pair_of src) (S p))"
    "owned s T" "dm_nodes s new = None" "length news = length (S p)" "distinct news" "\<And>a. a \<in> set news \<Longrightarrow> dm_attributes s a = None"
  shows "\<exists>s' m bs. ShallowClone p src new news s = Some (Some new, s') \<and> dm_nodes s' new = Some m \<and> owned s' (T(new := bs)) \<and>
    dn_kind m = DElement \<and> dn_value m = dn_value n \<and> dn_parent m = None \<and> dn_firstChild m = None \<and>
    map (pair_of s') bs = map (pair_of src) (S p) \<and> ShallowEqual p src new s' = Some True \<and>
    (\<forall>q. q \<noteq> new \<longrightarrow> map (pair_of s') (T q) = map (pair_of s) (T q) \<and> map_option shape_of (dm_nodes s' q) = map_option shape_of (dm_nodes s q))"
proof -
  obtain s1 m1 where s1: "NewElement (dn_value n) new s = Some s1" "owned s1 T" "dm_nodes s1 new = Some m1" "T new = []" "dn_kind m1 = DElement" "dn_value m1 = dn_value n"
    "dn_parent m1 = None" "dn_firstChild m1 = None" "\<forall>q. q \<noteq> new \<longrightarrow> dm_nodes s1 q = dm_nodes s q" "dm_attributes s1 = dm_attributes s"
    using NewElement_owned [OF assms(8,9)] by blast
  have seg: "attribute_seg (dm_attributes src) (dn_rootAttribute n) (S p) None" using owned_path [OF assms(1,2)] by simp
  have "\<exists>s' bs. clone_loop src (dn_rootAttribute n) new news s1 = Some s' \<and> owned s' (T(new := bs)) \<and>
      map (pair_of s') bs = map (pair_of s1) (T new) @ map (pair_of src) (S p) \<and> same_but new T s1 s'"
    by (rule clone_loop_all [OF seg s1(2,3)]) (use assms s1(4,10) in \<open>auto simp: proper_names_def\<close>)
  then obtain s' bs where s': "clone_loop src (dn_rootAttribute n) new news s1 = Some s'" "owned s' (T(new := bs))"
    "map (pair_of s') bs = map (pair_of src) (S p)" "same_but new T s1 s'" using s1(4) by auto
  obtain m where m: "dm_nodes s' new = Some m" "shape_of m = shape_of m1" using same_but_node [OF s'(4) s1(3)] by blast
  have "attribute_seg (dm_attributes s') (dn_rootAttribute m) bs None" using owned_path [OF s'(2) m(1)] by simp
  moreover have "proper_str (snd (pair_of s' b))" if "b \<in> set bs" for b
  proof -
    have "pair_of s' b \<in> set (map (pair_of src) (S p))" using that s'(3) by (metis image_eqI list.set_map)
    then show ?thesis using assms(6) by auto
  qed
  moreover have "map (snd \<circ> pair_of src) (S p) = map (snd \<circ> pair_of s') bs" using arg_cong [OF s'(3), of "map snd"] by simp
  ultimately have "equal_values src (dn_rootAttribute n) s' (dn_rootAttribute m) = Some True" using equal_values_seg [OF seg] assms(6) by simp
  then have "ShallowEqual p src new s' = Some True"
    using assms(2-4) m s1(5,6) StringEqual_proper [OF assms(4,4)] by (simp add: ShallowEqual_def Element_ShallowEqual_def shape_of_def)
  moreover have "ShallowClone p src new news s = Some (Some new, s')" using assms(2,3) s1(1) s'(1) by (simp add: ShallowClone_def Element_ShallowClone_def)
  moreover have "pair_of s1 = pair_of s" using s1(10) by (simp add: pair_of_def fun_eq_iff)
  ultimately show ?thesis using m s1 s' by (intro exI [of _ s'] exI [of _ m] exI [of _ bs]) (auto simp: shape_of_def same_but_def link_of_def ends_of_def)
qed

theorem clone_is_equal_witness:
  "\<exists>s'. ShallowClone 1 demo_dom 9 [8] demo_dom = Some (Some 9, s') \<and> ShallowEqual 1 demo_dom 9 s' = Some True"
proof -
  let ?n = "demo_dom_node\<lparr>dn_parent := Some 0, dn_firstChild := Some 2, dn_lastChild := Some 2, dn_rootAttribute := Some 7\<rparr>"
  have "dm_nodes demo_dom 1 = Some ?n" "dm_nodes demo_dom 9 = None" "dm_attributes demo_dom 8 = None" by (simp_all add: demo_dom_def)
  moreover have "dn_kind ?n = DElement" "proper_str (dn_value ?n)" by (simp_all add: demo_dom_node_def proper_str_def NUL_def INT_MAX_def)
  moreover have "proper_str (snd (pair_of demo_dom 7))" using demo_names(2) by (simp add: proper_str_def NUL_def INT_MAX_def)
  ultimately show ?thesis
    using clone_is_equal [OF demo_dom_owned _ _ _ _ _ _ demo_dom_owned, of 1 ?n 9 "[8]"] demo_names(1) by auto
qed

text \<open>The comparison of elements does not look at the names of the attributes.\<close>

theorem equal_ignores_names:
  "ShallowEqual 0 \<lparr>dm_nodes = [0 \<mapsto> demo_dom_node\<lparr>dn_rootAttribute := Some 1\<rparr>], dm_attributes = [1 \<mapsto> \<lparr>da_name = ''x'', da_value = ''1'', da_next = None\<rparr>], dm_untracked = (\<lambda>_. 0)\<rparr>
     0 \<lparr>dm_nodes = [0 \<mapsto> demo_dom_node\<lparr>dn_rootAttribute := Some 1\<rparr>], dm_attributes = [1 \<mapsto> \<lparr>da_name = ''y'', da_value = ''1'', da_next = None\<rparr>], dm_untracked = (\<lambda>_. 0)\<rparr> =
   Some True"
proof -
  have "proper_str ''a''" "proper_str ''1''" by (simp_all add: proper_str_def NUL_def INT_MAX_def)
  then show ?thesis
    by (simp add: ShallowEqual_def Element_ShallowEqual_def demo_dom_node_def StringEqual_proper) (subst equal_values.simps, simp add: StringEqual_proper, subst equal_values.simps, simp)
qed

section \<open>Handles are safe\<close>

lemma find_member: "find P xs = Some x \<Longrightarrow> x \<in> set xs"
  by (auto simp: find_Some_iff)

definition valid :: "dom \<Rightarrow> handle \<Rightarrow> bool" where
  "valid s h \<longleftrightarrow> (case h of None \<Rightarrow> True | Some p \<Rightarrow> dm_nodes s p \<noteq> None)"

definition safe :: "(handle \<Rightarrow> dom \<Rightarrow> handle option) \<Rightarrow> dom \<Rightarrow> bool" where
  "safe op s \<longleftrightarrow> (\<forall>h. valid s h \<longrightarrow> (\<exists>h'. op h s = Some h' \<and> valid s h'))"

lemma safe_via: "(\<And>p n. dm_nodes s p = Some n \<Longrightarrow> \<exists>h'. f p s = Some h' \<and> valid s h') \<Longrightarrow> safe (via f) s"
  unfolding safe_def
proof (intro allI impI)
  fix h assume f: "\<And>p n. dm_nodes s p = Some n \<Longrightarrow> \<exists>h'. f p s = Some h' \<and> valid s h'" and h: "valid s h"
  show "\<exists>h'. via f h s = Some h' \<and> valid s h'"
  proof (cases h)
    case None
    then show ?thesis by (simp add: via_def valid_def)
  next
    case (Some p)
    then obtain n where "dm_nodes s p = Some n" using h by (auto simp: valid_def)
    then show ?thesis using f Some by (simp add: via_def)
  qed
qed

lemma linked_ends:
  assumes "linked (dm_nodes s) C" "dm_nodes s p = Some n"
  shows "dn_firstChild n = headp (C p) None" "dn_lastChild n = endp None (C p)" "siblings (dm_nodes s) p None (C p) None"
  using linkedD(2) [OF assms(1), of p] assms(2) by (auto simp: children_ok_def)

lemma valid_member: "linked (dm_nodes s) C \<Longrightarrow> (case h of None \<Rightarrow> True | Some x \<Rightarrow> x \<in> set (C p)) \<Longrightarrow> valid s h"
  using linkedD(1) by (fastforce simp: valid_def split: option.splits)

text \<open>The neighbours of a node: children of its parent, or none if it was never inserted.\<close>

lemma linked_neighbours:
  assumes "linked (dm_nodes s) C" "dm_nodes s x = Some n" "dn_parent n = None \<longrightarrow> dn_prev n = None \<and> dn_next n = None"
  shows "\<exists>p xs ys. set xs \<union> set ys \<subseteq> set (C p) \<and> dn_prev n = endp None xs \<and> dn_next n = headp ys None \<and>
    siblings (dm_nodes s) p None xs (Some x) \<and> siblings (dm_nodes s) p (Some x) ys None"
proof (cases "dn_parent n")
  case None
  then show ?thesis using assms(3) by (intro exI [of _ 0] exI [of _ "[]"]) simp
next
  case (Some p)
  then have x: "x \<in> set (C p)" using assms(1,2) by (auto simp: linked_def)
  then obtain xs ys where C: "C p = xs @ x # ys" by (auto simp: in_set_conv_decomp)
  have "dm_nodes s p \<noteq> None" by (rule linkedD(4) [OF assms(1) x])
  then have "siblings (dm_nodes s) p None (xs @ x # ys) None" using linked_ends(3) [OF assms(1), of p] C by auto
  then show ?thesis using assms(2) C by (intro exI [of _ p] exI [of _ xs] exI [of _ ys]) (auto simp: siblings_append)
qed

lemma valid_headp: "linked (dm_nodes s) C \<Longrightarrow> set ys \<subseteq> set (C p) \<Longrightarrow> valid s (headp ys None)"
  by (rule valid_member [where p = p]) (auto simp: headp_def split: list.splits)

lemma valid_endp: "linked (dm_nodes s) C \<Longrightarrow> set xs \<subseteq> set (C p) \<Longrightarrow> valid s (endp None xs)"
  by (rule valid_member [where p = p]) (auto simp: endp_def)

lemma valid_find: "linked (dm_nodes s) C \<Longrightarrow> set xs \<subseteq> set (C p) \<Longrightarrow> valid s (find P xs)"
  by (rule valid_member [where p = p]) (auto dest: find_member split: option.splits)

lemma safe_search:
  assumes "linked (dm_nodes s) C" "\<And>p n. dm_nodes s p = Some n \<Longrightarrow> \<exists>xs q P. set xs \<subseteq> set (C q) \<and> f p s = Some (find P xs)"
  shows "safe (via f) s"
proof (rule safe_via)
  fix p n assume "dm_nodes s p = Some n"
  then obtain xs q P where "set xs \<subseteq> set (C q)" "f p s = Some (find P xs)" using assms(2) by blast
  then show "\<exists>h'. f p s = Some h' \<and> valid s h'" using valid_find [OF assms(1)] by blast
qed

lemma safe_field:
  assumes "linked (dm_nodes s) C" "\<And>p n. dm_nodes s p = Some n \<Longrightarrow> \<exists>xs q. set xs \<subseteq> set (C q) \<and> (f n = headp xs None \<or> f n = endp None xs)"
  shows "safe (via (field f)) s"
proof (rule safe_via)
  fix p n assume n: "dm_nodes s p = Some n"
  then obtain xs q where "set xs \<subseteq> set (C q)" "f n = headp xs None \<or> f n = endp None xs" using assms(2) by blast
  then show "\<exists>h'. field f p s = Some h' \<and> valid s h'" using n valid_headp [OF assms(1)] valid_endp [OF assms(1)] by (auto simp: field_def)
qed

text \<open>Every operation of a handle that is null or points to a node gives a handle that is null or points to a
  node, whatever the document; no chain of them crashes.\<close>

theorem handles_safe:
  assumes ok: "linked (dm_nodes s) C" and new: "\<And>x n. dm_nodes s x = Some n \<Longrightarrow> dn_parent n = None \<Longrightarrow> dn_prev n = None \<and> dn_next n = None"
  shows "safe handle_FirstChild s \<and> safe (handle_FirstChildElement v) s \<and> safe handle_LastChild s \<and> safe (handle_LastChildElement v) s \<and>
    safe handle_PreviousSibling s \<and> safe (handle_PreviousSiblingElement v) s \<and> safe handle_NextSibling s \<and> safe (handle_NextSiblingElement v) s \<and>
    safe handle_ToElement s \<and> safe handle_ToText s \<and> safe handle_ToUnknown s \<and> safe handle_ToDeclaration s"
proof (intro conjI)
  note ends = linked_ends [OF ok]
  show "safe handle_FirstChild s" "safe handle_LastChild s"
    unfolding handle_FirstChild_def handle_LastChild_def by (rule safe_field [OF ok]; use ends in blast)+
  show "safe (handle_FirstChildElement v) s"
    unfolding handle_FirstChildElement_def
  proof (rule safe_search [OF ok])
    fix p n assume n: "dm_nodes s p = Some n"
    then show "\<exists>xs q P. set xs \<subseteq> set (C q) \<and> FirstChildElement p v s = Some (find P xs)"
      using search_forwards [OF ends(3) [OF n], of True v] ends(1) [OF n] by (intro exI [of _ "C p"] exI [of _ p]) (auto simp: FirstChildElement_def)
  qed
  show "safe (handle_LastChildElement v) s"
    unfolding handle_LastChildElement_def
  proof (rule safe_search [OF ok])
    fix p n assume n: "dm_nodes s p = Some n"
    then show "\<exists>xs q P. set xs \<subseteq> set (C q) \<and> LastChildElement p v s = Some (find P xs)"
      using search_backwards [OF ends(3) [OF n], of True v] ends(2) [OF n] by (intro exI [of _ "rev (C p)"] exI [of _ p]) (auto simp: LastChildElement_def)
  qed
  have nb: "\<exists>p xs ys. set xs \<union> set ys \<subseteq> set (C p) \<and> dn_prev n = endp None xs \<and> dn_next n = headp ys None \<and>
    siblings (dm_nodes s) p None xs (Some x) \<and> siblings (dm_nodes s) p (Some x) ys None" if "dm_nodes s x = Some n" for x n
    using linked_neighbours [OF ok that] new [OF that] by blast
  show "safe handle_PreviousSibling s" "safe handle_NextSibling s"
    unfolding handle_PreviousSibling_def handle_NextSibling_def by (rule safe_field [OF ok]; use nb in blast)+
  show "safe (handle_PreviousSiblingElement v) s"
    unfolding handle_PreviousSiblingElement_def
  proof (rule safe_search [OF ok])
    fix x n assume n: "dm_nodes s x = Some n"
    then obtain p xs where "set xs \<subseteq> set (C p)" "dn_prev n = endp None xs" "siblings (dm_nodes s) p None xs (Some x)" using nb by blast
    then show "\<exists>xs q P. set xs \<subseteq> set (C q) \<and> PreviousSiblingElement x v s = Some (find P xs)"
      using n search_backwards [of s p xs "Some x" False v] by (intro exI [of _ "rev xs"] exI [of _ p]) (auto simp: PreviousSiblingElement_def)
  qed
  show "safe (handle_NextSiblingElement v) s"
    unfolding handle_NextSiblingElement_def
  proof (rule safe_search [OF ok])
    fix x n assume n: "dm_nodes s x = Some n"
    then obtain p ys where "set ys \<subseteq> set (C p)" "dn_next n = headp ys None" "siblings (dm_nodes s) p (Some x) ys None" using nb by blast
    then show "\<exists>xs q P. set xs \<subseteq> set (C q) \<and> NextSiblingElement x v s = Some (find P xs)"
      using n search_forwards [of s p "Some x" ys False v] by (intro exI [of _ ys] exI [of _ p]) (auto simp: NextSiblingElement_def)
  qed
  show "safe handle_ToElement s" "safe handle_ToText s" "safe handle_ToUnknown s" "safe handle_ToDeclaration s"
    unfolding handle_ToElement_def handle_ToText_def handle_ToUnknown_def handle_ToDeclaration_def
    by (auto intro!: safe_via simp: as_kind_def valid_def)
qed

theorem handles_safe_witness: "\<exists>h'. handle_NextSibling (Some 3) demo_dom = Some h' \<and> valid demo_dom h'"
proof -
  have "dn_prev n = None \<and> dn_next n = None" if "dm_nodes demo_dom x = Some n" "dn_parent n = None" for x n
    using that by (auto simp: demo_dom_def demo_dom_node_def split: if_splits)
  then have "safe handle_NextSibling demo_dom" using handles_safe [OF demo_linked] by blast
  moreover have "valid demo_dom (Some 3)" by (simp add: valid_def demo_dom_def)
  ultimately show ?thesis by (simp add: safe_def)
qed

end
