(* ===== verification/Xml_Life.thy ===== *)
theory Xml_Life
  imports Xml_Attr
begin

text \<open>
  The life of a document of \<open>src/tinyxml2.cpp\<close>: its constructor, any sequence of operations on its nodes and attributes,
  and its destructor with the checks of the pools that a debug build makes. The lemmas show that the operations
  end without a crash as long as only nodes that are not linked are inserted, that the pools count exactly the nodes that are not
  linked, and when the checks of the destructor succeed.
\<close>

section \<open>Constructor and destructor\<close>

definition XMLDocument_node :: "nat \<Rightarrow> dom" where
  "XMLDocument_node doc =
     \<lparr>dm_nodes = [doc \<mapsto> \<lparr>dn_kind = DDocument, dn_value = [], dn_parent = None, dn_firstChild = None, dn_lastChild = None,
        dn_prev = None, dn_next = None, dn_rootAttribute = None\<rparr>],
      dm_attributes = Map.empty, dm_untracked = (\<lambda>_. 0)\<rparr>"

text \<open>The objects of a pool that are allocated. The document itself is in none.\<close>

definition allocated :: "dom \<Rightarrow> dom_pool \<Rightarrow> nat set" where
  "allocated s pool =
     (if pool = AttributePool then dom (dm_attributes s)
      else {x \<in> dom (dm_nodes s). dn_kind (the (dm_nodes s x)) \<noteq> DDocument \<and> pool_of (dn_kind (the (dm_nodes s x))) = pool})"

definition CurrentAllocs :: "dom \<Rightarrow> dom_pool \<Rightarrow> int" where
  "CurrentAllocs s pool = int (card (allocated s pool))"

text \<open>The destructors of the pools release their blocks, with whatever objects are left in them.\<close>

definition release_pools :: "nat \<Rightarrow> dom \<Rightarrow> dom" where
  "release_pools doc s = s\<lparr>dm_nodes := dm_nodes s |` {doc}, dm_attributes := Map.empty\<rparr>"

text \<open>\<open>debug\<close>: the checks are compiled in. Behind the body the members are destroyed, and then the node the document
  inherits from.\<close>

definition XMLDocument_delete :: "bool \<Rightarrow> bool \<Rightarrow> nat \<Rightarrow> dom \<Rightarrow> dom option" where
  "XMLDocument_delete debug err doc s = do {
     s \<leftarrow> DeleteChildren doc s;
     if debug \<and> \<not> err \<and> \<not> list_all (\<lambda>pool. CurrentAllocs s pool = dm_untracked s pool) [ElementPool, AttributePool, TextPool, CommentPool] then None
     else do {
       s \<leftarrow> DeleteChildren doc (release_pools doc s);
       s \<leftarrow> leave_parent doc s;
       Some (free_dom_node doc s) } }"

section \<open>Operations on a document\<close>

datatype dom_op =
  OpElement string nat | OpComment string nat | OpText string nat | OpDeclaration "string option" nat | OpUnknown string nat |
  OpValue string nat | OpInsertEnd nat nat | OpInsertFirst nat nat | OpInsertAfter nat nat nat |
  OpDeleteChild nat nat | OpDeleteNode nat | OpDeleteChildren nat |
  OpSetAttribute nat string string nat | OpDeleteAttribute nat string

fun dom_exec :: "dom_op \<Rightarrow> dom \<Rightarrow> dom option" where
  "dom_exec (OpElement v a) s = NewElement v a s"
| "dom_exec (OpComment v a) s = NewComment v a s"
| "dom_exec (OpText v a) s = NewText v a s"
| "dom_exec (OpDeclaration v a) s = NewDeclaration v a s"
| "dom_exec (OpUnknown v a) s = NewUnknown v a s"
| "dom_exec (OpValue v p) s = SetValue v p s"
| "dom_exec (OpInsertEnd p x) s = map_option snd (InsertEndChild p x s)"
| "dom_exec (OpInsertFirst p x) s = map_option snd (InsertFirstChild p x s)"
| "dom_exec (OpInsertAfter p y x) s = map_option snd (InsertAfterChild p y x s)"
| "dom_exec (OpDeleteChild p x) s = DeleteChild p x s"
| "dom_exec (OpDeleteNode x) s = DeleteNode x s"
| "dom_exec (OpDeleteChildren p) s = DeleteChildren p s"
| "dom_exec (OpSetAttribute p name v a) s = SetAttribute p name v a s"
| "dom_exec (OpDeleteAttribute p name) s = DeleteAttribute p name s"

text \<open>What a caller has to keep to: he uses nodes that exist, inserts only nodes that have no parent, not below themselves and
  not the document, and gives attributes to elements. A pool hands out chunks that are not in use.\<close>

definition parents :: "dom \<Rightarrow> (nat \<times> nat) set" where
  "parents s = {(x, p). \<exists>n. dm_nodes s x = Some n \<and> dn_parent n = Some p}"

definition has_parent :: "dom \<Rightarrow> nat \<Rightarrow> nat \<Rightarrow> bool" where
  "has_parent s x p \<longleftrightarrow> (x, p) \<in> parents s"

definition loose :: "dom \<Rightarrow> nat \<Rightarrow> bool" where
  "loose s x \<longleftrightarrow> (\<exists>n. dm_nodes s x = Some n \<and> dn_parent n = None)"

definition insertable :: "nat \<Rightarrow> dom \<Rightarrow> nat \<Rightarrow> nat \<Rightarrow> bool" where
  "insertable doc s p x \<longleftrightarrow> x \<noteq> doc \<and> dm_nodes s p \<noteq> None \<and> loose s x \<and> (p, x) \<notin> (parents s)\<^sup>*"

definition has_element :: "dom \<Rightarrow> nat \<Rightarrow> bool" where
  "has_element s p \<longleftrightarrow> (\<exists>n. dm_nodes s p = Some n \<and> dn_kind n = DElement)"

fun permitted :: "nat \<Rightarrow> dom \<Rightarrow> dom_op \<Rightarrow> bool" where
  "permitted doc s (OpElement v a) \<longleftrightarrow> dm_nodes s a = None"
| "permitted doc s (OpComment v a) \<longleftrightarrow> dm_nodes s a = None"
| "permitted doc s (OpText v a) \<longleftrightarrow> dm_nodes s a = None"
| "permitted doc s (OpDeclaration v a) \<longleftrightarrow> dm_nodes s a = None"
| "permitted doc s (OpUnknown v a) \<longleftrightarrow> dm_nodes s a = None"
| "permitted doc s (OpValue v p) \<longleftrightarrow> dm_nodes s p \<noteq> None"
| "permitted doc s (OpInsertEnd p x) \<longleftrightarrow> insertable doc s p x"
| "permitted doc s (OpInsertFirst p x) \<longleftrightarrow> insertable doc s p x"
| "permitted doc s (OpInsertAfter p y x) \<longleftrightarrow> insertable doc s p x \<and> has_parent s y p"
| "permitted doc s (OpDeleteChild p x) \<longleftrightarrow> has_parent s x p"
| "permitted doc s (OpDeleteNode x) \<longleftrightarrow> (\<exists>p. has_parent s x p)"
| "permitted doc s (OpDeleteChildren p) \<longleftrightarrow> dm_nodes s p \<noteq> None"
| "permitted doc s (OpSetAttribute p name v a) \<longleftrightarrow> has_element s p \<and> proper_str name \<and> dm_attributes s a = None"
| "permitted doc s (OpDeleteAttribute p name) \<longleftrightarrow> has_element s p \<and> proper_str name"

inductive dom_reach :: "nat \<Rightarrow> dom \<Rightarrow> bool" for doc where
  start: "dom_reach doc (XMLDocument_node doc)"
| step: "dom_reach doc s \<Longrightarrow> permitted doc s oper \<Longrightarrow> dom_exec oper s = Some s' \<Longrightarrow> dom_reach doc s'"

section \<open>Kinds and parents of nodes\<close>

definition role :: "dom \<Rightarrow> nat \<Rightarrow> (dom_kind \<times> nat option) option" where
  "role s x = map_option (\<lambda>n. (dn_kind n, dn_parent n)) (dm_nodes s x)"

definition untracked_in :: "(nat \<Rightarrow> (dom_kind \<times> nat option) option) \<Rightarrow> dom_pool \<Rightarrow> nat set" where
  "untracked_in r pool = {x. \<exists>k. r x = Some (k, None) \<and> k \<noteq> DDocument \<and> pool_of k = pool}"

lemma parent_linked: "linked N C \<Longrightarrow> N x = Some n \<Longrightarrow> dn_parent n = Some p \<longleftrightarrow> x \<in> set (C p)"
  using linkedD(1) [of N C x p] unfolding linked_def by fastforce

lemma parents_below: "linked (dm_nodes s) C \<Longrightarrow> parents s = below C"
  using parent_linked linkedD(1) by (fastforce simp: parents_def below_def)

lemma role_None [simp]: "role s x = None \<longleftrightarrow> dm_nodes s x = None"
  by (simp add: role_def)

lemma role_eqI:
  assumes "linked (dm_nodes s) C" "linked (dm_nodes s') C'" "map_option dn_kind (dm_nodes s' x) = map_option dn_kind (dm_nodes s x)"
    "\<And>p. x \<in> set (C' p) \<longleftrightarrow> x \<in> set (C p)"
  shows "role s' x = role s x"
proof (cases "dm_nodes s x")
  case (Some n)
  then obtain n' where n': "dm_nodes s' x = Some n'" "dn_kind n' = dn_kind n" using assms(3) by auto
  have "dn_parent n' = Some p \<longleftrightarrow> dn_parent n = Some p" for p
    using parent_linked [OF assms(1) Some] parent_linked [OF assms(2) n'(1)] assms(4) by simp
  then have "dn_parent n' = dn_parent n" by (metis option.exhaust)
  then show ?thesis using Some n' by (simp add: role_def)
qed (use assms(3) in \<open>simp add: role_def\<close>)

lemma same_content_kind: "same_content s s' \<Longrightarrow> map_option dn_kind (dm_nodes s' x) = map_option dn_kind (dm_nodes s x)"
proof -
  assume "same_content s s'"
  then have "map_option content_of (dm_nodes s' x) = map_option content_of (dm_nodes s x)" by (simp add: same_content_def)
  then have "map_option (fst \<circ> content_of) (dm_nodes s' x) = map_option (fst \<circ> content_of) (dm_nodes s x)" by (metis option.map_comp)
  then show ?thesis by (simp add: content_of_def comp_def)
qed

lemma role_insert:
  assumes "linked (dm_nodes s) C" "linked (dm_nodes s') (C(p := xs))" "same_content s s'" "set xs = insert x (set (C p))" "dm_nodes s x = Some n" "dn_parent n = None"
  shows "role s' = (role s)(x \<mapsto> (dn_kind n, Some p))"
proof
  fix y
  show "role s' y = ((role s)(x \<mapsto> (dn_kind n, Some p))) y"
  proof (cases "y = x")
    case True
    obtain n' where n': "dm_nodes s' x = Some n'" "dn_kind n' = dn_kind n" using same_content_kind [OF assms(3), of x] assms(5) by auto
    then have "dn_parent n' = Some p" using parent_linked [OF assms(2), of x n' p] assms(4) by simp
    then show ?thesis using n' True by (simp add: role_def)
  next
    case False
    then have "role s' y = role s y" using assms(4) by (intro role_eqI [OF assms(1,2) same_content_kind [OF assms(3)]]) auto
    then show ?thesis using False by simp
  qed
qed

lemma untracked_in_upd:
  "untracked_in (r(x \<mapsto> (k, Some p))) pool = untracked_in r pool - {x}"
  "k \<noteq> DDocument \<Longrightarrow> untracked_in (r(x \<mapsto> (k, None))) pool = (if pool_of k = pool then insert x (untracked_in r pool) else untracked_in r pool - {x})"
  by (auto simp: untracked_in_def)

lemma untracked_in_restrict: "(\<And>x k. x \<in> E \<Longrightarrow> r x \<noteq> Some (k, None)) \<Longrightarrow> untracked_in (r |` (- E)) pool = untracked_in r pool"
  by (auto simp: untracked_in_def restrict_map_def split: if_splits)

lemma finite_untracked: "finite (dom (dm_nodes s)) \<Longrightarrow> finite (untracked_in (role s) pool)"
  by (rule finite_subset [of _ "dom (dm_nodes s)"]) (auto simp: untracked_in_def role_def)

section \<open>What the operations count\<close>

lemma upd_untracked: "upd p f s = Some s' \<Longrightarrow> dm_untracked s' = dm_untracked s"
  by (auto simp: upd_def)

lemma upd_kind: "upd p f s = Some s' \<Longrightarrow> (\<And>n. dn_kind (f n) = dn_kind n) \<Longrightarrow> map_option dn_kind (dm_nodes s' x) = map_option dn_kind (dm_nodes s x)"
  by (auto simp: upd_def)

text \<open>A change of the store after which the object at \<open>x\<close> is linked.\<close>

definition tracks :: "nat \<Rightarrow> dom \<Rightarrow> dom \<Rightarrow> bool" where
  "tracks x s s' \<longleftrightarrow> (\<exists>n. dm_nodes s x = Some n \<and> dm_untracked s' = (dm_untracked s)(pool_of (dn_kind n) := dm_untracked s (pool_of (dn_kind n)) - 1))"

lemmas insert_defs = upd_def SetTracked_def count_untracked_def tracks_def bind_eq_Some_conv

lemma InsertEndChild_tracks: "InsertEndChild p x s = Some (r, s') \<Longrightarrow> tracks x s s'"
  by (auto simp: InsertEndChild_def insert_defs split: option.splits if_splits)

lemma InsertFirstChild_tracks: "InsertFirstChild p x s = Some (r, s') \<Longrightarrow> tracks x s s'"
  by (auto simp: InsertFirstChild_def insert_defs split: option.splits if_splits)

lemma InsertAfterChild_tracks: "InsertAfterChild p y x s = Some (Some r, s') \<Longrightarrow> tracks x s s'"
  by (auto simp: InsertAfterChild_def insert_defs split: option.splits if_splits dest: InsertEndChild_tracks [unfolded tracks_def])

lemma Unlink_untracked: "Unlink p x s = Some s' \<Longrightarrow> dm_untracked s' = dm_untracked s"
  by (auto simp: Unlink_def bind_eq_Some_conv dest!: upd_untracked split: option.splits if_splits)

lemma leave_parent_untracked: "leave_parent x s = Some s' \<Longrightarrow> dm_untracked s' = dm_untracked s"
  by (auto simp: leave_parent_def bind_eq_Some_conv dest!: Unlink_untracked split: option.splits)

lemma delete_attributes_untracked: "delete_attributes p s = Some s' \<Longrightarrow> dm_untracked s' = dm_untracked s"
  by (erule delete_attributes.raw_induct [where P = "\<lambda>_ s s'. dm_untracked s' = dm_untracked s", rotated])
    (auto simp: bind_eq_Some_conv DELETE_ATTRIBUTE_def upd_def split: option.splits)

lemma DeleteChildren_untracked: "DeleteChildren p s = Some s' \<Longrightarrow> dm_untracked s' = dm_untracked s"
  by (erule DeleteChildren.raw_induct [where P = "\<lambda>_ s s'. dm_untracked s' = dm_untracked s", rotated])
    (auto simp: bind_eq_Some_conv free_dom_node_def split: option.splits dest!: upd_untracked Unlink_untracked leave_parent_untracked delete_attributes_untracked)

lemma DELETE_NODE_untracked: "DELETE_NODE x s = Some s' \<Longrightarrow> dm_untracked s' = dm_untracked s"
  by (auto simp: DELETE_NODE_def bind_eq_Some_conv free_dom_node_def dest!: DeleteChildren_untracked leave_parent_untracked delete_attributes_untracked)

lemma SetAttribute_untracked: "SetAttribute p name v a s = Some s' \<Longrightarrow> dm_untracked s' = dm_untracked s"
  by (auto simp: SetAttribute_def FindOrCreateAttribute_def SetAttribute_value_def upd_attribute_def upd_def count_untracked_def bind_eq_Some_conv Let_def
      split: option.splits)

lemma delete_loop_untracked: "delete_loop p name l a s = Some s' \<Longrightarrow> dm_untracked s' = dm_untracked s"
  by (erule delete_loop.raw_induct [where P = "\<lambda>_ _ _ _ s s'. dm_untracked s' = dm_untracked s", rotated])
    (auto simp: bind_eq_Some_conv DELETE_ATTRIBUTE_def upd_def upd_attribute_def split: option.splits if_splits)

lemma DeleteAttribute_untracked: "DeleteAttribute p name s = Some s' \<Longrightarrow> dm_untracked s' = dm_untracked s"
  by (auto simp: DeleteAttribute_def bind_eq_Some_conv dest!: delete_loop_untracked)

section \<open>The invariant\<close>

definition dom_inv :: "nat \<Rightarrow> dom \<Rightarrow> (nat \<Rightarrow> nat list) \<Rightarrow> (nat \<Rightarrow> nat list) \<Rightarrow> bool" where
  "dom_inv doc s C T \<longleftrightarrow>
     linked (dm_nodes s) C \<and> owned s T \<and> dom (dm_attributes s) = (\<Union>x. set (T x)) \<and> (\<forall>x. proper_names s (T x)) \<and> T doc = [] \<and>
     role s doc = Some (DDocument, None) \<and> (\<forall>x k q. role s x = Some (k, q) \<longrightarrow> (k = DDocument \<longleftrightarrow> x = doc)) \<and>
     (\<forall>pool. dm_untracked s pool = int (card (untracked_in (role s) pool)))"

lemma dom_inv_finite: "dom_inv doc s C T \<Longrightarrow> finite (untracked_in (role s) pool)"
  by (rule finite_untracked) (simp add: dom_inv_def linked_def)

lemma dom_inv_start: "dom_inv doc (XMLDocument_node doc) (\<lambda>_. []) (\<lambda>_. [])"
  by (auto simp: dom_inv_def XMLDocument_node_def linked_def children_ok_def below_def acyclic_def owned_def proper_names_def role_def untracked_in_def
      split: if_splits)

lemma linked_new:
  assumes "linked N C" "N a = None" "dn_parent n = None" "dn_firstChild n = None" "dn_lastChild n = None"
  shows "linked (N(a \<mapsto> n)) C"
proof -
  have a: "C a = []" "a \<notin> set (C p)" for p using assms(1,2) linkedD(1) [OF assms(1), of a p] by (auto simp: linked_def)
  have "children_ok (N(a \<mapsto> n)) p (C p)" if "p \<noteq> a" "N p \<noteq> None" for p
    using linkedD(2) [OF assms(1) that(2)] a(2) [of p] that(1) by (simp add: children_ok_def)
  moreover have "children_ok (N(a \<mapsto> n)) a (C a)" using assms(4,5) a(1) by (simp add: children_ok_def)
  ultimately show ?thesis using assms(1,3) by (auto simp: linked_def)
qed

lemma new_inv:
  assumes inv: "dom_inv doc s C T" and a: "dm_nodes s a = None" and kind: "kind \<noteq> DDocument"
  shows "\<exists>s'. SetValue v a (XMLNode_new kind a s) = Some s' \<and> dom_inv doc s' C T"
proof -
  let ?n = "\<lparr>dn_kind = kind, dn_value = v, dn_parent = None, dn_firstChild = None, dn_lastChild = None, dn_prev = None, dn_next = None, dn_rootAttribute = None\<rparr>"
  let ?s = "count_untracked (pool_of kind) 1 (s\<lparr>dm_nodes := (dm_nodes s)(a \<mapsto> ?n)\<rparr>)"
  have run: "SetValue v a (XMLNode_new kind a s) = Some ?s" by (simp add: SetValue_def XMLNode_new_def upd_def count_untracked_def)
  have "linked (dm_nodes ?s) C" using linked_new [of "dm_nodes s" C a ?n] inv a by (simp add: dom_inv_def count_untracked_def)
  moreover have "owned ?s T" using inv a by (auto simp: dom_inv_def owned_def count_untracked_def)
  moreover have role: "role ?s = (role s)(a \<mapsto> (kind, None))" by (auto simp: role_def count_untracked_def)
  moreover have "a \<noteq> doc" using inv a by (auto simp: dom_inv_def role_def)
  moreover have "dm_untracked ?s pool = int (card (untracked_in (role ?s) pool))" for pool
  proof -
    have new: "a \<notin> untracked_in (role s) pool" using a by (auto simp: untracked_in_def role_def)
    have "dm_untracked s pool = int (card (untracked_in (role s) pool))" using inv by (simp add: dom_inv_def)
    then show ?thesis unfolding role untracked_in_upd(2) [OF kind] using new dom_inv_finite [OF inv, of pool] by (cases "pool = pool_of kind") (auto simp: count_untracked_def)
  qed
  moreover have "dom (dm_attributes ?s) = (\<Union>x. set (T x))" "\<forall>x. proper_names ?s (T x)" "T doc = []"
    using inv by (simp_all add: dom_inv_def count_untracked_def proper_names_def pair_of_def)
  ultimately have "dom_inv doc ?s C T" using inv kind by (auto simp: dom_inv_def)
  then show ?thesis using run by blast
qed

lemma insert_inv:
  assumes inv: "dom_inv doc s C T" and tr: "tracks x s s'" and l: "linked (dm_nodes s') (C(p := xs))" "same_content s s'" "set xs = insert x (set (C p))"
    and x: "dm_nodes s x = Some n" "dn_parent n = None" "x \<noteq> doc"
  shows "dom_inv doc s' (C(p := xs)) T"
proof -
  have "linked (dm_nodes s) C" using inv by (simp add: dom_inv_def)
  from role_insert [OF this l x(1,2)] have role: "role s' = (role s)(x \<mapsto> (dn_kind n, Some p))" .
  have k: "role s x = Some (dn_kind n, None)" using x by (simp add: role_def)
  then have "dn_kind n \<noteq> DDocument" using inv x(3) unfolding dom_inv_def by blast
  then have "x \<in> untracked_in (role s) pool \<longleftrightarrow> pool = pool_of (dn_kind n)" for pool using k by (auto simp: untracked_in_def)
  then have "int (card (untracked_in (role s) pool - {x})) = int (card (untracked_in (role s) pool)) - (if pool = pool_of (dn_kind n) then 1 else 0)" for pool
    using card_Suc_Diff1 [OF dom_inv_finite [OF inv], of x pool] by (cases "pool = pool_of (dn_kind n)") auto
  moreover have "dm_untracked s pool = int (card (untracked_in (role s) pool))" for pool using inv by (simp add: dom_inv_def)
  ultimately have "dm_untracked s' pool = int (card (untracked_in (role s') pool))" for pool
    using tr x(1) unfolding role untracked_in_upd(1) by (auto simp: tracks_def)
  moreover have "dm_attributes s' = dm_attributes s" using l(2) by (simp add: same_content_def)
  then have "dom (dm_attributes s') = (\<Union>x. set (T x))" "\<forall>x. proper_names s' (T x)" "owned s' T"
    using inv owned_cong [OF _ l(2)] by (simp_all add: dom_inv_def proper_names_def pair_of_def)
  ultimately show ?thesis using inv l(1) x(3) \<open>dn_kind n \<noteq> DDocument\<close> by (auto simp: dom_inv_def role)
qed

lemma cleared_pair: "owned s T \<Longrightarrow> cleared E T s s' \<Longrightarrow> x \<notin> E \<Longrightarrow> a \<in> set (T x) \<Longrightarrow> dm_attributes s' a = dm_attributes s a"
  unfolding cleared_def owned_def by (metis disjoint_iff)

lemma delete_inv:
  assumes inv: "dom_inv doc s C T" and s': "linked (dm_nodes s') C'" "owned s' (without E T)" "cleared E T s s'"
    "role s' = role s |` (- E)" "dm_untracked s' = dm_untracked s" and E: "\<And>x k. x \<in> E \<Longrightarrow> role s x \<noteq> Some (k, None)"
  shows "dom_inv doc s' C' (without E T)"
proof -
  have ow: "owned s T" and cover: "dom (dm_attributes s) = (\<Union>x. set (T x))" using inv by (simp_all add: dom_inv_def)
  have doc: "doc \<notin> E" using inv E by (auto simp: dom_inv_def)
  have "dom (dm_attributes s') = (\<Union>x. set (without E T x))"
  proof
    show "dom (dm_attributes s') \<subseteq> (\<Union>x. set (without E T x))"
    proof
      fix a assume a: "a \<in> dom (dm_attributes s')"
      then have no: "\<forall>x \<in> E. a \<notin> set (T x)" using s'(3) by (auto simp: cleared_def)
      then have "a \<in> dom (dm_attributes s)" using s'(3) a by (auto simp: cleared_def)
      then show "a \<in> (\<Union>x. set (without E T x))" using no cover by (auto simp: without_def)
    qed
    show "(\<Union>x. set (without E T x)) \<subseteq> dom (dm_attributes s')"
      using cleared_pair [OF ow s'(3)] cover by (force simp: without_def split: if_splits)
  qed
  moreover have "proper_names s' (without E T x)" for x
    using inv cleared_pair [OF ow s'(3), of x] by (auto simp: dom_inv_def proper_names_def pair_of_def without_def)
  moreover have "untracked_in (role s') pool = untracked_in (role s) pool" for pool unfolding s'(4) by (rule untracked_in_restrict) (rule E)
  ultimately show ?thesis using inv s' doc by (auto simp: dom_inv_def restrict_map_def without_def split: if_splits)
qed

lemma same_but_role: "same_but p T s s' \<Longrightarrow> role s' = role s"
proof
  fix x assume "same_but p T s s'"
  then have "map_option shape_of (dm_nodes s' x) = map_option shape_of (dm_nodes s x)" by (simp add: same_but_def)
  then show "role s' x = role s x" by (cases "dm_nodes s x"; cases "dm_nodes s' x") (auto simp: role_def shape_of_def link_of_def)
qed

lemma same_but_linked: "same_but p T s s' \<Longrightarrow> linked (dm_nodes s) C \<Longrightarrow> linked (dm_nodes s') C"
proof (rule linked_nodes_cong)
  fix x assume "same_but p T s s'"
  then have "map_option shape_of (dm_nodes s' x) = map_option shape_of (dm_nodes s x)" by (simp add: same_but_def)
  then show "map_option link_of (dm_nodes s' x) = map_option link_of (dm_nodes s x)" "map_option ends_of (dm_nodes s' x) = map_option ends_of (dm_nodes s x)"
    by (cases "dm_nodes s x"; cases "dm_nodes s' x"; auto simp: shape_of_def)+
qed

lemma attr_inv:
  assumes inv: "dom_inv doc s C T" and s': "owned s' (T(p := as))" "same_but p T s s'" "dom (dm_attributes s') = dom (dm_attributes s) - set (T p) \<union> set as"
    "proper_names s' as" "dm_untracked s' = dm_untracked s" and p: "p \<noteq> doc"
  shows "dom_inv doc s' C (T(p := as))"
proof -
  have dis: "set (T q) \<inter> set (T p) = {}" if "q \<noteq> p" for q using inv that unfolding dom_inv_def owned_def by blast
  have "dom (dm_attributes s) - set (T p) = (\<Union>q \<in> - {p}. set (T q))" using inv dis unfolding dom_inv_def by blast
  moreover have "(\<Union>x. set ((T(p := as)) x)) = (\<Union>q \<in> - {p}. set (T q)) \<union> set as" by (auto split: if_splits)
  ultimately have "dom (dm_attributes s') = (\<Union>x. set ((T(p := as)) x))" using s'(3) by simp
  moreover have "proper_names s' (T q)" if "q \<noteq> p" for q
  proof -
    have "map (pair_of s') (T q) = map (pair_of s) (T q)" using s'(2) that by (simp add: same_but_def)
    then show ?thesis using inv by (auto simp: dom_inv_def proper_names_def)
  qed
  ultimately show ?thesis using inv s' p same_but_linked [OF s'(2)] by (simp add: dom_inv_def same_but_role [OF s'(2)])
qed

section \<open>Every permitted operation keeps it\<close>

lemma value_inv:
  assumes "dom_inv doc s C T" "dm_nodes s p \<noteq> None"
  shows "\<exists>s'. SetValue v p s = Some s' \<and> dom_inv doc s' C T"
proof -
  obtain n where n: "dm_nodes s p = Some n" using assms(2) by blast
  let ?s = "s\<lparr>dm_nodes := (dm_nodes s)(p \<mapsto> n\<lparr>dn_value := v\<rparr>)\<rparr>"
  have l: "linked (dm_nodes s) C" and ow: "owned s T" using assms(1) by (simp_all add: dom_inv_def)
  have "linked (dm_nodes ?s) C" by (rule linked_nodes_cong [OF l]) (use n in \<open>auto simp: link_of_def ends_of_def\<close>)
  moreover have "owned ?s T" using ow n by (auto simp: owned_def)
  moreover have "role ?s = role s" using n by (auto simp: role_def)
  moreover have "proper_names ?s as = proper_names s as" for as by (simp add: proper_names_def pair_of_def)
  ultimately have "dom_inv doc ?s C T" using assms(1) by (simp add: dom_inv_def)
  then show ?thesis using n by (simp add: SetValue_def upd_def)
qed

lemma insertableD:
  assumes "dom_inv doc s C T" "insertable doc s p x"
  obtains t n where "dm_nodes s p = Some t" "dm_nodes s x = Some n" "dn_parent n = None" "(p, x) \<notin> (below C)\<^sup>*" "x \<noteq> doc"
proof -
  have "parents s = below C" using assms(1) parents_below by (simp add: dom_inv_def)
  then show ?thesis using that assms(2) by (auto simp: insertable_def loose_def)
qed

lemma insert_op_inv:
  assumes inv: "dom_inv doc s C T" and x: "insertable doc s p x"
  shows "\<exists>s' C'. dom_exec (OpInsertEnd p x) s = Some s' \<and> dom_inv doc s' C' T"
    "\<exists>s' C'. dom_exec (OpInsertFirst p x) s = Some s' \<and> dom_inv doc s' C' T"
    "has_parent s y p \<Longrightarrow> \<exists>s' C'. dom_exec (OpInsertAfter p y x) s = Some s' \<and> dom_inv doc s' C' T"
proof -
  have l: "linked (dm_nodes s) C" using inv by (simp add: dom_inv_def)
  obtain t n where p: "dm_nodes s p = Some t" "dm_nodes s x = Some n" "dn_parent n = None" "(p, x) \<notin> (below C)\<^sup>*" "x \<noteq> doc"
    by (rule insertableD [OF inv x])
  note ins = insert_inv [OF inv _ _ _ _ p(2,3,5)]
  obtain s1 where s1: "InsertEndChild p x s = Some (Some x, s1)" "linked (dm_nodes s1) (C(p := C p @ [x]))" "same_content s s1"
    using InsertEndChild_linked [OF l p(1-4)] by blast
  then show "\<exists>s' C'. dom_exec (OpInsertEnd p x) s = Some s' \<and> dom_inv doc s' C' T"
    using ins [OF InsertEndChild_tracks [OF s1(1)] s1(2,3)] by auto
  obtain s2 where s2: "InsertFirstChild p x s = Some (Some x, s2)" "linked (dm_nodes s2) (C(p := x # C p))" "same_content s s2"
    using InsertFirstChild_linked [OF l p(1-4)] by blast
  then show "\<exists>s' C'. dom_exec (OpInsertFirst p x) s = Some s' \<and> dom_inv doc s' C' T"
    using ins [OF InsertFirstChild_tracks [OF s2(1)] s2(2,3)] by auto
  assume "has_parent s y p"
  then have "y \<in> set (C p)" using parents_below [OF l] by (simp add: has_parent_def below_def)
  then obtain xs ys where C: "C p = xs @ y # ys" by (meson split_list)
  obtain s3 where s3: "InsertAfterChild p y x s = Some (Some x, s3)" "linked (dm_nodes s3) (C(p := xs @ y # x # ys))" "same_content s s3"
    using InsertAfterChild_linked [OF l p(1-4) C] by blast
  then show "\<exists>s' C'. dom_exec (OpInsertAfter p y x) s = Some s' \<and> dom_inv doc s' C' T"
    using ins [OF InsertAfterChild_tracks [OF s3(1)] s3(2,3)] C by auto
qed

lemma descendant_role: "linked (dm_nodes s) C \<Longrightarrow> x \<in> descendants C p \<Longrightarrow> role s x \<noteq> Some (k, None)"
proof -
  assume l: "linked (dm_nodes s) C" and "x \<in> descendants C p"
  then obtain q where "x \<in> set (C q)" by (auto simp: descendants_def below_def elim: converse_tranclE)
  then show ?thesis using linkedD(1) [OF l, of x q] by (auto simp: role_def)
qed

lemma keeps_rest_role: "keeps_rest p D s s' \<Longrightarrow> p \<notin> D \<Longrightarrow> (\<And>x. x \<in> D \<Longrightarrow> dm_nodes s' x = None) \<Longrightarrow> role s' = role s |` (- D)"
proof
  fix x assume k: "keeps_rest p D s s'" and p: "p \<notin> D" and D: "\<And>x. x \<in> D \<Longrightarrow> dm_nodes s' x = None"
  consider "x \<in> D" | "x = p" | "x \<notin> insert p D" by blast
  then show "role s' x = (role s |` (- D)) x"
  proof cases
    case 2
    have "map_option link_of (dm_nodes s' p) = map_option link_of (dm_nodes s p)" "map_option content_of (dm_nodes s' p) = map_option content_of (dm_nodes s p)"
      using k p by (simp_all add: keeps_rest_def)
    then show ?thesis using 2 p by (cases "dm_nodes s p"; cases "dm_nodes s' p") (auto simp: role_def link_of_def content_of_def)
  next
    case 3
    then have "dm_nodes s' x = dm_nodes s x" using k by (simp add: keeps_rest_def)
    then show ?thesis using 3 by (simp add: role_def)
  qed (use D in \<open>simp add: role_def\<close>)
qed

lemma delete_children_inv:
  assumes "dom_inv doc s C T" "dm_nodes s p \<noteq> None"
  shows "\<exists>s'. DeleteChildren p s = Some s' \<and> role s' = role s |` (- descendants C p) \<and>
    dom_inv doc s' (without (insert p (descendants C p)) C) (without (descendants C p) T)"
proof -
  have l: "linked (dm_nodes s) C" and ow: "owned s T" using assms(1) by (simp_all add: dom_inv_def)
  obtain s' where s': "DeleteChildren p s = Some s'" "deleted_below C T p s s'" using DeleteChildren_all [OF l ow assms(2)] by blast
  have "role s' = role s |` (- descendants C p)"
    by (rule keeps_rest_role [OF _ descendants_irrefl [OF l]]) (use s'(2) in \<open>auto simp: deleted_below_def cleared_def\<close>)
  then show ?thesis
    using delete_inv [OF assms(1) _ _ _ _ DeleteChildren_untracked [OF s'(1)] descendant_role [OF l]] s' by (simp add: deleted_below_def)
qed

lemma delete_node_inv:
  assumes inv: "dom_inv doc s C T" and p: "has_parent s x p"
  shows "\<exists>s' C' T'. DeleteChild p x s = Some s' \<and> DeleteNode x s = Some s' \<and> dom_inv doc s' C' T'"
proof -
  have l: "linked (dm_nodes s) C" and ow: "owned s T" using inv by (simp_all add: dom_inv_def)
  have x: "x \<in> set (C p)" using p parents_below [OF l] by (simp add: has_parent_def below_def)
  then obtain xs ys where C: "C p = xs @ x # ys" by (meson split_list)
  let ?E = "insert x (descendants C x)" let ?C = "without ?E (C(p := xs @ ys))"
  obtain s' where s': "DELETE_NODE x s = Some s'" "linked (dm_nodes s') ?C" "owned s' (without ?E T)" "cleared ?E T s s'"
    "\<And>y. y \<notin> ?E \<Longrightarrow> map_option content_of (dm_nodes s' y) = map_option content_of (dm_nodes s y)"
    using DELETE_NODE_linked [OF l ow C] by blast
  have E: "role s y \<noteq> Some (k, None)" if "y \<in> ?E" for y k
    using that descendant_role [OF l] descendants_child(1) [where C = C and p = p, OF x] by blast
  have role: "role s' y = (role s |` (- ?E)) y" for y
  proof (cases "y \<in> ?E")
    case True
    then have "dm_nodes s' y = None" using s'(4) by (auto simp: cleared_def)
    then show ?thesis using True by (simp add: role_def)
  next
    case False
    have "map_option (fst \<circ> content_of) (dm_nodes s' y) = map_option (fst \<circ> content_of) (dm_nodes s y)" using s'(5) [OF False] by (metis option.map_comp)
    then have kind: "map_option dn_kind (dm_nodes s' y) = map_option dn_kind (dm_nodes s y)" by (simp add: content_of_def comp_def)
    have "q \<notin> ?E" if "y \<in> set (C q)" for q
      using False that descendants_child [where C = C and p = q, OF that] by (auto simp: descendants_def below_def intro: trancl_into_trancl2)
    then have "y \<in> set (?C q) \<longleftrightarrow> y \<in> set (C q)" for q using False C by (auto simp: without_def)
    then have "role s' y = role s y" by (rule role_eqI [OF l s'(2) kind])
    then show ?thesis using False by simp
  qed
  have "dom_inv doc s' ?C (without ?E T)"
    by (rule delete_inv [OF inv s'(2-4) ext [OF role] DELETE_NODE_untracked [OF s'(1)] E])
  moreover have "DeleteChild p x s = Some s'" "DeleteNode x s = Some s'"
    using linkedD(1,4) [OF l x] s'(1) by (auto simp: DeleteChild_def DeleteNode_def)
  ultimately show ?thesis by blast
qed

lemma proper_names_keys: "proper_names s as \<longleftrightarrow> (\<forall>k \<in> fst ` set (map (pair_of s) as). proper_str k)"
  by (simp add: proper_names_def)

lemma elementD:
  assumes "dom_inv doc s C T" "has_element s p"
  obtains n where "dm_nodes s p = Some n" "p \<noteq> doc"
proof -
  obtain n where n: "dm_nodes s p = Some n" "dn_kind n = DElement" using assms(2) by (auto simp: has_element_def)
  have "role s doc = Some (DDocument, None)" using assms(1) by (simp add: dom_inv_def)
  then have "p \<noteq> doc" using n by (auto simp: role_def)
  then show ?thesis using that n(1) by blast
qed

lemma set_attribute_inv:
  assumes inv: "dom_inv doc s C T" and p: "has_element s p" and name: "proper_str name" and a: "dm_attributes s a = None"
  shows "\<exists>s' T'. SetAttribute p name v a s = Some s' \<and> dom_inv doc s' C T'"
proof -
  obtain n where n: "dm_nodes s p = Some n" "p \<noteq> doc" by (rule elementD [OF inv p])
  have ow: "owned s T" and names: "proper_names s (T p)" and cover: "dom (dm_attributes s) = (\<Union>x. set (T x))" using inv by (simp_all add: dom_inv_def)
  have upd: "proper_names s' as" if "map (pair_of s') as = AList.update name v (map (pair_of s) (T p))" for s' as
    using names name unfolding proper_names_keys that dom_update by auto
  show ?thesis
  proof (cases "\<exists>b \<in> set (T p). attr_named s name b")
    case True
    then obtain us b vs where "T p = us @ b # vs" "\<forall>c \<in> set us. \<not> attr_named s name c" "attr_named s name b"
      using split_list_first_prop [of "T p" "attr_named s name"] by metis
    then obtain s' where s': "SetAttribute p name v a s = Some s'" "owned s' (T(p := T p))" "map (pair_of s') (T p) = AList.update name v (map (pair_of s) (T p))"
      "same_but p T s s'" "dom (dm_attributes s') = dom (dm_attributes s)" using SetAttribute_present [OF ow n(1) names name] by blast
    have "dom (dm_attributes s') = dom (dm_attributes s) - set (T p) \<union> set (T p)" using s'(5) cover by blast
    then show ?thesis using attr_inv [OF inv s'(2,4) _ upd [OF s'(3)] SetAttribute_untracked [OF s'(1)] n(2)] s'(1) by blast
  next
    case False
    then obtain s' where s': "SetAttribute p name v a s = Some s'" "owned s' (T(p := T p @ [a]))" "map (pair_of s') (T p @ [a]) = AList.update name v (map (pair_of s) (T p))"
      "same_but p T s s'" "dom (dm_attributes s') = insert a (dom (dm_attributes s))" using SetAttribute_absent [OF ow n(1) names name _ a] by blast
    have "dom (dm_attributes s') = dom (dm_attributes s) - set (T p) \<union> set (T p @ [a])" using s'(5) cover by auto
    then show ?thesis using attr_inv [OF inv s'(2,4) _ upd [OF s'(3)] SetAttribute_untracked [OF s'(1)] n(2)] s'(1) by blast
  qed
qed

lemma delete_attribute_inv:
  assumes inv: "dom_inv doc s C T" and p: "has_element s p" and name: "proper_str name"
  shows "\<exists>s' T'. DeleteAttribute p name s = Some s' \<and> dom_inv doc s' C T'"
proof -
  obtain n where n: "dm_nodes s p = Some n" "p \<noteq> doc" by (rule elementD [OF inv p])
  have ow: "owned s T" and names: "proper_names s (T p)" and cover: "dom (dm_attributes s) = (\<Union>x. set (T x))" using inv by (simp_all add: dom_inv_def)
  show ?thesis
  proof (cases "\<exists>b \<in> set (T p). attr_named s name b")
    case True
    then obtain us b vs where b: "T p = us @ b # vs" "\<forall>c \<in> set us. \<not> attr_named s name c" "attr_named s name b"
      using split_list_first_prop [of "T p" "attr_named s name"] by metis
    then obtain s' where s': "DeleteAttribute p name s = Some s'" "owned s' (T(p := us @ vs))" "map (pair_of s') (us @ vs) = map (pair_of s) (us @ vs)"
      "same_but p T s s'" "dom (dm_attributes s') = dom (dm_attributes s) - {b}" using DeleteAttribute_present [OF ow n(1) names name] by blast
    have "distinct (T p)" using ow n(1) by (auto simp: owned_def)
    moreover have "set (T p) \<subseteq> dom (dm_attributes s)" using cover by blast
    ultimately have "dom (dm_attributes s') = dom (dm_attributes s) - set (T p) \<union> set (us @ vs)" using s'(5) b(1) by auto
    moreover have "proper_names s' (us @ vs)" using names b(1) unfolding proper_names_keys s'(3) by auto
    ultimately show ?thesis using attr_inv [OF inv s'(2,4) _ _ DeleteAttribute_untracked [OF s'(1)] n(2)] s'(1) by blast
  next
    case False
    have "DeleteAttribute p name s = delete_loop p name (endp None (T p)) None s"
      using n(1) names name False owned_path [OF ow n(1)] delete_loop_pass [of s "dn_rootAttribute n" "T p" None name p None] by (simp add: DeleteAttribute_def)
    also have "\<dots> = Some s" by (subst delete_loop.simps) simp
    finally show ?thesis using inv by blast
  qed
qed

lemmas new_defs = NewElement_def NewComment_def NewText_def NewDeclaration_def NewUnknown_def

lemma exec_inv:
  assumes inv: "dom_inv doc s C T" and op: "permitted doc s oper"
  shows "\<exists>s' C' T'. dom_exec oper s = Some s' \<and> dom_inv doc s' C' T'"
proof (cases oper)
  case (OpValue v p)
  then show ?thesis using value_inv [OF inv, of p v] op by auto
next
  case (OpInsertEnd p x)
  then show ?thesis using insert_op_inv(1) [OF inv, of p x] op by auto
next
  case (OpInsertFirst p x)
  then show ?thesis using insert_op_inv(2) [OF inv, of p x] op by auto
next
  case (OpInsertAfter p y x)
  then show ?thesis using insert_op_inv(3) [OF inv, of p x y] op by auto
next
  case (OpDeleteChild p x)
  then show ?thesis using delete_node_inv [OF inv, of x p] op by auto
next
  case (OpDeleteNode x)
  then show ?thesis using delete_node_inv [OF inv, of x] op by fastforce
next
  case (OpDeleteChildren p)
  then show ?thesis using delete_children_inv [OF inv, of p] op by auto
next
  case (OpSetAttribute p name v a)
  then show ?thesis using set_attribute_inv [OF inv, of p name a v] op by auto
next
  case (OpDeleteAttribute p name)
  then show ?thesis using delete_attribute_inv [OF inv, of p name] op by auto
qed (use op new_inv [OF inv] in \<open>(simp only: dom_exec.simps permitted.simps new_defs, blast)+\<close>)

lemma reach_inv: "dom_reach doc s \<Longrightarrow> \<exists>C T. dom_inv doc s C T"
proof (induction rule: dom_reach.induct)
  case (step s oper s')
  then show ?case using exec_inv by fastforce
qed (use dom_inv_start in blast)

section \<open>What the destructor finds\<close>

lemma below_finite: "linked N C \<Longrightarrow> finite (below C)"
proof (rule finite_subset)
  assume l: "linked N C"
  then show "below C \<subseteq> dom N \<times> dom N" using linkedD(1,4) by (fastforce simp: below_def)
  show "finite (dom N \<times> dom N)" using l by (simp add: linked_def)
qed

text \<open>Every node is below a node without parent.\<close>

lemma root_of:
  assumes "linked N C"
  shows "N x \<noteq> None \<Longrightarrow> \<exists>r n. (x, r) \<in> (below C)\<^sup>* \<and> N r = Some n \<and> dn_parent n = None"
proof (induction x rule: wf_induct_rule [OF finite_acyclic_wf_converse [OF below_finite [OF assms]]])
  case 1
  then show ?case using assms by (simp add: linked_def)
next
  case (2 x)
  then obtain n where n: "N x = Some n" by blast
  show ?case
  proof (cases "dn_parent n")
    case (Some p)
    then have "x \<in> set (C p)" using parent_linked [OF assms n] by simp
    then have xp: "(x, p) \<in> below C" "N p \<noteq> None" using linkedD(4) [OF assms] by (auto simp: below_def)
    then obtain r m where "(p, r) \<in> (below C)\<^sup>*" "N r = Some m" "dn_parent m = None" using 2(1) [of p] by auto
    then show ?thesis using xp(1) by (meson converse_rtrancl_into_rtrancl)
  qed (use n in blast)
qed

lemma allocated_nodes: "pool \<noteq> AttributePool \<Longrightarrow> allocated s pool = {x. \<exists>k q. role s x = Some (k, q) \<and> k \<noteq> DDocument \<and> pool_of k = pool}"
  by (auto simp: allocated_def role_def)

lemma pool_checked:
  assumes "dom_inv doc s C T" "pool \<noteq> AttributePool"
  shows "CurrentAllocs s pool = dm_untracked s pool \<longleftrightarrow> (\<forall>x k q. role s x = Some (k, q) \<and> x \<noteq> doc \<and> pool_of k = pool \<longrightarrow> q = None)"
proof -
  have doc: "k \<noteq> DDocument \<longleftrightarrow> x \<noteq> doc" if "role s x = Some (k, q)" for x k q using assms(1) that unfolding dom_inv_def by blast
  have sub: "untracked_in (role s) pool \<subseteq> allocated s pool" by (auto simp: allocated_nodes [OF assms(2)] untracked_in_def)
  have "allocated s pool \<subseteq> dom (dm_nodes s)" by (auto simp: allocated_nodes [OF assms(2)] role_def)
  then have "finite (allocated s pool)" using assms(1) finite_subset by (auto simp: dom_inv_def linked_def)
  then have "card (allocated s pool) = card (untracked_in (role s) pool) \<longleftrightarrow> allocated s pool = untracked_in (role s) pool" using sub card_subset_eq by metis
  moreover have "CurrentAllocs s pool = dm_untracked s pool \<longleftrightarrow> card (allocated s pool) = card (untracked_in (role s) pool)"
    using assms(1) by (simp add: dom_inv_def CurrentAllocs_def)
  moreover have "allocated s pool = untracked_in (role s) pool \<longleftrightarrow> allocated s pool \<subseteq> untracked_in (role s) pool" using sub by blast
  moreover have "allocated s pool \<subseteq> untracked_in (role s) pool \<longleftrightarrow> (\<forall>x k q. role s x = Some (k, q) \<and> k \<noteq> DDocument \<and> pool_of k = pool \<longrightarrow> q = None)"
    unfolding allocated_nodes [OF assms(2)] untracked_in_def by (simp add: subset_iff) (metis (no_types) Pair_inject option.inject)
  moreover have "\<dots> \<longleftrightarrow> (\<forall>x k q. role s x = Some (k, q) \<and> x \<noteq> doc \<and> pool_of k = pool \<longrightarrow> q = None)" using doc by blast
  ultimately show ?thesis by simp
qed

lemma attributes_checked:
  assumes "dom_inv doc s C T"
  shows "CurrentAllocs s AttributePool = dm_untracked s AttributePool \<longleftrightarrow> (\<forall>x. T x = [])"
proof -
  have "pool_of k \<noteq> AttributePool" for k by (cases k) auto
  then have "untracked_in (role s) AttributePool = {}" by (simp add: untracked_in_def)
  then have zero: "dm_untracked s AttributePool = 0" using assms by (simp add: dom_inv_def)
  have cover: "dom (dm_attributes s) = (\<Union>x. set (T x))" and ow: "owned s T" using assms by (simp_all add: dom_inv_def)
  have "x \<in> dom (dm_nodes s)" if "a \<in> set (T x)" for a x using ow that by (cases "dm_nodes s x") (auto simp: owned_def)
  then have "dom (dm_attributes s) \<subseteq> (\<Union>x \<in> dom (dm_nodes s). set (T x))" unfolding cover by fast
  moreover have "finite (dom (dm_nodes s))" using assms by (simp add: dom_inv_def linked_def)
  ultimately have "finite (dom (dm_attributes s))" by (meson List.finite_set finite_UN finite_subset)
  then have "CurrentAllocs s AttributePool = 0 \<longleftrightarrow> dom (dm_attributes s) = {}" by (simp add: CurrentAllocs_def allocated_def)
  also have "\<dots> \<longleftrightarrow> (\<forall>x. T x = [])" unfolding cover by simp
  finally show ?thesis by (simp add: zero)
qed

lemma pool_cases: "(\<forall>k. P (pool_of k)) \<longleftrightarrow> P ElementPool \<and> P TextPool \<and> P CommentPool"
proof
  show "\<forall>k. P (pool_of k) \<Longrightarrow> P ElementPool \<and> P TextPool \<and> P CommentPool" by (metis pool_of.simps(1,2,4))
  show "\<forall>k. P (pool_of k)" if "P ElementPool \<and> P TextPool \<and> P CommentPool"
  proof
    show "P (pool_of k)" for k using that by (cases k) auto
  qed
qed

lemma checks_left:
  assumes "dom_inv doc s C T"
  shows "list_all (\<lambda>pool. CurrentAllocs s pool = dm_untracked s pool) [ElementPool, AttributePool, TextPool, CommentPool] \<longleftrightarrow>
    (\<forall>x k q. role s x = Some (k, q) \<and> x \<noteq> doc \<longrightarrow> q = None) \<and> (\<forall>x. T x = [])"
proof -
  have "(\<forall>x k q. role s x = Some (k, q) \<and> x \<noteq> doc \<longrightarrow> q = None) \<longleftrightarrow>
      (\<forall>k'. \<forall>x k q. role s x = Some (k, q) \<and> x \<noteq> doc \<and> pool_of k = pool_of k' \<longrightarrow> q = None)" by blast
  also have "\<dots> \<longleftrightarrow> (\<forall>k'. CurrentAllocs s (pool_of k') = dm_untracked s (pool_of k'))"
  proof -
    have "pool_of k \<noteq> AttributePool" for k by (cases k) auto
    then show ?thesis using pool_checked [OF assms] by simp
  qed
  also have "\<dots> \<longleftrightarrow> CurrentAllocs s ElementPool = dm_untracked s ElementPool \<and> CurrentAllocs s TextPool = dm_untracked s TextPool \<and>
      CurrentAllocs s CommentPool = dm_untracked s CommentPool" by (rule pool_cases)
  finally show ?thesis using attributes_checked [OF assms] by auto
qed

lemma first_child_none: "linked N C \<Longrightarrow> N x = Some n \<Longrightarrow> dn_firstChild n = None \<longleftrightarrow> C x = []"
  using linkedD(2) [of N C x] by (cases "C x") (auto simp: children_ok_def)

lemma root_attribute_none: "owned s T \<Longrightarrow> dm_nodes s x = Some n \<Longrightarrow> dn_rootAttribute n = None \<longleftrightarrow> T x = []"
  using owned_path [of s T x n] by (cases "T x") auto

lemma descendants_up:
  assumes "linked N C" "y \<in> set (C q)" "y \<in> descendants C p"
  shows "q = p \<or> q \<in> descendants C p"
proof -
  obtain r where r: "(y, r) \<in> below C" "r = p \<or> (r, p) \<in> (below C)\<^sup>+" using assms(3) unfolding descendants_def by (auto elim: converse_tranclE)
  then have "r = q" using linkedD(1) [OF assms(1), of y r] linkedD(1) [OF assms(1,2)] by (auto simp: below_def)
  then show ?thesis using r(2) by (auto simp: descendants_def)
qed

text \<open>When no other node without parent has children, a node that is not below \<open>p\<close> has no parent.\<close>

lemma outside_loose:
  assumes "linked N C" "\<And>r n. N r = Some n \<Longrightarrow> r \<noteq> p \<Longrightarrow> dn_parent n = None \<Longrightarrow> C r = []" "N x = Some n" "x \<notin> descendants C p"
  shows "dn_parent n = None"
proof -
  obtain r m where r: "(x, r) \<in> (below C)\<^sup>*" "N r = Some m" "dn_parent m = None" using root_of [OF assms(1), of x] assms(3) by auto
  have "x = r"
  proof (rule ccontr)
    assume "x \<noteq> r"
    then have xr: "(x, r) \<in> (below C)\<^sup>+" using r(1) by (meson rtranclD)
    then have "C r \<noteq> []" "r \<noteq> p" using assms(4) by (auto simp: below_def descendants_def elim: tranclE)
    then show False using assms(2) [OF r(2) _ r(3)] by simp
  qed
  then show ?thesis using r assms(3) by simp
qed

text \<open>What is left when the children of the document are deleted.\<close>

lemma left_iff:
  assumes inv: "dom_inv doc s C T" and D: "D = descendants C doc"
  shows "(\<forall>x k q. (role s |` (- D)) x = Some (k, q) \<and> x \<noteq> doc \<longrightarrow> q = None) \<and> (\<forall>x. without D T x = []) \<longleftrightarrow>
    (\<forall>x n. dm_nodes s x = Some n \<and> x \<noteq> doc \<and> dn_parent n = None \<longrightarrow> dn_firstChild n = None \<and> dn_rootAttribute n = None)" (is "?left \<longleftrightarrow> ?plain")
proof
  have l: "linked (dm_nodes s) C" and ow: "owned s T" using inv by (simp_all add: dom_inv_def)
  note first = first_child_none [OF l] and root = root_attribute_none [OF ow]
  {
    assume left: ?left
    show ?plain
    proof (intro allI impI)
      fix x n assume x: "dm_nodes s x = Some n \<and> x \<noteq> doc \<and> dn_parent n = None"
      then have out: "x \<notin> D" using descendant_role [OF l, of x doc "dn_kind n"] by (auto simp: D role_def)
      have False if y: "y \<in> set (C x)" for y
      proof -
        obtain m where m: "dm_nodes s y = Some m" "dn_parent m = Some x" using linkedD(1) [OF l y] by blast
        then have "y \<notin> D" "y \<noteq> doc" using descendants_up [OF l y] out x inv by (auto simp: D role_def dom_inv_def)
        then have "(role s |` (- D)) y = Some (dn_kind m, Some x)" using m by (simp add: role_def)
        then show False using left \<open>y \<noteq> doc\<close> by blast
      qed
      then have "C x = []" by (metis list.set_intros(1) neq_Nil_conv)
      moreover have "T x = []" using left out by (metis without_def)
      ultimately show "dn_firstChild n = None \<and> dn_rootAttribute n = None" using first root x by auto
    qed
  next
    assume plain: ?plain
    then have loose: "dn_parent n = None" if "dm_nodes s x = Some n" "x \<notin> D" for x n
      using outside_loose [OF l, of doc x n] first that unfolding D by blast
    have "T x = []" if "x \<notin> D" for x
    proof (cases "dm_nodes s x")
      case (Some n)
      then show ?thesis using loose [OF Some that] plain root [OF Some] inv by (cases "x = doc") (auto simp: dom_inv_def)
    qed (use ow in \<open>simp add: owned_def\<close>)
    then show ?left using loose by (auto simp: role_def restrict_map_def without_def)
  }
qed

section \<open>Properties\<close>



text \<open>A document whose user made an element and a text, put the text into the element, and never inserted the element.\<close>

definition demo_new_node :: "dom_kind \<Rightarrow> string \<Rightarrow> dom_node" where
  "demo_new_node kind v = \<lparr>dn_kind = kind, dn_value = v, dn_parent = None, dn_firstChild = None, dn_lastChild = None, dn_prev = None, dn_next = None, dn_rootAttribute = None\<rparr>"

definition demo_loose :: dom where
  "demo_loose = \<lparr>dm_nodes = [0 \<mapsto> demo_new_node DDocument [], 1 \<mapsto> (demo_new_node DElement ''a'')\<lparr>dn_firstChild := Some 2, dn_lastChild := Some 2\<rparr>,
       2 \<mapsto> (demo_new_node (DText False) ''t'')\<lparr>dn_parent := Some 1\<rparr>],
     dm_attributes = Map.empty, dm_untracked = (\<lambda>_. 0)(ElementPool := 1)\<rparr>"

lemma demo_reach: "dom_reach 0 demo_loose"
proof -
  let ?s1 = "\<lparr>dm_nodes = [0 \<mapsto> demo_new_node DDocument [], 1 \<mapsto> demo_new_node DElement ''a''], dm_attributes = Map.empty, dm_untracked = (\<lambda>_. 0)(ElementPool := 1)\<rparr>"
  let ?s2 = "?s1\<lparr>dm_nodes := (dm_nodes ?s1)(2 \<mapsto> demo_new_node (DText False) ''t''), dm_untracked := (dm_untracked ?s1)(TextPool := 1)\<rparr>"
  note defs = XMLDocument_node_def new_defs SetValue_def XMLNode_new_def upd_def count_untracked_def demo_new_node_def
  have 1: "dom_reach 0 ?s1" by (rule dom_reach.step [OF dom_reach.start, of 0 "OpElement ''a'' 1"]) (simp_all add: defs)
  have 2: "dom_reach 0 ?s2" by (rule dom_reach.step [OF 1, of "OpText ''t'' 2"]) (simp_all add: defs)
  have "parents ?s2 = {}" by (auto simp: parents_def demo_new_node_def)
  then have "permitted 0 ?s2 (OpInsertEnd 1 2)" by (simp add: insertable_def loose_def demo_new_node_def)
  moreover have "dom_exec (OpInsertEnd 1 2) ?s2 = Some demo_loose"
    by (simp add: InsertEndChild_def SetTracked_def defs demo_loose_def fun_upd_twist fun_eq_iff)
  ultimately show ?thesis by (rule dom_reach.step [OF 2])
qed



end
