(* ===== verification/BlmSync.thy ===== *)
theory BlmSync
  imports BlmTimer
begin

text \<open>
  The objects of \<open>src/blmbase.cpp\<close> and \<open>src/blmcomm.cpp\<close> that live in PJLIB: memory pools, atomic integers,
  mutexes, semaphores, threads, TCP connections, and the rest of the poll of the ioqueue. PJLIB is a record of
  functions over its own state. The theorems: what a constructor takes its destructor gives back, every
  object before the pool it lives in; a thread never calls a deleted callback; a connection closes its
  socket twice.
\<close>

section \<open>PJLIB\<close>

record ParsedTime =
  pt_wday :: int
  pt_day :: int
  pt_mon :: int
  pt_year :: int
  pt_sec :: int
  pt_min :: int
  pt_hour :: int
  pt_msec :: int

text \<open>A function that makes an object returns a status and what it stored in the variable of the caller, if
  anything. \<open>None\<close> as a result of the other functions is undefined behaviour.\<close>

record 'w pjlib =
  pj_EPENDING :: int
  pj_log :: "log_line \<Rightarrow> 'w \<Rightarrow> 'w"
  pj_text :: "'w \<Rightarrow> string"
  pj_set_log_func :: "nat \<Rightarrow> 'w \<Rightarrow> 'w"
  pj_init :: "'w \<Rightarrow> 'w"
  pj_util_init :: "'w \<Rightarrow> 'w"
  pj_caching_pool_init :: "'w \<Rightarrow> 'w"
  pj_caching_pool_destroy :: "'w \<Rightarrow> 'w"
  pj_pool_create :: "'w \<Rightarrow> nat option \<times> 'w"
  pj_pool_release :: "nat \<Rightarrow> 'w \<Rightarrow> 'w option"
  pj_atomic_create :: "nat option \<Rightarrow> int \<Rightarrow> 'w \<Rightarrow> int \<times> nat option \<times> 'w"
  pj_atomic_destroy :: "nat \<Rightarrow> 'w \<Rightarrow> (int \<times> 'w) option"
  pj_atomic_set :: "nat \<Rightarrow> int \<Rightarrow> 'w \<Rightarrow> 'w option"
  pj_atomic_get :: "nat \<Rightarrow> 'w \<Rightarrow> (int \<times> 'w) option"
  pj_atomic_add_and_get :: "nat \<Rightarrow> int \<Rightarrow> 'w \<Rightarrow> (int \<times> 'w) option"
  pj_mutex_create_recursive :: "nat option \<Rightarrow> 'w \<Rightarrow> int \<times> nat option \<times> 'w"
  pj_mutex_destroy :: "nat \<Rightarrow> 'w \<Rightarrow> (int \<times> 'w) option"
  pj_mutex_lock :: "nat \<Rightarrow> 'w \<Rightarrow> (int \<times> 'w) option"
  pj_mutex_unlock :: "nat \<Rightarrow> 'w \<Rightarrow> (int \<times> 'w) option"
  pj_mutex_trylock :: "nat \<Rightarrow> 'w \<Rightarrow> (int \<times> 'w) option"
  pj_sem_create :: "nat option \<Rightarrow> u32 \<Rightarrow> u32 \<Rightarrow> 'w \<Rightarrow> int \<times> nat option \<times> 'w"
  pj_sem_destroy :: "nat \<Rightarrow> 'w \<Rightarrow> (int \<times> 'w) option"
  pj_sem_wait :: "nat \<Rightarrow> 'w \<Rightarrow> (int \<times> 'w) option"
  pj_sem_trywait :: "nat \<Rightarrow> 'w \<Rightarrow> (int \<times> 'w) option"
  pj_sem_post :: "nat \<Rightarrow> 'w \<Rightarrow> (int \<times> 'w) option"
  pj_gettimeofday :: "'w \<Rightarrow> int \<times> Time option"
  pj_time_decode :: "Time \<Rightarrow> 'w \<Rightarrow> int \<times> ParsedTime option"
  pj_time_encode :: "ParsedTime \<Rightarrow> 'w \<Rightarrow> int \<times> Time option"
  pj_thread_create :: "nat option \<Rightarrow> string \<Rightarrow> 'w \<Rightarrow> int \<times> nat option \<times> 'w"
  pj_thread_join :: "nat \<Rightarrow> 'w \<Rightarrow> (int \<times> 'w) option"
  pj_thread_destroy :: "nat \<Rightarrow> 'w \<Rightarrow> (int \<times> 'w) option"
  pj_thread_sleep :: "u32 \<Rightarrow> 'w \<Rightarrow> int \<times> 'w"
  pj_sockaddr_in_init :: "'w \<Rightarrow> int \<times> 'w"
  pj_inet_addr :: "string \<Rightarrow> u32"
  pj_htons :: "16 word \<Rightarrow> 16 word"
  pj_sock_socket :: "'w \<Rightarrow> int \<times> nat option \<times> 'w"
  pj_sock_close :: "nat \<Rightarrow> 'w \<Rightarrow> int \<times> 'w"
  pj_ioqueue_register_sock :: "nat option \<Rightarrow> nat \<Rightarrow> 'w \<Rightarrow> int \<times> nat option \<times> 'w"
  pj_ioqueue_set_user_data :: "nat \<Rightarrow> 'w \<Rightarrow> 'w option"
  pj_ioqueue_connect :: "nat \<Rightarrow> u32 \<times> 16 word \<Rightarrow> 'w \<Rightarrow> (int \<times> 'w) option"
  pj_ioqueue_unregister :: "nat \<Rightarrow> 'w \<Rightarrow> (int \<times> 'w) option"
  pj_ioqueue_poll :: "int \<times> int \<Rightarrow> 'w \<Rightarrow> int \<times> 'w"
  pj_timer_heap_poll :: "'w \<Rightarrow> 'w"

definition blminit :: "'w pjlib \<Rightarrow> 'w \<Rightarrow> 'w" where
  "blminit pj w = pj_caching_pool_init pj (pj_util_init pj (pj_init pj w))"

definition blmshutdown :: "'w pjlib \<Rightarrow> 'w \<Rightarrow> 'w" where
  "blmshutdown pj w = pj_caching_pool_destroy pj w"

definition blmSetLogOutput :: "'w pjlib \<Rightarrow> nat \<Rightarrow> 'w \<Rightarrow> 'w" where
  "blmSetLogOutput pj logfun w = pj_set_log_func pj logfun w"

text \<open>The macros \<open>checkpj\<close> and \<open>checktrue\<close>: the line that the checker logs reaches PJLIB.\<close>

definition checkpj :: "'w pjlib \<Rightarrow> log_state \<Rightarrow> int \<Rightarrow> 'w \<Rightarrow> 'w" where
  "checkpj pj l status w = fold (pj_log pj) (CheckerPjStatus l (pj_EPENDING pj) status (pj_text pj w)) w"

definition checktrue :: "'w pjlib \<Rightarrow> log_state \<Rightarrow> bool \<Rightarrow> 'w \<Rightarrow> 'w" where
  "checktrue pj l status w = fold (pj_log pj) (CheckerTrue l status (pj_text pj w)) w"

text \<open>A call whose status is only checked.\<close>

definition checked :: "'w pjlib \<Rightarrow> log_state \<Rightarrow> (int \<times> 'w) option \<Rightarrow> 'w option" where
  "checked pj l r = map_option (\<lambda>(st, w). checkpj pj l st w) r"

section \<open>Pools, atomics, mutexes and semaphores\<close>

record MemPool =
  pool :: "nat option"
  owned :: bool

definition MemPool_open :: "'w pjlib \<Rightarrow> log_state \<Rightarrow> MemPool option \<Rightarrow> 'w \<Rightarrow> MemPool \<times> 'w" where
  "MemPool_open pj l p w =
     (let (q, w) = (case p of Some mp \<Rightarrow> (pool mp, w) | None \<Rightarrow> pj_pool_create pj w)
      in (\<lparr>pool = q, owned = (p = None)\<rparr>, checktrue pj l (q \<noteq> None) w))"

definition MemPool_delete :: "'w pjlib \<Rightarrow> MemPool \<Rightarrow> 'w \<Rightarrow> 'w option" where
  "MemPool_delete pj mp w = (if owned mp then Option.bind (pool mp) (\<lambda>p. pj_pool_release pj p w) else Some w)"

text \<open>An object that inherits from \<open>MemPool\<close> and has a pointer of PJLIB. A pointer that was not stored is read
  by the check at the end of the constructor, which is undefined.\<close>

record Handle = MemPool +
  handle :: nat

definition Handle_new ::
  "'w pjlib \<Rightarrow> log_state \<Rightarrow> bool \<Rightarrow> (nat option \<Rightarrow> 'w \<Rightarrow> int \<times> nat option \<times> 'w) \<Rightarrow> MemPool option \<Rightarrow> 'w \<Rightarrow> (Handle \<times> 'w) option" where
  "Handle_new pj l check create p w =
     (let (mp, w) = MemPool_open pj l p w;
          (st, h, w) = create (pool mp) w;
          w = (if check then checkpj pj l st w else w)
      in case h of
           None \<Rightarrow> None
         | Some h \<Rightarrow> Some (\<lparr>pool = pool mp, owned = owned mp, handle = h\<rparr>, checktrue pj l True w))"

definition Handle_delete :: "'w pjlib \<Rightarrow> log_state \<Rightarrow> (nat \<Rightarrow> 'w \<Rightarrow> (int \<times> 'w) option) \<Rightarrow> Handle \<Rightarrow> 'w \<Rightarrow> 'w option" where
  "Handle_delete pj l destroy a w = Option.bind (checked pj l (destroy (handle a) w)) (MemPool_delete pj (MemPool.truncate a))"

definition Atomic_new :: "'w pjlib \<Rightarrow> log_state \<Rightarrow> int \<Rightarrow> MemPool option \<Rightarrow> 'w \<Rightarrow> (Handle \<times> 'w) option" where
  "Atomic_new pj l initial = Handle_new pj l True (\<lambda>p. pj_atomic_create pj p initial)"

definition Atomic_delete :: "'w pjlib \<Rightarrow> log_state \<Rightarrow> Handle \<Rightarrow> 'w \<Rightarrow> 'w option" where
  "Atomic_delete pj l = Handle_delete pj l (pj_atomic_destroy pj)"

definition Atomic_set :: "'w pjlib \<Rightarrow> Handle \<Rightarrow> int \<Rightarrow> 'w \<Rightarrow> 'w option" where
  "Atomic_set pj a val w = pj_atomic_set pj (handle a) val w"

definition Atomic_get :: "'w pjlib \<Rightarrow> Handle \<Rightarrow> 'w \<Rightarrow> (int \<times> 'w) option" where
  "Atomic_get pj a w = pj_atomic_get pj (handle a) w"

definition Atomic_add :: "'w pjlib \<Rightarrow> Handle \<Rightarrow> int \<Rightarrow> 'w \<Rightarrow> (int \<times> 'w) option" where
  "Atomic_add pj a val w = pj_atomic_add_and_get pj (handle a) val w"

definition Mutex_new :: "'w pjlib \<Rightarrow> log_state \<Rightarrow> MemPool option \<Rightarrow> 'w \<Rightarrow> (Handle \<times> 'w) option" where
  "Mutex_new pj l = Handle_new pj l True (pj_mutex_create_recursive pj)"

definition Mutex_delete :: "'w pjlib \<Rightarrow> log_state \<Rightarrow> Handle \<Rightarrow> 'w \<Rightarrow> 'w option" where
  "Mutex_delete pj l = Handle_delete pj l (pj_mutex_destroy pj)"

definition Mutex_lock :: "'w pjlib \<Rightarrow> log_state \<Rightarrow> Handle \<Rightarrow> 'w \<Rightarrow> 'w option" where
  "Mutex_lock pj l m w = checked pj l (pj_mutex_lock pj (handle m) w)"

definition Mutex_unlock :: "'w pjlib \<Rightarrow> log_state \<Rightarrow> Handle \<Rightarrow> 'w \<Rightarrow> 'w option" where
  "Mutex_unlock pj l m w = checked pj l (pj_mutex_unlock pj (handle m) w)"

definition Mutex_trylock :: "'w pjlib \<Rightarrow> Handle \<Rightarrow> 'w \<Rightarrow> (bool \<times> 'w) option" where
  "Mutex_trylock pj m w = map_option (\<lambda>(st, w). (st = 0, w)) (pj_mutex_trylock pj (handle m) w)"

text \<open>A block that starts with \<open>Autolock al(m)\<close>.\<close>

definition Autolock :: "'w pjlib \<Rightarrow> log_state \<Rightarrow> Handle \<Rightarrow> ('w \<Rightarrow> ('a \<times> 'w) option) \<Rightarrow> 'w \<Rightarrow> ('a \<times> 'w) option" where
  "Autolock pj l m body w =
     Option.bind (Mutex_lock pj l m w) (\<lambda>w. Option.bind (body w) (\<lambda>(r, w). map_option (Pair r) (Mutex_unlock pj l m w)))"

definition Semaphore_new :: "'w pjlib \<Rightarrow> log_state \<Rightarrow> int \<Rightarrow> int \<Rightarrow> MemPool option \<Rightarrow> 'w \<Rightarrow> (Handle \<times> 'w) option" where
  "Semaphore_new pj l initial mx = Handle_new pj l False (\<lambda>p. pj_sem_create pj p (word_of_int initial) (word_of_int mx))"

definition Semaphore_delete :: "'w pjlib \<Rightarrow> log_state \<Rightarrow> Handle \<Rightarrow> 'w \<Rightarrow> 'w option" where
  "Semaphore_delete pj l = Handle_delete pj l (pj_sem_destroy pj)"

definition Semaphore_wait :: "'w pjlib \<Rightarrow> log_state \<Rightarrow> Handle \<Rightarrow> 'w \<Rightarrow> 'w option" where
  "Semaphore_wait pj l s w = checked pj l (pj_sem_wait pj (handle s) w)"

definition Semaphore_trywait :: "'w pjlib \<Rightarrow> Handle \<Rightarrow> 'w \<Rightarrow> (bool \<times> 'w) option" where
  "Semaphore_trywait pj s w = map_option (\<lambda>(st, w). (st = 0, w)) (pj_sem_trywait pj (handle s) w)"

definition Semaphore_post :: "'w pjlib \<Rightarrow> log_state \<Rightarrow> Handle \<Rightarrow> 'w \<Rightarrow> 'w option" where
  "Semaphore_post pj l s w = checked pj l (pj_sem_post pj (handle s) w)"

text \<open>The mutex a \<open>ProConPool\<close> inherits from, and its semaphore.\<close>

definition ProConPool_open :: "'w pjlib \<Rightarrow> log_state \<Rightarrow> 'w \<Rightarrow> ((Handle \<times> Handle) \<times> 'w) option" where
  "ProConPool_open pj l w =
     Option.bind (Mutex_new pj l None w) (\<lambda>(m, w). map_option (\<lambda>(s, w). ((m, s), w)) (Semaphore_new pj l 0 (1024 * 1024) None w))"

definition ProConPool_close :: "'w pjlib \<Rightarrow> log_state \<Rightarrow> Handle \<times> Handle \<Rightarrow> 'w \<Rightarrow> 'w option" where
  "ProConPool_close pj l p w = Option.bind (Semaphore_delete pj l (snd p) w) (Mutex_delete pj l (fst p))"

section \<open>Time\<close>

definition getTimeofday :: "'w pjlib \<Rightarrow> log_state \<Rightarrow> 'w \<Rightarrow> (Time \<times> 'w) option" where
  "getTimeofday pj l w = (case pj_gettimeofday pj w of (st, tv) \<Rightarrow> map_option (\<lambda>tv. (tv, checkpj pj l st w)) tv)"

definition value2Parsed :: "'w pjlib \<Rightarrow> log_state \<Rightarrow> Time \<Rightarrow> 'w \<Rightarrow> (ParsedTime \<times> 'w) option" where
  "value2Parsed pj l tv w = (case pj_time_decode pj tv w of (st, pt) \<Rightarrow> map_option (\<lambda>pt. (pt, checkpj pj l st w)) pt)"

definition parsed2Value :: "'w pjlib \<Rightarrow> log_state \<Rightarrow> ParsedTime \<Rightarrow> 'w \<Rightarrow> (Time \<times> 'w) option" where
  "parsed2Value pj l pt w = (case pj_time_encode pj pt w of (st, tv) \<Rightarrow> map_option (\<lambda>tv. (tv, checkpj pj l st w)) tv)"

section \<open>Threads\<close>

text \<open>\<open>sc\<close> is the callback, and \<open>callbacks\<close> are those that are not deleted.\<close>

record Thread = MemPool +
  pthread :: "nat option"
  sc :: nat

definition Thread_new :: "'w pjlib \<Rightarrow> log_state \<Rightarrow> nat \<Rightarrow> string \<Rightarrow> 'w \<Rightarrow> Thread \<times> 'w" where
  "Thread_new pj l callback name w =
     (let (mp, w) = MemPool_open pj l None w;
          (st, h, w) = pj_thread_create pj (pool mp) name w
      in (\<lparr>pool = pool mp, owned = owned mp, pthread = h, sc = callback\<rparr>, checkpj pj l st w))"

definition Thread_join :: "'w pjlib \<Rightarrow> log_state \<Rightarrow> Thread \<Rightarrow> 'w \<Rightarrow> 'w option" where
  "Thread_join pj l t w = Option.bind (pthread t) (\<lambda>h. checked pj l (pj_thread_join pj h w))"

definition delete_callback :: "nat \<Rightarrow> nat set \<Rightarrow> nat set option" where
  "delete_callback c cs = (if c \<in> cs then Some (cs - {c}) else None)"

definition Thread_delete :: "'w pjlib \<Rightarrow> log_state \<Rightarrow> Thread \<Rightarrow> nat set \<Rightarrow> 'w \<Rightarrow> (nat set \<times> 'w) option" where
  "Thread_delete pj l t cs w =
     Option.bind (Thread_join pj l t w) (\<lambda>w.
     Option.bind (delete_callback (sc t) cs) (\<lambda>cs.
     Option.bind (Option.bind (pthread t) (\<lambda>h. checked pj l (pj_thread_destroy pj h w))) (\<lambda>w.
     map_option (Pair cs) (MemPool_delete pj (MemPool.truncate t) w))))"

definition Thread_sleep :: "'w pjlib \<Rightarrow> log_state \<Rightarrow> u32 \<Rightarrow> 'w \<Rightarrow> 'w" where
  "Thread_sleep pj l msec w = (case pj_thread_sleep pj msec w of (st, w) \<Rightarrow> checkpj pj l st w)"

section \<open>Connections and the poll\<close>

record PjTcp = MemPool +
  tcp_ip :: string
  tcp_port :: int
  tcp_addr :: "u32 \<times> 16 word"
  tcp_sock :: nat
  tcp_key :: nat

text \<open>The lines of \<open>blmlog\<close> are folded into the state of PJLIB, as for the checkers; their text is \<open>str\<close>.\<close>

definition log_info :: "'w pjlib \<Rightarrow> log_state \<Rightarrow> string \<Rightarrow> 'w \<Rightarrow> 'w" where
  "log_info pj l str w = fold (pj_log pj) (blmlog l 3 ''blmcomm'' str) w"

definition PjTcp_new :: "'w pjlib \<Rightarrow> log_state \<Rightarrow> string \<Rightarrow> 16 word \<Rightarrow> 'w \<Rightarrow> (PjTcp \<times> 'w) option" where
  "PjTcp_new pj l ip port w =
     (let (mp, w) = MemPool_open pj l None w;
          w = log_info pj l (''constructing tcp: '' @ ip @ '': '' @ dec_int (sint port)) w;
          (st, w) = pj_sockaddr_in_init pj w;
          w = checkpj pj l st w;
          addr = (pj_inet_addr pj ip, pj_htons pj port);
          (st, sock, w) = pj_sock_socket pj w;
          w = checkpj pj l st w
      in Option.bind sock (\<lambda>sock.
         let (st, key, w) = pj_ioqueue_register_sock pj (pool mp) sock w;
             w = checkpj pj l st w
         in Option.bind key (\<lambda>key.
            Option.bind (pj_ioqueue_set_user_data pj key w) (\<lambda>w.
            map_option (Pair \<lparr>pool = pool mp, owned = owned mp, tcp_ip = ip, tcp_port = sint port, tcp_addr = addr, tcp_sock = sock, tcp_key = key\<rparr>)
              (checked pj l (pj_ioqueue_connect pj key addr w))))))"

definition PjTcp_delete :: "'w pjlib \<Rightarrow> log_state \<Rightarrow> PjTcp \<Rightarrow> 'w \<Rightarrow> 'w option" where
  "PjTcp_delete pj l t w =
     Option.bind (checked pj l (pj_ioqueue_unregister pj (tcp_key t) w)) (\<lambda>w.
     let (st, w) = pj_sock_close pj (tcp_sock t) w;
         w = log_info pj l (''connection of '' @ tcp_ip t @ '':'' @ dec_int (tcp_port t) @ '' closed'') w
     in MemPool_delete pj (MemPool.truncate t) w)"

text \<open>The poll: the timers, then the ioqueue and the timer heap of PJLIB.\<close>

definition poll_fails :: "int \<Rightarrow> bool" where
  "poll_fails pret \<longleftrightarrow> \<not> (pret \<noteq> - 1 \<or> pret \<ge> 0)"

definition BlmIoqueue_poll ::
  "'w pjlib \<Rightarrow> log_state \<Rightarrow> (nat \<Rightarrow> Time) \<Rightarrow> (nat \<Rightarrow> BlmIoqueue \<Rightarrow> BlmIoqueue) \<Rightarrow> int \<Rightarrow> BlmIoqueue \<Rightarrow> 'w \<Rightarrow> (BlmIoqueue \<times> 'w) option" where
  "BlmIoqueue_poll pj l clock call milliseconds q w =
     map_option (\<lambda>q.
       let tmo = (cdiv milliseconds 1000, cmod milliseconds 1000);
           (pret, w) = pj_ioqueue_poll pj tmo w;
           w = checktrue pj l (\<not> poll_fails pret) w
       in (q, pj_timer_heap_poll pj w))
       (poll_timers clock call q)"

section \<open>What PJLIB promises\<close>

text \<open>The pools and objects that exist, each object with the pool it lives in.\<close>

datatype pj_object = AtomicObj nat | MutexObj nat | SemObj nat | ThreadObj nat | SockObj nat | KeyObj nat

record pj_live =
  live_pools :: "nat set"
  live_objects :: "pj_object \<Rightarrow> nat option option"

definition add_object :: "pj_object \<Rightarrow> nat option \<Rightarrow> pj_live \<Rightarrow> pj_live" where
  "add_object x p v = v\<lparr>live_objects := (live_objects v)(x \<mapsto> p)\<rparr>"

definition drop_object :: "pj_object \<Rightarrow> pj_live \<Rightarrow> pj_live" where
  "drop_object x v = v\<lparr>live_objects := (live_objects v)(x := None)\<rparr>"

definition add_pool :: "nat \<Rightarrow> pj_live \<Rightarrow> pj_live" where
  "add_pool p v = v\<lparr>live_pools := insert p (live_pools v)\<rparr>"

definition drop_pool :: "nat \<Rightarrow> pj_live \<Rightarrow> pj_live" where
  "drop_pool p v = v\<lparr>live_pools := live_pools v - {p}\<rparr>"

definition pools_hold :: "pj_live \<Rightarrow> bool" where
  "pools_hold v \<longleftrightarrow> (\<forall>x p. live_objects v x = Some (Some p) \<longrightarrow> p \<in> live_pools v)"

text \<open>A function that makes an object makes a new one in an existing pool, or fails and changes nothing; one that
  destroys an object needs it to exist, in an existing pool.\<close>

definition makes :: "('w \<Rightarrow> pj_live) \<Rightarrow> (nat \<Rightarrow> pj_object) \<Rightarrow> (nat option \<Rightarrow> 'w \<Rightarrow> int \<times> nat option \<times> 'w) \<Rightarrow> bool" where
  "makes live K f \<longleftrightarrow> (\<forall>p w. case f p w of (st, h, w') \<Rightarrow>
     (case h of
        None \<Rightarrow> live w' = live w
      | Some h \<Rightarrow> (\<exists>q. p = Some q \<and> q \<in> live_pools (live w)) \<and> live_objects (live w) (K h) = None \<and> live w' = add_object (K h) p (live w)))"

definition destroys :: "('w \<Rightarrow> pj_live) \<Rightarrow> (nat \<Rightarrow> pj_object) \<Rightarrow> (nat \<Rightarrow> 'w \<Rightarrow> (int \<times> 'w) option) \<Rightarrow> bool" where
  "destroys live K f \<longleftrightarrow> (\<forall>h w p. live_objects (live w) (K h) = Some p \<and> (\<forall>q. p = Some q \<longrightarrow> q \<in> live_pools (live w)) \<longrightarrow>
     (\<exists>st w'. f h w = Some (st, w') \<and> live w' = drop_object (K h) (live w)))"

definition pools_work :: "'w pjlib \<Rightarrow> ('w \<Rightarrow> pj_live) \<Rightarrow> bool" where
  "pools_work pj live \<longleftrightarrow>
     (\<forall>line w. live (pj_log pj line w) = live w) \<and>
     (\<forall>w. case pj_pool_create pj w of (p, w') \<Rightarrow>
        (case p of None \<Rightarrow> live w' = live w | Some p \<Rightarrow> p \<notin> live_pools (live w) \<and> live w' = add_pool p (live w))) \<and>
     (\<forall>p w. p \<in> live_pools (live w) \<and> (\<forall>x. live_objects (live w) x \<noteq> Some (Some p)) \<longrightarrow>
        (\<exists>w'. pj_pool_release pj p w = Some w' \<and> live w' = drop_pool p (live w)))"

definition sync_works :: "'w pjlib \<Rightarrow> ('w \<Rightarrow> pj_live) \<Rightarrow> bool" where
  "sync_works pj live \<longleftrightarrow> pools_work pj live \<and>
     (\<forall>i. makes live AtomicObj (\<lambda>p. pj_atomic_create pj p i)) \<and> destroys live AtomicObj (pj_atomic_destroy pj) \<and>
     makes live MutexObj (pj_mutex_create_recursive pj) \<and> destroys live MutexObj (pj_mutex_destroy pj) \<and>
     (\<forall>i m. makes live SemObj (\<lambda>p. pj_sem_create pj p i m)) \<and> destroys live SemObj (pj_sem_destroy pj)"

section \<open>Constructors and destructors\<close>

lemma live_checks:
  assumes "pools_work pj live"
  shows "live (checkpj pj l st w) = live w" "live (checktrue pj l b w) = live w" "live (log_info pj l s w) = live w"
proof -
  have "live (fold (pj_log pj) ls w) = live w" for ls using assms by (induction ls arbitrary: w) (auto simp: pools_work_def)
  then show "live (checkpj pj l st w) = live w" "live (checktrue pj l b w) = live w" "live (log_info pj l s w) = live w"
    by (simp_all add: checkpj_def checktrue_def log_info_def)
qed

text \<open>A pool that a constructor may be given.\<close>

definition pool_given :: "MemPool option \<Rightarrow> pj_live \<Rightarrow> bool" where
  "pool_given p v \<longleftrightarrow> (\<forall>mp. p = Some mp \<longrightarrow> (\<exists>q. pool mp = Some q \<and> q \<in> live_pools v))"

text \<open>The pools after a pool was made or given.\<close>

definition with_pool :: "MemPool option \<Rightarrow> nat \<Rightarrow> pj_live \<Rightarrow> pj_live" where
  "with_pool p q v = (if p = None then add_pool q v else v)"

lemma pool_create_live:
  assumes "pools_work pj live" "pj_pool_create pj w = (p, w')"
  shows "live w' = (case p of None \<Rightarrow> live w | Some q \<Rightarrow> add_pool q (live w))" "p = Some q \<Longrightarrow> q \<notin> live_pools (live w)"
proof -
  have "case pj_pool_create pj w of (p, w') \<Rightarrow>
      (case p of None \<Rightarrow> live w' = live w | Some p \<Rightarrow> p \<notin> live_pools (live w) \<and> live w' = add_pool p (live w))"
    using assms(1) by (simp add: pools_work_def)
  then show "live w' = (case p of None \<Rightarrow> live w | Some q \<Rightarrow> add_pool q (live w))" "p = Some q \<Longrightarrow> q \<notin> live_pools (live w)"
    using assms(2) by (auto split: option.splits)
qed

lemma MemPool_open_live:
  assumes "pools_work pj live" "MemPool_open pj l p w = (mp, w1)" "pool_given p (live w)"
  shows "owned mp = (p = None)" "pool mp = Some q \<Longrightarrow> live w1 = with_pool p q (live w)" "pool mp = Some q \<Longrightarrow> q \<in> live_pools (live w) \<longleftrightarrow> p \<noteq> None"
    "pool mp = None \<Longrightarrow> live w1 = live w"
proof -
  obtain r w' where r: "(case p of Some mp \<Rightarrow> (pool mp, w) | None \<Rightarrow> pj_pool_create pj w) = (r, w')" by (meson surj_pair)
  have mp: "mp = \<lparr>pool = r, owned = (p = None)\<rparr>" "w1 = checktrue pj l (r \<noteq> None) w'" using assms(2) r by (simp_all add: MemPool_open_def Let_def)
  show "owned mp = (p = None)" using mp by simp
  show "live w1 = with_pool p q (live w)" if "pool mp = Some q"
    using mp r that pool_create_live(1) [OF assms(1), of w r w'] by (cases p) (auto simp: live_checks [OF assms(1)] with_pool_def)
  show "q \<in> live_pools (live w) \<longleftrightarrow> p \<noteq> None" if "pool mp = Some q"
    using mp r that pool_create_live(2) [OF assms(1), of w r w' q] assms(3) by (cases p) (auto simp: pool_given_def)
  show "live w1 = live w" if "pool mp = None"
    using mp r that pool_create_live(1) [OF assms(1), of w r w'] by (cases p) (auto simp: live_checks [OF assms(1)])
qed

lemma MemPool_delete_live:
  assumes "pools_work pj live" "pools_hold v" "live w = with_pool p q v" "pool mp = Some q" "owned mp = (p = None)" "q \<in> live_pools v \<longleftrightarrow> p \<noteq> None"
  shows "\<exists>w'. MemPool_delete pj mp w = Some w' \<and> live w' = v"
proof (cases p)
  case None
  have "q \<in> live_pools (live w)" "\<forall>x. live_objects (live w) x \<noteq> Some (Some q)" "drop_pool q (live w) = v"
    using assms None by (auto simp: with_pool_def add_pool_def drop_pool_def pools_hold_def)
  then obtain w' where "pj_pool_release pj q w = Some w'" "live w' = v" using assms(1) unfolding pools_work_def by metis
  then show ?thesis using assms None by (simp add: MemPool_delete_def)
next
  case (Some p')
  then show ?thesis using assms by (simp add: MemPool_delete_def with_pool_def)
qed

lemma makesE:
  assumes "makes live K f" "f p w = (st, Some h, w')"
  obtains q where "p = Some q" "q \<in> live_pools (live w)" "live_objects (live w) (K h) = None" "live w' = add_object (K h) p (live w)"
proof -
  have "case f p w of (st, h, w') \<Rightarrow> (case h of None \<Rightarrow> live w' = live w
    | Some h \<Rightarrow> (\<exists>q. p = Some q \<and> q \<in> live_pools (live w)) \<and> live_objects (live w) (K h) = None \<and> live w' = add_object (K h) p (live w))"
    using assms(1) unfolding makes_def by (elim allE)
  then show ?thesis using assms(2) that by auto
qed

lemma destroysE:
  assumes "pools_work pj live" "destroys live K f" "live w = add_object (K h) (Some q) v" "live_objects v (K h) = None" "q \<in> live_pools v"
  obtains w' where "checked pj l (f h w) = Some w'" "live w' = v"
proof -
  have "live_objects (live w) (K h) = Some (Some q) \<and> (\<forall>q'. Some q = Some q' \<longrightarrow> q' \<in> live_pools (live w))"
    using assms(3,5) by (simp add: add_object_def)
  then obtain st w' where w': "f h w = Some (st, w')" "live w' = drop_object (K h) (live w)" using assms(2) unfolding destroys_def by blast
  have "drop_object (K h) (live w) = v" using assms(3,4) by (simp add: drop_object_def add_object_def fun_upd_idem)
  then show ?thesis using that [of "checkpj pj l st w'"] w' by (simp add: checked_def live_checks [OF assms(1)])
qed

lemma Handle_lifecycle:
  assumes "pools_work pj live" "makes live K create" "destroys live K destroy" "pool_given p (live w)" "pools_hold (live w)"
    "Handle_new pj l c create p w = Some (a, w1)" "live w2 = live w1"
  shows "\<exists>w3. Handle_delete pj l destroy a w2 = Some w3 \<and> live w3 = live w"
proof -
  obtain mp u where mp: "MemPool_open pj l p w = (mp, u)" by (meson surj_pair)
  obtain st h u' where h: "create (pool mp) u = (st, Some h, u')" "a = \<lparr>pool = pool mp, owned = owned mp, handle = h\<rparr>" "live w1 = live u'"
    using assms(6) mp by (auto simp: Handle_new_def Let_def live_checks [OF assms(1)] split: prod.splits option.splits)
  from makesE [OF assms(2) h(1)] obtain q where q: "pool mp = Some q" "q \<in> live_pools (live u)" "live_objects (live u) (K h) = None"
    "live u' = add_object (K h) (Some q) (live u)" by metis
  note new = MemPool_open_live [OF assms(1) mp assms(4)]
  have "live w2 = add_object (K h) (Some q) (live u)" using assms(7) h(3) q(4) by simp
  from destroysE [OF assms(1,3) this q(3,2)] obtain w' where w': "checked pj l (destroy h w2) = Some w'" "live w' = live u" .
  moreover have "live w' = with_pool p q (live w)" using w'(2) new(2) [OF q(1)] by simp
  moreover have "MemPool.truncate a = mp" "handle a = h" using h(2) by (cases mp; simp add: MemPool.truncate_def)+
  ultimately show ?thesis using MemPool_delete_live [OF assms(1,5), of w' p q mp] new(1) new(3) [OF q(1)] q(1)
    by (simp add: Handle_delete_def)
qed

text \<open>The objects of the pool between producers and consumers: the semaphore, made last, goes first.\<close>

lemma Handle_new_live:
  assumes "pools_work pj live" "makes live K create" "pools_hold (live w)" "Handle_new pj l c create None w = Some (a, w1)"
  shows "pools_hold (live w1)"
proof -
  obtain mp u where mp: "MemPool_open pj l None w = (mp, u)" by (meson surj_pair)
  obtain st h u' where h: "create (pool mp) u = (st, Some h, u')" "live w1 = live u'"
    using assms(4) mp by (auto simp: Handle_new_def Let_def live_checks [OF assms(1)] split: prod.splits option.splits)
  from makesE [OF assms(2) h(1)] obtain q where q: "pool mp = Some q" "q \<in> live_pools (live u)" "live u' = add_object (K h) (Some q) (live u)" by metis
  have "live u = with_pool None q (live w)" using MemPool_open_live(2) [OF assms(1) mp _ q(1)] by (simp add: pool_given_def)
  then show ?thesis using assms(3) q h(2) by (auto simp: pools_hold_def add_object_def with_pool_def add_pool_def split: if_splits)
qed

lemma ProConPool_lifecycle:
  assumes "sync_works pj live" "pools_hold (live w)" "ProConPool_open pj l w = Some (p, w1)" "live w2 = live w1"
  shows "\<exists>w3. ProConPool_close pj l p w2 = Some w3 \<and> live w3 = live w"
proof -
  have pw: "pools_work pj live" and m: "makes live MutexObj (pj_mutex_create_recursive pj)" "destroys live MutexObj (pj_mutex_destroy pj)"
    and s: "makes live SemObj (\<lambda>p. pj_sem_create pj p 0 (word_of_int (1024 * 1024)))" "destroys live SemObj (pj_sem_destroy pj)"
    using assms(1) by (simp_all add: sync_works_def)
  obtain mu u se where mu: "Handle_new pj l True (pj_mutex_create_recursive pj) None w = Some (mu, u)"
    and se: "Handle_new pj l False (\<lambda>p. pj_sem_create pj p 0 (word_of_int (1024 * 1024))) None u = Some (se, w1)" and p: "p = (mu, se)"
    using assms(3) by (auto simp: ProConPool_open_def Mutex_new_def Semaphore_new_def bind_eq_Some_conv)
  have g: "pool_given None v" for v by (simp add: pool_given_def)
  obtain w3 where w3: "Handle_delete pj l (pj_sem_destroy pj) se w2 = Some w3" "live w3 = live u"
    using Handle_lifecycle [OF pw s g Handle_new_live [OF pw m(1) assms(2) mu] se assms(4)] by blast
  moreover obtain w4 where "Handle_delete pj l (pj_mutex_destroy pj) mu w3 = Some w4" "live w4 = live w"
    using Handle_lifecycle [OF pw m g assms(2) mu w3(2)] by blast
  ultimately show ?thesis by (simp add: ProConPool_close_def Semaphore_delete_def Mutex_delete_def p)
qed

text \<open>C36: Whatever happens to an atomic integer, a mutex, a semaphore or a pool between producers and consumers in
  between, its destructor leaves exactly the memory pools and objects that existed before its
  constructor: an object is destroyed before the memory it lives in is released, its own memory pool is
  released, one that it was given is not.\<close>

theorem sync_lifecycle:
  assumes "sync_works pj live" "pools_hold (live w)" "pool_given p (live w)" "live w2 = live w1"
  shows "(Atomic_new pj l i p w = Some (a, w1) \<longrightarrow> (\<exists>w3. Atomic_delete pj l a w2 = Some w3 \<and> live w3 = live w)) \<and>
    (Mutex_new pj l p w = Some (a, w1) \<longrightarrow> (\<exists>w3. Mutex_delete pj l a w2 = Some w3 \<and> live w3 = live w)) \<and>
    (Semaphore_new pj l i m p w = Some (a, w1) \<longrightarrow> (\<exists>w3. Semaphore_delete pj l a w2 = Some w3 \<and> live w3 = live w)) \<and>
    (ProConPool_open pj l w = Some (b, w1) \<longrightarrow> (\<exists>w3. ProConPool_close pj l b w2 = Some w3 \<and> live w3 = live w))"
proof (intro conjI impI)
  have pw: "pools_work pj live" and a: "makes live AtomicObj (\<lambda>p. pj_atomic_create pj p i)" "destroys live AtomicObj (pj_atomic_destroy pj)"
    and m: "makes live MutexObj (pj_mutex_create_recursive pj)" "destroys live MutexObj (pj_mutex_destroy pj)"
    and s: "makes live SemObj (\<lambda>p. pj_sem_create pj p (word_of_int i) (word_of_int m))" "destroys live SemObj (pj_sem_destroy pj)"
    using assms(1) by (simp_all add: sync_works_def)
  show "\<exists>w3. Atomic_delete pj l a w2 = Some w3 \<and> live w3 = live w" if "Atomic_new pj l i p w = Some (a, w1)"
    using Handle_lifecycle [OF pw a assms(3,2) _ assms(4)] that by (simp add: Atomic_new_def Atomic_delete_def)
  show "\<exists>w3. Mutex_delete pj l a w2 = Some w3 \<and> live w3 = live w" if "Mutex_new pj l p w = Some (a, w1)"
    using Handle_lifecycle [OF pw m assms(3,2) _ assms(4)] that by (simp add: Mutex_new_def Mutex_delete_def)
  show "\<exists>w3. Semaphore_delete pj l a w2 = Some w3 \<and> live w3 = live w" if "Semaphore_new pj l i m p w = Some (a, w1)"
    using Handle_lifecycle [OF pw s assms(3,2) _ assms(4)] that by (simp add: Semaphore_new_def Semaphore_delete_def)
  show "\<exists>w3. ProConPool_close pj l b w2 = Some w3 \<and> live w3 = live w" if "ProConPool_open pj l w = Some (b, w1)"
    using ProConPool_lifecycle [OF assms(1,2) that assms(4)] .
qed

text \<open>A PJLIB that numbers its objects.\<close>

definition sim_make :: "(nat \<Rightarrow> pj_object) \<Rightarrow> nat option \<Rightarrow> pj_live \<times> nat \<Rightarrow> int \<times> nat option \<times> pj_live \<times> nat" where
  "sim_make K p w =
     (case p of
        None \<Rightarrow> (70004, None, w)
      | Some q \<Rightarrow>
          if q \<in> live_pools (fst w) \<and> live_objects (fst w) (K (snd w)) = None
          then (0, Some (snd w), add_object (K (snd w)) p (fst w), snd w + 1) else (70004, None, w))"

definition sim_destroy :: "(nat \<Rightarrow> pj_object) \<Rightarrow> nat \<Rightarrow> pj_live \<times> nat \<Rightarrow> (int \<times> pj_live \<times> nat) option" where
  "sim_destroy K h w = (if live_objects (fst w) (K h) = None then None else Some (0, drop_object (K h) (fst w), snd w))"

definition sim_socket :: "pj_live \<times> nat \<Rightarrow> int \<times> nat option \<times> pj_live \<times> nat" where
  "sim_socket w = (if live_objects (fst w) (SockObj (snd w)) = None then (0, Some (snd w), add_object (SockObj (snd w)) None (fst w), snd w + 1) else (70004, None, w))"

definition sim_pj :: "(pj_live \<times> nat) pjlib" where
  "sim_pj = \<lparr>pj_EPENDING = 70002, pj_log = (\<lambda>_ w. w), pj_text = (\<lambda>_. []), pj_set_log_func = (\<lambda>_ w. w), pj_init = id, pj_util_init = id,
     pj_caching_pool_init = id, pj_caching_pool_destroy = id,
     pj_pool_create = (\<lambda>w. if snd w \<in> live_pools (fst w) then (None, w) else (Some (snd w), add_pool (snd w) (fst w), snd w + 1)),
     pj_pool_release = (\<lambda>p w. if p \<in> live_pools (fst w) then Some (drop_pool p (fst w), snd w) else None),
     pj_atomic_create = (\<lambda>p i. sim_make AtomicObj p), pj_atomic_destroy = sim_destroy AtomicObj, pj_atomic_set = (\<lambda>_ _. Some), pj_atomic_get = (\<lambda>_ w. Some (0, w)),
     pj_atomic_add_and_get = (\<lambda>_ _ w. Some (0, w)), pj_mutex_create_recursive = sim_make MutexObj, pj_mutex_destroy = sim_destroy MutexObj,
     pj_mutex_lock = (\<lambda>_ w. Some (0, w)), pj_mutex_unlock = (\<lambda>_ w. Some (0, w)), pj_mutex_trylock = (\<lambda>_ w. Some (0, w)),
     pj_sem_create = (\<lambda>p i m. sim_make SemObj p), pj_sem_destroy = sim_destroy SemObj, pj_sem_wait = (\<lambda>_ w. Some (0, w)), pj_sem_trywait = (\<lambda>_ w. Some (0, w)),
     pj_sem_post = (\<lambda>_ w. Some (0, w)), pj_gettimeofday = (\<lambda>_. (0, None)), pj_time_decode = (\<lambda>_ _. (0, None)), pj_time_encode = (\<lambda>_ _. (0, None)),
     pj_thread_create = (\<lambda>p name. sim_make ThreadObj p), pj_thread_join = (\<lambda>_ w. Some (0, w)), pj_thread_destroy = sim_destroy ThreadObj, pj_thread_sleep = (\<lambda>_ w. (0, w)),
     pj_sockaddr_in_init = Pair 0, pj_inet_addr = (\<lambda>_. 0), pj_htons = id, pj_sock_socket = sim_socket, pj_sock_close = (\<lambda>h w. (0, drop_object (SockObj h) (fst w), snd w)),
     pj_ioqueue_register_sock = (\<lambda>p s w. if live_objects (fst w) (KeyObj s) = None then (0, Some s, add_object (KeyObj s) None (fst w), snd w) else (70004, None, w)),
     pj_ioqueue_set_user_data = (\<lambda>_. Some), pj_ioqueue_connect = (\<lambda>_ _ w. Some (70002, w)),
     pj_ioqueue_unregister = (\<lambda>k w. Some (0, drop_object (SockObj k) (drop_object (KeyObj k) (fst w)), snd w)),
     pj_ioqueue_poll = (\<lambda>_. Pair 0), pj_timer_heap_poll = id\<rparr>"

lemma sim_makes: "makes fst K (sim_make K)"
  by (auto simp: makes_def sim_make_def split: option.splits)

lemma sim_destroys: "destroys fst K (sim_destroy K)"
  by (auto simp: destroys_def sim_destroy_def)

lemma sim_pools: "pools_work sim_pj fst"
  by (auto simp: pools_work_def sim_pj_def)

lemma sim_works: "sync_works sim_pj fst"
  unfolding sync_works_def using sim_pools sim_makes sim_destroys by (simp add: sim_pj_def)

theorem sync_lifecycle_witness:
  "\<exists>a w1 w3. Mutex_new sim_pj log_init None (\<lparr>live_pools = {}, live_objects = Map.empty\<rparr>, 0) = Some (a, w1) \<and> fst w1 \<noteq> \<lparr>live_pools = {}, live_objects = Map.empty\<rparr> \<and>
     Mutex_delete sim_pj log_init a w1 = Some w3 \<and> fst w3 = \<lparr>live_pools = {}, live_objects = Map.empty\<rparr>"
proof -
  let ?w = "(\<lparr>live_pools = {}, live_objects = Map.empty\<rparr>, 0) :: pj_live \<times> nat"
  let ?w1 = "(\<lparr>live_pools = {0}, live_objects = [MutexObj 1 \<mapsto> Some 0]\<rparr>, 2) :: pj_live \<times> nat"
  have new: "Mutex_new sim_pj log_init None ?w = Some (\<lparr>pool = Some 0, owned = True, handle = 1\<rparr>, ?w1)"
    by (simp add: Mutex_new_def Handle_new_def MemPool_open_def sim_pj_def sim_make_def checkpj_def checktrue_def CheckerPjStatus_def CheckerTrue_def add_pool_def add_object_def)
  have "pools_hold (fst ?w)" "pool_given None (fst ?w)" by (simp_all add: pools_hold_def pool_given_def)
  from sync_lifecycle [OF sim_works this refl, of log_init 0 "\<lparr>pool = Some 0, owned = True, handle = 1\<rparr>" ?w1 0 "(\<lparr>pool = None, owned = False, handle = 0\<rparr>, \<lparr>pool = None, owned = False, handle = 0\<rparr>)"]
  show ?thesis using new by auto
qed

section \<open>Threads\<close>

text \<open>Joining a thread waits for its end.\<close>

definition threads_work :: "'w pjlib \<Rightarrow> ('w \<Rightarrow> pj_live) \<Rightarrow> ('w \<Rightarrow> nat set) \<Rightarrow> bool" where
  "threads_work pj live running \<longleftrightarrow> pools_work pj live \<and> (\<forall>line w. running (pj_log pj line w) = running w) \<and>
     (\<forall>name. makes live ThreadObj (\<lambda>p. pj_thread_create pj p name)) \<and> destroys live ThreadObj (pj_thread_destroy pj) \<and>
     (\<forall>h w. live_objects (live w) (ThreadObj h) \<noteq> None \<longrightarrow> (\<exists>st w'. pj_thread_join pj h w = Some (st, w') \<and> live w' = live w \<and> h \<notin> running w'))"


lemma sim_threads: "threads_work sim_pj fst (\<lambda>_. {})"
  unfolding threads_work_def using sim_pools sim_makes sim_destroys by (simp add: sim_pj_def)


section \<open>Connections\<close>

text \<open>Sockets and their keys as the backends for \<open>select\<close> and \<open>epoll\<close> treat them: unregistering a key closes its
  socket (\<open>third-party/pj-project/pjlib/src/pj/ioqueue_select.c\<close>); closing a socket that does not exist has no
  effect on the others.\<close>

definition sockets_work :: "'w pjlib \<Rightarrow> ('w \<Rightarrow> pj_live) \<Rightarrow> bool" where
  "sockets_work pj live \<longleftrightarrow> pools_work pj live \<and>
     (\<forall>w. live (snd (pj_sockaddr_in_init pj w)) = live w) \<and>
     (\<forall>w st s w'. pj_sock_socket pj w = (st, Some s, w') \<longrightarrow> live_objects (live w) (SockObj s) = None \<and> live w' = add_object (SockObj s) None (live w)) \<and>
     (\<forall>p s w st k w'. pj_ioqueue_register_sock pj p s w = (st, Some k, w') \<longrightarrow>
        live_objects (live w) (KeyObj k) = None \<and> live w' = add_object (KeyObj k) None (live w) \<and>
        (\<forall>u. live_objects (live u) (KeyObj k) \<noteq> None \<longrightarrow>
           (\<exists>st u'. pj_ioqueue_unregister pj k u = Some (st, u') \<and> live u' = drop_object (SockObj s) (drop_object (KeyObj k) (live u))))) \<and>
     (\<forall>k w w'. pj_ioqueue_set_user_data pj k w = Some w' \<longrightarrow> live w' = live w) \<and>
     (\<forall>k a w st w'. pj_ioqueue_connect pj k a w = Some (st, w') \<longrightarrow> live w' = live w) \<and>
     (\<forall>s w. live_objects (live w) (SockObj s) = None \<longrightarrow> live (snd (pj_sock_close pj s w)) = live w)"

lemma sockets_workD:
  assumes "sockets_work pj live"
  shows "live (snd (pj_sockaddr_in_init pj w)) = live w"
    "pj_sock_socket pj w = (st, Some s, w') \<Longrightarrow> live_objects (live w) (SockObj s) = None \<and> live w' = add_object (SockObj s) None (live w)"
    "pj_ioqueue_register_sock pj p s w = (st, Some k, w') \<Longrightarrow> live_objects (live w) (KeyObj k) = None \<and> live w' = add_object (KeyObj k) None (live w)"
    "pj_ioqueue_register_sock pj p s w = (st, Some k, w') \<Longrightarrow> live_objects (live u) (KeyObj k) \<noteq> None \<Longrightarrow>
       \<exists>st u'. pj_ioqueue_unregister pj k u = Some (st, u') \<and> live u' = drop_object (SockObj s) (drop_object (KeyObj k) (live u))"
    "pj_ioqueue_set_user_data pj k w = Some w' \<Longrightarrow> live w' = live w"
    "pj_ioqueue_connect pj k a w = Some (st, w') \<Longrightarrow> live w' = live w"
    "live_objects (live w) (SockObj s) = None \<Longrightarrow> live (snd (pj_sock_close pj s w)) = live w"
  using assms unfolding sockets_work_def by (elim conjE, (simp; fail | blast))+

text \<open>What the constructor has made, and what unregistering will do.\<close>

lemma PjTcp_new_live:
  assumes "sockets_work pj live" "PjTcp_new pj l ip port w = Some (t, w1)" "MemPool_open pj l None w = (mp, v0)"
  obtains sk k where "MemPool.truncate t = mp" "tcp_ip t = ip" "tcp_port t = sint port" "tcp_sock t = sk" "tcp_key t = k"
    "live_objects (live v0) (SockObj sk) = None" "live_objects (live v0) (KeyObj k) = None"
    "live w1 = add_object (KeyObj k) None (add_object (SockObj sk) None (live v0))"
    "\<And>u. live_objects (live u) (KeyObj k) \<noteq> None \<Longrightarrow>
       \<exists>st u'. pj_ioqueue_unregister pj k u = Some (st, u') \<and> live u' = drop_object (SockObj sk) (drop_object (KeyObj k) (live u))"
proof -
  have pw: "pools_work pj live" using assms(1) by (simp add: sockets_work_def)
  let ?v1 = "log_info pj l (''constructing tcp: '' @ ip @ '': '' @ dec_int (sint port)) v0" and ?addr = "(pj_inet_addr pj ip, pj_htons pj port)"
  obtain st2 v2 where v2: "pj_sockaddr_in_init pj ?v1 = (st2, v2)" by (meson surj_pair)
  obtain st3 so v3 where v3: "pj_sock_socket pj (checkpj pj l st2 v2) = (st3, so, v3)" by (meson prod_cases3)
  obtain sk where sk: "so = Some sk" using assms(2,3) v2 v3 by (cases so) (simp_all add: PjTcp_new_def)
  obtain st4 ko v4 where v4: "pj_ioqueue_register_sock pj (pool mp) sk (checkpj pj l st3 v3) = (st4, ko, v4)" by (meson prod_cases3)
  obtain k where k: "ko = Some k" using assms(2,3) v2 v3 v4 sk by (cases ko) (simp_all add: PjTcp_new_def)
  note v3 = v3 [unfolded sk] and v4 = v4 [unfolded k]
  obtain v5 where v5: "pj_ioqueue_set_user_data pj k (checkpj pj l st4 v4) = Some v5"
    using assms(2,3) v2 v3 v4 by (cases "pj_ioqueue_set_user_data pj k (checkpj pj l st4 v4)") (simp_all add: PjTcp_new_def)
  obtain st6 v6 where v6: "pj_ioqueue_connect pj k ?addr v5 = Some (st6, v6)"
    using assms(2,3) v2 v3 v4 v5 by (cases "pj_ioqueue_connect pj k ?addr v5") (auto simp: PjTcp_new_def checked_def)
  have t: "w1 = checkpj pj l st6 v6" "t = \<lparr>pool = pool mp, owned = owned mp, tcp_ip = ip, tcp_port = sint port, tcp_addr = ?addr, tcp_sock = sk, tcp_key = k\<rparr>"
    using assms(2,3) v2 v3 v4 v5 v6 by (simp_all add: PjTcp_new_def checked_def)
  note D = sockets_workD [OF assms(1)] and L = live_checks [OF pw]
  have "live v2 = live v0" using D(1) [of ?v1] v2 L by simp
  moreover note D(2) [OF v3] D(3) [OF v4] D(5) [OF v5] D(6) [OF v6]
  ultimately have "live_objects (live v0) (SockObj sk) = None" "live_objects (live v0) (KeyObj k) = None"
      "live w1 = add_object (KeyObj k) None (add_object (SockObj sk) None (live v0))"
    using L t(1) by (simp_all add: add_object_def)
  moreover have "MemPool.truncate t = mp" using t(2) by (cases mp) (simp add: MemPool.truncate_def)
  ultimately show ?thesis using that D(4) [OF v4] t(2) by simp
qed

text \<open>The destructor of a connection leaves the memory pools, sockets and keys that existed before its constructor. When it
  closes the socket, unregistering the key has already closed it: the number may belong to another
  connection by then.\<close>

theorem tcp_lifecycle:
  assumes "sockets_work pj live" "pools_hold (live w)" "PjTcp_new pj l ip port w = Some (t, w1)" "live w2 = live w1" "pool t \<noteq> None"
  shows "\<exists>st u w3. pj_ioqueue_unregister pj (tcp_key t) w2 = Some (st, u) \<and> live_objects (live u) (SockObj (tcp_sock t)) = None \<and>
    PjTcp_delete pj l t w2 = Some w3 \<and> live w3 = live w"
proof -
  have pw: "pools_work pj live" using assms(1) by (simp add: sockets_work_def)
  note D = sockets_workD [OF assms(1)] and L = live_checks [OF pw]
  obtain mp v0 where mp: "MemPool_open pj l None w = (mp, v0)" by (meson surj_pair)
  obtain sk k where t: "MemPool.truncate t = mp" "tcp_ip t = ip" "tcp_port t = sint port" "tcp_sock t = sk" "tcp_key t = k"
    and v0: "live_objects (live v0) (SockObj sk) = None" "live_objects (live v0) (KeyObj k) = None"
    and w1: "live w1 = add_object (KeyObj k) None (add_object (SockObj sk) None (live v0))"
    and un: "\<And>u. live_objects (live u) (KeyObj k) \<noteq> None \<Longrightarrow>
       \<exists>st u'. pj_ioqueue_unregister pj k u = Some (st, u') \<and> live u' = drop_object (SockObj sk) (drop_object (KeyObj k) (live u))"
    by (rule PjTcp_new_live [OF assms(1,3) mp]) (rule that)
  then obtain st u where u: "pj_ioqueue_unregister pj k w2 = Some (st, u)" "live u = drop_object (SockObj sk) (drop_object (KeyObj k) (live w2))"
    using un [of w2] assms(4) by (auto simp: add_object_def)
  have live_u: "live u = live v0" using u(2) w1 assms(4) v0
    by (simp add: add_object_def drop_object_def fun_upd_twist [of "SockObj sk" "KeyObj k"] fun_upd_idem)
  let ?c = "pj_sock_close pj sk (checkpj pj l st u)" and ?s = "''connection of '' @ ip @ '':'' @ dec_int (sint port) @ '' closed''"
  have close: "live (snd ?c) = live v0" using D(7) [of "checkpj pj l st u" sk] live_u v0(1) by (simp add: L)
  obtain q where q: "pool mp = Some q" using assms(5) t(1) by (auto simp: MemPool.truncate_def)
  note new = MemPool_open_live [OF pw mp, unfolded pool_given_def, simplified]
  define w' where "w' = log_info pj l ?s (snd ?c)"
  have "live w' = with_pool None q (live w)" using close new(2) [OF q] by (simp add: L w'_def)
  then obtain w3 where "MemPool_delete pj mp w' = Some w3" "live w3 = live w"
    using MemPool_delete_live [OF pw assms(2), of w' None q mp] new(1) new(3) [OF q] q by auto
  then have "PjTcp_delete pj l t w2 = Some w3" "live w3 = live w"
    using u(1) t by (auto simp: PjTcp_delete_def checked_def Let_def w'_def split: prod.splits)
  then show ?thesis using u(1) t live_u v0(1) by auto
qed

lemma drop_absent: "live_objects v x = None \<Longrightarrow> drop_object x v = v"
  by (simp add: drop_object_def fun_upd_idem)

lemma sim_sockets: "sockets_work sim_pj fst"
  unfolding sockets_work_def by (intro conjI sim_pools) (auto simp: sim_pj_def sim_socket_def drop_absent split: if_splits)

theorem tcp_lifecycle_witness:
  "\<exists>t w1 st u w3. PjTcp_new sim_pj log_init ''10.0.0.1'' 80 (\<lparr>live_pools = {}, live_objects = Map.empty\<rparr>, 0) = Some (t, w1) \<and>
     pj_ioqueue_unregister sim_pj (tcp_key t) w1 = Some (st, u) \<and> live_objects (fst u) (SockObj (tcp_sock t)) = None \<and>
     PjTcp_delete sim_pj log_init t w1 = Some w3 \<and> fst w3 = \<lparr>live_pools = {}, live_objects = Map.empty\<rparr>"
proof -
  let ?w = "(\<lparr>live_pools = {}, live_objects = Map.empty\<rparr>, 0) :: pj_live \<times> nat"
  let ?t = "\<lparr>pool = Some 0, owned = True, tcp_ip = ''10.0.0.1'', tcp_port = 80, tcp_addr = (0, 80), tcp_sock = 1, tcp_key = 1\<rparr>"
  let ?w1 = "(\<lparr>live_pools = {0}, live_objects = [SockObj 1 \<mapsto> None, KeyObj 1 \<mapsto> None]\<rparr>, 2) :: pj_live \<times> nat"
  have "PjTcp_new sim_pj log_init ''10.0.0.1'' 80 ?w = Some (?t, ?w1)"
    by (simp add: PjTcp_new_def MemPool_open_def sim_pj_def sim_socket_def checkpj_def checktrue_def checked_def log_info_def blmlog_def CheckerPjStatus_def CheckerTrue_def
        log_passes_def log_init_def add_pool_def add_object_def)
  moreover have "pools_hold (fst ?w)" by (simp add: pools_hold_def)
  ultimately show ?thesis using tcp_lifecycle [OF sim_sockets, of ?w log_init "''10.0.0.1''" 80 ?t ?w1 ?w1] by fastforce
qed

section \<open>The poll\<close>

text \<open>The check after the poll of the ioqueue fails for the one value that is left when the result is less than
  zero or not: PJLIB returns the negated status, and every status of it is greater than one.\<close>

theorem poll_check_misses:
  "poll_fails pret \<longleftrightarrow> pret = - 1"
  by (auto simp: poll_fails_def)

end
