(* ===== verification/Xml_Pretty.thy ===== *)
theory Xml_Pretty
  imports Xml_Parser
begin

text \<open>
  The indented form of documents, which the printer of \<open>src/tinyxml2.cpp\<close> writes by default: every node on a
  line of its own, except in elements that hold text. The theorems: what is written is the layout of the tree,
  and a document that was saved in this form is loaded as it was.
\<close>

section \<open>Layout\<close>

text \<open>The reference. A state tells whether nothing but text was printed yet, and the depth of the text that
  keeps the nodes on one line, or \<open>-1\<close>.\<close>

definition indent :: "nat \<Rightarrow> string" where
  "indent d = LF # replicate (4 * d) (CHR '' '')"

definition line :: "nat \<Rightarrow> bool \<times> int \<Rightarrow> string" where
  "line d a = (if snd a < 0 \<and> \<not> fst a then indent d else [])"

definition close_line :: "nat \<Rightarrow> int \<Rightarrow> string" where
  "close_line d td = (if td < 0 then indent d else [])"

definition leave :: "nat \<Rightarrow> int \<Rightarrow> int" where
  "leave d td = (if td = int d then - 1 else td)"

definition is_element :: "xmlnode \<Rightarrow> bool" where
  "is_element x = (case x of XMLElement _ _ _ \<Rightarrow> True | _ \<Rightarrow> False)"

definition end_line :: "nat \<Rightarrow> xmlnode \<Rightarrow> string" where
  "end_line d x = (if d = 0 \<and> is_element x then [LF] else [])"

fun layout :: "nat \<Rightarrow> bool \<times> int \<Rightarrow> xmlnode \<Rightarrow> string"
  and after :: "nat \<Rightarrow> bool \<times> int \<Rightarrow> xmlnode \<Rightarrow> bool \<times> int"
  and layouts :: "nat \<Rightarrow> bool \<times> int \<Rightarrow> xmlnode list \<Rightarrow> string"
  and after_all :: "nat \<Rightarrow> bool \<times> int \<Rightarrow> xmlnode list \<Rightarrow> bool \<times> int" where
  "layout d a (XMLElement name attribs children) =
     line d a @ ''<'' @ name @ concat (map attribute_text attribs) @
       (if children = [] then ''/>''
        else ''>'' @ (layouts (Suc d) (False, snd a) children @ close_line d (snd (after_all (Suc d) (False, snd a) children))) @ ''</'' @ name @ ''>'')"
| "layout d a (XMLText s cdata) = serialize (XMLText s cdata)"
| "layout d a (XMLComment s) = line d a @ serialize (XMLComment s)"
| "layout d a (XMLDeclaration s) = line d a @ serialize (XMLDeclaration s)"
| "layout d a (XMLUnknown s) = line d a @ serialize (XMLUnknown s)"
| "after d a (XMLElement name attribs children) = (False, leave d (snd (after_all (Suc d) (False, snd a) children)))"
| "after d a (XMLText s cdata) = (fst a, int d - 1)"
| "after d a x = (False, snd a)"
| "layouts d a [] = []"
| "layouts d a (x # xs) = layout d a x @ end_line d x @ layouts d (after d a x) xs"
| "after_all d a [] = a"
| "after_all d a (x # xs) = after_all d (after d a x) xs"

text \<open>A printer in the default mode: whether an element was just opened, the state of the layout, the depth and
  the open elements.\<close>

definition pretty :: "bool \<times> (bool \<times> int) \<times> nat \<times> string list \<Rightarrow> XMLPrinter \<Rightarrow> bool" where
  "pretty = (\<lambda>(j, a, d, ns) pr.
     pr_elementJustOpened pr = j \<and> pr_firstElement pr = fst a \<and> pr_textDepth pr = snd a \<and> pr_depth pr = int d \<and> holds (pr_stack pr) ns \<and>
     \<not> pr_compactMode pr \<and> pr_processEntities pr \<and> pr_entityFlag pr = ENTITY_FLAGS \<and> pr_restrictedEntityFlag pr = RESTRICTED_FLAGS)"

interpretation pm: printer_mode pretty fst "\<lambda>(j, a). (False, a)" "\<lambda>(j, a, d, ns). (j, (fst a, int d - 1), d, ns)"
  by unfold_locales (auto simp: pretty_def)

subsection \<open>Operations\<close>

lemma prints_space: "prints pretty a (PrintSpace n) (replicate (4 * n) (CHR '' '')) a"
proof (induction n)
  case (Suc n)
  from prints_bind [OF pm.prints_Print [of a "''    ''"] Suc] show ?case by (rule prints_cong) (simp_all add: numeral_eq_Suc)
qed (rule prints_cong [OF prints_Some], simp_all)

lemma prints_new_line: "prints pretty (j, a, d, ns) new_line (indent d) (j, a, d, ns)"
proof -
  have "prints pretty (j, a, d, ns) (\<lambda>pr. PrintSpace (nat (pr_depth pr)) pr) (replicate (4 * d) (CHR '' '')) (j, a, d, ns)"
    by (rule prints_cong [OF prints_space]) (simp_all add: pretty_def)
  from prints_bind [OF pm.prints_Print [of _ "[LF]"] this] show ?thesis
    by (rule prints_cong) (simp_all add: new_line_def indent_def)
qed

lemma line_pretty: "prints pretty (j, a, d, ns) start_line (line d a) (j, a, d, ns)"
proof (cases "snd a < 0 \<and> \<not> fst a")
  case True
  show ?thesis by (rule prints_cong [OF prints_new_line]) (use True in \<open>simp_all add: start_line_def line_def pretty_def\<close>)
next
  case False
  show ?thesis by (rule prints_cong [OF prints_Some]) (use False in \<open>auto simp: start_line_def line_def pretty_def\<close>)
qed

lemma seal_pretty: "prints pretty (j, a, d, ns) seal_open (seal j) (False, a, d, ns)"
  using pm.prints_seal_open [of "(j, a, d, ns)"] by simp

lemma text_pretty: "prints pretty (j, a, d, ns) (PushText s cdata) (seal j @ serialize (XMLText s cdata)) (False, (fst a, int d - 1), d, ns)"
  using pm.prints_PushText [of "(j, a, d, ns)" s cdata] by simp

lemma node_pretty: "prints pretty (j, a, d, ns) (push_node s) (seal j @ line d a @ s) (False, (False, snd a), d, ns)"
proof -
  have "prints pretty (False, a, d, ns) (\<lambda>pr. Print s (pr\<lparr>pr_firstElement := False\<rparr>)) s (False, (False, snd a), d, ns)"
    by (rule prints_update [OF _ _ _ pm.prints_Print]) (simp_all add: pretty_def)
  from prints_bind [OF seal_pretty prints_bind [OF line_pretty this]] show ?thesis
    by (rule prints_cong) (simp_all add: push_node_def)
qed

lemma push_pretty:
  assumes "length ns < 2 ^ 30 - 1" "prints pretty (j, a, d, ns @ [name]) f s b"
  shows "prints pretty (j, a, d, ns) (\<lambda>pr. Option.bind (DynArray_Push name (pr_stack pr)) (\<lambda>stk. f (pr\<lparr>pr_stack := stk\<rparr>))) s b"
  unfolding prints_def
proof (intro allI impI)
  fix m pr t n assume pr: "pretty (j, a, d, ns) pr" "wrote m pr t (n + length s)"
  obtain stk where stk: "DynArray_Push name (pr_stack pr) = Some stk" "holds stk (ns @ [name])"
    using Push_holds [OF _ assms(1), of "pr_stack pr" name] pr(1) by (auto simp: pretty_def)
  have "pretty (j, a, d, ns @ [name]) (pr\<lparr>pr_stack := stk\<rparr>)" "wrote m (pr\<lparr>pr_stack := stk\<rparr>) t (n + length s)"
    using pr stk by (auto simp: pretty_def wrote_def split: if_splits)
  from printsD [OF assms(2) this] show "\<exists>pr'. Option.bind (DynArray_Push name (pr_stack pr)) (\<lambda>stk. f (pr\<lparr>pr_stack := stk\<rparr>)) = Some pr' \<and>
      pretty b pr' \<and> wrote m pr' (t @ s) n" using stk(1) by auto
qed

lemma open_pretty:
  assumes "length ns < 2 ^ 30 - 1"
  shows "prints pretty (j, a, d, ns) (OpenElement name) (seal j @ line d a @ ''<'' @ name) (True, (False, snd a), Suc d, ns @ [name])"
proof -
  have "prints pretty (False, a, d, ns @ [name]) (\<lambda>pr. map_option (\<lambda>pr. pr\<lparr>pr_elementJustOpened := True, pr_firstElement := False, pr_depth := pr_depth pr + 1\<rparr>)
      (Print (''<'' @ name) pr)) (''<'' @ name) (True, (False, snd a), Suc d, ns @ [name])"
    by (rule prints_after [OF pm.prints_Print]) (simp_all add: pretty_def)
  from prints_bind [OF seal_pretty push_pretty [OF assms prints_bind [OF line_pretty this]]] show ?thesis
    by (rule prints_cong) (simp_all add: OpenElement_def)
qed

text \<open>The end of an element: the tag, the state it leaves and the line after an element of the document.\<close>

definition close_tag :: "XMLPrinter \<Rightarrow> string \<Rightarrow> XMLPrinter option" where
  "close_tag pr name =
     (if pr_elementJustOpened pr then Print ''/>'' pr
      else Option.bind (if pr_textDepth pr < 0 \<and> \<not> pr_compactMode pr then new_line pr else Some pr) (Print (''</'' @ name @ ''>'')))"

lemma close_tag_pretty:
  "prints pretty (j, a, d, ns) (\<lambda>pr. close_tag pr name) (if j then ''/>'' else close_line d (snd a) @ ''</'' @ name @ ''>'') (j, a, d, ns)"
proof (cases j)
  case True
  show ?thesis by (rule prints_cong [OF pm.prints_Print]) (use True in \<open>simp_all add: close_tag_def pretty_def\<close>)
next
  case False
  have "prints pretty (j, a, d, ns) (\<lambda>pr. if pr_textDepth pr < 0 \<and> \<not> pr_compactMode pr then new_line pr else Some pr) (close_line d (snd a)) (j, a, d, ns)"
    by (cases "snd a < 0"; rule prints_cong [OF prints_new_line] prints_cong [OF prints_Some]; simp add: pretty_def close_line_def)
  from prints_bind [OF this pm.prints_Print] show ?thesis
    by (rule prints_cong) (use False in \<open>simp_all add: close_tag_def pretty_def\<close>)
qed

definition close_rest :: "XMLPrinter \<Rightarrow> XMLPrinter option" where
  "close_rest pr =
     (let pr = (if pr_textDepth pr = pr_depth pr then pr\<lparr>pr_textDepth := -1\<rparr> else pr) in
      map_option (\<lambda>pr. pr\<lparr>pr_elementJustOpened := False\<rparr>) (if pr_depth pr = 0 \<and> \<not> pr_compactMode pr then Print [LF] pr else Some pr))"

lemma close_rest_pretty:
  "prints pretty (j, a, d, ns) close_rest (if d = 0 then [LF] else []) (False, (fst a, leave d (snd a)), d, ns)"
proof -
  let ?u = "\<lambda>pr. if pr_textDepth pr = pr_depth pr then pr\<lparr>pr_textDepth := -1\<rparr> else pr"
  let ?p = "\<lambda>pr. if pr_depth pr = 0 \<and> \<not> pr_compactMode pr then Print [LF] pr else Some pr" and ?b = "(j, (fst a, leave d (snd a)), d, ns)"
  have "prints pretty ?b ?p (if d = 0 then [LF] else []) ?b"
    by (cases "d = 0"; rule prints_cong [OF pm.prints_Print] prints_cong [OF prints_Some]; simp add: pretty_def)
  then have "prints pretty ?b (\<lambda>pr. map_option (\<lambda>pr. pr\<lparr>pr_elementJustOpened := False\<rparr>) (?p pr)) (if d = 0 then [LF] else []) (False, (fst a, leave d (snd a)), d, ns)"
    by (rule prints_after) (simp_all add: pretty_def)
  then have "prints pretty (j, a, d, ns) (\<lambda>pr. map_option (\<lambda>pr. pr\<lparr>pr_elementJustOpened := False\<rparr>) (?p (?u pr))) (if d = 0 then [LF] else [])
      (False, (fst a, leave d (snd a)), d, ns)"
    by (rule prints_update [rotated 3]) (auto simp: pretty_def leave_def)
  then show ?thesis by (rule prints_cong) (simp_all add: close_rest_def Let_def)
qed

lemma CloseElement_parts:
  "CloseElement pr =
     (let pr = pr\<lparr>pr_depth := pr_depth pr - 1\<rparr> in
      Option.bind (DynArray_Pop (pr_stack pr)) (\<lambda>(name, stk). Option.bind name (\<lambda>name.
        Option.bind (close_tag (pr\<lparr>pr_stack := stk\<rparr>) name) close_rest)))"
  by (simp add: CloseElement_def close_tag_def close_rest_def [abs_def] Let_def)

lemma close_pretty:
  "prints pretty (j, a, Suc d, ns @ [name]) CloseElement
     ((if j then ''/>'' else close_line d (snd a) @ ''</'' @ name @ ''>'') @ (if d = 0 then [LF] else [])) (False, (fst a, leave d (snd a)), d, ns)"
  (is "prints pretty ?a CloseElement ?s ?b")
  unfolding prints_def
proof (intro allI impI)
  fix m pr t n assume pr: "pretty ?a pr" "wrote m pr t (n + length ?s)"
  then have "holds (pr_stack pr) (ns @ [name])" by (simp add: pretty_def)
  then obtain stk where stk: "DynArray_Pop (pr_stack pr) = Some (Some name, stk)" "holds stk ns" by (rule Pop_holds)
  let ?pr = "pr\<lparr>pr_depth := pr_depth pr - 1, pr_stack := stk\<rparr>"
  have "pretty (j, a, d, ns) ?pr" "wrote m ?pr t (n + length ?s)"
    using pr stk(2) by (cases m; auto simp: pretty_def wrote_def)+
  from printsD [OF prints_bind [OF close_tag_pretty close_rest_pretty] this] obtain pr' where
    "Option.bind (close_tag ?pr name) close_rest = Some pr'" "pretty ?b pr'" "wrote m pr' (t @ ?s) n" by blast
  then show "\<exists>pr'. CloseElement pr = Some pr' \<and> pretty ?b pr' \<and> wrote m pr' (t @ ?s) n"
    using stk(1) by (auto simp: CloseElement_parts Let_def)
qed

subsection \<open>Trees\<close>

lemma pretty_children:
  assumes "\<And>x j a d ns. x \<in> set xs \<Longrightarrow> length ns + xml_height x < 2 ^ 30 - 1 \<Longrightarrow>
      prints pretty (j, a, d, ns) (Accept x) (seal j @ layout d a x @ end_line d x) (False, after d a x, d, ns)"
    "length ns + foldr max (map xml_height xs) 0 < 2 ^ 30 - 1"
  shows "prints pretty (j, a, d, ns) (Accept_children xs) (if xs = [] then [] else seal j @ layouts d a xs) (j \<and> xs = [], after_all d a xs, d, ns)"
  using assms
proof (induction xs arbitrary: j a)
  case Nil
  show ?case by (simp add: prints_def)
next
  case (Cons x xs)
  have "prints pretty (j, a, d, ns) (Accept x) (seal j @ layout d a x @ end_line d x) (False, after d a x, d, ns)" using Cons.prems by simp
  moreover have "prints pretty (False, after d a x, d, ns) (Accept_children xs) (if xs = [] then [] else seal False @ layouts d (after d a x) xs)
      (False, after_all d (after d a x) xs, d, ns)"
    using Cons.IH [of False] Cons.prems by simp
  ultimately have "prints pretty (j, a, d, ns) (\<lambda>pr. Option.bind (Accept x pr) (Accept_children xs))
      ((seal j @ layout d a x @ end_line d x) @ (if xs = [] then [] else seal False @ layouts d (after d a x) xs)) (False, after_all d (after d a x) xs, d, ns)"
    by (rule prints_bind)
  then have "prints pretty (j, a, d, ns) (Accept_children (x # xs)) (seal j @ layouts d a (x # xs)) (False, after_all d a (x # xs), d, ns)"
    unfolding after_all.simps by (rule prints_cong) (simp_all add: seal_def)
  then show ?case by (simp del: Accept_children.simps layouts.simps after_all.simps)
qed

lemma after_not_first: "fst (after_all d (False, t) xs) = False"
proof (induction xs arbitrary: t)
  case (Cons x xs)
  have "fst (after d (False, t) x) = False" by (cases x) simp_all
  then show ?case using Cons by (cases "after d (False, t) x") simp
qed simp

lemma pretty_tree:
  "length ns + xml_height x < 2 ^ 30 - 1 \<Longrightarrow> prints pretty (j, a, d, ns) (Accept x) (seal j @ layout d a x @ end_line d x) (False, after d a x, d, ns)"
proof (induction x arbitrary: j a d ns)
  case (XMLElement name attribs children)
  let ?b = "after_all (Suc d) (False, snd a) children"
  have IH: "prints pretty (True, (False, snd a), Suc d, ns @ [name]) (Accept_children children)
      (if children = [] then [] else seal True @ layouts (Suc d) (False, snd a) children) (children = [], ?b, Suc d, ns @ [name])"
    using pretty_children [of children "ns @ [name]" True "(False, snd a)" "Suc d"] XMLElement by simp
  have "length ns < 2 ^ 30 - 1" using XMLElement.prems by simp
  note enter = prints_bind [OF open_pretty [OF this] pm.prints_attributes]
  have "after d a (XMLElement name attribs children) = (fst ?b, leave d (snd ?b))" by (simp add: after_not_first)
  then show ?case unfolding \<open>after d a _ = _\<close>
    by (intro prints_cong [OF prints_bind [OF enter prints_bind [OF IH close_pretty]]])
      (simp_all add: VisitEnter_def seal_def end_line_def is_element_def)
next
  case (XMLText s cdata)
  show ?case using text_pretty [of j a d ns s cdata] by (simp add: end_line_def is_element_def)
next
  case (XMLComment s)
  show ?case using node_pretty [of j a d ns "''<!--'' @ s @ ''-->''"] by (simp add: end_line_def is_element_def PushComment_def [abs_def])
next
  case (XMLDeclaration s)
  show ?case using node_pretty [of j a d ns "''<?'' @ s @ ''?>''"] by (simp add: end_line_def is_element_def PushDeclaration_def [abs_def])
next
  case (XMLUnknown s)
  show ?case using node_pretty [of j a d ns "''<!'' @ s @ ''>''"] by (simp add: end_line_def is_element_def PushUnknown_def [abs_def])
qed

lemma document_layout:
  assumes "foldr max (map xml_height xs) 0 < 2 ^ 30 - 1" "length (layouts 0 (True, -1) xs) + 4 < 2 ^ 30"
  shows "\<exists>pr pr'. XMLPrinter_new file False = Some pr \<and>
    Document_Print (Some pr) \<lparr>doc_processEntities = True, doc_writeBOM = bom, doc_children = xs\<rparr> = Some pr' \<and>
    (let s = (if bom then BOM else []) @ layouts 0 (True, -1) xs in
     case file of None \<Rightarrow> take (nat (CStrSize pr')) (CStr pr') = map Some (s @ [NUL]) | Some f \<Rightarrow> pr_fp pr' = Some (f @ s))"
proof -
  let ?a = "(False, (True, - 1), 0, [])"
  obtain pr where pr: "XMLPrinter_new file False = Some pr" "pretty ?a pr" "pr_fp pr = file" "file = None \<longrightarrow> holds (pr_buffer pr) [NUL]"
    using XMLPrinter_start [of "file" False] by (auto simp: pretty_def)
  have ch: "prints pretty ?a (Accept_children xs) (layouts 0 (True, -1) xs) (False, after_all 0 (True, -1) xs, 0, [])"
    using pretty_children [OF pretty_tree, of xs "[]" False "(True, -1)" 0] assms(1) by (cases "xs = []") (simp_all add: seal_def)
  show ?thesis using pm.document_prints [OF ch pr(2-4) assms(2)] pr(1) unfolding BOM_def by blast
qed

section \<open>Loading\<close>

subsection \<open>White space\<close>

text \<open>A text that starts with a tag, after white space.\<close>

definition tagged :: "string \<Rightarrow> bool" where
  "tagged t \<longleftrightarrow> cur (SkipWhiteSpace t) = CHR ''<''"

lemma SkipWhiteSpace_append: "list_all IsWhiteSpace w \<Longrightarrow> SkipWhiteSpace (w @ r) = SkipWhiteSpace r"
  by (simp add: SkipWhiteSpace_dropWhile list_all_iff)

lemma Identify_skip:
  assumes "list_all IsWhiteSpace w" "SkipWhiteSpace r = [] \<or> tagged r"
  shows "Identify (w @ r) = Identify r"
  using assms by (auto simp: Identify_def Let_def SkipWhiteSpace_append tagged_def StringEqual_bracket)

lemma Node_skip:
  assumes "list_all IsWhiteSpace w" "SkipWhiteSpace r = [] \<or> tagged r"
  shows "Node_ParseDeep (Suc n) cfg (w @ r) ch e = Node_ParseDeep (Suc n) cfg r ch e"
proof (cases "r = []")
  case True
  moreover have "Identify w = ([], None)" using Identify_skip [OF assms(1), of "[]"] by (simp add: Identify_def)
  ultimately show ?thesis using assms(1) by (subst (1 2) Node_ParseDeep.simps) simp
qed (subst (1 2) Node_ParseDeep.simps, simp add: Identify_skip [OF assms])

lemma tagged_append: "tagged t \<Longrightarrow> tagged (t @ r)"
  by (induction t) (auto simp: tagged_def cur_def NUL_def)

lemma tagged_space: "list_all IsWhiteSpace w \<Longrightarrow> tagged (w @ t) = tagged t"
  by (simp add: tagged_def SkipWhiteSpace_append)

lemma reads_space:
  assumes "reads_node cfg x t" "tagged t" "list_all IsWhiteSpace w"
  shows "reads_node cfg x (w @ t)"
  using assms Node_skip [OF assms(3), of "t @ r" for r] by (auto simp: reads_node_def tagged_append)

lemma indent_space [simp]: "list_all IsWhiteSpace (indent d)" "list_all IsWhiteSpace (line d a)" "list_all IsWhiteSpace (close_line d t)" "list_all IsWhiteSpace (end_line d x)"
  by (auto simp: indent_def line_def close_line_def end_line_def list_all_iff IsWhiteSpace_def isspace_def IsUTF8Continuation_def code_def LF_def)

lemma tagged_layout: "\<not> plain_text x \<Longrightarrow> tagged (layout d a x)"
  by (cases x) (simp_all add: plain_text_def tagged_space tagged_def plain_chars cur_def SkipWhiteSpace_append)

lemma layout_bracket: "\<not> plain_text x \<Longrightarrow> 0 \<le> snd a \<Longrightarrow> \<exists>u. u \<noteq> [] \<and> layout d a x = CHR ''<'' # u"
  by (cases x) (auto simp: plain_text_def line_def)

lemma layout_nonempty: "wf_node x \<Longrightarrow> layout d a x \<noteq> []"
proof (cases "plain_text x")
  case True
  assume "wf_node x"
  then show ?thesis using True serialize_nonempty [of x] by (cases x) (auto simp: plain_text_def)
qed (use tagged_layout [of x d a] in \<open>auto simp: tagged_def cur_def NUL_def\<close>)

subsection \<open>Trees\<close>

lemma after_all_text: "xs \<noteq> [] \<Longrightarrow> plain_text (last xs) \<Longrightarrow> snd (after_all d a xs) = int d - 1"
proof (induction xs arbitrary: a)
  case (Cons x xs)
  then show ?case by (cases "xs = []"; cases x) (auto simp: plain_text_def)
qed simp

lemma text_before_tag:
  assumes "separated (x # xs)" "ends_by (x # xs) r" "plain_text x"
  shows "\<exists>u. u \<noteq> [] \<and> layouts (Suc d) (after (Suc d) a x) xs @ r = CHR ''<'' # u"
proof (cases xs)
  case (Cons y ys)
  then have "\<not> plain_text y" using assms by simp
  moreover have "0 \<le> snd (after (Suc d) a x)" using assms(3) by (cases x) (simp_all add: plain_text_def)
  ultimately show ?thesis using layout_bracket [of y "after (Suc d) a x" "Suc d"] Cons by auto
qed (use assms in \<open>simp add: ends_by_def\<close>)

lemma reads_layouts:
  "(\<And>x b. x \<in> set xs \<Longrightarrow> reads_node cfg x (layout (Suc d) b x) \<and> wf_node x) \<Longrightarrow> separated xs \<Longrightarrow> ends_by xs r \<Longrightarrow> length (layouts (Suc d) a xs @ r) \<le> n \<Longrightarrow>
   \<exists>m. length r \<le> m \<and> Node_ParseDeep n cfg (layouts (Suc d) a xs @ r) ch e = Node_ParseDeep m cfg r (ch @ map parsed_of xs) e"
proof (induction xs arbitrary: n ch a)
  case (Cons x xs)
  let ?r = "layouts (Suc d) (after (Suc d) a x) xs @ r"
  have x: "reads_node cfg x (layout (Suc d) a x)" "wf_node x" using Cons.prems(1) by simp_all
  have line: "layouts (Suc d) a (x # xs) @ r = layout (Suc d) a x @ ?r" by (simp add: end_line_def)
  obtain k where k: "length ?r \<le> k" "Node_ParseDeep n cfg (layout (Suc d) a x @ ?r) ch e = Node_ParseDeep k cfg ?r (ch @ [parsed_of x]) e"
  proof (rule reads_step [OF x(1) layout_nonempty [OF x(2)]])
    show "length (layout (Suc d) a x @ ?r) \<le> n" using Cons.prems(4) unfolding line .
    show "plain_text x \<longrightarrow> (\<exists>u. u \<noteq> [] \<and> ?r = CHR ''<'' # u)" using text_before_tag [OF Cons.prems(2,3)] by blast
  qed (rule that)
  moreover have "separated xs" "ends_by xs r" using Cons.prems(2,3) by (cases xs; simp add: ends_by_def)+
  ultimately show ?case using Cons.IH [OF _ _ _ k(1), of "ch @ [parsed_of x]"] Cons.prems(1) unfolding line by simp
qed auto

lemma reads_layout:
  assumes "set_processEntities cfg" "\<not> set_collapse cfg"
  shows "wf_node x \<Longrightarrow> reads_node cfg x (layout d a x)"
proof (induction x arbitrary: d a)
  case (XMLElement name attribs children)
  note wf = wf_attribs [OF XMLElement.prems]
  let ?b = "layouts (Suc d) (False, snd a) children" and ?c = "close_line d (snd (after_all (Suc d) (False, snd a) children))"
  have "Node_ParseDeep n cfg ((?b @ ?c) @ ''</'' @ name @ ''>'' @ r) [] e = Some (Some r, map parsed_of children, Some name, e)"
    if ne: "children \<noteq> []" and len: "length ((?b @ ?c) @ ''</'' @ name @ ''>'' @ r) \<le> n" for n r e
  proof -
    let ?r = "''</'' @ name @ ''>'' @ r"
    have "ends_by children (?c @ ?r)" using after_all_text [OF ne, of "Suc d" "(False, snd a)"] by (auto simp: ends_by_def close_line_def)
    then obtain m where m: "length (?c @ ?r) \<le> m" "Node_ParseDeep n cfg (?b @ ?c @ ?r) [] e = Node_ParseDeep m cfg (?c @ ?r) (map parsed_of children) e"
      using reads_layouts [of children cfg d "?c @ ?r" "(False, snd a)" n "[]" e] wf XMLElement.IH len by (auto simp: list_all_iff)
    moreover obtain k where "m = Suc k" using m(1) by (cases m) auto
    moreover have "tagged ?r" by (simp add: tagged_def plain_chars cur_def)
    ultimately show ?thesis using Node_skip [of ?c ?r k cfg] Node_closing [of name m cfg r] wf by simp
  qed
  then have "reads_node cfg (XMLElement name attribs children) (''<'' @ name @ concat (map attribute_text attribs) @
      (if children = [] then ''/>'' else ''>'' @ (?b @ ?c) @ ''</'' @ name @ ''>''))" (is "reads_node cfg ?x ?t")
    using wf by (intro reads_element_body [OF _ _ assms(1)]) auto
  then show ?case using reads_space [of cfg ?x ?t "line d a"] by (simp add: tagged_def plain_chars cur_def)
next
  case (XMLText s cdata)
  then show ?case using reads_all [OF assms XMLText] by simp
next
  case (XMLComment s)
  then show ?case using reads_space [OF reads_all [OF assms XMLComment], of "line d a"] by (simp add: tagged_def plain_chars cur_def)
next
  case (XMLDeclaration s)
  then show ?case using reads_space [OF reads_all [OF assms XMLDeclaration], of "line d a"] by (simp add: tagged_def plain_chars cur_def)
next
  case (XMLUnknown s)
  then show ?case using reads_space [OF reads_all [OF assms XMLUnknown], of "line d a"] by (simp add: tagged_def plain_chars cur_def)
qed

subsection \<open>Documents\<close>

lemma reads_document:
  assumes "set_processEntities cfg" "\<not> set_collapse cfg"
  shows "list_all wf_node xs \<Longrightarrow> list_all (\<lambda>x. \<not> plain_text x) xs \<Longrightarrow> list_all IsWhiteSpace w \<Longrightarrow> length (w @ layouts 0 a xs) \<le> n \<Longrightarrow>
    Node_ParseDeep n cfg (w @ layouts 0 a xs) ch e = Some (None, ch @ map parsed_of xs, None, e)"
proof (induction xs arbitrary: a w n ch)
  case Nil
  then show ?case using Node_skip [of w "[]" "n - 1" cfg ch e] by (cases n) (auto simp: Node_ParseDeep.simps [where p = "[]"])
next
  case (Cons x xs)
  let ?t = "w @ layout 0 a x" and ?r = "end_line 0 x @ layouts 0 (after 0 a x) xs"
  have x: "wf_node x" "\<not> plain_text x" using Cons.prems by simp_all
  have "reads_node cfg x ?t" using reads_layout [OF assms x(1)] tagged_layout [OF x(2)] Cons.prems(3) by (rule reads_space)
  then obtain k where "length ?r \<le> k" "Node_ParseDeep n cfg (?t @ ?r) ch e = Node_ParseDeep k cfg ?r (ch @ [parsed_of x]) e"
  proof (rule reads_step)
    show "?t \<noteq> []" using layout_nonempty [OF x(1)] by simp
    show "length (?t @ ?r) \<le> n" using Cons.prems(4) by simp
  qed (use x(2) that in auto)
  then show ?case using Cons.IH [of "end_line 0 x" "after 0 a x" k "ch @ [parsed_of x]"] Cons.prems(1,2) by simp
qed

lemma layout_no_NUL: "wf_node x \<Longrightarrow> NUL \<notin> set (layout d a x)"
proof (induction x arbitrary: d a)
  case (XMLElement name attribs children)
  have lines: "NUL \<notin> set w" if "list_all IsWhiteSpace w" for w using that by (auto simp: list_all_iff)
  have "NUL \<notin> set (layouts e b xs)" if "set xs \<subseteq> set children" for e b xs
    using that
  proof (induction xs arbitrary: b)
    case (Cons x xs)
    then have "NUL \<notin> set (layout e b x)" using XMLElement by (auto simp: list_all_iff)
    then show ?case using Cons lines [of "end_line e x"] by simp
  qed simp
  moreover have "NUL \<notin> set (serialize (XMLElement name attribs []))" using XMLElement.prems by (intro serialize_no_NUL) simp
  ultimately show ?case using lines [of "line d a"] lines [of "close_line d t" for t] by (auto simp: NUL_def)
qed (use serialize_no_NUL in \<open>fastforce simp: line_def indent_def LF_def NUL_def clean_def\<close>)+

lemma layouts_no_NUL: "list_all wf_node xs \<Longrightarrow> NUL \<notin> set (layouts d a xs)"
  by (induction xs arbitrary: a) (auto simp: layout_no_NUL [unfolded NUL_def] end_line_def LF_def NUL_def)

text \<open>C24: A document that was saved in the default, indented form is loaded as it was: line breaks and indentation
  are printed only where the parser skips them, also in elements that mix text and other nodes. Text is excluded
  outside of all elements, where XML does not allow it.\<close>

theorem pretty_round_trip:
  assumes "foldr max (map xml_height xs) 0 < 2 ^ 30 - 1" "length (layouts 0 (True, -1) xs) + 4 < 2 ^ 30"
    "list_all wf_node xs" "xs \<noteq> []" "list_all (\<lambda>x. \<not> plain_text x) xs" "set_processEntities cfg" "\<not> set_collapse cfg"
  shows "\<exists>s d' d''. SaveFile True False \<lparr>doc_processEntities = True, doc_writeBOM = bom, doc_children = xs\<rparr> e = Some (Some s, e) \<and>
    s = (if bom then BOM else []) @ layouts 0 (True, -1) xs \<and>
    LoadFile cfg (Some s) (length s) d = Some d' \<and>
    xd_errorID d' = XML_NO_ERROR \<and> xd_writeBOM d' = bom \<and> map node_of (xd_children d') = map Some xs \<and>
    (\<not> bom \<longrightarrow> Parse cfg s None d = Some d'' \<and> xd_errorID d'' = XML_NO_ERROR \<and> map node_of (xd_children d'') = map Some xs)"
proof -
  let ?t = "layouts 0 (True, -1) xs"
  have "SaveFile True False \<lparr>doc_processEntities = True, doc_writeBOM = bom, doc_children = xs\<rparr> e = Some (Some ((if bom then BOM else []) @ ?t), e)"
    using document_layout [OF assms(1,2), of "Some []" bom] by (auto simp: Let_def SaveFile_def)
  moreover have "map node_of (map parsed_of xs) = map Some xs" using assms(3) by (auto simp: list_all_iff node_of_parsed)
  moreover obtain u where u: "?t = CHR ''<'' # u" using assms(4,5) by (cases xs; cases "hd xs") (auto simp: plain_text_def line_def)
  moreover have node: "Node_ParseDeep (length ?t) cfg ?t [] XML_NO_ERROR = Some (None, map parsed_of xs, None, XML_NO_ERROR)"
    using reads_document [OF assms(6,7,3,5), of "[]" "(True, -1)" "length ?t" "[]" XML_NO_ERROR] by simp
  ultimately show ?thesis
    using LoadFile_text [OF node u layouts_no_NUL [OF assms(3)] refl, of bom d] Parse_text [OF node u, of d] by fastforce
qed

text \<open>A document of two lines and of mixed content.\<close>

theorem pretty_round_trip_witness:
  "\<exists>s d' d''. SaveFile True False \<lparr>doc_processEntities = True, doc_writeBOM = False,
      doc_children = [XMLElement ''a'' [] [XMLElement ''b'' [] [XMLText ''x'' False, XMLElement ''c'' [] []], XMLComment ''d'']]\<rparr> XML_NO_ERROR = Some (Some s, XML_NO_ERROR) \<and>
    s = ''<a>'' @ [LF] @ ''    <b>x<c/></b>'' @ [LF] @ ''    <!--d-->'' @ [LF] @ ''</a>'' @ [LF] \<and>
    LoadFile \<lparr>set_processEntities = True, set_collapse = False\<rparr> (Some s) (length s) XMLDocument_new = Some d' \<and>
    map node_of (xd_children d') = map Some [XMLElement ''a'' [] [XMLElement ''b'' [] [XMLText ''x'' False, XMLElement ''c'' [] []], XMLComment ''d'']]"
proof -
  let ?x = "XMLElement ''a'' [] [XMLElement ''b'' [] [XMLText ''x'' False, XMLElement ''c'' [] []], XMLComment ''d'']"
  have lay: "layouts 0 (True, -1) [?x] = ''<a>'' @ [LF] @ ''    <b>x<c/></b>'' @ [LF] @ ''    <!--d-->'' @ [LF] @ ''</a>'' @ [LF]"
    by (simp add: line_def close_line_def leave_def end_line_def indent_def is_element_def escape_def flag_chars numeral_eq_Suc)
  have "wf_node ?x" by code_simp
  then show ?thesis
    using pretty_round_trip [of "[?x]" "\<lparr>set_processEntities = True, set_collapse = False\<rparr>" False XML_NO_ERROR XMLDocument_new]
    unfolding lay by (auto simp: plain_text_def simp del: layouts.simps)
qed

text \<open>In an element of mixed content, a child with a text ends the mode in which no lines are broken.\<close>

theorem layout_breaks_mixed:
  "layouts 0 (True, -1) [XMLElement ''p'' [] [XMLText ''x'' False, XMLElement ''b'' [] [XMLText ''y'' False], XMLElement ''i'' [] []]] =
     ''<p>x<b>y</b>'' @ [LF] @ ''    <i/>'' @ [LF] @ ''</p>'' @ [LF]"
  by (simp add: line_def close_line_def leave_def end_line_def indent_def is_element_def escape_def flag_chars numeral_eq_Suc)

end
