(* ===== verification/Xml_Visit.thy ===== *)
theory Xml_Visit
  imports Xml_Parser "HOL-Library.Monad_Syntax"
begin

text \<open>
  Visitors of \<open>include/tinyxml2.h\<close> and what documents do with them in \<open>src/tinyxml2.cpp\<close>: the interface
  \<open>XMLVisitor\<close>, the \<open>Accept\<close> methods, the printer as a visitor, loading by name and the error message. The theorems: a
  visitor that always continues sees every node once, in document order; the printer is such a visitor; which
  nodes are left out when a visitor stops.
\<close>

section \<open>Visitors\<close>

text \<open>The methods of a visitor change its state and tell whether to continue; \<open>None\<close> is a crash.\<close>

record 's XMLVisitor =
  v_enter_document :: "xmldocument \<Rightarrow> 's \<Rightarrow> (bool \<times> 's) option"
  v_exit_document :: "xmldocument \<Rightarrow> 's \<Rightarrow> (bool \<times> 's) option"
  v_enter :: "string \<Rightarrow> (string \<times> string) list \<Rightarrow> 's \<Rightarrow> (bool \<times> 's) option"
  v_exit :: "string \<Rightarrow> 's \<Rightarrow> (bool \<times> 's) option"
  v_declaration :: "string \<Rightarrow> 's \<Rightarrow> (bool \<times> 's) option"
  v_text :: "string \<Rightarrow> bool \<Rightarrow> 's \<Rightarrow> (bool \<times> 's) option"
  v_comment :: "string \<Rightarrow> 's \<Rightarrow> (bool \<times> 's) option"
  v_unknown :: "string \<Rightarrow> 's \<Rightarrow> (bool \<times> 's) option"

text \<open>The methods of the base class.\<close>

definition XMLVisitor_default :: "'s XMLVisitor" where
  "XMLVisitor_default =
     \<lparr>v_enter_document = (\<lambda>doc s. Some (True, s)), v_exit_document = (\<lambda>doc s. Some (True, s)),
      v_enter = (\<lambda>element firstAttribute s. Some (True, s)), v_exit = (\<lambda>element s. Some (True, s)),
      v_declaration = (\<lambda>declaration s. Some (True, s)), v_text = (\<lambda>str cdata s. Some (True, s)),
      v_comment = (\<lambda>comment s. Some (True, s)), v_unknown = (\<lambda>unknown s. Some (True, s))\<rparr>"

fun node_Accept :: "'s XMLVisitor \<Rightarrow> xmlnode \<Rightarrow> 's \<Rightarrow> (bool \<times> 's) option"
  and nodes_Accept :: "'s XMLVisitor \<Rightarrow> xmlnode list \<Rightarrow> 's \<Rightarrow> 's option" where
  "node_Accept v (XMLElement name attribs children) s = do {
     (b, s) \<leftarrow> v_enter v name attribs s;
     s \<leftarrow> (if b then nodes_Accept v children s else Some s);
     v_exit v name s }"
| "node_Accept v (XMLText str cdata) s = v_text v str cdata s"
| "node_Accept v (XMLComment str) s = v_comment v str s"
| "node_Accept v (XMLDeclaration str) s = v_declaration v str s"
| "node_Accept v (XMLUnknown str) s = v_unknown v str s"
| "nodes_Accept v [] s = Some s"
| "nodes_Accept v (x # xs) s = do { (b, s) \<leftarrow> node_Accept v x s; if b then nodes_Accept v xs s else Some s }"

definition document_Accept :: "'s XMLVisitor \<Rightarrow> xmldocument \<Rightarrow> 's \<Rightarrow> (bool \<times> 's) option" where
  "document_Accept v doc s = do {
     (b, s) \<leftarrow> v_enter_document v doc s;
     s \<leftarrow> (if b then nodes_Accept v (doc_children doc) s else Some s);
     v_exit_document v doc s }"

section \<open>The printer as a visitor\<close>

definition VisitExit :: "string \<Rightarrow> XMLPrinter \<Rightarrow> (bool \<times> XMLPrinter) option" where
  "VisitExit element pr = map_option (Pair True) (CloseElement pr)"

definition Visit_text :: "string \<Rightarrow> bool \<Rightarrow> XMLPrinter \<Rightarrow> (bool \<times> XMLPrinter) option" where
  "Visit_text str cdata pr = map_option (Pair True) (PushText str cdata pr)"

definition Visit_comment :: "string \<Rightarrow> XMLPrinter \<Rightarrow> (bool \<times> XMLPrinter) option" where
  "Visit_comment str pr = map_option (Pair True) (PushComment str pr)"

definition Visit_declaration :: "string \<Rightarrow> XMLPrinter \<Rightarrow> (bool \<times> XMLPrinter) option" where
  "Visit_declaration str pr = map_option (Pair True) (PushDeclaration str pr)"

definition Visit_unknown :: "string \<Rightarrow> XMLPrinter \<Rightarrow> (bool \<times> XMLPrinter) option" where
  "Visit_unknown str pr = map_option (Pair True) (PushUnknown str pr)"

definition printer_visitor :: "XMLPrinter XMLVisitor" where
  "printer_visitor =
     \<lparr>v_enter_document = (\<lambda>doc pr. map_option (Pair True) (VisitEnter_document doc pr)), v_exit_document = (\<lambda>doc pr. Some (True, pr)),
      v_enter = (\<lambda>name attribs pr. map_option (Pair True) (VisitEnter name attribs pr)), v_exit = VisitExit,
      v_declaration = Visit_declaration, v_text = Visit_text, v_comment = Visit_comment, v_unknown = Visit_unknown\<rparr>"

section \<open>Documents\<close>

text \<open>\<open>LoadFile( const char* filename )\<close>: \<open>contents\<close> is \<open>None\<close> if the file cannot be opened.\<close>

definition LoadFile_name :: "xml_settings \<Rightarrow> string option \<Rightarrow> nat \<Rightarrow> XMLDocument \<Rightarrow> XMLDocument option" where
  "LoadFile_name cfg contents got d =
     (let d = Clear d in
      case contents of
        None \<Rightarrow> Some (SetError XML_ERROR_FILE_NOT_FOUND d)
      | Some s \<Rightarrow> LoadFile cfg (Some s) got d)"

definition XMLError_values :: "XMLError list" where
  "XMLError_values =
     [XML_NO_ERROR, XML_NO_ATTRIBUTE, XML_WRONG_ATTRIBUTE_TYPE, XML_ERROR_FILE_NOT_FOUND, XML_ERROR_FILE_COULD_NOT_BE_OPENED, XML_ERROR_FILE_READ_ERROR,
      XML_ERROR_ELEMENT_MISMATCH, XML_ERROR_PARSING_ELEMENT, XML_ERROR_PARSING_ATTRIBUTE, XML_ERROR_IDENTIFYING_TAG, XML_ERROR_PARSING_TEXT,
      XML_ERROR_PARSING_CDATA, XML_ERROR_PARSING_COMMENT, XML_ERROR_PARSING_DECLARATION, XML_ERROR_PARSING_UNKNOWN, XML_ERROR_EMPTY_DOCUMENT,
      XML_ERROR_MISMATCHED_ELEMENT, XML_ERROR_PARSING, XML_CAN_NOT_CONVERT_TEXT, XML_NO_TEXT_NODE]"

definition errorID_int :: "XMLError \<Rightarrow> int" where
  "errorID_int e = int (length (takeWhile (\<lambda>x. x \<noteq> e) XMLError_values))"

text \<open>A buffer of \<open>len\<close> characters that was zero, after \<open>snprintf( buf, len, "%s", str )\<close>; \<open>str\<close> is \<open>None\<close> for a null
  pointer.\<close>

definition print_buffer :: "nat \<Rightarrow> string option \<Rightarrow> string" where
  "print_buffer len str =
     (case str of None \<Rightarrow> replicate len NUL | Some t \<Rightarrow> take (len - 1) (zstr t) @ replicate (len - length (take (len - 1) (zstr t))) NUL)"

definition PrintError :: "XMLError \<Rightarrow> string option \<Rightarrow> string option \<Rightarrow> string" where
  "PrintError errorID errorStr1 errorStr2 =
     (if errorID \<noteq> XML_NO_ERROR then
        let buf1 = print_buffer 20 errorStr1; buf2 = print_buffer 20 errorStr2
        in ''XMLDocument error id='' @ dec_int (errorID_int errorID) @ '' str1='' @ zstr buf1 @ '' str2='' @ zstr buf2 @ [LF]
      else [])"

section \<open>What is visited\<close>

text \<open>The calls of a visit that is not stopped.\<close>

datatype visit =
    Enter string "(string \<times> string) list"
  | Exit string
  | OnText string bool
  | OnComment string
  | OnDeclaration string
  | OnUnknown string

fun visits :: "xmlnode \<Rightarrow> visit list" where
  "visits (XMLElement name attribs children) = Enter name attribs # concat (map visits children) @ [Exit name]"
| "visits (XMLText str cdata) = [OnText str cdata]"
| "visits (XMLComment str) = [OnComment str]"
| "visits (XMLDeclaration str) = [OnDeclaration str]"
| "visits (XMLUnknown str) = [OnUnknown str]"

fun call_visit :: "'s XMLVisitor \<Rightarrow> visit \<Rightarrow> 's \<Rightarrow> (bool \<times> 's) option" where
  "call_visit v (Enter name attribs) s = v_enter v name attribs s"
| "call_visit v (Exit name) s = v_exit v name s"
| "call_visit v (OnText str cdata) s = v_text v str cdata s"
| "call_visit v (OnComment str) s = v_comment v str s"
| "call_visit v (OnDeclaration str) s = v_declaration v str s"
| "call_visit v (OnUnknown str) s = v_unknown v str s"

fun call_visits :: "'s XMLVisitor \<Rightarrow> visit list \<Rightarrow> 's \<Rightarrow> 's option" where
  "call_visits v [] s = Some s"
| "call_visits v (x # xs) s = do { (b, s) \<leftarrow> call_visit v x s; call_visits v xs s }"

text \<open>A visitor that always continues.\<close>

definition continues :: "'s XMLVisitor \<Rightarrow> bool" where
  "continues v \<longleftrightarrow> (\<forall>x s b s'. call_visit v x s = Some (b, s') \<longrightarrow> b) \<and>
     (\<forall>doc s b s'. v_enter_document v doc s = Some (b, s') \<or> v_exit_document v doc s = Some (b, s') \<longrightarrow> b)"

lemma continuesD: "continues v \<Longrightarrow> call_visit v x s = Some (b, s') \<Longrightarrow> b = True"
  unfolding continues_def by blast

lemma call_visits_append: "call_visits v (xs @ ys) s = Option.bind (call_visits v xs s) (call_visits v ys)"
proof (induction xs arbitrary: s)
  case (Cons x xs)
  then show ?case by (cases "call_visit v x s") auto
qed simp

lemma call_visits_one: "continues v \<Longrightarrow> call_visit v x s = map_option (Pair True) (call_visits v [x] s)"
proof (cases "call_visit v x s")
  case (Some r)
  moreover assume "continues v"
  ultimately show ?thesis using continuesD [of v x s "fst r" "snd r"] by (cases r) simp
qed simp

lemma nodes_Accept_all:
  assumes "\<And>x s. x \<in> set xs \<Longrightarrow> node_Accept v x s = map_option (Pair True) (call_visits v (visits x) s)"
  shows "nodes_Accept v xs s = call_visits v (concat (map visits xs)) s"
  using assms
proof (induction xs arbitrary: s)
  case (Cons x xs)
  then show ?case by (cases "call_visits v (visits x) s") (auto simp: call_visits_append)
qed simp

lemma node_Accept_all:
  assumes "continues v"
  shows "node_Accept v x s = map_option (Pair True) (call_visits v (visits x) s)"
proof (induction x arbitrary: s)
  case (XMLElement name attribs children)
  have ch: "nodes_Accept v children s = call_visits v (concat (map visits children)) s" for s
    using XMLElement by (rule nodes_Accept_all)
  show ?case
  proof (cases "v_enter v name attribs s")
    case (Some r)
    then obtain s1 where s1: "v_enter v name attribs s = Some (True, s1)" using continuesD [OF assms, of "Enter name attribs" s "fst r" "snd r"] by (cases r) simp
    show ?thesis
    proof (cases "call_visits v (concat (map visits children)) s1")
      case (Some s2)
      then show ?thesis using s1 ch call_visits_one [OF assms, of "Exit name" s2] by (simp add: call_visits_append)
    qed (use s1 ch in \<open>simp add: call_visits_append\<close>)
  qed simp
qed (use call_visits_one [OF assms, of "OnText a b" for a b] call_visits_one [OF assms, of "OnComment a" for a]
    call_visits_one [OF assms, of "OnDeclaration a" for a] call_visits_one [OF assms, of "OnUnknown a" for a] in simp_all)

text \<open>A visitor whose methods never return false is called exactly once for every node of a document, in the
  order of the text: for an element before and after everything inside of it.\<close>

theorem accept_visits_all:
  assumes "continues v" "v_enter_document v doc s = Some (b, s1)" "call_visits v (concat (map visits (doc_children doc))) s1 = Some s2"
  shows "document_Accept v doc s = v_exit_document v doc s2 \<and> b"
proof -
  have "b" using assms(1,2) unfolding continues_def by blast
  moreover have "nodes_Accept v (doc_children doc) s1 = Some s2"
    using nodes_Accept_all [of "doc_children doc" v s1] node_Accept_all [OF assms(1)] assms(3) by simp
  ultimately show ?thesis using assms(2) by (simp add: document_Accept_def)
qed

text \<open>A visitor that collects its calls.\<close>

definition collector :: "(visit \<Rightarrow> bool) \<Rightarrow> visit list XMLVisitor" where
  "collector go =
     \<lparr>v_enter_document = (\<lambda>doc s. Some (True, s)), v_exit_document = (\<lambda>doc s. Some (True, s)),
      v_enter = (\<lambda>name attribs s. Some (go (Enter name attribs), s @ [Enter name attribs])), v_exit = (\<lambda>name s. Some (go (Exit name), s @ [Exit name])),
      v_declaration = (\<lambda>str s. Some (go (OnDeclaration str), s @ [OnDeclaration str])), v_text = (\<lambda>str cdata s. Some (go (OnText str cdata), s @ [OnText str cdata])),
      v_comment = (\<lambda>str s. Some (go (OnComment str), s @ [OnComment str])), v_unknown = (\<lambda>str s. Some (go (OnUnknown str), s @ [OnUnknown str]))\<rparr>"

lemma collector_call: "call_visit (collector go) x s = Some (go x, s @ [x])"
  by (cases x) (simp_all add: collector_def)

lemma collector_continues: "continues (collector (\<lambda>_. True))"
  by (simp add: continues_def collector_call) (simp add: collector_def)

lemma collector_calls: "call_visits (collector go) xs s = Some (s @ xs)"
  by (induction xs arbitrary: s) (simp_all add: collector_call)

theorem accept_visits_all_witness:
  "document_Accept (collector (\<lambda>_. True)) \<lparr>doc_processEntities = True, doc_writeBOM = False,
     doc_children = [XMLElement ''a'' [] [XMLText ''t'' False, XMLElement ''b'' [] []], XMLComment ''c'']\<rparr> [] =
   Some (True, [Enter ''a'' [], OnText ''t'' False, Enter ''b'' [], Exit ''b'', Exit ''a'', OnComment ''c''])"
  using accept_visits_all [OF collector_continues, of "\<lparr>doc_processEntities = True, doc_writeBOM = False,
     doc_children = [XMLElement ''a'' [] [XMLText ''t'' False, XMLElement ''b'' [] []], XMLComment ''c'']\<rparr>" "[]" True "[]"]
  by (simp only: collector_calls) (simp add: collector_def)

text \<open>The printer that accepts a document through the interface of visitors does what \<open>Document_Accept\<close> does, which
  the theorems on printing are about.\<close>

lemma printer_nodes:
  assumes "\<And>x pr. x \<in> set xs \<Longrightarrow> node_Accept printer_visitor x pr = map_option (Pair True) (Accept x pr)"
  shows "nodes_Accept printer_visitor xs pr = Accept_children xs pr"
  using assms
proof (induction xs arbitrary: pr)
  case (Cons x xs)
  then show ?case by (cases "Accept x pr") auto
qed simp

lemma printer_node: "node_Accept printer_visitor x pr = map_option (Pair True) (Accept x pr)"
proof (induction x arbitrary: pr)
  case (XMLElement name attribs children)
  have ch: "nodes_Accept printer_visitor children pr = Accept_children children pr" for pr using XMLElement by (rule printer_nodes)
  show ?case
  proof (cases "VisitEnter name attribs pr")
    case (Some pr1)
    then show ?thesis using ch by (cases "Accept_children children pr1") (auto simp: printer_visitor_def VisitExit_def)
  qed (simp add: printer_visitor_def)
qed (simp_all add: printer_visitor_def Visit_text_def Visit_comment_def Visit_declaration_def Visit_unknown_def)

theorem printer_visits:
  "document_Accept printer_visitor doc pr = map_option (Pair True) (Document_Accept doc pr)"
proof -
  have enter: "v_enter_document printer_visitor doc pr = map_option (Pair True) (VisitEnter_document doc pr)"
    "v_exit_document printer_visitor doc pr' = Some (True, pr')" for pr' by (simp_all add: printer_visitor_def)
  have ch: "nodes_Accept printer_visitor (doc_children doc) pr' = Accept_children (doc_children doc) pr'" for pr'
    by (rule printer_nodes [OF printer_node])
  show ?thesis
  proof (cases "VisitEnter_document doc pr")
    case (Some pr1)
    then show ?thesis by (cases "Accept_children (doc_children doc) pr1") (simp_all add: document_Accept_def Document_Accept_def enter ch)
  qed (simp add: document_Accept_def Document_Accept_def enter)
qed

text \<open>An element whose \<open>VisitEnter\<close> returns false: its children are left out, but its siblings are visited.\<close>

theorem visit_stop_keeps_siblings:
  "document_Accept (collector (\<lambda>x. x \<noteq> Enter ''a'' [])) \<lparr>doc_processEntities = True, doc_writeBOM = False,
     doc_children = [XMLElement ''a'' [] [XMLText ''t'' False], XMLElement ''b'' [] []]\<rparr> [] =
   Some (True, [Enter ''a'' [], Exit ''a'', Enter ''b'' [], Exit ''b''])"
  by (simp add: document_Accept_def collector_def)

section \<open>Loading and errors\<close>

lemma dec_int_two: "0 \<le> n \<Longrightarrow> n < 100 \<Longrightarrow> length (dec_int n) \<le> 2"
  using dec_nat.simps [of "nat n"] dec_nat.simps [of "nat n div 10"] by (auto simp: dec_int_def)

lemma zstr_padded: "NUL \<notin> set u \<Longrightarrow> zstr (u @ replicate k NUL) = u"
  unfolding zstr_def by (subst takeWhile_append2) (auto simp: takeWhile_replicate)

lemma zstr_buffer: "zstr (print_buffer 20 str) = (case str of None \<Rightarrow> [] | Some t \<Rightarrow> take 19 (zstr t))"
proof (cases str)
  case None
  then show ?thesis using zstr_padded [of "[]" 20] by (simp add: print_buffer_def)
next
  case (Some t)
  have "NUL \<notin> set (take 19 (zstr t))" unfolding zstr_def by (auto dest!: in_set_takeD set_takeWhileD)
  then show ?thesis using Some zstr_padded by (simp add: print_buffer_def)
qed

text \<open>Loading by name and loading an open file give the same document; the message of an error is one line that
  quotes at most nineteen characters of each string, and there is none without an error.\<close>

theorem error_message_bounded:
  assumes "PrintError e s1 s2 = msg"
  shows "LoadFile_name cfg contents got d = LoadFile cfg contents got d \<and> (msg = [] \<longleftrightarrow> e = XML_NO_ERROR) \<and> length msg \<le> 74 \<and>
    (e \<noteq> XML_NO_ERROR \<longrightarrow> (\<exists>u1 u2. msg = ''XMLDocument error id='' @ dec_int (errorID_int e) @ '' str1='' @ u1 @ '' str2='' @ u2 @ [LF] \<and>
      length u1 \<le> 19 \<and> length u2 \<le> 19 \<and> (\<forall>t. s1 = Some t \<longrightarrow> u1 = take 19 (zstr t)) \<and> (\<forall>t. s2 = Some t \<longrightarrow> u2 = take 19 (zstr t))))"
proof -
  have "LoadFile_name cfg contents got d = LoadFile cfg contents got d"
    by (cases contents) (simp_all add: LoadFile_name_def LoadFile_def Let_def Clear_def)
  moreover have "length (takeWhile (\<lambda>x. x \<noteq> e) XMLError_values) \<le> length XMLError_values" by (rule length_takeWhile_le)
  then have "length (dec_int (errorID_int e)) \<le> 2" by (intro dec_int_two) (simp_all add: errorID_int_def XMLError_values_def)
  moreover have z: "length (zstr (print_buffer 20 str)) \<le> 19" for str by (simp add: zstr_buffer split: option.split)
  moreover have "length msg \<le> 74" using assms calculation(2) z [of s1] z [of s2] by (auto simp: PrintError_def Let_def)
  moreover have "\<exists>u1 u2. msg = ''XMLDocument error id='' @ dec_int (errorID_int e) @ '' str1='' @ u1 @ '' str2='' @ u2 @ [LF] \<and>
      length u1 \<le> 19 \<and> length u2 \<le> 19 \<and> (\<forall>t. s1 = Some t \<longrightarrow> u1 = take 19 (zstr t)) \<and> (\<forall>t. s2 = Some t \<longrightarrow> u2 = take 19 (zstr t))" if "e \<noteq> XML_NO_ERROR"
    using assms that z by (intro exI [of _ "zstr (print_buffer 20 s1)"] exI [of _ "zstr (print_buffer 20 s2)"]) (auto simp: PrintError_def Let_def zstr_buffer)
  moreover have "msg = [] \<longleftrightarrow> e = XML_NO_ERROR" unfolding assms [symmetric] by (simp add: PrintError_def Let_def)
  ultimately show ?thesis by blast
qed

text \<open>A long string is cut.\<close>

theorem error_message_bounded_witness:
  "PrintError XML_ERROR_FILE_NOT_FOUND (Some ''a/very/long/name/of/a.file'') None = ''XMLDocument error id=3 str1=a/very/long/name/of str2='' @ [LF] \<and>
   length (PrintError XML_ERROR_FILE_NOT_FOUND (Some ''a/very/long/name/of/a.file'') None) \<le> 74"
proof
  have "char_of (51 :: nat) = CHR ''3''" by code_simp
  then show "PrintError XML_ERROR_FILE_NOT_FOUND (Some ''a/very/long/name/of/a.file'') None = ''XMLDocument error id=3 str1=a/very/long/name/of str2='' @ [LF]"
    unfolding PrintError_def Let_def zstr_buffer by (simp add: zstr_def NUL_def errorID_int_def XMLError_values_def dec_int_def dec_nat.simps)
  show "length (PrintError XML_ERROR_FILE_NOT_FOUND (Some ''a/very/long/name/of/a.file'') None) \<le> 74"
    using error_message_bounded [OF refl] by blast
qed

end
