(* ===== verification/Spec2Isabelle.thy ===== *)
theory Spec2Isabelle
  imports CJson_Print BlmClient BlmHttp Sqlite_Life Sqlite_Binary BlmJson Xml_Life
    BlmSync Xml_Pretty Xml_Visit
begin

text \<open>
  Verification of the BLMLink SDK, a C++ library for clients that keep a long connection to a server.

  \<^bold>\<open>The program.\<close> \<open>src/blmcomm.cpp\<close> holds the core: an ioqueue with timers, a client with its candidate
  connections and its TCP object, a binary message protocol, and HTTP requests. It runs on the C library
  PJLIB, whose sockets, locks, semaphores and clock are parameters here. \<open>src/blmutil.cpp\<close> wraps zlib, Base64,
  digests, RC4 and AES for it and shows cJSON items as the class \<open>Json\<close>; \<open>src/util_fun.cpp\<close> has the string
  helpers and the singletons; \<open>src/blmbase.cpp\<close> the log filter, the time arithmetic and the pool between
  producers and consumers. The repository carries three libraries in source form for its users:
  cJSON (\<open>src/imp/cJSON.c\<close>), CppSQLite3 (\<open>src/CppSQLite3.cpp\<close>) and TinyXML (\<open>src/tinyxml2.cpp\<close>), and the
  ciphers of PolarSSL under \<open>third-party\<close>.

  \<^bold>\<open>The theories.\<close>
  \<^item> \<open>Blm_Prelude\<close>: machine words, byte order, lists; \<open>C_Strings\<close>: characters and number formats of the C
    library. The lemmas there are shared by all components.
  \<^item> \<open>Arc4\<close>, \<open>Aes_Tables\<close>, \<open>Aes\<close>, \<open>Base64\<close>, \<open>Md_Stream\<close>, \<open>Md5\<close>, \<open>Sha1\<close> (\<open>third-party/polarssl/library\<close>): each cipher and
    digest as the C code computes it. Lemmas: the modes undo each other, the digests are those of the
    standards for every way to cut the input, the Base64 decoder stays in its buffer. \<open>Md_Stream\<close> is the
    buffering that both digests share.
  \<^item> \<open>CJson\<close>, \<open>CJson_Parse\<close>, \<open>CJson_Print\<close> (\<open>src/imp/cJSON.c\<close>): parser and printer over values; the parser ends on
    every text and stays in it, the printer stays in its buffers, and parsing undoes printing.
    \<open>CJson_Heap\<close> has the linked items in a store of addresses: the operations on arrays and objects are those on
    lists, and deletion frees what is owned. \<open>BlmJson\<close> is the class \<open>Json\<close> over them.
  \<^item> \<open>Util_Fun\<close>, \<open>BlmUtil\<close>, \<open>BlmBase\<close>: the helpers. Splitting, joining and replacing strings, the wrappers with their
    buffers and loops, and the pool as a step relation over interleaved producers and consumers.
  \<^item> \<open>Stl_Heap\<close>, \<open>BlmTimer\<close>: the heap operations of the standard library as a locale, and the timers of the ioqueue
    on top of them: registration keeps the order, a poll ends and calls the due timers once.
  \<^item> \<open>BlmSync\<close>: the classes that own objects of PJLIB (caching pool, memory pool, lock, event, semaphore, thread,
    ioqueue, TCP object), over the functions of PJLIB as a record of parameters. The lemmas show that a destructor
    gives back exactly what its constructor took, on the error paths too.
  \<^item> \<open>BlmMsg\<close>, \<open>BlmClient\<close>, \<open>BlmHttp\<close>: framing, encoding and dispatch of messages; the life of candidates and
    connection as a step relation with reachable states; the life of an HTTP request.
  \<^item> \<open>Sqlite_Exception\<close>, \<open>Sqlite_Owner\<close>, \<open>Sqlite_Query\<close>, \<open>Sqlite_Table\<close>, \<open>Sqlite_DB\<close>, \<open>Sqlite_Binary\<close>, \<open>Sqlite_Life\<close>
    (\<open>src/CppSQLite3.cpp\<close>): every method in a monad with exceptions and crashes, over a record of the
    functions of SQLite. The locale of \<open>Sqlite_Owner\<close> states who owns a handle and is interpreted for queries,
    tables and statements; the lemmas show that handles are released once, access by name is access by index,
    and the binary encoding is invertible.
  \<^item> \<open>Xml_Mem\<close>, \<open>Xml_Util\<close>, \<open>Xml_StrPair\<close>, \<open>Xml_Printer\<close>, \<open>Xml_Parser\<close> (\<open>src/tinyxml2.cpp\<close>, \<open>include/tinyxml2.h\<close>): the
    array and the pool (with the locale of an allocator), the conversion of characters and numbers, the strings
    that are translated in place, the printer, and the parser. The lemmas show that the translation stays in
    its piece, that it undoes the escaping of the printer, that a printed tree is its serialisation, that the
    parser returns on every text, and that it gives a saved tree back. \<open>Xml_Printer\<close> states the printing of a tree once,
    in the locale of a printer mode, and interprets it for the compact mode; \<open>Xml_Pretty\<close> interprets it for the indented
    mode and shows its round trip. \<open>Xml_Visit\<close> has the visitors: a visitor that never stops sees every node in document
    order, the printer is such a visitor, and the error messages stay in their buffers.
  \<^item> \<open>Xml_Dom\<close>, \<open>Xml_Attr\<close> (the same files): the linked nodes of a document and their attributes in a store, with
    insertion, deletion, search, queries, copies and handles. The lemmas show that the links behave as lists of
    children (with the locale of an operation that appends a child) and as association lists of attributes,
    that deletion frees exactly what is below a node, and that searches and handles end and do not crash. \<open>Xml_Life\<close> has the
    constructor and the destructor of a document and its runs: permitted operations never crash, the pools count
    the nodes that are not linked, and the checks of the destructor are characterised.

  \<^bold>\<open>How code becomes definitions.\<close> A class or struct is a record, its methods are functions that return the
  changed record; pointers are addresses into an explicit store where aliasing or ownership matters. A
  crash (an access outside of a block, to a deleted object, through a null pointer) is the value \<open>None\<close>, or a
  constructor of its own where exceptions and crashes have to be told apart. Integers whose overflow the
  code can reach are words; the others are integers, with the bound as a hypothesis or as a crash.
  Callbacks and external libraries are functions in the arguments.

  \<^bold>\<open>Loops and bounds.\<close> Loops over data are structural or have a measure. The loops that may run for ever (the
  growing buffers of zlib, \<open>replaceAll\<close>, the poll of the timers, the deletion of cyclic items) are partial
  functions with \<open>None\<close> for no result, and the theorems state when they return. The parsers of cJSON and
  TinyXML count their depth with fuel; the length of the text is shown to be enough. The arrays of TinyXML hold less than
  \<open>2 ^ 30\<close> elements, because their capacity, an \<open>int\<close>, is doubled.

  \<^bold>\<open>Not modelled.\<close> The
  self tests, hardware paths and GCM mode of PolarSSL and its ciphers that the SDK does not call; PJLIB,
  SQLite and zlib, of which the repository has only headers or vendored sources that the SDK calls through
  parameters here; the example program, which only calls the library; the scheduling of threads by PJLIB,
  beyond the interleavings of the pool.
\<close>

end
